(* ===== verification/Prelude.thy ===== *)
theory Prelude
  imports Main "HOL-Library.Word" "HOL-Library.Char_ord"
begin

text \<open>
  Shared vocabulary of the development: the fixed-width integer types of the sources, the
  reading of a \<^verbatim>\<open>char\<close> as an unsigned byte, decimal printing (\<^verbatim>\<open>std::to_string\<close>), and
  the generic facts on words, lists and digits that the component theories use.
  The collections \<open>wval\<close> (values of word operations as natural numbers) and
  \<open>byteval\<close> (values of characters) carry most of the arithmetic proofs.
\<close>

unbundle bit_operations_syntax

named_theorems wval
named_theorems byteval

type_synonym u8 = "8 word"
type_synonym u16 = "16 word"
type_synonym u32 = "32 word"
type_synonym u64 = "64 word"

section \<open>Characters as bytes\<close>

abbreviation byte :: "char \<Rightarrow> u8" where
  "byte c \<equiv> of_char c"

abbreviation code :: "char \<Rightarrow> nat" where
  "code c \<equiv> of_char c"

lemma unat_byte [simp, byteval]: "unat (byte c) = code c"
proof -
  have "byte c = of_nat (code c)"
    by (simp add: of_nat_of_char)
  moreover have "code c < 2 ^ LENGTH(8)"
    using nat_of_char_less_256 [of c] by simp
  ultimately show ?thesis
    by (simp only: unat_of_nat) simp
qed

lemma code_char_of [simp, byteval]: "n < 256 \<Longrightarrow> code (char_of (n :: nat)) = n"
  by simp

text \<open>\<^verbatim>\<open>static_cast<char>(w)\<close> of a value that is truncated to eight bits.\<close>

definition to_char :: "'a::len word \<Rightarrow> char" where
  "to_char w = char_of (unat w)"

lemma code_to_char [byteval]: "code (to_char w) = unat w mod 256"
  by (simp add: to_char_def)

lemma to_char_byte [simp]: "to_char (byte c) = c"
  by (simp add: to_char_def)

lemma byte_to_char: "byte (to_char w) = of_nat (unat w)"
proof -
  have "unat (byte (to_char w)) = unat (of_nat (unat w) :: u8)"
    by (simp only: unat_byte code_to_char unat_of_nat) simp
  then show ?thesis by (simp only: word_unat_eq_iff)
qed

section \<open>Values of word operations\<close>

lemma unat_and_mask [wval]: "unat (w AND mask n) = unat w mod 2 ^ n"
  for w :: "'a::len word"
  by (simp only: unsigned_take_bit_eq flip: take_bit_eq_mask) (simp only: take_bit_eq_mod)

lemma unat_and_masks [wval]:
  "unat (w AND 0x7) = unat w mod 8"
  "unat (w AND 0xF) = unat w mod 16"
  "unat (w AND 0x1F) = unat w mod 32"
  "unat (w AND 0x3F) = unat w mod 64"
  "unat (w AND 0xFF) = unat w mod 256"
  for w :: "'a::len word"
  using unat_and_mask [of w 3] unat_and_mask [of w 4] unat_and_mask [of w 5]
    unat_and_mask [of w 6] unat_and_mask [of w 8]
  by (simp_all add: mask_eq_exp_minus_1)

lemma or_low_bits_nat: "2 ^ n dvd a \<Longrightarrow> b < 2 ^ n \<Longrightarrow> a OR b = a + b"
  for a b :: nat
proof -
  assume d: "2 ^ n dvd a" and b: "b < 2 ^ n"
  from d have ta: "take_bit n a = 0" by (simp add: take_bit_eq_mod dvd_eq_mod_eq_0)
  from b have tb: "take_bit n b = b" by (simp add: take_bit_nat_eq_self)
  have "a AND b = a AND take_bit n b" by (simp only: tb)
  also have "\<dots> = take_bit n a AND b"
    by (simp add: take_bit_eq_mask ac_simps)
  also have "\<dots> = 0" by (simp add: ta)
  finally show ?thesis by (simp add: disjunctive_add_eq_or)
qed

lemma unat_or_low_bits:
  "2 ^ n dvd unat a \<Longrightarrow> unat b < 2 ^ n \<Longrightarrow> unat (a OR b) = unat a + unat b"
  for a b :: "'a::len word"
  by (simp add: unsigned_or_eq or_low_bits_nat)

lemma unat_push_bit [wval]: "unat (push_bit n w) = unat w * 2 ^ n mod 2 ^ LENGTH('a)"
  for w :: "'a::len word"
  by (simp only: unsigned_push_bit_eq) (simp only: push_bit_eq_mult take_bit_eq_mod)

lemma unat_drop_bit [wval]: "unat (drop_bit n w) = unat w div 2 ^ n"
  for w :: "'a::len word"
  by (simp only: unat_drop_bit_eq) (simp only: drop_bit_eq_div)

lemma unat_ucast_up:
  "LENGTH('a) \<le> LENGTH('b) \<Longrightarrow> unat (ucast w :: 'b::len word) = unat w"
  for w :: "'a::len word"
  by (simp add: unsigned_ucast_eq take_bit_nat_eq_self order_less_le_trans [OF unsigned_less])

lemma unat_ucast_mod: "unat (ucast w :: 'b::len word) = unat w mod 2 ^ LENGTH('b)"
  for w :: "'a::len word"
  by (simp add: unsigned_ucast_eq take_bit_eq_mod)

lemma unat_lt_u8: "unat (w :: u8) < 256"
  using unsigned_less [of w, where ?'a = nat] by simp

lemma unat_lt_u32: "unat (w :: u32) < 4294967296"
  using unsigned_less [of w, where ?'a = nat] by simp

lemma unat_lt_u64: "unat (w :: u64) < 18446744073709551616"
  using unsigned_less [of w, where ?'a = nat] by simp

text \<open>The bit test for powers of two, \<^verbatim>\<open>(v & (v - 1)) == 0\<close>.\<close>

lemma power_of_two_and: "(v::nat) \<noteq> 0 \<Longrightarrow> v AND (v - 1) = 0 \<longleftrightarrow> (\<exists>k. v = 2 ^ k)"
proof (induction v rule: less_induct)
  case (less v)
  show ?case
  proof (cases "even v")
    case True
    then obtain m where m: "v = 2 * m" by (auto elim: evenE)
    with less.prems have m0: "m \<noteq> 0" "m < v" by auto
    have "v - 1 = 1 + 2 * (m - 1)" using m m0 by simp
    then have "v AND (v - 1) = 2 * (m AND (m - 1))"
      using m by (simp add: and_rec [of "2 * m"])
    moreover have "(\<exists>k. v = 2 ^ k) \<longleftrightarrow> (\<exists>k. m = 2 ^ k)"
    proof
      assume "\<exists>k. v = 2 ^ k"
      then obtain k where "2 * m = 2 ^ k" using m by auto
      moreover from this obtain j where "k = Suc j" by (cases k) auto
      ultimately show "\<exists>k. m = 2 ^ k" by auto
    next
      assume "\<exists>k. m = 2 ^ k"
      then show "\<exists>k. v = 2 ^ k" using m by (metis power_Suc)
    qed
    ultimately show ?thesis using less.IH [OF m0(2) m0(1)] by simp
  next
    case False
    then obtain m where m: "v = 2 * m + 1" by (auto elim: oddE)
    have and_v: "v AND (v - 1) = 2 * m"
      using m by (simp add: and_rec [of "Suc (2 * m)"])
    show ?thesis
    proof
      assume "v AND (v - 1) = 0"
      with and_v m have "v = 2 ^ 0" by simp
      then show "\<exists>k. v = 2 ^ k" ..
    next
      assume "\<exists>k. v = 2 ^ k"
      then obtain k where k: "v = 2 ^ k" ..
      have "k = 0" using k False by (cases k) auto
      then show "v AND (v - 1) = 0" using k by simp
    qed
  qed
qed

section \<open>Decimal printing\<close>

text \<open>\<^verbatim>\<open>std::to_string\<close> of an unsigned and of a signed integer.\<close>

definition digit_char :: "nat \<Rightarrow> char" where
  "digit_char d = char_of (48 + d)"

function decimal_of_nat :: "nat \<Rightarrow> string" where
  "decimal_of_nat n =
     (if n < 10 then [digit_char n] else decimal_of_nat (n div 10) @ [digit_char (n mod 10)])"
  by pat_completeness auto
termination by (relation "measure id") auto

declare decimal_of_nat.simps [simp del]

definition decimal_of_int :: "int \<Rightarrow> string" where
  "decimal_of_int i = (if i < 0 then CHR ''-'' # decimal_of_nat (nat (- i)) else decimal_of_nat (nat i))"

text \<open>The digit a character stands for up to base 16, in either case; 16 when it is not a digit.\<close>

definition hex_digit :: "char \<Rightarrow> nat" where
  "hex_digit c =
     (let i = length (takeWhile (\<lambda>d. d \<noteq> c) ''0123456789abcdefABCDEF'') in if i < 16 then i else i - 6)"

lemma hex_digit_table:
  "map (\<lambda>c. (code c, hex_digit c)) ''0123456789abcdefABCDEF'' =
   zip ([48..<58] @ [97..<103] @ [65..<71]) ([0..<16] @ [10..<16])"
  by code_simp

lemma hex_digit_code:
  "hex_digit c =
     (if 48 \<le> code c \<and> code c \<le> 57 then code c - 48
      else if 97 \<le> code c \<and> code c \<le> 102 then code c - 87
      else if 65 \<le> code c \<and> code c \<le> 70 then code c - 55 else 16)"
  (is "_ = ?v (code c)")
proof (cases "c \<in> set ''0123456789abcdefABCDEF''")
  case True
  then have "(code c, hex_digit c) \<in> set (map (\<lambda>c. (code c, hex_digit c)) ''0123456789abcdefABCDEF'')"
    by (simp only: set_map) (rule imageI)
  moreover have "list_all (\<lambda>(n, v). v = ?v n) (map (\<lambda>c. (code c, hex_digit c)) ''0123456789abcdefABCDEF'')"
    unfolding hex_digit_table by code_simp
  ultimately show ?thesis unfolding list_all_iff by blast
next
  case False
  then have "takeWhile (\<lambda>d. d \<noteq> c) ''0123456789abcdefABCDEF'' = ''0123456789abcdefABCDEF''"
    unfolding takeWhile_eq_all_conv by metis
  then have "hex_digit c = 16"
    unfolding hex_digit_def Let_def by simp
  moreover have "code c \<notin> set (map code ''0123456789abcdefABCDEF'')"
    using False by (simp only: set_map inj_image_mem_iff [OF inj_of_char] not_False_eq_True)
  then have "code c \<notin> set ([48..<58] @ [97..<103] @ [65..<71])" by simp
  ultimately show ?thesis unfolding set_append set_upt by auto
qed

text \<open>The value of a digit string in a radix, most significant digit first.\<close>

definition digits_value :: "nat \<Rightarrow> (char \<Rightarrow> nat) \<Rightarrow> string \<Rightarrow> nat" where
  "digits_value radix val s = foldl (\<lambda>acc c. acc * radix + val c) 0 s"

definition decimal_digit_value :: "char \<Rightarrow> nat" where
  "decimal_digit_value c = code c - 48"

abbreviation decimal_value :: "string \<Rightarrow> nat" where
  "decimal_value \<equiv> digits_value 10 decimal_digit_value"

lemma digits_value_Nil [simp]: "digits_value r val [] = 0"
  by (simp add: digits_value_def)

lemma foldl_digits:
  "foldl (\<lambda>acc c. acc * r + val c) a s = a * r ^ length s + digits_value r val s"
proof (induction s arbitrary: a)
  case (Cons c s)
  show ?case
    using Cons.IH [of "a * r + val c"] Cons.IH [of "val c"]
    by (simp add: digits_value_def algebra_simps)
qed simp

lemma digits_value_append:
  "digits_value r val (s @ t) = digits_value r val s * r ^ length t + digits_value r val t"
  using foldl_digits [of r val "digits_value r val s" t] by (simp add: digits_value_def)

lemma digits_value_single [simp]: "digits_value r val [c] = val c"
  by (simp add: digits_value_def)

lemma digits_value_Cons:
  "digits_value r val (c # s) = val c * r ^ length s + digits_value r val s"
  using digits_value_append [of r val "[c]" s] by simp

lemma digits_value_less:
  "(\<And>c. c \<in> set s \<Longrightarrow> val c < r) \<Longrightarrow> digits_value r val s < r ^ length s"
proof (induction s)
  case (Cons c s)
  then have v: "digits_value r val s < r ^ length s" and c: "val c < r" by auto
  have "val c * r ^ length s + digits_value r val s < (val c + 1) * r ^ length s"
    using v by simp
  also have "\<dots> \<le> r * r ^ length s"
    using c by (intro mult_le_mono1) simp
  finally show ?case by (simp add: digits_value_Cons)
qed simp

lemma digit_char_value [simp]: "d < 10 \<Longrightarrow> decimal_digit_value (digit_char d) = d"
  by (simp add: decimal_digit_value_def digit_char_def)

lemma code_digit_char [simp]: "d < 10 \<Longrightarrow> code (digit_char d) = 48 + d"
  by (simp add: digit_char_def)

lemma decimal_of_nat_value [simp]: "decimal_value (decimal_of_nat n) = n"
proof (induction n rule: decimal_of_nat.induct)
  case (1 n)
  then show ?case
    by (subst decimal_of_nat.simps) (auto simp: digits_value_append)
qed

lemma decimal_of_nat_inj [simp]: "decimal_of_nat m = decimal_of_nat n \<longleftrightarrow> m = n"
  by (metis decimal_of_nat_value)

lemma decimal_of_nat_digits: "c \<in> set (decimal_of_nat n) \<Longrightarrow> 48 \<le> code c \<and> code c \<le> 57"
proof (induction n rule: decimal_of_nat.induct)
  case (1 n)
  then show ?case
    by (subst (asm) (2) decimal_of_nat.simps) (auto split: if_splits)
qed

lemma decimal_of_nat_not_Nil [simp]: "decimal_of_nat n \<noteq> []"
  by (subst decimal_of_nat.simps) simp

lemma decimal_of_nat_length: "0 < n \<Longrightarrow> 10 ^ (length (decimal_of_nat n) - 1) \<le> n"
proof (induction n rule: decimal_of_nat.induct)
  case (1 n)
  show ?case
  proof (cases "n < 10")
    case True
    then show ?thesis using 1 by (subst decimal_of_nat.simps) simp
  next
    case False
    with 1 have "10 ^ (length (decimal_of_nat (n div 10)) - 1) \<le> n div 10" by simp
    then have "10 ^ (length (decimal_of_nat (n div 10)) - 1) * 10 \<le> n" by linarith
    moreover have "length (decimal_of_nat (n div 10)) \<noteq> 0" by simp
    ultimately show ?thesis
      using False by (subst decimal_of_nat.simps) (simp add: power_eq_if)
  qed
qed

text \<open>A digit string without a leading zero is the decimal numeral of its value.\<close>

lemma decimal_of_nat_unique:
  assumes "\<And>c. c \<in> set s \<Longrightarrow> 48 \<le> code c \<and> code c \<le> 57" "s \<noteq> []" "hd s \<noteq> CHR ''0''"
  shows "decimal_of_nat (decimal_value s) = s"
  using assms
proof (induction s rule: rev_induct)
  case (snoc c s)
  have d: "digit_char (decimal_digit_value c) = c" "decimal_digit_value c < 10"
    using snoc.prems(1) [of c] by (auto simp: digit_char_def decimal_digit_value_def)
  show ?case
  proof (cases "s = []")
    case True
    then show ?thesis using d by (subst decimal_of_nat.simps) simp
  next
    case False
    then have IH: "decimal_of_nat (decimal_value s) = s"
      using snoc by simp
    have "decimal_value s \<noteq> 0"
    proof
      assume "decimal_value s = 0"
      with IH have "s = decimal_of_nat 0" by simp
      also have "\<dots> = ''0''" by code_simp
      finally show False using snoc.prems(3) by simp
    qed
    then show ?thesis
      using d IH by (subst decimal_of_nat.simps) (simp add: digits_value_append)
  qed
qed simp

section \<open>Scanning loops and substrings\<close>

text \<open>\<^verbatim>\<open>while (i < t.size() && P(t[i])) ++i;\<close> and \<^verbatim>\<open>t.substr(i, n)\<close>.\<close>

function skip_while :: "('a \<Rightarrow> bool) \<Rightarrow> 'a list \<Rightarrow> nat \<Rightarrow> nat" where
  "skip_while P t i = (if i < length t \<and> P (t ! i) then skip_while P t (Suc i) else i)"
  by pat_completeness auto
termination by (relation "measure (\<lambda>(P, t, i). length t - i)") auto

declare skip_while.simps [simp del]

definition substr :: "'a list \<Rightarrow> nat \<Rightarrow> nat \<Rightarrow> 'a list" where
  "substr t i n = take n (drop i t)"

lemma skip_while_eq: "skip_while P t i = i + length (takeWhile P (drop i t))"
proof (induction P t i rule: skip_while.induct)
  case (1 P t i)
  show ?case
  proof (cases "i < length t")
    case True
    then have "drop i t = t ! i # drop (Suc i) t" by (simp add: Cons_nth_drop_Suc)
    with 1 True show ?thesis by (subst skip_while.simps) simp
  next
    case False
    then show ?thesis by (subst skip_while.simps) simp
  qed
qed

lemma substr_skip_while: "substr t i (skip_while P t i - i) = takeWhile P (drop i t)"
  by (simp add: substr_def skip_while_eq flip: takeWhile_eq_take)

lemma drop_skip_while: "drop (skip_while P t i) t = dropWhile P (drop i t)"
  by (simp add: skip_while_eq dropWhile_eq_drop add.commute)

lemma skip_while_le: "i \<le> length t \<Longrightarrow> skip_while P t i \<le> length t"
  using length_takeWhile_le [of P "drop i t"] by (simp add: skip_while_eq)

end
