(* ===== verification/Tokens.thy ===== *)
theory Tokens
  imports Prelude
begin

text \<open>
  The token vocabulary: \<open>TokenKind\<close> (\<^verbatim>\<open>include/cloth/lexer/token.h\<close>), its printed names
  (\<^verbatim>\<open>src/lexer/token.cc\<close>) and the keyword table with \<^verbatim>\<open>identifier_token_kind\<close>
  (\<^verbatim>\<open>src/lexer/lexer.cc\<close>). The C++ enumeration is flat; here its groups (delimiters,
  operators, keywords, type keywords) are datatypes of their own, and every enumerator
  \<^verbatim>\<open>kX\<close> is an abbreviation of the same name, so that definitions read like the source.
\<close>

section \<open>Token kinds\<close>

datatype delimiter =
  LeftParen | RightParen | LeftBrace | RightBrace | LeftBracket | RightBracket | Comma
  | Semicolon | Colon | ColonColon | Dot | Question | QuestionDot | QuestionQuestion

datatype operator =
  Plus | Minus | Star | Slash | Percent | Equal | EqualEqual | BangEqual | Less | LessEqual
  | Greater | GreaterEqual | AmpersandAmpersand | PipePipe | Bang | Ampersand | Pipe
  | Caret | Tilde | PlusPlus | MinusMinus | PlusEqual | MinusEqual | StarEqual | SlashEqual
  | PercentEqual | ShiftLeft | ShiftRight | ShiftLeftEqual | ShiftRightEqual
  | AmpersandEqual | PipeEqual | CaretEqual

datatype keyword =
  KwFunc | KwReturn | KwIf | KwElse | KwWhile | KwFor | KwIn | KwBreak | KwContinue
  | KwSwitch | KwCase | KwDefault | KwStruct | KwClass | KwInterface | KwAbstract
  | KwSealed | KwEnum | KwError | KwThrow | KwThrows | KwTrait | KwLet | KwVar | KwConst
  | KwFinal | KwStatic | KwOverride | KwSuper | KwTrue | KwFalse | KwNull | KwExtern
  | KwUnsafe | KwImport | KwIs | KwAs | KwMatch

datatype type_keyword =
  KwInt | KwInt8 | KwInt16 | KwInt32 | KwInt64 | KwUint | KwUint8 | KwUint16 | KwUint32
  | KwUint64 | KwFloat | KwFloat32 | KwFloat64 | KwBool | KwChar | KwByte | KwVoid
  | KwObject

datatype TokenKind =
  kEof | kIdentifier | kIntegerLiteral | kFloatLiteral | kStringLiteral | kCharacterLiteral
  | Delimiter delimiter | Operator operator | Keyword keyword | TypeKeyword type_keyword

abbreviation "kLeftParen \<equiv> Delimiter LeftParen"
abbreviation "kRightParen \<equiv> Delimiter RightParen"
abbreviation "kLeftBrace \<equiv> Delimiter LeftBrace"
abbreviation "kRightBrace \<equiv> Delimiter RightBrace"
abbreviation "kLeftBracket \<equiv> Delimiter LeftBracket"
abbreviation "kRightBracket \<equiv> Delimiter RightBracket"
abbreviation "kComma \<equiv> Delimiter Comma"
abbreviation "kSemicolon \<equiv> Delimiter Semicolon"
abbreviation "kColon \<equiv> Delimiter Colon"
abbreviation "kColonColon \<equiv> Delimiter ColonColon"
abbreviation "kDot \<equiv> Delimiter Dot"
abbreviation "kQuestion \<equiv> Delimiter Question"
abbreviation "kQuestionDot \<equiv> Delimiter QuestionDot"
abbreviation "kQuestionQuestion \<equiv> Delimiter QuestionQuestion"
abbreviation "kPlus \<equiv> Operator Plus"
abbreviation "kMinus \<equiv> Operator Minus"
abbreviation "kStar \<equiv> Operator Star"
abbreviation "kSlash \<equiv> Operator Slash"
abbreviation "kPercent \<equiv> Operator Percent"
abbreviation "kEqual \<equiv> Operator Equal"
abbreviation "kEqualEqual \<equiv> Operator EqualEqual"
abbreviation "kBangEqual \<equiv> Operator BangEqual"
abbreviation "kLess \<equiv> Operator Less"
abbreviation "kLessEqual \<equiv> Operator LessEqual"
abbreviation "kGreater \<equiv> Operator Greater"
abbreviation "kGreaterEqual \<equiv> Operator GreaterEqual"
abbreviation "kAmpersandAmpersand \<equiv> Operator AmpersandAmpersand"
abbreviation "kPipePipe \<equiv> Operator PipePipe"
abbreviation "kBang \<equiv> Operator Bang"
abbreviation "kAmpersand \<equiv> Operator Ampersand"
abbreviation "kPipe \<equiv> Operator Pipe"
abbreviation "kCaret \<equiv> Operator Caret"
abbreviation "kTilde \<equiv> Operator Tilde"
abbreviation "kPlusPlus \<equiv> Operator PlusPlus"
abbreviation "kMinusMinus \<equiv> Operator MinusMinus"
abbreviation "kPlusEqual \<equiv> Operator PlusEqual"
abbreviation "kMinusEqual \<equiv> Operator MinusEqual"
abbreviation "kStarEqual \<equiv> Operator StarEqual"
abbreviation "kSlashEqual \<equiv> Operator SlashEqual"
abbreviation "kPercentEqual \<equiv> Operator PercentEqual"
abbreviation "kShiftLeft \<equiv> Operator ShiftLeft"
abbreviation "kShiftRight \<equiv> Operator ShiftRight"
abbreviation "kShiftLeftEqual \<equiv> Operator ShiftLeftEqual"
abbreviation "kShiftRightEqual \<equiv> Operator ShiftRightEqual"
abbreviation "kAmpersandEqual \<equiv> Operator AmpersandEqual"
abbreviation "kPipeEqual \<equiv> Operator PipeEqual"
abbreviation "kCaretEqual \<equiv> Operator CaretEqual"
abbreviation "kKwFunc \<equiv> Keyword KwFunc"
abbreviation "kKwReturn \<equiv> Keyword KwReturn"
abbreviation "kKwIf \<equiv> Keyword KwIf"
abbreviation "kKwElse \<equiv> Keyword KwElse"
abbreviation "kKwWhile \<equiv> Keyword KwWhile"
abbreviation "kKwFor \<equiv> Keyword KwFor"
abbreviation "kKwIn \<equiv> Keyword KwIn"
abbreviation "kKwBreak \<equiv> Keyword KwBreak"
abbreviation "kKwContinue \<equiv> Keyword KwContinue"
abbreviation "kKwSwitch \<equiv> Keyword KwSwitch"
abbreviation "kKwCase \<equiv> Keyword KwCase"
abbreviation "kKwDefault \<equiv> Keyword KwDefault"
abbreviation "kKwStruct \<equiv> Keyword KwStruct"
abbreviation "kKwClass \<equiv> Keyword KwClass"
abbreviation "kKwInterface \<equiv> Keyword KwInterface"
abbreviation "kKwAbstract \<equiv> Keyword KwAbstract"
abbreviation "kKwSealed \<equiv> Keyword KwSealed"
abbreviation "kKwEnum \<equiv> Keyword KwEnum"
abbreviation "kKwError \<equiv> Keyword KwError"
abbreviation "kKwThrow \<equiv> Keyword KwThrow"
abbreviation "kKwThrows \<equiv> Keyword KwThrows"
abbreviation "kKwTrait \<equiv> Keyword KwTrait"
abbreviation "kKwLet \<equiv> Keyword KwLet"
abbreviation "kKwVar \<equiv> Keyword KwVar"
abbreviation "kKwConst \<equiv> Keyword KwConst"
abbreviation "kKwFinal \<equiv> Keyword KwFinal"
abbreviation "kKwStatic \<equiv> Keyword KwStatic"
abbreviation "kKwOverride \<equiv> Keyword KwOverride"
abbreviation "kKwSuper \<equiv> Keyword KwSuper"
abbreviation "kKwTrue \<equiv> Keyword KwTrue"
abbreviation "kKwFalse \<equiv> Keyword KwFalse"
abbreviation "kKwNull \<equiv> Keyword KwNull"
abbreviation "kKwExtern \<equiv> Keyword KwExtern"
abbreviation "kKwUnsafe \<equiv> Keyword KwUnsafe"
abbreviation "kKwImport \<equiv> Keyword KwImport"
abbreviation "kKwIs \<equiv> Keyword KwIs"
abbreviation "kKwAs \<equiv> Keyword KwAs"
abbreviation "kKwMatch \<equiv> Keyword KwMatch"
abbreviation "kKwInt \<equiv> TypeKeyword KwInt"
abbreviation "kKwInt8 \<equiv> TypeKeyword KwInt8"
abbreviation "kKwInt16 \<equiv> TypeKeyword KwInt16"
abbreviation "kKwInt32 \<equiv> TypeKeyword KwInt32"
abbreviation "kKwInt64 \<equiv> TypeKeyword KwInt64"
abbreviation "kKwUint \<equiv> TypeKeyword KwUint"
abbreviation "kKwUint8 \<equiv> TypeKeyword KwUint8"
abbreviation "kKwUint16 \<equiv> TypeKeyword KwUint16"
abbreviation "kKwUint32 \<equiv> TypeKeyword KwUint32"
abbreviation "kKwUint64 \<equiv> TypeKeyword KwUint64"
abbreviation "kKwFloat \<equiv> TypeKeyword KwFloat"
abbreviation "kKwFloat32 \<equiv> TypeKeyword KwFloat32"
abbreviation "kKwFloat64 \<equiv> TypeKeyword KwFloat64"
abbreviation "kKwBool \<equiv> TypeKeyword KwBool"
abbreviation "kKwChar \<equiv> TypeKeyword KwChar"
abbreviation "kKwByte \<equiv> TypeKeyword KwByte"
abbreviation "kKwVoid \<equiv> TypeKeyword KwVoid"
abbreviation "kKwObject \<equiv> TypeKeyword KwObject"

primrec delimiter_name :: "delimiter \<Rightarrow> string" where
  "delimiter_name LeftParen = ''left_paren''"
| "delimiter_name RightParen = ''right_paren''"
| "delimiter_name LeftBrace = ''left_brace''"
| "delimiter_name RightBrace = ''right_brace''"
| "delimiter_name LeftBracket = ''left_bracket''"
| "delimiter_name RightBracket = ''right_bracket''"
| "delimiter_name Comma = ''comma''"
| "delimiter_name Semicolon = ''semicolon''"
| "delimiter_name Colon = ''colon''"
| "delimiter_name ColonColon = ''colon_colon''"
| "delimiter_name Dot = ''dot''"
| "delimiter_name Question = ''question''"
| "delimiter_name QuestionDot = ''question_dot''"
| "delimiter_name QuestionQuestion = ''question_question''"

primrec operator_name :: "operator \<Rightarrow> string" where
  "operator_name Plus = ''plus''"
| "operator_name Minus = ''minus''"
| "operator_name Star = ''star''"
| "operator_name Slash = ''slash''"
| "operator_name Percent = ''percent''"
| "operator_name Equal = ''equal''"
| "operator_name EqualEqual = ''equal_equal''"
| "operator_name BangEqual = ''bang_equal''"
| "operator_name Less = ''less''"
| "operator_name LessEqual = ''less_equal''"
| "operator_name Greater = ''greater''"
| "operator_name GreaterEqual = ''greater_equal''"
| "operator_name AmpersandAmpersand = ''ampersand_ampersand''"
| "operator_name PipePipe = ''pipe_pipe''"
| "operator_name Bang = ''bang''"
| "operator_name Ampersand = ''ampersand''"
| "operator_name Pipe = ''pipe''"
| "operator_name Caret = ''caret''"
| "operator_name Tilde = ''tilde''"
| "operator_name PlusPlus = ''plus_plus''"
| "operator_name MinusMinus = ''minus_minus''"
| "operator_name PlusEqual = ''plus_equal''"
| "operator_name MinusEqual = ''minus_equal''"
| "operator_name StarEqual = ''star_equal''"
| "operator_name SlashEqual = ''slash_equal''"
| "operator_name PercentEqual = ''percent_equal''"
| "operator_name ShiftLeft = ''shift_left''"
| "operator_name ShiftRight = ''shift_right''"
| "operator_name ShiftLeftEqual = ''shift_left_equal''"
| "operator_name ShiftRightEqual = ''shift_right_equal''"
| "operator_name AmpersandEqual = ''ampersand_equal''"
| "operator_name PipeEqual = ''pipe_equal''"
| "operator_name CaretEqual = ''caret_equal''"

primrec keyword_name :: "keyword \<Rightarrow> string" where
  "keyword_name KwFunc = ''func''"
| "keyword_name KwReturn = ''return''"
| "keyword_name KwIf = ''if''"
| "keyword_name KwElse = ''else''"
| "keyword_name KwWhile = ''while''"
| "keyword_name KwFor = ''for''"
| "keyword_name KwIn = ''in''"
| "keyword_name KwBreak = ''break''"
| "keyword_name KwContinue = ''continue''"
| "keyword_name KwSwitch = ''switch''"
| "keyword_name KwCase = ''case''"
| "keyword_name KwDefault = ''default''"
| "keyword_name KwStruct = ''struct''"
| "keyword_name KwClass = ''class''"
| "keyword_name KwInterface = ''interface''"
| "keyword_name KwAbstract = ''abstract''"
| "keyword_name KwSealed = ''sealed''"
| "keyword_name KwEnum = ''enum''"
| "keyword_name KwError = ''error''"
| "keyword_name KwThrow = ''throw''"
| "keyword_name KwThrows = ''throws''"
| "keyword_name KwTrait = ''trait''"
| "keyword_name KwLet = ''let''"
| "keyword_name KwVar = ''var''"
| "keyword_name KwConst = ''const''"
| "keyword_name KwFinal = ''final''"
| "keyword_name KwStatic = ''static''"
| "keyword_name KwOverride = ''override''"
| "keyword_name KwSuper = ''super''"
| "keyword_name KwTrue = ''true''"
| "keyword_name KwFalse = ''false''"
| "keyword_name KwNull = ''null''"
| "keyword_name KwExtern = ''extern''"
| "keyword_name KwUnsafe = ''unsafe''"
| "keyword_name KwImport = ''import''"
| "keyword_name KwIs = ''is''"
| "keyword_name KwAs = ''as''"
| "keyword_name KwMatch = ''match''"

primrec type_keyword_name :: "type_keyword \<Rightarrow> string" where
  "type_keyword_name KwInt = ''int''"
| "type_keyword_name KwInt8 = ''int8''"
| "type_keyword_name KwInt16 = ''int16''"
| "type_keyword_name KwInt32 = ''int32''"
| "type_keyword_name KwInt64 = ''int64''"
| "type_keyword_name KwUint = ''uint''"
| "type_keyword_name KwUint8 = ''uint8''"
| "type_keyword_name KwUint16 = ''uint16''"
| "type_keyword_name KwUint32 = ''uint32''"
| "type_keyword_name KwUint64 = ''uint64''"
| "type_keyword_name KwFloat = ''float''"
| "type_keyword_name KwFloat32 = ''float32''"
| "type_keyword_name KwFloat64 = ''float64''"
| "type_keyword_name KwBool = ''bool''"
| "type_keyword_name KwChar = ''char''"
| "type_keyword_name KwByte = ''byte''"
| "type_keyword_name KwVoid = ''void''"
| "type_keyword_name KwObject = ''object''"

primrec token_kind_name :: "TokenKind \<Rightarrow> string" where
  "token_kind_name kEof = ''eof''"
| "token_kind_name kIdentifier = ''identifier''"
| "token_kind_name kIntegerLiteral = ''integer_literal''"
| "token_kind_name kFloatLiteral = ''float_literal''"
| "token_kind_name kStringLiteral = ''string_literal''"
| "token_kind_name kCharacterLiteral = ''char_literal''"
| "token_kind_name (Delimiter x) = delimiter_name x"
| "token_kind_name (Operator x) = operator_name x"
| "token_kind_name (Keyword x) = keyword_name x"
| "token_kind_name (TypeKeyword x) = type_keyword_name x"

section \<open>Keywords\<close>

definition kKeywords :: "(string \<times> TokenKind) list" where
  "kKeywords = [
     (''func'', kKwFunc),
     (''return'', kKwReturn),
     (''if'', kKwIf),
     (''else'', kKwElse),
     (''while'', kKwWhile),
     (''for'', kKwFor),
     (''in'', kKwIn),
     (''break'', kKwBreak),
     (''continue'', kKwContinue),
     (''switch'', kKwSwitch),
     (''case'', kKwCase),
     (''default'', kKwDefault),
     (''struct'', kKwStruct),
     (''class'', kKwClass),
     (''interface'', kKwInterface),
     (''abstract'', kKwAbstract),
     (''sealed'', kKwSealed),
     (''enum'', kKwEnum),
     (''error'', kKwError),
     (''throw'', kKwThrow),
     (''throws'', kKwThrows),
     (''trait'', kKwTrait),
     (''let'', kKwLet),
     (''var'', kKwVar),
     (''const'', kKwConst),
     (''final'', kKwFinal),
     (''static'', kKwStatic),
     (''override'', kKwOverride),
     (''super'', kKwSuper),
     (''true'', kKwTrue),
     (''false'', kKwFalse),
     (''null'', kKwNull),
     (''extern'', kKwExtern),
     (''unsafe'', kKwUnsafe),
     (''import'', kKwImport),
     (''is'', kKwIs),
     (''as'', kKwAs),
     (''match'', kKwMatch),
     (''int'', kKwInt),
     (''int8'', kKwInt8),
     (''int16'', kKwInt16),
     (''int32'', kKwInt32),
     (''int64'', kKwInt64),
     (''uint'', kKwUint),
     (''uint8'', kKwUint8),
     (''uint16'', kKwUint16),
     (''uint32'', kKwUint32),
     (''uint64'', kKwUint64),
     (''float'', kKwFloat),
     (''float32'', kKwFloat32),
     (''float64'', kKwFloat64),
     (''bool'', kKwBool),
     (''char'', kKwChar),
     (''byte'', kKwByte),
     (''void'', kKwVoid),
     (''object'', kKwObject)]"

text \<open>The linear search over the keyword table, first match wins.\<close>

fun find_keyword :: "(string \<times> TokenKind) list \<Rightarrow> string \<Rightarrow> TokenKind" where
  "find_keyword [] lexeme = kIdentifier"
| "find_keyword ((keyword, kind) # rest) lexeme =
     (if lexeme = keyword then kind else find_keyword rest lexeme)"

definition identifier_token_kind :: "string \<Rightarrow> TokenKind" where
  "identifier_token_kind lexeme = find_keyword kKeywords lexeme"

definition is_keyword :: "TokenKind \<Rightarrow> bool" where
  "is_keyword k \<longleftrightarrow> k \<in> snd ` set kKeywords"

section \<open>Facts about the vocabulary\<close>

text \<open>
  The keyword table is spelled by \<open>token_kind_name\<close>, and no keyword is listed twice. Both are
  checked entry by entry; the facts about the search below use only these two.
\<close>

lemma kKeywords_spelling: "(s, k) \<in> set kKeywords \<Longrightarrow> token_kind_name k = s"
  by (auto simp: kKeywords_def)

lemma kKeywords_distinct: "distinct (map fst kKeywords)"
  by (simp add: kKeywords_def)

lemma kIdentifier_not_keyword: "\<not> is_keyword kIdentifier"
  by (simp add: is_keyword_def kKeywords_def)

lemma find_keyword_Some:
  "distinct (map fst ks) \<Longrightarrow> (s, k) \<in> set ks \<Longrightarrow> find_keyword ks s = k"
  by (induction ks s rule: find_keyword.induct) force+

lemma find_keyword_cases:
  "find_keyword ks s = kIdentifier \<or> (s, find_keyword ks s) \<in> set ks"
  by (induction ks s rule: find_keyword.induct) auto

text \<open>Every keyword kind is recognised from exactly one spelling, the one
  \<open>token_kind_name\<close> prints for it; every other spelling is an identifier.\<close>

theorem identifier_token_kind_correct:
  "(is_keyword k \<longrightarrow> (identifier_token_kind s = k \<longleftrightarrow> s = token_kind_name k)) \<and>
   (\<not> is_keyword (identifier_token_kind s) \<longrightarrow> identifier_token_kind s = kIdentifier)"
proof (intro conjI impI)
  assume k: "is_keyword k"
  then obtain s' where "(s', k) \<in> set kKeywords"
    by (auto simp: is_keyword_def)
  with kKeywords_spelling have mem: "(token_kind_name k, k) \<in> set kKeywords" by blast
  show "identifier_token_kind s = k \<longleftrightarrow> s = token_kind_name k"
  proof
    assume "identifier_token_kind s = k"
    with k kIdentifier_not_keyword have "(s, k) \<in> set kKeywords"
      using find_keyword_cases [of kKeywords s] by (auto simp: identifier_token_kind_def)
    then show "s = token_kind_name k" by (simp add: kKeywords_spelling)
  next
    assume "s = token_kind_name k"
    with mem show "identifier_token_kind s = k"
      by (simp add: identifier_token_kind_def find_keyword_Some [OF kKeywords_distinct])
  qed
next
  assume "\<not> is_keyword (identifier_token_kind s)"
  then show "identifier_token_kind s = kIdentifier"
    using find_keyword_cases [of kKeywords s]
    by (force simp: identifier_token_kind_def is_keyword_def)
qed

theorem identifier_token_kind_correct_witness:
  "identifier_token_kind ''uint64'' = kKwUint64 \<and> identifier_token_kind ''u64'' = kIdentifier"
proof -
  have a: "is_keyword kKwUint64" by (simp add: is_keyword_def kKeywords_def)
  have b: "\<not> is_keyword (identifier_token_kind ''u64'')"
    by (simp add: identifier_token_kind_def kKeywords_def is_keyword_def)
  show ?thesis
    using a b identifier_token_kind_correct [of kKwUint64 "''uint64''"]
      identifier_token_kind_correct [of kKwUint64 "''u64''"] by simp
qed

end
