(* ===== verification/Diagnostics.thy ===== *)
theory Diagnostics
  imports Prelude
begin

text \<open>
  Source positions (\<^verbatim>\<open>include/cloth/source/source_location.h\<close>,
  \<^verbatim>\<open>include/cloth/source/source_range.h\<close>) and the diagnostic engine
  (\<^verbatim>\<open>include/cloth/diagnostics/\<close>, \<^verbatim>\<open>src/diagnostics/diagnostic_engine.cc\<close>).
  Byte offsets are \<^verbatim>\<open>std::size_t\<close> positions inside a text held in memory and are natural
  numbers; lines and columns are \<^verbatim>\<open>std::uint32_t\<close> and keep their width.
\<close>

section \<open>Positions\<close>

record SourceLocation =
  loc_file :: string
  loc_byte_offset :: nat
  loc_line :: u32
  loc_column :: u32

record SourceRange =
  range_begin :: SourceLocation
  range_end :: SourceLocation

definition point_range :: "SourceLocation \<Rightarrow> SourceRange" where
  "point_range location = \<lparr>range_begin = location, range_end = location\<rparr>"

section \<open>Diagnostics\<close>

datatype DiagnosticSeverity = kError | kWarning | kNote

primrec diagnostic_severity_name :: "DiagnosticSeverity \<Rightarrow> string" where
  "diagnostic_severity_name kError = ''error''"
| "diagnostic_severity_name kWarning = ''warning''"
| "diagnostic_severity_name kNote = ''note''"

record Diagnostic =
  diag_severity :: DiagnosticSeverity
  diag_range :: SourceRange
  diag_message :: string

record DiagnosticEngine =
  eng_diagnostics :: "Diagnostic list"
  eng_has_errors :: bool

definition empty_engine :: DiagnosticEngine where
  "empty_engine = \<lparr>eng_diagnostics = [], eng_has_errors = False\<rparr>"

definition report_range ::
  "DiagnosticSeverity \<Rightarrow> SourceRange \<Rightarrow> string \<Rightarrow> DiagnosticEngine \<Rightarrow> DiagnosticEngine" where
  "report_range severity span message e =
     (let e1 = (if severity = kError then e\<lparr>eng_has_errors := True\<rparr> else e)
      in e1\<lparr>eng_diagnostics := eng_diagnostics e1 @
             [\<lparr>diag_severity = severity, diag_range = span, diag_message = message\<rparr>]\<rparr>)"

definition report_at ::
  "DiagnosticSeverity \<Rightarrow> SourceLocation \<Rightarrow> string \<Rightarrow> DiagnosticEngine \<Rightarrow> DiagnosticEngine" where
  "report_at severity location message = report_range severity (point_range location) message"

definition error_at :: "SourceLocation \<Rightarrow> string \<Rightarrow> DiagnosticEngine \<Rightarrow> DiagnosticEngine" where
  "error_at location message = report_at kError location message"

definition error_range :: "SourceRange \<Rightarrow> string \<Rightarrow> DiagnosticEngine \<Rightarrow> DiagnosticEngine" where
  "error_range span message = report_range kError span message"

definition warning_at :: "SourceLocation \<Rightarrow> string \<Rightarrow> DiagnosticEngine \<Rightarrow> DiagnosticEngine" where
  "warning_at location message = report_at kWarning location message"

definition warning_range :: "SourceRange \<Rightarrow> string \<Rightarrow> DiagnosticEngine \<Rightarrow> DiagnosticEngine" where
  "warning_range span message = report_range kWarning span message"

definition note_at :: "SourceLocation \<Rightarrow> string \<Rightarrow> DiagnosticEngine \<Rightarrow> DiagnosticEngine" where
  "note_at location message = report_at kNote location message"

definition note_range :: "SourceRange \<Rightarrow> string \<Rightarrow> DiagnosticEngine \<Rightarrow> DiagnosticEngine" where
  "note_range span message = report_range kNote span message"

section \<open>The engine's invariant and what a report adds\<close>

text \<open>The flag the driver consults agrees with the recorded diagnostics.\<close>

definition engine_ok :: "DiagnosticEngine \<Rightarrow> bool" where
  "engine_ok e \<longleftrightarrow> (eng_has_errors e \<longleftrightarrow> (\<exists>d \<in> set (eng_diagnostics e). diag_severity d = kError))"

lemma engine_ok_empty [simp]: "engine_ok empty_engine"
  by (simp add: engine_ok_def empty_engine_def)

lemma engine_ok_report [simp]: "engine_ok e \<Longrightarrow> engine_ok (report_range s r m e)"
  by (auto simp: engine_ok_def report_range_def)

lemma report_range_diagnostics [simp]:
  "eng_diagnostics (report_range s r m e) =
     eng_diagnostics e @ [\<lparr>diag_severity = s, diag_range = r, diag_message = m\<rparr>]"
  by (simp add: report_range_def)

lemma report_range_has_errors [simp]:
  "eng_has_errors (report_range s r m e) \<longleftrightarrow> eng_has_errors e \<or> s = kError"
  by (simp add: report_range_def)

lemmas engine_defs = report_at_def error_at_def error_range_def warning_at_def warning_range_def
  note_at_def note_range_def

end
