(* ===== verification/Numeric_Literals.thy ===== *)
theory Numeric_Literals
  imports Complex_Main Prelude
begin

text \<open>
  Numeric literal spellings (\<^verbatim>\<open>src/lexer/literal.cc\<close>,
  \<^verbatim>\<open>include/cloth/lexer/literal.h\<close>): the decoder \<open>parse_numeric_literal_spelling\<close> that
  turns a complete numeric token into a notation-free canonical core, a suffix and an error code.
  The lemmas show that the core denotes the value that was written: integer cores are the decimal
  numeral of the spelled value in every base, floating cores are a normalised
  coefficient-exponent pair with the spelled value.
\<close>

section \<open>Data\<close>

datatype NumericLiteralSuffix = sfxNone | sfxInt8 | sfxInt16 | sfxInt32 | sfxInt64
  | sfxUint8 | sfxUint16 | sfxUint32 | sfxUint64 | sfxFloat32 | sfxFloat64

datatype NumericLiteralSpellingError = nleNone | nleInvalidCore | nleInvalidSuffix
  | nleIntegerSuffixOnFloatingCore | nleMissingBaseDigits | nleInvalidBaseDigit
  | nleInvalidBasePrefix | nleUnknownBasePrefix | nleInvalidSeparator
  | nleMissingExponentDigits | nleFloatingSuffixOnNonDecimalCore

datatype NumericLiteralBase = baseDecimal | baseBinary | baseOctal | baseHexadecimal

text \<open>The enumerators carry their radix.\<close>

primrec base_radix :: "NumericLiteralBase \<Rightarrow> nat" where
  "base_radix baseDecimal = 10"
| "base_radix baseBinary = 2"
| "base_radix baseOctal = 8"
| "base_radix baseHexadecimal = 16"

record NumericLiteralSpelling =
  sp_core :: string
  sp_suffix :: string
  sp_suffix_kind :: NumericLiteralSuffix
  sp_error :: NumericLiteralSpellingError
  sp_base :: NumericLiteralBase
  sp_core_is_floating :: bool
  sp_is_floating :: bool

definition default_spelling :: NumericLiteralSpelling where
  "default_spelling = \<lparr>sp_core = [], sp_suffix = [], sp_suffix_kind = sfxNone, sp_error = nleNone,
     sp_base = baseDecimal, sp_core_is_floating = False, sp_is_floating = False\<rparr>"

section \<open>Characters, suffixes and separators\<close>

definition kSaturatedExponent :: int where
  "kSaturatedExponent = 1000000"

definition is_decimal_digit :: "char \<Rightarrow> bool" where
  "is_decimal_digit c \<longleftrightarrow> 48 \<le> code c \<and> code c \<le> 57"

definition digit_value :: "char \<Rightarrow> int" where
  "digit_value c =
     (if is_decimal_digit c then int (code c) - 48
      else if 97 \<le> code c \<and> code c \<le> 102 then int (code c) - 97 + 10
      else if 65 \<le> code c \<and> code c \<le> 70 then int (code c) - 65 + 10
      else -1)"

definition parse_suffix :: "string \<Rightarrow> NumericLiteralSuffix" where
  "parse_suffix suffix =
     (if suffix = ''i8'' then sfxInt8
      else if suffix = ''i16'' then sfxInt16
      else if suffix = ''i32'' then sfxInt32
      else if suffix = ''i64'' then sfxInt64
      else if suffix = ''u8'' then sfxUint8
      else if suffix = ''u16'' then sfxUint16
      else if suffix = ''u32'' then sfxUint32
      else if suffix = ''u64'' then sfxUint64
      else if suffix = ''f32'' then sfxFloat32
      else if suffix = ''f64'' then sfxFloat64
      else sfxNone)"

definition is_floating_suffix :: "NumericLiteralSuffix \<Rightarrow> bool" where
  "is_floating_suffix suffix \<longleftrightarrow> suffix = sfxFloat32 \<or> suffix = sfxFloat64"

primrec numeric_literal_suffix_type_name :: "NumericLiteralSuffix \<Rightarrow> string" where
  "numeric_literal_suffix_type_name sfxInt8 = ''int8''"
| "numeric_literal_suffix_type_name sfxInt16 = ''int16''"
| "numeric_literal_suffix_type_name sfxInt32 = ''int32''"
| "numeric_literal_suffix_type_name sfxInt64 = ''int64''"
| "numeric_literal_suffix_type_name sfxUint8 = ''uint8''"
| "numeric_literal_suffix_type_name sfxUint16 = ''uint16''"
| "numeric_literal_suffix_type_name sfxUint32 = ''uint32''"
| "numeric_literal_suffix_type_name sfxUint64 = ''uint64''"
| "numeric_literal_suffix_type_name sfxFloat32 = ''float32''"
| "numeric_literal_suffix_type_name sfxFloat64 = ''float64''"
| "numeric_literal_suffix_type_name sfxNone = []"

text \<open>The adjacency loop of the separator check, from index \<open>1\<close>.\<close>

fun has_double_separator :: "string \<Rightarrow> bool" where
  "has_double_separator (a # b # cs) \<longleftrightarrow>
     (b = CHR ''_'' \<and> a = CHR ''_'') \<or> has_double_separator (b # cs)"
| "has_double_separator _ \<longleftrightarrow> False"

definition is_valid_separator_run :: "string \<Rightarrow> bool" where
  "is_valid_separator_run run \<longleftrightarrow>
     \<not> (run = [] \<or> hd run = CHR ''_'' \<or> last run = CHR ''_'') \<and> \<not> has_double_separator run"

definition digits_without_separators :: "string \<Rightarrow> string" where
  "digits_without_separators run = filter (\<lambda>c. c \<noteq> CHR ''_'') run"

section \<open>Canonical cores\<close>

definition canonical_decimal_integer :: "string \<Rightarrow> string" where
  "canonical_decimal_integer digits =
     (let first = skip_while (\<lambda>c. c = CHR ''0'') digits 0 in
      if first = length digits then ''0'' else drop first digits)"

definition clamp_exponent :: "int \<Rightarrow> int" where
  "clamp_exponent v =
     (if v < - kSaturatedExponent then - kSaturatedExponent
      else if kSaturatedExponent < v then kSaturatedExponent else v)"

fun parse_exponent_loop :: "string \<Rightarrow> int \<Rightarrow> int" where
  "parse_exponent_loop [] acc = acc"
| "parse_exponent_loop (c # cs) acc =
     (let digit = int (code c) - 48 in
      if acc > (kSaturatedExponent - digit) div 10 then kSaturatedExponent
      else parse_exponent_loop cs (acc * 10 + digit))"

definition parse_exponent :: "string \<Rightarrow> bool \<Rightarrow> int" where
  "parse_exponent digits negative =
     (let v = parse_exponent_loop digits 0 in if negative then - v else v)"

definition subtract_size :: "int \<Rightarrow> nat \<Rightarrow> int" where
  "subtract_size v amount = clamp_exponent (v - min (int amount) kSaturatedExponent)"

definition add_size :: "int \<Rightarrow> nat \<Rightarrow> int" where
  "add_size v amount = clamp_exponent (v + min (int amount) kSaturatedExponent)"

definition canonical_decimal_float :: "string \<Rightarrow> string \<Rightarrow> int \<Rightarrow> string" where
  "canonical_decimal_float integer_digits fractional_digits exponent =
     (let coefficient = integer_digits @ fractional_digits;
          first = skip_while (\<lambda>c. c = CHR ''0'') coefficient 0 in
      if first = length coefficient then ''0e0''
      else
        let coefficient = drop first coefficient;
            exponent = subtract_size exponent (length fractional_digits);
            trailing = length (takeWhile (\<lambda>c. c = CHR ''0'') (rev coefficient));
            coefficient = take (length coefficient - trailing) coefficient;
            exponent = add_size exponent trailing
        in coefficient @ ''e'' @ decimal_of_int exponent)"

section \<open>Literals with a base prefix\<close>

definition is_base_digit_or_separator :: "nat \<Rightarrow> char \<Rightarrow> bool" where
  "is_base_digit_or_separator radix c \<longleftrightarrow>
     (digit_value c \<ge> 0 \<and> digit_value c < int radix) \<or> c = CHR ''_''"

text \<open>The accumulation loop; \<open>None\<close> is the overflow flag.\<close>

fun base_value_loop :: "u64 \<Rightarrow> string \<Rightarrow> u64 \<Rightarrow> u64 option" where
  "base_value_loop radix [] acc = Some acc"
| "base_value_loop radix (c # cs) acc =
     (let digit = of_int (digit_value c) :: u64 in
      if acc > (0xFFFFFFFFFFFFFFFF - digit) div radix then None
      else base_value_loop radix cs (acc * radix + digit))"

definition parse_base_literal :: "string \<Rightarrow> NumericLiteralBase \<Rightarrow> NumericLiteralSpelling" where
  "parse_base_literal spelling base =
     (let result = default_spelling\<lparr>sp_base := base\<rparr>;
          radix = base_radix base;
          offset = skip_while (is_base_digit_or_separator radix) spelling 2;
          digit_run = substr spelling 2 (offset - 2);
          tail = drop offset spelling in
      if digit_run = [] then
        result\<lparr>sp_error := (if tail = [] then nleMissingBaseDigits else nleInvalidBaseDigit)\<rparr>
      else if \<not> is_valid_separator_run digit_run then result\<lparr>sp_error := nleInvalidSeparator\<rparr>
      else
        let result = result\<lparr>sp_suffix := tail, sp_suffix_kind := parse_suffix tail\<rparr> in
        if tail \<noteq> [] \<and> sp_suffix_kind result = sfxNone then
          result\<lparr>sp_error := (if is_decimal_digit (hd tail) then nleInvalidBaseDigit
                               else nleInvalidSuffix)\<rparr>
        else if is_floating_suffix (sp_suffix_kind result) then
          result\<lparr>sp_error := nleFloatingSuffixOnNonDecimalCore\<rparr>
        else
          let digits = digits_without_separators digit_run in
          result\<lparr>sp_core :=
            (case base_value_loop (of_nat radix) digits 0 of
               None \<Rightarrow> ''18446744073709551616''
             | Some v \<Rightarrow> decimal_of_nat (unat v))\<rparr>)"

section \<open>The decoder\<close>

definition is_letter :: "char \<Rightarrow> bool" where
  "is_letter c \<longleftrightarrow> (97 \<le> code c \<and> code c \<le> 122) \<or> (65 \<le> code c \<and> code c \<le> 90)"

definition is_digit_or_separator :: "char \<Rightarrow> bool" where
  "is_digit_or_separator c \<longleftrightarrow> is_decimal_digit c \<or> c = CHR ''_''"

text \<open>
  The end of the decoder, after the integer, fraction and exponent runs have been read:
  the suffix, the error precedence and the canonical core.
\<close>

definition finish_decimal_literal ::
  "string \<Rightarrow> nat \<Rightarrow> string \<Rightarrow> bool \<Rightarrow> string \<Rightarrow> bool \<Rightarrow> bool \<Rightarrow> string \<Rightarrow> bool \<Rightarrow>
   NumericLiteralSpelling" where
  "finish_decimal_literal spelling offset integer_run has_fraction fractional_run
     has_exponent exponent_negative exponent_run invalid_separator =
     (let suffix = drop offset spelling;
          result = default_spelling\<lparr>sp_core_is_floating := has_fraction \<or> has_exponent,
                     sp_suffix := suffix, sp_suffix_kind := parse_suffix suffix\<rparr> in
      if invalid_separator then
        result\<lparr>sp_error := nleInvalidSeparator, sp_is_floating := sp_core_is_floating result\<rparr>
      else if suffix \<noteq> [] \<and> sp_suffix_kind result = sfxNone then
        result\<lparr>sp_error := nleInvalidSuffix, sp_is_floating := sp_core_is_floating result\<rparr>
      else
        let floating_suffix = is_floating_suffix (sp_suffix_kind result);
            integer_suffix = (sp_suffix_kind result \<noteq> sfxNone \<and> \<not> floating_suffix);
            result = result\<lparr>sp_is_floating := sp_core_is_floating result \<or> floating_suffix\<rparr> in
        if sp_core_is_floating result \<and> integer_suffix then
          result\<lparr>sp_error := nleIntegerSuffixOnFloatingCore\<rparr>
        else
          let integer_digits = digits_without_separators integer_run in
          if \<not> sp_is_floating result then
            result\<lparr>sp_core := canonical_decimal_integer integer_digits\<rparr>
          else
            let exponent = (if has_exponent
                  then parse_exponent (digits_without_separators exponent_run) exponent_negative
                  else 0) in
            result\<lparr>sp_core := canonical_decimal_float integer_digits
                               (digits_without_separators fractional_run) exponent\<rparr>)"

definition floating_error :: "NumericLiteralSpellingError \<Rightarrow> NumericLiteralSpelling" where
  "floating_error e =
     default_spelling\<lparr>sp_error := e, sp_core_is_floating := True, sp_is_floating := True\<rparr>"

text \<open>The exponent run, then the end of the decoder.\<close>

definition parse_decimal_exponent ::
  "string \<Rightarrow> nat \<Rightarrow> string \<Rightarrow> bool \<Rightarrow> string \<Rightarrow> bool \<Rightarrow> NumericLiteralSpelling" where
  "parse_decimal_exponent spelling offset integer_run has_fraction fractional_run
     invalid_separator =
     (if offset < length spelling \<and>
         (spelling ! offset = CHR ''e'' \<or> spelling ! offset = CHR ''E'') then
        let offset = offset + 1;
            signed = (offset < length spelling \<and>
                      (spelling ! offset = CHR ''+'' \<or> spelling ! offset = CHR ''-''));
            exponent_negative = (signed \<and> spelling ! offset = CHR ''-'');
            begin_offset = (if signed then offset + 1 else offset);
            offset = skip_while is_digit_or_separator spelling begin_offset;
            exponent_run = substr spelling begin_offset (offset - begin_offset) in
        if exponent_run = [] \<or> \<not> list_ex is_decimal_digit exponent_run then
          floating_error nleMissingExponentDigits
        else
          finish_decimal_literal spelling offset integer_run has_fraction fractional_run
            True exponent_negative exponent_run
            (invalid_separator \<or> \<not> is_valid_separator_run exponent_run)
      else
        finish_decimal_literal spelling offset integer_run has_fraction fractional_run
          False False [] invalid_separator)"

text \<open>The integer and fraction runs.\<close>

definition parse_decimal_literal :: "string \<Rightarrow> NumericLiteralSpelling" where
  "parse_decimal_literal spelling =
     (let offset = skip_while is_digit_or_separator spelling 0;
          integer_run = substr spelling 0 offset;
          invalid_separator = (\<not> is_valid_separator_run integer_run) in
      if offset < length spelling \<and> spelling ! offset = CHR ''.'' then
        let begin_offset = offset + 1;
            offset = skip_while is_digit_or_separator spelling begin_offset;
            fractional_run = substr spelling begin_offset (offset - begin_offset) in
        if fractional_run = [] then floating_error nleInvalidCore
        else
          parse_decimal_exponent spelling offset integer_run True fractional_run
            (invalid_separator \<or> \<not> is_valid_separator_run fractional_run)
      else
        parse_decimal_exponent spelling offset integer_run False [] invalid_separator)"

definition parse_numeric_literal_spelling :: "string \<Rightarrow> NumericLiteralSpelling" where
  "parse_numeric_literal_spelling spelling =
     (if spelling = [] \<or> \<not> is_decimal_digit (hd spelling) then
        default_spelling\<lparr>sp_error := nleInvalidCore\<rparr>
      else if length spelling \<ge> 2 \<and> hd spelling = CHR ''0'' then
        let second = spelling ! 1 in
        if second = CHR ''b'' then parse_base_literal spelling baseBinary
        else if second = CHR ''o'' then parse_base_literal spelling baseOctal
        else if second = CHR ''x'' then parse_base_literal spelling baseHexadecimal
        else if second \<in> {CHR ''B'', CHR ''O'', CHR ''X''} then
          default_spelling\<lparr>sp_error := nleInvalidBasePrefix\<rparr>
        else if is_letter second \<and>
           second \<notin> {CHR ''e'', CHR ''E'', CHR ''f'', CHR ''F'', CHR ''i'', CHR ''I'',
                      CHR ''u'', CHR ''U''} then
          default_spelling\<lparr>sp_error := nleUnknownBasePrefix\<rparr>
        else parse_decimal_literal spelling
      else parse_decimal_literal spelling)"

section \<open>Integer cores\<close>

lemma digit_value_hex: "0 \<le> digit_value c \<Longrightarrow> digit_value c = int (hex_digit c)"
  by (simp add: digit_value_def is_decimal_digit_def hex_digit_code split: if_splits)

lemma digit_value_bounds: "-1 \<le> digit_value c" "digit_value c < 16"
  by (simp_all add: digit_value_def is_decimal_digit_def)

lemma hex_digit_less: "r \<le> 16 \<Longrightarrow> hex_digit c < r \<longleftrightarrow> 0 \<le> digit_value c \<and> digit_value c < int r"
  by (auto simp: digit_value_def is_decimal_digit_def hex_digit_code)

lemma u64_max_unat: "unat (0xFFFFFFFFFFFFFFFF :: u64) = 2 ^ 64 - 1"
  by simp

lemma base_step:
  fixes acc radix d :: u64
  assumes r: "0 < unat radix" and d: "unat d < unat radix"
  shows "acc > (0xFFFFFFFFFFFFFFFF - d) div radix \<longleftrightarrow> 2 ^ 64 \<le> unat acc * unat radix + unat d"
    and "unat acc * unat radix + unat d < 2 ^ 64 \<Longrightarrow>
         unat (acc * radix + d) = unat acc * unat radix + unat d"
proof -
  have d': "d \<le> 0xFFFFFFFFFFFFFFFF"
    using unat_lt_u64 [of d] by (simp add: word_le_nat_alt)
  have "acc > (0xFFFFFFFFFFFFFFFF - d) div radix \<longleftrightarrow> (2 ^ 64 - 1 - unat d) div unat radix < unat acc"
    using d' by (simp only: word_less_nat_alt unat_div_distrib unat_sub u64_max_unat)
  also have "\<dots> \<longleftrightarrow> 2 ^ 64 - 1 - unat d < unat acc * unat radix"
    using r by (simp only: div_less_iff_less_mult)
  also have "\<dots> \<longleftrightarrow> 2 ^ 64 \<le> unat acc * unat radix + unat d"
    using unat_lt_u64 [of d] by simp linarith
  finally show "acc > (0xFFFFFFFFFFFFFFFF - d) div radix \<longleftrightarrow>
    2 ^ 64 \<le> unat acc * unat radix + unat d" .
  assume "unat acc * unat radix + unat d < 2 ^ 64"
  then show "unat (acc * radix + d) = unat acc * unat radix + unat d"
    by (simp add: unat_word_ariths)
qed

lemma base_value_loop_correct:
  assumes "2 \<le> radix" "radix \<le> 16"
    and "\<And>c. c \<in> set cs \<Longrightarrow> 0 \<le> digit_value c \<and> digit_value c < int radix"
  shows "base_value_loop (of_nat radix) cs acc =
    (let v = unat acc * radix ^ length cs + digits_value radix hex_digit cs in
     if v < 2 ^ 64 then Some (of_nat v) else None)"
  using assms(3)
proof (induction cs arbitrary: acc)
  case Nil
  show ?case by (simp add: Let_def unat_lt_u64)
next
  case (Cons c cs)
  define d :: u64 where "d = of_int (digit_value c)"
  have dv: "0 \<le> digit_value c" "digit_value c < int radix" using Cons.prems by auto
  have r: "unat (of_nat radix :: u64) = radix" using assms by (simp add: unat_of_nat)
  have hd: "digit_value c = int (hex_digit c)" "hex_digit c < radix"
    using dv digit_value_hex [of c] by simp_all
  then have d: "unat d = hex_digit c"
    using assms by (simp add: d_def unat_of_nat)
  let ?next = "unat acc * radix + hex_digit c"
  have v: "unat acc * radix ^ length (c # cs) + digits_value radix hex_digit (c # cs) =
      ?next * radix ^ length cs + digits_value radix hex_digit cs"
    by (simp add: digits_value_Cons algebra_simps)
  show ?case
  proof (cases "?next < 2 ^ 64")
    case True
    then have "\<not> acc > (0xFFFFFFFFFFFFFFFF - d) div of_nat radix"
        and n: "unat (acc * of_nat radix + d) = ?next"
      using base_step [of "of_nat radix" d acc] d r hd assms by simp_all
    then have "base_value_loop (of_nat radix) (c # cs) acc =
        base_value_loop (of_nat radix) cs (acc * of_nat radix + d)"
      by (simp add: d_def)
    then show ?thesis
      using Cons by (simp only: v Cons.IH [of "acc * of_nat radix + d"] n list.set_intros)
  next
    case False
    then have "acc > (0xFFFFFFFFFFFFFFFF - d) div of_nat radix"
      using base_step(1) [of "of_nat radix" d acc] d r hd assms by simp
    moreover from False have "2 ^ 64 \<le> ?next * 1" by simp
    then have "2 ^ 64 \<le> ?next * radix ^ length cs"
      by (rule order_trans) (use assms in \<open>intro mult_le_mono2, simp\<close>)
    then have "\<not> ?next * radix ^ length cs + digits_value radix hex_digit cs < 2 ^ 64"
      by (simp only: not_less trans_le_add1)
    ultimately show ?thesis
      unfolding v by (simp add: d_def Let_def)
  qed
qed

lemma canonical_decimal_integer_correct:
  assumes "list_all is_decimal_digit digits"
  shows "canonical_decimal_integer digits = decimal_of_nat (decimal_value digits)"
proof -
  let ?z = "\<lambda>c. c = CHR ''0''"
  let ?rest = "dropWhile ?z digits"
  have "decimal_value (takeWhile ?z digits) = 0"
    by (induction digits) (auto simp: digits_value_Cons decimal_digit_value_def)
  then have v: "decimal_value digits = decimal_value ?rest"
    using digits_value_append [of 10 decimal_digit_value "takeWhile ?z digits" ?rest] by simp
  have len: "skip_while ?z digits 0 = length digits \<longleftrightarrow> ?rest = []"
    by (metis add_0 append_Nil2 drop0 length_append length_greater_0_conv less_add_same_cancel1
        nat_neq_iff skip_while_eq takeWhile_dropWhile_id)
  show ?thesis
  proof (cases "?rest = []")
    case True
    then have "canonical_decimal_integer digits = ''0''" "decimal_value digits = 0"
      using len v [unfolded True] by (simp_all add: canonical_decimal_integer_def)
    moreover have "decimal_of_nat 0 = ''0''" by code_simp
    ultimately show ?thesis by simp
  next
    case False
    then have "canonical_decimal_integer digits = ?rest"
      by (simp only: canonical_decimal_integer_def Let_def len if_False drop_skip_while drop0)
    moreover have "decimal_of_nat (decimal_value ?rest) = ?rest"
      using assms False hd_dropWhile [of ?z digits]
      by (intro decimal_of_nat_unique)
        (auto simp: list_all_iff is_decimal_digit_def dest: set_dropWhileD)
    ultimately show ?thesis using v by simp
  qed
qed

section \<open>The decimal grammar\<close>

text \<open>
  The parts of a decimal literal: the integer run, the fraction run, the exponent (its letter,
  its sign and its run) and the suffix. \<open>spell_decimal\<close> writes them down,
  \<open>decimal_parts_ok\<close> says which combinations the language admits.
\<close>

record DecimalParts =
  dp_integer :: string
  dp_fraction :: "string option"
  dp_exponent :: "(char \<times> string \<times> string) option"
  dp_suffix :: string

definition spell_fraction :: "string option \<Rightarrow> string" where
  "spell_fraction f = (case f of None \<Rightarrow> [] | Some run \<Rightarrow> CHR ''.'' # run)"

definition spell_exponent :: "(char \<times> string \<times> string) option \<Rightarrow> string" where
  "spell_exponent e = (case e of None \<Rightarrow> [] | Some (letter, sign, run) \<Rightarrow> letter # sign @ run)"

definition spell_decimal :: "DecimalParts \<Rightarrow> string" where
  "spell_decimal p =
     dp_integer p @ spell_fraction (dp_fraction p) @ spell_exponent (dp_exponent p) @ dp_suffix p"

definition run_ok :: "string \<Rightarrow> bool" where
  "run_ok run \<longleftrightarrow> list_all is_digit_or_separator run \<and> is_valid_separator_run run"

definition exponent_ok :: "char \<times> string \<times> string \<Rightarrow> bool" where
  "exponent_ok = (\<lambda>(letter, sign, run). (letter = CHR ''e'' \<or> letter = CHR ''E'') \<and>
     (sign = [] \<or> sign = ''+'' \<or> sign = ''-'') \<and> run_ok run)"

definition core_floating :: "DecimalParts \<Rightarrow> bool" where
  "core_floating p \<longleftrightarrow> dp_fraction p \<noteq> None \<or> dp_exponent p \<noteq> None"

definition suffix_ok :: "bool \<Rightarrow> string \<Rightarrow> bool" where
  "suffix_ok floating suf \<longleftrightarrow>
     suf = [] \<or> parse_suffix suf \<noteq> sfxNone \<and> (floating \<longrightarrow> is_floating_suffix (parse_suffix suf))"

definition decimal_parts_ok :: "DecimalParts \<Rightarrow> bool" where
  "decimal_parts_ok p \<longleftrightarrow> run_ok (dp_integer p) \<and> pred_option run_ok (dp_fraction p) \<and>
     pred_option exponent_ok (dp_exponent p) \<and> suffix_ok (core_floating p) (dp_suffix p)"

text \<open>What the decoder returns for them.\<close>

definition exponent_value :: "(char \<times> string \<times> string) option \<Rightarrow> int" where
  "exponent_value e = (case e of None \<Rightarrow> 0 | Some (letter, sign, run) \<Rightarrow>
     parse_exponent (digits_without_separators run) (sign = ''-''))"

definition fraction_digits :: "string option \<Rightarrow> string" where
  "fraction_digits f = (case f of None \<Rightarrow> [] | Some run \<Rightarrow> digits_without_separators run)"

definition decimal_result :: "DecimalParts \<Rightarrow> NumericLiteralSpelling" where
  "decimal_result p =
     (let kind = parse_suffix (dp_suffix p);
          floating = core_floating p \<or> is_floating_suffix kind;
          digits = digits_without_separators (dp_integer p) in
      \<lparr>sp_core = (if floating
                  then canonical_decimal_float digits (fraction_digits (dp_fraction p))
                         (exponent_value (dp_exponent p))
                  else decimal_of_nat (decimal_value digits)),
       sp_suffix = dp_suffix p, sp_suffix_kind = kind, sp_error = nleNone,
       sp_base = baseDecimal, sp_core_is_floating = core_floating p, sp_is_floating = floating\<rparr>)"

abbreviation run_char :: "char \<Rightarrow> bool" where
  "run_char \<equiv> is_digit_or_separator"

lemma run_char_not [simp]:
  "\<not> run_char (CHR ''.'')" "\<not> run_char (CHR ''e'')" "\<not> run_char (CHR ''E'')"
  "\<not> run_char (CHR ''+'')" "\<not> run_char (CHR ''-'')" "\<not> run_char (CHR ''i'')"
  "\<not> run_char (CHR ''u'')" "\<not> run_char (CHR ''f'')"
  by (simp_all add: is_digit_or_separator_def is_decimal_digit_def)

lemma parse_suffix_chars:
  "parse_suffix suf \<noteq> sfxNone \<Longrightarrow> suf \<noteq> [] \<and> hd suf \<in> {CHR ''i'', CHR ''u'', CHR ''f''}"
  by (auto simp: parse_suffix_def split: if_splits)

lemma takeWhile_run:
  assumes "list_all P run" "rest = [] \<or> \<not> P (hd rest)"
  shows "takeWhile P (run @ rest) = run" "dropWhile P (run @ rest) = rest"
  using assms by (induction run) (cases rest; auto)+

lemma run_ok_nonempty: "run_ok run \<Longrightarrow> run \<noteq> [] \<and> list_ex is_decimal_digit run"
  by (cases run) (auto simp: run_ok_def is_valid_separator_run_def is_digit_or_separator_def)

lemma digits_without_separators_digits:
  "list_all run_char run \<Longrightarrow> list_all is_decimal_digit (digits_without_separators run)"
  by (auto simp: list_all_iff digits_without_separators_def is_digit_or_separator_def)

lemma at_offset: "(i < length s \<and> s ! i = c) \<longleftrightarrow> (\<exists>r. drop i s = c # r)"
  by (auto simp: Cons_nth_drop_Suc [symmetric]) (metis Cons_nth_drop_Suc drop_all linorder_not_less list.distinct(1) list.inject)+

lemma drop_Suc_tail: "drop i s = c # r \<Longrightarrow> drop (Suc i) s = r"
  by (metis drop_Suc list.sel(3) tl_drop)

lemma error_none_finish:
  "sp_error (finish_decimal_literal s i irun hf frun he neg erun bad) = nleNone \<longleftrightarrow>
     \<not> bad \<and> suffix_ok (hf \<or> he) (drop i s)"
  by (auto simp: finish_decimal_literal_def default_spelling_def Let_def suffix_ok_def
      is_floating_suffix_def parse_suffix_def split: if_splits)

lemma finish_result:
  assumes "decimal_parts_ok p" "drop i s = dp_suffix p"
  shows "finish_decimal_literal s i (dp_integer p) (dp_fraction p \<noteq> None)
     (case dp_fraction p of None \<Rightarrow> [] | Some run \<Rightarrow> run) (dp_exponent p \<noteq> None)
     (case dp_exponent p of None \<Rightarrow> False | Some (_, sign, _) \<Rightarrow> sign = ''-'')
     (case dp_exponent p of None \<Rightarrow> [] | Some (_, _, run) \<Rightarrow> run) False = decimal_result p"
proof -
  let ?k = "parse_suffix (dp_suffix p)"
  have d: "digits_without_separators [] = []" by (simp add: digits_without_separators_def)
  have "canonical_decimal_integer (digits_without_separators (dp_integer p)) =
      decimal_of_nat (decimal_value (digits_without_separators (dp_integer p)))"
    using assms(1) by (intro canonical_decimal_integer_correct digits_without_separators_digits)
      (simp add: decimal_parts_ok_def run_ok_def)
  moreover have "dp_suffix p = [] \<or> ?k \<noteq> sfxNone"
    "core_floating p \<Longrightarrow> ?k \<noteq> sfxNone \<Longrightarrow> is_floating_suffix ?k"
    using assms(1) by (auto simp: decimal_parts_ok_def suffix_ok_def parse_suffix_def)
  moreover have "core_floating p = (dp_fraction p \<noteq> None \<or> dp_exponent p \<noteq> None)"
    by (simp add: core_floating_def)
  ultimately show ?thesis
    using assms(2)
    by (cases "dp_fraction p"; cases "dp_exponent p")
      (auto simp: finish_decimal_literal_def decimal_result_def default_spelling_def Let_def
        fraction_digits_def exponent_value_def d)
qed

lemma exponent_stage_complete:
  assumes "pred_option exponent_ok e" "drop i s = spell_exponent e @ suf" "suffix_ok fl suf"
  shows "parse_decimal_exponent s i irun hf frun bad =
    finish_decimal_literal s (i + length (spell_exponent e)) irun hf frun (e \<noteq> None)
     (case e of None \<Rightarrow> False | Some (_, sign, _) \<Rightarrow> sign = ''-'')
     (case e of None \<Rightarrow> [] | Some (_, _, run) \<Rightarrow> run) bad"
proof (cases e)
  case None
  have "\<not> (\<exists>r. drop i s = CHR ''e'' # r) \<and> \<not> (\<exists>r. drop i s = CHR ''E'' # r)"
    using assms None parse_suffix_chars [of suf] by (auto simp: spell_exponent_def suffix_ok_def)
  then have "\<not> (i < length s \<and> (s ! i = CHR ''e'' \<or> s ! i = CHR ''E''))"
    by (auto simp flip: at_offset)
  then show ?thesis
    using None by (simp only: parse_decimal_exponent_def if_False) (simp add: spell_exponent_def)
next
  case (Some x)
  obtain letter sign run where x: "x = (letter, sign, run)" by (cases x)
  have ok: "letter = CHR ''e'' \<or> letter = CHR ''E''" "sign = [] \<or> sign = ''+'' \<or> sign = ''-''" "run_ok run"
    using assms Some x by (auto simp: exponent_ok_def)
  have d: "drop i s = letter # sign @ run @ suf"
    using assms Some x by (simp add: spell_exponent_def)
  have l: "i < length s" "s ! i = letter" using d at_offset by metis+
  have d1: "drop (Suc i) s = sign @ run @ suf" using d drop_Suc_tail by metis
  have suf: "suf = [] \<or> \<not> run_char (hd suf)"
    using assms(3) parse_suffix_chars [of suf] by (auto simp: suffix_ok_def)
  have run: "list_all run_char run" "run \<noteq> []" "list_ex is_decimal_digit run" "is_valid_separator_run run"
    using ok(3) run_ok_nonempty by (auto simp: run_ok_def)
  define b where "b = (if sign = [] then Suc i else Suc (Suc i))"
  let ?signed = "Suc i < length s \<and> (s ! Suc i = CHR ''+'' \<or> s ! Suc i = CHR ''-'')"
  have sg: "?signed = (sign \<noteq> [])" "(?signed \<and> s ! Suc i = CHR ''-'') = (sign = ''-'')"
  proof -
    obtain y ys where y: "run = y # ys" using run by (cases run) auto
    obtain c cs where c: "sign @ run @ suf = c # cs" using y by (cases sign) auto
    then have "Suc i < length s" "s ! Suc i = c" using d1 at_offset by metis+
    then show "?signed = (sign \<noteq> [])" "(?signed \<and> s ! Suc i = CHR ''-'') = (sign = ''-'')"
      using ok(2) c y run(1) by auto
  qed
  have db: "drop b s = run @ suf"
    using ok(2) d1 drop_Suc_tail [of "Suc i" s] by (auto simp: b_def)
  have sk: "skip_while run_char s b = b + length run" "substr s b (skip_while run_char s b - b) = run"
    using takeWhile_run(1) [OF run(1) suf] by (simp_all add: skip_while_eq substr_def db)
  have "i + length (spell_exponent e) = b + length run"
    using ok(2) Some x by (auto simp: spell_exponent_def b_def)
  then show ?thesis
    using ok(1) l sg sk run Some x
    by (auto simp: parse_decimal_exponent_def Let_def b_def)
qed

lemma decimal_complete:
  assumes ok: "decimal_parts_ok p"
  shows "parse_decimal_literal (spell_decimal p) = decimal_result p"
proof -
  let ?s = "spell_decimal p" and ?e = "dp_exponent p" and ?suf = "dp_suffix p"
  let ?irun = "dp_integer p" and ?rest = "spell_exponent (dp_exponent p) @ dp_suffix p"
  have run: "list_all run_char ?irun" "is_valid_separator_run ?irun"
    and e: "pred_option exponent_ok ?e" and suf: "suffix_ok (core_floating p) ?suf"
    and f: "pred_option run_ok (dp_fraction p)"
    using ok by (auto simp: decimal_parts_ok_def run_ok_def)
  have hd_suf: "?suf = [] \<or> \<not> run_char (hd ?suf) \<and> hd ?suf \<noteq> CHR ''.''"
    using suf parse_suffix_chars [of ?suf] by (auto simp: suffix_ok_def)
  have hd_rest: "?rest = [] \<or> \<not> run_char (hd ?rest) \<and> hd ?rest \<noteq> CHR ''.''"
    using e hd_suf by (cases ?e) (auto simp: spell_exponent_def exponent_ok_def)
  note fin = finish_result [OF ok]
  show ?thesis
  proof (cases "dp_fraction p")
    case None
    have s: "?s = ?irun @ ?rest" using None by (simp add: spell_decimal_def spell_fraction_def)
    have "takeWhile run_char (?irun @ ?rest) = ?irun"
      by (rule takeWhile_run [OF run(1)]) (use hd_rest in blast)
    then have sk: "skip_while run_char ?s 0 = length ?irun"
      by (simp add: skip_while_eq s)
    have sub: "substr ?s 0 (length ?irun) = ?irun" by (simp add: substr_def s)
    have "\<not> (length ?irun < length ?s \<and> ?s ! length ?irun = CHR ''.'')"
      unfolding at_offset using hd_rest by (auto simp: s)
    then have "parse_decimal_literal ?s =
        parse_decimal_exponent ?s (length ?irun) ?irun False [] False"
      using run sk sub by (simp only: parse_decimal_literal_def Let_def if_False not_True_eq_False)
    also have "\<dots> = decimal_result p"
      using exponent_stage_complete [OF e _ suf, of "length ?irun" ?s ?irun False "[]" False] fin
        [of "length ?irun + length (spell_exponent ?e)" ?s] None
      by (simp add: s)
    finally show ?thesis .
  next
    case (Some frun)
    have fr: "list_all run_char frun" "is_valid_separator_run frun" "frun \<noteq> []"
      using f Some run_ok_nonempty by (auto simp: run_ok_def)
    have s: "?s = ?irun @ CHR ''.'' # frun @ ?rest"
      using Some by (simp add: spell_decimal_def spell_fraction_def)
    let ?b = "Suc (length ?irun)"
    have sk: "skip_while run_char ?s 0 = length ?irun"
      using takeWhile_run [OF run(1), of "CHR ''.'' # frun @ ?rest"] by (simp add: skip_while_eq s)
    have "takeWhile run_char (frun @ ?rest) = frun"
      by (rule takeWhile_run [OF fr(1)]) (use hd_rest in blast)
    then have sk2: "skip_while run_char ?s ?b = ?b + length frun"
      by (simp add: skip_while_eq s)
    have sub: "substr ?s 0 (length ?irun) = ?irun" "substr ?s ?b (?b + length frun - ?b) = frun"
      by (simp_all add: substr_def s)
    have dot: "length ?irun < length ?s \<and> ?s ! length ?irun = CHR ''.''"
      by (simp add: s)
    then have "parse_decimal_literal ?s =
        parse_decimal_exponent ?s (?b + length frun) ?irun True frun False"
      using run sk sk2 fr sub
      by (simp only: parse_decimal_literal_def Let_def if_True if_False not_True_eq_False
          simp_thms Suc_eq_plus1 [symmetric])
    also have "\<dots> = decimal_result p"
      using exponent_stage_complete [OF e _ suf, of "?b + length frun" ?s ?irun True frun False] fin
        [of "?b + length frun + length (spell_exponent ?e)" ?s] Some
      by (simp add: s)
    finally show ?thesis .
  qed
qed

lemma error_none_floating [simp]: "e \<noteq> nleNone \<Longrightarrow> sp_error (floating_error e) \<noteq> nleNone"
  by (simp add: floating_error_def)

lemma takeWhile_all: "list_all P (takeWhile P xs)"
  by (auto simp: list_all_iff dest: set_takeWhileD)

lemma exponent_stage_sound:
  assumes "sp_error (parse_decimal_exponent s i irun hf frun bad) = nleNone"
  shows "\<exists>e suf. \<not> bad \<and> drop i s = spell_exponent e @ suf \<and> pred_option exponent_ok e \<and>
    suffix_ok (hf \<or> e \<noteq> None) suf"
proof (cases "i < length s \<and> (s ! i = CHR ''e'' \<or> s ! i = CHR ''E'')")
  case False
  then have "\<not> bad \<and> suffix_ok hf (drop i s)"
    using assms by (simp only: parse_decimal_exponent_def if_False error_none_finish) simp
  then show ?thesis
    by (intro exI [of _ None] exI [of _ "drop i s"]) (simp add: spell_exponent_def)
next
  case True
  let ?j = "i + 1"
  let ?signed = "?j < length s \<and> (s ! ?j = CHR ''+'' \<or> s ! ?j = CHR ''-'')"
  define b where "b = (if ?signed then ?j + 1 else ?j)"
  define sign where "sign = (if ?signed then [s ! ?j] else [])"
  define run where "run = takeWhile run_char (drop b s)"
  have d: "drop i s = s ! i # sign @ drop b s"
    using True by (auto simp: sign_def b_def Cons_nth_drop_Suc)
  have r: "substr s b (skip_while run_char s b - b) = run"
    by (simp add: run_def substr_skip_while)
  have "parse_decimal_exponent s i irun hf frun bad =
      (if run = [] \<or> \<not> list_ex is_decimal_digit run then floating_error nleMissingExponentDigits
       else finish_decimal_literal s (skip_while run_char s b) irun hf frun True
         (?signed \<and> s ! ?j = CHR ''-'') run (bad \<or> \<not> is_valid_separator_run run))"
    using True
    by (simp only: parse_decimal_exponent_def if_True simp_thms Let_def b_def [symmetric] r)
  with assms have ok: "\<not> bad" "is_valid_separator_run run" "suffix_ok True (drop (skip_while run_char s b) s)"
    by (auto simp: error_none_finish split: if_splits)
  have "drop b s = run @ drop (skip_while run_char s b) s"
    by (simp add: run_def drop_skip_while)
  moreover have "exponent_ok (s ! i, sign, run)"
    using True ok takeWhile_all by (auto simp: exponent_ok_def run_ok_def sign_def run_def)
  ultimately show ?thesis
    using ok d
    by (intro exI [of _ "Some (s ! i, sign, run)"] exI [of _ "drop (skip_while run_char s b) s"])
      (simp add: spell_exponent_def)
qed

lemma decimal_sound:
  assumes "sp_error (parse_decimal_literal s) = nleNone"
  shows "\<exists>p. decimal_parts_ok p \<and> s = spell_decimal p"
proof -
  let ?k = "skip_while run_char s 0"
  let ?irun = "takeWhile run_char s"
  have ir: "substr s 0 ?k = ?irun" "s = ?irun @ drop ?k s"
    using substr_skip_while [of s 0 run_char] by (simp_all add: drop_skip_while)
  have parts: "\<exists>p. decimal_parts_ok p \<and> s = spell_decimal p"
    if "drop ?k s = spell_fraction f @ spell_exponent e @ suf" "is_valid_separator_run ?irun"
      "pred_option run_ok f" "pred_option exponent_ok e" "suffix_ok (f \<noteq> None \<or> e \<noteq> None) suf" for f e suf
    using that ir(2) takeWhile_all [of run_char s]
    by (intro exI [of _ "\<lparr>dp_integer = ?irun, dp_fraction = f, dp_exponent = e, dp_suffix = suf\<rparr>"])
      (auto simp: decimal_parts_ok_def spell_decimal_def run_ok_def core_floating_def)
  show ?thesis
  proof (cases "?k < length s \<and> s ! ?k = CHR ''.''")
    case False
    then have "sp_error (parse_decimal_exponent s ?k ?irun False []
        (\<not> is_valid_separator_run ?irun)) = nleNone"
      using assms by (simp only: parse_decimal_literal_def Let_def if_False ir(1))
    then obtain e suf where "is_valid_separator_run ?irun" "drop ?k s = spell_exponent e @ suf"
        "pred_option exponent_ok e" "suffix_ok (e \<noteq> None) suf"
      using exponent_stage_sound by fastforce
    then show ?thesis using parts [of None e suf] by (simp add: spell_fraction_def)
  next
    case True
    let ?b = "?k + 1"
    let ?frun = "takeWhile run_char (drop ?b s)"
    have "parse_decimal_literal s =
        (if ?frun = [] then floating_error nleInvalidCore
         else parse_decimal_exponent s (skip_while run_char s ?b) ?irun True ?frun
           (\<not> is_valid_separator_run ?irun \<or> \<not> is_valid_separator_run ?frun))"
      using True by (simp only: parse_decimal_literal_def Let_def if_True simp_thms ir(1) substr_skip_while)
    with assms obtain e suf where ok: "is_valid_separator_run ?irun" "is_valid_separator_run ?frun"
        "drop (skip_while run_char s ?b) s = spell_exponent e @ suf"
        "pred_option exponent_ok e" "suffix_ok True suf"
      using exponent_stage_sound [of s "skip_while run_char s ?b" ?irun True ?frun]
      by (fastforce split: if_splits)
    have "drop ?k s = CHR ''.'' # drop ?b s"
      using True by (metis Cons_nth_drop_Suc Suc_eq_plus1)
    moreover have "drop ?b s = ?frun @ drop (skip_while run_char s ?b) s"
      by (simp add: drop_skip_while)
    ultimately show ?thesis
      using ok parts [of "Some ?frun" e suf]
      by (simp add: spell_fraction_def run_ok_def takeWhile_all)
  qed
qed

section \<open>Literals with a base prefix\<close>

primrec base_prefix :: "NumericLiteralBase \<Rightarrow> string" where
  "base_prefix baseBinary = ''0b''"
| "base_prefix baseOctal = ''0o''"
| "base_prefix baseHexadecimal = ''0x''"
| "base_prefix baseDecimal = []"

definition base_run_ok :: "NumericLiteralBase \<Rightarrow> string \<Rightarrow> bool" where
  "base_run_ok base run \<longleftrightarrow>
     list_all (\<lambda>c. c = CHR ''_'' \<or> hex_digit c < base_radix base) run \<and> is_valid_separator_run run"

lemma base_run_ok_code:
  "base_run_ok base run \<longleftrightarrow>
     list_all (is_base_digit_or_separator (base_radix base)) run \<and> is_valid_separator_run run"
proof -
  have "base_radix base \<le> 16" by (cases base) simp_all
  then have "(\<lambda>c. c = CHR ''_'' \<or> hex_digit c < base_radix base) = is_base_digit_or_separator (base_radix base)"
    by (auto simp: fun_eq_iff is_base_digit_or_separator_def hex_digit_less)
  then show ?thesis unfolding base_run_ok_def by (rule arg_cong)
qed

definition base_suffix_ok :: "string \<Rightarrow> bool" where
  "base_suffix_ok suf \<longleftrightarrow> suf = [] \<or> parse_suffix suf \<noteq> sfxNone \<and> \<not> is_floating_suffix (parse_suffix suf)"

text \<open>
  The value is printed in decimal when it fits 64 bits; otherwise the core is the numeral of
  \<open>2 ^ 64\<close>, which no integer type accepts.
\<close>

definition base_result :: "NumericLiteralBase \<Rightarrow> string \<Rightarrow> string \<Rightarrow> NumericLiteralSpelling" where
  "base_result base run suf =
     default_spelling\<lparr>sp_base := base, sp_suffix := suf, sp_suffix_kind := parse_suffix suf,
       sp_core := decimal_of_nat
         (min (digits_value (base_radix base) hex_digit (digits_without_separators run)) (2 ^ 64))\<rparr>"

lemma base_suffix_head:
  "base_suffix_ok suf \<Longrightarrow> suf = [] \<or> \<not> is_base_digit_or_separator (base_radix base) (hd suf)"
  by (auto simp: base_suffix_ok_def parse_suffix_def is_floating_suffix_def
      is_base_digit_or_separator_def digit_value_def is_decimal_digit_def split: if_splits)

lemma sentinel_numeral: "decimal_of_nat (2 ^ 64) = ''18446744073709551616''"
proof -
  have "decimal_value ''18446744073709551616'' = 2 ^ 64"
    by (simp add: digits_value_def decimal_digit_value_def)
  moreover have "decimal_of_nat (decimal_value ''18446744073709551616'') = ''18446744073709551616''"
    by (rule decimal_of_nat_unique) auto
  ultimately show ?thesis by simp
qed

lemma base_core:
  assumes "base \<noteq> baseDecimal" "list_all (is_base_digit_or_separator (base_radix base)) run"
  shows "(case base_value_loop (of_nat (base_radix base)) (digits_without_separators run) 0 of
            None \<Rightarrow> ''18446744073709551616'' | Some v \<Rightarrow> decimal_of_nat (unat v)) =
         decimal_of_nat (min (digits_value (base_radix base) hex_digit
           (digits_without_separators run)) (2 ^ 64))"
proof -
  let ?r = "base_radix base" and ?cs = "digits_without_separators run"
  have "2 \<le> ?r" "?r \<le> 16" by (cases base; simp)+
  moreover have "\<And>c. c \<in> set ?cs \<Longrightarrow> 0 \<le> digit_value c \<and> digit_value c < int ?r"
    using assms(2) by (auto simp: digits_without_separators_def list_all_iff is_base_digit_or_separator_def)
  ultimately have "base_value_loop (of_nat ?r) ?cs 0 =
      (let v = digits_value ?r hex_digit ?cs in if v < 2 ^ 64 then Some (of_nat v) else None)"
    using base_value_loop_correct [of ?r ?cs 0] by simp
  then show ?thesis
    by (simp add: Let_def unat_of_nat min_def sentinel_numeral [simplified])
qed

lemma base_complete:
  assumes "base \<noteq> baseDecimal" "base_run_ok base run" "base_suffix_ok suf"
  shows "parse_base_literal (base_prefix base @ run @ suf) base = base_result base run suf"
proof -
  let ?P = "is_base_digit_or_separator (base_radix base)"
  let ?s = "base_prefix base @ run @ suf"
  have len: "length (base_prefix base) = 2" using assms(1) by (cases base) simp_all
  have run: "list_all ?P run" "is_valid_separator_run run" "run \<noteq> []"
    using assms(2) by (auto simp: base_run_ok_code is_valid_separator_run_def)
  have d: "drop 2 ?s = run @ suf" using len by simp
  have tw: "takeWhile ?P (run @ suf) = run" "dropWhile ?P (run @ suf) = suf"
    using takeWhile_run [OF run(1) base_suffix_head [OF assms(3)]] by auto
  have sub: "substr ?s 2 (skip_while ?P ?s 2 - 2) = run" "drop (skip_while ?P ?s 2) ?s = suf"
    by (simp_all only: substr_skip_while drop_skip_while d tw)
  have suf: "\<not> (suf \<noteq> [] \<and> parse_suffix suf = sfxNone)" "\<not> is_floating_suffix (parse_suffix suf)"
    using assms(3) by (auto simp: base_suffix_ok_def parse_suffix_def is_floating_suffix_def)
  show ?thesis
    unfolding parse_base_literal_def Let_def sub base_core [OF assms(1) run(1)]
    using run suf by (auto simp: base_result_def)
qed

lemma base_sound:
  assumes "sp_error (parse_base_literal s base) = nleNone" "take 2 s = base_prefix base"
  shows "\<exists>run suf. base_run_ok base run \<and> base_suffix_ok suf \<and> s = base_prefix base @ run @ suf"
proof -
  let ?P = "is_base_digit_or_separator (base_radix base)"
  let ?run = "takeWhile ?P (drop 2 s)" and ?suf = "dropWhile ?P (drop 2 s)"
  have "is_valid_separator_run ?run" "base_suffix_ok ?suf"
    using assms(1) unfolding parse_base_literal_def Let_def substr_skip_while drop_skip_while
    by (auto simp: base_suffix_ok_def split: if_splits)
  moreover have "s = base_prefix base @ ?run @ ?suf"
    using assms(2) by (metis append_take_drop_id takeWhile_dropWhile_id)
  moreover have "list_all ?P ?run" by (rule takeWhile_all)
  ultimately show ?thesis
    unfolding base_run_ok_code by blast
qed

section \<open>Floating cores\<close>

lemma parse_exponent_loop_correct:
  assumes "list_all is_decimal_digit cs" "0 \<le> acc" "acc \<le> kSaturatedExponent"
  shows "parse_exponent_loop cs acc =
    min kSaturatedExponent (acc * 10 ^ length cs + int (decimal_value cs))"
  using assms
proof (induction cs arbitrary: acc)
  case Nil
  then show ?case by simp
next
  case (Cons c cs)
  let ?d = "int (code c) - 48"
  have d: "0 \<le> ?d" "?d \<le> 9" "?d = int (decimal_digit_value c)"
    using Cons.prems by (auto simp: is_decimal_digit_def decimal_digit_value_def)
  have v: "acc * 10 ^ length (c # cs) + int (decimal_value (c # cs)) =
      (acc * 10 + ?d) * 10 ^ length cs + int (decimal_value cs)"
    using d by (simp add: digits_value_Cons algebra_simps)
  show ?case
  proof (cases "acc > (kSaturatedExponent - ?d) div 10")
    case True
    then have big: "kSaturatedExponent < acc * 10 + ?d" by (simp add: kSaturatedExponent_def)
    define m where "m = acc * 10 + ?d"
    have "m * 1 \<le> m * 10 ^ length cs"
      using big by (intro mult_left_mono) (auto simp: m_def kSaturatedExponent_def)
    with big have "kSaturatedExponent \<le> m * 10 ^ length cs + int (decimal_value cs)"
      unfolding m_def [symmetric] by linarith
    then have "kSaturatedExponent \<le> acc * 10 ^ length (c # cs) + int (decimal_value (c # cs))"
      by (simp only: v m_def)
    then show ?thesis using True by simp
  next
    case False
    then have "acc * 10 + ?d \<le> kSaturatedExponent" by (simp add: kSaturatedExponent_def)
    then show ?thesis using False Cons d unfolding v by (simp add: Let_def)
  qed
qed

text \<open>The value a floating literal spells: its digits scaled by its exponent.\<close>

definition scaled :: "nat \<Rightarrow> int \<Rightarrow> rat" where
  "scaled m x = of_nat m * 10 powi x"

text \<open>A core denotes a value when it is a coefficient without outer zeros and an exponent.\<close>

definition core_denotes :: "string \<Rightarrow> rat \<Rightarrow> bool" where
  "core_denotes core q \<longleftrightarrow>
     (if q = 0 then core = ''0e0''
      else \<exists>coefficient x. core = coefficient @ ''e'' @ decimal_of_int x \<and>
        coefficient \<noteq> [] \<and> list_all is_decimal_digit coefficient \<and>
        hd coefficient \<noteq> CHR ''0'' \<and> last coefficient \<noteq> CHR ''0'' \<and>
        q = scaled (decimal_value coefficient) x)"

lemma decimal_value_zeros: "list_all (\<lambda>c. c = CHR ''0'') s \<Longrightarrow> decimal_value s = 0"
  by (induction s) (simp_all add: digits_value_Cons decimal_digit_value_def)

lemma strip_leading: "decimal_value (dropWhile (\<lambda>c. c = CHR ''0'') s) = decimal_value s"
proof -
  have "decimal_value (takeWhile (\<lambda>c. c = CHR ''0'') s) = 0"
    by (intro decimal_value_zeros takeWhile_all)
  then show ?thesis
    using digits_value_append [of 10 decimal_digit_value "takeWhile (\<lambda>c. c = CHR ''0'') s"
        "dropWhile (\<lambda>c. c = CHR ''0'') s"] by simp
qed

lemma decimal_value_pos:
  "list_all is_decimal_digit s \<Longrightarrow> s \<noteq> [] \<Longrightarrow> hd s \<noteq> CHR ''0'' \<Longrightarrow> 0 < decimal_value s"
proof (cases s)
  case (Cons c cs)
  assume "list_all is_decimal_digit s" "hd s \<noteq> CHR ''0''"
  then have "48 \<le> code c" "c \<noteq> CHR ''0''" using Cons by (auto simp: is_decimal_digit_def)
  moreover have "code c = 48 \<Longrightarrow> c = CHR ''0''"
    by (rule of_char_eq_iff [where ?'a = nat, THEN iffD1]) simp
  ultimately have "0 < decimal_digit_value c" by (force simp: decimal_digit_value_def)
  then show ?thesis using Cons by (simp add: digits_value_Cons)
qed simp

lemma clamp_exponent_id: "\<bar>v\<bar> \<le> kSaturatedExponent \<Longrightarrow> clamp_exponent v = v"
  by (auto simp: clamp_exponent_def)

lemma subtract_size_exact:
  "int a \<le> kSaturatedExponent \<Longrightarrow> \<bar>v - int a\<bar> \<le> kSaturatedExponent \<Longrightarrow> subtract_size v a = v - int a"
  by (simp add: subtract_size_def clamp_exponent_id min_absorb1)

lemma add_size_exact:
  "int a \<le> kSaturatedExponent \<Longrightarrow> \<bar>v + int a\<bar> \<le> kSaturatedExponent \<Longrightarrow> add_size v a = v + int a"
  by (simp add: add_size_def clamp_exponent_id min_absorb1)

lemma take_trailing:
  "take (length c - length (takeWhile P (rev c))) c = rev (dropWhile P (rev c))"
  by (simp add: dropWhile_eq_drop rev_drop)

lemma strip_trailing:
  assumes "c \<noteq> []" "hd c \<noteq> CHR ''0''" "k = rev (dropWhile (\<lambda>c. c = CHR ''0'') (rev c))"
    and "n = length (takeWhile (\<lambda>c. c = CHR ''0'') (rev c))"
  shows "k \<noteq> []" "hd k = hd c" "last k \<noteq> CHR ''0''" "set k \<subseteq> set c"
    and "decimal_value c = decimal_value k * 10 ^ n" "n \<le> length c"
proof -
  let ?z = "\<lambda>c. c = CHR ''0''"
  have split: "c = k @ rev (takeWhile ?z (rev c))"
    by (metis assms(3) rev_append rev_rev_ident takeWhile_dropWhile_id)
  show ne: "k \<noteq> []"
    unfolding assms(3) rev_is_Nil_conv dropWhile_eq_Nil_conv
    using assms(1,2) hd_in_set by (metis set_rev)
  then show hd: "hd k = hd c" using split by (metis hd_append2)
  have "dropWhile ?z (rev c) \<noteq> []" using ne assms(3) by (simp only: rev_is_Nil_conv not_False_eq_True)
  then show "last k \<noteq> CHR ''0''"
    using hd_dropWhile [of ?z "rev c"] assms(3) by (simp only: last_rev not_False_eq_True)
  show "set k \<subseteq> set c" by (auto simp: assms(3) dest: set_dropWhileD)
  have "list_all ?z (rev (takeWhile ?z (rev c)))"
    using takeWhile_all [of ?z "rev c"] by (simp add: list_all_iff)
  then have "decimal_value (rev (takeWhile ?z (rev c))) = 0"
    by (rule decimal_value_zeros)
  then show "decimal_value c = decimal_value k * 10 ^ n"
    by (subst split) (simp add: digits_value_append assms(4))
  show "n \<le> length c" using length_takeWhile_le [of ?z "rev c"] by (simp add: assms(4))
qed

lemma canonical_decimal_float_value:
  assumes digits: "list_all is_decimal_digit (i @ f)"
    and small: "\<bar>x\<bar> + int (length i + length f) \<le> kSaturatedExponent"
  shows "core_denotes (canonical_decimal_float i f x)
    (scaled (decimal_value (i @ f)) (x - int (length f)))"
proof -
  let ?z = "\<lambda>c. c = CHR ''0''"
  let ?c = "dropWhile ?z (i @ f)"
  define n where "n = length (takeWhile ?z (rev ?c))"
  define k where "k = rev (dropWhile ?z (rev ?c))"
  define e where "e = x - int (length f) + int n"
  have first: "skip_while ?z (i @ f) 0 = length (i @ f) \<longleftrightarrow> ?c = []"
    by (metis add_0 append_Nil2 drop0 length_append length_greater_0_conv less_add_same_cancel1
        nat_neq_iff skip_while_eq takeWhile_dropWhile_id)
  show ?thesis
  proof (cases "?c = []")
    case True
    then have "canonical_decimal_float i f x = ''0e0''"
      using first by (simp only: canonical_decimal_float_def Let_def if_True simp_thms)
    moreover have "decimal_value (i @ f) = 0" using strip_leading [of "i @ f"] True by simp
    ultimately show ?thesis by (simp add: core_denotes_def scaled_def)
  next
    case False
    have c: "list_all is_decimal_digit ?c" "hd ?c \<noteq> CHR ''0''"
      using digits hd_dropWhile [OF False] by (auto simp: list_all_iff dest: set_dropWhileD)
    note k = strip_trailing [OF False c(2) k_def n_def]
    have "n \<le> length i + length f"
      using k(6) length_dropWhile_le [of ?z "i @ f"] by simp
    then have "add_size (subtract_size x (length f)) n = e"
      using small by (subst subtract_size_exact, linarith, linarith, subst add_size_exact)
        (linarith | simp add: e_def)+
    then have core: "canonical_decimal_float i f x = k @ ''e'' @ decimal_of_int e"
      using False by (simp only: canonical_decimal_float_def Let_def first if_False
          drop_skip_while drop0 take_trailing k_def n_def)
    have kd: "list_all is_decimal_digit k" using c(1) k(4) by (auto simp: list_all_iff)
    have "0 < decimal_value k" using decimal_value_pos [OF kd k(1)] k(2) c(2) by simp
    moreover have "decimal_value (i @ f) = decimal_value k * 10 ^ n"
      using k(5) strip_leading [of "i @ f"] by simp
    ultimately have "scaled (decimal_value (i @ f)) (x - int (length f)) = scaled (decimal_value k) e"
        "scaled (decimal_value k) e \<noteq> 0"
      by (simp_all add: scaled_def e_def power_int_add)
    moreover have "hd k \<noteq> CHR ''0''" using k(2) c(2) by simp
    ultimately show ?thesis
      unfolding core_denotes_def using core k(1,3) kd by auto
  qed
qed

section \<open>Properties\<close>

lemma spell_decimal_head:
  assumes "decimal_parts_ok p"
  shows "spell_decimal p \<noteq> []" "is_decimal_digit (hd (spell_decimal p))"
proof -
  obtain c cs where c: "dp_integer p = c # cs" "run_char c" "c \<noteq> CHR ''_''"
    using assms run_ok_nonempty [of "dp_integer p"]
    by (cases "dp_integer p") (auto simp: decimal_parts_ok_def run_ok_def is_valid_separator_run_def)
  then show "spell_decimal p \<noteq> []" "is_decimal_digit (hd (spell_decimal p))"
    by (auto simp: spell_decimal_def is_digit_or_separator_def)
qed

text \<open>The second character of a decimal spelling never selects a base.\<close>

definition decimal_second :: "char \<Rightarrow> bool" where
  "decimal_second c \<longleftrightarrow> run_char c \<or> c \<in> set ''.eEiuf''"

lemma spell_decimal_second:
  assumes "decimal_parts_ok p" "2 \<le> length (spell_decimal p)"
  shows "decimal_second (spell_decimal p ! 1)"
proof -
  obtain c cs where c: "dp_integer p = c # cs"
    using assms run_ok_nonempty [of "dp_integer p"]
    by (cases "dp_integer p") (auto simp: decimal_parts_ok_def)
  have runs: "list_all run_char cs"
    using assms c by (auto simp: decimal_parts_ok_def run_ok_def)
  have suf: "dp_suffix p = [] \<or> hd (dp_suffix p) \<in> set ''iuf''"
    using assms parse_suffix_chars [of "dp_suffix p"] by (auto simp: decimal_parts_ok_def suffix_ok_def)
  have e: "spell_exponent (dp_exponent p) = [] \<or> hd (spell_exponent (dp_exponent p)) \<in> set ''eE''"
    using assms by (cases "dp_exponent p")
      (auto simp: spell_exponent_def decimal_parts_ok_def exponent_ok_def)
  have f: "spell_fraction (dp_fraction p) = [] \<or> hd (spell_fraction (dp_fraction p)) = CHR ''.''"
    by (cases "dp_fraction p") (auto simp: spell_fraction_def)
  let ?t = "cs @ spell_fraction (dp_fraction p) @ spell_exponent (dp_exponent p) @ dp_suffix p"
  have s: "spell_decimal p = c # ?t" by (simp add: spell_decimal_def c)
  then have ne: "?t \<noteq> []" using assms(2) by (cases ?t) simp_all
  have t: "spell_decimal p ! 1 = hd ?t"
    unfolding s One_nat_def nth_Cons_Suc by (rule hd_conv_nth [OF ne, symmetric])
  show ?thesis
  proof (cases cs)
    case (Cons d ds)
    then show ?thesis using t runs by (simp add: decimal_second_def)
  next
    case Nil
    then show ?thesis
      using t ne suf e f by (auto simp: decimal_second_def hd_append split: if_splits)
  qed
qed

lemma decimal_second_dispatch:
  assumes "s \<noteq> []" "is_decimal_digit (hd s)" "2 \<le> length s \<Longrightarrow> decimal_second (s ! 1)"
  shows "parse_numeric_literal_spelling s = parse_decimal_literal s"
  using assms
  by (auto simp: parse_numeric_literal_spelling_def Let_def decimal_second_def
      is_digit_or_separator_def is_decimal_digit_def is_letter_def)

lemma decimal_dispatch:
  "decimal_parts_ok p \<Longrightarrow>
   parse_numeric_literal_spelling (spell_decimal p) = decimal_result p"
  using spell_decimal_head spell_decimal_second
  by (subst decimal_second_dispatch) (simp_all add: decimal_complete)

lemma base_dispatch:
  assumes "base \<noteq> baseDecimal" "base_run_ok base run" "base_suffix_ok suf"
  shows "parse_numeric_literal_spelling (base_prefix base @ run @ suf) = base_result base run suf"
proof -
  have "parse_numeric_literal_spelling (base_prefix base @ run @ suf) =
      parse_base_literal (base_prefix base @ run @ suf) base"
    using assms(1)
    by (cases base) (simp_all add: parse_numeric_literal_spelling_def is_decimal_digit_def)
  then show ?thesis using base_complete [OF assms] by simp
qed

text \<open>
  C5: the decoder accepts exactly the numeric grammar of the language: a decimal literal with
  well-separated digit runs, an optional fraction, an optional signed exponent and a fitting suffix,
  or a binary, octal or hexadecimal literal with an optional integer suffix.
\<close>

theorem numeric_literal_grammar:
  "sp_error (parse_numeric_literal_spelling s) = nleNone \<longleftrightarrow>
     (\<exists>p. decimal_parts_ok p \<and> s = spell_decimal p) \<or>
     (\<exists>base run suf. base \<noteq> baseDecimal \<and> base_run_ok base run \<and> base_suffix_ok suf \<and>
        s = base_prefix base @ run @ suf)"
  (is "?acc \<longleftrightarrow> ?dec \<or> ?base")
proof
  assume acc: ?acc
  then have s: "s \<noteq> []" "is_decimal_digit (hd s)"
    by (auto simp: parse_numeric_literal_spelling_def split: if_splits)
  have base: ?base if "take 2 s = base_prefix b" "b \<noteq> baseDecimal"
      "parse_numeric_literal_spelling s = parse_base_literal s b" for b
    using base_sound [of s b] acc that by auto
  show "?dec \<or> ?base"
  proof (cases "parse_numeric_literal_spelling s = parse_decimal_literal s")
    case True
    then show ?thesis using decimal_sound acc by auto
  next
    case False
    then obtain c r where s2: "s = CHR ''0'' # c # r"
      using s by (cases s; cases "tl s") (auto simp: parse_numeric_literal_spelling_def split: if_splits)
    then have "c = CHR ''b'' \<and> parse_numeric_literal_spelling s = parse_base_literal s baseBinary \<or>
        c = CHR ''o'' \<and> parse_numeric_literal_spelling s = parse_base_literal s baseOctal \<or>
        c = CHR ''x'' \<and> parse_numeric_literal_spelling s = parse_base_literal s baseHexadecimal"
      using acc False by (simp add: parse_numeric_literal_spelling_def Let_def split: if_splits)
    then show ?thesis
      using base [of baseBinary] base [of baseOctal] base [of baseHexadecimal] s2 by auto
  qed
next
  assume "?dec \<or> ?base"
  then show ?acc
    by (auto simp: decimal_dispatch base_dispatch decimal_result_def base_result_def
        default_spelling_def Let_def)
qed

text \<open>
  What a decimal literal writes, read off its parts alone: the digits of a run without its
  separators, the signed number after the exponent letter, and the spelling of each suffix.
\<close>

definition written_digits :: "string \<Rightarrow> string" where
  "written_digits run = filter (\<lambda>c. c \<noteq> CHR ''_'') run"

definition written_fraction :: "DecimalParts \<Rightarrow> string" where
  "written_fraction p = (case dp_fraction p of None \<Rightarrow> [] | Some run \<Rightarrow> written_digits run)"

definition written_exponent :: "DecimalParts \<Rightarrow> int" where
  "written_exponent p =
     (case dp_exponent p of
        None \<Rightarrow> 0
      | Some (letter, sign, run) \<Rightarrow>
          (if sign = ''-'' then - int (decimal_value (written_digits run))
           else int (decimal_value (written_digits run))))"

definition written_floating :: "DecimalParts \<Rightarrow> bool" where
  "written_floating p \<longleftrightarrow> dp_fraction p \<noteq> None \<or> dp_exponent p \<noteq> None \<or>
     dp_suffix p = ''f32'' \<or> dp_suffix p = ''f64''"

primrec suffix_spelling :: "NumericLiteralSuffix \<Rightarrow> string" where
  "suffix_spelling sfxNone = []"
| "suffix_spelling sfxInt8 = ''i8''"
| "suffix_spelling sfxInt16 = ''i16''"
| "suffix_spelling sfxInt32 = ''i32''"
| "suffix_spelling sfxInt64 = ''i64''"
| "suffix_spelling sfxUint8 = ''u8''"
| "suffix_spelling sfxUint16 = ''u16''"
| "suffix_spelling sfxUint32 = ''u32''"
| "suffix_spelling sfxUint64 = ''u64''"
| "suffix_spelling sfxFloat32 = ''f32''"
| "suffix_spelling sfxFloat64 = ''f64''"

lemma written_digits_eq: "digits_without_separators = written_digits"
  by (simp add: fun_eq_iff digits_without_separators_def written_digits_def)

lemma written_fraction_eq: "fraction_digits (dp_fraction p) = written_fraction p"
  by (simp add: fraction_digits_def written_fraction_def written_digits_eq split: option.split)

lemma written_exponent_eq:
  assumes "decimal_parts_ok p" "\<bar>written_exponent p\<bar> \<le> 1000000"
  shows "exponent_value (dp_exponent p) = written_exponent p"
proof (cases "dp_exponent p")
  case None
  then show ?thesis by (simp add: exponent_value_def written_exponent_def)
next
  case (Some x)
  obtain letter sign run where x: "x = (letter, sign, run)" by (cases x)
  have "list_all is_decimal_digit (digits_without_separators run)"
    using assms(1) Some x by (auto simp: decimal_parts_ok_def exponent_ok_def run_ok_def
        intro: digits_without_separators_digits)
  moreover have "int (decimal_value (written_digits run)) \<le> 1000000"
    using assms(2) Some x by (auto simp: written_exponent_def split: if_splits)
  ultimately have "parse_exponent_loop (digits_without_separators run) 0 =
      int (decimal_value (written_digits run))"
    by (simp add: parse_exponent_loop_correct written_digits_eq kSaturatedExponent_def)
  then show ?thesis
    using Some x by (simp add: exponent_value_def written_exponent_def parse_exponent_def)
qed

lemma suffix_spelling_eq: "suffix_ok floating suf \<Longrightarrow> suf = suffix_spelling (parse_suffix suf)"
  by (auto simp: suffix_ok_def parse_suffix_def split: if_splits)

lemma written_floating_eq:
  assumes "decimal_parts_ok p"
  shows "(core_floating p \<or> is_floating_suffix (parse_suffix (dp_suffix p))) = written_floating p"
  by (auto simp: core_floating_def written_floating_def is_floating_suffix_def parse_suffix_def)

text \<open>
  C6: a literal of the decimal grammar is decoded, without an error, to the number that was written.
  The suffix kind is the one its text spells, and the literal is floating exactly when it has a fraction,
  an exponent or a floating suffix. An integer core is the decimal numeral of the digits (separators
  and leading zeros gone). A floating core is \<^verbatim>\<open>0e0\<close> for zero and otherwise a coefficient without
  outer zeros and an exponent whose value is exactly the digits of both runs, times ten to the signed
  exponent that is written less the number of fraction digits; this holds as long as
  the exponent's magnitude plus the number of digits is at most the decoder's saturation bound of a million.
\<close>

theorem decimal_literal_value:
  assumes "decimal_parts_ok p"
    and "r = parse_numeric_literal_spelling (spell_decimal p)"
    and "i = written_digits (dp_integer p)" and "f = written_fraction p" and "x = written_exponent p"
  shows "sp_error r = nleNone \<and> sp_base r = baseDecimal \<and>
    sp_suffix r = dp_suffix p \<and> suffix_spelling (sp_suffix_kind r) = dp_suffix p \<and>
    sp_is_floating r = written_floating p \<and>
    (if written_floating p
     then \<bar>x\<bar> + int (length i + length f) \<le> 1000000 \<longrightarrow>
       core_denotes (sp_core r) (scaled (decimal_value (i @ f)) (x - int (length f)))
     else sp_core r = decimal_of_nat (decimal_value i))"
proof -
  have r: "r = decimal_result p" using assms by (simp add: decimal_dispatch)
  have parts: "list_all run_char (dp_integer p)" "pred_option (list_all run_char) (dp_fraction p)"
    "suffix_ok (core_floating p) (dp_suffix p)"
    using assms(1) by (cases "dp_fraction p"; simp add: decimal_parts_ok_def run_ok_def)+
  have "list_all is_decimal_digit (i @ f)"
    using parts(1,2) digits_without_separators_digits assms(3,4)
    by (cases "dp_fraction p") (auto simp: written_fraction_def written_digits_eq)
  then have core: "core_denotes (canonical_decimal_float i f x)
      (scaled (decimal_value (i @ f)) (x - int (length f)))" if "\<bar>x\<bar> + int (length i + length f) \<le> 1000000"
    using that by (intro canonical_decimal_float_value) (simp_all add: kSaturatedExponent_def)
  have ex: "exponent_value (dp_exponent p) = x" if "\<bar>x\<bar> + int (length i + length f) \<le> 1000000"
    using written_exponent_eq [OF assms(1)] that assms(5) by simp
  have "core_denotes (canonical_decimal_float i f (exponent_value (dp_exponent p)))
      (scaled (decimal_value (i @ f)) (x - int (length f)))" if "\<bar>x\<bar> + int (length i + length f) \<le> 1000000"
    using core [OF that] ex [OF that] by simp
  then show ?thesis
    using suffix_spelling_eq [OF parts(3)] assms(3,4)
    by (simp add: r decimal_result_def Let_def written_floating_eq [OF assms(1)] written_digits_eq
        written_fraction_eq)
qed

theorem decimal_literal_value_witness:
  "\<exists>p r. spell_decimal p = ''1_2.5e-3f32'' \<and> r = parse_numeric_literal_spelling ''1_2.5e-3f32'' \<and>
     sp_suffix_kind r = sfxFloat32 \<and> core_denotes (sp_core r) (scaled 125 (- 4))"
proof -
  define p where "p = \<lparr>dp_integer = ''1_2'', dp_fraction = Some ''5'',
    dp_exponent = Some (CHR ''e'', ''-'', ''3''), dp_suffix = ''f32''\<rparr>"
  have s: "spell_decimal p = ''1_2.5e-3f32''"
    by (simp add: p_def spell_decimal_def spell_fraction_def spell_exponent_def)
  have ok: "decimal_parts_ok p"
    by (simp add: p_def decimal_parts_ok_def run_ok_def exponent_ok_def suffix_ok_def parse_suffix_def
        is_floating_suffix_def is_digit_or_separator_def is_decimal_digit_def is_valid_separator_run_def)
  let ?r = "parse_numeric_literal_spelling (spell_decimal p)"
  note spelled = decimal_literal_value [OF ok refl refl refl refl]
  have "core_denotes (sp_core ?r) (scaled 125 (- 4))"
    using spelled by (simp add: p_def written_floating_def written_fraction_def written_exponent_def
        written_digits_def digits_value_def decimal_digit_value_def)
  moreover have "sp_suffix_kind ?r = sfxFloat32"
    using spelled by (cases "sp_suffix_kind ?r") (simp_all add: p_def)
  ultimately show ?thesis using s by auto
qed

text \<open>
  C7: a literal with a base prefix is decoded to the decimal numeral of its value in that base; a
  value that does not fit 64 bits, detected without any wrap-around of the accumulator, gives the
  numeral of \<open>2 ^ 64\<close>.
\<close>

theorem base_literal_value:
  assumes "base \<noteq> baseDecimal" "base_run_ok base run" "base_suffix_ok suf"
  shows "sp_core (parse_numeric_literal_spelling (base_prefix base @ run @ suf)) =
    decimal_of_nat (min (digits_value (base_radix base) hex_digit (digits_without_separators run)) (2 ^ 64))"
  by (simp add: base_dispatch [OF assms] base_result_def)

theorem base_literal_value_witness:
  "sp_core (parse_numeric_literal_spelling (base_prefix baseHexadecimal @ ''Ff_0'' @ ''u16'')) =
     decimal_of_nat 4080"
  using base_literal_value [of baseHexadecimal "''Ff_0''" "''u16''"]
  by (simp add: base_run_ok_code base_suffix_ok_def is_base_digit_or_separator_def digit_value_def
      is_decimal_digit_def is_valid_separator_run_def parse_suffix_def is_floating_suffix_def
      digits_value_def hex_digit_def digits_without_separators_def min_def)

end
