(* ===== verification/Utf8.thy ===== *)
theory Utf8
  imports Prelude
begin

text \<open>
  The UTF-8 coder and decoder of the compiler (\<^verbatim>\<open>src/lexer/literal.cc\<close>): validity of a
  Unicode scalar, the bounded decoder \<open>decode_utf8_scalar\<close>, the encoder \<open>append_utf8\<close> and
  the counting loop \<open>utf8_scalar_count\<close>.
\<close>

section \<open>The code\<close>

definition is_unicode_scalar :: "u64 \<Rightarrow> bool" where
  "is_unicode_scalar value \<longleftrightarrow> value \<le> 0x10FFFF \<and> \<not> (value \<ge> 0xD800 \<and> value \<le> 0xDFFF)"

record Utf8Scalar =
  scalar_value :: u32
  scalar_width :: nat

text \<open>
  The loop over the continuation bytes: \<open>value\<close> is the accumulator, \<open>n\<close> the number of
  continuation bytes still to read at \<open>offset\<close>.
\<close>

fun decode_continuations :: "string \<Rightarrow> nat \<Rightarrow> nat \<Rightarrow> u32 \<Rightarrow> u32 option" where
  "decode_continuations text offset 0 value = Some value"
| "decode_continuations text offset (Suc n) value =
     (let continuation = byte (text ! offset)
      in if continuation AND 0xC0 \<noteq> 0x80 then None
         else decode_continuations text (Suc offset) n
                (push_bit 6 value OR ucast (continuation AND 0x3F)))"

text \<open>What follows the lead byte: the bounds check, the loop and the final validity checks.\<close>

definition decode_utf8_tail :: "string \<Rightarrow> nat \<Rightarrow> nat \<Rightarrow> nat \<Rightarrow> u32 \<Rightarrow> Utf8Scalar option" where
  "decode_utf8_tail text offset limit width value0 =
    (if width > limit - offset then None
     else
       (case decode_continuations text (offset + 1) (width - 1) value0 of
          None \<Rightarrow> None
        | Some value \<Rightarrow>
            if (width = 3 \<and> value < 0x800) \<or> (width = 4 \<and> value < 0x10000) \<or>
               \<not> is_unicode_scalar (ucast value)
            then None
            else Some \<lparr>scalar_value = value, scalar_width = width\<rparr>))"

definition decode_utf8_scalar :: "string \<Rightarrow> nat \<Rightarrow> nat \<Rightarrow> Utf8Scalar option" where
  "decode_utf8_scalar text offset limit =
    (if offset \<ge> limit then None
     else
       let first = byte (text ! offset) in
       if first \<le> 0x7F then decode_utf8_tail text offset limit 1 (ucast first)
       else if first \<ge> 0xC2 \<and> first \<le> 0xDF then
         decode_utf8_tail text offset limit 2 (ucast (first AND 0x1F))
       else if first \<ge> 0xE0 \<and> first \<le> 0xEF then
         decode_utf8_tail text offset limit 3 (ucast (first AND 0x0F))
       else if first \<ge> 0xF0 \<and> first \<le> 0xF4 then
         decode_utf8_tail text offset limit 4 (ucast (first AND 0x07))
       else None)"

definition append_utf8 :: "u32 \<Rightarrow> string \<Rightarrow> string" where
  "append_utf8 value output =
    (if value \<le> 0x7F then output @ [to_char value]
     else if value \<le> 0x7FF then
       output @ [to_char (0xC0 OR drop_bit 6 value), to_char (0x80 OR (value AND 0x3F))]
     else if value \<le> 0xFFFF then
       output @ [to_char (0xE0 OR drop_bit 12 value),
                 to_char (0x80 OR (drop_bit 6 value AND 0x3F)),
                 to_char (0x80 OR (value AND 0x3F))]
     else
       output @ [to_char (0xF0 OR drop_bit 18 value),
                 to_char (0x80 OR (drop_bit 12 value AND 0x3F)),
                 to_char (0x80 OR (drop_bit 6 value AND 0x3F)),
                 to_char (0x80 OR (value AND 0x3F))])"

lemma decode_width_pos:
  "decode_utf8_scalar text offset limit = Some s \<Longrightarrow>
     0 < scalar_width s \<and> scalar_width s \<le> 4 \<and> offset + scalar_width s \<le> limit"
  by (auto simp: decode_utf8_scalar_def decode_utf8_tail_def Let_def split: if_splits option.splits)

function utf8_scalar_count_loop :: "string \<Rightarrow> nat \<Rightarrow> nat \<Rightarrow> nat option" where
  "utf8_scalar_count_loop text offset scalar_count =
     (if offset < length text then
        (case decode_utf8_scalar text offset (length text) of
           None \<Rightarrow> None
         | Some decoded \<Rightarrow>
             utf8_scalar_count_loop text (offset + scalar_width decoded) (Suc scalar_count))
      else Some scalar_count)"
  by pat_completeness auto
termination
  by (relation "measure (\<lambda>(text, offset, _). length text - offset)") (auto dest: decode_width_pos)

definition utf8_scalar_count :: "string \<Rightarrow> nat option" where
  "utf8_scalar_count text = utf8_scalar_count_loop text 0 0"

section \<open>Arithmetic of the byte patterns\<close>

text \<open>Digits of a mixed number, with the base kept as a variable so that no numeral is expanded.\<close>

lemma digits_div_mod: "r < m \<Longrightarrow> (q * m + r) div m = q \<and> (q * m + r) mod m = (r :: nat)"
  by simp

lemma mod_offset: "k * m \<le> c \<Longrightarrow> c < k * m + m \<Longrightarrow> c mod m = c - k * (m :: nat)"
  using digits_div_mod [of "c - k * m" m k] by simp

lemma low_bits:
  "128 \<le> c \<Longrightarrow> c < 192 \<Longrightarrow> c mod 64 = c - 128"
  "192 \<le> c \<Longrightarrow> c < 224 \<Longrightarrow> c mod 32 = c - 192"
  "224 \<le> c \<Longrightarrow> c < 240 \<Longrightarrow> c mod 16 = c - 224"
  "240 \<le> c \<Longrightarrow> c < 248 \<Longrightarrow> c mod 8 = c - 240" for c :: nat
  using mod_offset [of 2 64 c] mod_offset [of 6 32 c] mod_offset [of 14 16 c] mod_offset [of 30 8 c]
  by simp_all

lemma base64_digit: "r < 64 \<Longrightarrow> v = q * 64 + r \<longleftrightarrow> q = v div 64 \<and> r = v mod 64" for v :: nat
  by auto

lemma low_digits: "v mod 64 < (64 :: nat)" "w div 64 mod 64 < (64 :: nat)"
  by simp_all

lemma cont_digit: "128 \<le> c \<and> c < 192 \<and> c mod 64 = x \<longleftrightarrow> x < 64 \<and> c = 128 + x" for c :: nat
  by (auto simp: low_bits)

lemma lead_digit:
  "194 \<le> c \<and> c \<le> 223 \<and> c mod 32 = x \<longleftrightarrow> 2 \<le> x \<and> x < 32 \<and> c = 192 + x"
  "224 \<le> c \<and> c \<le> 239 \<and> c mod 16 = x \<longleftrightarrow> x < 16 \<and> c = 224 + x"
  "240 \<le> c \<and> c \<le> 247 \<and> c mod 8 = x \<longleftrightarrow> x < 8 \<and> c = 240 + x" for c :: nat
  by (auto simp: low_bits)

lemma bytes2:
  "194 \<le> b \<and> b \<le> 223 \<and> 128 \<le> c \<and> c < 192 \<and> v = b mod 32 * 64 + c mod 64 \<longleftrightarrow>
   128 \<le> v \<and> v < 2048 \<and> b = 192 + v div 64 \<and> c = 128 + v mod 64" for v :: nat
proof -
  have v: "128 \<le> v \<longleftrightarrow> 2 \<le> v div 64" "v < 2048 \<longleftrightarrow> v div 64 < 32" by auto
  have "v = b mod 32 * 64 + c mod 64 \<longleftrightarrow> b mod 32 = v div 64 \<and> c mod 64 = v mod 64"
    by (rule base64_digit) simp
  then have "194 \<le> b \<and> b \<le> 223 \<and> 128 \<le> c \<and> c < 192 \<and> v = b mod 32 * 64 + c mod 64 \<longleftrightarrow>
      (194 \<le> b \<and> b \<le> 223 \<and> b mod 32 = v div 64) \<and> (128 \<le> c \<and> c < 192 \<and> c mod 64 = v mod 64)"
    by blast
  then show ?thesis unfolding lead_digit cont_digit v using low_digits by blast
qed

lemma bytes3:
  "224 \<le> b \<and> b \<le> 239 \<and> 128 \<le> c \<and> c < 192 \<and> 128 \<le> d \<and> d < 192 \<and>
   v = (b mod 16 * 64 + c mod 64) * 64 + d mod 64 \<longleftrightarrow>
   v < 65536 \<and> b = 224 + v div 4096 \<and> c = 128 + v div 64 mod 64 \<and> d = 128 + v mod 64"
  (is "?l \<longleftrightarrow> _") for v :: nat
proof -
  let ?p = "v div 64" and ?q = "v div 64 div 64"
  have v: "v div 4096 = ?q" "v < 65536 \<longleftrightarrow> ?q < 16"
    by (auto simp flip: div_mult2_eq)
  have d1: "v = (b mod 16 * 64 + c mod 64) * 64 + d mod 64 \<longleftrightarrow>
      b mod 16 * 64 + c mod 64 = ?p \<and> d mod 64 = v mod 64"
    by (rule base64_digit) simp
  have d2: "?p = b mod 16 * 64 + c mod 64 \<longleftrightarrow> b mod 16 = ?q \<and> c mod 64 = ?p mod 64"
    by (rule base64_digit) simp
  have "?l \<longleftrightarrow> (224 \<le> b \<and> b \<le> 239 \<and> b mod 16 = ?q) \<and>
      (128 \<le> c \<and> c < 192 \<and> c mod 64 = ?p mod 64) \<and> (128 \<le> d \<and> d < 192 \<and> d mod 64 = v mod 64)"
    unfolding d1 d2 [unfolded eq_commute [of ?p]] by blast
  then show ?thesis unfolding lead_digit cont_digit v using low_digits by blast
qed

lemma bytes4:
  "240 \<le> b \<and> b \<le> 247 \<and> 128 \<le> c \<and> c < 192 \<and> 128 \<le> d \<and> d < 192 \<and> 128 \<le> e \<and> e < 192 \<and>
   v = ((b mod 8 * 64 + c mod 64) * 64 + d mod 64) * 64 + e mod 64 \<longleftrightarrow>
   v < 2097152 \<and> b = 240 + v div 262144 \<and> c = 128 + v div 4096 mod 64 \<and>
   d = 128 + v div 64 mod 64 \<and> e = 128 + v mod 64"
  (is "?l \<longleftrightarrow> _") for v :: nat
proof -
  let ?p = "v div 64" and ?q = "v div 64 div 64" and ?r = "v div 64 div 64 div 64"
  have v: "v div 4096 = ?q" "v div 262144 = ?r" "v < 2097152 \<longleftrightarrow> ?r < 8"
    by (auto simp flip: div_mult2_eq)
  have d1: "v = ((b mod 8 * 64 + c mod 64) * 64 + d mod 64) * 64 + e mod 64 \<longleftrightarrow>
      (b mod 8 * 64 + c mod 64) * 64 + d mod 64 = ?p \<and> e mod 64 = v mod 64"
    by (rule base64_digit) simp
  have d2: "?p = (b mod 8 * 64 + c mod 64) * 64 + d mod 64 \<longleftrightarrow>
      b mod 8 * 64 + c mod 64 = ?q \<and> d mod 64 = ?p mod 64"
    by (rule base64_digit) simp
  have d3: "?q = b mod 8 * 64 + c mod 64 \<longleftrightarrow> b mod 8 = ?r \<and> c mod 64 = ?q mod 64"
    by (rule base64_digit) simp
  have "?l \<longleftrightarrow> (240 \<le> b \<and> b \<le> 247 \<and> b mod 8 = ?r) \<and>
      (128 \<le> c \<and> c < 192 \<and> c mod 64 = ?q mod 64) \<and>
      (128 \<le> d \<and> d < 192 \<and> d mod 64 = ?p mod 64) \<and> (128 \<le> e \<and> e < 192 \<and> e mod 64 = v mod 64)"
    unfolding d1 d2 [unfolded eq_commute [of ?p]] d3 [unfolded eq_commute [of ?q]] by blast
  then show ?thesis unfolding lead_digit cont_digit v using low_digits by blast
qed

section \<open>Well-formed UTF-8\<close>

text \<open>The encoding of a scalar value, byte by byte, as the Unicode standard tabulates it.\<close>

definition utf8_bytes :: "nat \<Rightarrow> nat list" where
  "utf8_bytes v =
     (if v < 0x80 then [v]
      else if v < 0x800 then [192 + v div 64, 128 + v mod 64]
      else if v < 0x10000 then [224 + v div 4096, 128 + v div 64 mod 64, 128 + v mod 64]
      else [240 + v div 262144, 128 + v div 4096 mod 64, 128 + v div 64 mod 64, 128 + v mod 64])"

definition scalar_ok :: "nat \<Rightarrow> bool" where
  "scalar_ok v \<longleftrightarrow> v \<le> 0x10FFFF \<and> \<not> (0xD800 \<le> v \<and> v \<le> 0xDFFF)"

lemma is_unicode_scalar_iff: "is_unicode_scalar w \<longleftrightarrow> scalar_ok (unat w)"
  by (simp add: is_unicode_scalar_def scalar_ok_def word_le_nat_alt)

lemma length_utf8_bytes: "0 < length (utf8_bytes v)" "length (utf8_bytes v) \<le> 4"
  by (simp_all add: utf8_bytes_def)

lemma byte_le: "byte c \<le> numeral n \<longleftrightarrow> code c \<le> unat (numeral n :: u8)"
  "numeral n \<le> byte c \<longleftrightarrow> unat (numeral n :: u8) \<le> code c"
  by (simp_all add: word_le_nat_alt)

lemma continuation_iff: "byte c AND 0xC0 = 0x80 \<longleftrightarrow> 128 \<le> code c \<and> code c < 192"
proof -
  have *: "(w AND 0xC0 = 0x80) = (0x80 \<le> w \<and> w \<le> 0xBF)" for w :: u8
  proof -
    have "\<forall>w::u8. (w AND 0xC0 = 0x80) = (0x80 \<le> w \<and> w \<le> 0xBF)" by code_simp
    then show ?thesis by blast
  qed
  show ?thesis unfolding * by (auto simp: word_le_nat_alt)
qed

lemma continuation_value:
  "unat value < 2 ^ 20 \<Longrightarrow>
   unat (push_bit 6 value OR ucast (byte c AND 0x3F) :: u32) = unat value * 64 + code c mod 64"
  by (subst unat_or_low_bits [where n = 6])
    (simp_all add: wval unat_ucast_up)

lemma to_char_lead:
  "v \<le> 0x7FF \<Longrightarrow> code (to_char (0xC0 OR drop_bit 6 value)) = 192 + v div 64"
  "v \<le> 0xFFFF \<Longrightarrow> code (to_char (0xE0 OR drop_bit 12 value)) = 224 + v div 4096"
  "v \<le> 0x10FFFF \<Longrightarrow> code (to_char (0xF0 OR drop_bit 18 value)) = 240 + v div 262144"
  if "v = unat (value :: u32)"
  unfolding that code_to_char
  by (subst unat_or_low_bits [where n = 5], simp_all add: wval)
    (subst unat_or_low_bits [where n = 4], simp_all add: wval,
     subst unat_or_low_bits [where n = 3], simp_all add: wval)

lemma to_char_tail: "code (to_char (0x80 OR (w AND 0x3F :: u32))) = 128 + unat w mod 64"
  unfolding code_to_char
  by (subst unat_or_low_bits [where n = 6]) (simp_all add: wval)

lemma append_utf8_bytes:
  "unat v \<le> 0x10FFFF \<Longrightarrow> map code (append_utf8 v out) = map code out @ utf8_bytes (unat v)"
  by (simp add: append_utf8_def utf8_bytes_def word_le_nat_alt to_char_lead to_char_tail
      code_to_char [of v] unat_drop_bit)

lemma append_utf8_append: "append_utf8 v out = out @ append_utf8 v []"
  by (simp add: append_utf8_def)

text \<open>The value a lead byte and a run of continuation bytes denote.\<close>

fun cont_value :: "nat \<Rightarrow> nat list \<Rightarrow> nat" where
  "cont_value acc [] = acc"
| "cont_value acc (b # bs) = cont_value (acc * 64 + b mod 64) bs"

lemma decode_continuations_iff:
  "offset + n \<le> length t \<Longrightarrow> (unat v0 + 1) * 64 ^ n \<le> 2 ^ 26 \<Longrightarrow>
   decode_continuations t offset n v0 = Some v \<longleftrightarrow>
     (\<forall>c \<in> set (take n (drop offset t)). 128 \<le> code c \<and> code c < 192) \<and>
     unat v = cont_value (unat v0) (map code (take n (drop offset t)))"
proof (induction t offset n v0 rule: decode_continuations.induct)
  case (1 t offset v0)
  then show ?case by (auto simp: word_unat_eq_iff)
next
  case (2 t offset n v0)
  then have len: "offset < length t" by simp
  have d: "take (Suc n) (drop offset t) = t ! offset # take n (drop (Suc offset) t)"
    using len by (simp flip: Cons_nth_drop_Suc)
  have "(unat v0 + 1) * 64 * 1 \<le> (unat v0 + 1) * 64 * 64 ^ n"
    by (rule mult_le_mono2) simp
  also have "\<dots> \<le> 2 ^ 26" using "2.prems"(2) by (simp only: power_Suc mult.assoc)
  finally have "unat v0 < 2 ^ 20" by simp
  then have v: "unat (push_bit 6 v0 OR ucast (byte (t ! offset) AND 0x3F) :: u32) =
      unat v0 * 64 + code (t ! offset) mod 64"
    by (rule continuation_value)
  have "(unat v0 * 64 + code (t ! offset) mod 64 + 1) * 64 ^ n \<le> ((unat v0 + 1) * 64) * 64 ^ n"
    by (rule mult_le_mono1) (use mod_less_divisor [of 64 "code (t ! offset)"] in simp)
  also have "\<dots> \<le> 2 ^ 26" using "2.prems"(2) by (simp only: power_Suc mult.assoc)
  finally show ?case
    using 2 len v by (auto simp: d continuation_iff)
qed


lemma take_drop_Cons:
  "offset < length t \<Longrightarrow> take (Suc n) (drop offset t) = t ! offset # take n (drop (Suc offset) t)"
  by (simp flip: Cons_nth_drop_Suc)

lemma decode_tail_iff:
  assumes "offset < limit" "limit \<le> length t" "(unat v0 + 1) * 64 ^ (w - 1) \<le> 2 ^ 26" "0 < w"
  shows "decode_utf8_tail t offset limit w v0 = Some s \<longleftrightarrow>
     scalar_width s = w \<and> offset + w \<le> limit \<and>
     (\<forall>c \<in> set (take (w - 1) (drop (Suc offset) t)). 128 \<le> code c \<and> code c < 192) \<and>
     unat (scalar_value s) = cont_value (unat v0) (map code (take (w - 1) (drop (Suc offset) t))) \<and>
     (w = 3 \<longrightarrow> 2048 \<le> unat (scalar_value s)) \<and> (w = 4 \<longrightarrow> 65536 \<le> unat (scalar_value s)) \<and>
     scalar_ok (unat (scalar_value s))"
proof (cases "offset + w \<le> limit")
  case False
  with assms(1) have "limit - offset < w" by arith
  with False show ?thesis by (simp add: decode_utf8_tail_def)
next
  case True
  let ?D = "decode_continuations t (Suc offset) (w - 1) v0"
  have "decode_utf8_tail t offset limit w v0 = Some s \<longleftrightarrow>
     scalar_width s = w \<and> ?D = Some (scalar_value s) \<and>
     (w = 3 \<longrightarrow> 2048 \<le> unat (scalar_value s)) \<and> (w = 4 \<longrightarrow> 65536 \<le> unat (scalar_value s)) \<and>
     scalar_ok (unat (scalar_value s))"
    using True assms(1)
    by (cases s) (auto simp: decode_utf8_tail_def is_unicode_scalar_iff unat_ucast_up word_less_nat_alt
        not_less split: option.splits)
  moreover have "?D = Some (scalar_value s) \<longleftrightarrow>
     (\<forall>c \<in> set (take (w - 1) (drop (Suc offset) t)). 128 \<le> code c \<and> code c < 192) \<and>
     unat (scalar_value s) = cont_value (unat v0) (map code (take (w - 1) (drop (Suc offset) t)))"
    using True assms by (intro decode_continuations_iff) auto
  ultimately show ?thesis using True by blast
qed

definition decodes_to :: "string \<Rightarrow> nat \<Rightarrow> nat \<Rightarrow> nat \<Rightarrow> nat \<Rightarrow> bool" where
  "decodes_to t offset limit v w \<longleftrightarrow>
     scalar_ok v \<and> w = length (utf8_bytes v) \<and> offset + w \<le> limit \<and>
     map code (take w (drop offset t)) = utf8_bytes v"

lemma utf8_bytes_length:
  "length (utf8_bytes v) = (if v < 128 then 1 else if v < 2048 then 2 else if v < 65536 then 3 else 4)"
  by (simp add: utf8_bytes_def)

lemma utf8_bytes_width:
  "length (utf8_bytes v) = 1 \<longleftrightarrow> v < 128"
  "length (utf8_bytes v) = 2 \<longleftrightarrow> 128 \<le> v \<and> v < 2048"
  "length (utf8_bytes v) = 3 \<longleftrightarrow> 2048 \<le> v \<and> v < 65536"
  "length (utf8_bytes v) = 4 \<longleftrightarrow> 65536 \<le> v"
  by (auto simp: utf8_bytes_length)

lemma utf8_bytes_cases:
  "v < 128 \<Longrightarrow> utf8_bytes v = [v]"
  "128 \<le> v \<Longrightarrow> v < 2048 \<Longrightarrow> utf8_bytes v = [192 + v div 64, 128 + v mod 64]"
  "2048 \<le> v \<Longrightarrow> v < 65536 \<Longrightarrow>
     utf8_bytes v = [224 + v div 4096, 128 + v div 64 mod 64, 128 + v mod 64]"
  "65536 \<le> v \<Longrightarrow> utf8_bytes v =
     [240 + v div 262144, 128 + v div 4096 mod 64, 128 + v div 64 mod 64, 128 + v mod 64]"
  by (simp_all add: utf8_bytes_def)

lemma scalar_ok_small: "v < 2048 \<Longrightarrow> scalar_ok v"
  by (simp add: scalar_ok_def)

lemma scalar_ok_bound: "scalar_ok v \<Longrightarrow> v < 2097152"
  by (simp add: scalar_ok_def)

lemma decodes_by_width:
  assumes "offset + w \<le> limit" "limit \<le> length t"
  shows "decodes_to t offset limit v w \<longleftrightarrow>
    (let c = (\<lambda>i. code (t ! (offset + i))) in
     w = 1 \<and> c 0 < 128 \<and> v = c 0 \<or>
     w = 2 \<and> 128 \<le> v \<and> v < 2048 \<and> c 0 = 192 + v div 64 \<and> c 1 = 128 + v mod 64 \<or>
     w = 3 \<and> 2048 \<le> v \<and> scalar_ok v \<and> v < 65536 \<and> c 0 = 224 + v div 4096 \<and>
       c 1 = 128 + v div 64 mod 64 \<and> c 2 = 128 + v mod 64 \<or>
     w = 4 \<and> 65536 \<le> v \<and> scalar_ok v \<and> v < 2097152 \<and> c 0 = 240 + v div 262144 \<and>
       c 1 = 128 + v div 4096 mod 64 \<and> c 2 = 128 + v div 64 mod 64 \<and> c 3 = 128 + v mod 64)"
proof -
  have 1: "offset + 1 \<le> length t \<Longrightarrow> map code (take 1 (drop offset t)) = [code (t ! offset)]"
    by (simp add: take_drop_Cons)
  have 2: "offset + 2 \<le> length t \<Longrightarrow>
      map code (take 2 (drop offset t)) = [code (t ! offset), code (t ! (offset + 1))]"
    by (simp add: take_drop_Cons numeral_2_eq_2)
  have 3: "offset + 3 \<le> length t \<Longrightarrow> map code (take 3 (drop offset t)) =
      [code (t ! offset), code (t ! (offset + 1)), code (t ! (offset + 2))]"
    by (simp add: take_drop_Cons numeral_3_eq_3 numeral_2_eq_2)
  have 4: "offset + 4 \<le> length t \<Longrightarrow> map code (take 4 (drop offset t)) =
      [code (t ! offset), code (t ! (offset + 1)), code (t ! (offset + 2)), code (t ! (offset + 3))]"
    by (simp add: take_drop_Cons eval_nat_numeral)
  consider "w = 1" | "w = 2" | "w = 3" | "w = 4" | "w = 0 \<or> 4 < w" by linarith
  then show ?thesis
  proof cases
    case 1
    with assms \<open>offset + 1 \<le> length t \<Longrightarrow> _\<close> show ?thesis
      by (auto simp: decodes_to_def utf8_bytes_def scalar_ok_def simp del: One_nat_def split: if_splits)
  next
    case 2
    with assms \<open>offset + 2 \<le> length t \<Longrightarrow> _\<close> show ?thesis
      by (auto simp: decodes_to_def utf8_bytes_width utf8_bytes_cases scalar_ok_small dest: scalar_ok_bound
          simp del: One_nat_def cong: conj_cong)
  next
    case 3
    with assms \<open>offset + 3 \<le> length t \<Longrightarrow> _\<close> show ?thesis
      by (auto simp: decodes_to_def utf8_bytes_width utf8_bytes_cases simp del: One_nat_def cong: conj_cong)
  next
    case 4
    with assms \<open>offset + 4 \<le> length t \<Longrightarrow> _\<close> show ?thesis
      by (auto simp: decodes_to_def utf8_bytes_width utf8_bytes_cases scalar_ok_small dest: scalar_ok_bound
          simp del: One_nat_def cong: conj_cong)
  next
    case 5
    then show ?thesis by (auto simp: decodes_to_def utf8_bytes_length)
  qed
qed

lemma decode_width_cases:
  assumes "offset < limit" "limit \<le> length t"
  shows "decode_utf8_scalar t offset limit = Some s \<longleftrightarrow>
    (let b = byte (t ! offset) in
      b \<le> 0x7F \<and> decode_utf8_tail t offset limit 1 (ucast b) = Some s \<or>
      0xC2 \<le> b \<and> b \<le> 0xDF \<and> decode_utf8_tail t offset limit 2 (ucast (b AND 0x1F)) = Some s \<or>
      0xE0 \<le> b \<and> b \<le> 0xEF \<and> decode_utf8_tail t offset limit 3 (ucast (b AND 0x0F)) = Some s \<or>
      0xF0 \<le> b \<and> b \<le> 0xF4 \<and> decode_utf8_tail t offset limit 4 (ucast (b AND 0x07)) = Some s)"
  using assms by (auto simp: decode_utf8_scalar_def Let_def word_le_nat_alt)

lemma decode_tail_widths:
  assumes "offset < limit" "limit \<le> length t"
  defines "c \<equiv> \<lambda>i. code (t ! (offset + i))"
  shows
    "decode_utf8_tail t offset limit 1 (ucast (byte (t ! offset))) = Some s \<longleftrightarrow>
       scalar_width s = 1 \<and> unat (scalar_value s) = c 0 \<and> scalar_ok (unat (scalar_value s))"
    "decode_utf8_tail t offset limit 2 (ucast (byte (t ! offset) AND 0x1F)) = Some s \<longleftrightarrow>
       scalar_width s = 2 \<and> offset + 2 \<le> limit \<and> 128 \<le> c 1 \<and> c 1 < 192 \<and>
       unat (scalar_value s) = c 0 mod 32 * 64 + c 1 mod 64 \<and> scalar_ok (unat (scalar_value s))"
    "decode_utf8_tail t offset limit 3 (ucast (byte (t ! offset) AND 0x0F)) = Some s \<longleftrightarrow>
       scalar_width s = 3 \<and> offset + 3 \<le> limit \<and> 128 \<le> c 1 \<and> c 1 < 192 \<and> 128 \<le> c 2 \<and> c 2 < 192 \<and>
       unat (scalar_value s) = (c 0 mod 16 * 64 + c 1 mod 64) * 64 + c 2 mod 64 \<and>
       2048 \<le> unat (scalar_value s) \<and> scalar_ok (unat (scalar_value s))"
    "decode_utf8_tail t offset limit 4 (ucast (byte (t ! offset) AND 0x07)) = Some s \<longleftrightarrow>
       scalar_width s = 4 \<and> offset + 4 \<le> limit \<and> 128 \<le> c 1 \<and> c 1 < 192 \<and> 128 \<le> c 2 \<and> c 2 < 192 \<and>
       128 \<le> c 3 \<and> c 3 < 192 \<and>
       unat (scalar_value s) = ((c 0 mod 8 * 64 + c 1 mod 64) * 64 + c 2 mod 64) * 64 + c 3 mod 64 \<and>
       65536 \<le> unat (scalar_value s) \<and> scalar_ok (unat (scalar_value s))"
proof -
  have two: "Suc (Suc offset) \<le> limit \<Longrightarrow> take (Suc 0) (drop (Suc offset) t) = [t ! Suc offset]"
    using assms(2) by (simp add: take_drop_Cons)
  have three: "offset + 3 \<le> limit \<Longrightarrow>
      take 2 (drop (Suc offset) t) = [t ! (offset + 1), t ! (offset + 2)]"
    using assms(2) by (simp add: take_drop_Cons numeral_2_eq_2)
  have four: "offset + 4 \<le> limit \<Longrightarrow>
      take 3 (drop (Suc offset) t) = [t ! (offset + 1), t ! (offset + 2), t ! (offset + 3)]"
    using assms(2) by (simp add: take_drop_Cons numeral_3_eq_3)
  have small: "code (t ! offset) mod 16 \<le> 15" "code (t ! offset) mod 8 \<le> 7" "code (t ! offset) mod 32 \<le> 31"
     "code (t ! offset) \<le> 255"
    using nat_of_char_less_256 [of "t ! offset"] by (simp_all add: less_Suc_eq_le [symmetric] del: nat_of_char_less_256)
  show "decode_utf8_tail t offset limit 1 (ucast (byte (t ! offset))) = Some s \<longleftrightarrow>
       scalar_width s = 1 \<and> unat (scalar_value s) = c 0 \<and> scalar_ok (unat (scalar_value s))"
    using assms(1) small by (subst decode_tail_iff [OF assms(1,2)]) (auto simp: unat_ucast_up c_def)
  show "decode_utf8_tail t offset limit 2 (ucast (byte (t ! offset) AND 0x1F)) = Some s \<longleftrightarrow>
       scalar_width s = 2 \<and> offset + 2 \<le> limit \<and> 128 \<le> c 1 \<and> c 1 < 192 \<and>
       unat (scalar_value s) = c 0 mod 32 * 64 + c 1 mod 64 \<and> scalar_ok (unat (scalar_value s))"
    using small by (subst decode_tail_iff [OF assms(1,2)])
      (simp_all add: unat_ucast_up c_def wval two cong: conj_cong)
  show "decode_utf8_tail t offset limit 3 (ucast (byte (t ! offset) AND 0x0F)) = Some s \<longleftrightarrow>
       scalar_width s = 3 \<and> offset + 3 \<le> limit \<and> 128 \<le> c 1 \<and> c 1 < 192 \<and> 128 \<le> c 2 \<and> c 2 < 192 \<and>
       unat (scalar_value s) = (c 0 mod 16 * 64 + c 1 mod 64) * 64 + c 2 mod 64 \<and>
       2048 \<le> unat (scalar_value s) \<and> scalar_ok (unat (scalar_value s))"
    using small by (subst decode_tail_iff [OF assms(1,2)])
      (simp_all add: unat_ucast_up c_def wval three cong: conj_cong)
  show "decode_utf8_tail t offset limit 4 (ucast (byte (t ! offset) AND 0x07)) = Some s \<longleftrightarrow>
       scalar_width s = 4 \<and> offset + 4 \<le> limit \<and> 128 \<le> c 1 \<and> c 1 < 192 \<and> 128 \<le> c 2 \<and> c 2 < 192 \<and>
       128 \<le> c 3 \<and> c 3 < 192 \<and>
       unat (scalar_value s) = ((c 0 mod 8 * 64 + c 1 mod 64) * 64 + c 2 mod 64) * 64 + c 3 mod 64 \<and>
       65536 \<le> unat (scalar_value s) \<and> scalar_ok (unat (scalar_value s))"
    using small by (subst decode_tail_iff [OF assms(1,2)])
      (simp_all add: unat_ucast_up c_def wval four cong: conj_cong)
qed

theorem decode_iff:
  assumes "limit \<le> length t"
  shows "decode_utf8_scalar t offset limit = Some s \<longleftrightarrow>
     decodes_to t offset limit (unat (scalar_value s)) (scalar_width s)"
proof (cases "offset + scalar_width s \<le> limit \<and> 0 < scalar_width s")
  case False
  then show ?thesis
    using decode_width_pos [of t offset limit s] length_utf8_bytes(1)
    by (auto simp: decodes_to_def)
next
  case True
  then have o: "offset < limit" by arith
  let ?v = "unat (scalar_value s)" and ?c = "\<lambda>i. code (t ! (offset + i))"
  have bytes: "byte (t ! offset) \<le> 0x7F \<longleftrightarrow> ?c 0 < 128"
    "0xC2 \<le> byte (t ! offset) \<longleftrightarrow> 194 \<le> ?c 0" "byte (t ! offset) \<le> 0xDF \<longleftrightarrow> ?c 0 \<le> 223"
    "0xE0 \<le> byte (t ! offset) \<longleftrightarrow> 224 \<le> ?c 0" "byte (t ! offset) \<le> 0xEF \<longleftrightarrow> ?c 0 \<le> 239"
    "0xF0 \<le> byte (t ! offset) \<longleftrightarrow> 240 \<le> ?c 0" "byte (t ! offset) \<le> 0xF4 \<longleftrightarrow> ?c 0 \<le> 244"
    by (auto simp: word_le_nat_alt)
  have top: "scalar_ok ?v \<Longrightarrow> ?c 0 = 240 + ?v div 262144 \<Longrightarrow> ?c 0 \<le> 244"
    by (auto simp: scalar_ok_def)
  note eqs = decodes_by_width [OF conjunct1 [OF True] assms] decode_width_cases [OF o assms] Let_def
      decode_tail_widths [OF o assms] bytes
  consider "scalar_width s = 1" | "scalar_width s = 2" | "scalar_width s = 3" | "scalar_width s = 4"
    | "4 < scalar_width s"
    using True by linarith
  then show ?thesis
  proof cases
    case 1
    then show ?thesis unfolding eqs using scalar_ok_small [of ?v] by auto
  next
    case 2
    then show ?thesis unfolding eqs
      using bytes2 [of "?c 0" "?c 1" ?v] True scalar_ok_small [of ?v] by simp blast
  next
    case 3
    then show ?thesis unfolding eqs
      using bytes3 [of "?c 0" "?c 1" "?c 2" ?v] True by simp blast
  next
    case 4
    show ?thesis
    proof (cases "?c 0 \<le> 244")
      case low: True
      then have "?c 0 \<le> 247" by simp
      with 4 low show ?thesis unfolding eqs
        using bytes4 [of "?c 0" "?c 1" "?c 2" "?c 3" ?v] True by simp blast
    next
      case False
      with 4 top show ?thesis unfolding eqs by auto
    qed
  next
    case 5
    then show ?thesis unfolding eqs by simp
  qed
qed

section \<open>The interface of a UTF-8 decoder\<close>

text \<open>
  The compiler and the runtime each have a decoder of their own. What a client relies on is the
  same for both: at an offset, the decoder succeeds exactly on the encoding of a Unicode scalar
  that ends within the limit, and yields that scalar and its width.
\<close>

definition encodes :: "nat list \<Rightarrow> string \<Rightarrow> bool" where
  "encodes vs t \<longleftrightarrow> (\<forall>v \<in> set vs. scalar_ok v) \<and> map code t = concat (map utf8_bytes vs)"

text \<open>The code is prefix-free: the lead byte fixes the width and the bytes fix the scalar.\<close>

definition lead_width :: "nat \<Rightarrow> nat" where
  "lead_width b = (if b < 128 then 1 else if b < 224 then 2 else if b < 240 then 3 else 4)"

definition bytes_value :: "nat list \<Rightarrow> nat" where
  "bytes_value bs =
     (case bs of
        [a] \<Rightarrow> a
      | [a, b] \<Rightarrow> a mod 32 * 64 + b mod 64
      | [a, b, c] \<Rightarrow> (a mod 16 * 64 + b mod 64) * 64 + c mod 64
      | [a, b, c, d] \<Rightarrow> ((a mod 8 * 64 + b mod 64) * 64 + c mod 64) * 64 + d mod 64
      | _ \<Rightarrow> 0)"

lemma utf8_bytes_inverse:
  assumes "scalar_ok v"
  shows "bytes_value (utf8_bytes v) = v" and "lead_width (hd (utf8_bytes v)) = length (utf8_bytes v)"
proof -
  consider "v < 128" | "128 \<le> v" "v < 2048" | "2048 \<le> v" "v < 65536" | "65536 \<le> v" by linarith
  then have "bytes_value (utf8_bytes v) = v \<and> lead_width (hd (utf8_bytes v)) = length (utf8_bytes v)"
  proof cases
    case 1
    then show ?thesis by (simp add: utf8_bytes_cases bytes_value_def lead_width_def)
  next
    case 2
    then have "v div 64 < 32" by auto
    with 2 show ?thesis
      using bytes2 [of "192 + v div 64" "128 + v mod 64" v]
      by (simp add: utf8_bytes_cases bytes_value_def lead_width_def)
  next
    case 3
    then have "v div 4096 < 16" by auto
    with 3 show ?thesis
      using bytes3 [of "224 + v div 4096" "128 + v div 64 mod 64" "128 + v mod 64" v]
      by (simp add: utf8_bytes_cases bytes_value_def lead_width_def)
  next
    case 4
    with scalar_ok_bound [OF assms] show ?thesis
      using bytes4 [of "240 + v div 262144" "128 + v div 4096 mod 64" "128 + v div 64 mod 64"
          "128 + v mod 64" v]
      by (simp add: utf8_bytes_cases bytes_value_def lead_width_def)
  qed
  then show "bytes_value (utf8_bytes v) = v" "lead_width (hd (utf8_bytes v)) = length (utf8_bytes v)"
    by auto
qed

lemma utf8_bytes_prefix_free:
  assumes "scalar_ok v" "scalar_ok w" "utf8_bytes v @ xs = utf8_bytes w @ ys"
  shows "v = w \<and> xs = ys"
proof -
  have ne: "utf8_bytes v \<noteq> []" "utf8_bytes w \<noteq> []"
    using length_utf8_bytes(1) [of v] length_utf8_bytes(1) [of w] by auto
  then have "hd (utf8_bytes v) = hd (utf8_bytes w)"
    using assms(3) by (metis hd_append2)
  then have "length (utf8_bytes v) = length (utf8_bytes w)"
    using utf8_bytes_inverse(2) assms(1,2) by metis
  with assms(3) have "utf8_bytes v = utf8_bytes w" "xs = ys" by simp_all
  then show ?thesis using utf8_bytes_inverse(1) assms(1,2) by metis
qed

lemma encodes_unique: "encodes vs t \<Longrightarrow> encodes ws t \<Longrightarrow> vs = ws"
proof (induction vs arbitrary: ws t)
  case Nil
  then show ?case
    using length_utf8_bytes(1) by (cases ws) (auto simp: encodes_def)
next
  case (Cons v vs)
  have "utf8_bytes v \<noteq> []" using length_utf8_bytes(1) [of v] by auto
  with Cons.prems obtain w ws' where ws: "ws = w # ws'"
    by (cases ws) (auto simp: encodes_def)
  with Cons.prems have "utf8_bytes v @ concat (map utf8_bytes vs) =
      utf8_bytes w @ concat (map utf8_bytes ws')" "scalar_ok v" "scalar_ok w"
    by (auto simp: encodes_def)
  then have eq: "v = w" "concat (map utf8_bytes vs) = concat (map utf8_bytes ws')"
    using utf8_bytes_prefix_free by blast+
  let ?t = "drop (length (utf8_bytes v)) t"
  have "map code ?t = concat (map utf8_bytes vs)"
    using Cons.prems(1) by (simp add: encodes_def flip: drop_map)
  then have "encodes vs ?t" "encodes ws' ?t"
    using Cons.prems ws eq by (auto simp: encodes_def)
  then have "vs = ws'" by (rule Cons.IH)
  with eq ws show ?case by simp
qed

lemma encodes_append: "encodes vs s \<Longrightarrow> encodes ws t \<Longrightarrow> encodes (vs @ ws) (s @ t)"
  by (auto simp: encodes_def)

lemma encodes_Nil [simp]: "encodes [] t \<longleftrightarrow> t = []" "encodes vs [] \<longleftrightarrow> vs = []"
  using length_utf8_bytes(1) by (auto simp: encodes_def)

lemma map_code_inj: "map code s = map code t \<longleftrightarrow> s = t"
  by (simp add: inj_map_eq_map inj_of_char)

lemma encodes_append_utf8:
  "scalar_ok (unat v) \<Longrightarrow> encodes [unat v] (append_utf8 v [])"
  by (simp add: encodes_def append_utf8_bytes scalar_ok_def)

locale utf8_decoder =
  fixes dec :: "string \<Rightarrow> nat \<Rightarrow> nat \<Rightarrow> (u32 \<times> nat) option"
  assumes dec_iff: "limit \<le> length t \<Longrightarrow>
    dec t offset limit = Some (v, w) \<longleftrightarrow> decodes_to t offset limit (unat v) w"
begin

lemma dec_progress: "dec t offset (length t) = Some (v, w) \<Longrightarrow> 0 < w \<and> offset + w \<le> length t"
  using length_utf8_bytes(1) by (auto simp: dec_iff decodes_to_def)

lemma dec_bytes:
  assumes "limit \<le> length t" "dec t offset limit = Some (v, w)"
  shows "take w (drop offset t) = append_utf8 v [] \<and> scalar_ok (unat v)"
proof -
  from assms have "scalar_ok (unat v)" "map code (take w (drop offset t)) = utf8_bytes (unat v)"
    by (auto simp: dec_iff decodes_to_def)
  moreover from this have "map code (append_utf8 v []) = utf8_bytes (unat v)"
    by (simp add: append_utf8_bytes scalar_ok_def)
  ultimately show ?thesis using map_code_inj by metis
qed

lemma dec_append_utf8:
  assumes "scalar_ok (unat v)" "length (pre @ append_utf8 v []) \<le> limit"
    "limit \<le> length (pre @ append_utf8 v [] @ post)"
  shows "dec (pre @ append_utf8 v [] @ post) (length pre) limit = Some (v, length (append_utf8 v []))"
proof -
  have "map code (append_utf8 v []) = utf8_bytes (unat v)"
    using assms(1) by (simp add: append_utf8_bytes scalar_ok_def)
  moreover from this have "length (append_utf8 v []) = length (utf8_bytes (unat v))"
    by (metis length_map)
  ultimately show ?thesis
    using assms by (simp add: dec_iff decodes_to_def)
qed

lemma dec_encodes:
  assumes "dec t offset (length t) = Some (v, w)"
  shows "encodes (unat v # vs) (drop offset t) \<longleftrightarrow> encodes vs (drop (offset + w) t)"
proof -
  from assms have d: "scalar_ok (unat v)" "w = length (utf8_bytes (unat v))"
      "map code (take w (drop offset t)) = utf8_bytes (unat v)"
    by (auto simp: dec_iff decodes_to_def)
  have "map code (drop offset t) = utf8_bytes (unat v) @ map code (drop (offset + w) t)"
    by (metis d(3) append_take_drop_id drop_drop add.commute map_append)
  with d(1) show ?thesis by (simp add: encodes_def)
qed

lemma encodes_dec:
  assumes "encodes (x # vs) (drop offset t)"
  shows "\<exists>v w. dec t offset (length t) = Some (v, w) \<and> unat v = x \<and> w = length (utf8_bytes x)"
proof -
  from assms have x: "scalar_ok x" and m: "map code (drop offset t) = utf8_bytes x @ concat (map utf8_bytes vs)"
    by (auto simp: encodes_def)
  from m have "length (drop offset t) \<ge> length (utf8_bytes x)"
    by (metis length_append length_map le_add1)
  moreover have "0 < length (utf8_bytes x)" by (rule length_utf8_bytes)
  ultimately have le: "offset + length (utf8_bytes x) \<le> length t"
    unfolding length_drop by linarith
  have u: "unat (of_nat x :: u32) = x"
    using x by (simp add: scalar_ok_def unat_of_nat)
  have "decodes_to t offset (length t) (unat (of_nat x :: u32)) (length (utf8_bytes x))"
    using x le m by (simp add: decodes_to_def u flip: take_map)
  then have "dec t offset (length t) = Some (of_nat x, length (utf8_bytes x))"
    by (simp only: dec_iff order_refl)
  then show ?thesis using u by blast
qed

end

locale utf8_counter = utf8_decoder +
  fixes count_loop :: "string \<Rightarrow> nat \<Rightarrow> nat \<Rightarrow> nat option"
  assumes count_loop_unfold: "count_loop t offset n =
    (if offset < length t then
       (case dec t offset (length t) of None \<Rightarrow> None | Some (v, w) \<Rightarrow> count_loop t (offset + w) (Suc n))
     else Some n)"
begin

lemma count_loop_iff:
  assumes "offset \<le> length t"
  shows "count_loop t offset n = Some m \<longleftrightarrow> (\<exists>vs. encodes vs (drop offset t) \<and> m = n + length vs)"
  using assms
proof (induction "length t - offset" arbitrary: offset n rule: less_induct)
  case less
  show ?case
  proof (cases "offset < length t")
    case False
    then show ?thesis using less.prems by (subst count_loop_unfold) auto
  next
    case True
    show ?thesis
    proof (cases "dec t offset (length t)")
      case None
      have "\<not> encodes vs (drop offset t)" for vs
        using encodes_dec [of _ _ offset t] None True by (cases vs) auto
      with None True show ?thesis by (subst count_loop_unfold) simp
    next
      case (Some r)
      obtain v w where r: "r = (v, w)" by (cases r)
      with Some have pw: "0 < w" "offset + w \<le> length t" using dec_progress by auto
      have split: "(\<exists>vs. encodes vs (drop offset t) \<and> m = n + length vs) \<longleftrightarrow>
          (\<exists>vs. encodes vs (drop (offset + w) t) \<and> m = Suc n + length vs)"
      proof
        assume "\<exists>vs. encodes vs (drop offset t) \<and> m = n + length vs"
        then obtain vs where vs: "encodes vs (drop offset t)" "m = n + length vs" by blast
        then obtain x ws where x: "vs = x # ws" using True by (cases vs) auto
        then have "unat v = x" using encodes_dec [of x ws offset t] vs Some r by auto
        then show "\<exists>vs. encodes vs (drop (offset + w) t) \<and> m = Suc n + length vs"
          using vs x dec_encodes [of t offset v w ws] Some r by auto
      next
        assume "\<exists>vs. encodes vs (drop (offset + w) t) \<and> m = Suc n + length vs"
        then obtain vs where "encodes vs (drop (offset + w) t)" "m = Suc n + length vs" by blast
        then have "encodes (unat v # vs) (drop offset t) \<and> m = n + length (unat v # vs)"
          using dec_encodes [of t offset v w vs] Some r by auto
        then show "\<exists>vs. encodes vs (drop offset t) \<and> m = n + length vs" by blast
      qed
      have "count_loop t (offset + w) (Suc n) = Some m \<longleftrightarrow>
          (\<exists>vs. encodes vs (drop (offset + w) t) \<and> m = Suc n + length vs)"
        using pw True by (intro less.hyps) auto
      with Some r True split show ?thesis by (subst count_loop_unfold) simp
    qed
  qed
qed

end

section \<open>The compiler's decoder\<close>

text \<open>The decoder as the interface sees it: the scalar and its width.\<close>

definition decode_pair :: "string \<Rightarrow> nat \<Rightarrow> nat \<Rightarrow> (u32 \<times> nat) option" where
  "decode_pair t offset limit =
     map_option (\<lambda>s. (scalar_value s, scalar_width s)) (decode_utf8_scalar t offset limit)"

interpretation compiler_utf8: utf8_counter decode_pair utf8_scalar_count_loop
proof unfold_locales
  fix t :: string and offset limit :: nat and v :: u32 and w :: nat
  assume "limit \<le> length t"
  have "decode_pair t offset limit = Some (v, w) \<longleftrightarrow>
      decode_utf8_scalar t offset limit = Some \<lparr>scalar_value = v, scalar_width = w\<rparr>"
    by (auto simp: decode_pair_def)
  with \<open>limit \<le> length t\<close> show "decode_pair t offset limit = Some (v, w) \<longleftrightarrow>
      decodes_to t offset limit (unat v) w"
    by (simp add: decode_iff)
next
  fix t :: string and offset n :: nat
  show "utf8_scalar_count_loop t offset n =
    (if offset < length t then
       (case decode_pair t offset (length t) of None \<Rightarrow> None
        | Some (v, w) \<Rightarrow> utf8_scalar_count_loop t (offset + w) (Suc n))
     else Some n)"
    by (subst utf8_scalar_count_loop.simps) (simp add: decode_pair_def split: option.split)
qed

section \<open>Properties\<close>

text \<open>
  C2: \<open>decode_utf8_scalar\<close> accepts exactly the well-formed UTF-8 sequences: on a limit inside the
  text it returns the scalar \<open>s\<close> at \<open>offset\<close> if and only if the bytes there are the encoding of a
  Unicode scalar value, complete before the limit (so no overlong form, no surrogate, no value
  beyond U+10FFFF and no truncated sequence is accepted, and every scalar is).
\<close>

theorem decode_utf8_scalar_correct:
  assumes "limit \<le> length t"
  shows "decode_utf8_scalar t offset limit = Some s \<longleftrightarrow>
    scalar_ok (unat (scalar_value s)) \<and> scalar_width s = length (utf8_bytes (unat (scalar_value s))) \<and>
    offset + scalar_width s \<le> limit \<and>
    map code (take (scalar_width s) (drop offset t)) = utf8_bytes (unat (scalar_value s))"
  using decode_iff [OF assms, of offset s]
  by (simp add: decodes_to_def)

theorem decode_utf8_scalar_correct_witness:
  "decode_utf8_scalar [CHR ''a'', char_of (0xE2 :: nat), char_of (0x82 :: nat), char_of (0xAC :: nat)] 1 4 =
     Some \<lparr>scalar_value = 0x20AC, scalar_width = 3\<rparr>"
  by (subst decode_utf8_scalar_correct) (simp_all add: scalar_ok_def utf8_bytes_def)

text \<open>
  C3: encoding and decoding are inverse: whatever surrounds it, the output of \<open>append_utf8\<close> for a
  Unicode scalar is decoded back to the same scalar with the width that was written.
\<close>

theorem append_decode_roundtrip:
  assumes "is_unicode_scalar (ucast v)"
  shows "decode_utf8_scalar (append_utf8 v pre @ post) (length pre) (length (append_utf8 v pre @ post)) =
    Some \<lparr>scalar_value = v, scalar_width = length (append_utf8 v []) \<rparr>"
proof -
  have "scalar_ok (unat v)" using assms by (simp add: is_unicode_scalar_iff unat_ucast_up)
  then have "decode_pair (pre @ append_utf8 v [] @ post) (length pre)
      (length (pre @ append_utf8 v [] @ post)) = Some (v, length (append_utf8 v []))"
    by (intro compiler_utf8.dec_append_utf8) auto
  then show ?thesis
    by (auto simp: decode_pair_def append_utf8_append [of v pre])
qed

theorem append_decode_roundtrip_witness:
  "let t = append_utf8 0x1F600 ''ab'' @ ''c'' in is_unicode_scalar 0x1F600 \<and>
    decode_utf8_scalar t (length ''ab'') (length t) =
    Some \<lparr>scalar_value = 0x1F600, scalar_width = length (append_utf8 0x1F600 [])\<rparr>"
  using append_decode_roundtrip [where v = "0x1F600" and pre = "''ab''" and post = "''c''"]
  by (simp add: is_unicode_scalar_def Let_def)

text \<open>
  C4: \<open>utf8_scalar_count\<close> returns a count exactly when the whole text is well-formed UTF-8, and the
  count is then the number of scalars it encodes.
\<close>

theorem utf8_scalar_count_correct:
  "utf8_scalar_count t = Some n \<longleftrightarrow> (\<exists>vs. encodes vs t \<and> n = length vs)"
  using compiler_utf8.count_loop_iff [of 0 t 0 n]
  by (simp add: utf8_scalar_count_def)

end
