(* ===== verification/Text_Literals.thy ===== *)
theory Text_Literals
  imports Numeric_Literals Utf8
begin

text \<open>
  String and character literals (\<^verbatim>\<open>src/lexer/literal.cc\<close>): \<open>decode_text_literal\<close> checks
  the delimiters of a complete token, decodes escapes and raw UTF-8 and reports the first error.
  The lemmas relate it to the grammar of literal bodies and show that its output is well-formed
  UTF-8.
\<close>

section \<open>The code\<close>

datatype TextLiteralKind = tlString | tlCharacter

datatype TextLiteralError = tleNone | tleInvalidStructure | tleInvalidUtf8 | tleUnknownEscape
  | tleInvalidUnicodeEscape | tleInvalidUnicodeScalar | tleEmptyCharacter | tleMultipleCharacters

record DecodedTextLiteral =
  tl_error :: TextLiteralError
  tl_error_offset :: nat
  tl_utf8 :: string
  tl_scalar_count :: nat
  tl_character :: u32

definition empty_decoded :: DecodedTextLiteral where
  "empty_decoded = \<lparr>tl_error = tleNone, tl_error_offset = 0, tl_utf8 = [], tl_scalar_count = 0,
     tl_character = 0\<rparr>"

definition text_literal_error :: "TextLiteralError \<Rightarrow> nat \<Rightarrow> DecodedTextLiteral" where
  "text_literal_error e offset = empty_decoded\<lparr>tl_error := e, tl_error_offset := offset\<rparr>"

definition backslash :: char where
  "backslash = char_of (92 :: nat)"

definition quote :: char where
  "quote = char_of (34 :: nat)"

definition apostrophe :: char where
  "apostrophe = char_of (39 :: nat)"

definition line_feed :: char where
  "line_feed = char_of (10 :: nat)"

definition carriage_return :: char where
  "carriage_return = char_of (13 :: nat)"

definition decode_simple_escape :: "char \<Rightarrow> u32 option" where
  "decode_simple_escape c =
     (if c = CHR ''n'' then Some 10
      else if c = CHR ''r'' then Some 13
      else if c = CHR ''t'' then Some 9
      else if c = CHR ''0'' then Some 0
      else if c = backslash then Some 92
      else if c = apostrophe then Some 39
      else if c = quote then Some 34
      else None)"

text \<open>
  The digit loop of a Unicode escape: the offset where it stops and the value, or \<open>None\<close> when a
  character is not a digit or a seventh digit appears.
\<close>

function unicode_digits :: "string \<Rightarrow> nat \<Rightarrow> nat \<Rightarrow> nat \<Rightarrow> u32 \<Rightarrow> (nat \<times> u32) option" where
  "unicode_digits lexeme limit digits_begin offset v =
     (if offset < limit \<and> lexeme ! offset \<noteq> CHR ''}'' then
        let digit = digit_value (lexeme ! offset) in
        if digit < 0 \<or> offset - digits_begin \<ge> 6 then None
        else unicode_digits lexeme limit digits_begin (offset + 1) (push_bit 4 v OR of_int digit)
      else Some (offset, v))"
  by pat_completeness auto
termination
  by (relation "measure (\<lambda>(_, limit, _, offset, _). limit - offset)") auto

declare unicode_digits.simps [simp del]

text \<open>
  An escape whose backslash is at \<open>scalar_offset\<close>: its scalar and the offset after it, or the error.
\<close>

definition decode_unicode_escape :: "string \<Rightarrow> nat \<Rightarrow> nat \<Rightarrow> TextLiteralError + (u32 \<times> nat)" where
  "decode_unicode_escape lexeme limit offset =
     (if offset \<ge> limit \<or> lexeme ! offset \<noteq> CHR ''{'' then Inl tleInvalidUnicodeEscape
      else
        let digits_begin = offset + 1 in
        case unicode_digits lexeme limit digits_begin digits_begin 0 of
          None \<Rightarrow> Inl tleInvalidUnicodeEscape
        | Some (offset, v) \<Rightarrow>
            if offset = digits_begin \<or> offset \<ge> limit \<or> lexeme ! offset \<noteq> CHR ''}'' then
              Inl tleInvalidUnicodeEscape
            else if \<not> is_unicode_scalar (ucast v) then Inl tleInvalidUnicodeScalar
            else Inr (v, offset + 1))"

definition decode_escape :: "string \<Rightarrow> nat \<Rightarrow> nat \<Rightarrow> TextLiteralError + (u32 \<times> nat)" where
  "decode_escape lexeme limit scalar_offset =
     (let offset = scalar_offset + 1 in
      if offset \<ge> limit then Inl tleUnknownEscape
      else if lexeme ! offset \<noteq> CHR ''u'' then
        (case decode_simple_escape (lexeme ! offset) of
           None \<Rightarrow> Inl tleUnknownEscape
         | Some escaped \<Rightarrow> Inr (escaped, offset + 1))
      else decode_unicode_escape lexeme limit (offset + 1))"

text \<open>
  One iteration of the decoding loop: the scalar, the bytes it appends and the offset after it.
\<close>

definition decode_text_item ::
  "string \<Rightarrow> char \<Rightarrow> nat \<Rightarrow> nat \<Rightarrow> TextLiteralError + (u32 \<times> string \<times> nat)" where
  "decode_text_item lexeme delimiter limit offset =
     (if lexeme ! offset = backslash then
        (case decode_escape lexeme limit offset of
           Inl e \<Rightarrow> Inl e
         | Inr (scalar, offset') \<Rightarrow> Inr (scalar, append_utf8 scalar [], offset'))
      else if lexeme ! offset = delimiter \<or> lexeme ! offset = carriage_return \<or>
              lexeme ! offset = line_feed then Inl tleInvalidStructure
      else
        (case decode_utf8_scalar lexeme offset limit of
           None \<Rightarrow> Inl tleInvalidUtf8
         | Some decoded \<Rightarrow>
             Inr (scalar_value decoded, substr lexeme offset (scalar_width decoded),
                  offset + scalar_width decoded)))"

lemma unicode_digits_ge: "unicode_digits t limit b i v = Some (j, w) \<Longrightarrow> i \<le> j"
proof (induction t limit b i v rule: unicode_digits.induct)
  case (1 t limit b i v)
  show ?case
  proof (cases "i < limit \<and> t ! i \<noteq> CHR ''}''")
    case True
    then have "unicode_digits t limit b (i + 1) (push_bit 4 v OR of_int (digit_value (t ! i))) = Some (j, w)"
      and "\<not> (digit_value (t ! i) < 0 \<or> i - b \<ge> 6)"
      using "1.prems" by (auto simp: unicode_digits.simps [of t limit b i v] Let_def split: if_splits)
    then show ?thesis using "1.IH" [OF True refl] by simp
  next
    case False
    then show ?thesis using "1.prems"
      by (auto simp: unicode_digits.simps [of t limit b i v])
  qed
qed

lemma decode_text_item_progress:
  "decode_text_item lexeme delimiter limit offset = Inr (scalar, bytes, offset') \<Longrightarrow> offset < offset'"
  by (auto simp: decode_text_item_def decode_escape_def decode_unicode_escape_def Let_def
      dest!: unicode_digits_ge dest: decode_width_pos split: if_splits option.splits sum.splits)

function decode_text_loop ::
  "string \<Rightarrow> TextLiteralKind \<Rightarrow> char \<Rightarrow> nat \<Rightarrow> nat \<Rightarrow> DecodedTextLiteral \<Rightarrow> DecodedTextLiteral" where
  "decode_text_loop lexeme kind delimiter limit offset result =
     (if offset < limit then
        (case decode_text_item lexeme delimiter limit offset of
           Inl e \<Rightarrow> text_literal_error e offset
         | Inr (scalar, bytes, offset') \<Rightarrow>
             let result = result\<lparr>tl_utf8 := tl_utf8 result @ bytes,
                                 tl_scalar_count := tl_scalar_count result + 1,
                                 tl_character := scalar\<rparr> in
             if kind = tlCharacter \<and> tl_scalar_count result > 1 then
               text_literal_error tleMultipleCharacters offset
             else decode_text_loop lexeme kind delimiter limit offset' result)
      else if kind = tlCharacter \<and> tl_scalar_count result = 0 then
        text_literal_error tleEmptyCharacter 1
      else result)"
  by pat_completeness auto
termination
  by (relation "measure (\<lambda>(_, _, _, limit, offset, _). limit - offset)")
    (auto dest: decode_text_item_progress)

declare decode_text_loop.simps [simp del]

definition decode_text_literal :: "string \<Rightarrow> TextLiteralKind \<Rightarrow> DecodedTextLiteral" where
  "decode_text_literal lexeme kind =
     (let delimiter = (if kind = tlString then quote else apostrophe) in
      if length lexeme < 2 \<or> hd lexeme \<noteq> delimiter \<or> last lexeme \<noteq> delimiter then
        text_literal_error tleInvalidStructure 0
      else decode_text_loop lexeme kind delimiter (length lexeme - 1) 1 empty_decoded)"

section \<open>The grammar of literal bodies\<close>

definition is_hex_digit :: "char \<Rightarrow> bool" where
  "is_hex_digit c \<longleftrightarrow> hex_digit c < 16"

lemma is_hex_digit_code: "is_hex_digit c \<longleftrightarrow> 0 \<le> digit_value c"
  using digit_value_bounds [of c] by (simp add: is_hex_digit_def hex_digit_less)

inductive text_item :: "char \<Rightarrow> string \<Rightarrow> nat \<Rightarrow> bool" where
  raw: "scalar_ok v \<Longrightarrow> map code item = utf8_bytes v \<Longrightarrow>
    v \<notin> {code backslash, code d, code carriage_return, code line_feed} \<Longrightarrow> text_item d item v"
| simple: "decode_simple_escape c = Some v \<Longrightarrow> text_item d [backslash, c] (unat v)"
| unicode: "hs \<noteq> [] \<Longrightarrow> length hs \<le> 6 \<Longrightarrow> list_all is_hex_digit hs \<Longrightarrow>
    v = digits_value 16 hex_digit hs \<Longrightarrow> scalar_ok v \<Longrightarrow>
    text_item d (backslash # ''u{'' @ hs @ ''}'') v"

inductive text_body :: "char \<Rightarrow> string \<Rightarrow> nat list \<Rightarrow> bool" where
  empty: "text_body d [] []"
| item: "text_item d item v \<Longrightarrow> text_body d body vs \<Longrightarrow> text_body d (item @ body) (v # vs)"

lemma delimiter_codes [simp]:
  "code backslash = 92" "code quote = 34" "code apostrophe = 39" "code line_feed = 10"
  "code carriage_return = 13"
  by (simp_all add: backslash_def quote_def apostrophe_def line_feed_def carriage_return_def)

lemma char_code: "c = c' \<longleftrightarrow> code c = code c'"
  by simp

section \<open>Unicode escapes\<close>

lemma not_hex_brace: "\<not> is_hex_digit (CHR ''}'')"
  by (simp add: is_hex_digit_code digit_value_def is_decimal_digit_def)

lemma hex_digit_lt: "is_hex_digit c \<Longrightarrow> hex_digit c < 16"
  by (simp add: is_hex_digit_def)

lemma hex_accumulate:
  fixes v :: u32
  assumes "0 \<le> digit_value c" "unat v < 16 ^ k" "k < 6"
  shows "unat (push_bit 4 v OR of_int (digit_value c)) = unat v * 16 + hex_digit c"
    and "unat v * 16 + hex_digit c < 16 ^ Suc k"
proof -
  have h: "of_int (digit_value c) = (of_nat (hex_digit c) :: u32)"
    using assms(1) by (simp add: digit_value_hex)
  have lt: "hex_digit c < 16" using assms(1) hex_digit_lt is_hex_digit_code by blast
  then have u: "unat (of_nat (hex_digit c) :: u32) = hex_digit c" by (simp add: unat_of_nat)
  have "(16::nat) ^ k \<le> 16 ^ 5" using assms(3) by (intro power_increasing) simp_all
  then have v: "unat v < 1048576" using assms(2) by simp
  then have p: "unat (push_bit 4 v) = unat v * 16" by (simp add: unat_push_bit)
  show "unat (push_bit 4 v OR of_int (digit_value c)) = unat v * 16 + hex_digit c"
    unfolding h using lt by (subst unat_or_low_bits [where n = 4]) (simp_all add: p u)
  show "unat v * 16 + hex_digit c < 16 ^ Suc k"
    using assms(2) lt by simp
qed

lemma unicode_digits_complete:
  assumes "i + length hs < limit" "limit \<le> length t" "take (length hs) (drop i t) = hs"
    "t ! (i + length hs) = CHR ''}''" "list_all is_hex_digit hs"
    "b \<le> i" "i - b + length hs \<le> 6" "unat v < 16 ^ (i - b)"
  shows "unicode_digits t limit b i v =
    Some (i + length hs, of_nat (unat v * 16 ^ length hs + digits_value 16 hex_digit hs))"
  using assms
proof (induction hs arbitrary: i v)
  case Nil
  then show ?case by (subst unicode_digits.simps) simp
next
  case (Cons h hs)
  have i: "i < length t" using Cons.prems by simp
  then have th: "t ! i = h" "take (length hs) (drop (Suc i) t) = hs"
    using Cons.prems(3) by (simp_all add: take_drop_Cons)
  have h: "0 \<le> digit_value h" "h \<noteq> CHR ''}''"
    using Cons.prems(5) not_hex_brace by (auto simp: is_hex_digit_code)
  note acc = hex_accumulate [of h v "i - b", OF h(1) Cons.prems(8)]
  let ?v = "push_bit 4 v OR of_int (digit_value h) :: u32"
  have v: "unat ?v = unat v * 16 + hex_digit h" "unat ?v < 16 ^ (Suc i - b)"
    using acc Cons.prems(6,7) by (simp_all add: Suc_diff_le)
  have "\<not> 6 \<le> i - b" using Cons.prems(7) by simp
  then have "unicode_digits t limit b i v = unicode_digits t limit b (Suc i) ?v"
    using Cons.prems h th by (subst unicode_digits.simps) (simp add: Let_def)
  also have "\<dots> = Some (Suc i + length hs, of_nat (unat ?v * 16 ^ length hs + digits_value 16 hex_digit hs))"
    using Cons.prems th v(2) by (intro Cons.IH) auto
  finally show ?case
    by (simp add: v(1) digits_value_Cons algebra_simps)
qed

lemma unicode_digits_sound:
  assumes "unicode_digits t limit b i v = Some (j, w)"
    "limit \<le> length t" "i \<le> limit" "b \<le> i" "i - b \<le> 6" "unat v < 16 ^ (i - b)"
  shows "\<exists>hs. hs = take (j - i) (drop i t) \<and> i \<le> j \<and> j \<le> limit \<and> j - b \<le> 6 \<and> list_all is_hex_digit hs"
  using assms
proof (induction t limit b i v rule: unicode_digits.induct)
  case (1 t limit b i v)
  show ?case
  proof (cases "i < limit \<and> t ! i \<noteq> CHR ''}''")
    case True
    let ?v = "push_bit 4 v OR of_int (digit_value (t ! i)) :: u32"
    have rec: "unicode_digits t limit b (i + 1) ?v = Some (j, w)"
      and ok: "\<not> (digit_value (t ! i) < 0 \<or> i - b \<ge> 6)"
      using True "1.prems"(1) by (auto simp: unicode_digits.simps [of t limit b i v] Let_def split: if_splits)
    have "unat ?v < 16 ^ (Suc i - b)"
      using hex_accumulate [of "t ! i" v "i - b"] ok "1.prems" by (simp add: Suc_diff_le)
    then have IH: "i + 1 \<le> j" "j \<le> limit" "j - b \<le> 6" "list_all is_hex_digit (take (j - (i + 1)) (drop (i + 1) t))"
      using "1.IH" [OF True refl ok rec] True ok "1.prems" by auto
    have "take (j - i) (drop i t) = t ! i # take (j - (i + 1)) (drop (i + 1) t)"
      using take_drop_Cons [of i t "j - (i + 1)"] True IH "1.prems" by (simp add: Suc_diff_Suc)
    moreover have "is_hex_digit (t ! i)" using ok by (simp add: is_hex_digit_code)
    ultimately show ?thesis using IH by simp
  next
    case False
    then show ?thesis using "1.prems" by (auto simp: unicode_digits.simps [of t limit b i v])
  qed
qed

lemma digits_value_u32:
  assumes "length hs \<le> 6" "list_all is_hex_digit hs"
  shows "unat (of_nat (digits_value 16 hex_digit hs) :: u32) = digits_value 16 hex_digit hs"
proof -
  have "digits_value 16 hex_digit hs < 16 ^ length hs"
    using assms(2) by (intro digits_value_less hex_digit_lt) (simp add: list_all_iff)
  also have "(16::nat) ^ length hs \<le> 16 ^ 6" using assms(1) by (intro power_increasing) simp_all
  finally show ?thesis by (simp add: unat_of_nat)
qed

lemma drop_segment:
  assumes "take (limit - i) (drop i t) = x @ rest" "limit \<le> length t" "i \<le> limit"
  shows "take (limit - (i + length x)) (drop (i + length x) t) = rest"
    and "i + length x \<le> limit" "take (length x) (drop i t) = x"
    and "\<And>k. k < length x \<Longrightarrow> t ! (i + k) = x ! k"
proof -
  have "length (take (limit - i) (drop i t)) = limit - i" using assms(2) by simp
  then have len: "length x + length rest = limit - i" using assms(1) by simp
  have "drop (length x) (take (limit - i) (drop i t)) = rest" using assms(1) by simp
  then show "take (limit - (i + length x)) (drop (i + length x) t) = rest"
    by (simp add: drop_take add.commute)
  show "i + length x \<le> limit" using len assms(3) by simp
  have "take (length x) (take (limit - i) (drop i t)) = x" using assms(1) by simp
  then show tk: "take (length x) (drop i t) = x" using len by (simp add: min_def)
  show "t ! (i + k) = x ! k" if "k < length x" for k
    using that len assms(2) by (subst tk [symmetric]) (simp add: nth_drop)
qed

lemma decode_simple_escape_ok:
  "decode_simple_escape c = Some v \<Longrightarrow> scalar_ok (unat v) \<and> c \<noteq> CHR ''u''"
  by (auto simp: decode_simple_escape_def scalar_ok_def char_code [of backslash]
      char_code [of apostrophe] char_code [of quote] split: if_splits)

lemma text_item_scalar_ok: "text_item d item v \<Longrightarrow> scalar_ok v"
  by (induction rule: text_item.induct) (auto dest: decode_simple_escape_ok)

lemma utf8_bytes_not_Nil: "utf8_bytes v \<noteq> []" "[] \<noteq> utf8_bytes v"
  by (simp_all add: utf8_bytes_def)

lemma text_item_nonempty: "text_item d item v \<Longrightarrow> item \<noteq> []"
  by (induction rule: text_item.induct) (auto simp: utf8_bytes_not_Nil)

lemma utf8_first: "x < 128 \<Longrightarrow> hd (utf8_bytes v) = x \<longleftrightarrow> v = x"
  by (auto simp: utf8_bytes_def)

lemma first_not:
  assumes "map code item = utf8_bytes v" "v \<noteq> code c" "code c < 128"
  shows "hd item \<noteq> c"
proof -
  have "item \<noteq> []" using assms(1) length_utf8_bytes(1) [of v] by auto
  then have "code (hd item) = hd (utf8_bytes v)" by (simp add: hd_map flip: assms(1))
  then show ?thesis using utf8_first [of "code c" v] assms by auto
qed

lemma decode_text_item_complete:
  assumes "text_item d item v" "take (limit - i) (drop i t) = item @ rest" "limit \<le> length t"
    "i < limit" "code d < 128"
  shows "decode_text_item t d limit i =
    Inr (of_nat v, append_utf8 (of_nat v) [], i + length item)"
  using assms
proof (induction rule: text_item.induct)
  case (raw v item d)
  note seg = drop_segment [OF raw(4,5) less_imp_le [OF raw(6)]]
  have v: "unat (of_nat v :: u32) = v" using raw(1) by (simp add: scalar_ok_def unat_of_nat)
  have len: "length item = length (utf8_bytes v)" by (metis raw(2) length_map)
  have "decodes_to t i limit v (length item)"
    using raw seg len by (simp add: decodes_to_def)
  then have dec: "decode_utf8_scalar t i limit = Some \<lparr>scalar_value = of_nat v, scalar_width = length item\<rparr>"
    using raw(5) v by (simp add: decode_iff)
  have app: "append_utf8 (of_nat v) [] = item"
    using append_utf8_bytes [of "of_nat v" "[]"] raw(1,2) v map_code_inj
    by (metis append_Nil list.simps(8) scalar_ok_def)
  have "item \<noteq> []" using raw(2) length_utf8_bytes(1) [of v] by auto
  then have hd_i: "t ! i = hd item" using seg(4) [of 0] by (simp add: hd_conv_nth)
  have "t ! i \<noteq> backslash \<and> t ! i \<noteq> d \<and> t ! i \<noteq> carriage_return \<and> t ! i \<noteq> line_feed"
    using first_not [OF raw(2)] raw(3,7) hd_i by auto
  then show ?case using dec app seg(3) by (simp add: decode_text_item_def substr_def)
next
  case (simple c v d)
  note seg = drop_segment [OF simple(2,3) less_imp_le [OF simple(4)]]
  have "t ! i = backslash" "t ! (i + 1) = c" using seg(4) [of 0] seg(4) [of 1] by simp_all
  then show ?case
    using simple(1) seg(2) decode_simple_escape_ok [OF simple(1)]
    by (simp add: decode_text_item_def decode_escape_def Let_def)
next
  case (unicode hs v d)
  note seg = drop_segment [OF unicode(6,7) less_imp_le [OF unicode(8)]]
  let ?item = "backslash # ''u{'' @ hs @ ''}''"
  have nth: "t ! i = backslash" "t ! (i + 1) = CHR ''u''" "t ! (i + 2) = CHR ''{''"
      "t ! (i + 3 + length hs) = CHR ''}''"
    using seg(4) [of 0] seg(4) [of 1] seg(4) [of 2] seg(4) [of "3 + length hs"]
    by (simp_all add: nth_append eval_nat_numeral add.assoc)
  have "take (length hs) (drop 3 (take (length ?item) (drop i t))) = hs" by (subst seg(3)) simp
  then have tk: "take (length hs) (drop (i + 3) t) = hs"
    by (simp add: drop_take min_def add.commute)
  have dig: "unicode_digits t limit (i + 3) (i + 3) 0 = Some (i + 3 + length hs, of_nat v)"
    using unicode_digits_complete [of "i + 3" hs limit t "i + 3" 0] unicode tk seg(2) nth
    by simp
  have v: "unat (of_nat v :: u32) = v" using unicode(2-4) digits_value_u32 by simp
  have "is_unicode_scalar (ucast (of_nat v :: u32))"
    using unicode(5) v by (simp add: is_unicode_scalar_iff unat_ucast_up)
  then have "decode_unicode_escape t limit (i + 2) = Inr (of_nat v, i + 4 + length hs)"
    using dig nth seg(2) unicode(1)
    by (simp add: decode_unicode_escape_def Let_def eval_nat_numeral)
  then show ?case
    using nth seg(2) by (simp add: decode_text_item_def decode_escape_def Let_def numeral_eq_Suc)
qed

lemma decode_text_item_sound:
  assumes "decode_text_item t d limit i = Inr (sc, bytes, j)" "limit \<le> length t" "i < limit"
    "code d < 128"
  shows "\<exists>item. text_item d item (unat sc) \<and> item = take (j - i) (drop i t) \<and> i < j \<and> j \<le> limit"
proof (cases "t ! i = backslash")
  case False
  then have nd: "t ! i \<noteq> d" "t ! i \<noteq> carriage_return" "t ! i \<noteq> line_feed"
    and dec: "decode_utf8_scalar t i limit = Some \<lparr>scalar_value = sc, scalar_width = j - i\<rparr>" and "i < j"
    using assms(1) decode_width_pos [of t i limit]
    by (auto simp: decode_text_item_def split: if_splits option.splits)
  let ?item = "take (j - i) (drop i t)"
  have d: "scalar_ok (unat sc)" "j - i = length (utf8_bytes (unat sc))" "j \<le> limit"
      "map code ?item = utf8_bytes (unat sc)"
    using dec \<open>i < j\<close> assms(2) by (auto simp: decode_iff decodes_to_def)
  have "hd ?item = t ! i" using \<open>i < j\<close> assms(2,3) by (simp add: hd_take hd_drop_conv_nth)
  then have "hd (utf8_bytes (unat sc)) = code (t ! i)"
    using d(4) \<open>i < j\<close> assms(2,3) by (metis d(2) hd_map length_0_conv length_map zero_less_diff less_irrefl)
  then have ne: "unat sc \<noteq> code c" if "t ! i \<noteq> c" "code c < 128" for c
    using utf8_first [of "code c" "unat sc"] that by auto
  have "unat sc \<notin> {code backslash, code d, code carriage_return, code line_feed}"
    using ne [OF False] ne [OF nd(1) assms(4)] ne [OF nd(2)] ne [OF nd(3)] by simp
  then show ?thesis using text_item.raw [OF d(1) d(4)] \<open>i < j\<close> d(3) by blast
next
  case True
  then have esc: "decode_escape t limit i = Inr (sc, j)"
    using assms(1) by (auto simp: decode_text_item_def split: sum.splits)
  show ?thesis
  proof (cases "t ! (i + 1) = CHR ''u''")
    case False
    then have "i + 1 < limit" "decode_simple_escape (t ! (i + 1)) = Some sc" "j = i + 2"
      using esc by (auto simp: decode_escape_def Let_def split: if_splits option.splits)
    moreover from this have "take 2 (drop i t) = [backslash, t ! (i + 1)]"
      using True assms(2) by (simp add: numeral_2_eq_2 take_drop_Cons)
    ultimately show ?thesis using text_item.simple [of "t ! (i + 1)" sc d] by auto
  next
    case uni: True
    then have "decode_unicode_escape t limit (i + 2) = Inr (sc, j)" "i + 1 < limit"
      using esc by (auto simp: decode_escape_def Let_def numeral_2_eq_2 split: if_splits)
    then obtain k where br: "i + 2 < limit" "t ! (i + 2) = CHR ''{''"
      and dig: "unicode_digits t limit (i + 3) (i + 3) 0 = Some (k, sc)"
      and k: "k \<noteq> i + 3" "k < limit" "t ! k = CHR ''}''" "is_unicode_scalar (ucast sc)" "j = k + 1"
      by (auto simp: decode_unicode_escape_def Let_def numeral_3_eq_3 numeral_2_eq_2
          split: if_splits option.splits)
    define hs where "hs = take (k - (i + 3)) (drop (i + 3) t)"
    have hs: "i + 3 \<le> k" "length hs \<le> 6" "list_all is_hex_digit hs" "length hs = k - (i + 3)"
      using unicode_digits_sound [OF dig] br assms(2) k(2) by (auto simp: hs_def)
    then have "unicode_digits t limit (i + 3) (i + 3) 0 =
        Some (k, of_nat (digits_value 16 hex_digit hs))"
      using unicode_digits_complete [of "i + 3" hs limit t "i + 3" 0] k assms(2)
      by (simp add: hs_def)
    then have v: "unat sc = digits_value 16 hex_digit hs"
      using dig digits_value_u32 [OF hs(2,3)] by simp
    have pre: "drop i t = [backslash, CHR ''u'', CHR ''{''] @ drop (i + 3) t"
      using True uni br assms(2)
      by (simp add: Cons_nth_drop_Suc [symmetric] numeral_3_eq_3 numeral_2_eq_2)
    have tl: "take (j - (i + 3)) (drop (i + 3) t) = hs @ [CHR ''}'']"
      using hs(1) k assms(2) by (simp add: hs_def Suc_diff_le take_Suc_conv_app_nth)
    have ji: "j - i = 3 + (j - (i + 3))" using hs(1) k(5) by simp
    have "take (3 + n) ([a, b, c] @ ds) = a # [b, c] @ take n ds" for n and a b c :: char and ds
      by (simp add: numeral_3_eq_3)
    then have "take (j - i) (drop i t) = backslash # ''u{'' @ hs @ ''}''"
      by (metis ji pre tl)
    moreover have "hs \<noteq> []" using hs(1,4) k(1) by auto
    moreover have "scalar_ok (unat sc)" using k(4) by (simp add: is_unicode_scalar_iff unat_ucast_up)
    ultimately show ?thesis
      using text_item.unicode [of hs "unat sc" d] hs v k by auto
  qed
qed

section \<open>The decoding loop\<close>

definition encode_scalars :: "nat list \<Rightarrow> string" where
  "encode_scalars vs = concat (map (\<lambda>v. append_utf8 (of_nat v) []) vs)"

lemma text_body_scalars_ok: "text_body d body vs \<Longrightarrow> list_all scalar_ok vs"
  by (induction rule: text_body.induct) (auto dest: text_item_scalar_ok)

lemma encode_scalars_encodes: "list_all scalar_ok vs \<Longrightarrow> encodes vs (encode_scalars vs)"
proof (induction vs)
  case (Cons v vs)
  then have "unat (of_nat v :: u32) = v" by (simp add: scalar_ok_def unat_of_nat)
  then have "encodes [v] (append_utf8 (of_nat v) [])"
    using Cons encodes_append_utf8 [of "of_nat v"] by simp
  then show ?case
    using Cons encodes_append [of "[v]" _ vs] by (simp add: encode_scalars_def)
qed (simp add: encode_scalars_def)

definition extend_decoded :: "DecodedTextLiteral \<Rightarrow> nat list \<Rightarrow> DecodedTextLiteral" where
  "extend_decoded r vs = r\<lparr>tl_utf8 := tl_utf8 r @ encode_scalars vs,
     tl_scalar_count := tl_scalar_count r + length vs,
     tl_character := (if vs = [] then tl_character r else of_nat (last vs))\<rparr>"

lemma extend_decoded_Nil [simp]: "extend_decoded r [] = r"
  by (simp add: extend_decoded_def encode_scalars_def)

lemma extend_decoded_Cons:
  "extend_decoded (r\<lparr>tl_utf8 := tl_utf8 r @ append_utf8 (of_nat v) [],
     tl_scalar_count := tl_scalar_count r + 1, tl_character := of_nat v\<rparr>) vs = extend_decoded r (v # vs)"
  by (simp add: extend_decoded_def encode_scalars_def)

lemma decode_text_loop_complete:
  assumes "text_body d body vs" "take (limit - i) (drop i t) = body" "limit \<le> length t" "i \<le> limit"
    "code d < 128" "kind = tlCharacter \<longrightarrow> tl_scalar_count r + length vs = 1"
  shows "decode_text_loop t kind d limit i r = extend_decoded r vs"
  using assms
proof (induction arbitrary: i r rule: text_body.induct)
  case (empty d)
  then have "i = limit" by auto
  then show ?case using empty by (subst decode_text_loop.simps) auto
next
  case (item d x v body vs)
  have "x \<noteq> []" by (rule text_item_nonempty [OF item.hyps(1)])
  then have i: "i < limit" using item.prems(1,3) by (cases "i = limit") auto
  note dec = decode_text_item_complete [OF item.hyps(1) item.prems(1,2) i item.prems(4)]
  note seg = drop_segment [OF item.prems(1,2,3)]
  show ?case
    using i item.prems seg
    by (subst decode_text_loop.simps)
      (auto simp: dec Let_def item.IH extend_decoded_Cons [where r = r and v = v, simplified])
qed

lemma decode_text_item_error: "decode_text_item t d limit i \<noteq> Inl tleNone"
  by (auto simp: decode_text_item_def decode_escape_def decode_unicode_escape_def Let_def
      split: option.splits sum.splits if_splits)

lemma decode_text_loop_sound:
  assumes "tl_error (decode_text_loop t kind d limit i r) = tleNone"
    "limit \<le> length t" "i \<le> limit" "code d < 128" "kind = tlCharacter \<longrightarrow> tl_scalar_count r \<le> 1"
  shows "\<exists>vs. text_body d (take (limit - i) (drop i t)) vs \<and>
    (kind = tlCharacter \<longrightarrow> tl_scalar_count r + length vs = 1)"
  using assms
proof (induction t kind d limit i r rule: decode_text_loop.induct)
  case (1 t kind d limit i r)
  show ?case
  proof (cases "i < limit")
    case False
    then show ?thesis
      using "1.prems" text_body.empty [of d]
      by (subst (asm) decode_text_loop.simps)
        (auto simp: text_literal_error_def intro!: exI [of _ "[]"] split: if_splits)
  next
    case True
    then obtain sc bytes j where item: "decode_text_item t d limit i = Inr (sc, bytes, j)"
      using "1.prems"(1) decode_text_item_error [of t d limit i]
      by (subst (asm) decode_text_loop.simps) (auto simp: text_literal_error_def split: sum.splits)
    let ?r = "r\<lparr>tl_utf8 := tl_utf8 r @ bytes, tl_scalar_count := tl_scalar_count r + 1, tl_character := sc\<rparr>"
    have "decode_text_loop t kind d limit i r =
        (if kind = tlCharacter \<and> tl_scalar_count ?r > 1
         then text_literal_error tleMultipleCharacters i else decode_text_loop t kind d limit j ?r)"
      using True item by (subst decode_text_loop.simps) (simp add: Let_def)
    then have ok: "\<not> (kind = tlCharacter \<and> tl_scalar_count ?r > 1)"
        and rec: "tl_error (decode_text_loop t kind d limit j ?r) = tleNone"
      using "1.prems"(1) by (auto simp: text_literal_error_def split: if_splits)
    obtain x where x: "text_item d x (unat sc)" "x = take (j - i) (drop i t)" "i < j" "j \<le> limit"
      using decode_text_item_sound [OF item "1.prems"(2) True "1.prems"(4)] by blast
    obtain vs where vs: "text_body d (take (limit - j) (drop j t)) vs"
        "kind = tlCharacter \<longrightarrow> tl_scalar_count ?r + length vs = 1"
      using "1.IH" [OF True item refl refl refl ok rec] "1.prems" x ok by auto
    have "limit - i = (j - i) + (limit - j)" using x(3,4) by simp
    then have "take (limit - i) (drop i t) = x @ take (limit - j) (drop j t)"
      using x(2,3) by (simp only: take_add drop_drop) simp
    then show ?thesis using text_body.item [OF x(1) vs(1)] vs(2) by (intro exI [of _ "unat sc # vs"]) auto
  qed
qed

section \<open>Properties\<close>

lemma literal_body:
  assumes "t = d # body @ [d]"
  shows "take (length t - 1 - 1) (drop 1 t) = body" "length t - 1 \<le> length t" "1 \<le> length t - 1"
  using assms by simp_all

lemma decode_text_literal_loop:
  assumes "t = d # body @ [d]" "d = (if kind = tlString then quote else apostrophe)"
  shows "decode_text_literal t kind = decode_text_loop t kind d (length t - 1) 1 empty_decoded"
  using assms by (simp add: decode_text_literal_def)

lemma decode_text_literal_shape:
  assumes "tl_error (decode_text_literal t kind) = tleNone"
    "d = (if kind = tlString then quote else apostrophe)"
  shows "\<exists>body. t = d # body @ [d]"
proof -
  have len: "2 \<le> length t" "hd t = d" "last t = d"
    using assms by (auto simp: decode_text_literal_def text_literal_error_def Let_def split: if_splits)
  then obtain c cs where t: "t = c # cs" "cs \<noteq> []" by (cases t; cases "tl t") auto
  then have "cs = butlast cs @ [d]" using len by (metis append_butlast_last_id last_ConsR)
  then show ?thesis using t len(2) by auto
qed

lemma delimiter_small:
  "d = (if kind = tlString then quote else apostrophe) \<Longrightarrow> code d < 128"
  by simp

lemma decode_text_literal_iff:
  assumes d: "d = (if kind = tlString then quote else apostrophe)"
  shows "tl_error (decode_text_literal t kind) = tleNone \<longleftrightarrow>
    (\<exists>body vs. t = d # body @ [d] \<and> text_body d body vs \<and> (kind = tlCharacter \<longrightarrow> length vs = 1))"
proof
  assume ok: "tl_error (decode_text_literal t kind) = tleNone"
  then obtain body where t: "t = d # body @ [d]" using decode_text_literal_shape d by blast
  have "tl_error (decode_text_loop t kind d (length t - 1) 1 empty_decoded) = tleNone"
    using ok decode_text_literal_loop [OF t d] by simp
  from decode_text_loop_sound [OF this literal_body(2,3) [OF t] delimiter_small [OF d]]
  show "\<exists>body vs. t = d # body @ [d] \<and> text_body d body vs \<and> (kind = tlCharacter \<longrightarrow> length vs = 1)"
    using t unfolding literal_body(1) [OF t] by (auto simp: empty_decoded_def)
next
  assume "\<exists>body vs. t = d # body @ [d] \<and> text_body d body vs \<and> (kind = tlCharacter \<longrightarrow> length vs = 1)"
  then obtain body vs where t: "t = d # body @ [d]" and b: "text_body d body vs"
      "kind = tlCharacter \<longrightarrow> tl_scalar_count empty_decoded + length vs = 1"
    by (auto simp: empty_decoded_def)
  show "tl_error (decode_text_literal t kind) = tleNone"
    using decode_text_loop_complete [OF b(1) literal_body [OF t] delimiter_small [OF d] b(2)]
      decode_text_literal_loop [OF t d] by (simp add: extend_decoded_def empty_decoded_def)
qed

text \<open>
  C8: a complete text token decodes without an error exactly when it is a delimited body of the
  literal grammar: raw UTF-8 scalars other than the delimiter, a backslash or a line break, simple
  escapes, and Unicode escapes of one to six hexadecimal digits that name a scalar value. A
  character literal holds exactly one of them.
\<close>

theorem text_literal_grammar:
  "tl_error (decode_text_literal t kind) = tleNone \<longleftrightarrow>
    (\<exists>body vs. let d = (if kind = tlString then quote else apostrophe) in
       t = d # body @ [d] \<and> text_body d body vs \<and> (kind = tlCharacter \<longrightarrow> length vs = 1))"
  unfolding Let_def by (rule decode_text_literal_iff [OF refl])

theorem text_literal_grammar_witness:
  "tl_error (decode_text_literal (apostrophe # (backslash # ''n'') @ [apostrophe]) tlCharacter) = tleNone"
proof -
  have "text_body apostrophe ((backslash # ''n'') @ []) [unat (10 :: u32)]"
    by (intro text_body.intros text_item.simple) (simp add: decode_simple_escape_def)
  then show ?thesis
    unfolding text_literal_grammar Let_def by (intro exI [of _ "backslash # ''n''"] exI) auto
qed

text \<open>
  C9: the text a literal decodes to is what its grammar says: for a body spelling the scalars
  \<open>vs\<close> the returned UTF-8 is the well-formed encoding of \<open>vs\<close>, the scalar count is their number
  (the one \<open>utf8_scalar_count\<close> finds in it) and \<open>character\<close> is the last of them.
\<close>

theorem text_literal_value:
  assumes "text_body d body vs" "d = (if kind = tlString then quote else apostrophe)"
    and "kind = tlCharacter \<longrightarrow> length vs = 1"
    and "r = decode_text_literal (d # body @ [d]) kind"
  shows "encodes vs (tl_utf8 r) \<and> tl_scalar_count r = length vs \<and>
    utf8_scalar_count (tl_utf8 r) = Some (length vs) \<and>
    (vs \<noteq> [] \<longrightarrow> unat (tl_character r) = last vs)"
proof -
  let ?t = "d # body @ [d]"
  have "r = extend_decoded empty_decoded vs"
    using decode_text_loop_complete [OF assms(1) literal_body [OF refl] delimiter_small [OF assms(2)]]
      decode_text_literal_loop [OF refl assms(2)] assms(3,4) by (simp add: empty_decoded_def)
  then have r: "tl_utf8 r = encode_scalars vs" "tl_scalar_count r = length vs"
      "vs \<noteq> [] \<Longrightarrow> tl_character r = of_nat (last vs)"
    by (auto simp: extend_decoded_def empty_decoded_def)
  have ok: "list_all scalar_ok vs" by (rule text_body_scalars_ok [OF assms(1)])
  then have enc: "encodes vs (tl_utf8 r)" by (simp add: r encode_scalars_encodes)
  moreover have "utf8_scalar_count (tl_utf8 r) = Some (length vs)"
    using enc compiler_utf8.count_loop_iff [of 0 "tl_utf8 r" 0] by (auto simp: utf8_scalar_count_def)
  moreover have "unat (of_nat (last vs) :: u32) = last vs" if "vs \<noteq> []"
    using ok last_in_set [OF that] by (force simp: list_all_iff scalar_ok_def unat_of_nat)
  ultimately show ?thesis using r by auto
qed

theorem text_literal_value_witness:
  "\<exists>r. r = decode_text_literal (quote # (backslash # ''u{'' @ ''41'' @ ''}'') @ [quote]) tlString \<and>
     encodes [65] (tl_utf8 r) \<and> tl_scalar_count r = 1"
proof -
  have "text_item quote (backslash # ''u{'' @ ''41'' @ ''}'') 65"
    by (rule text_item.unicode) (simp_all add: is_hex_digit_code digit_value_def is_decimal_digit_def
        digits_value_def hex_digit_def scalar_ok_def)
  then have "text_body quote (backslash # ''u{'' @ ''41'' @ ''}'') [65]"
    using text_body.item [OF _ text_body.empty] by fastforce
  from text_literal_value [OF this, of tlString] show ?thesis by auto
qed

end
