(* ===== verification/Lexing.thy ===== *)
theory Lexing
  imports Tokens Diagnostics Text_Literals
begin

text \<open>
  The lexer (\<^verbatim>\<open>include/cloth/lexer/lexer.h\<close>, \<^verbatim>\<open>src/lexer/lexer.cc\<close>).
  \<open>Lexer\<close> is the class's state; its member functions are functions from a state to a result and the
  next state. Reading past the end of the input is undefined in C++: \<open>advance\<close> there sets the
  ghost flag \<open>lx_fault\<close>, and it is proved below that the flag is never set. The tokens are compared with a
  description of the language's vocabulary that uses none of the lexer's tables and loops.
\<close>

section \<open>State\<close>

record Token =
  tok_kind :: TokenKind
  tok_lexeme :: string
  tok_range :: SourceRange

record SourceFile =
  sf_display_path :: string
  sf_contents :: string

record Lexer =
  lx_file :: string
  lx_input :: string
  lx_current :: nat
  lx_line :: u32
  lx_column :: u32
  lx_previous_was_carriage_return :: bool
  lx_diagnostics :: DiagnosticEngine
  lx_fault :: bool

definition make_lexer :: "SourceFile \<Rightarrow> DiagnosticEngine \<Rightarrow> Lexer" where
  "make_lexer source diagnostics =
     \<lparr>lx_file = sf_display_path source, lx_input = sf_contents source, lx_current = 0, lx_line = 1,
      lx_column = 1, lx_previous_was_carriage_return = False, lx_diagnostics = diagnostics,
      lx_fault = False\<rparr>"

section \<open>Character classes and messages\<close>

definition is_digit :: "char \<Rightarrow> bool" where
  "is_digit c \<longleftrightarrow> 48 \<le> code c \<and> code c \<le> 57"

definition is_identifier_start :: "char \<Rightarrow> bool" where
  "is_identifier_start c \<longleftrightarrow>
     (97 \<le> code c \<and> code c \<le> 122) \<or> (65 \<le> code c \<and> code c \<le> 90) \<or> c = CHR ''_''"

definition is_identifier_continue :: "char \<Rightarrow> bool" where
  "is_identifier_continue c \<longleftrightarrow> is_identifier_start c \<or> is_digit c"

definition upper_hex_digit :: "nat \<Rightarrow> char" where
  "upper_hex_digit d = (if d < 10 then char_of (48 + d) else char_of (55 + d))"

definition describe_character :: "char \<Rightarrow> string" where
  "describe_character c =
     (if 32 \<le> code c \<and> code c \<le> 126 then [apostrophe, c, apostrophe]
      else ''byte 0x'' @ [upper_hex_digit (code c div 16), upper_hex_digit (code c mod 16)])"

definition quoted :: "string \<Rightarrow> string" where
  "quoted s = [apostrophe] @ s @ [apostrophe]"

definition report_error_at :: "SourceLocation \<Rightarrow> string \<Rightarrow> Lexer \<Rightarrow> Lexer" where
  "report_error_at location message st =
     st\<lparr>lx_diagnostics := error_at location message (lx_diagnostics st)\<rparr>"

definition report_text_literal_error ::
  "Token \<Rightarrow> TextLiteralKind \<Rightarrow> DiagnosticEngine \<Rightarrow> DiagnosticEngine" where
  "report_text_literal_error token kind diagnostics =
     (let decoded = decode_text_literal (tok_lexeme token) kind;
          literal_name = (if kind = tlString then ''string'' else ''character'');
          fail = (\<lambda>message. error_range (tok_range token) message diagnostics) in
      case tl_error decoded of
        tleNone \<Rightarrow> diagnostics
      | tleInvalidStructure \<Rightarrow> fail (''malformed '' @ literal_name @ '' literal'')
      | tleInvalidUtf8 \<Rightarrow> fail (literal_name @ '' literal is not valid UTF-8'')
      | tleUnknownEscape \<Rightarrow>
          fail (''unknown escape sequence'' @
            (if tl_error_offset decoded + 1 < length (tok_lexeme token)
             then [CHR '' '', backslash, tok_lexeme token ! (tl_error_offset decoded + 1)] else []))
      | tleInvalidUnicodeEscape \<Rightarrow> fail ''invalid Unicode escape sequence''
      | tleInvalidUnicodeScalar \<Rightarrow> fail ''Unicode escape does not name a scalar value''
      | tleEmptyCharacter \<Rightarrow> fail ''empty character literal''
      | tleMultipleCharacters \<Rightarrow> fail ''character literal must contain exactly one character'')"

section \<open>Reading characters\<close>

definition at_end :: "Lexer \<Rightarrow> bool" where
  "at_end st \<longleftrightarrow> lx_current st \<ge> length (lx_input st)"

definition peek :: "Lexer \<Rightarrow> nat \<Rightarrow> char" where
  "peek st lookahead =
     (if lookahead \<ge> length (lx_input st) - lx_current st then char_of (0 :: nat)
      else lx_input st ! (lx_current st + lookahead))"

definition advance :: "Lexer \<Rightarrow> char \<times> Lexer" where
  "advance st =
     (if lx_current st \<ge> length (lx_input st)
      then (char_of (0 :: nat), st\<lparr>lx_current := lx_current st + 1, lx_fault := True\<rparr>)
      else
        let c = lx_input st ! lx_current st;
            st = st\<lparr>lx_current := lx_current st + 1\<rparr> in
        if c = carriage_return then
          (c, st\<lparr>lx_line := lx_line st + 1, lx_column := 1,
                 lx_previous_was_carriage_return := True\<rparr>)
        else if c = line_feed then
          (c, st\<lparr>lx_line := (if \<not> lx_previous_was_carriage_return st then lx_line st + 1
                              else lx_line st),
                 lx_column := 1, lx_previous_was_carriage_return := False\<rparr>)
        else
          (c, st\<lparr>lx_column := lx_column st + 1, lx_previous_was_carriage_return := False\<rparr>))"

definition skip1 :: "Lexer \<Rightarrow> Lexer" where
  "skip1 st = snd (advance st)"

definition match :: "char \<Rightarrow> Lexer \<Rightarrow> bool \<times> Lexer" where
  "match expected st =
     (if at_end st \<or> peek st 0 \<noteq> expected then (False, st) else (True, skip1 st))"

definition current_location :: "Lexer \<Rightarrow> SourceLocation" where
  "current_location st =
     \<lparr>loc_file = lx_file st, loc_byte_offset = lx_current st, loc_line = lx_line st,
      loc_column = lx_column st\<rparr>"

definition make_token :: "TokenKind \<Rightarrow> nat \<Rightarrow> SourceLocation \<Rightarrow> Lexer \<Rightarrow> Token" where
  "make_token kind start location st =
     \<lparr>tok_kind = kind, tok_lexeme = substr (lx_input st) start (lx_current st - start),
      tok_range = \<lparr>range_begin = location, range_end = current_location st\<rparr>\<rparr>"

lemma skip1_input [simp]: "lx_input (skip1 st) = lx_input st" "lx_file (skip1 st) = lx_file st"
  by (simp_all add: skip1_def advance_def Let_def)

lemma skip1_current [simp]: "lx_current (skip1 st) = Suc (lx_current st)"
  by (simp add: skip1_def advance_def Let_def)

lemma skip1_diagnostics [simp]: "lx_diagnostics (skip1 st) = lx_diagnostics st"
  by (simp add: skip1_def advance_def Let_def)

lemma report_error_at_fields [simp]:
  "lx_input (report_error_at l m st) = lx_input st" "lx_file (report_error_at l m st) = lx_file st"
  "lx_current (report_error_at l m st) = lx_current st"
  by (simp_all add: report_error_at_def)

lemma peek_not_nul: "peek st k \<noteq> char_of (0 :: nat) \<Longrightarrow> lx_current st + k < length (lx_input st)"
  by (auto simp: peek_def split: if_splits)

lemma not_at_end: "\<not> at_end st \<longleftrightarrow> lx_current st < length (lx_input st)"
  by (auto simp: at_end_def)

section \<open>Scanning loops\<close>

lemma identifier_continue_nul: "\<not> is_identifier_continue (char_of (0 :: nat))"
  by (simp add: is_identifier_continue_def is_identifier_start_def is_digit_def char_code)

lemma digit_nul: "\<not> is_digit (char_of (0 :: nat))" "char_of (0 :: nat) \<noteq> CHR ''_''"
  by (simp_all add: is_digit_def char_code)

function skip_identifier :: "Lexer \<Rightarrow> Lexer" where
  "skip_identifier st =
     (if is_identifier_continue (peek st 0) then skip_identifier (skip1 st) else st)"
  by pat_completeness auto
termination
  by (relation "measure (\<lambda>st. length (lx_input st) - lx_current st)")
    (auto dest: peek_not_nul [OF contrapos_nn, OF identifier_continue_nul]
      simp: peek_def identifier_continue_nul split: if_splits)

function skip_digits :: "Lexer \<Rightarrow> Lexer" where
  "skip_digits st =
     (if is_digit (peek st 0) \<or> peek st 0 = CHR ''_'' then skip_digits (skip1 st) else st)"
  by pat_completeness auto
termination
  by (relation "measure (\<lambda>st. length (lx_input st) - lx_current st)")
    (auto simp: peek_def digit_nul split: if_splits)

function skip_line_comment :: "Lexer \<Rightarrow> Lexer" where
  "skip_line_comment st =
     (if \<not> at_end st \<and> peek st 0 \<noteq> carriage_return \<and> peek st 0 \<noteq> line_feed
      then skip_line_comment (skip1 st) else st)"
  by pat_completeness auto
termination
  by (relation "measure (\<lambda>st. length (lx_input st) - lx_current st)") (auto simp: at_end_def)

function skip_block_comment :: "Lexer \<Rightarrow> Lexer" where
  "skip_block_comment st =
     (if \<not> at_end st \<and> \<not> (peek st 0 = CHR ''*'' \<and> peek st 1 = CHR ''/'')
      then skip_block_comment (skip1 st) else st)"
  by pat_completeness auto
termination
  by (relation "measure (\<lambda>st. length (lx_input st) - lx_current st)") (auto simp: at_end_def)

declare skip_identifier.simps [simp del] skip_digits.simps [simp del]
  skip_line_comment.simps [simp del] skip_block_comment.simps [simp del]

text \<open>The contract all four loops share: they advance one character while their guard holds.\<close>

locale scan_loop =
  fixes guard :: "Lexer \<Rightarrow> bool" and loop :: "Lexer \<Rightarrow> Lexer"
  assumes loop_unfold: "loop st = (if guard st then loop (skip1 st) else st)"
    and guard_inside: "guard st \<Longrightarrow> lx_current st < length (lx_input st)"
begin

lemma loop_iterates:
  "\<exists>n. loop st = (skip1 ^^ n) st \<and> (\<forall>m < n. guard ((skip1 ^^ m) st)) \<and> \<not> guard (loop st)"
proof (induction "length (lx_input st) - lx_current st" arbitrary: st rule: less_induct)
  case less
  show ?case
  proof (cases "guard st")
    case True
    then have "length (lx_input (skip1 st)) - lx_current (skip1 st) < length (lx_input st) - lx_current st"
      using guard_inside by (simp add: diff_less_mono2)
    from less [OF this] obtain n where n: "loop (skip1 st) = (skip1 ^^ n) (skip1 st)"
        "\<forall>m < n. guard ((skip1 ^^ m) (skip1 st))" "\<not> guard (loop (skip1 st))"
      by blast
    have "guard ((skip1 ^^ m) st)" if "m < Suc n" for m
      using that n(2) True by (cases m) (auto simp: funpow_swap1)
    then show ?thesis
      using n True by (subst (1 2) loop_unfold) (auto simp: funpow_swap1 intro!: exI [of _ "Suc n"])
  next
    case False
    then show ?thesis by (subst (1 2) loop_unfold) (auto intro!: exI [of _ 0])
  qed
qed

lemma loop_stop: "\<not> guard (loop st)"
  using loop_iterates by blast

end

lemma skip1_funpow [simp]:
  "lx_input ((skip1 ^^ n) st) = lx_input st" "lx_file ((skip1 ^^ n) st) = lx_file st"
  "lx_current ((skip1 ^^ n) st) = lx_current st + n"
  "lx_diagnostics ((skip1 ^^ n) st) = lx_diagnostics st"
  by (induction n) simp_all

context scan_loop
begin

lemma loop_fields:
  "lx_input (loop st) = lx_input st" "lx_file (loop st) = lx_file st"
  "lx_diagnostics (loop st) = lx_diagnostics st" "lx_current st \<le> lx_current (loop st)"
  using loop_iterates [of st] by auto

end

interpretation identifier_loop: scan_loop "\<lambda>st. is_identifier_continue (peek st 0)" skip_identifier
  by unfold_locales (simp add: skip_identifier.simps,
    auto simp: peek_def identifier_continue_nul split: if_splits)

interpretation digits_loop: scan_loop "\<lambda>st. is_digit (peek st 0) \<or> peek st 0 = CHR ''_''" skip_digits
  by unfold_locales (simp add: skip_digits.simps, auto simp: peek_def digit_nul split: if_splits)

interpretation line_comment_loop: scan_loop
  "\<lambda>st. \<not> at_end st \<and> peek st 0 \<noteq> carriage_return \<and> peek st 0 \<noteq> line_feed" skip_line_comment
  by unfold_locales (simp add: skip_line_comment.simps, simp add: at_end_def)

interpretation block_comment_loop: scan_loop
  "\<lambda>st. \<not> at_end st \<and> \<not> (peek st 0 = CHR ''*'' \<and> peek st 1 = CHR ''/'')" skip_block_comment
  by unfold_locales (simp add: skip_block_comment.simps, simp add: at_end_def)

lemmas loop_fields [simp] = identifier_loop.loop_fields digits_loop.loop_fields
  line_comment_loop.loop_fields block_comment_loop.loop_fields

section \<open>Ignored text\<close>

text \<open>
  One iteration of \<open>skip_ignored\<close>: the state after it and whether the loop goes on.
\<close>

definition skip_ignored_step :: "Lexer \<Rightarrow> Lexer \<times> bool" where
  "skip_ignored_step st =
     (let c = peek st 0 in
      if c = CHR '' '' \<or> c = char_of (9 :: nat) \<or> c = carriage_return \<or> c = line_feed then
        (skip1 st, True)
      else if c = CHR ''/'' then
        if peek st 1 = CHR ''/'' then (skip_line_comment (skip1 (skip1 st)), True)
        else if peek st 1 = CHR ''*'' then
          let comment_location = current_location st;
              st = skip_block_comment (skip1 (skip1 st)) in
          if at_end st then
            (report_error_at comment_location ''unterminated block comment'' st, False)
          else (skip1 (skip1 st), True)
        else (st, False)
      else (st, False))"

lemma skip_ignored_step_fields:
  "lx_input (fst (skip_ignored_step st)) = lx_input st"
  "lx_file (fst (skip_ignored_step st)) = lx_file st"
  "lx_current st \<le> lx_current (fst (skip_ignored_step st))"
  "snd (skip_ignored_step st) \<Longrightarrow> lx_current st < lx_current (fst (skip_ignored_step st))"
  using line_comment_loop.loop_fields(4) [of "skip1 (skip1 st)"]
    block_comment_loop.loop_fields(4) [of "skip1 (skip1 st)"]
  by (simp_all add: skip_ignored_step_def Let_def split: if_splits) auto

function skip_ignored :: "Lexer \<Rightarrow> Lexer" where
  "skip_ignored st =
     (if at_end st then st
      else
        let r = skip_ignored_step st in
        if snd r then skip_ignored (fst r) else fst r)"
  by pat_completeness auto
termination
  by (relation "measure (\<lambda>st. length (lx_input st) - lx_current st)")
    (auto simp: at_end_def skip_ignored_step_fields(1) intro!: diff_less_mono2
      dest: skip_ignored_step_fields(4))

declare skip_ignored.simps [simp del]

section \<open>Tokens\<close>

definition scan_identifier :: "nat \<Rightarrow> SourceLocation \<Rightarrow> Lexer \<Rightarrow> Token \<times> Lexer" where
  "scan_identifier start location st =
     (let st = skip_identifier st;
          lexeme = substr (lx_input st) start (lx_current st - start) in
      (\<lparr>tok_kind = identifier_token_kind lexeme, tok_lexeme = lexeme,
        tok_range = \<lparr>range_begin = location, range_end = current_location st\<rparr>\<rparr>, st))"

definition scan_number_characters :: "nat \<Rightarrow> Lexer \<Rightarrow> Lexer" where
  "scan_number_characters start st =
     (let base_candidate = (lx_input st ! start = CHR ''0'' \<and>
            peek st 0 \<in> {CHR ''b'', CHR ''B'', CHR ''o'', CHR ''O'', CHR ''x'', CHR ''X''}) in
      if base_candidate then skip_identifier (skip1 st)
      else
        let st = skip_digits st;
            st = (if peek st 0 = CHR ''.'' \<and> is_digit (peek st 1) then skip_digits (skip1 st) else st) in
        if peek st 0 = CHR ''e'' \<or> peek st 0 = CHR ''E'' then
          let st = skip1 st;
              st = (if peek st 0 = CHR ''+'' \<or> peek st 0 = CHR ''-'' then skip1 st else st) in
          skip_identifier st
        else skip_identifier st)"

definition numeric_error_message :: "string \<Rightarrow> NumericLiteralSpelling \<Rightarrow> string" where
  "numeric_error_message lexeme spelling =
     (case sp_error spelling of
        nleNone \<Rightarrow> []
      | nleInvalidCore \<Rightarrow> ''invalid numeric literal '' @ quoted lexeme
      | nleInvalidSuffix \<Rightarrow> ''invalid numeric suffix '' @ quoted (sp_suffix spelling)
      | nleIntegerSuffixOnFloatingCore \<Rightarrow>
          ''integer suffix '' @ quoted (sp_suffix spelling) @
          '' cannot be applied to a floating literal''
      | nleMissingBaseDigits \<Rightarrow> ''numeric base prefix requires digits in '' @ quoted lexeme
      | nleInvalidBaseDigit \<Rightarrow>
          ''invalid digit in base-'' @ decimal_of_nat (base_radix (sp_base spelling)) @
          '' numeric literal '' @ quoted lexeme
      | nleInvalidBasePrefix \<Rightarrow> ''numeric base prefix must be lowercase in '' @ quoted lexeme
      | nleUnknownBasePrefix \<Rightarrow> ''unknown numeric base prefix in '' @ quoted lexeme
      | nleInvalidSeparator \<Rightarrow> ''invalid digit separator in numeric literal '' @ quoted lexeme
      | nleMissingExponentDigits \<Rightarrow> ''numeric exponent requires digits in '' @ quoted lexeme
      | nleFloatingSuffixOnNonDecimalCore \<Rightarrow>
          ''floating suffix '' @ quoted (sp_suffix spelling) @
          '' cannot be applied to a base-prefixed integer literal'')"

definition scan_number :: "nat \<Rightarrow> SourceLocation \<Rightarrow> Lexer \<Rightarrow> Token \<times> Lexer" where
  "scan_number start location st =
     (let st = scan_number_characters start st;
          token = make_token kIntegerLiteral start location st;
          spelling = parse_numeric_literal_spelling (tok_lexeme token);
          st = (if sp_error spelling = nleNone then st
                else st\<lparr>lx_diagnostics := error_range (tok_range token)
                          (numeric_error_message (tok_lexeme token) spelling) (lx_diagnostics st)\<rparr>) in
      (token\<lparr>tok_kind := (if sp_is_floating spelling then kFloatLiteral else kIntegerLiteral)\<rparr>, st))"

text \<open>
  The loops of \<open>scan_string\<close> and \<open>scan_character\<close> read up to the closing delimiter; the flag says
  whether it was found and consumed.
\<close>

function scan_quoted :: "char \<Rightarrow> Lexer \<Rightarrow> bool \<times> Lexer" where
  "scan_quoted delimiter st =
     (if at_end st then (False, st)
      else if peek st 0 = delimiter then (True, skip1 st)
      else if peek st 0 = carriage_return \<or> peek st 0 = line_feed then (False, st)
      else if peek st 0 = backslash then
        let st = skip1 st in
        if at_end st \<or> peek st 0 = carriage_return \<or> peek st 0 = line_feed then (False, st)
        else scan_quoted delimiter (skip1 st)
      else scan_quoted delimiter (skip1 st))"
  by pat_completeness auto
termination
  by (relation "measure (\<lambda>(_, st). length (lx_input st) - lx_current st)")
    (auto simp: at_end_def)

declare scan_quoted.simps [simp del]

definition scan_text :: "char \<Rightarrow> TokenKind \<Rightarrow> TextLiteralKind \<Rightarrow> string \<Rightarrow> nat \<Rightarrow> SourceLocation \<Rightarrow>
    Lexer \<Rightarrow> Token \<times> Lexer" where
  "scan_text delimiter kind text_kind unterminated start location st =
     (case scan_quoted delimiter st of (terminated, st) \<Rightarrow>
        let token = make_token kind start location st in
        if terminated then
          (token, st\<lparr>lx_diagnostics := report_text_literal_error token text_kind (lx_diagnostics st)\<rparr>)
        else (token, report_error_at location unterminated st))"

definition scan_string :: "nat \<Rightarrow> SourceLocation \<Rightarrow> Lexer \<Rightarrow> Token \<times> Lexer" where
  "scan_string = scan_text quote kStringLiteral tlString ''unterminated string literal''"

definition scan_character :: "nat \<Rightarrow> SourceLocation \<Rightarrow> Lexer \<Rightarrow> Token \<times> Lexer" where
  "scan_character = scan_text apostrophe kCharacterLiteral tlCharacter ''unterminated character literal''"

text \<open>\<^verbatim>\<open>match(a) ? ka : k\<close> and \<^verbatim>\<open>match(a) ? ka : match(b) ? kb : k\<close>.\<close>

definition match1 :: "char \<Rightarrow> TokenKind \<Rightarrow> TokenKind \<Rightarrow> Lexer \<Rightarrow> TokenKind \<times> Lexer" where
  "match1 a ka k st = (case match a st of (True, st) \<Rightarrow> (ka, st) | (False, st) \<Rightarrow> (k, st))"

definition match2 :: "char \<Rightarrow> TokenKind \<Rightarrow> char \<Rightarrow> TokenKind \<Rightarrow> TokenKind \<Rightarrow> Lexer \<Rightarrow> TokenKind \<times> Lexer"
  where
  "match2 a ka b kb k st =
     (case match a st of (True, st) \<Rightarrow> (ka, st) | (False, st) \<Rightarrow> match1 b kb k st)"

text \<open>
  The punctuation cases of the switch in \<open>lex\<close>: the kind of the token that starts with
  \<open>character\<close>, or \<open>None\<close> for the default case.
\<close>

definition scan_punctuation :: "char \<Rightarrow> Lexer \<Rightarrow> (TokenKind \<times> Lexer) option" where
  "scan_punctuation c st =
     (if c = CHR ''('' then Some (kLeftParen, st)
      else if c = CHR '')'' then Some (kRightParen, st)
      else if c = CHR ''{'' then Some (kLeftBrace, st)
      else if c = CHR ''}'' then Some (kRightBrace, st)
      else if c = CHR ''['' then Some (kLeftBracket, st)
      else if c = CHR '']'' then Some (kRightBracket, st)
      else if c = CHR '','' then Some (kComma, st)
      else if c = CHR '';'' then Some (kSemicolon, st)
      else if c = CHR '':'' then Some (match1 (CHR '':'') kColonColon kColon st)
      else if c = CHR ''.'' then Some (kDot, st)
      else if c = CHR ''?'' then
        Some (match2 (CHR ''?'') kQuestionQuestion (CHR ''.'') kQuestionDot kQuestion st)
      else if c = CHR ''+'' then Some (match2 (CHR ''+'') kPlusPlus (CHR ''='') kPlusEqual kPlus st)
      else if c = CHR ''-'' then Some (match2 (CHR ''-'') kMinusMinus (CHR ''='') kMinusEqual kMinus st)
      else if c = CHR ''*'' then Some (match1 (CHR ''='') kStarEqual kStar st)
      else if c = CHR ''/'' then Some (match1 (CHR ''='') kSlashEqual kSlash st)
      else if c = CHR ''%'' then Some (match1 (CHR ''='') kPercentEqual kPercent st)
      else if c = CHR ''='' then Some (match1 (CHR ''='') kEqualEqual kEqual st)
      else if c = CHR ''!'' then Some (match1 (CHR ''='') kBangEqual kBang st)
      else if c = CHR ''<'' then
        (case match (CHR ''<'') st of
           (True, st) \<Rightarrow> Some (match1 (CHR ''='') kShiftLeftEqual kShiftLeft st)
         | (False, st) \<Rightarrow> Some (match1 (CHR ''='') kLessEqual kLess st))
      else if c = CHR ''>'' then
        (case match (CHR ''>'') st of
           (True, st) \<Rightarrow> Some (match1 (CHR ''='') kShiftRightEqual kShiftRight st)
         | (False, st) \<Rightarrow> Some (match1 (CHR ''='') kGreaterEqual kGreater st))
      else if c = CHR ''&'' then
        Some (match2 (CHR ''&'') kAmpersandAmpersand (CHR ''='') kAmpersandEqual kAmpersand st)
      else if c = CHR ''|'' then Some (match2 (CHR ''|'') kPipePipe (CHR ''='') kPipeEqual kPipe st)
      else if c = CHR ''^'' then Some (match1 (CHR ''='') kCaretEqual kCaret st)
      else if c = CHR ''~'' then Some (kTilde, st)
      else None)"

text \<open>One token, from its first character on; \<open>None\<close> when the character starts no token.\<close>

definition scan_token :: "Lexer \<Rightarrow> Token option \<times> Lexer" where
  "scan_token st =
     (let start = lx_current st;
          location = current_location st in
      case advance st of (c, st) \<Rightarrow>
        if is_identifier_start c then
          (case scan_identifier start location st of (token, st) \<Rightarrow> (Some token, st))
        else if is_digit c then
          (case scan_number start location st of (token, st) \<Rightarrow> (Some token, st))
        else if c = quote then
          (case scan_string start location st of (token, st) \<Rightarrow> (Some token, st))
        else if c = apostrophe then
          (case scan_character start location st of (token, st) \<Rightarrow> (Some token, st))
        else
          (case scan_punctuation c st of
             Some (kind, st) \<Rightarrow> (Some (make_token kind start location st), st)
           | None \<Rightarrow>
               (None, report_error_at location (''unexpected character '' @ describe_character c) st)))"

section \<open>Moves\<close>

text \<open>
  Every operation of the lexer advances some characters, stays inside the input when it starts
  there, and only appends to the diagnostics.
\<close>

definition engine_extends :: "DiagnosticEngine \<Rightarrow> DiagnosticEngine \<Rightarrow> bool" where
  "engine_extends e e' \<longleftrightarrow> (\<exists>new. eng_diagnostics e' = eng_diagnostics e @ new) \<and>
     (eng_has_errors e \<longrightarrow> eng_has_errors e') \<and> (engine_ok e \<longrightarrow> engine_ok e')"

definition moves :: "Lexer \<Rightarrow> Lexer \<Rightarrow> bool" where
  "moves st st' \<longleftrightarrow>
     (\<exists>n e. st' = ((skip1 ^^ n) st)\<lparr>lx_diagnostics := e\<rparr> \<and> engine_extends (lx_diagnostics st) e \<and>
        (lx_current st \<le> length (lx_input st) \<longrightarrow> lx_current st + n \<le> length (lx_input st)))"

lemma engine_extends_refl [simp]: "engine_extends e e"
  by (simp add: engine_extends_def)

lemma engine_extends_trans: "engine_extends a b \<Longrightarrow> engine_extends b c \<Longrightarrow> engine_extends a c"
  by (auto simp: engine_extends_def)

lemma engine_extends_report [simp]: "engine_extends e (report_range s r m e)"
  by (simp add: engine_extends_def)

lemma skip1_update: "skip1 (st\<lparr>lx_diagnostics := e\<rparr>) = (skip1 st)\<lparr>lx_diagnostics := e\<rparr>"
  by (simp add: skip1_def advance_def Let_def)

lemma skip1_funpow_update: "(skip1 ^^ n) (st\<lparr>lx_diagnostics := e\<rparr>) = ((skip1 ^^ n) st)\<lparr>lx_diagnostics := e\<rparr>"
  by (induction n) (simp_all add: skip1_update)

lemma moves_refl [simp]: "moves st st"
  unfolding moves_def by (intro exI [of _ 0] exI [of _ "lx_diagnostics st"]) simp

lemma moves_trans:
  assumes "moves a b" "moves b c" shows "moves a c"
proof -
  obtain n e where n: "b = ((skip1 ^^ n) a)\<lparr>lx_diagnostics := e\<rparr>" "engine_extends (lx_diagnostics a) e"
      "lx_current a \<le> length (lx_input a) \<longrightarrow> lx_current a + n \<le> length (lx_input a)"
    using assms(1) by (auto simp: moves_def)
  obtain m e' where m: "c = ((skip1 ^^ m) b)\<lparr>lx_diagnostics := e'\<rparr>" "engine_extends (lx_diagnostics b) e'"
      "lx_current b \<le> length (lx_input b) \<longrightarrow> lx_current b + m \<le> length (lx_input b)"
    using assms(2) by (auto simp: moves_def)
  have "c = ((skip1 ^^ (m + n)) a)\<lparr>lx_diagnostics := e'\<rparr>"
    by (simp add: m(1) n(1) skip1_funpow_update funpow_add)
  moreover have "engine_extends (lx_diagnostics a) e'"
    using n(1,2) m(2) engine_extends_trans by simp
  moreover have "lx_current a \<le> length (lx_input a) \<longrightarrow> lx_current a + (m + n) \<le> length (lx_input a)"
    using n m by (simp add: ac_simps)
  ultimately show ?thesis unfolding moves_def by blast
qed

lemma moves_skip1: "lx_current st < length (lx_input st) \<Longrightarrow> moves st (skip1 st)"
  unfolding moves_def by (intro exI [of _ 1] exI [of _ "lx_diagnostics st"]) simp

lemma moves_diagnostics:
  "engine_extends (lx_diagnostics st) e \<Longrightarrow> moves st (st\<lparr>lx_diagnostics := e\<rparr>)"
  unfolding moves_def by (intro exI [of _ 0] exI [of _ e]) simp

lemma moves_report [simp]: "moves st (report_error_at l m st)"
  by (simp add: report_error_at_def engine_defs moves_diagnostics)

lemma moves_fields:
  assumes "moves st st'"
  shows "lx_input st' = lx_input st" "lx_file st' = lx_file st" "lx_current st \<le> lx_current st'"
    "lx_current st \<le> length (lx_input st) \<Longrightarrow> lx_current st' \<le> length (lx_input st)"
    "engine_extends (lx_diagnostics st) (lx_diagnostics st')"
  using assms by (auto simp: moves_def)

context scan_loop
begin

lemma loop_moves: "moves st (loop st)"
proof -
  obtain n where n: "loop st = (skip1 ^^ n) st" "\<forall>m < n. guard ((skip1 ^^ m) st)"
    using loop_iterates by blast
  have "lx_current st + n \<le> length (lx_input st)" if "lx_current st \<le> length (lx_input st)"
  proof (cases n)
    case (Suc m)
    then show ?thesis using guard_inside [of "(skip1 ^^ m) st"] n(2) by simp
  qed (use that in simp)
  then show ?thesis
    unfolding moves_def n(1) by (intro exI [of _ n] exI [of _ "lx_diagnostics st"]) simp
qed

end

lemmas loop_moves = identifier_loop.loop_moves digits_loop.loop_moves
  line_comment_loop.loop_moves block_comment_loop.loop_moves

lemma moves_peek:
  "peek st 0 = c \<Longrightarrow> c \<noteq> char_of (0 :: nat) \<Longrightarrow> moves st (skip1 st)"
  "peek st 1 = c \<Longrightarrow> c \<noteq> char_of (0 :: nat) \<Longrightarrow> moves st (skip1 (skip1 st))"
proof -
  show "peek st 0 = c \<Longrightarrow> c \<noteq> char_of (0 :: nat) \<Longrightarrow> moves st (skip1 st)"
    using peek_not_nul [of st 0] by (auto intro: moves_skip1)
  show "peek st 1 = c \<Longrightarrow> c \<noteq> char_of (0 :: nat) \<Longrightarrow> moves st (skip1 (skip1 st))"
    using peek_not_nul [of st 1] by (auto intro!: moves_trans [OF moves_skip1 moves_skip1])
qed

lemma char_not_nul [simp]:
  "carriage_return \<noteq> char_of (0 :: nat)" "line_feed \<noteq> char_of (0 :: nat)"
  "backslash \<noteq> char_of (0 :: nat)" "quote \<noteq> char_of (0 :: nat)" "apostrophe \<noteq> char_of (0 :: nat)"
  by (simp_all add: char_code)

lemma char_literal_not_nul [simp]: "code c \<noteq> 0 \<Longrightarrow> c \<noteq> char_of (0 :: nat)"
  by (simp add: char_code)

lemma moves_skip_ignored_step: "\<not> at_end st \<Longrightarrow> moves st (fst (skip_ignored_step st))"
proof -
  assume ne: "\<not> at_end st"
  then have m1: "moves st (skip1 st)" by (simp add: not_at_end moves_skip1)
  have m2: "moves st (skip1 (skip1 st))" if "peek st 1 = CHR ''/'' \<or> peek st 1 = CHR ''*''"
    using that moves_peek(2) [of st] by fastforce
  have blk: "moves b (skip1 (skip1 b))" if "b = skip_block_comment (skip1 (skip1 st))" "\<not> at_end b" for b
  proof -
    have "peek b 1 = CHR ''/''"
      using block_comment_loop.loop_stop [of "skip1 (skip1 st)"] that by auto
    then show ?thesis by (rule moves_peek) simp
  qed
  show ?thesis
    using m1 m2 blk [OF refl]
      moves_trans [OF m2 line_comment_loop.loop_moves] moves_trans [OF m2 block_comment_loop.loop_moves]
    by (auto simp: skip_ignored_step_def Let_def intro: moves_trans)
qed

lemma moves_skip_ignored: "moves st (skip_ignored st)"
proof (induction st rule: skip_ignored.induct)
  case (1 st)
  have IH: "moves (fst (skip_ignored_step st)) (skip_ignored (fst (skip_ignored_step st)))"
    if "\<not> at_end st" "snd (skip_ignored_step st)"
    using 1 that by blast
  show ?case
    using moves_trans [OF moves_skip_ignored_step [of st] IH] moves_skip_ignored_step [of st]
    by (subst skip_ignored.simps) (simp add: Let_def)
qed

lemma moves_scan_identifier: "moves st (snd (scan_identifier start l st))"
  by (simp add: scan_identifier_def Let_def loop_moves)

lemma moves_scan_number_characters: "moves st (scan_number_characters start st)"
proof -
  have base: "moves st (skip_identifier (skip1 st))"
    if "peek st 0 \<in> {CHR ''b'', CHR ''B'', CHR ''o'', CHR ''O'', CHR ''x'', CHR ''X''}" for st
    using that moves_trans [OF moves_peek(1) identifier_loop.loop_moves, of st] by fastforce
  have frac: "moves st (skip_digits (skip1 st))" if "peek st 0 = CHR ''.''" for st
    using that moves_trans [OF moves_peek(1) digits_loop.loop_moves, of st] by fastforce
  have sign: "moves st (if peek st 0 = CHR ''+'' \<or> peek st 0 = CHR ''-'' then skip1 st else st)" for st
    using moves_peek(1) [of st] by fastforce
  have expo: "moves st (skip1 st)" if "peek st 0 = CHR ''e'' \<or> peek st 0 = CHR ''E''" for st
    using that moves_peek(1) [of st] by fastforce
  let ?d = "skip_digits st"
  let ?f = "if peek ?d 0 = CHR ''.'' \<and> is_digit (peek ?d 1) then skip_digits (skip1 ?d) else ?d"
  have f: "moves st ?f"
    using digits_loop.loop_moves [of st] frac [of ?d] by (auto intro: moves_trans)
  show ?thesis
    unfolding scan_number_characters_def Let_def
    using base f moves_trans [OF f moves_trans [OF expo moves_trans [OF sign identifier_loop.loop_moves]]]
      moves_trans [OF f identifier_loop.loop_moves]
    by (simp split: if_split)
qed

lemma moves_scan_number: "moves st (snd (scan_number start l st))"
  using moves_scan_number_characters [of st start]
  by (auto simp: scan_number_def Let_def engine_defs intro!: moves_trans [OF _ moves_diagnostics])

lemma moves_scan_quoted: "moves st (snd (scan_quoted d st))"
proof (induction d st rule: scan_quoted.induct)
  case (1 d st)
  have m1: "moves st (skip1 st)" if "\<not> at_end st" for st
    using that by (simp add: not_at_end moves_skip1)
  show ?case
    using 1 m1 moves_trans [OF m1 m1]
    by (subst scan_quoted.simps) (simp add: Let_def, meson moves_trans)
qed

lemma engine_extends_text_error: "engine_extends e (report_text_literal_error token k e)"
  by (simp add: report_text_literal_error_def Let_def engine_defs split: TextLiteralError.split)

lemma moves_scan_text: "moves st (snd (scan_text d k tk m start l st))"
  using moves_scan_quoted [of st d] moves_diagnostics engine_extends_text_error moves_report
  by (auto simp: scan_text_def Let_def split: prod.split intro: moves_trans)

lemma moves_match: "moves st (snd (match c st))"
  by (auto simp: match_def not_at_end intro!: moves_skip1)

lemma moves_match1: "moves st (snd (match1 a ka k st))"
  using moves_match [of st a] by (auto simp: match1_def split: prod.split bool.split)

lemma moves_match2: "moves st (snd (match2 a ka b kb k st))"
  using moves_match [of st a] moves_match1 [of _ b kb k]
  by (auto simp: match2_def split: prod.split bool.split intro: moves_trans)

lemma moves_match_nested:
  "pred_option (\<lambda>p. moves st (snd p))
     (case match d st of (True, s) \<Rightarrow> Some (match1 e k1 k2 s) | (False, s) \<Rightarrow> Some (match1 e k3 k4 s))"
proof -
  obtain b s where bs: "match d st = (b, s)" by (cases "match d st")
  then have "moves st s" using moves_match [of st d] by simp
  then show ?thesis using moves_trans [OF _ moves_match1] bs by (cases b) simp_all
qed

lemma moves_scan_punctuation: "pred_option (\<lambda>p. moves st (snd p)) (scan_punctuation c st)"
  unfolding scan_punctuation_def
  by (simp add: moves_match1 moves_match2 moves_match_nested split: if_split)

lemma scan_token_eq:
  "scan_token st =
     (let c = fst (advance st); start = lx_current st; location = current_location st; s = skip1 st in
      if is_identifier_start c then map_prod Some id (scan_identifier start location s)
      else if is_digit c then map_prod Some id (scan_number start location s)
      else if c = quote then map_prod Some id (scan_string start location s)
      else if c = apostrophe then map_prod Some id (scan_character start location s)
      else
        (case scan_punctuation c s of
           Some p \<Rightarrow> (Some (make_token (fst p) start location (snd p)), snd p)
         | None \<Rightarrow>
             (None, report_error_at location (''unexpected character '' @ describe_character c) s)))"
  by (simp add: scan_token_def skip1_def Let_def map_prod_def split: prod.split option.split)

lemma moves_scan_token: "moves (skip1 st) (snd (scan_token st))"
  using moves_scan_punctuation [of "skip1 st" "fst (advance st)"]
  unfolding scan_token_eq Let_def
  by (simp add: moves_scan_identifier moves_scan_number moves_scan_text scan_string_def
      scan_character_def split: if_split option.split) auto

section \<open>The lexer\<close>

lemma scan_token_progress:
  "\<not> at_end st \<Longrightarrow> lx_input (snd (scan_token st)) = lx_input st"
  "\<not> at_end st \<Longrightarrow> lx_current st < lx_current (snd (scan_token st))"
  using moves_fields(1,3) [OF moves_scan_token [of st]] by simp_all

function lex_loop :: "Lexer \<Rightarrow> Token list \<Rightarrow> Token list \<times> Lexer" where
  "lex_loop st tokens =
     (let st = skip_ignored st in
      if at_end st then (tokens @ [make_token kEof (lx_current st) (current_location st) st], st)
      else
        case scan_token st of
          (Some token, st) \<Rightarrow> lex_loop st (tokens @ [token])
        | (None, st) \<Rightarrow> lex_loop st tokens)"
  by pat_completeness auto
termination
proof (relation "measure (\<lambda>(st, _). length (lx_input st) - lx_current st)", goal_cases)
  case 1
  show ?case by simp
next
  case (2 st tokens x)
  then show ?case
    using moves_fields(1,3) [OF moves_skip_ignored [of st]] scan_token_progress [of x]
    by (cases "scan_token x") (auto simp: not_at_end)
next
  case (3 st tokens x)
  then show ?case
    using moves_fields(1,3) [OF moves_skip_ignored [of st]] scan_token_progress [of x]
    by (cases "scan_token x") (auto simp: not_at_end)
qed

declare lex_loop.simps [simp del]

definition lex :: "SourceFile \<Rightarrow> DiagnosticEngine \<Rightarrow> Token list \<times> Lexer" where
  "lex source diagnostics = lex_loop (make_lexer source diagnostics) []"

section \<open>Positions\<close>

text \<open>
  The line and column of an offset, read off the text before it: a carriage return ends a line, and
  so does a line feed that does not follow one.
\<close>

definition is_break :: "string \<Rightarrow> nat \<Rightarrow> bool" where
  "is_break p i \<longleftrightarrow> p ! i = carriage_return \<or>
     (p ! i = line_feed \<and> \<not> (0 < i \<and> p ! (i - 1) = carriage_return))"

definition line_at :: "string \<Rightarrow> nat" where
  "line_at p = 1 + length (filter (is_break p) [0..<length p])"

definition column_at :: "string \<Rightarrow> nat" where
  "column_at p = 1 + length (takeWhile (\<lambda>c. c \<noteq> carriage_return \<and> c \<noteq> line_feed) (rev p))"

definition location_at :: "string \<Rightarrow> string \<Rightarrow> nat \<Rightarrow> SourceLocation" where
  "location_at file input offset =
     \<lparr>loc_file = file, loc_byte_offset = offset, loc_line = of_nat (line_at (take offset input)),
      loc_column = of_nat (column_at (take offset input))\<rparr>"

definition ends_in_cr :: "string \<Rightarrow> bool" where
  "ends_in_cr p \<longleftrightarrow> p \<noteq> [] \<and> last p = carriage_return"

lemma line_at_Nil [simp]: "line_at [] = 1" "column_at [] = 1" "\<not> ends_in_cr []"
  by (simp_all add: line_at_def column_at_def ends_in_cr_def)

lemma cr_lf [simp]: "line_feed \<noteq> carriage_return" "carriage_return \<noteq> line_feed"
  by (simp_all add: char_code)

lemma line_at_snoc:
  "line_at (p @ [c]) = line_at p +
     (if c = carriage_return \<or> (c = line_feed \<and> \<not> ends_in_cr p) then 1 else 0)"
proof -
  have "filter (is_break (p @ [c])) [0..<length p] = filter (is_break p) [0..<length p]"
    by (intro filter_cong) (auto simp: is_break_def nth_append)
  moreover have "is_break (p @ [c]) (length p) \<longleftrightarrow>
      c = carriage_return \<or> (c = line_feed \<and> \<not> ends_in_cr p)"
    by (cases p rule: rev_cases) (auto simp: is_break_def ends_in_cr_def nth_append)
  ultimately show ?thesis by (simp add: line_at_def)
qed

lemma column_at_snoc:
  "column_at (p @ [c]) = (if c = carriage_return \<or> c = line_feed then 1 else column_at p + 1)"
  by (simp add: column_at_def)

lemma ends_in_cr_snoc: "ends_in_cr (p @ [c]) \<longleftrightarrow> c = carriage_return"
  by (simp add: ends_in_cr_def)

text \<open>The lexer's invariant.\<close>

definition lex_ok :: "Lexer \<Rightarrow> bool" where
  "lex_ok st \<longleftrightarrow> lx_current st \<le> length (lx_input st) \<and> \<not> lx_fault st \<and>
     current_location st = location_at (lx_file st) (lx_input st) (lx_current st) \<and>
     lx_previous_was_carriage_return st = ends_in_cr (take (lx_current st) (lx_input st))"

lemma lex_ok_make [simp]: "lex_ok (make_lexer source e)"
  by (simp add: lex_ok_def make_lexer_def current_location_def location_at_def)

lemma lex_ok_skip1:
  assumes "lex_ok st" "lx_current st < length (lx_input st)"
  shows "lex_ok (skip1 st)"
proof -
  have "take (Suc (lx_current st)) (lx_input st) =
      take (lx_current st) (lx_input st) @ [lx_input st ! lx_current st]"
    using assms(2) by (rule take_Suc_conv_app_nth)
  then show ?thesis
    using assms
    by (simp add: lex_ok_def current_location_def location_at_def skip1_def advance_def Let_def
        line_at_snoc column_at_snoc ends_in_cr_snoc)
qed

lemma lex_ok_funpow:
  "lex_ok st \<Longrightarrow> lx_current st + n \<le> length (lx_input st) \<Longrightarrow> lex_ok ((skip1 ^^ n) st)"
  by (induction n) (auto intro: lex_ok_skip1)

lemma lex_ok_update [simp]: "lex_ok (st\<lparr>lx_diagnostics := e\<rparr>) = lex_ok st"
  by (simp add: lex_ok_def current_location_def)

lemma lex_ok_moves: "lex_ok st \<Longrightarrow> moves st st' \<Longrightarrow> lex_ok st'"
  by (auto simp: moves_def lex_ok_funpow) (simp add: lex_ok_def)

section \<open>Tokens and their positions\<close>

definition tok_begin :: "Token \<Rightarrow> nat" where
  "tok_begin t = loc_byte_offset (range_begin (tok_range t))"

definition tok_end :: "Token \<Rightarrow> nat" where
  "tok_end t = loc_byte_offset (range_end (tok_range t))"

definition token_placed :: "string \<Rightarrow> string \<Rightarrow> Token \<Rightarrow> bool" where
  "token_placed file input t \<longleftrightarrow>
     tok_begin t \<le> tok_end t \<and> tok_end t \<le> length input \<and>
     tok_lexeme t = substr input (tok_begin t) (tok_end t - tok_begin t) \<and>
     range_begin (tok_range t) = location_at file input (tok_begin t) \<and>
     range_end (tok_range t) = location_at file input (tok_end t)"

fun tokens_from :: "nat \<Rightarrow> Token list \<Rightarrow> bool" where
  "tokens_from i [] \<longleftrightarrow> True"
| "tokens_from i (t # ts) \<longleftrightarrow> i \<le> tok_begin t \<and> tok_begin t < tok_end t \<and> tokens_from (tok_end t) ts"

definition token_between :: "Lexer \<Rightarrow> Lexer \<Rightarrow> Token \<Rightarrow> bool" where
  "token_between st st' t \<longleftrightarrow>
     tok_range t = \<lparr>range_begin = current_location st, range_end = current_location st'\<rparr> \<and>
     tok_lexeme t = substr (lx_input st) (lx_current st) (lx_current st' - lx_current st)"

lemma current_location_update [simp]:
  "current_location (st\<lparr>lx_diagnostics := e\<rparr>) = current_location st"
  "current_location (report_error_at l m st) = current_location st"
  by (simp_all add: current_location_def report_error_at_def)

lemma make_token_between:
  "moves st st' \<Longrightarrow> token_between st st' (make_token k (lx_current st) (current_location st) st')"
  by (simp add: token_between_def make_token_def moves_fields)

lemma token_between_update [simp]:
  "token_between st (s\<lparr>lx_diagnostics := e\<rparr>) t = token_between st s t"
  "token_between st (report_error_at l m s) t = token_between st s t"
  "token_between st s (t\<lparr>tok_kind := k\<rparr>) = token_between st s t"
  by (simp_all add: token_between_def)

lemma scan_token_between:
  assumes "scan_token st = (Some t, st')" "\<not> at_end st"
  shows "token_between st st' t" "moves st st'"
proof -
  have m1: "moves st (skip1 st)" using assms(2) by (simp add: not_at_end moves_skip1)
  show mv: "moves st st'" using moves_trans [OF m1 moves_scan_token [of st]] assms(1) by simp
  have q: "token_between st s u"
    if "scan_text d k tk m (lx_current st) (current_location st) (skip1 st) = (u, s)" for d k tk m s u
  proof -
    obtain b r where r: "scan_quoted d (skip1 st) = (b, r)" by (cases "scan_quoted d (skip1 st)")
    then have "moves st r" using moves_trans [OF m1 moves_scan_quoted [of "skip1 st" d]] by simp
    then show ?thesis
      using that r make_token_between [of st r k] by (auto simp: scan_text_def Let_def split: if_splits)
  qed
  have n: "token_between st (snd (scan_number (lx_current st) (current_location st) (skip1 st)))
      (fst (scan_number (lx_current st) (current_location st) (skip1 st)))"
    using make_token_between [OF moves_trans [OF m1 moves_scan_number_characters]]
    by (simp add: scan_number_def Let_def)
  have i: "token_between st (snd (scan_identifier (lx_current st) (current_location st) (skip1 st)))
      (fst (scan_identifier (lx_current st) (current_location st) (skip1 st)))"
    by (simp add: scan_identifier_def Let_def token_between_def)
  have p: "token_between st (snd p) (make_token (fst p) (lx_current st) (current_location st) (snd p))"
    if "scan_punctuation c (skip1 st) = Some p" for c p
    using make_token_between [OF moves_trans [OF m1]] moves_scan_punctuation [of "skip1 st" c] that by simp
  show "token_between st st' t"
    using assms(1) q n i p unfolding scan_token_eq Let_def scan_string_def scan_character_def
    by (auto simp: map_prod_def split: if_splits option.splits prod.splits)
qed

lemma token_between_placed:
  assumes "token_between st st' t" "lex_ok st" "moves st st'"
  shows "token_placed (lx_file st) (lx_input st) t" "tok_begin t = lx_current st" "tok_end t = lx_current st'"
proof -
  have ok: "lex_ok st'" by (rule lex_ok_moves [OF assms(2,3)])
  show b: "tok_begin t = lx_current st" "tok_end t = lx_current st'"
    using assms(1) by (simp_all add: token_between_def tok_begin_def tok_end_def current_location_def)
  have "range_begin (tok_range t) = current_location st" "range_end (tok_range t) = current_location st'"
      "tok_lexeme t = substr (lx_input st) (lx_current st) (lx_current st' - lx_current st)"
    using assms(1) by (simp_all add: token_between_def)
  then show "token_placed (lx_file st) (lx_input st) t"
    using ok assms(2) moves_fields [OF assms(3)] by (simp add: token_placed_def b lex_ok_def)
qed

section \<open>Ignored text\<close>

definition is_space :: "char \<Rightarrow> bool" where
  "is_space c \<longleftrightarrow> c = CHR '' '' \<or> c = char_of (9 :: nat) \<or> c = carriage_return \<or> c = line_feed"

definition is_newline :: "char \<Rightarrow> bool" where
  "is_newline c \<longleftrightarrow> c = carriage_return \<or> c = line_feed"

text \<open>The body of a block comment ends at the first \<^verbatim>\<open>*/\<close>.\<close>

definition comment_body :: "string \<Rightarrow> bool" where
  "comment_body b \<longleftrightarrow>
     (\<forall>k < length b. \<not> ((b @ ''*/'') ! k = CHR ''*'' \<and> (b @ ''*/'') ! Suc k = CHR ''/''))"

text \<open>
  Text between tokens: spaces, line comments up to a line break (or, in the last gap, up to the end of
  the input) and terminated block comments.
\<close>

inductive ignorable :: "bool \<Rightarrow> string \<Rightarrow> bool" where
  ign_empty: "ignorable final []"
| ign_space: "is_space c \<Longrightarrow> ignorable final g \<Longrightarrow> ignorable final (c # g)"
| ign_line: "\<not> list_ex is_newline b \<Longrightarrow> is_newline c \<Longrightarrow> ignorable final (c # g) \<Longrightarrow>
    ignorable final (''//'' @ b @ c # g)"
| ign_line_end: "\<not> list_ex is_newline b \<Longrightarrow> ignorable True (''//'' @ b)"
| ign_block: "comment_body b \<Longrightarrow> ignorable final g \<Longrightarrow> ignorable final (''/*'' @ b @ ''*/'' @ g)"

definition seg :: "Lexer \<Rightarrow> Lexer \<Rightarrow> string" where
  "seg st st' = substr (lx_input st) (lx_current st) (lx_current st' - lx_current st)"

lemma seg_same [simp]: "lx_current st' = lx_current st \<Longrightarrow> seg st st' = []"
  by (simp add: seg_def substr_def)

lemma seg_append:
  assumes "moves a b" "moves b c" shows "seg a c = seg a b @ seg b c"
proof -
  have "lx_current c - lx_current a = (lx_current b - lx_current a) + (lx_current c - lx_current b)"
    using moves_fields(3) [OF assms(1)] moves_fields(3) [OF assms(2)] by simp
  then show ?thesis
    using moves_fields(1) [OF assms(1)] moves_fields(3) [OF assms(1)]
    by (simp only: seg_def substr_def take_add drop_drop) simp
qed

lemma seg_skip1: "lx_current st < length (lx_input st) \<Longrightarrow> seg st (skip1 st) = [lx_input st ! lx_current st]"
  by (simp add: seg_def substr_def take_drop_Cons)

lemma seg_skip2:
  "Suc (lx_current st) < length (lx_input st) \<Longrightarrow>
   seg st (skip1 (skip1 st)) = [lx_input st ! lx_current st, lx_input st ! Suc (lx_current st)]"
  using seg_append [OF moves_skip1 moves_skip1, of st] by (simp add: seg_skip1)

lemma peek_inside: "lx_current st + k < length (lx_input st) \<Longrightarrow> peek st k = lx_input st ! (lx_current st + k)"
  by (auto simp: peek_def)

context scan_loop
begin

lemma loop_length:
  assumes "lx_current st \<le> length (lx_input st)"
  shows "length (seg st (loop st)) = lx_current (loop st) - lx_current st"
  using moves_fields(4) [OF loop_moves assms] by (simp add: seg_def substr_def)

lemma loop_skipped:
  assumes "k < length (seg st (loop st))" "lx_current st \<le> length (lx_input st)"
  shows "guard ((skip1 ^^ k) st)" "seg st (loop st) ! k = lx_input st ! (lx_current st + k)"
    "lx_current st + k < length (lx_input st)"
proof -
  obtain n where n: "loop st = (skip1 ^^ n) st" "\<forall>m < n. guard ((skip1 ^^ m) st)"
    using loop_iterates by blast
  have k: "k < n" using assms loop_length [of st] n(1) by simp
  then show "guard ((skip1 ^^ k) st)" using n(2) by blast
  then show "lx_current st + k < length (lx_input st)" using guard_inside by fastforce
  then show "seg st (loop st) ! k = lx_input st ! (lx_current st + k)"
    using k by (simp add: seg_def substr_def n(1))
qed

end

lemma line_comment_seg:
  assumes "lx_current st \<le> length (lx_input st)"
  shows "\<not> list_ex is_newline (seg st (skip_line_comment st))"
proof -
  have "\<not> is_newline (seg st (skip_line_comment st) ! k)" if "k < length (seg st (skip_line_comment st))" for k
    using line_comment_loop.loop_skipped [OF that assms] peek_inside [of "(skip1 ^^ k) st" 0]
    by (auto simp: is_newline_def)
  then show ?thesis by (auto simp: list_ex_length)
qed

lemma block_comment_seg:
  assumes "lx_current st \<le> length (lx_input st)" "b = skip_block_comment st" "\<not> at_end b"
  shows "comment_body (seg st b)" "seg b (skip1 (skip1 b)) = ''*/''" "moves b (skip1 (skip1 b))"
proof -
  have pk: "peek b 0 = CHR ''*''" "peek b 1 = CHR ''/''"
    using block_comment_loop.loop_stop [of st] assms(2,3) by auto
  then have in2: "Suc (lx_current b) < length (lx_input b)" using peek_not_nul [of b 1] by simp
  show mv: "moves b (skip1 (skip1 b))" using pk moves_peek(2) [of b] by simp
  show s2: "seg b (skip1 (skip1 b)) = ''*/''"
    using pk peek_inside [of b 0] peek_inside [of b 1] in2 by (simp add: seg_skip2)
  have mb: "moves st b" using loop_moves assms(2) by simp
  let ?s = "seg st b"
  have app: "seg st (skip1 (skip1 b)) = ?s @ ''*/''"
    using seg_append [OF mb mv] s2 by simp
  have cur: "lx_input b = lx_input st" "length ?s = lx_current b - lx_current st" "lx_current st \<le> lx_current b"
    using moves_fields [OF mb] block_comment_loop.loop_length [OF assms(1)] assms(2) by simp_all
  have nth: "(?s @ ''*/'') ! j = lx_input st ! (lx_current st + j)" if "j < Suc (Suc (length ?s))" for j
    using that in2 cur unfolding app [symmetric] by (simp add: seg_def substr_def)
  show "comment_body ?s"
    unfolding comment_body_def
  proof (intro allI impI)
    fix k assume k: "k < length ?s"
    then have "\<not> (peek ((skip1 ^^ k) st) 0 = CHR ''*'' \<and> peek ((skip1 ^^ k) st) 1 = CHR ''/'')"
      using block_comment_loop.loop_skipped(1) [of k st] assms by simp
    moreover have "lx_current st + Suc k < length (lx_input st)" using k cur in2 by simp
    ultimately show "\<not> ((?s @ ''*/'') ! k = CHR ''*'' \<and> (?s @ ''*/'') ! Suc k = CHR ''/'')"
      using k by (simp add: nth peek_inside)
  qed
qed

lemma no_errors_back:
  "moves st st' \<Longrightarrow> \<not> eng_has_errors (lx_diagnostics st') \<Longrightarrow> \<not> eng_has_errors (lx_diagnostics st)"
  using moves_fields(5) by (auto simp: engine_extends_def)

lemma has_errors_report [simp]: "eng_has_errors (lx_diagnostics (report_error_at l m st))"
  by (simp add: report_error_at_def engine_defs)

text \<open>One iteration consumes one ignorable item, unless it stops.\<close>

lemma skip_ignored_step_seg:
  assumes "lx_current st < length (lx_input st)" "skip_ignored_step st = (s1, go)"
    "\<not> eng_has_errors (lx_diagnostics s1)"
  shows "if \<not> go then s1 = st
    else (\<exists>c. is_space c \<and> seg st s1 = [c]) \<or>
      (\<exists>b. \<not> list_ex is_newline b \<and> seg st s1 = ''//'' @ b \<and> (at_end s1 \<or> is_newline (peek s1 0))) \<or>
      (\<exists>b. comment_body b \<and> seg st s1 = ''/*'' @ b @ ''*/'')"
proof -
  have p0: "peek st 0 = lx_input st ! lx_current st" using assms(1) peek_inside [of st 0] by simp
  let ?s2 = "skip1 (skip1 st)"
  have two: "moves st ?s2" "seg st ?s2 = [CHR ''/'', c]" "lx_current ?s2 \<le> length (lx_input ?s2)"
    if "peek st 0 = CHR ''/''" "peek st 1 = c" "c \<noteq> char_of (0 :: nat)" for c
  proof -
    have in1: "Suc (lx_current st) < length (lx_input st)" using that peek_not_nul [of st 1] by simp
    then have "peek st 1 = lx_input st ! Suc (lx_current st)" using peek_inside [of st 1] by simp
    then show "moves st ?s2" "seg st ?s2 = [CHR ''/'', c]" "lx_current ?s2 \<le> length (lx_input ?s2)"
      using that p0 in1 moves_peek(2) [of st c] by (simp_all add: seg_skip2)
  qed
  consider (space) "is_space (peek st 0)"
    | (line) "\<not> is_space (peek st 0)" "peek st 0 = CHR ''/''" "peek st 1 = CHR ''/''"
    | (block) "\<not> is_space (peek st 0)" "peek st 0 = CHR ''/''" "peek st 1 = CHR ''*''"
    | (other) "\<not> is_space (peek st 0)" "\<not> (peek st 0 = CHR ''/'' \<and> peek st 1 \<in> {CHR ''/'', CHR ''*''})"
    by blast
  then show ?thesis
  proof cases
    case space
    then have "skip_ignored_step st = (skip1 st, True)"
      by (simp add: skip_ignored_step_def is_space_def)
    then show ?thesis using assms space p0 by (auto simp: seg_skip1)
  next
    case line
    then have s: "s1 = skip_line_comment ?s2" "go"
      using assms(2) by (auto simp: skip_ignored_step_def is_space_def Let_def)
    have t: "moves st ?s2" "seg st ?s2 = ''//''" "lx_current ?s2 \<le> length (lx_input ?s2)"
      using two [OF line(2,3)] by simp_all
    have "seg st s1 = ''//'' @ seg ?s2 s1"
      using seg_append [OF t(1) line_comment_loop.loop_moves] t(2) s by simp
    moreover have "at_end s1 \<or> is_newline (peek s1 0)"
      using line_comment_loop.loop_stop [of ?s2] s by (auto simp: is_newline_def)
    ultimately show ?thesis using line_comment_seg [OF t(3)] s by auto
  next
    case block
    let ?b = "skip_block_comment ?s2"
    have ne: "\<not> at_end ?b"
      using block assms(2,3) by (auto simp: skip_ignored_step_def is_space_def Let_def split: if_splits)
    then have s: "s1 = skip1 (skip1 ?b)" "go"
      using block assms(2) by (auto simp: skip_ignored_step_def is_space_def Let_def)
    have t: "moves st ?s2" "seg st ?s2 = ''/*''" "lx_current ?s2 \<le> length (lx_input ?s2)"
      using two [OF block(2,3)] by simp_all
    note b = block_comment_seg [OF t(3) refl ne]
    have "seg st s1 = ''/*'' @ seg ?s2 ?b @ ''*/''"
      using seg_append [OF t(1) moves_trans [OF block_comment_loop.loop_moves b(3)]]
        seg_append [OF block_comment_loop.loop_moves b(3)] t(2) b(2) s by simp
    then show ?thesis using b(1) s by auto
  next
    case other
    then have "skip_ignored_step st = (st, False)"
      by (auto simp: skip_ignored_step_def is_space_def Let_def)
    then show ?thesis using assms(2) by simp
  qed
qed

lemma skip_ignored_seg:
  assumes "lx_current st \<le> length (lx_input st)" "\<not> eng_has_errors (lx_diagnostics (skip_ignored st))"
  shows "ignorable (at_end (skip_ignored st)) (seg st (skip_ignored st))"
  using assms
proof (induction st rule: skip_ignored.induct)
  case (1 st)
  show ?case
  proof (cases "at_end st")
    case True
    then have "skip_ignored st = st" by (subst skip_ignored.simps) simp
    then show ?thesis by (simp add: ign_empty)
  next
    case False
    then have inb: "lx_current st < length (lx_input st)" by (simp add: not_at_end)
    obtain s1 go where st: "skip_ignored_step st = (s1, go)" by (cases "skip_ignored_step st")
    have eq: "skip_ignored st = (if go then skip_ignored s1 else s1)"
      using False st by (subst skip_ignored.simps) (simp add: Let_def)
    have mv: "moves st s1" using moves_skip_ignored_step [OF False] st by simp
    have ne: "\<not> eng_has_errors (lx_diagnostics s1)"
      using "1.prems"(2) eq no_errors_back [OF moves_skip_ignored [of s1]] by (simp split: if_splits)
    note step = skip_ignored_step_seg [OF inb st ne]
    show ?thesis
    proof (cases go)
      case stop: False
      then show ?thesis using step eq by (simp add: ign_empty)
    next
      case go: True
      let ?e = "skip_ignored s1"
      have e: "skip_ignored st = ?e" using eq go by simp
      have IH: "ignorable (at_end ?e) (seg s1 ?e)"
        using "1.IH" [OF False refl] st go e "1.prems" moves_fields(1,4) [OF mv] by simp
      have split: "seg st ?e = seg st s1 @ seg s1 ?e"
        by (rule seg_append [OF mv moves_skip_ignored])
      have next_char: "\<exists>g. seg s1 ?e = peek s1 0 # g" if "\<not> at_end s1" "is_newline (peek s1 0)"
      proof -
        have sp: "skip_ignored_step s1 = (skip1 s1, True)"
          using that(2) by (auto simp: skip_ignored_step_def is_newline_def)
        then have "?e = skip_ignored (skip1 s1)"
          using that(1) by (subst skip_ignored.simps) (simp add: Let_def)
        then have "seg s1 ?e = seg s1 (skip1 s1) @ seg (skip1 s1) ?e"
          using seg_append [OF moves_skip1 moves_skip_ignored] that(1) by (simp add: not_at_end)
        then show ?thesis using that(1) peek_inside [of s1 0] by (simp add: not_at_end seg_skip1)
      qed
      have end_stop: "?e = s1" if "at_end s1" using that by (subst skip_ignored.simps) simp
      from step go consider (space) c where "is_space c" "seg st s1 = [c]"
        | (line) b where "\<not> list_ex is_newline b" "seg st s1 = ''//'' @ b" "at_end s1 \<or> is_newline (peek s1 0)"
        | (block) b where "comment_body b" "seg st s1 = ''/*'' @ b @ ''*/''"
        by auto
      then show ?thesis
      proof cases
        case space
        then show ?thesis using ign_space IH split e by simp
      next
        case line
        show ?thesis
        proof (cases "at_end s1")
          case True
          then show ?thesis using ign_line_end [OF line(1)] end_stop split line(2) e by simp
        next
          case False
          then obtain g where "seg s1 ?e = peek s1 0 # g" using next_char line(3) by blast
          then show ?thesis using ign_line [OF line(1), of "peek s1 0" "at_end ?e" g] False IH split line e by simp
        qed
      next
        case block
        then show ?thesis using ign_block [OF block(1) IH] split e by simp
      qed
    qed
  qed
qed

section \<open>Kinds and spellings\<close>

text \<open>
  The vocabulary of the language, apart from the lexer: the fixed spellings of punctuation, the reserved
  words (\<open>token_kind_name\<close> prints a keyword as it is written) and the characters of words.
\<close>

primrec delimiter_spelling :: "delimiter \<Rightarrow> string" where
  "delimiter_spelling LeftParen = ''(''"
| "delimiter_spelling RightParen = '')''"
| "delimiter_spelling LeftBrace = ''{''"
| "delimiter_spelling RightBrace = ''}''"
| "delimiter_spelling LeftBracket = ''[''"
| "delimiter_spelling RightBracket = '']''"
| "delimiter_spelling Comma = '',''"
| "delimiter_spelling Semicolon = '';''"
| "delimiter_spelling Colon = '':''"
| "delimiter_spelling ColonColon = ''::''"
| "delimiter_spelling Dot = ''.''"
| "delimiter_spelling Question = ''?''"
| "delimiter_spelling QuestionDot = ''?.''"
| "delimiter_spelling QuestionQuestion = ''??''"

primrec operator_spelling :: "operator \<Rightarrow> string" where
  "operator_spelling Plus = ''+''"
| "operator_spelling Minus = ''-''"
| "operator_spelling Star = ''*''"
| "operator_spelling Slash = ''/''"
| "operator_spelling Percent = ''%''"
| "operator_spelling Equal = ''=''"
| "operator_spelling EqualEqual = ''==''"
| "operator_spelling BangEqual = ''!=''"
| "operator_spelling Less = ''<''"
| "operator_spelling LessEqual = ''<=''"
| "operator_spelling Greater = ''>''"
| "operator_spelling GreaterEqual = ''>=''"
| "operator_spelling AmpersandAmpersand = ''&&''"
| "operator_spelling PipePipe = ''||''"
| "operator_spelling Bang = ''!''"
| "operator_spelling Ampersand = ''&''"
| "operator_spelling Pipe = ''|''"
| "operator_spelling Caret = ''^''"
| "operator_spelling Tilde = ''~''"
| "operator_spelling PlusPlus = ''++''"
| "operator_spelling MinusMinus = ''--''"
| "operator_spelling PlusEqual = ''+=''"
| "operator_spelling MinusEqual = ''-=''"
| "operator_spelling StarEqual = ''*=''"
| "operator_spelling SlashEqual = ''/=''"
| "operator_spelling PercentEqual = ''%=''"
| "operator_spelling ShiftLeft = ''<<''"
| "operator_spelling ShiftRight = ''>>''"
| "operator_spelling ShiftLeftEqual = ''<<=''"
| "operator_spelling ShiftRightEqual = ''>>=''"
| "operator_spelling AmpersandEqual = ''&=''"
| "operator_spelling PipeEqual = ''|=''"
| "operator_spelling CaretEqual = ''^=''"

text \<open>No punctuation that the text starts with is longer than \<open>s\<close>.\<close>

definition longest_punctuation :: "string \<Rightarrow> string \<Rightarrow> bool" where
  "longest_punctuation rest s \<longleftrightarrow>
     (\<forall>d. take (length (delimiter_spelling d)) rest = delimiter_spelling d \<longrightarrow>
        length (delimiter_spelling d) \<le> length s) \<and>
     (\<forall>p. take (length (operator_spelling p)) rest = operator_spelling p \<longrightarrow>
        length (operator_spelling p) \<le> length s)"

definition reserved_word :: "string \<Rightarrow> bool" where
  "reserved_word s \<longleftrightarrow> (\<exists>k. s = keyword_name k) \<or> (\<exists>k. s = type_keyword_name k)"

definition decimal_char :: "char \<Rightarrow> bool" where
  "decimal_char c \<longleftrightarrow> c \<in> set ''0123456789''"

definition word_start :: "char \<Rightarrow> bool" where
  "word_start c \<longleftrightarrow> c \<in> set ''abcdefghijklmnopqrstuvwxyzABCDEFGHIJKLMNOPQRSTUVWXYZ_''"

definition word_char :: "char \<Rightarrow> bool" where
  "word_char c \<longleftrightarrow> word_start c \<or> decimal_char c"

definition separated_char :: "char \<Rightarrow> bool" where
  "separated_char c \<longleftrightarrow> decimal_char c \<or> c = CHR ''_''"

definition begins :: "(char \<Rightarrow> bool) \<Rightarrow> string \<Rightarrow> bool" where
  "begins P s \<longleftrightarrow> s \<noteq> [] \<and> P (hd s)"

text \<open>The part of a text that is a word, when it begins like one.\<close>

definition word_text :: "string \<Rightarrow> string" where
  "word_text rest = takeWhile word_char rest"

text \<open>
  The part of a text that is a number, when it begins with a digit: after a base prefix the word
  characters; otherwise digits, a point with more digits when a digit follows it, an exponent letter with an optional
  sign, and the word characters after that.
\<close>

definition number_fraction :: "string \<Rightarrow> string" where
  "number_fraction rest =
     (if begins (\<lambda>c. c = CHR ''.'') rest \<and> begins decimal_char (tl rest)
      then CHR ''.'' # takeWhile separated_char (tl rest) else [])"

definition number_exponent :: "string \<Rightarrow> string" where
  "number_exponent rest =
     (if begins (\<lambda>c. c \<in> set ''eE'') rest
      then take (if begins (\<lambda>c. c \<in> set ''+-'') (tl rest) then 2 else 1) rest else [])"

definition number_text :: "string \<Rightarrow> string" where
  "number_text rest =
     (if begins (\<lambda>c. c = CHR ''0'') rest \<and> begins (\<lambda>c. c \<in> set ''bBoOxX'') (tl rest)
      then take 2 rest @ takeWhile word_char (drop 2 rest)
      else
        let r1 = dropWhile separated_char rest;
            r2 = drop (length (number_fraction r1)) r1;
            r3 = drop (length (number_exponent r2)) r2
        in takeWhile separated_char rest @ number_fraction r1 @ number_exponent r2 @ takeWhile word_char r3)"

text \<open>
  The numbers that are floating: those without a base prefix whose digits are followed by a
  point or an exponent, or whose well separated digits are followed by a floating suffix.
\<close>

definition base_prefixed :: "string \<Rightarrow> bool" where
  "base_prefixed s \<longleftrightarrow> begins (\<lambda>c. c = CHR ''0'') s \<and>
     begins (\<lambda>c. word_start c \<and> c \<notin> set ''_eEfFiIuU'') (tl s)"

definition well_separated :: "string \<Rightarrow> bool" where
  "well_separated run \<longleftrightarrow> run \<noteq> [] \<and> hd run \<noteq> CHR ''_'' \<and> last run \<noteq> CHR ''_'' \<and>
     (\<nexists>a b. run = a @ ''__'' @ b)"

definition number_floating :: "string \<Rightarrow> bool" where
  "number_floating s \<longleftrightarrow> \<not> base_prefixed s \<and>
     (begins (\<lambda>c. c \<in> set ''.eE'') (dropWhile separated_char s) \<or>
      well_separated (takeWhile separated_char s) \<and> dropWhile separated_char s \<in> {''f32'', ''f64''})"

text \<open>
  The text of a quoted literal: its body has no delimiter and no line break except after a
  backslash (never a line break there either); it is closed by the delimiter or cut off by a line break or
  the end of the input.
\<close>

inductive quoted_body :: "char \<Rightarrow> string \<Rightarrow> bool" where
  qb_empty: "quoted_body d []"
| qb_plain: "c \<notin> {d, backslash, carriage_return, line_feed} \<Longrightarrow> quoted_body d b \<Longrightarrow> quoted_body d (c # b)"
| qb_escape: "c \<notin> {carriage_return, line_feed} \<Longrightarrow> quoted_body d b \<Longrightarrow> quoted_body d (backslash # c # b)"

definition quoted_closed :: "char \<Rightarrow> string \<Rightarrow> bool" where
  "quoted_closed d s \<longleftrightarrow> (\<exists>b. quoted_body d b \<and> s = d # b @ [d])"

definition quoted_open :: "char \<Rightarrow> string \<Rightarrow> string \<Rightarrow> bool" where
  "quoted_open d rest s \<longleftrightarrow> (\<exists>b. quoted_body d b \<and> (s = d # b \<or> s = d # b @ [backslash])) \<and>
     (drop (length s) rest = [] \<or> begins is_newline (drop (length s) rest))"

text \<open>What a token's kind says of its text \<open>s\<close> and the input \<open>rest\<close> from its first character on.\<close>

primrec kind_spells :: "TokenKind \<Rightarrow> string \<Rightarrow> string \<Rightarrow> bool" where
  "kind_spells kEof rest s \<longleftrightarrow> s = [] \<and> rest = []"
| "kind_spells kIdentifier rest s \<longleftrightarrow> begins word_start rest \<and> s = word_text rest \<and> \<not> reserved_word s"
| "kind_spells (Keyword k) rest s \<longleftrightarrow> s = word_text rest \<and> s = keyword_name k"
| "kind_spells (TypeKeyword k) rest s \<longleftrightarrow> s = word_text rest \<and> s = type_keyword_name k"
| "kind_spells kIntegerLiteral rest s \<longleftrightarrow>
     begins decimal_char rest \<and> s = number_text rest \<and> \<not> number_floating s"
| "kind_spells kFloatLiteral rest s \<longleftrightarrow> begins decimal_char rest \<and> s = number_text rest \<and> number_floating s"
| "kind_spells kStringLiteral rest s \<longleftrightarrow> quoted_closed quote s \<or> quoted_open quote rest s"
| "kind_spells kCharacterLiteral rest s \<longleftrightarrow> quoted_closed apostrophe s \<or> quoted_open apostrophe rest s"
| "kind_spells (Delimiter d) rest s \<longleftrightarrow> s = delimiter_spelling d \<and> longest_punctuation rest s"
| "kind_spells (Operator p) rest s \<longleftrightarrow> s = operator_spelling p \<and> longest_punctuation rest s"

definition token_classified :: "string \<Rightarrow> Token \<Rightarrow> bool" where
  "token_classified input t \<longleftrightarrow>
     kind_spells (tok_kind t) (drop (tok_begin t) input) (tok_lexeme t)"

text \<open>The literals that a run without errors contains: closed, and accepted by their decoders.\<close>

definition literal_accepted :: "Token \<Rightarrow> bool" where
  "literal_accepted t \<longleftrightarrow>
     (case tok_kind t of
        kIntegerLiteral \<Rightarrow> sp_error (parse_numeric_literal_spelling (tok_lexeme t)) = nleNone
      | kFloatLiteral \<Rightarrow> sp_error (parse_numeric_literal_spelling (tok_lexeme t)) = nleNone
      | kStringLiteral \<Rightarrow> quoted_closed quote (tok_lexeme t) \<and>
          tl_error (decode_text_literal (tok_lexeme t) tlString) = tleNone
      | kCharacterLiteral \<Rightarrow> quoted_closed apostrophe (tok_lexeme t) \<and>
          tl_error (decode_text_literal (tok_lexeme t) tlCharacter) = tleNone
      | _ \<Rightarrow> True)"

section \<open>Character classes\<close>

lemma mem_codes: "c \<in> set s \<longleftrightarrow> code c \<in> set (map code s)"
  by (auto simp: inj_image_mem_iff [OF inj_of_char])

lemma class_codes:
  "map code ''0123456789'' = [48..<58]"
  "map code ''abcdefghijklmnopqrstuvwxyzABCDEFGHIJKLMNOPQRSTUVWXYZ_'' = [97..<123] @ [65..<91] @ [95]"
  by code_simp+

lemma decimal_char_eq: "decimal_char = is_digit"
  unfolding fun_eq_iff decimal_char_def mem_codes class_codes set_upt is_digit_def by auto

lemma word_start_eq: "word_start = is_identifier_start"
  unfolding fun_eq_iff word_start_def mem_codes class_codes set_append set_upt is_identifier_start_def
  by (auto simp: char_code)

lemma word_char_eq: "word_char = is_identifier_continue"
  by (simp add: fun_eq_iff word_char_def is_identifier_continue_def word_start_eq decimal_char_eq)

lemma separated_char_eq: "separated_char = is_digit_or_separator"
  by (simp add: fun_eq_iff separated_char_def decimal_char_eq is_digit_or_separator_def is_digit_def
      is_decimal_digit_def)

section \<open>The text ahead\<close>

definition ahead :: "Lexer \<Rightarrow> string" where
  "ahead st = drop (lx_current st) (lx_input st)"

lemma ahead_skip1: "ahead (skip1 st) = tl (ahead st)"
  by (simp add: ahead_def drop_Suc tl_drop)

lemma ahead_update [simp]: "ahead (st\<lparr>lx_diagnostics := e\<rparr>) = ahead st"
  by (simp add: ahead_def)

lemma peek_ahead: "peek st k = (if k < length (ahead st) then ahead st ! k else char_of (0 :: nat))"
  by (auto simp: peek_def ahead_def)

lemma nul_not_literal [simp]: "code c \<noteq> 0 \<Longrightarrow> char_of (0 :: nat) \<noteq> c"
  by (simp add: char_code)

lemma peek_begins:
  "P (char_of (0 :: nat)) = False \<Longrightarrow> P (peek st 0) = begins P (ahead st)"
  "P (char_of (0 :: nat)) = False \<Longrightarrow> P (peek st 1) = begins P (tl (ahead st))"
  by (cases "ahead st"; auto simp: peek_ahead begins_def hd_conv_nth nth_tl)+

lemma ahead_seg: "moves a b \<Longrightarrow> ahead a = seg a b @ ahead b"
  using moves_fields(1,3) [of a b]
  by (simp add: ahead_def seg_def substr_def) (metis add_diff_cancel_left' append_take_drop_id drop_drop le_add_diff_inverse2)

lemma seg_ahead:
  assumes "moves a b" "ahead a = x @ ahead b" shows "seg a b = x"
  using ahead_seg [OF assms(1)] assms(2) by simp

text \<open>A loop whose guard looks at the next character only.\<close>

locale char_loop = scan_loop +
  fixes P :: "char \<Rightarrow> bool"
  assumes guard_char: "guard st = begins P (ahead st)"
begin

lemma loop_ahead: "ahead (loop st) = dropWhile P (ahead st)"
proof (induction "length (ahead st)" arbitrary: st rule: less_induct)
  case less
  show ?case
  proof (cases "guard st")
    case True
    then have a: "ahead st \<noteq> []" "P (hd (ahead st))" by (simp_all add: guard_char begins_def)
    then have "ahead (loop (skip1 st)) = dropWhile P (tl (ahead st))"
      using less [of "skip1 st"] by (simp add: ahead_skip1)
    then show ?thesis using True a by (subst loop_unfold) (cases "ahead st"; simp)
  next
    case False
    then show ?thesis by (subst loop_unfold) (cases "ahead st"; simp add: guard_char begins_def)
  qed
qed

end

interpretation identifier_chars: char_loop "\<lambda>st. is_identifier_continue (peek st 0)" skip_identifier
  is_identifier_continue
  by unfold_locales (simp add: peek_begins identifier_continue_nul)

interpretation digit_chars: char_loop "\<lambda>st. is_digit (peek st 0) \<or> peek st 0 = CHR ''_''" skip_digits
  separated_char
  by unfold_locales (simp add: separated_char_def decimal_char_eq begins_def peek_ahead digit_nul hd_conv_nth)

section \<open>Words and numbers\<close>

lemma keyword_listed:
  "(keyword_name k, Keyword k) \<in> set kKeywords" "(type_keyword_name t, TypeKeyword t) \<in> set kKeywords"
  by (cases k; simp add: kKeywords_def) (cases t; simp add: kKeywords_def)

lemma find_keyword_kinds:
  "list_all (\<lambda>(name, kind). (case kind of Keyword k \<Rightarrow> name = keyword_name k
     | TypeKeyword k \<Rightarrow> name = type_keyword_name k | _ \<Rightarrow> False)) kKeywords"
  by (simp add: kKeywords_def)

lemma identifier_kind_spells:
  assumes "begins word_start rest" "s = word_text rest"
  shows "kind_spells (identifier_token_kind s) rest s" "identifier_token_kind s \<noteq> kEof"
proof -
  let ?k = "identifier_token_kind s"
  have "?k = kIdentifier \<or> (case ?k of Keyword k \<Rightarrow> s = keyword_name k
      | TypeKeyword k \<Rightarrow> s = type_keyword_name k | _ \<Rightarrow> False)"
    using find_keyword_cases [of kKeywords s] find_keyword_kinds
    by (fastforce simp: identifier_token_kind_def list_all_iff)
  moreover have "\<not> reserved_word s" if "?k = kIdentifier"
    using that find_keyword_Some [OF kKeywords_distinct keyword_listed(1)]
      find_keyword_Some [OF kKeywords_distinct keyword_listed(2)]
    by (auto simp: reserved_word_def identifier_token_kind_def)
  ultimately show "kind_spells ?k rest s" "?k \<noteq> kEof"
    using assms by (cases ?k; simp)+
qed

lemma number_fraction_ahead:
  fixes d :: Lexer
  defines "f \<equiv> (if peek d 0 = CHR ''.'' \<and> is_digit (peek d 1) then skip_digits (skip1 d) else d)"
  shows "ahead f = drop (length (number_fraction (ahead d))) (ahead d)"
    "ahead d = number_fraction (ahead d) @ ahead f"
proof -
  let ?cond = "begins (\<lambda>c. c = CHR ''.'') (ahead d) \<and> begins decimal_char (tl (ahead d))"
  have c: "(peek d 0 = CHR ''.'' \<and> is_digit (peek d 1)) = ?cond"
    using peek_begins(1) [of "\<lambda>c. c = CHR ''.''" d] peek_begins(2) [of is_digit d]
    by (simp add: digit_nul decimal_char_eq)
  show "ahead d = number_fraction (ahead d) @ ahead f"
  proof (cases ?cond)
    case True
    then show ?thesis
      unfolding f_def c number_fraction_def
      by (cases "ahead d") (simp_all add: digit_chars.loop_ahead ahead_skip1 begins_def)
  next
    case False
    then show ?thesis unfolding f_def c number_fraction_def by (simp only: if_False append_Nil)
  qed
  then show "ahead f = drop (length (number_fraction (ahead d))) (ahead d)"
    by (metis append_eq_conv_conj)
qed

lemma number_exponent_ahead:
  fixes f :: Lexer
  defines "x \<equiv> (if peek f 0 = CHR ''e'' \<or> peek f 0 = CHR ''E''
    then if peek (skip1 f) 0 = CHR ''+'' \<or> peek (skip1 f) 0 = CHR ''-'' then skip1 (skip1 f) else skip1 f
    else f)"
  shows "ahead x = drop (length (number_exponent (ahead f))) (ahead f)"
    "ahead f = number_exponent (ahead f) @ ahead x"
proof -
  have c: "(peek f 0 = CHR ''e'' \<or> peek f 0 = CHR ''E'') = begins (\<lambda>c. c \<in> set ''eE'') (ahead f)"
    "(peek (skip1 f) 0 = CHR ''+'' \<or> peek (skip1 f) 0 = CHR ''-'') = begins (\<lambda>c. c \<in> set ''+-'') (tl (ahead f))"
    using peek_begins(1) [of "\<lambda>c. c \<in> set ''eE''" f] peek_begins(1) [of "\<lambda>c. c \<in> set ''+-''" "skip1 f"]
    by (simp_all add: ahead_skip1)
  show "ahead f = number_exponent (ahead f) @ ahead x"
    unfolding x_def c number_exponent_def
    by (cases "ahead f"; cases "tl (ahead f)") (simp_all add: ahead_skip1 begins_def)
  then show "ahead x = drop (length (number_exponent (ahead f))) (ahead f)"
    by (metis append_eq_conv_conj)
qed

lemma scan_number_ahead:
  assumes "lx_current st < length (lx_input st)" "is_digit (lx_input st ! lx_current st)"
  shows "ahead st = number_text (ahead st) @ ahead (scan_number_characters (lx_current st) (skip1 st))"
proof -
  let ?s = "skip1 st" and ?c = "lx_input st ! lx_current st"
  obtain r where r: "ahead st = ?c # r" "ahead ?s = r"
    using assms(1) by (simp add: ahead_def Cons_nth_drop_Suc [symmetric])
  let ?base = "begins (\<lambda>c. c = CHR ''0'') (ahead st) \<and> begins (\<lambda>c. c \<in> set ''bBoOxX'') (tl (ahead st))"
  have base: "(lx_input ?s ! lx_current st = CHR ''0'' \<and>
      peek ?s 0 \<in> {CHR ''b'', CHR ''B'', CHR ''o'', CHR ''O'', CHR ''x'', CHR ''X''}) = ?base"
    using peek_begins(1) [of "\<lambda>c. c \<in> set ''bBoOxX''" ?s] by (simp add: r begins_def insert_commute)
  show ?thesis
  proof (cases ?base)
    case True
    then have "scan_number_characters (lx_current st) ?s = skip_identifier (skip1 ?s)"
      unfolding scan_number_characters_def base by simp
    then show ?thesis
      using True r by (cases r) (simp_all add: number_text_def identifier_chars.loop_ahead ahead_skip1 begins_def word_char_eq)
  next
    case False
    let ?d = "skip_digits ?s"
    let ?f = "if peek ?d 0 = CHR ''.'' \<and> is_digit (peek ?d 1) then skip_digits (skip1 ?d) else ?d"
    let ?x = "if peek ?f 0 = CHR ''e'' \<or> peek ?f 0 = CHR ''E''
      then if peek (skip1 ?f) 0 = CHR ''+'' \<or> peek (skip1 ?f) 0 = CHR ''-'' then skip1 (skip1 ?f) else skip1 ?f
      else ?f"
    have e: "scan_number_characters (lx_current st) ?s = skip_identifier ?x"
      unfolding scan_number_characters_def Let_def base if_not_P [OF False] by (simp split: if_split)
    have d: "ahead ?d = dropWhile separated_char (ahead st)"
      using assms(2) by (simp add: digit_chars.loop_ahead r separated_char_def decimal_char_eq)
    have t: "ahead (skip_identifier ?x) = dropWhile word_char (ahead ?x)"
      by (simp add: identifier_chars.loop_ahead word_char_eq)
    have "ahead st = takeWhile separated_char (ahead st) @ ahead ?d" by (simp add: d)
    also have "ahead ?d = number_fraction (ahead ?d) @ ahead ?f" by (rule number_fraction_ahead(2))
    also have "ahead ?f = number_exponent (ahead ?f) @ ahead ?x" by (rule number_exponent_ahead(2))
    also have "ahead ?x = takeWhile word_char (ahead ?x) @ ahead (skip_identifier ?x)"
      by (simp only: t takeWhile_dropWhile_id)
    finally show ?thesis
      using False unfolding number_text_def Let_def e
      by (simp only: if_False d [symmetric] number_fraction_ahead(1) [symmetric]
          number_exponent_ahead(1) [symmetric] append_assoc)
  qed
qed

lemma double_separator: "has_double_separator s \<longleftrightarrow> (\<exists>a b. s = a @ ''__'' @ b)"
proof (induction s rule: has_double_separator.induct)
  case (1 a b cs)
  have "(\<exists>x y. a # b # cs = x @ ''__'' @ y) \<longleftrightarrow>
      a = CHR ''_'' \<and> b = CHR ''_'' \<or> (\<exists>x y. b # cs = x @ ''__'' @ y)"
    by (auto simp: Cons_eq_append_conv)
  then show ?case using 1 by auto
qed (auto simp: Cons_eq_append_conv)

lemma well_separated_eq: "well_separated run = is_valid_separator_run run"
  by (auto simp: well_separated_def is_valid_separator_run_def double_separator)

lemma floating_suffix_eq: "is_floating_suffix (parse_suffix s) \<longleftrightarrow> s \<in> {''f32'', ''f64''}"
  by (simp add: is_floating_suffix_def parse_suffix_def)

lemma finish_floating:
  "sp_is_floating (finish_decimal_literal s i ir hf fr he neg er bad) \<longleftrightarrow>
     hf \<or> he \<or> (\<not> bad \<and> drop i s \<in> {''f32'', ''f64''})"
  unfolding floating_suffix_eq [symmetric]
  by (auto simp: finish_decimal_literal_def default_spelling_def Let_def is_floating_suffix_def)

lemma exponent_floating:
  "sp_is_floating (parse_decimal_exponent s i ir hf fr bad) \<longleftrightarrow>
     hf \<or> begins (\<lambda>c. c \<in> set ''eE'') (drop i s) \<or> (\<not> bad \<and> drop i s \<in> {''f32'', ''f64''})"
proof -
  have e: "(i < length s \<and> (s ! i = CHR ''e'' \<or> s ! i = CHR ''E'')) = begins (\<lambda>c. c \<in> set ''eE'') (drop i s)"
    by (auto simp: begins_def hd_drop_conv_nth)
  show ?thesis
    unfolding parse_decimal_exponent_def e
    by (auto simp: Let_def finish_floating floating_error_def)
qed

lemma decimal_floating:
  "sp_is_floating (parse_decimal_literal s) \<longleftrightarrow>
     begins (\<lambda>c. c \<in> set ''.eE'') (dropWhile separated_char s) \<or>
     well_separated (takeWhile separated_char s) \<and> dropWhile separated_char s \<in> {''f32'', ''f64''}"
proof -
  let ?k = "skip_while is_digit_or_separator s 0"
  have k: "drop ?k s = dropWhile separated_char s" "substr s 0 ?k = takeWhile separated_char s"
    using substr_skip_while [of s 0 is_digit_or_separator]
    by (simp_all add: drop_skip_while separated_char_eq)
  have dot: "(?k < length s \<and> s ! ?k = CHR ''.'') = begins (\<lambda>c. c = CHR ''.'') (dropWhile separated_char s)"
    unfolding k(1) [symmetric] by (auto simp: begins_def hd_drop_conv_nth)
  show ?thesis
    unfolding parse_decimal_literal_def Let_def dot
    by (auto simp: exponent_floating floating_error_def k well_separated_eq begins_def)
qed

lemma base_not_floating: "\<not> sp_is_floating (parse_base_literal s base)"
  by (simp add: parse_base_literal_def default_spelling_def Let_def)

lemma number_floating_eq:
  assumes "begins decimal_char s"
  shows "sp_is_floating (parse_numeric_literal_spelling s) = number_floating s"
proof -
  have s: "s \<noteq> []" "is_decimal_digit (hd s)"
    using assms by (simp_all add: begins_def decimal_char_eq is_digit_def is_decimal_digit_def)
  have letter: "is_letter c \<longleftrightarrow> word_start c \<and> c \<noteq> CHR ''_''" for c
    by (auto simp: word_start_eq is_letter_def is_identifier_start_def)
  show ?thesis
  proof (cases "2 \<le> length s \<and> hd s = CHR ''0''")
    case True
    then obtain c r where c: "s = CHR ''0'' # c # r"
      by (cases s; cases "tl s") auto
    have b: "base_prefixed s \<longleftrightarrow> is_letter c \<and> c \<notin> {CHR ''e'', CHR ''E'', CHR ''f'', CHR ''F'',
        CHR ''i'', CHR ''I'', CHR ''u'', CHR ''U''}"
      by (auto simp: base_prefixed_def begins_def c letter)
    have sel: "is_letter (CHR ''b'')" "is_letter (CHR ''o'')" "is_letter (CHR ''x'')"
      "is_letter (CHR ''B'')" "is_letter (CHR ''O'')" "is_letter (CHR ''X'')"
      by (simp_all add: is_letter_def)
    show ?thesis
    proof (cases "base_prefixed s")
      case True
      then show ?thesis
        using b s by (auto simp: c parse_numeric_literal_spelling_def Let_def number_floating_def
            base_not_floating default_spelling_def)
    next
      case False
      then have "parse_numeric_literal_spelling s = parse_decimal_literal s"
        using b s sel by (auto simp: c parse_numeric_literal_spelling_def Let_def)
      then show ?thesis using False by (simp add: number_floating_def decimal_floating)
    qed
  next
    case False
    then have "parse_numeric_literal_spelling s = parse_decimal_literal s"
      using s by (auto simp: parse_numeric_literal_spelling_def)
    moreover have "\<not> base_prefixed s"
      using False by (cases s; cases "tl s") (auto simp: base_prefixed_def begins_def)
    ultimately show ?thesis by (simp add: number_floating_def decimal_floating)
  qed
qed

section \<open>Quoted literals\<close>

lemma at_end_ahead: "at_end st \<longleftrightarrow> ahead st = []"
  by (simp add: at_end_def ahead_def)

lemma scan_quoted_spec:
  "scan_quoted d st = (closed_flag, st') \<Longrightarrow>
   \<exists>b. quoted_body d b \<and>
     (if closed_flag then ahead st = b @ d # ahead st'
      else (ahead st = b @ ahead st' \<or> ahead st = b @ backslash # ahead st') \<and>
        (ahead st' = [] \<or> begins is_newline (ahead st')))"
proof (induction d st arbitrary: closed_flag st' rule: scan_quoted.induct)
  case (1 d st)
  note unfolded = "1.prems" [unfolded scan_quoted.simps [of d st]]
  show ?case
  proof (cases "at_end st")
    case True
    then show ?thesis using unfolded by (auto simp: at_end_ahead intro: exI [of _ "[]"] qb_empty)
  next
    case False
    then obtain c r where c: "ahead st = c # r" "peek st 0 = c"
      by (cases "ahead st") (simp_all add: at_end_ahead peek_ahead)
    consider (close) "c = d" | (newline) "c \<noteq> d" "is_newline c" | (escape) "c \<noteq> d" "\<not> is_newline c" "c = backslash"
      | (plain) "c \<noteq> d" "\<not> is_newline c" "c \<noteq> backslash" by blast
    then show ?thesis
    proof cases
      case close
      then show ?thesis
        using unfolded False c by (auto simp: ahead_skip1 intro!: exI [of _ "[]"] qb_empty)
    next
      case newline
      then show ?thesis
        using unfolded False c by (auto simp: begins_def is_newline_def intro!: exI [of _ "[]"] qb_empty)
    next
      case plain
      then have e: "scan_quoted d st = scan_quoted d (skip1 st)"
        using False c by (subst scan_quoted.simps) (simp add: is_newline_def)
      have "\<exists>b. quoted_body d b \<and>
         (if closed_flag then ahead (skip1 st) = b @ d # ahead st'
          else (ahead (skip1 st) = b @ ahead st' \<or> ahead (skip1 st) = b @ backslash # ahead st') \<and>
            (ahead st' = [] \<or> begins is_newline (ahead st')))"
        using "1.IH"(2) plain False c "1.prems" e by (auto simp: is_newline_def)
      then obtain b where "quoted_body d b" "if closed_flag then r = b @ d # ahead st'
          else (r = b @ ahead st' \<or> r = b @ backslash # ahead st') \<and>
            (ahead st' = [] \<or> begins is_newline (ahead st'))"
        unfolding ahead_skip1 c(1) list.sel by blast
      moreover have "c \<notin> {d, backslash, carriage_return, line_feed}"
        using plain by (simp add: is_newline_def)
      ultimately show ?thesis
        using c qb_plain [of c d b] by (intro exI [of _ "c # b"]) auto
    next
      case escape
      let ?s = "skip1 st"
      show ?thesis
      proof (cases "at_end ?s \<or> peek ?s 0 = carriage_return \<or> peek ?s 0 = line_feed")
        case True
        then have "(closed_flag, st') = (False, ?s)"
          using unfolded False c escape by (simp add: Let_def is_newline_def)
        moreover have "r = [] \<or> begins is_newline r"
          using True c by (cases r) (auto simp: at_end_ahead ahead_skip1 peek_ahead begins_def is_newline_def)
        ultimately show ?thesis
          using c escape by (auto simp: ahead_skip1 intro!: exI [of _ "[]"] qb_empty)
      next
        case go: False
        obtain e r' where e: "r = e # r'" "peek ?s 0 = e"
          using go c by (cases r) (auto simp: at_end_ahead ahead_skip1 peek_ahead)
        have eq: "scan_quoted d st = scan_quoted d (skip1 ?s)"
          using False c escape go by (subst scan_quoted.simps) (simp add: Let_def is_newline_def)
        have "\<exists>b. quoted_body d b \<and>
           (if closed_flag then ahead (skip1 ?s) = b @ d # ahead st'
            else (ahead (skip1 ?s) = b @ ahead st' \<or> ahead (skip1 ?s) = b @ backslash # ahead st') \<and>
              (ahead st' = [] \<or> begins is_newline (ahead st')))"
          using "1.IH"(1) escape False c "1.prems" eq go by (auto simp: is_newline_def)
        then obtain b where "quoted_body d b" "if closed_flag then r' = b @ d # ahead st'
            else (r' = b @ ahead st' \<or> r' = b @ backslash # ahead st') \<and>
              (ahead st' = [] \<or> begins is_newline (ahead st'))"
          unfolding ahead_skip1 c(1) list.sel e(1) by blast
        moreover have "e \<notin> {carriage_return, line_feed}" using go e by simp
        ultimately show ?thesis
          using c e escape qb_escape [of e d b] by (intro exI [of _ "backslash # e # b"]) auto
      qed
    qed
  qed
qed

section \<open>Punctuation\<close>

lemma all_delimiters: "(\<forall>d. Q d) \<longleftrightarrow> list_all Q
   [LeftParen, RightParen, LeftBrace, RightBrace, LeftBracket, RightBracket, Comma, Semicolon, Colon,
    ColonColon, Dot, Question, QuestionDot, QuestionQuestion]"
  by (auto intro: delimiter.induct)

lemma all_operators: "(\<forall>p. Q p) \<longleftrightarrow> list_all Q
   [Plus, Minus, Star, Slash, Percent, Equal, EqualEqual, BangEqual, Less, LessEqual, Greater, GreaterEqual,
    AmpersandAmpersand, PipePipe, Bang, Ampersand, Pipe, Caret, Tilde, PlusPlus, MinusMinus, PlusEqual,
    MinusEqual, StarEqual, SlashEqual, PercentEqual, ShiftLeft, ShiftRight, ShiftLeftEqual, ShiftRightEqual,
    AmpersandEqual, PipeEqual, CaretEqual]"
  by (auto intro: operator.induct)

abbreviation next_is :: "char \<Rightarrow> string \<Rightarrow> bool" where
  "next_is a r \<equiv> begins (\<lambda>c. c = a) r"

lemma take_next:
  "take (Suc 0) r = [a] \<longleftrightarrow> next_is a r"
  "take (Suc (Suc 0)) r = [a, b] \<longleftrightarrow> next_is a r \<and> next_is b (tl r)"
  by (cases r; cases "tl r"; auto simp: begins_def)+

lemmas longest_cases = longest_punctuation_def all_delimiters all_operators take_next

lemma match_ahead:
  "code a \<noteq> 0 \<Longrightarrow> match a st = (if next_is a (ahead st) then (True, skip1 st) else (False, st))"
  using peek_begins(1) [of "\<lambda>c. c = a" st] by (auto simp: match_def at_end_ahead begins_def)

lemma match1_ahead:
  "code a \<noteq> 0 \<Longrightarrow> match1 a ka k st = (if next_is a (ahead st) then (ka, skip1 st) else (k, st))"
  by (simp add: match1_def match_ahead)

lemma match2_ahead:
  "code a \<noteq> 0 \<Longrightarrow> code b \<noteq> 0 \<Longrightarrow> match2 a ka b kb k st =
     (if next_is a (ahead st) then (ka, skip1 st) else if next_is b (ahead st) then (kb, skip1 st) else (k, st))"
  by (simp add: match2_def match_ahead match1_ahead)

lemma next_is_Cons: "next_is a r \<Longrightarrow> r = a # tl r"
  by (cases r) (auto simp: begins_def)

lemma next_is_other: "next_is a r \<Longrightarrow> a \<noteq> b \<Longrightarrow> \<not> next_is b r"
  by (simp add: begins_def)

definition punctuation_read :: "TokenKind \<Rightarrow> string \<Rightarrow> string \<Rightarrow> bool" where
  "punctuation_read k rest after \<longleftrightarrow>
     (case k of
        Delimiter d \<Rightarrow> rest = delimiter_spelling d @ after \<and> longest_punctuation rest (delimiter_spelling d)
      | Operator p \<Rightarrow> rest = operator_spelling p @ after \<and> longest_punctuation rest (operator_spelling p)
      | _ \<Rightarrow> False)"

lemma scan_punctuation_read:
  "scan_punctuation c st = Some (k, st') \<Longrightarrow> punctuation_read k (c # ahead st) (ahead st')"
  unfolding scan_punctuation_def
  by (simp add: match_ahead match1_ahead match2_ahead split: if_splits;
      (elim conjE)?; hypsubst?; simp add: punctuation_read_def longest_cases ahead_skip1 next_is_Cons [symmetric] next_is_other)

section \<open>Classified tokens\<close>

lemma advance_fst: "lx_current st < length (lx_input st) \<Longrightarrow> fst (advance st) = lx_input st ! lx_current st"
  by (simp add: advance_def Let_def)

lemma ahead_Cons:
  "lx_current st < length (lx_input st) \<Longrightarrow> ahead st = (lx_input st ! lx_current st) # ahead (skip1 st)"
  by (simp add: ahead_def Cons_nth_drop_Suc)

lemma text_error_reported:
  "\<not> eng_has_errors (report_text_literal_error token kind e) \<Longrightarrow>
   tl_error (decode_text_literal (tok_lexeme token) kind) = tleNone"
  by (auto simp: report_text_literal_error_def Let_def engine_defs split: TextLiteralError.splits)

lemma scan_text_read:
  assumes "scan_text d k tk m (lx_current st) (current_location st) (skip1 st) = (t, st')"
    "lx_current st < length (lx_input st)" "lx_input st ! lx_current st = d"
  shows "tok_kind t = k" "quoted_closed d (tok_lexeme t) \<or> quoted_open d (ahead st) (tok_lexeme t)"
    "\<not> eng_has_errors (lx_diagnostics st') \<Longrightarrow>
       quoted_closed d (tok_lexeme t) \<and> tl_error (decode_text_literal (tok_lexeme t) tk) = tleNone"
proof -
  obtain closed_flag r where r: "scan_quoted d (skip1 st) = (closed_flag, r)"
    by (cases "scan_quoted d (skip1 st)")
  have a: "ahead st = d # ahead (skip1 st)"
    using ahead_Cons [OF assms(2)] assms(3) by simp
  let ?t = "make_token k (lx_current st) (current_location st) r"
  have t: "t = ?t" and st': "st' = (if closed_flag
      then r\<lparr>lx_diagnostics := report_text_literal_error ?t tk (lx_diagnostics r)\<rparr>
      else report_error_at (current_location st) m r)"
    using assms(1) by (auto simp: scan_text_def r Let_def split: if_splits)
  show "tok_kind t = k" by (simp add: t make_token_def)
  have mv: "moves st r"
    using moves_trans [OF moves_skip1 moves_scan_quoted [of "skip1 st" d]] assms(2) r by simp
  obtain b where b: "quoted_body d b"
    "if closed_flag then ahead (skip1 st) = b @ d # ahead r
     else (ahead (skip1 st) = b @ ahead r \<or> ahead (skip1 st) = b @ backslash # ahead r) \<and>
       (ahead r = [] \<or> begins is_newline (ahead r))"
    using scan_quoted_spec [OF r] by blast
  have lexeme: "tok_lexeme t = seg st r"
    using moves_fields(1) [OF mv] by (simp add: t make_token_def seg_def)
  have closed_lexeme: "quoted_closed d (tok_lexeme t)" if closed_flag
  proof -
    have "ahead st = (d # b @ [d]) @ ahead r" using b(2) a that by simp
    from seg_ahead [OF mv this] show ?thesis using b(1) lexeme by (auto simp: quoted_closed_def)
  qed
  have open_lexeme: "quoted_open d (ahead st) (tok_lexeme t)" if "\<not> closed_flag"
  proof -
    have split: "ahead st = tok_lexeme t @ ahead r" using ahead_seg [OF mv] lexeme by simp
    have "ahead st = (d # b) @ ahead r \<or> ahead st = (d # b @ [backslash]) @ ahead r"
      using b(2) a that by auto
    then have "tok_lexeme t = d # b \<or> tok_lexeme t = d # b @ [backslash]"
      using seg_ahead [OF mv] lexeme by metis
    moreover have "drop (length (tok_lexeme t)) (ahead st) = ahead r" by (subst split) simp
    ultimately show ?thesis using b that unfolding quoted_open_def by auto
  qed
  show "quoted_closed d (tok_lexeme t) \<or> quoted_open d (ahead st) (tok_lexeme t)"
    using closed_lexeme open_lexeme by blast
  show "quoted_closed d (tok_lexeme t) \<and> tl_error (decode_text_literal (tok_lexeme t) tk) = tleNone"
    if "\<not> eng_has_errors (lx_diagnostics st')"
    using that closed_lexeme text_error_reported [of ?t tk "lx_diagnostics r"]
    by (cases closed_flag) (simp_all add: st' t)
qed

lemma scan_number_read:
  assumes "scan_number (lx_current st) (current_location st) (skip1 st) = (t, st')"
    "lx_current st < length (lx_input st)" "is_digit (lx_input st ! lx_current st)"
  shows "kind_spells (tok_kind t) (ahead st) (tok_lexeme t)"
    "tok_kind t \<in> {kIntegerLiteral, kFloatLiteral}"
    "\<not> eng_has_errors (lx_diagnostics st') \<Longrightarrow>
       sp_error (parse_numeric_literal_spelling (tok_lexeme t)) = nleNone"
proof -
  let ?e = "scan_number_characters (lx_current st) (skip1 st)"
  have mv: "moves st ?e" by (rule moves_trans [OF moves_skip1 [OF assms(2)] moves_scan_number_characters])
  have lexeme: "tok_lexeme t = number_text (ahead st)"
    using assms(1) seg_ahead [OF mv scan_number_ahead [OF assms(2,3)]] moves_fields(1) [OF mv]
    by (auto simp: scan_number_def Let_def make_token_def seg_def)
  have head: "begins decimal_char (ahead st)"
    using assms(2,3) by (simp add: begins_def ahead_def decimal_char_eq hd_drop_conv_nth)
  then obtain c r where c: "ahead st = c # r" "decimal_char c" by (cases "ahead st") (auto simp: begins_def)
  have "begins decimal_char (number_text (ahead st))"
    using c by (auto simp: number_text_def Let_def begins_def separated_char_def)
  then have fl: "sp_is_floating (parse_numeric_literal_spelling (tok_lexeme t)) = number_floating (tok_lexeme t)"
    unfolding lexeme by (rule number_floating_eq)
  have k: "tok_kind t = (if sp_is_floating (parse_numeric_literal_spelling (tok_lexeme t))
      then kFloatLiteral else kIntegerLiteral)"
    using assms(1) by (auto simp: scan_number_def Let_def make_token_def)
  show "kind_spells (tok_kind t) (ahead st) (tok_lexeme t)" "tok_kind t \<in> {kIntegerLiteral, kFloatLiteral}"
    using k fl head lexeme by simp_all
  show "\<not> eng_has_errors (lx_diagnostics st') \<Longrightarrow>
       sp_error (parse_numeric_literal_spelling (tok_lexeme t)) = nleNone"
    using assms(1) by (auto simp: scan_number_def Let_def make_token_def engine_defs split: if_splits)
qed

lemma scan_identifier_read:
  assumes "scan_identifier (lx_current st) (current_location st) (skip1 st) = (t, st')"
    "lx_current st < length (lx_input st)" "is_identifier_start (lx_input st ! lx_current st)"
  shows "kind_spells (tok_kind t) (ahead st) (tok_lexeme t)" "tok_kind t \<noteq> kEof"
    "tok_kind t = identifier_token_kind (tok_lexeme t)"
proof -
  let ?e = "skip_identifier (skip1 st)"
  have mv: "moves st ?e" by (rule moves_trans [OF moves_skip1 [OF assms(2)] identifier_loop.loop_moves])
  have a: "ahead st = (lx_input st ! lx_current st) # ahead (skip1 st)"
    by (rule ahead_Cons [OF assms(2)])
  have head: "begins word_start (ahead st)" using a assms(3) by (simp add: begins_def word_start_eq)
  have "word_char (lx_input st ! lx_current st)" using assms(3) by (simp add: word_char_def word_start_eq)
  then have "ahead st = word_text (ahead st) @ ahead ?e"
    by (simp add: word_text_def identifier_chars.loop_ahead word_char_eq a)
  then have lexeme: "tok_lexeme t = word_text (ahead st)"
    using assms(1) seg_ahead [OF mv, of "word_text (ahead st)"]
    by (auto simp: scan_identifier_def Let_def seg_def)
  show k: "tok_kind t = identifier_token_kind (tok_lexeme t)"
    using assms(1) by (auto simp: scan_identifier_def Let_def)
  show "kind_spells (tok_kind t) (ahead st) (tok_lexeme t)" "tok_kind t \<noteq> kEof"
    using identifier_kind_spells [OF head lexeme] k by simp_all
qed

lemma identifier_no_literal: "literal_accepted t" if "tok_kind t = identifier_token_kind s"
  using find_keyword_cases [of kKeywords s] find_keyword_kinds that
  by (cases "identifier_token_kind s")
    (fastforce simp: literal_accepted_def identifier_token_kind_def list_all_iff)+

lemma scan_token_classified:
  assumes "scan_token st = (Some t, st')" "lx_current st < length (lx_input st)"
  shows "token_classified (lx_input st) t" "tok_kind t \<noteq> kEof"
    "\<not> eng_has_errors (lx_diagnostics st') \<Longrightarrow> literal_accepted t"
proof -
  let ?c = "lx_input st ! lx_current st" and ?s = "skip1 st" and ?l = "current_location st"
  let ?i = "lx_current st"
  have ne: "\<not> at_end st" using assms(2) by (simp add: not_at_end)
  have c: "fst (advance st) = ?c" using assms(2) by (rule advance_fst)
  note bt = scan_token_between [OF assms(1) ne]
  have a: "ahead st = ?c # ahead ?s" by (rule ahead_Cons [OF assms(2)])
  have tb: "tok_begin t = ?i" using bt(1) by (simp add: token_between_def tok_begin_def current_location_def)
  have lexeme: "tok_lexeme t = seg st st'" using bt(1) by (simp add: token_between_def seg_def)
  have "kind_spells (tok_kind t) (ahead st) (tok_lexeme t) \<and> tok_kind t \<noteq> kEof \<and>
    (\<not> eng_has_errors (lx_diagnostics st') \<longrightarrow> literal_accepted t)"
  proof (cases "is_identifier_start ?c")
    case True
    then have "scan_identifier ?i ?l ?s = (t, st')"
      using assms(1) c by (auto simp: scan_token_eq Let_def map_prod_def split: prod.splits)
    from scan_identifier_read [OF this assms(2) True] show ?thesis
      using identifier_no_literal by blast
  next
    case notid: False
    show ?thesis
    proof (cases "is_digit ?c")
      case True
      then have "scan_number ?i ?l ?s = (t, st')"
        using assms(1) c notid by (auto simp: scan_token_eq Let_def map_prod_def split: prod.splits)
      from scan_number_read [OF this assms(2) True] show ?thesis
        by (auto simp: literal_accepted_def)
    next
      case notdig: False
      show ?thesis
      proof (cases "?c = quote \<or> ?c = apostrophe")
        case True
        have "apostrophe \<noteq> quote" by (simp add: char_code)
        with True consider (str) "?c = quote" "scan_string ?i ?l ?s = (t, st')"
          | (chr) "?c = apostrophe" "scan_character ?i ?l ?s = (t, st')"
          using assms(1) c notid notdig
          by (auto simp: scan_token_eq Let_def map_prod_def split: prod.splits)
        then show ?thesis
        proof cases
          case str
          from scan_text_read [OF str(2) [unfolded scan_string_def] assms(2) str(1)]
          show ?thesis by (auto simp: literal_accepted_def)
        next
          case chr
          from scan_text_read [OF chr(2) [unfolded scan_character_def] assms(2) chr(1)]
          show ?thesis by (auto simp: literal_accepted_def)
        qed
      next
        case False
        then obtain p where p: "scan_punctuation ?c ?s = Some p" "st' = snd p" "tok_kind t = fst p"
          using assms(1) c notid notdig
          by (auto simp: scan_token_eq Let_def make_token_def split: option.splits)
        have r: "punctuation_read (tok_kind t) (ahead st) (ahead st')"
          using scan_punctuation_read [of ?c ?s "fst p" "snd p"] p a by simp
        then show ?thesis
          using seg_ahead [OF bt(2)] lexeme
          by (auto simp: punctuation_read_def literal_accepted_def split: TokenKind.splits)
      qed
    qed
  qed
  then show "token_classified (lx_input st) t" "tok_kind t \<noteq> kEof"
    "\<not> eng_has_errors (lx_diagnostics st') \<Longrightarrow> literal_accepted t"
    by (simp_all add: token_classified_def tb ahead_def)
qed

section \<open>The whole run\<close>

fun gaps_ok :: "string \<Rightarrow> nat \<Rightarrow> Token list \<Rightarrow> bool" where
  "gaps_ok input i [] \<longleftrightarrow> ignorable True (drop i input)"
| "gaps_ok input i (t # ts) \<longleftrightarrow>
     ignorable False (substr input i (tok_begin t - i)) \<and> gaps_ok input (tok_end t) ts"

definition eof_token :: "Lexer \<Rightarrow> Token" where
  "eof_token st = make_token kEof (lx_current st) (current_location st) st"

lemma scan_token_None_error:
  assumes "scan_token st = (None, st')" shows "eng_has_errors (lx_diagnostics st')"
  using assms by (auto simp: scan_token_eq Let_def map_prod_def split: if_splits option.splits prod.splits)

lemma lex_loop_spec:
  assumes "lex_ok st"
  shows "\<exists>body st'. lex_loop st tokens = (tokens @ body @ [eof_token st'], st') \<and> moves st st' \<and>
    at_end st' \<and> tokens_from (lx_current st) body \<and>
    (\<forall>t \<in> set body. token_placed (lx_file st) (lx_input st) t \<and> token_classified (lx_input st) t \<and>
       tok_kind t \<noteq> kEof) \<and>
    (\<not> eng_has_errors (lx_diagnostics st') \<longrightarrow>
       gaps_ok (lx_input st) (lx_current st) body \<and> list_all literal_accepted body)"
  using assms
proof (induction st tokens rule: lex_loop.induct)
  case (1 st tokens)
  let ?s = "skip_ignored st"
  have mv: "moves st ?s" by (rule moves_skip_ignored)
  have ok: "lex_ok ?s" by (rule lex_ok_moves [OF 1(3) mv])
  have f: "lx_input ?s = lx_input st" "lx_file ?s = lx_file st" "lx_current st \<le> lx_current ?s"
    using moves_fields [OF mv] by auto
  have le: "lx_current st \<le> length (lx_input st)" using 1(3) by (simp add: lex_ok_def)
  show ?case
  proof (cases "at_end ?s")
    case True
    have cur: "lx_current ?s = length (lx_input st)"
      using True ok f by (simp add: at_end_def lex_ok_def)
    have "lex_loop st tokens = (tokens @ [] @ [eof_token ?s], ?s)"
      using True by (subst lex_loop.simps) (simp add: Let_def eof_token_def)
    moreover have "gaps_ok (lx_input st) (lx_current st) []" if "\<not> eng_has_errors (lx_diagnostics ?s)"
      using skip_ignored_seg [OF le that] True cur by (simp add: seg_def substr_def)
    ultimately show ?thesis using mv True by fastforce
  next
    case False
    then have inb: "lx_current ?s < length (lx_input ?s)" by (simp add: not_at_end)
    obtain r s2 where sc: "scan_token ?s = (r, s2)" by (cases "scan_token ?s")
    have mv2: "moves ?s s2"
      using moves_trans [OF moves_skip1 [OF inb] moves_scan_token [of ?s]] sc by simp
    have mst: "moves st s2" by (rule moves_trans [OF mv mv2])
    have ok2: "lex_ok s2" by (rule lex_ok_moves [OF ok mv2])
    have f2: "lx_input s2 = lx_input st" "lx_file s2 = lx_file st" "lx_current st \<le> lx_current s2"
      using moves_fields [OF mst] by auto
    show ?thesis
    proof (cases r)
      case None
      have eq: "lex_loop st tokens = lex_loop s2 tokens"
        using False sc None by (subst lex_loop.simps) (simp add: Let_def)
      obtain body st' where B: "lex_loop s2 tokens = (tokens @ body @ [eof_token st'], st')"
          "moves s2 st'" "at_end st'" "tokens_from (lx_current s2) body"
          "\<forall>t \<in> set body. token_placed (lx_file s2) (lx_input s2) t \<and> token_classified (lx_input s2) t \<and>
             tok_kind t \<noteq> kEof"
        using 1(1) [OF refl False sc [symmetric, unfolded None] refl ok2] sc None by fastforce
      have "eng_has_errors (lx_diagnostics st')"
        using scan_token_None_error sc None no_errors_back [OF B(2)] by blast
      moreover have "tokens_from (lx_current st) body"
        using B(4) f2(3) by (cases body) auto
      ultimately show ?thesis
        using eq B f2 moves_trans [OF mst B(2)] by (intro exI [of _ body] exI [of _ st']) simp
    next
      case (Some t)
      have eq: "lex_loop st tokens = lex_loop s2 (tokens @ [t])"
        using False sc Some by (subst lex_loop.simps) (simp add: Let_def)
      note bt = scan_token_between [OF sc [unfolded Some] False]
      note pl = token_between_placed [OF bt(1) ok bt(2)]
      note cl = scan_token_classified [OF sc [unfolded Some] inb]
      obtain body st' where B: "lex_loop s2 (tokens @ [t]) = ((tokens @ [t]) @ body @ [eof_token st'], st')"
          "moves s2 st'" "at_end st'" "tokens_from (lx_current s2) body"
          "\<forall>t \<in> set body. token_placed (lx_file s2) (lx_input s2) t \<and> token_classified (lx_input s2) t \<and>
             tok_kind t \<noteq> kEof"
          "\<not> eng_has_errors (lx_diagnostics st') \<longrightarrow>
             gaps_ok (lx_input s2) (lx_current s2) body \<and> list_all literal_accepted body"
        using 1(2) [OF refl False sc [symmetric, unfolded Some] refl ok2] by fastforce
      have lt: "tok_begin t < tok_end t"
        using scan_token_progress(2) [OF False] sc pl by simp
      have gap: "ignorable False (substr (lx_input st) (lx_current st) (tok_begin t - lx_current st))"
        if "\<not> eng_has_errors (lx_diagnostics st')"
      proof -
        have "\<not> eng_has_errors (lx_diagnostics ?s)"
          using that no_errors_back [OF moves_trans [OF mv2 B(2)]] by simp
        then show ?thesis using skip_ignored_seg [OF le] False pl(2) by (simp add: seg_def)
      qed
      have acc: "literal_accepted t" if "\<not> eng_has_errors (lx_diagnostics st')"
        using cl(3) no_errors_back [OF B(2) that] by blast
      show ?thesis
        using eq B f f2 pl cl(1,2) lt gap acc moves_trans [OF mst B(2)]
        by (intro exI [of _ "t # body"] exI [of _ st']) simp
    qed
  qed
qed

section \<open>Properties\<close>

lemma lex_spec:
  obtains body st' where "lex source e = (body @ [eof_token st'], st')"
    "moves (make_lexer source e) st'" "at_end st'" "lex_ok st'" "tokens_from 0 body"
    "list_all (\<lambda>t. token_placed (sf_display_path source) (sf_contents source) t \<and>
       token_classified (sf_contents source) t \<and> tok_kind t \<noteq> kEof) body"
    "\<not> eng_has_errors (lx_diagnostics st') \<Longrightarrow>
       gaps_ok (sf_contents source) 0 body \<and> list_all literal_accepted body"
proof -
  let ?st = "make_lexer source e"
  have init: "lx_input ?st = sf_contents source" "lx_file ?st = sf_display_path source" "lx_current ?st = 0"
    by (simp_all add: make_lexer_def)
  obtain body st' where b: "lex_loop ?st [] = ([] @ body @ [eof_token st'], st')"
      "moves ?st st'" "at_end st'" "tokens_from (lx_current ?st) body"
      "\<forall>t \<in> set body. token_placed (lx_file ?st) (lx_input ?st) t \<and> token_classified (lx_input ?st) t \<and>
         tok_kind t \<noteq> kEof"
      "\<not> eng_has_errors (lx_diagnostics st') \<longrightarrow>
         gaps_ok (lx_input ?st) (lx_current ?st) body \<and> list_all literal_accepted body"
    using lex_loop_spec [OF lex_ok_make [of source e], of "[]"] by metis
  show thesis
    by (rule that [of body st']) (use b init lex_ok_moves [OF lex_ok_make b(2)] in \<open>auto simp: lex_def list_all_iff\<close>)
qed

lemma eof_token_facts:
  assumes "lex_ok st'" "at_end st'" "moves (make_lexer source e) st'"
  shows "tok_kind (eof_token st') = kEof" "tok_lexeme (eof_token st') = []"
    "tok_begin (eof_token st') = length (sf_contents source)" "tok_end (eof_token st') = length (sf_contents source)"
    "token_placed (sf_display_path source) (sf_contents source) (eof_token st')"
    "token_classified (sf_contents source) (eof_token st')" "literal_accepted (eof_token st')"
proof -
  have i: "lx_input st' = sf_contents source" "lx_file st' = sf_display_path source"
    using moves_fields(1,2) [OF assms(3)] by (simp_all add: make_lexer_def)
  then have c: "lx_current st' = length (sf_contents source)"
    using assms(1,2) by (simp add: at_end_def lex_ok_def)
  show k: "tok_kind (eof_token st') = kEof" "tok_lexeme (eof_token st') = []"
    by (simp_all add: eof_token_def make_token_def substr_def)
  show b: "tok_begin (eof_token st') = length (sf_contents source)" "tok_end (eof_token st') = length (sf_contents source)"
    by (simp_all add: eof_token_def make_token_def tok_begin_def tok_end_def current_location_def c)
  show "token_placed (sf_display_path source) (sf_contents source) (eof_token st')"
    using token_between_placed(1) [OF make_token_between [OF moves_refl, of st'] assms(1) moves_refl] i
    by (simp add: eof_token_def)
  show "token_classified (sf_contents source) (eof_token st')" "literal_accepted (eof_token st')"
    by (simp_all add: token_classified_def literal_accepted_def k b)
qed

text \<open>
  C10: the lexer ends on every input, never reads outside it, and returns a token list that is a
  sequence of non-empty tokens in source order without overlaps, closed by exactly one end-of-file
  token at the end of the input; earlier diagnostics are kept.
\<close>

theorem lex_complete:
  "\<exists>body eof. fst (lex source e) = body @ [eof] \<and> tokens_from 0 body \<and>
     list_all (\<lambda>t. tok_kind t \<noteq> kEof \<and> tok_end t \<le> length (sf_contents source)) body \<and>
     tok_kind eof = kEof \<and> tok_lexeme eof = [] \<and> tok_begin eof = length (sf_contents source) \<and>
     tok_end eof = length (sf_contents source) \<and>
     \<not> lx_fault (snd (lex source e)) \<and>
     (\<exists>new. eng_diagnostics (lx_diagnostics (snd (lex source e))) = eng_diagnostics e @ new)"
proof (rule lex_spec [of source e])
  fix body st'
  assume a: "lex source e = (body @ [eof_token st'], st')" "moves (make_lexer source e) st'"
    "at_end st'" "lex_ok st'" "tokens_from 0 body"
    "list_all (\<lambda>t. token_placed (sf_display_path source) (sf_contents source) t \<and>
       token_classified (sf_contents source) t \<and> tok_kind t \<noteq> kEof) body"
  have "list_all (\<lambda>t. tok_kind t \<noteq> kEof \<and> tok_end t \<le> length (sf_contents source)) body"
    using a(6) by (auto simp: list_all_iff token_placed_def)
  moreover have "\<exists>new. eng_diagnostics (lx_diagnostics st') = eng_diagnostics e @ new"
    using moves_fields(5) [OF a(2)] by (simp add: engine_extends_def make_lexer_def)
  moreover have "\<not> lx_fault st'" using a(4) by (simp add: lex_ok_def)
  ultimately show ?thesis
    using a(1,5) eof_token_facts [OF a(4,3,2)]
    by (intro exI [of _ body] exI [of _ "eof_token st'"]) simp
qed

text \<open>
  C11: every token's text is the source text of its range, and both ends of the range carry the file,
  byte offset, line and column of that offset: a line ends at a carriage return, a line feed or
  the pair of them, and columns count bytes from 1 (both modulo the width of their fields).
\<close>

theorem lex_positions:
  "list_all (token_placed (sf_display_path source) (sf_contents source)) (fst (lex source e))"
proof (rule lex_spec [of source e])
  fix body st'
  assume a: "lex source e = (body @ [eof_token st'], st')" "moves (make_lexer source e) st'"
    "at_end st'" "lex_ok st'"
    "list_all (\<lambda>t. token_placed (sf_display_path source) (sf_contents source) t \<and>
       token_classified (sf_contents source) t \<and> tok_kind t \<noteq> kEof) body"
  then show ?thesis
    using eof_token_facts(5) [OF a(4,3,2)] by (auto simp: list_all_iff)
qed

text \<open>
  C12: every token has the kind that the language gives to the text at its place, stated apart from the
  lexer's tables and loops. Punctuation has its fixed spelling, and no longer punctuation starts there.
  A word extends over all word characters; it is a keyword or type keyword exactly when it is that
  keyword's name, and an identifier when it is none of them. A number extends over its digits, its fraction, its
  exponent and the word characters after them; it is floating exactly when it has no base prefix and has a
  fraction, an exponent or a floating suffix. A quoted literal runs to its first unescaped delimiter,
  or to the line break or end of input that cuts it off. When the run reports no error, all
  quoted literals are closed and the decoders accept all literals.
\<close>

theorem lex_kinds:
  "list_all (token_classified (sf_contents source)) (fst (lex source e)) \<and>
   (eng_has_errors (lx_diagnostics (snd (lex source e))) \<or> list_all literal_accepted (fst (lex source e)))"
proof (rule lex_spec [of source e])
  fix body st'
  assume a: "lex source e = (body @ [eof_token st'], st')" "moves (make_lexer source e) st'"
    "at_end st'" "lex_ok st'"
    "list_all (\<lambda>t. token_placed (sf_display_path source) (sf_contents source) t \<and>
       token_classified (sf_contents source) t \<and> tok_kind t \<noteq> kEof) body"
    "\<not> eng_has_errors (lx_diagnostics st') \<Longrightarrow>
       gaps_ok (sf_contents source) 0 body \<and> list_all literal_accepted body"
  then show ?thesis
    using eof_token_facts(6,7) [OF a(4,3,2)] by (auto simp: list_all_iff)
qed

text \<open>
  C13: nothing is lost: when the run reports no error, the text between consecutive tokens, before the
  first and after the last is made of spaces, line breaks and complete comments only.
\<close>

theorem lex_lossless:
  "\<not> eng_has_errors (lx_diagnostics (snd (lex source e))) \<Longrightarrow>
     gaps_ok (sf_contents source) 0 (butlast (fst (lex source e)))"
proof (rule lex_spec [of source e])
  fix body st'
  assume a: "\<not> eng_has_errors (lx_diagnostics (snd (lex source e)))" "lex source e = (body @ [eof_token st'], st')"
    "\<not> eng_has_errors (lx_diagnostics st') \<Longrightarrow>
       gaps_ok (sf_contents source) 0 body \<and> list_all literal_accepted body"
  then show ?thesis by simp
qed

definition sample_source :: SourceFile where
  "sample_source = \<lparr>sf_display_path = ''a.co'', sf_contents = ''x //y''\<rparr>"

theorem lex_lossless_witness:
  "\<not> eng_has_errors (lx_diagnostics (snd (lex sample_source empty_engine))) \<and>
   gaps_ok ''x //y'' 0 (butlast (fst (lex sample_source empty_engine)))"
proof -
  have "\<not> eng_has_errors (lx_diagnostics (snd (lex sample_source empty_engine)))"
    by code_simp
  then show ?thesis using lex_lossless [of sample_source empty_engine] by (simp add: sample_source_def)
qed

end
