(* ===== verification/Ast.thy ===== *)
theory Ast
  imports Prelude
begin

text \<open>
  The parts of the syntax tree (\<^verbatim>\<open>include/cloth/ast/ast.h\<close>) that several passes share: the kinds of
  literals, of file classes and of their members, and references to members.
\<close>

datatype LiteralKind = lkInteger | lkFloat | lkString | lkCharacter | lkBoolean | lkNull | lkEnum

datatype FileTypeKind = ftClass | ftInterface | ftEnum | ftStruct | ftError

datatype DeclarationKind = dkField | dkFunction | dkConstructor | dkNestedType

record MemberReference =
  mr_kind :: DeclarationKind
  mr_index :: nat

end
