(* ===== verification/Naturals.thy ===== *)
theory Naturals
  imports Prelude
begin

text \<open>
  The unsigned big integers of the constant evaluator (class \<open>Natural\<close> in
  \<^verbatim>\<open>src/sema/scalar_constants.cc\<close>): little-endian lists of 32-bit words without leading zero
  words. Every operation is shown to compute on the natural number it stands for and to keep the
  representation normal; the interface is the locale \<open>natural_ops\<close>.
\<close>

section \<open>The code\<close>

type_synonym Natural = "u32 list"

definition natural_of_u64 :: "u64 \<Rightarrow> Natural" where
  "natural_of_u64 v =
     (if v \<noteq> 0 then [ucast v] else []) @
     (if drop_bit 32 v \<noteq> 0 then [ucast (drop_bit 32 v)] else [])"

definition nat_zero :: "Natural \<Rightarrow> bool" where
  "nat_zero ws \<longleftrightarrow> ws = []"

text \<open>\<^verbatim>\<open>std::countl_zero\<close> of a 32-bit word.\<close>

function bit_length :: "nat \<Rightarrow> nat" where
  "bit_length n = (if n = 0 then 0 else Suc (bit_length (n div 2)))"
  by pat_completeness auto
termination by (relation "measure id") auto

declare bit_length.simps [simp del]

definition countl_zero :: "u32 \<Rightarrow> nat" where
  "countl_zero w = 32 - bit_length (unat w)"

definition nat_width :: "Natural \<Rightarrow> nat" where
  "nat_width ws = (if nat_zero ws then 0 else (length ws - 1) * 32 + 32 - countl_zero (last ws))"

definition nat_low :: "Natural \<Rightarrow> u64" where
  "nat_low ws =
     (if nat_zero ws then 0
      else ucast (ws ! 0) OR (if length ws > 1 then push_bit 32 (ucast (ws ! 1)) else 0))"

text \<open>The comparison loop runs from the most significant word down.\<close>

fun compare_words :: "u32 list \<Rightarrow> u32 list \<Rightarrow> int" where
  "compare_words (a # as) (b # bs) =
     (if a \<noteq> b then (if a < b then -1 else 1) else compare_words as bs)"
| "compare_words _ _ = 0"

definition nat_compare :: "Natural \<Rightarrow> Natural \<Rightarrow> int" where
  "nat_compare xs ys =
     (if length xs \<noteq> length ys then (if length xs < length ys then -1 else 1)
      else compare_words (rev xs) (rev ys))"

definition push_carry :: "u64 \<Rightarrow> u32 list" where
  "push_carry carry = (if carry \<noteq> 0 then [ucast carry] else [])"

fun shift_words :: "nat \<Rightarrow> u32 list \<Rightarrow> u64 \<Rightarrow> u32 list" where
  "shift_words part [] carry = push_carry carry"
| "shift_words part (w # ws) carry =
     (let v = push_bit part (ucast w :: u64) OR carry in
      ucast v # shift_words part ws (drop_bit 32 v))"

definition nat_shift :: "nat \<Rightarrow> Natural \<Rightarrow> Natural" where
  "nat_shift bits ws =
     (if nat_zero ws \<or> bits = 0 then ws
      else replicate (bits div 32) 0 @ shift_words (bits mod 32) ws 0)"

fun add_words :: "u32 list \<Rightarrow> u32 list \<Rightarrow> u64 \<Rightarrow> u32 list" where
  "add_words [] ys carry = push_carry carry"
| "add_words (x # xs) ys carry =
     (let v = ucast x + carry + (case ys of [] \<Rightarrow> 0 | y # _ \<Rightarrow> ucast y) in
      ucast v # add_words xs (tl ys) (drop_bit 32 v))"

definition nat_add :: "Natural \<Rightarrow> Natural \<Rightarrow> Natural" where
  "nat_add xs ys = add_words (xs @ replicate (max (length xs) (length ys) - length xs) 0) ys 0"

fun subtract_words :: "u32 list \<Rightarrow> u32 list \<Rightarrow> u64 \<Rightarrow> u32 list" where
  "subtract_words [] ys borrow = []"
| "subtract_words (x # xs) ys borrow =
     (let sub = borrow + (case ys of [] \<Rightarrow> 0 | y # _ \<Rightarrow> ucast y);
          v = (ucast x :: u64) in
      ucast (v - sub) # subtract_words xs (tl ys) (if v < sub then 1 else 0))"

text \<open>\<^verbatim>\<open>while (!words_.empty() && words_.back() == 0) words_.pop_back();\<close>\<close>

definition trim :: "u32 list \<Rightarrow> u32 list" where
  "trim ws = rev (dropWhile (\<lambda>w. w = 0) (rev ws))"

definition nat_subtract :: "Natural \<Rightarrow> Natural \<Rightarrow> Natural" where
  "nat_subtract xs ys = trim (subtract_words xs ys 0)"

text \<open>
  One row of the schoolbook product: \<open>rs\<close> is the result from position \<open>i\<close> on, the carry is stored
  behind the row.
\<close>

fun multiply_row :: "u32 \<Rightarrow> u32 list \<Rightarrow> u32 list \<Rightarrow> u64 \<Rightarrow> u32 list" where
  "multiply_row w [] (r # rs) carry = ucast carry # rs"
| "multiply_row w (y # ys) (r # rs) carry =
     (let v = (ucast w :: u64) * ucast y + ucast r + carry in
      ucast v # multiply_row w ys rs (drop_bit 32 v))"
| "multiply_row w ys [] carry = []"

fun multiply_words :: "u32 list \<Rightarrow> u32 list \<Rightarrow> u32 list \<Rightarrow> u32 list" where
  "multiply_words [] ys rs = rs"
| "multiply_words (x # xs) ys rs =
     (case multiply_row x ys rs 0 of [] \<Rightarrow> [] | r # rs' \<Rightarrow> r # multiply_words xs ys rs')"

definition nat_multiply :: "Natural \<Rightarrow> Natural \<Rightarrow> Natural" where
  "nat_multiply xs ys =
     (if nat_zero xs \<or> nat_zero ys then []
      else trim (multiply_words xs ys (replicate (length xs + length ys) 0)))"

section \<open>Values\<close>

fun nat_value :: "u32 list \<Rightarrow> nat" where
  "nat_value [] = 0"
| "nat_value (w # ws) = unat w + 2 ^ 32 * nat_value ws"

definition normal :: "u32 list \<Rightarrow> bool" where
  "normal ws \<longleftrightarrow> ws = [] \<or> last ws \<noteq> 0"

lemma nat_value_append: "nat_value (xs @ ys) = nat_value xs + 2 ^ (32 * length xs) * nat_value ys"
  by (induction xs) (simp_all add: algebra_simps power_add)

lemma nat_value_replicate [simp]: "nat_value (replicate n 0) = 0"
  by (induction n) simp_all

lemma nat_value_less: "nat_value ws < 2 ^ (32 * length ws)"
proof (induction ws)
  case (Cons w ws)
  have "unat w + 2 ^ 32 * nat_value ws < 2 ^ 32 * (nat_value ws + 1)"
    using unat_lt_u32 [of w] by simp
  also have "\<dots> \<le> 2 ^ 32 * 2 ^ (32 * length ws)"
    using Cons by (intro mult_le_mono2) simp
  finally show ?case by (simp add: power_add)
qed simp

lemma unat_low_word: "unat (ucast v :: u32) = unat v mod 2 ^ 32" for v :: u64
  by (simp add: unat_ucast_mod)

lemma unat_wide [simp]: "unat (ucast w :: u64) = unat w" for w :: u32
  by (simp add: unat_ucast_up)

lemma split_word: "unat (ucast v :: u32) + 2 ^ 32 * unat (drop_bit 32 v) = unat v" for v :: u64
  by (simp add: unat_low_word unat_drop_bit)

lemma nat_value_push_carry: "unat c < 2 ^ 32 \<Longrightarrow> nat_value (push_carry c) = unat c"
  by (auto simp: push_carry_def unat_low_word)

lemma nat_value_of_u64: "nat_value (natural_of_u64 v) = unat v"
  using split_word [of v] unat_lt_u64 [of v]
  by (auto simp: natural_of_u64_def unat_low_word unat_drop_bit word_unat_eq_iff)

lemma normal_iff: "ws \<noteq> [] \<Longrightarrow> last ws \<noteq> 0 \<longleftrightarrow> 2 ^ (32 * (length ws - 1)) \<le> nat_value ws"
proof -
  assume ne: "ws \<noteq> []"
  let ?k = "2 ^ (32 * (length ws - 1)) :: nat"
  have v: "nat_value ws = nat_value (butlast ws) + ?k * unat (last ws)"
    using nat_value_append [of "butlast ws" "[last ws]"] ne by simp
  have b: "nat_value (butlast ws) < ?k" using nat_value_less [of "butlast ws"] by simp
  show ?thesis
  proof (cases "last ws = 0")
    case True
    then show ?thesis using v b by simp
  next
    case False
    then have "1 \<le> unat (last ws)" by (simp add: Suc_le_eq unat_gt_0)
    then have "?k * 1 \<le> ?k * unat (last ws)" by (rule mult_le_mono2)
    then have "?k \<le> ?k * unat (last ws)" by (simp only: mult_1_right)
    then have "?k \<le> nat_value ws" unfolding v by (rule trans_le_add2)
    then show ?thesis using False by simp
  qed
qed

lemma normal_Nil [simp]: "normal []"
  by (simp add: normal_def)

lemma normal_value_0: "normal ws \<Longrightarrow> nat_value ws = 0 \<longleftrightarrow> ws = []"
proof (cases "ws = []")
  case False
  moreover assume "normal ws"
  ultimately have "2 ^ (32 * (length ws - 1)) \<le> nat_value ws"
    using normal_iff [of ws] by (simp add: normal_def)
  moreover have "(0::nat) < 2 ^ (32 * (length ws - 1))" by simp
  ultimately have "nat_value ws \<noteq> 0" by linarith
  then show ?thesis using False by blast
qed simp

lemma unat_high_word: "unat (drop_bit 32 v) < 2 ^ 32" for v :: u64
  using unat_lt_u64 [of v] by (simp add: unat_drop_bit)

lemma normal_push_carry [simp]: "unat c < 2 ^ 32 \<Longrightarrow> normal (push_carry c)"
  by (auto simp: push_carry_def normal_def word_unat_eq_iff unat_low_word)

lemma normal_of_u64: "normal (natural_of_u64 v)"
  using split_word [of v] unat_lt_u64 [of v]
  by (auto simp: natural_of_u64_def normal_def word_unat_eq_iff unat_low_word unat_drop_bit)

section \<open>Shifts\<close>

lemma shift_step:
  fixes w :: u32 and carry :: u64
  assumes "part < 32" "unat carry < 2 ^ part"
  defines "v \<equiv> push_bit part (ucast w :: u64) OR carry"
  shows "unat v = unat w * 2 ^ part + unat carry" "unat (drop_bit 32 v) < 2 ^ part"
proof -
  have p: "(2::nat) ^ part \<le> 2 ^ 31" using assms(1) by (intro power_increasing) simp_all
  have "unat w * 2 ^ part + unat carry < (unat w + 1) * 2 ^ part" using assms(2) by simp
  also have "\<dots> \<le> 2 ^ 32 * 2 ^ part"
    using unat_lt_u32 [of w] by (intro mult_le_mono1) simp
  finally have lt: "unat w * 2 ^ part + unat carry < 2 ^ 32 * 2 ^ part" .
  also have "\<dots> \<le> 2 ^ 32 * 2 ^ 31" using p by (rule mult_le_mono2)
  finally have "unat w * 2 ^ part < 2 ^ 64" by simp
  then have pb: "unat (push_bit part (ucast w :: u64)) = unat w * 2 ^ part"
    by (simp add: unat_push_bit)
  show v: "unat v = unat w * 2 ^ part + unat carry"
    unfolding v_def using assms(2) by (subst unat_or_low_bits [where n = part]) (simp_all add: pb)
  show "unat (drop_bit 32 v) < 2 ^ part"
    using lt unfolding unat_drop_bit v by (simp add: div_less_iff_less_mult mult.commute)
qed

lemma shift_words_value:
  "part < 32 \<Longrightarrow> unat carry < 2 ^ part \<Longrightarrow>
   nat_value (shift_words part ws carry) = nat_value ws * 2 ^ part + unat carry"
proof (induction part ws carry rule: shift_words.induct)
  case (1 part carry)
  have "(2::nat) ^ part \<le> 2 ^ 31" using 1 by (intro power_increasing) simp_all
  then show ?case using 1 by (simp add: nat_value_push_carry)
next
  case (2 part w ws carry)
  let ?v = "push_bit part (ucast w :: u64) OR carry"
  note st = shift_step [OF "2.prems", of w]
  have "nat_value (shift_words part (w # ws) carry) =
      unat (ucast ?v :: u32) + 2 ^ 32 * (nat_value ws * 2 ^ part + unat (drop_bit 32 ?v))"
    using "2.IH" [OF refl "2.prems"(1) st(2)] by (simp add: Let_def)
  also have "\<dots> = unat ?v + 2 ^ 32 * (nat_value ws * 2 ^ part)"
    using split_word [of ?v] by (simp add: algebra_simps)
  finally show ?case by (simp add: st(1) algebra_simps)
qed

lemma shift_words_normal:
  "part < 32 \<Longrightarrow> unat carry < 2 ^ part \<Longrightarrow> ws \<noteq> [] \<Longrightarrow> last ws \<noteq> 0 \<Longrightarrow>
   shift_words part ws carry \<noteq> [] \<and> last (shift_words part ws carry) \<noteq> 0"
proof (induction part ws carry rule: shift_words.induct)
  case (2 part w ws carry)
  let ?v = "push_bit part (ucast w :: u64) OR carry"
  note st = shift_step [OF "2.prems"(1,2), of w]
  show ?case
  proof (cases "ws = []")
    case False
    then show ?thesis using 2 st by (simp add: Let_def)
  next
    case True
    then have w: "0 < unat w" using "2.prems" by (simp add: unat_gt_0)
    show ?thesis
    proof (cases "drop_bit 32 ?v = 0")
      case True
      then have "unat (ucast ?v :: u32) = unat ?v" using split_word [of ?v] by simp
      then have "unat (ucast ?v :: u32) \<noteq> 0" using st(1) w by simp
      then have "(ucast ?v :: u32) \<noteq> 0" by (metis unat_0)
      then show ?thesis using \<open>ws = []\<close> True by (simp add: Let_def push_carry_def)
    next
      case nz: False
      define h where "h = drop_bit 32 ?v"
      have "unat h < 2 ^ 32" unfolding h_def by (rule unat_high_word)
      then have "(ucast (drop_bit 32 ?v) :: u32) \<noteq> 0"
        using nz unfolding h_def [symmetric] by (simp add: word_unat_eq_iff unat_low_word)
      then show ?thesis using \<open>ws = []\<close> nz by (simp add: Let_def push_carry_def)
    qed
  qed
qed simp

lemma nat_shift_correct:
  assumes "normal ws"
  shows "nat_value (nat_shift n ws) = nat_value ws * 2 ^ n" "normal (nat_shift n ws)"
proof -
  have "n = 32 * (n div 32) + n mod 32" by simp
  then have p: "(2::nat) ^ n = 2 ^ (32 * (n div 32)) * 2 ^ (n mod 32)" by (metis power_add)
  show "nat_value (nat_shift n ws) = nat_value ws * 2 ^ n"
    using shift_words_value [of "n mod 32" 0 ws]
    by (auto simp: nat_shift_def nat_zero_def nat_value_append p)
  show "normal (nat_shift n ws)"
    using shift_words_normal [of "n mod 32" 0 ws] assms
    by (auto simp: nat_shift_def nat_zero_def normal_def)
qed

section \<open>Addition and subtraction\<close>

definition head_word :: "u32 list \<Rightarrow> u64" where
  "head_word ys = (case ys of [] \<Rightarrow> 0 | y # _ \<Rightarrow> ucast y)"

lemma head_word: "unat (head_word ys) < 2 ^ 32" "nat_value ys = unat (head_word ys) + 2 ^ 32 * nat_value (tl ys)"
  using unat_lt_u32 by (cases ys; simp add: head_word_def)+

lemma add_words_value:
  "unat carry \<le> 1 \<Longrightarrow> length ys \<le> length xs \<Longrightarrow>
   nat_value (add_words xs ys carry) = nat_value xs + nat_value ys + unat carry"
proof (induction xs ys carry rule: add_words.induct)
  case (1 ys carry)
  then show ?case by (simp add: nat_value_push_carry)
next
  case (2 x xs ys carry)
  let ?v = "ucast x + carry + head_word ys :: u64"
  have v: "unat ?v = unat x + unat carry + unat (head_word ys)"
    using unat_lt_u32 [of x] head_word(1) [of ys] "2.prems" by (simp add: unat_word_ariths)
  have c: "unat (drop_bit 32 ?v) \<le> 1"
    using v unat_lt_u32 [of x] head_word(1) [of ys] "2.prems" by (simp add: unat_drop_bit)
  have "nat_value (add_words (x # xs) ys carry) =
      unat (ucast ?v :: u32) + 2 ^ 32 * (nat_value xs + nat_value (tl ys) + unat (drop_bit 32 ?v))"
    using "2.IH" [OF refl, folded head_word_def] c "2.prems" by (simp add: Let_def flip: head_word_def)
  also have "\<dots> = unat ?v + 2 ^ 32 * (nat_value xs + nat_value (tl ys))"
    using split_word [of ?v] by (simp add: algebra_simps)
  finally show ?case using head_word(2) [of ys] v by (simp add: algebra_simps)
qed

lemma add_words_shape:
  "unat carry \<le> 1 \<Longrightarrow> length ys \<le> length xs \<Longrightarrow>
   length (add_words xs ys carry) = length xs \<or>
   (length (add_words xs ys carry) = Suc (length xs) \<and> last (add_words xs ys carry) \<noteq> 0)"
proof (induction xs ys carry rule: add_words.induct)
  case (1 ys carry)
  then show ?case by (auto simp: push_carry_def word_unat_eq_iff unat_low_word)
next
  case (2 x xs ys carry)
  let ?v = "ucast x + carry + head_word ys :: u64"
  have v: "unat ?v = unat x + unat carry + unat (head_word ys)"
    using unat_lt_u32 [of x] head_word(1) [of ys] "2.prems" by (simp add: unat_word_ariths)
  have c: "unat (drop_bit 32 ?v) \<le> 1"
    using v unat_lt_u32 [of x] head_word(1) [of ys] "2.prems" by (simp add: unat_drop_bit)
  have "length (add_words xs (tl ys) (drop_bit 32 ?v)) = length xs \<or>
      (length (add_words xs (tl ys) (drop_bit 32 ?v)) = Suc (length xs) \<and>
       last (add_words xs (tl ys) (drop_bit 32 ?v)) \<noteq> 0)"
    using "2.IH" [OF refl, folded head_word_def] c "2.prems" by simp
  then show ?case by (auto simp: Let_def simp flip: head_word_def)
qed

lemma nat_add_correct:
  assumes "normal xs" "normal ys"
  shows "nat_value (nat_add xs ys) = nat_value xs + nat_value ys" "normal (nat_add xs ys)"
proof -
  let ?n = "max (length xs) (length ys)"
  let ?xs = "xs @ replicate (?n - length xs) 0"
  have len: "length ys \<le> length ?xs" by simp
  show v: "nat_value (nat_add xs ys) = nat_value xs + nat_value ys"
    using add_words_value [OF _ len, of 0] by (simp add: nat_add_def nat_value_append)
  have big: "2 ^ (32 * (?n - 1)) \<le> nat_value xs + nat_value ys" if "?n \<noteq> 0"
  proof (cases "length ys \<le> length xs")
    case True
    then have "xs \<noteq> []" "?n = length xs" using that by auto
    then show ?thesis using assms(1) normal_iff [of xs] by (auto simp: normal_def intro: trans_le_add1)
  next
    case False
    then have "ys \<noteq> []" "?n = length ys" by auto
    then show ?thesis using assms(2) normal_iff [of ys] by (auto simp: normal_def intro: trans_le_add2)
  qed
  have shape: "length (nat_add xs ys) = ?n \<or> (length (nat_add xs ys) = Suc ?n \<and> last (nat_add xs ys) \<noteq> 0)"
    using add_words_shape [OF _ len, of 0] by (auto simp: nat_add_def)
  show "normal (nat_add xs ys)"
  proof (cases "nat_add xs ys = [] \<or> last (nat_add xs ys) \<noteq> 0")
    case False
    then have len: "length (nat_add xs ys) = ?n" "?n \<noteq> 0" using shape by auto
    then show ?thesis using False big v normal_iff [of "nat_add xs ys"] by metis
  qed (auto simp: normal_def)
qed

lemma nat_value_zeros: "list_all (\<lambda>w. w = 0) ws \<Longrightarrow> nat_value ws = 0"
  by (induction ws) simp_all

lemma trim_value: "nat_value (trim ws) = nat_value ws"
proof -
  let ?z = "\<lambda>w. w = (0 :: u32)"
  have split: "ws = trim ws @ rev (takeWhile ?z (rev ws))"
    unfolding trim_def rev_append [symmetric] takeWhile_dropWhile_id by (rule rev_rev_ident [symmetric])
  have "list_all ?z (rev (takeWhile ?z (rev ws)))"
    by (auto simp: list_all_iff dest: set_takeWhileD)
  then have "nat_value (rev (takeWhile ?z (rev ws))) = 0" by (rule nat_value_zeros)
  then have "nat_value (trim ws @ rev (takeWhile ?z (rev ws))) = nat_value (trim ws)"
    by (simp only: nat_value_append mult_0_right add_0_right)
  then show ?thesis by (simp only: split [symmetric])
qed

lemma trim_normal: "normal (trim ws)"
proof (cases "trim ws = []")
  case False
  then have "dropWhile (\<lambda>w. w = 0) (rev ws) \<noteq> []" by (simp only: trim_def rev_is_Nil_conv not_False_eq_True)
  then show ?thesis
    using hd_dropWhile [of "\<lambda>w. w = 0" "rev ws"] by (simp only: normal_def trim_def last_rev simp_thms)
qed simp

lemma subtract_digit:
  fixes x :: u32 and sub :: u64
  assumes "unat sub \<le> 2 ^ 32"
  shows "unat (ucast (ucast x - sub) :: u32) + unat sub =
    unat x + (if (ucast x :: u64) < sub then 2 ^ 32 else 0)"
proof (cases "(ucast x :: u64) < sub")
  case False
  then have "unat (ucast x - sub :: u64) = unat x - unat sub" "unat sub \<le> unat x"
    by (simp_all add: unat_sub word_less_nat_alt word_le_nat_alt)
  then show ?thesis using False unat_lt_u32 [of x] by (simp add: unat_low_word)
next
  case True
  then have lt: "unat x < unat sub" by (simp add: word_less_nat_alt)
  let ?d = "2 ^ 32 + unat x - unat sub"
  have "unat (ucast x - sub :: u64) = 2 ^ 64 + unat x - unat sub"
    using lt by (simp add: unat_sub_if' word_size)
  also have "\<dots> = ?d + 2 ^ 32 * (2 ^ 32 - 1)" using assms lt by simp
  finally have "unat (ucast (ucast x - sub) :: u32) = (?d + 2 ^ 32 * (2 ^ 32 - 1)) mod 2 ^ 32"
    by (simp only: unat_low_word)
  also have "\<dots> = ?d mod 2 ^ 32" by (rule mod_mult_self2)
  also have "\<dots> = ?d" using lt by (intro mod_less) simp
  finally show ?thesis using True assms by simp
qed

lemma subtract_arith:
  "S + T + B = X \<Longrightarrow> R = D + k * S \<Longrightarrow> D + U = x + k * B \<Longrightarrow> Y = h + k * T \<Longrightarrow> U = b + h \<Longrightarrow>
   R + Y + b = x + k * (X :: nat)"
  by (auto simp: algebra_simps)

lemma subtract_words_value:
  "unat borrow \<le> 1 \<Longrightarrow> nat_value ys + unat borrow \<le> nat_value xs \<Longrightarrow>
   nat_value (subtract_words xs ys borrow) + nat_value ys + unat borrow = nat_value xs"
proof (induction xs ys borrow rule: subtract_words.induct)
  case (1 ys borrow)
  then show ?case by simp
next
  case (2 x xs ys borrow)
  let ?sub = "borrow + head_word ys"
  let ?b = "if (ucast x :: u64) < ?sub then 1 else 0 :: u64"
  have s: "unat ?sub = unat borrow + unat (head_word ys)"
    using head_word(1) [of ys] "2.prems"(1) by (simp add: unat_word_ariths)
  then have sub: "unat ?sub \<le> 2 ^ 32" using head_word(1) [of ys] "2.prems"(1) by simp
  note d = subtract_digit [OF sub, of x]
  have total: "unat ?sub + 2 ^ 32 * nat_value (tl ys) \<le> unat x + 2 ^ 32 * nat_value xs"
    using "2.prems"(2) head_word(2) [of ys] s by simp
  have b: "nat_value (tl ys) + unat ?b \<le> nat_value xs"
  proof (cases "(ucast x :: u64) < ?sub")
    case True
    then have "unat x < unat ?sub" by (simp add: word_less_nat_alt)
    then show ?thesis using True total by simp
  next
    case False
    then show ?thesis using total unat_lt_u32 [of x] by simp
  qed
  have "nat_value (subtract_words xs (tl ys) ?b) + nat_value (tl ys) + unat ?b = nat_value xs"
    using "2.IH" [OF refl refl, folded head_word_def] b by simp
  moreover have "nat_value (subtract_words (x # xs) ys borrow) =
      unat (ucast (ucast x - ?sub) :: u32) + 2 ^ 32 * nat_value (subtract_words xs (tl ys) ?b)"
    by (simp add: Let_def flip: head_word_def)
  moreover have "unat (ucast (ucast x - ?sub) :: u32) + unat ?sub = unat x + 2 ^ 32 * unat ?b"
    using d by (simp only: unat_1 unat_0 if_distrib [of unat] split: if_split) simp
  ultimately show ?case
    using head_word(2) [of ys] s unfolding nat_value.simps by (rule subtract_arith)
qed

lemma nat_subtract_correct:
  assumes "nat_value ys \<le> nat_value xs"
  shows "nat_value (nat_subtract xs ys) = nat_value xs - nat_value ys" "normal (nat_subtract xs ys)"
  using subtract_words_value [of 0 ys xs] assms
  by (simp_all add: nat_subtract_def trim_value trim_normal)

section \<open>Comparison\<close>

lemma nat_value_snoc: "nat_value (ws @ [w]) = nat_value ws + 2 ^ (32 * length ws) * unat w"
  by (simp add: nat_value_append)

lemma lead_less:
  assumes "(a::nat) < b" "x < k" shows "x + k * a < y + k * b"
proof -
  have "x + k * a < k * (a + 1)" using assms(2) by simp
  also have "\<dots> \<le> k * b" using assms(1) by (intro mult_le_mono2) simp
  finally show ?thesis by simp
qed

lemma compare_words_sgn:
  "length as = length bs \<Longrightarrow>
   compare_words as bs = sgn (int (nat_value (rev as)) - int (nat_value (rev bs)))"
proof (induction as bs rule: compare_words.induct)
  case (1 a as b bs)
  have len: "length as = length bs" using "1.prems" by simp
  let ?k = "2 ^ (32 * length bs) :: nat"
  have v: "nat_value (rev (a # as)) = nat_value (rev as) + ?k * unat a"
    "nat_value (rev (b # bs)) = nat_value (rev bs) + ?k * unat b"
    using len by (simp_all add: nat_value_snoc)
  have lt: "nat_value (rev as) < ?k" "nat_value (rev bs) < ?k"
    using nat_value_less [of "rev as"] nat_value_less [of "rev bs"] len by simp_all
  consider "a = b" | "unat a < unat b" "a < b" | "unat b < unat a" "b < a"
    by (metis linorder_neqE word_less_nat_alt)
  then show ?case
  proof cases
    case 1
    then show ?thesis using "1.IH" len v by simp
  next
    case 2
    then have "nat_value (rev (a # as)) < nat_value (rev (b # bs))"
      unfolding v by (intro lead_less lt)
    moreover have "a \<noteq> b" using 2 by auto
    ultimately show ?thesis using 2(2) by (simp only: compare_words.simps) (simp add: sgn_if)
  next
    case 3
    then have "nat_value (rev (b # bs)) < nat_value (rev (a # as))"
      unfolding v by (intro lead_less lt)
    moreover have "a \<noteq> b" "\<not> a < b" using 3 by auto
    ultimately show ?thesis by (simp only: compare_words.simps) (simp add: sgn_if)
  qed
qed simp_all

lemma shorter_less:
  assumes "length xs < length ys" "normal ys" shows "nat_value xs < nat_value ys"
proof -
  have ne: "ys \<noteq> []" using assms(1) by auto
  have "nat_value xs < 2 ^ (32 * length xs)" by (rule nat_value_less)
  also have "\<dots> \<le> 2 ^ (32 * (length ys - 1))" using assms(1) by (intro power_increasing) auto
  also have "\<dots> \<le> nat_value ys" using normal_iff [OF ne] assms(2) ne by (simp add: normal_def)
  finally show ?thesis .
qed

lemma nat_compare_sgn:
  assumes "normal xs" "normal ys"
  shows "nat_compare xs ys = sgn (int (nat_value xs) - int (nat_value ys))"
proof -
  consider "length xs = length ys" | "length xs < length ys" | "length ys < length xs" by linarith
  then show ?thesis
  proof cases
    case 1
    then show ?thesis using compare_words_sgn [of "rev xs" "rev ys"] by (simp add: nat_compare_def)
  next
    case 2
    then show ?thesis using shorter_less [OF 2 assms(2)] by (simp add: nat_compare_def sgn_if)
  next
    case 3
    then show ?thesis using shorter_less [OF 3 assms(1)] by (simp add: nat_compare_def sgn_if)
  qed
qed

section \<open>Multiplication\<close>

lemma product_bound:
  fixes w y r :: u32 and c :: u64
  assumes "unat c < 2 ^ 32"
  shows "unat (ucast w * ucast y + ucast r + c :: u64) = unat w * unat y + unat r + unat c"
proof -
  have "unat w * unat y \<le> (2 ^ 32 - 1) * (2 ^ 32 - 1)"
    using unat_lt_u32 [of w] unat_lt_u32 [of y] by (intro mult_le_mono) simp_all
  then have "unat w * unat y + unat r + unat c < 2 ^ 64"
    using unat_lt_u32 [of r] assms by simp
  then show ?thesis by (simp add: unat_word_ariths)
qed

lemma multiply_row_value:
  "unat c < 2 ^ 32 \<Longrightarrow> length ys < length rs \<Longrightarrow> rs ! length ys = 0 \<Longrightarrow>
   nat_value (multiply_row w ys rs c) = unat w * nat_value ys + nat_value rs + unat c"
proof (induction w ys rs c rule: multiply_row.induct)
  case (1 w r rs c)
  then show ?case by (simp add: unat_low_word)
next
  case (2 w y ys r rs c)
  let ?v = "ucast w * ucast y + ucast r + c :: u64"
  have v: "unat ?v = unat w * unat y + unat r + unat c" by (rule product_bound [OF "2.prems"(1)])
  have "nat_value (multiply_row w (y # ys) (r # rs) c) =
      unat (ucast ?v :: u32) + 2 ^ 32 * (unat w * nat_value ys + nat_value rs + unat (drop_bit 32 ?v))"
    using "2.IH" [OF refl unat_high_word] "2.prems" by (simp add: Let_def)
  also have "\<dots> = unat ?v + 2 ^ 32 * (unat w * nat_value ys + nat_value rs)"
    using split_word [of ?v] by (simp add: algebra_simps)
  finally show ?case unfolding v by (simp add: algebra_simps)
next
  case (3 w ys c)
  then show ?case by simp
qed

lemma multiply_row_shape:
  "length (multiply_row w ys rs c) = length rs"
  "drop (Suc (length ys)) (multiply_row w ys rs c) = drop (Suc (length ys)) rs"
  by (induction w ys rs c rule: multiply_row.induct) (simp_all add: Let_def)

lemma multiply_words_value:
  "length rs = length xs + length ys \<Longrightarrow> list_all (\<lambda>w. w = 0) (drop (length ys) rs) \<Longrightarrow>
   nat_value (multiply_words xs ys rs) = nat_value xs * nat_value ys + nat_value rs"
proof (induction xs arbitrary: rs)
  case (Cons x xs)
  have z: "rs ! length ys = 0"
    using Cons.prems by (auto simp: list_all_length dest: spec [of _ 0])
  let ?row = "multiply_row x ys rs 0"
  obtain r rs' where row: "?row = r # rs'"
    using multiply_row_shape(1) [of x ys rs 0] Cons.prems(1) by (cases ?row) auto
  have "drop (length ys) rs' = drop (Suc (length ys)) rs"
    using multiply_row_shape(2) [of ys x rs 0] row by simp
  then have "list_all (\<lambda>w. w = 0) (drop (length ys) rs')"
    using Cons.prems(2) set_drop_subset_set_drop [of "length ys" "Suc (length ys)" rs]
    by (auto simp: list_all_iff)
  moreover have "length rs' = length xs + length ys"
    using multiply_row_shape(1) [of x ys rs 0] row Cons.prems(1) by simp
  ultimately have IH: "nat_value (multiply_words xs ys rs') = nat_value xs * nat_value ys + nat_value rs'"
    by (intro Cons.IH)
  have "unat r + 2 ^ 32 * nat_value rs' = unat x * nat_value ys + nat_value rs"
    using multiply_row_value [of 0 ys rs x] Cons.prems(1) z row by simp
  then show ?case using row IH by (simp add: algebra_simps)
qed simp

lemma nat_multiply_correct:
  "nat_value (nat_multiply xs ys) = nat_value xs * nat_value ys" "normal (nat_multiply xs ys)"
  using multiply_words_value [of "replicate (length xs + length ys) 0" xs ys]
  by (auto simp: nat_multiply_def nat_zero_def trim_value trim_normal list_all_iff)

section \<open>Width and low word\<close>

lemma bit_length_le: "bit_length n \<le> k \<longleftrightarrow> n < 2 ^ k"
proof (induction n arbitrary: k rule: bit_length.induct)
  case (1 n)
  show ?case
  proof (cases "n = 0")
    case False
    then have e: "bit_length n = Suc (bit_length (n div 2))" by (subst bit_length.simps) simp
    show ?thesis
    proof (cases k)
      case (Suc j)
      have "bit_length (n div 2) \<le> j \<longleftrightarrow> n div 2 < 2 ^ j" by (rule 1 [OF False])
      also have "\<dots> \<longleftrightarrow> n < 2 ^ j * 2" by (rule div_less_iff_less_mult) simp
      finally show ?thesis by (simp add: e Suc mult.commute)
    qed (use False e in simp)
  qed (simp add: bit_length.simps)
qed

lemma bit_length_unique: "0 < n \<Longrightarrow> 2 ^ k \<le> n \<Longrightarrow> n < 2 ^ Suc k \<Longrightarrow> bit_length n = Suc k"
  using bit_length_le [of n k] bit_length_le [of n "Suc k"] by linarith

lemma bit_length_pos: "0 < n \<Longrightarrow> 0 < bit_length n"
  by (subst bit_length.simps) simp

lemma bit_length_bounds: "0 < n \<Longrightarrow> 2 ^ (bit_length n - 1) \<le> n \<and> n < 2 ^ bit_length n"
  using bit_length_le [of n "bit_length n - 1"] bit_length_le [of n "bit_length n"]
    bit_length_pos [of n] by linarith

lemma bit_length_high:
  assumes "0 < b" "a < 2 ^ k" shows "bit_length (a + 2 ^ k * b) = k + bit_length b"
proof -
  let ?l = "bit_length b - 1"
  have l: "2 ^ ?l \<le> b" "b < 2 ^ Suc ?l" "bit_length b = Suc ?l"
    using bit_length_bounds [OF assms(1)] bit_length_pos [OF assms(1)] by simp_all
  have "2 ^ k * 2 ^ ?l \<le> 2 ^ k * b" using l(1) by (rule mult_le_mono2)
  moreover have "a + 2 ^ k * b < 2 ^ k * (b + 1)" using assms(2) by simp
  moreover have "2 ^ k * (b + 1) \<le> 2 ^ k * 2 ^ Suc ?l" using l(2) by (intro mult_le_mono2) simp
  ultimately have "2 ^ k * 2 ^ ?l \<le> a + 2 ^ k * b" "a + 2 ^ k * b < 2 ^ k * 2 ^ Suc ?l" by linarith+
  moreover have "2 ^ k * 2 ^ ?l = (2::nat) ^ (k + ?l)" "2 ^ k * 2 ^ Suc ?l = (2::nat) ^ Suc (k + ?l)"
    by (simp_all add: power_add)
  ultimately have "bit_length (a + 2 ^ k * b) = Suc (k + ?l)"
    using assms(1) by (intro bit_length_unique) simp_all
  then show ?thesis using l(3) by simp
qed

lemma nat_width_correct:
  assumes "normal ws" shows "nat_width ws = bit_length (nat_value ws)"
proof (cases "ws = []")
  case True
  then show ?thesis by (simp add: nat_width_def nat_zero_def bit_length.simps)
next
  case False
  have v: "nat_value ws = nat_value (butlast ws) + 2 ^ (32 * (length ws - 1)) * unat (last ws)"
    using nat_value_snoc [of "butlast ws" "last ws"] False by simp
  have "0 < unat (last ws)" using assms False by (simp add: normal_def unat_gt_0)
  then have "bit_length (nat_value ws) = 32 * (length ws - 1) + bit_length (unat (last ws))"
    using bit_length_high [of "unat (last ws)" "nat_value (butlast ws)" "32 * (length ws - 1)"]
      nat_value_less [of "butlast ws"] v by simp
  moreover have "bit_length (unat (last ws)) \<le> 32"
    using unat_lt_u32 [of "last ws"] by (simp add: bit_length_le)
  ultimately show ?thesis using False by (simp add: nat_width_def nat_zero_def countl_zero_def)
qed

lemma nat_low_correct: "nat_value ws < 2 ^ 64 \<Longrightarrow> normal ws \<Longrightarrow> unat (nat_low ws) = nat_value ws"
proof -
  assume small: "nat_value ws < 2 ^ 64" and n: "normal ws"
  have "length ws \<le> 2"
  proof (rule ccontr)
    assume "\<not> length ws \<le> 2"
    then have "ws \<noteq> []" "2 \<le> length ws - 1" by auto
    then have "(2::nat) ^ 64 \<le> 2 ^ (32 * (length ws - 1))" "2 ^ (32 * (length ws - 1)) \<le> nat_value ws"
      using normal_iff [of ws] n by (simp_all only: normal_def) (intro power_increasing, simp_all)
    then show False using small by linarith
  qed
  then consider "ws = []" | a where "ws = [a]" | a b where "ws = [a, b]"
    by (cases ws; cases "tl ws"; cases "tl (tl ws)") auto
  then show ?thesis
  proof cases
    case (3 a b)
    have "unat (push_bit 32 (ucast b :: u64)) = 2 ^ 32 * unat b"
      using unat_lt_u32 [of b] by (simp add: unat_push_bit)
    then have "unat (push_bit 32 (ucast b :: u64) OR ucast a) = 2 ^ 32 * unat b + unat a"
      using unat_lt_u32 [of a] by (subst unat_or_low_bits [where n = 32]) simp_all
    then show ?thesis using 3 by (simp add: nat_low_def nat_zero_def or.commute)
  qed (simp_all add: nat_low_def nat_zero_def)
qed

section \<open>The interface\<close>

text \<open>
  What the rounding and conversion code relies on: operations on representations with an invariant and
  an abstraction to natural numbers.
\<close>

locale natural_ops =
  fixes inv :: "'n \<Rightarrow> bool" and val :: "'n \<Rightarrow> nat"
    and is_zero :: "'n \<Rightarrow> bool" and width :: "'n \<Rightarrow> nat" and compare :: "'n \<Rightarrow> 'n \<Rightarrow> int"
    and shift :: "nat \<Rightarrow> 'n \<Rightarrow> 'n" and subtract :: "'n \<Rightarrow> 'n \<Rightarrow> 'n"
  assumes is_zero_val: "inv a \<Longrightarrow> is_zero a \<longleftrightarrow> val a = 0"
    and width_val: "inv a \<Longrightarrow> width a = bit_length (val a)"
    and compare_val: "inv a \<Longrightarrow> inv b \<Longrightarrow> compare a b = sgn (int (val a) - int (val b))"
    and shift_val: "inv a \<Longrightarrow> val (shift n a) = val a * 2 ^ n"
    and shift_inv: "inv a \<Longrightarrow> inv (shift n a)"
    and subtract_val: "inv a \<Longrightarrow> inv b \<Longrightarrow> val b \<le> val a \<Longrightarrow> val (subtract a b) = val a - val b"
    and subtract_inv: "inv a \<Longrightarrow> inv b \<Longrightarrow> val b \<le> val a \<Longrightarrow> inv (subtract a b)"
begin

lemma compare_cases:
  assumes "inv a" "inv b"
  shows "compare a b \<ge> 0 \<longleftrightarrow> val b \<le> val a" "compare a b < 0 \<longleftrightarrow> val a < val b"
    "compare a b > 0 \<longleftrightarrow> val b < val a" "compare a b = 0 \<longleftrightarrow> val a = val b"
  by (auto simp: compare_val [OF assms] sgn_if)

end

text \<open>Binary long division: the loop of the rounding code, one quotient bit per iteration.\<close>

locale natural_division = natural_ops +
  fixes divide :: "'a \<Rightarrow> nat \<Rightarrow> 'a \<Rightarrow> u64 \<Rightarrow> 'a \<times> u64"
  assumes divide_0: "divide d 0 n q = (n, q)"
    and divide_Suc: "divide d (Suc b) n q =
      (if compare n (shift b d) \<ge> 0
       then divide d b (subtract n (shift b d)) (q OR push_bit b 1)
       else divide d b n q)"
begin

lemma divide_correct:
  assumes "inv n" "inv d" "0 < val d" "val n < val d * 2 ^ k" "k \<le> 64" "2 ^ k dvd unat q"
  shows "val (fst (divide d k n q)) = val n mod val d" "inv (fst (divide d k n q))"
    and "unat (snd (divide d k n q)) = unat q + val n div val d"
proof -
  have "val (fst (divide d k n q)) = val n mod val d \<and> inv (fst (divide d k n q)) \<and>
      unat (snd (divide d k n q)) = unat q + val n div val d"
    using assms
  proof (induction k arbitrary: n q)
    case 0
    then show ?case by (simp add: divide_0)
  next
    case (Suc b)
    let ?m = "shift b d"
    have m: "inv ?m" "val ?m = val d * 2 ^ b" using Suc.prems by (simp_all add: shift_inv shift_val)
    have dvd: "2 ^ b dvd unat q" using Suc.prems(6) by (rule dvd_trans [rotated]) (simp add: le_imp_power_dvd)
    show ?case
    proof (cases "val ?m \<le> val n")
      case False
      then have "divide d (Suc b) n q = divide d b n q"
        using compare_cases(1) [OF Suc.prems(1) m(1)] by (simp add: divide_Suc)
      moreover have "val n < val d * 2 ^ b" using False m(2) by simp
      ultimately show ?thesis using Suc.IH [of n q] Suc.prems dvd by simp
    next
      case True
      let ?n = "subtract n ?m" and ?q = "q OR push_bit b 1"
      have n: "inv ?n" "val ?n = val n - val d * 2 ^ b"
        using Suc.prems(1) m True by (simp_all add: subtract_inv subtract_val)
      have b: "b < 64" using Suc.prems(5) by simp
      have pb: "unat (push_bit b (1 :: u64)) = 2 ^ b"
      proof -
        have "(2::nat) ^ b < 2 ^ 64" using b by (intro power_strict_increasing) simp_all
        moreover have "unat (push_bit b (1 :: u64)) = 2 ^ b mod 2 ^ LENGTH(64)"
          by (simp only: unat_push_bit unat_1 mult_1)
        ultimately show ?thesis by simp
      qed
      have q: "unat ?q = unat q + 2 ^ b"
        using Suc.prems(6) by (subst unat_or_low_bits [where n = "Suc b"]) (simp_all only: pb, simp)
      have lt: "val ?n < val d * 2 ^ b" using n(2) Suc.prems(4) True m(2) by (simp add: algebra_simps)
      have "divide d (Suc b) n q = divide d b ?n ?q"
        using compare_cases(1) [OF Suc.prems(1) m(1)] True by (simp add: divide_Suc)
      moreover have "2 ^ b dvd unat ?q" using dvd q by simp
      ultimately have IH: "val (fst (divide d (Suc b) n q)) = val ?n mod val d"
          "inv (fst (divide d (Suc b) n q))"
          "unat (snd (divide d (Suc b) n q)) = unat ?q + val ?n div val d"
        using Suc.IH [OF n(1) Suc.prems(2,3) lt] b by simp_all
      have "val n = val ?n + 2 ^ b * val d" using n(2) True m(2) by (simp add: mult.commute)
      then have "val n mod val d = val ?n mod val d" "val n div val d = 2 ^ b + val ?n div val d"
        using Suc.prems(3) by simp_all
      then show ?thesis using IH q by simp
    qed
  qed
  then show "val (fst (divide d k n q)) = val n mod val d" "inv (fst (divide d k n q))"
    "unat (snd (divide d k n q)) = unat q + val n div val d" by simp_all
qed

lemma divide_full:
  assumes "inv n" "inv d" "0 < val d" "val n div val d < 2 ^ 64"
    and k: "k = nat (int (width n) - int (width d) + 1)" "k \<le> 64"
  shows "val (fst (divide d k n 0)) = val n mod val d" "inv (fst (divide d k n 0))"
    and "unat (snd (divide d k n 0)) = val n div val d"
proof -
  have w: "width d = bit_length (val d)" "width n = bit_length (val n)"
    using assms by (simp_all add: width_val)
  have "val n < 2 ^ bit_length (val n)" using bit_length_le [of "val n"] by blast
  also have "\<dots> \<le> 2 ^ (bit_length (val d) - 1 + k)"
    using bit_length_pos [OF assms(3)] k(1) w by (intro power_increasing) auto
  also have "\<dots> \<le> val d * 2 ^ k"
    using bit_length_bounds [OF assms(3)] by (simp add: power_add)
  finally have "val n < val d * 2 ^ k" .
  then show "val (fst (divide d k n 0)) = val n mod val d" "inv (fst (divide d k n 0))"
    "unat (snd (divide d k n 0)) = val n div val d"
    using divide_correct [of n d k 0] assms k(2) by simp_all
qed

end

fun divide_loop :: "Natural \<Rightarrow> nat \<Rightarrow> Natural \<Rightarrow> u64 \<Rightarrow> Natural \<times> u64" where
  "divide_loop denominator 0 numerator quot = (numerator, quot)"
| "divide_loop denominator (Suc b) numerator quot =
     (let divisor = nat_shift b denominator in
      if nat_compare numerator divisor \<ge> 0
      then divide_loop denominator b (nat_subtract numerator divisor) (quot OR push_bit b 1)
      else divide_loop denominator b numerator quot)"

interpretation naturals: natural_division normal nat_value nat_zero nat_width nat_compare nat_shift
  nat_subtract divide_loop
  by unfold_locales
    (simp_all add: nat_zero_def normal_value_0 nat_width_correct nat_compare_sgn nat_shift_correct
      nat_subtract_correct Let_def)

section \<open>Properties\<close>

text \<open>
  C16: the word-list arithmetic of the constant evaluator implements arithmetic on natural numbers:
  on normal representations every operation returns a normal representation of the exact result
  (sum, difference, product, shift, comparison, bit width), whatever carries and borrows occur.
\<close>

theorem natural_refines_nat:
  assumes "normal xs" "normal ys"
  shows "nat_value (natural_of_u64 v) = unat v \<and> normal (natural_of_u64 v) \<and>
    (nat_zero xs \<longleftrightarrow> nat_value xs = 0) \<and>
    nat_value (nat_add xs ys) = nat_value xs + nat_value ys \<and> normal (nat_add xs ys) \<and>
    (nat_value ys \<le> nat_value xs \<longrightarrow>
       nat_value (nat_subtract xs ys) = nat_value xs - nat_value ys \<and> normal (nat_subtract xs ys)) \<and>
    nat_value (nat_multiply xs ys) = nat_value xs * nat_value ys \<and> normal (nat_multiply xs ys) \<and>
    nat_value (nat_shift n xs) = nat_value xs * 2 ^ n \<and> normal (nat_shift n xs) \<and>
    nat_compare xs ys = sgn (int (nat_value xs) - int (nat_value ys)) \<and>
    nat_width xs = bit_length (nat_value xs)"
  by (intro conjI impI nat_add_correct nat_subtract_correct nat_multiply_correct nat_shift_correct
      nat_compare_sgn nat_width_correct nat_value_of_u64 normal_of_u64 naturals.is_zero_val assms)

theorem natural_refines_nat_witness:
  "nat_value (nat_add [0xFFFFFFFF] [1]) = 2 ^ 32 \<and> normal [0xFFFFFFFF :: u32] \<and> normal [1 :: u32]"
proof -
  have n: "normal [0xFFFFFFFF :: u32]" "normal [1 :: u32]" by (simp_all add: normal_def)
  then show ?thesis using natural_refines_nat [OF n] by simp
qed

end
