(* ===== verification/Numeric_Types.thy ===== *)
theory Numeric_Types
  imports Prelude
begin

text \<open>
  Numeric types of the semantic model (\<^verbatim>\<open>include/cloth/sema/numeric_types.h\<close>,
  \<^verbatim>\<open>src/sema/numeric_types.cc\<close>): categories and widths, implicit widening, and the encoding
  of integer constants as 64-bit patterns. The lemmas give these patterns their mathematical value.
\<close>

section \<open>The code\<close>

datatype TypeKind = tyError | tyBottom | tyVoid | tyNull | tyBool | tyChar | tyByte
  | tyInt8 | tyInt16 | tyInt32 | tyInt64 | tyUint8 | tyUint16 | tyUint32 | tyUint64
  | tyFloat32 | tyFloat64 | tyString | tyObject | tyErrorClass | tyFileClass | tyInterface
  | tyArray | tyNullable | tyEnum | tyStruct

datatype NumericCategory = ncSignedInteger | ncUnsignedInteger | ncFloatingPoint

record NumericTypeProperties =
  np_category :: NumericCategory
  np_bit_width :: nat

definition properties :: "NumericCategory \<Rightarrow> nat \<Rightarrow> NumericTypeProperties option" where
  "properties category width = Some \<lparr>np_category = category, np_bit_width = width\<rparr>"

definition numeric_type_properties :: "TypeKind \<Rightarrow> NumericTypeProperties option" where
  "numeric_type_properties kind =
     (case kind of
        tyByte \<Rightarrow> properties ncUnsignedInteger 8
      | tyUint8 \<Rightarrow> properties ncUnsignedInteger 8
      | tyInt8 \<Rightarrow> properties ncSignedInteger 8
      | tyUint16 \<Rightarrow> properties ncUnsignedInteger 16
      | tyInt16 \<Rightarrow> properties ncSignedInteger 16
      | tyUint32 \<Rightarrow> properties ncUnsignedInteger 32
      | tyInt32 \<Rightarrow> properties ncSignedInteger 32
      | tyUint64 \<Rightarrow> properties ncUnsignedInteger 64
      | tyInt64 \<Rightarrow> properties ncSignedInteger 64
      | tyFloat32 \<Rightarrow> properties ncFloatingPoint 32
      | tyFloat64 \<Rightarrow> properties ncFloatingPoint 64
      | _ \<Rightarrow> None)"

definition is_integer_type :: "TypeKind \<Rightarrow> bool" where
  "is_integer_type kind \<longleftrightarrow>
     (case numeric_type_properties kind of
        None \<Rightarrow> False | Some p \<Rightarrow> np_category p \<noteq> ncFloatingPoint)"

definition is_numeric_type :: "TypeKind \<Rightarrow> bool" where
  "is_numeric_type kind \<longleftrightarrow> numeric_type_properties kind \<noteq> None"

definition can_widen_numeric :: "TypeKind \<Rightarrow> TypeKind \<Rightarrow> bool" where
  "can_widen_numeric source target \<longleftrightarrow>
     (if source = target then False
      else
        case (numeric_type_properties source, numeric_type_properties target) of
          (Some s, Some t) \<Rightarrow>
            if np_category s = ncFloatingPoint \<or> np_category t = ncFloatingPoint then
              np_category s = ncFloatingPoint \<and> np_category t = ncFloatingPoint \<and>
              np_bit_width s < np_bit_width t
            else if np_category s = ncSignedInteger \<and> np_category t = ncUnsignedInteger then False
            else np_bit_width s < np_bit_width t
        | _ \<Rightarrow> False)"

definition integer_mask :: "nat \<Rightarrow> u64" where
  "integer_mask width = (if width = 64 then 0xFFFFFFFFFFFFFFFF else push_bit width 1 - 1)"

text \<open>
  \<^verbatim>\<open>std::from_chars\<close> for an unsigned 64-bit target: the longest run of decimal digits, an error when
  it is empty or its value does not fit; the second component is the length read.
\<close>

definition from_chars_u64 :: "string \<Rightarrow> (u64 \<times> nat) option" where
  "from_chars_u64 s =
     (let run = takeWhile (\<lambda>c. 48 \<le> code c \<and> code c \<le> 57) s; v = decimal_value run in
      if run = [] \<or> 2 ^ 64 \<le> v then None else Some (of_nat v, length run))"

definition integer_constant_bits :: "string \<Rightarrow> bool \<Rightarrow> TypeKind \<Rightarrow> u64 option" where
  "integer_constant_bits magnitude negative type =
     (case numeric_type_properties type of
        None \<Rightarrow> None
      | Some p \<Rightarrow>
          if \<not> is_integer_type type \<or> magnitude = [] \<or> code (hd magnitude) < 48 \<or>
             code (hd magnitude) > 57 \<or> (negative \<and> np_category p = ncUnsignedInteger) then None
          else
            case from_chars_u64 magnitude of
              None \<Rightarrow> None
            | Some (v, n) \<Rightarrow>
                if n \<noteq> length magnitude then None
                else
                  let maximum = (if np_category p = ncSignedInteger
                        then push_bit (np_bit_width p - 1) 1 - (if negative then 0 else 1)
                        else integer_mask (np_bit_width p)) in
                  if v > maximum then None
                  else Some ((if negative then 0 - v else v) AND integer_mask (np_bit_width p)))"

definition is_valid_integer_bits :: "u64 \<Rightarrow> TypeKind \<Rightarrow> bool" where
  "is_valid_integer_bits bits type \<longleftrightarrow>
     (case numeric_type_properties type of
        None \<Rightarrow> False
      | Some p \<Rightarrow> is_integer_type type \<and> bits \<le> integer_mask (np_bit_width p))"

definition widen_integer_constant :: "u64 \<Rightarrow> TypeKind \<Rightarrow> TypeKind \<Rightarrow> u64 option" where
  "widen_integer_constant bits source target =
     (if \<not> is_valid_integer_bits bits source \<or> \<not> is_integer_type target \<or>
         (source \<noteq> target \<and> \<not> can_widen_numeric source target) then None
      else
        let p = the (numeric_type_properties source);
            bits = (if np_category p = ncSignedInteger \<and> (bits AND push_bit (np_bit_width p - 1) 1) \<noteq> 0
                    then bits OR NOT (integer_mask (np_bit_width p)) else bits) in
        Some (bits AND integer_mask (np_bit_width (the (numeric_type_properties target)))))"

section \<open>Widths, ranges and values\<close>

definition type_width :: "TypeKind \<Rightarrow> nat" where
  "type_width t = (case numeric_type_properties t of None \<Rightarrow> 0 | Some p \<Rightarrow> np_bit_width p)"

definition type_signed :: "TypeKind \<Rightarrow> bool" where
  "type_signed t \<longleftrightarrow>
     (case numeric_type_properties t of None \<Rightarrow> False | Some p \<Rightarrow> np_category p = ncSignedInteger)"

definition type_min :: "TypeKind \<Rightarrow> int" where
  "type_min t = (if type_signed t then - (2 ^ (type_width t - 1)) else 0)"

definition type_max :: "TypeKind \<Rightarrow> int" where
  "type_max t = (if type_signed t then 2 ^ (type_width t - 1) - 1 else 2 ^ type_width t - 1)"

text \<open>The mathematical integer a bit pattern of a type denotes: two's complement.\<close>

definition int_value :: "TypeKind \<Rightarrow> u64 \<Rightarrow> int" where
  "int_value t bits =
     (if type_signed t \<and> 2 ^ (type_width t - 1) \<le> uint bits
      then uint bits - 2 ^ type_width t else uint bits)"

text \<open>The pattern of an integer in a type.\<close>

definition pattern :: "TypeKind \<Rightarrow> int \<Rightarrow> u64" where
  "pattern t v = of_int (v mod 2 ^ type_width t)"

lemma width_cases:
  assumes "is_integer_type t"
  shows "type_width t \<in> {8, 16, 32, 64}"
    "numeric_type_properties t = Some \<lparr>np_category = (if type_signed t then ncSignedInteger
       else ncUnsignedInteger), np_bit_width = type_width t\<rparr>"
  using assms by (cases t; simp add: is_integer_type_def type_width_def type_signed_def
      numeric_type_properties_def properties_def)+

lemma uint_integer_mask: "w \<in> {8, 16, 32, 64} \<Longrightarrow> uint (integer_mask w) = 2 ^ w - 1"
  by (auto simp: integer_mask_def)

lemma integer_mask_mask:
  assumes w: "w \<in> {8, 16, 32, 64}" shows "integer_mask w = mask w"
proof -
  have "min LENGTH(64) w = w" using w by auto
  then have "uint (mask w :: u64) = mask w" by (simp only: uint_mask_eq)
  then have "uint (integer_mask w) = uint (mask w :: u64)"
    using uint_integer_mask [OF w] by (simp only: mask_eq_exp_minus_1)
  then show ?thesis by (simp only: word_uint_eq_iff)
qed

lemma uint_and_mask_mod: "uint (b AND mask w) = uint b mod 2 ^ w" for b :: u64
  by (simp only: uint_nat unat_and_mask zmod_int of_nat_power of_nat_numeral)

lemma uint_and_integer_mask:
  "w \<in> {8, 16, 32, 64} \<Longrightarrow> uint (b AND integer_mask w) = uint b mod 2 ^ w"
  by (simp only: integer_mask_mask uint_and_mask_mod)

lemma valid_bits_iff:
  "is_valid_integer_bits b t \<longleftrightarrow> is_integer_type t \<and> uint b < 2 ^ type_width t"
proof (cases "is_integer_type t")
  case True
  note w = width_cases [OF True]
  have "b \<le> integer_mask (type_width t) \<longleftrightarrow> uint b < 2 ^ type_width t"
    using uint_integer_mask [OF w(1)] by (simp add: word_le_def)
  then show ?thesis using w(2) True by (simp add: is_valid_integer_bits_def)
qed (simp add: is_valid_integer_bits_def split: option.split)

lemma width_bounds:
  assumes "is_integer_type t"
  shows "0 < type_width t" "type_width t \<le> 64" "(2::int) ^ type_width t = 2 * 2 ^ (type_width t - 1)"
    "(2::int) ^ type_width t \<le> 2 ^ 64"
proof -
  show w: "0 < type_width t" "type_width t \<le> 64" using width_cases(1) [OF assms] by auto
  then obtain k where "type_width t = Suc k" by (cases "type_width t") auto
  then show "(2::int) ^ type_width t = 2 * 2 ^ (type_width t - 1)" by simp
  show "(2::int) ^ type_width t \<le> 2 ^ 64" by (rule power_increasing [OF w(2)]) simp
qed

lemma uint_nonneg [simp]: "0 \<le> uint (b :: u64)" "0 \<le> uint b + 2 ^ k"
  by simp_all

lemma int_value_range:
  assumes "is_valid_integer_bits b t"
  shows "type_min t \<le> int_value t b" "int_value t b \<le> type_max t"
proof -
  define h :: int where "h = 2 ^ (type_width t - 1)"
  have w: "2 ^ type_width t = 2 * h"
    using assms width_bounds(3) by (simp add: valid_bits_iff h_def)
  define u where "u = uint b"
  have b: "0 \<le> u" "u < 2 * h" "0 < h"
    using assms by (simp_all add: valid_bits_iff w u_def) (simp add: h_def)
  show "type_min t \<le> int_value t b" "int_value t b \<le> type_max t"
    unfolding type_min_def type_max_def int_value_def w h_def [symmetric] u_def [symmetric]
    using b by auto
qed

lemma int_value_mod: "int_value t b mod 2 ^ type_width t = uint b mod 2 ^ type_width t"
  by (simp add: int_value_def)

lemma uint_pattern:
  assumes "is_integer_type t"
  shows "uint (pattern t v) = v mod 2 ^ type_width t"
proof -
  have m: "0 \<le> v mod 2 ^ type_width t" "v mod 2 ^ type_width t < 2 ^ type_width t" by simp_all
  then have "v mod 2 ^ type_width t mod 2 ^ 64 = v mod 2 ^ type_width t"
    using width_bounds(4) [OF assms] by (intro mod_pos_pos_trivial) linarith+
  then show ?thesis by (simp add: pattern_def uint_word_of_int)
qed

lemma pattern_valid:
  assumes "is_integer_type t" shows "is_valid_integer_bits (pattern t v) t"
  using assms uint_pattern [OF assms, of v] by (simp add: valid_bits_iff)

text \<open>A pattern is read back to the integer when that is in the range of the type.\<close>

lemma int_value_pattern:
  assumes t: "is_integer_type t" and v: "type_min t \<le> v" "v \<le> type_max t"
  shows "int_value t (pattern t v) = v"
proof -
  define h :: int where "h = 2 ^ (type_width t - 1)"
  have w: "2 ^ type_width t = 2 * h" using width_bounds(3) [OF t] by (simp add: h_def)
  have h: "0 < h" by (simp add: h_def)
  have u: "uint (pattern t v) = v mod (2 * h)" using uint_pattern [OF t] by (simp add: w)
  have iv: "int_value t (pattern t v) =
      (if type_signed t \<and> h \<le> v mod (2 * h) then v mod (2 * h) - 2 * h else v mod (2 * h))"
    by (simp add: int_value_def u w h_def)
  have r: "if type_signed t then - h \<le> v \<and> v \<le> h - 1 else 0 \<le> v \<and> v \<le> 2 * h - 1"
    using v unfolding type_min_def type_max_def w h_def [symmetric] by (simp split: if_splits)
  show ?thesis
  proof (cases "0 \<le> v")
    case True
    then have "v mod (2 * h) = v" using r h by (intro mod_pos_pos_trivial) (auto split: if_splits)
    then show ?thesis using True r h iv by (auto split: if_splits)
  next
    case False
    then have s: "type_signed t" "- h \<le> v" using r by (auto split: if_splits)
    have "(v + 2 * h) mod (2 * h) = v + 2 * h"
      using False s h by (intro mod_pos_pos_trivial) auto
    then have "v mod (2 * h) = v + 2 * h" by simp
    then show ?thesis using s h iv by simp
  qed
qed

lemma int_value_inj:
  assumes "is_valid_integer_bits a t" "is_valid_integer_bits b t" "int_value t a = int_value t b"
  shows "a = b"
proof -
  have "uint a mod 2 ^ type_width t = uint b mod 2 ^ type_width t"
    using int_value_mod [of t a] int_value_mod [of t b] assms(3) by simp
  moreover have "uint c mod 2 ^ type_width t = uint c" if "is_valid_integer_bits c t" for c
    using that by (intro mod_pos_pos_trivial) (simp_all add: valid_bits_iff)
  ultimately show ?thesis using assms by (simp add: word_uint_eq_iff)
qed

lemma pattern_int_value:
  assumes "is_valid_integer_bits b t" shows "pattern t (int_value t b) = b"
proof -
  have t: "is_integer_type t" using assms by (simp add: valid_bits_iff)
  show ?thesis
    by (rule int_value_inj [OF pattern_valid [OF t] assms])
      (rule int_value_pattern [OF t int_value_range [OF assms]])
qed


section \<open>The operations on constants\<close>

lemma mod_64_width: "is_integer_type t \<Longrightarrow> (v mod 2 ^ 64) mod 2 ^ type_width t = v mod (2 ^ type_width t :: int)"
  by (intro mod_mod_cancel le_imp_power_dvd width_bounds(2))

lemma uint_of_int_u64: "uint (word_of_int v :: u64) = v mod 2 ^ 64"
  by (simp add: uint_word_of_int)

lemma word_mask_pattern:
  assumes "is_integer_type t"
  shows "word_of_int v AND integer_mask (type_width t) = pattern t v"
proof -
  have "uint (word_of_int v AND integer_mask (type_width t)) = uint (pattern t v)"
    by (simp only: uint_and_integer_mask [OF width_cases(1) [OF assms]] uint_pattern [OF assms]
        uint_of_int_u64 mod_64_width [OF assms])
  then show ?thesis by (simp only: word_uint_eq_iff)
qed


lemma integer_constant_bits_digits:
  assumes "is_integer_type t" "s \<noteq> []" "list_all (\<lambda>c. 48 \<le> code c \<and> code c \<le> 57) s"
    and neg: "neg \<longrightarrow> type_signed t"
    and v: "v = (if neg then - int (decimal_value s) else int (decimal_value s))"
  shows "integer_constant_bits s neg t =
    (if type_min t \<le> v \<and> v \<le> type_max t then Some (pattern t v) else None)"
proof -
  define h :: int where "h = 2 ^ (type_width t - 1)"
  have w: "2 ^ type_width t = 2 * h" using width_bounds(3) [OF assms(1)] by (simp add: h_def)
  have h: "0 < h" "2 * h \<le> 2 ^ 64" using width_bounds(4) [OF assms(1)] w by (simp_all add: h_def)
  note p = width_cases [OF assms(1)]
  have tw: "takeWhile (\<lambda>c. 48 \<le> code c \<and> code c \<le> 57) s = s" using assms(3) by (simp add: list_all_iff)
  have hd: "\<not> (s = [] \<or> code (hd s) < 48 \<or> code (hd s) > 57)"
    using assms(2,3) by (cases s) auto
  have rng: "type_min t \<le> v \<and> v \<le> type_max t \<longleftrightarrow> int (decimal_value s) \<le>
      (if type_signed t then h - (if neg then 0 else 1) else 2 * h - 1)"
    unfolding type_min_def type_max_def w h_def [symmetric] v using h neg by auto
  show ?thesis
  proof (cases "decimal_value s < 2 ^ 64")
    case False
    then have "\<not> (type_min t \<le> v \<and> v \<le> type_max t)"
      unfolding rng using h by (auto split: if_splits)
    moreover have "from_chars_u64 s = None" using False assms(2) by (simp add: from_chars_u64_def Let_def tw)
    ultimately show ?thesis using p hd by (simp add: integer_constant_bits_def)
  next
    case True
    let ?v = "of_nat (decimal_value s) :: u64"
    have fc: "from_chars_u64 s = Some (?v, length s)"
      using True assms(2) by (simp add: from_chars_u64_def Let_def tw)
    have uv: "uint ?v = int (decimal_value s)" using True by (simp add: uint_nat unat_of_nat)
    define M where "M = (if type_signed t then push_bit (type_width t - 1) 1 - (if neg then 0 else 1)
      else integer_mask (type_width t))"
    have "uint (push_bit (type_width t - 1) 1 - (if neg then 0 else 1 :: u64)) = h - (if neg then 0 else 1)"
      using p(1) by (auto simp: h_def)
    then have "uint M = (if type_signed t then h - (if neg then 0 else 1) else 2 * h - 1)"
      unfolding M_def using uint_integer_mask [OF p(1)] w by (simp only: if_distrib [of uint] split: if_split)
    then have gt: "?v > M \<longleftrightarrow> \<not> (type_min t \<le> v \<and> v \<le> type_max t)"
      unfolding rng word_less_def uv by linarith
    have e: "(if neg then 0 - ?v else ?v) = word_of_int v" by (simp add: v)
    have pat: "(if neg then 0 - ?v else ?v) AND integer_mask (type_width t) = pattern t v"
      unfolding e by (rule word_mask_pattern [OF assms(1)])
    have "integer_constant_bits s neg t = (if ?v > M then None
        else Some ((if neg then 0 - ?v else ?v) AND integer_mask (type_width t)))"
      using p(2) hd fc neg assms(1) by (auto simp: integer_constant_bits_def Let_def M_def)
    then show ?thesis unfolding gt pat by (simp only: if_not_P split: if_split) simp
  qed
qed


lemma integer_constant_bits_reject:
  assumes "\<not> (is_integer_type t \<and> s \<noteq> [] \<and> list_all (\<lambda>c. 48 \<le> code c \<and> code c \<le> 57) s \<and> (neg \<longrightarrow> type_signed t))"
  shows "integer_constant_bits s neg t = None"
proof (cases "is_integer_type t \<and> (neg \<longrightarrow> type_signed t) \<and> s \<noteq> []")
  case True
  then have "\<exists>c \<in> set s. \<not> (48 \<le> code c \<and> code c \<le> 57)" using assms by (auto simp: list_all_iff)
  then have "takeWhile (\<lambda>c. 48 \<le> code c \<and> code c \<le> 57) s \<noteq> s" by (metis (mono_tags, lifting) set_takeWhileD)
  then have "length (takeWhile (\<lambda>c. 48 \<le> code c \<and> code c \<le> 57) s) \<noteq> length s"
    by (metis takeWhile_eq_take take_all_iff order_refl)
  then show ?thesis
    by (auto simp: integer_constant_bits_def from_chars_u64_def Let_def split: option.split)
next
  case False
  have "np_category p = ncUnsignedInteger"
    if "is_integer_type t" "\<not> type_signed t" "numeric_type_properties t = Some p" for p
    using that width_cases(2) [of t] by auto
  then show ?thesis using False by (auto simp: integer_constant_bits_def split: option.split)
qed

lemma sign_bit_test:
  assumes "uint b < 2 ^ w" "0 < w" "w \<le> 64"
  shows "(b AND push_bit (w - 1) 1) \<noteq> 0 \<longleftrightarrow> 2 ^ (w - 1) \<le> uint (b :: u64)"
proof -
  obtain k where w: "w = Suc k" using assms(2) by (cases w) auto
  have "(b AND push_bit (w - 1) 1) \<noteq> 0 \<longleftrightarrow> bit b k"
    using assms(3) w by (simp add: bit_iff_and_push_bit_not_eq_0)
  also have "\<dots> \<longleftrightarrow> odd (uint b div 2 ^ k)"
    using bit_uint_iff [of b k] assms(3) w by (simp add: bit_iff_odd)
  also have "\<dots> \<longleftrightarrow> 2 ^ k \<le> uint b"
  proof (cases "2 ^ k \<le> uint b")
    case True
    then have "uint b div 2 ^ k = 1" using assms(1) w by (intro int_div_pos_eq [of _ _ 1 "uint b - 2 ^ k"]) auto
    then show ?thesis using True by simp
  next
    case False
    then show ?thesis by (simp add: div_pos_pos_trivial)
  qed
  finally show ?thesis using w by simp
qed

lemma sign_extend:
  assumes "w \<in> {8, 16, 32, 64}" "uint b < 2 ^ w"
  shows "b OR NOT (integer_mask w) = word_of_int (uint b - 2 ^ w)"
proof -
  have m: "b AND mask w = b" using assms(2) by (simp only: mask_eq_iff)
  have "(b AND mask w) AND NOT (mask w) = 0" by (simp only: and.assoc bit.conj_cancel_right bit.conj_zero_right)
  then have "b AND NOT (mask w) = 0" by (simp only: m)
  then have "b OR NOT (mask w) = b + NOT (mask w)" by (simp only: disjunctive_add_eq_or)
  moreover have "NOT (mask w) = - (2 ^ w :: u64)" by (simp add: not_eq_complement mask_eq_exp_minus_1)
  ultimately have "b OR NOT (mask w) = b - 2 ^ w" by (simp only: diff_conv_add_uminus)
  moreover have "word_of_int (uint b - 2 ^ w) = b - 2 ^ w" by simp
  ultimately show ?thesis by (simp only: integer_mask_mask [OF assms(1)])
qed

lemma widen_integer_constant_eq:
  assumes "is_valid_integer_bits b s" "is_integer_type t" "s = t \<or> can_widen_numeric s t"
  shows "widen_integer_constant b s t = Some (pattern t (int_value s b))"
proof -
  have s: "is_integer_type s" "uint b < 2 ^ type_width s" using assms(1) by (simp_all add: valid_bits_iff)
  let ?b = "if type_signed s \<and> 2 ^ (type_width s - 1) \<le> uint b
    then b OR NOT (integer_mask (type_width s)) else b"
  have "widen_integer_constant b s t = Some (?b AND integer_mask (type_width t))"
    using assms sign_bit_test [OF s(2) width_bounds(1,2) [OF s(1)]]
    by (simp add: widen_integer_constant_def Let_def width_cases(2) [OF s(1)] width_cases(2) [OF assms(2)])
  moreover have "?b = word_of_int (int_value s b)"
    using sign_extend [OF width_cases(1) [OF s(1)] s(2)] by (simp add: int_value_def)
  ultimately show ?thesis using word_mask_pattern [OF assms(2)] by (simp only:)
qed

lemma can_widen_iff:
  assumes "is_integer_type s" "is_integer_type t"
  shows "can_widen_numeric s t \<longleftrightarrow>
    {type_min s..type_max s} \<subset> {type_min t..type_max t}"
  using assms
  by (cases s; cases t; simp add: is_integer_type_def can_widen_numeric_def numeric_type_properties_def
      properties_def type_min_def type_max_def type_signed_def type_width_def psubset_eq)


section \<open>Properties\<close>

text \<open>
  C14: \<open>integer_constant_bits\<close> accepts a magnitude and sign for an integer type exactly when the text is a
  decimal numeral, a minus sign goes with a signed type, and the value lies in the type's range; the
  bits it returns are the two's complement pattern of that value, so reading them back gives it.
\<close>

theorem integer_constant_bits_correct:
  "integer_constant_bits s neg t =
     (let v = (if neg then - int (decimal_value s) else int (decimal_value s)) in
      if is_integer_type t \<and> s \<noteq> [] \<and> list_all (\<lambda>c. 48 \<le> code c \<and> code c \<le> 57) s \<and>
         \<not> (neg \<and> \<not> type_signed t) \<and> type_min t \<le> v \<and> v \<le> type_max t
      then Some (pattern t v) else None)"
proof (cases "is_integer_type t \<and> s \<noteq> [] \<and> list_all (\<lambda>c. 48 \<le> code c \<and> code c \<le> 57) s \<and>
    (neg \<longrightarrow> type_signed t)")
  case True
  then show ?thesis
    using integer_constant_bits_digits [OF _ _ _ _ refl, of t s neg] by (simp add: Let_def)
next
  case False
  then show ?thesis
    using integer_constant_bits_reject [OF False] by (auto simp: Let_def)
qed

text \<open>
  C15: implicit widening between integer types is allowed exactly when the source's values are a proper
  subset of the target's, and widening a constant then keeps its value, by zero or sign extension.
\<close>

theorem widen_integer_constant_correct:
  assumes "is_valid_integer_bits b s" "is_integer_type t"
  shows "(can_widen_numeric s t \<longleftrightarrow> {type_min s..type_max s} \<subset> {type_min t..type_max t}) \<and>
    (case widen_integer_constant b s t of
       None \<Rightarrow> s \<noteq> t \<and> \<not> can_widen_numeric s t
     | Some r \<Rightarrow> is_valid_integer_bits r t \<and> int_value t r = int_value s b)"
proof -
  have s: "is_integer_type s" using assms(1) by (simp add: valid_bits_iff)
  note iff = can_widen_iff [OF s assms(2)]
  show ?thesis
  proof (cases "s = t \<or> can_widen_numeric s t")
    case True
    then have sub: "{type_min s..type_max s} \<subseteq> {type_min t..type_max t}" using iff by auto
    have "int_value s b \<in> {type_min t..type_max t}"
      using int_value_range [OF assms(1)] sub by (meson atLeastAtMost_iff subsetD)
    then show ?thesis
      using widen_integer_constant_eq [OF assms True] int_value_pattern [OF assms(2)]
        pattern_valid [OF assms(2)] iff by simp
  next
    case False
    then show ?thesis using iff by (simp add: widen_integer_constant_def)
  qed
qed

theorem widen_integer_constant_correct_witness:
  "is_valid_integer_bits 0xFE tyInt8 \<and> int_value tyInt8 0xFE = -2 \<and>
   (case widen_integer_constant 0xFE tyInt8 tyInt32 of
      None \<Rightarrow> False | Some r \<Rightarrow> int_value tyInt32 r = -2)"
proof -
  have t: "is_integer_type tyInt8" "is_integer_type tyInt32" "type_width tyInt8 = 8" "type_signed tyInt8"
      "can_widen_numeric tyInt8 tyInt32"
    by (simp_all add: is_integer_type_def numeric_type_properties_def properties_def type_width_def
        type_signed_def can_widen_numeric_def)
  then have v: "is_valid_integer_bits 0xFE tyInt8" "int_value tyInt8 0xFE = -2"
    by (simp_all add: valid_bits_iff int_value_def)
  show ?thesis
    using widen_integer_constant_correct [OF v(1) t(2)] v t(5) by (simp split: option.splits)
qed

end
