(* ===== verification/Float_Constants.thy ===== *)
theory Float_Constants
  imports Ast Naturals Numeric_Types Numeric_Literals Tokens Utf8
begin

text \<open>
  Floating-point constants (\<^verbatim>\<open>src/sema/scalar_constants.cc\<close>): unpacking IEEE bit patterns,
  rounding an exact quotient to a format, decimal text, comparison and arithmetic, all on
  \<open>Natural\<close> without host floating point. \<open>ConstantBits\<close> is a sum whose left side is the error.
  The lemmas show that \<open>pack\<close> rounds to nearest, ties to even, with the overflow and underflow
  behaviour of the code, and that decimal text and the operators are therefore rounded correctly.
\<close>

section \<open>The code\<close>

datatype ConstantError = ceInvalidLiteral | ceOutOfRange | ceOverflow | ceZeroDivisor
  | ceInvalidShift | ceNonFinite | ceInvalidOperation

type_synonym ConstantBits = "ConstantError + u64"

datatype IntegerConversionMode = cmWrap | cmSat

primrec constant_error_message :: "ConstantError \<Rightarrow> string" where
  "constant_error_message ceInvalidLiteral = ''invalid scalar constant literal''"
| "constant_error_message ceOutOfRange = ''constant value is out of range for its type''"
| "constant_error_message ceOverflow = ''constant arithmetic overflow''"
| "constant_error_message ceZeroDivisor = ''constant division or remainder by zero''"
| "constant_error_message ceInvalidShift = ''constant shift count is out of range''"
| "constant_error_message ceNonFinite = ''constant floating-point result is not finite''"
| "constant_error_message ceInvalidOperation = ''invalid scalar constant operation''"

definition kMaxConstantLiteralBytes :: nat where
  "kMaxConstantLiteralBytes = 4096"

record FloatFormat =
  ff_fraction :: nat
  ff_exponent :: nat
  ff_bias :: int

definition format :: "TypeKind \<Rightarrow> FloatFormat" where
  "format type = (if type = tyFloat32 then \<lparr>ff_fraction = 23, ff_exponent = 8, ff_bias = 127\<rparr>
     else \<lparr>ff_fraction = 52, ff_exponent = 11, ff_bias = 1023\<rparr>)"

definition floating :: "TypeKind \<Rightarrow> bool" where
  "floating type \<longleftrightarrow> type = tyFloat32 \<or> type = tyFloat64"

definition sign_bit :: "TypeKind \<Rightarrow> u64" where
  "sign_bit type = push_bit (ff_fraction (format type) + ff_exponent (format type)) 1"

definition bit_mask :: "nat \<Rightarrow> u64" where
  "bit_mask width = (if width = 64 then NOT 0 else push_bit width 1 - 1)"

record Finite =
  fin_negative :: bool
  fin_magnitude :: Natural
  fin_scale :: int

definition unpack :: "u64 \<Rightarrow> TypeKind \<Rightarrow> Finite" where
  "unpack bits type =
     (let f = format type;
          exponent = unat (drop_bit (ff_fraction f) bits AND bit_mask (ff_exponent f)) in
      \<lparr>fin_negative = (bits AND sign_bit type) \<noteq> 0,
       fin_magnitude = natural_of_u64 ((bits AND bit_mask (ff_fraction f)) OR
         (if exponent \<noteq> 0 then push_bit (ff_fraction f) 1 else 0)),
       fin_scale = (if exponent \<noteq> 0 then int exponent else 1) - ff_bias f - int (ff_fraction f)\<rparr>)"

definition scaled_compare :: "Natural \<Rightarrow> Natural \<Rightarrow> int \<Rightarrow> int" where
  "scaled_compare left right difference =
     (if difference \<ge> 0 then nat_compare (nat_shift (nat difference) left) right
      else nat_compare left (nat_shift (nat (- difference)) right))"

text \<open>
  Rounding \<open>numerator / denominator * 2 ^ scale\<close> to a format. \<open>pack_quotient\<close> is the part after the
  quotient and the remainder have been computed.
\<close>

definition underflow :: "bool \<Rightarrow> u64 \<Rightarrow> ConstantBits" where
  "underflow literal sign = (if literal then Inl ceOutOfRange else Inr sign)"

definition pack_quotient ::
  "FloatFormat \<Rightarrow> u64 \<Rightarrow> bool \<Rightarrow> int \<Rightarrow> Natural \<Rightarrow> Natural \<Rightarrow> u64 \<Rightarrow> ConstantBits" where
  "pack_quotient f sign literal exponent remainder denominator quot =
     (let halfway = nat_compare (nat_shift 1 remainder) denominator;
          quot = (if halfway > 0 \<or> (halfway = 0 \<and> (quot AND 1) \<noteq> 0) then quot + 1 else quot) in
      if quot = 0 then underflow literal sign
      else
        let carried = (quot = push_bit (ff_fraction f + 1) 1);
            exponent = (if carried then exponent + 1 else exponent);
            quot = (if carried then drop_bit 1 quot else quot) in
        if exponent > ff_bias f then Inl ceNonFinite
        else
          let normal_value = (quot \<ge> push_bit (ff_fraction f) 1);
              stored_exponent = (if normal_value then max exponent (1 - ff_bias f) + ff_bias f else 0) in
          Inr (sign OR push_bit (ff_fraction f) (of_int stored_exponent) OR
               (quot AND bit_mask (ff_fraction f))))"

definition pack :: "bool \<Rightarrow> Natural \<Rightarrow> Natural \<Rightarrow> int \<Rightarrow> TypeKind \<Rightarrow> bool \<Rightarrow> ConstantBits" where
  "pack negative numerator denominator scale type literal =
     (let f = format type;
          sign = (if negative then sign_bit type else 0) in
      if nat_zero numerator then Inr sign
      else
        let exponent = int (nat_width numerator) - int (nat_width denominator) + scale;
            exponent = (if scaled_compare numerator denominator (scale - exponent) < 0
                        then exponent - 1 else exponent) in
        if exponent > ff_bias f then Inl ceNonFinite
        else if exponent < 1 - ff_bias f - int (ff_fraction f) - 1 then underflow literal sign
        else
          let quantum = max exponent (1 - ff_bias f) - int (ff_fraction f);
              shift = scale - quantum;
              numerator = (if shift \<ge> 0 then nat_shift (nat shift) numerator else numerator);
              denominator = (if shift \<ge> 0 then denominator else nat_shift (nat (- shift)) denominator) in
          case divide_loop denominator
                 (nat (int (nat_width numerator) - int (nat_width denominator) + 1)) numerator 0 of
            (remainder, quot) \<Rightarrow>
              pack_quotient f sign literal exponent remainder denominator quot)"

text \<open>Decimal floating-point text: the digits read so far.\<close>

record DecimalScan =
  ds_numerator :: Natural
  ds_integer_digits :: nat
  ds_fractional_digits :: nat
  ds_significant_digits :: nat
  ds_nonzero :: bool

definition consume_digit :: "char \<Rightarrow> bool \<Rightarrow> DecimalScan \<Rightarrow> DecimalScan" where
  "consume_digit ch fractional s =
     (let numerator = nat_add (nat_multiply (ds_numerator s) (natural_of_u64 10))
            (natural_of_u64 (of_nat (code ch - 48)));
          nonzero = (ds_nonzero s \<or> ch \<noteq> CHR ''0'') in
      \<lparr>ds_numerator = numerator,
       ds_integer_digits = (if fractional then ds_integer_digits s else ds_integer_digits s + 1),
       ds_fractional_digits = (if fractional then ds_fractional_digits s + 1 else ds_fractional_digits s),
       ds_significant_digits = (if nonzero then ds_significant_digits s + 1 else ds_significant_digits s),
       ds_nonzero = nonzero\<rparr>)"

definition consume_digits :: "string \<Rightarrow> bool \<Rightarrow> DecimalScan \<Rightarrow> DecimalScan" where
  "consume_digits run fractional s = foldl (\<lambda>s ch. consume_digit ch fractional s) s run"

fun float_exponent_loop :: "string \<Rightarrow> int \<Rightarrow> int" where
  "float_exponent_loop [] exponent = exponent"
| "float_exponent_loop (c # cs) exponent =
     (let digit = int (code c) - 48 in
      float_exponent_loop cs
        (if exponent > (1000000 - digit) div 10 then 1000000 else exponent * 10 + digit))"

fun power_of_ten :: "nat \<Rightarrow> Natural \<Rightarrow> Natural" where
  "power_of_ten 0 p = p"
| "power_of_ten (Suc n) p = power_of_ten n (nat_multiply p (natural_of_u64 10))"

text \<open>The conversion after the text has been read.\<close>

definition finish_decimal_float :: "bool \<Rightarrow> TypeKind \<Rightarrow> DecimalScan \<Rightarrow> int \<Rightarrow> ConstantBits" where
  "finish_decimal_float negative type s exponent =
     (if nat_zero (ds_numerator s) then
        pack negative (ds_numerator s) (natural_of_u64 1) 0 type True
      else
        let decimal_exponent = exponent - int (ds_fractional_digits s);
            order = int (ds_significant_digits s) + decimal_exponent in
        if order > 400 then Inl ceNonFinite
        else if order < -400 then Inl ceOutOfRange
        else
          let p = power_of_ten (nat \<bar>decimal_exponent\<bar>) (natural_of_u64 1) in
          if decimal_exponent \<ge> 0 then
            pack negative (nat_multiply (ds_numerator s) p) (natural_of_u64 1) 0 type True
          else pack negative (ds_numerator s) p 0 type True)"

text \<open>The exponent part of the text, from \<open>offset\<close> on.\<close>

definition decimal_float_exponent :: "string \<Rightarrow> bool \<Rightarrow> TypeKind \<Rightarrow> DecimalScan \<Rightarrow> nat \<Rightarrow> ConstantBits" where
  "decimal_float_exponent txt negative type s offset =
     (if offset < length txt \<and> (txt ! offset = CHR ''e'' \<or> txt ! offset = CHR ''E'') then
        let offset = offset + 1;
            signed = (offset < length txt \<and> (txt ! offset = CHR ''+'' \<or> txt ! offset = CHR ''-''));
            exponent_negative = (signed \<and> txt ! offset = CHR ''-'');
            begin_offset = (if signed then offset + 1 else offset);
            offset = skip_while is_decimal_digit txt begin_offset;
            exponent = float_exponent_loop (substr txt begin_offset (offset - begin_offset)) 0 in
        if offset = begin_offset then Inl ceInvalidLiteral
        else if offset \<noteq> length txt then Inl ceInvalidLiteral
        else finish_decimal_float negative type s (if exponent_negative then - exponent else exponent)
      else if offset \<noteq> length txt then Inl ceInvalidLiteral
      else finish_decimal_float negative type s 0)"

definition empty_scan :: DecimalScan where
  "empty_scan = \<lparr>ds_numerator = natural_of_u64 0, ds_integer_digits = 0, ds_fractional_digits = 0,
     ds_significant_digits = 0, ds_nonzero = False\<rparr>"

definition decimal_float :: "string \<Rightarrow> bool \<Rightarrow> TypeKind \<Rightarrow> ConstantBits" where
  "decimal_float txt negative type =
     (let offset = skip_while is_decimal_digit txt 0;
          s = consume_digits (substr txt 0 offset) False empty_scan in
      if ds_integer_digits s = 0 then Inl ceInvalidLiteral
      else if offset < length txt \<and> txt ! offset = CHR ''.'' then
        let begin_offset = offset + 1;
            offset = skip_while is_decimal_digit txt begin_offset;
            s = consume_digits (substr txt begin_offset (offset - begin_offset)) True s in
        if ds_fractional_digits s = 0 then Inl ceInvalidLiteral
        else decimal_float_exponent txt negative type s offset
      else decimal_float_exponent txt negative type s offset)"

definition comparison :: "TokenKind \<Rightarrow> int \<Rightarrow> bool" where
  "comparison operation order =
     (case operation of
        kEqualEqual \<Rightarrow> order = 0
      | kBangEqual \<Rightarrow> order \<noteq> 0
      | kLess \<Rightarrow> order < 0
      | kLessEqual \<Rightarrow> order \<le> 0
      | kGreater \<Rightarrow> order > 0
      | kGreaterEqual \<Rightarrow> order \<ge> 0
      | _ \<Rightarrow> False)"

definition is_comparison :: "TokenKind \<Rightarrow> bool" where
  "is_comparison operation \<longleftrightarrow>
     operation = kEqualEqual \<or> operation = kBangEqual \<or> operation = kLess \<or>
     operation = kLessEqual \<or> operation = kGreater \<or> operation = kGreaterEqual"

text \<open>A \<^verbatim>\<open>bool\<close> returned as constant bits.\<close>

definition bool_bits :: "bool \<Rightarrow> ConstantBits" where
  "bool_bits b = Inr (if b then 1 else 0)"

definition float_order :: "Finite \<Rightarrow> Finite \<Rightarrow> int" where
  "float_order a b =
     (let order = scaled_compare (fin_magnitude a) (fin_magnitude b) (fin_scale a - fin_scale b) in
      if nat_zero (fin_magnitude a) \<and> nat_zero (fin_magnitude b) then 0
      else if fin_negative a \<noteq> fin_negative b then (if fin_negative a then -1 else 1)
      else if fin_negative a then - order
      else order)"

text \<open>The sum of two values, the second with its sign already changed for a subtraction.\<close>

definition float_sum :: "Finite \<Rightarrow> Finite \<Rightarrow> TypeKind \<Rightarrow> ConstantBits" where
  "float_sum a b type =
     (let scale = min (fin_scale a) (fin_scale b);
          x = nat_shift (nat (fin_scale a - scale)) (fin_magnitude a);
          y = nat_shift (nat (fin_scale b - scale)) (fin_magnitude b) in
      if fin_negative a = fin_negative b
      then pack (fin_negative a) (nat_add x y) (natural_of_u64 1) scale type False
      else
        let swapped = (nat_compare x y < 0);
            m = (if swapped then nat_subtract y x else nat_subtract x y);
            negative = (if nat_zero m then False
                        else if swapped then fin_negative b else fin_negative a) in
        pack negative m (natural_of_u64 1) scale type False)"

definition float_binary :: "TokenKind \<Rightarrow> TypeKind \<Rightarrow> u64 \<Rightarrow> u64 \<Rightarrow> ConstantBits" where
  "float_binary operation type left right =
     (let a = unpack left type; b = unpack right type in
      if is_comparison operation then bool_bits (comparison operation (float_order a b))
      else if operation = kStar then
        pack (fin_negative a \<noteq> fin_negative b) (nat_multiply (fin_magnitude a) (fin_magnitude b))
          (natural_of_u64 1) (fin_scale a + fin_scale b) type False
      else if operation = kSlash then
        (if nat_zero (fin_magnitude b) then Inl ceZeroDivisor
         else pack (fin_negative a \<noteq> fin_negative b) (fin_magnitude a) (fin_magnitude b)
                (fin_scale a - fin_scale b) type False)
      else if operation \<noteq> kPlus \<and> operation \<noteq> kMinus then Inl ceInvalidOperation
      else float_sum a
             (if operation = kMinus then b\<lparr>fin_negative := \<not> fin_negative b\<rparr> else b) type)"

definition is_scalar_constant_type :: "TypeKind \<Rightarrow> bool" where
  "is_scalar_constant_type type \<longleftrightarrow>
     is_numeric_type type \<or> type = tyBool \<or> type = tyChar \<or> type = tyEnum"

definition is_valid_scalar_bits :: "TypeKind \<Rightarrow> u64 \<Rightarrow> bool" where
  "is_valid_scalar_bits type bits \<longleftrightarrow>
     (if is_integer_type type then is_valid_integer_bits bits type
      else if type = tyBool then bits \<le> 1
      else if type = tyChar then is_unicode_scalar bits
      else if type = tyEnum then bits < 65536
      else if \<not> floating type then False
      else
        let f = format type in
        bits AND NOT (bit_mask (ff_fraction f + ff_exponent f + 1)) = 0 \<and>
        drop_bit (ff_fraction f) bits AND bit_mask (ff_exponent f) \<noteq> bit_mask (ff_exponent f))"

section \<open>Fields of a pattern\<close>

lemma bit_mask_is_mask: "k \<le> 64 \<Longrightarrow> bit_mask k = mask k"
proof (cases "k = 64")
  case True
  then show ?thesis by (simp add: bit_mask_def mask_eq_exp_minus_1)
next
  case False
  then show ?thesis by (simp add: bit_mask_def mask_eq_exp_minus_1 push_bit_eq_mult)
qed

lemma unat_and_bit_mask: "k \<le> 64 \<Longrightarrow> unat (b AND bit_mask k) = unat b mod 2 ^ k"
  by (simp add: bit_mask_is_mask unat_and_mask)

lemma unat_bit_mask: "k \<le> 64 \<Longrightarrow> unat (bit_mask k) = 2 ^ k - 1"
proof -
  assume k: "k \<le> 64"
  have "unat (NOT 0 :: u64) = 2 ^ 64 - 1" by (simp add: unsigned_minus_1_eq_mask mask_eq_exp_minus_1)
  then have "unat (NOT 0 AND bit_mask k) = (2 ^ 64 - 1) mod 2 ^ k" using unat_and_bit_mask [OF k] by metis
  also have "\<dots> = 2 ^ k - 1"
  proof -
    obtain j where j: "64 = k + j" using k le_Suc_ex by blast
    have "(2::nat) ^ 64 - 1 = (2 ^ k - 1) + 2 ^ k * (2 ^ j - 1)"
      unfolding j power_add by (simp add: algebra_simps)
    then show ?thesis by (simp only: mod_mult_self2) simp
  qed
  finally show ?thesis by simp
qed

lemma unat_one_bit: "k < 64 \<Longrightarrow> unat (push_bit k 1 :: u64) = 2 ^ k"
proof -
  assume "k < 64"
  then have "(2::nat) ^ k < 2 ^ 64" by (intro power_strict_increasing) simp_all
  then show ?thesis by (simp only: unat_push_bit unat_1 mult_1) simp
qed

lemma format_cases:
  assumes "floating t"
  obtains "format t = \<lparr>ff_fraction = 23, ff_exponent = 8, ff_bias = 127\<rparr>"
  | "format t = \<lparr>ff_fraction = 52, ff_exponent = 11, ff_bias = 1023\<rparr>"
  using assms by (auto simp: floating_def format_def)

definition frac_bits :: "TypeKind \<Rightarrow> nat" where "frac_bits t = ff_fraction (format t)"
definition exp_bits :: "TypeKind \<Rightarrow> nat" where "exp_bits t = ff_exponent (format t)"
definition bias :: "TypeKind \<Rightarrow> int" where "bias t = ff_bias (format t)"

lemma format_facts:
  "0 < frac_bits t" "frac_bits t \<le> 52" "0 < exp_bits t" "frac_bits t + exp_bits t < 64" "1 < bias t"
  "2 ^ exp_bits t = 2 * bias t + 2"
  by (simp_all add: frac_bits_def exp_bits_def bias_def format_def)

text \<open>A pattern with the given sign, exponent and fraction fields.\<close>

definition fields :: "TypeKind \<Rightarrow> nat \<Rightarrow> nat \<Rightarrow> nat \<Rightarrow> nat" where
  "fields t s e f = s * 2 ^ (frac_bits t + exp_bits t) + e * 2 ^ frac_bits t + f"

lemma fields_split: "fields t s e f = f + 2 ^ frac_bits t * (e + 2 ^ exp_bits t * s)"
  by (simp add: fields_def power_add algebra_simps)

lemma fields_facts:
  assumes "e < 2 ^ exp_bits t" "f < 2 ^ frac_bits t"
  shows "fields t s e f mod 2 ^ frac_bits t = f"
    "fields t s e f div 2 ^ frac_bits t mod 2 ^ exp_bits t = e"
    "2 ^ (frac_bits t + exp_bits t) \<le> fields t s e f \<longleftrightarrow> 0 < s"
    "s < 2 \<Longrightarrow> fields t s e f < 2 ^ (frac_bits t + exp_bits t + 1)"
proof -
  show "fields t s e f mod 2 ^ frac_bits t = f" using assms(2) by (simp add: fields_split)
  have "fields t s e f div 2 ^ frac_bits t = e + 2 ^ exp_bits t * s" using assms(2) by (simp add: fields_split)
  then show "fields t s e f div 2 ^ frac_bits t mod 2 ^ exp_bits t = e" using assms(1) by simp
  have "e * 2 ^ frac_bits t + f < (e + 1) * 2 ^ frac_bits t" using assms(2) by simp
  also have "\<dots> \<le> 2 ^ exp_bits t * 2 ^ frac_bits t" using assms(1) by (intro mult_le_mono1) simp
  finally have low: "e * 2 ^ frac_bits t + f < 2 ^ (frac_bits t + exp_bits t)" by (simp add: power_add mult.commute)
  show "2 ^ (frac_bits t + exp_bits t) \<le> fields t s e f \<longleftrightarrow> 0 < s"
    using low by (cases s) (auto simp: fields_def)
  show "fields t s e f < 2 ^ (frac_bits t + exp_bits t + 1)" if "s < 2"
    using low that less_2_cases [OF that] by (auto simp: fields_def)
qed

lemma fields_surj:
  assumes "n < 2 ^ (frac_bits t + exp_bits t + 1)"
  obtains s e f where "n = fields t s e f" "s < 2" "e < 2 ^ exp_bits t" "f < 2 ^ frac_bits t"
proof -
  let ?F = "2 ^ frac_bits t :: nat" and ?E = "2 ^ exp_bits t :: nat"
  define q where "q = n div ?F"
  have "n = n mod ?F + ?F * q" "q = q mod ?E + ?E * (q div ?E)" by (simp_all add: q_def)
  then have "n = n mod ?F + ?F * (q mod ?E + ?E * (q div ?E))" by metis
  then have n: "n = fields t (n div ?F div ?E) (n div ?F mod ?E) (n mod ?F)"
    unfolding q_def fields_split .
  have "n div ?F div ?E < 2"
    using assms by (simp add: div_mult2_eq [symmetric] less_mult_imp_div_less power_add mult.commute)
  then show ?thesis using that [OF n] by simp
qed

lemma unpack_fields:
  assumes "floating t" and b: "unat b = fields t s e f" "s < 2" "e < 2 ^ exp_bits t" "f < 2 ^ frac_bits t"
  shows "fin_negative (unpack b t) \<longleftrightarrow> s = 1"
    "nat_value (fin_magnitude (unpack b t)) = f + (if e \<noteq> 0 then 2 ^ frac_bits t else 0)"
    "normal (fin_magnitude (unpack b t))"
    "fin_scale (unpack b t) = (if e \<noteq> 0 then int e else 1) - bias t - int (frac_bits t)"
    "is_valid_scalar_bits t b \<longleftrightarrow> e \<noteq> 2 ^ exp_bits t - 1"
proof -
  note ff = format_facts [of t] and fl = fields_facts [OF b(3,4), of s]
  let ?k = "frac_bits t + exp_bits t"
  have ule: "uint b < 2 ^ (?k + 1)"
  proof -
    have "int (unat b) < int (2 ^ (?k + 1))" using fl(4) [OF b(2)] by (simp only: b(1) of_nat_less_iff)
    then show ?thesis by (simp only: uint_nat of_nat_power of_nat_numeral)
  qed
  have "(b AND sign_bit t) \<noteq> 0 \<longleftrightarrow> 2 ^ ?k \<le> uint b"
    using sign_bit_test [OF ule] ff(4) by (simp add: sign_bit_def frac_bits_def [symmetric] exp_bits_def [symmetric])
  also have "\<dots> \<longleftrightarrow> int (2 ^ ?k) \<le> int (unat b)" by (simp only: uint_nat of_nat_power of_nat_numeral)
  also have "\<dots> \<longleftrightarrow> s = 1" using fl(3) b(1,2) by (simp only: of_nat_le_iff) auto
  finally show "fin_negative (unpack b t) \<longleftrightarrow> s = 1" by (simp add: unpack_def Let_def)
  have e: "unat (drop_bit (frac_bits t) b AND bit_mask (exp_bits t)) = e"
    using fl(2) ff(4) b(1) by (simp add: unat_and_bit_mask unat_drop_bit)
  have f: "unat (b AND bit_mask (frac_bits t)) = f" using fl(1) ff(2) b(1) by (simp add: unat_and_bit_mask)
  have one: "unat (push_bit (frac_bits t) 1 :: u64) = 2 ^ frac_bits t" using ff(2) by (intro unat_one_bit) simp
  have m: "unat ((b AND bit_mask (frac_bits t)) OR push_bit (frac_bits t) 1) = f + 2 ^ frac_bits t"
    using f b(4) one unat_or_low_bits [of "frac_bits t" "push_bit (frac_bits t) 1" "b AND bit_mask (frac_bits t)"]
    by (simp only: or.commute [of "b AND bit_mask (frac_bits t)"]) simp
  show "nat_value (fin_magnitude (unpack b t)) = f + (if e \<noteq> 0 then 2 ^ frac_bits t else 0)"
    using e f m by (simp add: unpack_def Let_def nat_value_of_u64 frac_bits_def [symmetric] exp_bits_def [symmetric]
        del: push_bit_of_1)
  show "normal (fin_magnitude (unpack b t))" by (simp add: unpack_def Let_def normal_of_u64)
  show "fin_scale (unpack b t) = (if e \<noteq> 0 then int e else 1) - bias t - int (frac_bits t)"
    using e by (simp add: unpack_def Let_def bias_def frac_bits_def exp_bits_def)
  have "\<not> is_integer_type t" "t \<noteq> tyBool" "t \<noteq> tyChar" "t \<noteq> tyEnum"
    using assms(1) by (auto simp: floating_def is_integer_type_def numeric_type_properties_def properties_def)
  moreover have "b AND NOT (bit_mask (?k + 1)) = 0"
  proof -
    have "b AND mask (?k + 1) = b" using ule by (simp only: mask_eq_iff)
    then have "b AND NOT (bit_mask (?k + 1)) = (b AND mask (?k + 1)) AND NOT (mask (?k + 1))"
      using ff(4) by (simp add: bit_mask_is_mask)
    then show ?thesis by (simp add: and.assoc)
  qed
  moreover have "drop_bit (frac_bits t) b AND bit_mask (exp_bits t) = bit_mask (exp_bits t) \<longleftrightarrow> e = 2 ^ exp_bits t - 1"
    using e ff(4) by (simp add: word_unat_eq_iff unat_bit_mask)
  ultimately show "is_valid_scalar_bits t b \<longleftrightarrow> e \<noteq> 2 ^ exp_bits t - 1"
    using assms(1) by (simp add: is_valid_scalar_bits_def Let_def frac_bits_def [symmetric] exp_bits_def [symmetric])
qed

lemma valid_float_fields:
  assumes "floating t" "is_valid_scalar_bits t b"
  obtains s e f where "unat b = fields t s e f" "s < 2" "e < 2 ^ exp_bits t - 1" "f < 2 ^ frac_bits t"
proof -
  let ?k = "frac_bits t + exp_bits t + 1"
  have k: "?k \<le> 64" using format_facts(4) [of t] by simp
  have "\<not> is_integer_type t" "t \<noteq> tyBool" "t \<noteq> tyChar" "t \<noteq> tyEnum"
    using assms(1) by (auto simp: floating_def is_integer_type_def numeric_type_properties_def properties_def)
  then have "b AND NOT (bit_mask ?k) = 0"
    using assms by (simp add: is_valid_scalar_bits_def Let_def frac_bits_def exp_bits_def)
  then have "b AND mask ?k = b"
    using k by (simp add: bit_mask_is_mask) (metis (no_types) and.right_neutral or.right_neutral bit.conj_disj_distrib bit.disj_cancel_right)
  then have "unat b < 2 ^ ?k" using unat_and_mask [of b ?k] by (metis mod_less_divisor zero_less_numeral zero_less_power)
  then obtain s e f where f: "unat b = fields t s e f" "s < 2" "e < 2 ^ exp_bits t" "f < 2 ^ frac_bits t"
    by (rule fields_surj)
  then show ?thesis using that unpack_fields(5) [OF assms(1) f] assms(2) by simp
qed

section \<open>Rounding to nearest, ties to even\<close>

definition mag_real :: "Finite \<Rightarrow> real" where
  "mag_real v = real (nat_value (fin_magnitude v)) * 2 powi fin_scale v"

definition float_real :: "TypeKind \<Rightarrow> u64 \<Rightarrow> real" where
  "float_real t b = (if fin_negative (unpack b t) then - mag_real (unpack b t) else mag_real (unpack b t))"

definition round_half_even :: "real \<Rightarrow> int" where
  "round_half_even y =
     (if y - \<lfloor>y\<rfloor> < 1 / 2 \<or> (y - \<lfloor>y\<rfloor> = 1 / 2 \<and> even \<lfloor>y\<rfloor>) then \<lfloor>y\<rfloor> else \<lfloor>y\<rfloor> + 1)"

lemma round_half_even_near: "\<bar>real_of_int (round_half_even y) - y\<bar> \<le> 1 / 2"
  unfolding round_half_even_def by (simp add: abs_if) linarith

lemma round_half_even_ge: "real_of_int n \<le> y \<Longrightarrow> n \<le> round_half_even y"
  by (auto simp: round_half_even_def le_floor_iff) linarith+

lemma round_half_even_le: "y \<le> real_of_int n \<Longrightarrow> round_half_even y \<le> n"
proof (cases "y = n")
  case True
  then show ?thesis by (simp add: round_half_even_def)
next
  case False
  moreover assume "y \<le> n"
  ultimately have "\<lfloor>y\<rfloor> < n" by linarith
  then show ?thesis by (simp add: round_half_even_def)
qed

text \<open>The exponent of the last place of a value whose binary exponent is \<open>e\<close>.\<close>

definition quantum :: "TypeKind \<Rightarrow> int \<Rightarrow> int" where
  "quantum t e = max e (1 - bias t) - int (frac_bits t)"

definition rounded :: "TypeKind \<Rightarrow> real \<Rightarrow> real" where
  "rounded t x = (if x = 0 then 0 else
     let q = quantum t \<lfloor>log 2 x\<rfloor> in real_of_int (round_half_even (x / 2 powi q)) * 2 powi q)"

lemma encode_fields:
  assumes "e < 2 ^ exp_bits t" "f < 2 ^ frac_bits t"
    and "unat E = e" "unat F mod 2 ^ frac_bits t = f"
  shows "unat ((if neg then sign_bit t else 0) OR push_bit (frac_bits t) E OR (F AND bit_mask (frac_bits t))) =
    fields t (if neg then 1 else 0) e f"
proof -
  note ff = format_facts [of t]
  let ?k = "frac_bits t + exp_bits t"
  have F: "unat (F AND bit_mask (frac_bits t)) = f" using ff(2) assms(4) by (simp add: unat_and_bit_mask)
  have low: "e * 2 ^ frac_bits t + f < 2 ^ ?k"
    using fields_facts(3) [OF assms(1,2), of 0] by (simp add: fields_def not_le)
  then have "e * 2 ^ frac_bits t < 2 ^ ?k" by linarith
  also have "\<dots> < (2::nat) ^ 64" using ff(4) by (intro power_strict_increasing) simp_all
  finally have E: "unat (push_bit (frac_bits t) E) = e * 2 ^ frac_bits t" using assms(3) by (simp add: unat_push_bit)
  have EF: "unat (push_bit (frac_bits t) E OR (F AND bit_mask (frac_bits t))) = e * 2 ^ frac_bits t + f"
    using assms(2) E F by (subst unat_or_low_bits [where n = "frac_bits t"]) simp_all
  have "unat (sign_bit t) = 2 ^ ?k"
    using unat_one_bit [of ?k] ff(4) by (simp only: sign_bit_def frac_bits_def exp_bits_def)
  then have "unat (sign_bit t OR (push_bit (frac_bits t) E OR (F AND bit_mask (frac_bits t)))) =
      2 ^ ?k + (e * 2 ^ frac_bits t + f)"
    using low EF by (subst unat_or_low_bits [where n = ?k]) simp_all
  then show ?thesis using EF by (simp add: fields_def or.assoc)
qed

lemma halfway_test:
  fixes y :: real
  assumes "normal r" "normal d" "0 < nat_value d" "real (nat_value r) / real (nat_value d) = y - \<lfloor>y\<rfloor>"
  shows "nat_compare (nat_shift 1 r) d > 0 \<longleftrightarrow> y - \<lfloor>y\<rfloor> > 1 / 2"
    "nat_compare (nat_shift 1 r) d = 0 \<longleftrightarrow> y - \<lfloor>y\<rfloor> = 1 / 2"
proof -
  have s: "normal (nat_shift 1 r)" "nat_value (nat_shift 1 r) = nat_value r * 2"
    using nat_shift_correct [OF assms(1)] by simp_all
  define z where "z = y - \<lfloor>y\<rfloor>"
  have r: "real (nat_value r) = z * real (nat_value d)" using assms(3,4) by (simp add: z_def field_simps)
  have "nat_value d < nat_value r * 2 \<longleftrightarrow> real (nat_value d) < real (nat_value r) * 2" by linarith
  also have "\<dots> \<longleftrightarrow> z > 1 / 2" unfolding r using assms(3) by (simp add: field_simps)
  finally show "nat_compare (nat_shift 1 r) d > 0 \<longleftrightarrow> y - \<lfloor>y\<rfloor> > 1 / 2"
    using naturals.compare_cases(3) [OF s(1) assms(2)] s(2) by (simp add: z_def)
  have "nat_value r * 2 = nat_value d \<longleftrightarrow> real (nat_value r) * 2 = real (nat_value d)" by linarith
  also have "\<dots> \<longleftrightarrow> z = 1 / 2" unfolding r using assms(3) by (auto simp: field_simps)
  finally show "nat_compare (nat_shift 1 r) d = 0 \<longleftrightarrow> y - \<lfloor>y\<rfloor> = 1 / 2"
    using naturals.compare_cases(4) [OF s(1) assms(2)] s(2) by (simp add: z_def)
qed

lemma two_powi_add: "2 powi (a + b) = 2 powi a * (2 powi b :: real)"
  by (simp add: power_int_add)

lemma odd_test: "(w AND 1) \<noteq> 0 \<longleftrightarrow> odd (unat w)" for w :: u64
proof -
  have "w AND 1 = 0 \<longleftrightarrow> unat (w AND mask 1) = 0" by (simp only: mask_1 unat_eq_0)
  also have "\<dots> \<longleftrightarrow> even (unat w)" by (simp only: unat_and_mask) (simp add: even_iff_mod_2_eq_zero)
  finally show ?thesis by simp
qed

definition round_up :: "Natural \<Rightarrow> Natural \<Rightarrow> u64 \<Rightarrow> u64" where
  "round_up r d quot = (let halfway = nat_compare (nat_shift 1 r) d in
     if halfway > 0 \<or> (halfway = 0 \<and> (quot AND 1) \<noteq> 0) then quot + 1 else quot)"

lemma round_up_value:
  fixes y :: real
  assumes "normal r" "normal d" "0 < nat_value d" "real (nat_value r) / real (nat_value d) = y - \<lfloor>y\<rfloor>"
    and "0 \<le> y" "y < 2 ^ 53" "unat quot = nat \<lfloor>y\<rfloor>"
  shows "int (unat (round_up r d quot)) = round_half_even y" "round_half_even y \<le> 2 ^ 53"
proof -
  have q: "int (unat quot) = \<lfloor>y\<rfloor>" using assms(5,7) by simp
  have "\<lfloor>y\<rfloor> < 2 ^ 53" using assms(6) by (simp add: floor_less_iff)
  then have "unat quot < 2 ^ 53" unfolding q [symmetric] by (simp del: of_nat_unat)
  then have "unat quot + 1 < 2 ^ LENGTH(64)" by simp
  then have plus: "int (unat (quot + 1)) = \<lfloor>y\<rfloor> + 1" using q unat_add_lem [of quot 1] by simp
  have odd: "odd (unat quot) \<longleftrightarrow> odd \<lfloor>y\<rfloor>" using q by (metis even_of_nat_iff)
  show "int (unat (round_up r d quot)) = round_half_even y"
    using halfway_test [OF assms(1-4)] q plus odd
    by (auto simp: round_up_def Let_def odd_test round_half_even_def simp del: of_nat_unat)
  show "round_half_even y \<le> 2 ^ 53" using assms(6) by (intro round_half_even_le) simp
qed

lemma pack_quotient_alt:
  "pack_quotient (format t) sign literal exponent r d quot =
     (let q = round_up r d quot in
      if q = 0 then underflow literal sign
      else
        let carried = (q = push_bit (frac_bits t + 1) 1);
            exponent = (if carried then exponent + 1 else exponent);
            q = (if carried then drop_bit 1 q else q) in
        if exponent > bias t then Inl ceNonFinite
        else Inr (sign OR push_bit (frac_bits t) (of_int (if q \<ge> push_bit (frac_bits t) 1
              then max exponent (1 - bias t) + bias t else 0)) OR (q AND bit_mask (frac_bits t))))"
  by (simp only: pack_quotient_def round_up_def Let_def bias_def frac_bits_def)

text \<open>
  What the conversion of a value must return when \<open>m\<close> is its rounded magnitude. A positive
  magnitude in a literal (\<open>strict\<close>) must not vanish.
\<close>

definition packed :: "TypeKind \<Rightarrow> bool \<Rightarrow> bool \<Rightarrow> real \<Rightarrow> ConstantBits \<Rightarrow> bool" where
  "packed t strict neg m result \<longleftrightarrow>
     (case result of
        Inl e \<Rightarrow> (e = ceNonFinite \<and> 2 powi (bias t + 1) \<le> m) \<or> (e = ceOutOfRange \<and> strict \<and> m = 0)
      | Inr b \<Rightarrow> m < 2 powi (bias t + 1) \<and> \<not> (strict \<and> m = 0) \<and> is_valid_scalar_bits t b \<and>
          (fin_negative (unpack b t) \<longleftrightarrow> neg) \<and> mag_real (unpack b t) = m)"

lemma packed_zero:
  assumes "floating t"
  shows "packed t literal neg 0 (underflow literal (if neg then sign_bit t else 0))"
proof -
  have u: "unat (if neg then sign_bit t else 0) = fields t (if neg then 1 else 0) 0 0"
    using encode_fields [of 0 t 0 0 0 neg] by simp
  note f = unpack_fields [OF assms(1) u, of]
  have "Suc 0 < 2 ^ exp_bits t" using one_less_power [of "2::nat" "exp_bits t"] format_facts(3) [of t] by simp
  then show ?thesis using f by (auto simp: packed_def underflow_def mag_real_def)
qed

text \<open>A significand below two units of the leading place, at its exponent.\<close>

lemma pack_finite:
  assumes t: "floating t" and m: "0 < m" "m < 2 ^ (frac_bits t + 1)" "unat q = m"
    and e: "exponent \<le> bias t" "1 - bias t < exponent \<Longrightarrow> 2 ^ frac_bits t \<le> m"
  shows "packed t literal neg (real m * 2 powi quantum t exponent)
    (Inr ((if neg then sign_bit t else 0) OR push_bit (frac_bits t) (of_int (if q \<ge> push_bit (frac_bits t) 1
              then max exponent (1 - bias t) + bias t else 0)) OR (q AND bit_mask (frac_bits t))))"
proof -
  note ff = format_facts [of t]
  have one: "unat (push_bit (frac_bits t) 1 :: u64) = 2 ^ frac_bits t" using ff(2) by (intro unat_one_bit) simp
  have ge: "q \<ge> push_bit (frac_bits t) 1 \<longleftrightarrow> 2 ^ frac_bits t \<le> m" by (simp only: word_le_nat_alt one m(3))
  define E where "E = (if q \<ge> push_bit (frac_bits t) 1 then max exponent (1 - bias t) + bias t else 0)"
  have E: "0 \<le> E" "E \<le> 2 * bias t" "E \<noteq> 0 \<longleftrightarrow> 2 ^ frac_bits t \<le> m" using ff(5) e(1) unfolding E_def ge by auto
  have "nat E < 2 ^ exp_bits t - 1"
  proof -
    have "int (2 ^ exp_bits t) = 2 * bias t + 2" using ff(6) by simp
    then show ?thesis using E(1,2) by linarith
  qed
  then have ex: "nat E < 2 ^ exp_bits t" "nat E \<noteq> 2 ^ exp_bits t - 1" by linarith+
  define f where "f = m mod 2 ^ frac_bits t"
  have f: "f < 2 ^ frac_bits t" by (simp add: f_def)
  have "unat (of_int E :: u64) = nat E"
  proof -
    have "E < 2 ^ 64" using E(2) by (simp add: bias_def format_def split: if_splits)
    then show ?thesis using E(1) by (simp add: unat_eq_nat_uint uint_word_of_int)
  qed
  from encode_fields [OF ex(1) f this, of q neg]
  have u: "unat ((if neg then sign_bit t else 0) OR push_bit (frac_bits t) (of_int E) OR (q AND bit_mask (frac_bits t))) =
      fields t (if neg then 1 else 0) (nat E) f" (is "unat ?b = _") by (simp add: f_def m(3))
  have mf: "f + (if nat E \<noteq> 0 then 2 ^ frac_bits t else 0) = m"
  proof (cases "2 ^ frac_bits t \<le> m")
    case True
    have "m = (m - 2 ^ frac_bits t) + 2 ^ frac_bits t" "m - 2 ^ frac_bits t < 2 ^ frac_bits t" using True m(2) by auto
    then have "f = m - 2 ^ frac_bits t" unfolding f_def by (metis mod_add_self2 mod_less)
    moreover have "nat E \<noteq> 0" using E(1) E(3) True by simp
    ultimately show ?thesis using True by simp
  next
    case False
    then show ?thesis using E(1) E(3) by (simp add: f_def)
  qed
  have sc: "(if nat E \<noteq> 0 then int (nat E) else 1) - bias t - int (frac_bits t) = quantum t exponent"
  proof (cases "2 ^ frac_bits t \<le> m")
    case True
    then have "E = max exponent (1 - bias t) + bias t" "E \<noteq> 0" using ge E(3) by (simp_all add: E_def)
    then show ?thesis using E(1) by (simp add: quantum_def)
  next
    case False
    then have "E = 0" "exponent \<le> 1 - bias t" using E(3) e(2) by (auto simp: not_less [symmetric])
    then show ?thesis by (simp add: quantum_def)
  qed
  note un = unpack_fields [OF t u _ ex(1) f]
  have "real m * 2 powi quantum t exponent < 2 powi (bias t + 1)"
  proof -
    have "real m < real (2 ^ (frac_bits t + 1))" using m(2) by (simp only: of_nat_less_iff)
    then have "real m < 2 powi (int (frac_bits t) + 1)" by (simp add: power_int_add power_int_def nat_add_distrib)
    then have "real m * 2 powi quantum t exponent < 2 powi (int (frac_bits t) + 1) * 2 powi quantum t exponent"
      by (intro mult_strict_right_mono) simp_all
    also have "\<dots> = 2 powi (int (frac_bits t) + 1 + quantum t exponent)" by (simp only: two_powi_add)
    also have "\<dots> \<le> 2 powi (bias t + 1)" using e(1) ff(5) by (intro power_int_increasing) (auto simp: quantum_def)
    finally show ?thesis .
  qed
  moreover have "is_valid_scalar_bits t ?b" using un(5) ex by simp
  moreover have "fin_negative (unpack ?b t) \<longleftrightarrow> neg" using un(1) by simp
  moreover have "mag_real (unpack ?b t) = real m * 2 powi quantum t exponent"
    using un(2,4) by (simp only: mag_real_def mf sc) auto
  ultimately show ?thesis unfolding E_def [symmetric] using m(1) by (simp add: packed_def)
qed

lemma pack_quotient_correct:
  fixes y :: real
  assumes t: "floating t"
    and r: "normal r" "normal d" "0 < nat_value d" "real (nat_value r) / real (nat_value d) = y - \<lfloor>y\<rfloor>"
    and y: "0 \<le> y" "y < 2 ^ (frac_bits t + 1)" "unat quot = nat \<lfloor>y\<rfloor>"
    and e: "exponent \<le> bias t" "1 - bias t \<le> exponent \<Longrightarrow> 2 ^ frac_bits t \<le> y"
      "exponent < 1 - bias t \<Longrightarrow> y < 2 ^ frac_bits t"
  shows "packed t literal neg (real_of_int (round_half_even y) * 2 powi quantum t exponent)
    (pack_quotient (format t) (if neg then sign_bit t else 0) literal exponent r d quot)"
proof -
  note ff = format_facts [of t]
  have y53: "y < 2 ^ 53"
  proof -
    have "(2::real) ^ (frac_bits t + 1) \<le> 2 ^ 53" using ff(2) by (intro power_increasing) simp_all
    with y(2) show "y < 2 ^ 53" by (rule less_le_trans)
  qed
  note ru = round_up_value [OF r y(1) y53 y(3)]
  define q where "q = round_up r d quot"
  define m where "m = unat q"
  have mi: "round_half_even y = int m" using ru(1) by (simp add: m_def q_def del: of_nat_unat)
  then have m: "real_of_int (round_half_even y) = real m" by simp
  have m_le: "m \<le> 2 ^ (frac_bits t + 1)"
  proof -
    have "round_half_even y \<le> 2 ^ (frac_bits t + 1)" using y(2) by (intro round_half_even_le) simp
    then have "int m \<le> int (2 ^ (frac_bits t + 1))" unfolding mi by simp
    then show ?thesis by (simp only: of_nat_le_iff)
  qed
  have m_ge: "2 ^ frac_bits t \<le> m" if "1 - bias t \<le> exponent"
  proof -
    have "2 ^ frac_bits t \<le> round_half_even y" using e(2) [OF that] by (intro round_half_even_ge) simp
    then have "int (2 ^ frac_bits t) \<le> int m" unfolding mi by simp
    then show ?thesis by (simp only: of_nat_le_iff)
  qed
  have m_small: "m \<le> 2 ^ frac_bits t" if "exponent < 1 - bias t"
  proof -
    have "round_half_even y \<le> 2 ^ frac_bits t" using e(3) [OF that] by (intro round_half_even_le) simp
    then have "int m \<le> int (2 ^ frac_bits t)" unfolding mi by simp
    then show ?thesis by (simp only: of_nat_le_iff)
  qed
  have top: "unat (push_bit (frac_bits t + 1) 1 :: u64) = 2 ^ (frac_bits t + 1)"
    using ff(2) by (intro unat_one_bit) simp
  have carried: "q = push_bit (frac_bits t + 1) 1 \<longleftrightarrow> m = 2 ^ (frac_bits t + 1)"
    by (simp only: word_unat_eq_iff top m_def)
  consider "m = 0" | "0 < m" "m < 2 ^ (frac_bits t + 1)" | "m = 2 ^ (frac_bits t + 1)" using m_le by linarith
  then show ?thesis
  proof cases
    case 1
    then have "q = 0" by (simp add: m_def unat_eq_0)
    then show ?thesis using packed_zero [OF t] 1 unfolding pack_quotient_alt q_def [symmetric] m by simp
  next
    case 2
    then have "q \<noteq> 0" "\<not> q = push_bit (frac_bits t + 1) 1" using carried by (auto simp: m_def)
    moreover have "1 - bias t < exponent \<Longrightarrow> 2 ^ frac_bits t \<le> m" using m_ge by simp
    note pack_finite [OF t 2 m_def [symmetric] e(1) this, of literal neg]
    moreover have "\<not> exponent > bias t" using e(1) by simp
    ultimately show ?thesis
      unfolding pack_quotient_alt q_def [symmetric] m Let_def by (simp only: if_False simp_thms)
  next
    case 3
    have ex: "1 - bias t \<le> exponent"
    proof (rule ccontr)
      assume "\<not> ?thesis"
      then have "m \<le> 2 ^ frac_bits t" using m_small by simp
      then show False using 3 by simp
    qed
    then have quant: "2 ^ (frac_bits t + 1) * 2 powi quantum t exponent = 2 ^ frac_bits t * (2 powi quantum t (exponent + 1) :: real)"
      by (simp add: quantum_def power_int_add power_int_diff)
    have half: "unat (drop_bit 1 q) = 2 ^ frac_bits t" unfolding unat_drop_bit m_def [symmetric] 3 by simp
    have q: "q \<noteq> 0" "q = push_bit (frac_bits t + 1) 1" using carried 3 by (auto simp: m_def)
    show ?thesis
    proof (cases "exponent + 1 > bias t")
      case True
      then have "exponent = bias t" using e(1) by simp
      then have "2 ^ frac_bits t * (2 powi quantum t (exponent + 1) :: real) = 2 powi (bias t + 1)"
        using ff(5) by (simp add: quantum_def power_int_diff)
      then show ?thesis using q(1) carried 3 True quant unfolding pack_quotient_alt q_def [symmetric] m Let_def
        by (simp add: packed_def)
    next
      case False
      have "(2::nat) ^ frac_bits t < 2 ^ (frac_bits t + 1)" by simp
      from pack_finite [OF t _ this half, of "exponent + 1" literal neg] False
      have "packed t literal neg (real (2 ^ frac_bits t) * 2 powi quantum t (exponent + 1))
        (Inr ((if neg then sign_bit t else 0) OR push_bit (frac_bits t) (of_int (if drop_bit 1 q \<ge> push_bit (frac_bits t) 1
              then max (exponent + 1) (1 - bias t) + bias t else 0)) OR (drop_bit 1 q AND bit_mask (frac_bits t))))"
        by simp
      moreover have "real m * 2 powi quantum t exponent = real (2 ^ frac_bits t) * 2 powi quantum t (exponent + 1)"
        using quant unfolding 3 by simp
      ultimately show ?thesis using q(1) carried 3 False
        unfolding pack_quotient_alt q_def [symmetric] m Let_def by (simp only: if_True if_False simp_thms)
    qed
  qed
qed

lemma two_powi_powr: "2 powi k = 2 powr real_of_int k"
  by (simp add: powr_real_of_int power_int_def power_one_over inverse_eq_divide)

lemma floor_log_powi:
  assumes "2 powi k \<le> x" "x < 2 powi (k + 1)" shows "\<lfloor>log 2 x\<rfloor> = k"
proof -
  have "(0::real) < 2 powi k" by simp
  then have "0 < x" using assms(1) by linarith
  then show ?thesis using assms by (simp add: floor_log_eq_powr_iff two_powi_powr)
qed

lemma two_powi_nat: "0 \<le> k \<Longrightarrow> (2 ^ nat k :: real) = 2 powi k" "k \<le> 0 \<Longrightarrow> (2 ^ nat (- k) :: real) = inverse (2 powi k)"
  by (simp_all add: power_int_def power_one_over inverse_eq_divide)

lemma scaled_compare_iff:
  assumes "normal a" "normal b"
  shows "scaled_compare a b k < 0 \<longleftrightarrow> real (nat_value a) * 2 powi k < real (nat_value b)"
    and "scaled_compare a b k > 0 \<longleftrightarrow> real (nat_value a) * 2 powi k > real (nat_value b)"
    and "scaled_compare a b k = 0 \<longleftrightarrow> real (nat_value a) * 2 powi k = real (nat_value b)"
proof -
  define p :: real where "p = 2 powi k"
  have p: "0 < p" by (simp add: p_def)
  obtain c d where cd: "scaled_compare a b k = nat_compare c d" "normal c" "normal d"
      "real (nat_value c) < real (nat_value d) \<longleftrightarrow> real (nat_value a) * p < real (nat_value b)"
      "real (nat_value d) < real (nat_value c) \<longleftrightarrow> real (nat_value b) < real (nat_value a) * p"
  proof (cases "0 \<le> k")
    case True
    show ?thesis
    proof (rule that)
      show "scaled_compare a b k = nat_compare (nat_shift (nat k) a) b" using True by (simp add: scaled_compare_def)
    qed (use assms True in \<open>simp_all add: nat_shift_correct two_powi_nat p_def\<close>)
  next
    case False
    have v: "real (nat_value (nat_shift (nat (- k)) b)) = real (nat_value b) / p"
      using False assms by (simp add: nat_shift_correct two_powi_nat(2) p_def divide_inverse)
    show ?thesis
    proof (rule that)
      show "scaled_compare a b k = nat_compare a (nat_shift (nat (- k)) b)" using False by (simp add: scaled_compare_def)
      show "normal (nat_shift (nat (- k)) b)" using assms by (simp add: nat_shift_correct)
    qed (use assms p in \<open>simp_all only: v pos_less_divide_eq pos_divide_less_eq\<close>)
  qed
  note c = naturals.compare_cases [OF cd(2,3)]
  show "scaled_compare a b k < 0 \<longleftrightarrow> real (nat_value a) * 2 powi k < real (nat_value b)"
    "scaled_compare a b k > 0 \<longleftrightarrow> real (nat_value a) * 2 powi k > real (nat_value b)"
    "scaled_compare a b k = 0 \<longleftrightarrow> real (nat_value a) * 2 powi k = real (nat_value b)"
    using c cd(4,5) unfolding cd(1) p_def [symmetric] by (simp, simp, linarith)
qed

lemma real_width:
  assumes "normal a" "0 < nat_value a"
  shows "2 powi (int (nat_width a) - 1) \<le> real (nat_value a)" "real (nat_value a) < 2 powi int (nat_width a)"
proof -
  let ?w = "bit_length (nat_value a)"
  have w: "nat_width a = ?w" "0 < ?w" using assms by (simp_all add: nat_width_correct bit_length_pos)
  have b: "2 ^ (?w - 1) \<le> nat_value a" "nat_value a < 2 ^ ?w" using bit_length_bounds [OF assms(2)] by simp_all
  have "real (2 ^ (?w - 1)) \<le> real (nat_value a)" "real (nat_value a) < real (2 ^ ?w)"
    using b by (simp_all only: of_nat_le_iff of_nat_less_iff)
  moreover have "nat (int ?w - 1) = ?w - 1" by simp
  ultimately show "2 powi (int (nat_width a) - 1) \<le> real (nat_value a)" "real (nat_value a) < 2 powi int (nat_width a)"
    using w by (simp_all add: power_int_def)
qed

text \<open>The binary exponent that \<open>pack\<close> computes.\<close>

definition pack_exponent :: "Natural \<Rightarrow> Natural \<Rightarrow> int \<Rightarrow> int" where
  "pack_exponent n d scale = (let e = int (nat_width n) - int (nat_width d) + scale in
     if scaled_compare n d (scale - e) < 0 then e - 1 else e)"

lemma pack_exponent_correct:
  assumes n: "normal n" "0 < nat_value n" and d: "normal d" "0 < nat_value d"
    and x: "x = real (nat_value n) / real (nat_value d) * 2 powi scale"
  shows "2 powi pack_exponent n d scale \<le> x" "x < 2 powi (pack_exponent n d scale + 1)"
proof -
  define e where "e = int (nat_width n) - int (nat_width d) + scale"
  let ?n = "real (nat_value n)" and ?d = "real (nat_value d)"
  have d0: "0 < ?d" and n0: "0 < ?n" using d(2) n(2) by simp_all
  note wn = real_width [OF n] and wd = real_width [OF d]
  have test: "scaled_compare n d (scale - e) < 0 \<longleftrightarrow> x < 2 powi e"
  proof -
    have "?n * 2 powi (scale - e) < ?d \<longleftrightarrow> ?n * 2 powi scale < ?d * 2 powi e"
      by (simp add: power_int_diff field_simps)
    also have "\<dots> \<longleftrightarrow> x < 2 powi e" using d0 by (simp add: x field_simps)
    finally show ?thesis using scaled_compare_iff(1) [OF n(1) d(1)] by simp
  qed
  have "2 powi (int (nat_width n) - 1) / 2 powi int (nat_width d) \<le> ?n / ?d"
    using wn(1) wd(2) d0 by (intro frac_le) simp_all
  then have "2 powi (int (nat_width n) - 1 - int (nat_width d)) * 2 powi scale \<le> x"
    unfolding x by (intro mult_right_mono) (simp_all add: power_int_diff)
  then have low: "2 powi (e - 1) \<le> x" unfolding two_powi_add [symmetric] by (simp add: e_def algebra_simps)
  have "?n / ?d < 2 powi int (nat_width n) / 2 powi (int (nat_width d) - 1)"
    using wn(2) wd(1) n0 by (intro frac_less) simp_all
  then have "x < 2 powi (int (nat_width n) - (int (nat_width d) - 1)) * 2 powi scale"
    unfolding x by (intro mult_strict_right_mono) (simp_all add: power_int_diff)
  then have high: "x < 2 powi (e + 1)" unfolding two_powi_add [symmetric] by (simp add: e_def algebra_simps)
  show "2 powi pack_exponent n d scale \<le> x" "x < 2 powi (pack_exponent n d scale + 1)"
    using test low high unfolding pack_exponent_def Let_def e_def [symmetric] by auto
qed

section \<open>Correct rounding\<close>

lemma pack_alt:
  "pack neg n d scale t literal =
     (let sign = (if neg then sign_bit t else 0) in
      if nat_zero n then Inr sign
      else
        let e = pack_exponent n d scale in
        if e > bias t then Inl ceNonFinite
        else if e < 1 - bias t - int (frac_bits t) - 1 then underflow literal sign
        else
          let shift = scale - quantum t e;
              n = (if shift \<ge> 0 then nat_shift (nat shift) n else n);
              d = (if shift \<ge> 0 then d else nat_shift (nat (- shift)) d);
              r = divide_loop d (nat (int (nat_width n) - int (nat_width d) + 1)) n 0 in
          pack_quotient (format t) sign literal e (fst r) d (snd r))"
  by (simp only: pack_def pack_exponent_def quantum_def bias_def frac_bits_def Let_def split_def)

text \<open>Division of the aligned operands yields the integer part and the fraction of the quotient.\<close>

lemma aligned_division:
  assumes n: "normal n" "0 < nat_value n" and d: "normal d" "0 < nat_value d"
    and y: "y = real (nat_value n) / real (nat_value d)" "y < 2 ^ 53"
    and r: "r = divide_loop d (nat (int (nat_width n) - int (nat_width d) + 1)) n 0"
  shows "normal (fst r)" "real (nat_value (fst r)) / real (nat_value d) = y - \<lfloor>y\<rfloor>" "unat (snd r) = nat \<lfloor>y\<rfloor>"
proof -
  have fl: "\<lfloor>y\<rfloor> = int (nat_value n div nat_value d)" unfolding y(1) by (rule floor_divide_of_nat_eq)
  have "real_of_int \<lfloor>y\<rfloor> < 2 ^ 53" using y(2) by (meson of_int_floor_le order_le_less_trans)
  then have "nat_value n div nat_value d < 2 ^ 53" unfolding fl by simp
  then have small: "nat_value n div nat_value d < 2 ^ 64" by simp
  define k where "k = nat (int (nat_width n) - int (nat_width d) + 1)"
  have "2 powi (int (nat_width n) - 1 - int (nat_width d)) \<le> y"
  proof -
    have "2 powi (int (nat_width n) - 1) / 2 powi int (nat_width d) \<le> y"
      unfolding y(1) using real_width [OF n] real_width [OF d] d(2) by (intro frac_le) simp_all
    then show ?thesis by (simp add: power_int_diff)
  qed
  then have "2 powi (int (nat_width n) - 1 - int (nat_width d)) < (2 powi 53 :: real)"
    using y(2) by simp
  then have "int (nat_width n) - 1 - int (nat_width d) < 53"
    by (rule power_int_le_imp_less_exp [of "2::real", rotated]) simp_all
  then have k: "k \<le> 64" by (simp add: k_def)
  note q = naturals.divide_full [OF n(1) d small k_def k, folded r [folded k_def]]
  show "normal (fst r)" by (rule q(2))
  have "real (nat_value (fst r)) = real (nat_value n) - real (nat_value d) * real (nat_value n div nat_value d)"
    unfolding q(1) by (metis add_diff_cancel_left' mult_div_mod_eq of_nat_add of_nat_mult)
  then show "real (nat_value (fst r)) / real (nat_value d) = y - \<lfloor>y\<rfloor>"
    unfolding fl using d(2) by (simp add: y(1) field_simps)
  show "unat (snd r) = nat \<lfloor>y\<rfloor>" unfolding fl q(3) by simp
qed

lemma powi_mono: "a \<le> b \<Longrightarrow> (2 powi a :: real) \<le> 2 powi b"
  by (rule power_int_increasing) simp_all

text \<open>The scaled value \<open>x / 2 ^ quantum\<close> has the integer part that a significand needs.\<close>

lemma scaled_bounds:
  fixes x y :: real
  assumes "2 powi e \<le> x" "x < 2 powi (e + 1)" and y: "y = x / 2 powi quantum t e"
  shows "0 \<le> y" "y < 2 ^ (frac_bits t + 1)" "1 - bias t \<le> e \<Longrightarrow> 2 ^ frac_bits t \<le> y"
    "e < 1 - bias t \<Longrightarrow> y < 2 ^ frac_bits t"
    "e < 1 - bias t - int (frac_bits t) - 1 \<Longrightarrow> y < 1 / 2"
proof -
  have up: "y < 2 powi k" if "e + 1 - quantum t e \<le> k" for k
  proof -
    have "y < 2 powi (e + 1) / 2 powi quantum t e"
      unfolding y using assms(2) by (intro divide_strict_right_mono) simp_all
    also have "\<dots> = 2 powi (e + 1 - quantum t e)" by (simp add: power_int_diff)
    also have "\<dots> \<le> 2 powi k" using that by (rule powi_mono)
    finally show ?thesis .
  qed
  have "0 \<le> x" using assms(1) order_trans [of 0 "2 powi e" x] by simp
  then show "0 \<le> y" by (simp add: y)
  show "y < 2 ^ (frac_bits t + 1)"
    using up [of "int (frac_bits t + 1)"] unfolding power_int_of_nat by (simp add: quantum_def)
  show "y < 2 ^ frac_bits t" if "e < 1 - bias t"
    using up [of "int (frac_bits t)"] that unfolding power_int_of_nat by (simp add: quantum_def)
  show "y < 1 / 2" if "e < 1 - bias t - int (frac_bits t) - 1"
    using up [of "-1"] that by (simp add: quantum_def)
  show "2 ^ frac_bits t \<le> y" if "1 - bias t \<le> e"
  proof -
    have "2 powi int (frac_bits t) = 2 powi e / (2 powi quantum t e :: real)"
      using that by (simp add: quantum_def power_int_diff)
    also have "\<dots> \<le> y" unfolding y using assms(1) by (intro divide_right_mono) simp_all
    finally show ?thesis by simp
  qed
qed

lemma round_half_even_small: "0 \<le> y \<Longrightarrow> y < 1 / 2 \<Longrightarrow> round_half_even y = 0"
proof -
  assume y: "0 \<le> y" "y < 1 / 2"
  then have "\<lfloor>y\<rfloor> = 0" by linarith
  then show ?thesis using y by (simp add: round_half_even_def)
qed

lemma pack_correct:
  assumes t: "floating t" and n: "normal n" and d: "normal d" "0 < nat_value d"
    and x: "x = real (nat_value n) / real (nat_value d) * 2 powi scale"
  shows "packed t (literal \<and> x \<noteq> 0) neg (rounded t x) (pack neg n d scale t literal)"
proof (cases "nat_value n = 0")
  case True
  then have "nat_zero n" using naturals.is_zero_val [OF n] by simp
  then show ?thesis using packed_zero [OF t, of False neg] True
    by (simp add: pack_def x rounded_def underflow_def Let_def)
next
  case False
  let ?sign = "if neg then sign_bit t else 0"
  have n0: "0 < nat_value n" "\<not> nat_zero n" using False naturals.is_zero_val [OF n] by simp_all
  have x0: "x \<noteq> 0" using n0 d(2) by (simp add: x)
  define e where "e = pack_exponent n d scale"
  note ex = pack_exponent_correct [OF n n0(1) d x, folded e_def]
  define y where "y = x / 2 powi quantum t e"
  note y = scaled_bounds [OF ex y_def]
  have r: "rounded t x = real_of_int (round_half_even y) * 2 powi quantum t e"
    using x0 floor_log_powi [OF ex] by (simp add: rounded_def y_def Let_def)
  consider "bias t < e" | "e < 1 - bias t - int (frac_bits t) - 1" "e \<le> bias t"
    | "e \<le> bias t" "\<not> e < 1 - bias t - int (frac_bits t) - 1" by linarith
  then show ?thesis
  proof cases
    case 1
    then have be: "1 - bias t \<le> e" using format_facts(5) [of t] by simp
    have "2 ^ frac_bits t \<le> round_half_even y" using y(3) [OF be] by (intro round_half_even_ge) simp
    then have "2 powi int (frac_bits t) \<le> real_of_int (round_half_even y)" by (simp add: of_int_le_iff [symmetric] del: of_int_le_iff)
    then have "2 powi int (frac_bits t) * 2 powi quantum t e \<le> rounded t x" unfolding r by (rule mult_right_mono) simp
    moreover have "2 powi (bias t + 1) \<le> (2 powi (int (frac_bits t) + quantum t e) :: real)"
      using 1 by (intro powi_mono) (simp add: quantum_def)
    ultimately have "2 powi (bias t + 1) \<le> rounded t x" unfolding two_powi_add by linarith
    then show ?thesis using 1 n0(2) unfolding pack_alt Let_def e_def [symmetric] by (simp add: packed_def)
  next
    case 2
    then have "rounded t x = 0" using round_half_even_small [OF y(1) y(5)] by (simp add: r)
    then show ?thesis using 2 n0(2) x0 packed_zero [OF t, of literal neg]
      unfolding pack_alt Let_def e_def [symmetric] by (simp del: push_bit_of_1)
  next
    case 3
    define k where "k = scale - quantum t e"
    define n' where "n' = (if k \<ge> 0 then nat_shift (nat k) n else n)"
    define d' where "d' = (if k \<ge> 0 then d else nat_shift (nat (- k)) d)"
    define q where "q = divide_loop d' (nat (int (nat_width n') - int (nat_width d') + 1)) n' 0"
    have nd: "normal n'" "0 < nat_value n'" "normal d'" "0 < nat_value d'"
      using n d n0 by (simp_all add: n'_def d'_def nat_shift_correct)
    have "y = real (nat_value n) / real (nat_value d) * 2 powi k"
      unfolding y_def x k_def by (simp add: power_int_diff)
    also have "\<dots> = real (nat_value n') / real (nat_value d')"
      using n d by (simp add: n'_def d'_def nat_shift_correct two_powi_nat(1)) (simp add: power_int_minus divide_inverse)
    finally have yq: "y = real (nat_value n') / real (nat_value d')" .
    have "(2::real) ^ (frac_bits t + 1) \<le> 2 ^ 53" using format_facts(2) [of t] by (intro power_increasing) simp_all
    then have y53: "y < 2 ^ 53" by (rule less_le_trans [OF y(2)])
    note dv = aligned_division [OF nd yq y53 q_def]
    have "pack neg n d scale t literal = pack_quotient (format t) ?sign literal e (fst q) d' (snd q)"
      using 3 n0(2) unfolding pack_alt Let_def e_def [symmetric] k_def [symmetric] n'_def [symmetric]
        d'_def [symmetric] q_def [symmetric] by (simp only: if_False not_less [symmetric] simp_thms)
    then show ?thesis
      using pack_quotient_correct [OF t dv(1) nd(3,4) dv(2) y(1,2) dv(3) 3(1) y(3,4), of literal neg] x0
      unfolding r by simp
  qed
qed

text \<open>
  Every finite magnitude of the format is a multiple of the smallest quantum, and one that is at
  least \<open>2 ^ e\<close> is a multiple of the quantum at \<open>e\<close>.
\<close>

lemma representable_multiple:
  assumes t: "floating t" and b: "is_valid_scalar_bits t b"
    and e: "1 - bias t < e \<Longrightarrow> 2 powi e \<le> mag_real (unpack b t)"
  obtains k :: int where "mag_real (unpack b t) = real_of_int k * 2 powi quantum t e"
proof -
  obtain s E f where fl: "unat b = fields t s E f" "s < 2" "E < 2 ^ exp_bits t - 1" "f < 2 ^ frac_bits t"
    using valid_float_fields [OF t b] .
  then have E: "E < 2 ^ exp_bits t" by simp
  note u = unpack_fields [OF t fl(1,2) E fl(4)]
  define m where "m = f + (if E \<noteq> 0 then 2 ^ frac_bits t else 0)"
  define g where "g = (if E \<noteq> 0 then int E else 1) - bias t - int (frac_bits t)"
  have v: "mag_real (unpack b t) = real m * 2 powi g" by (simp only: mag_real_def u(2,4) m_def g_def)
  have m: "m < 2 ^ (frac_bits t + 1)" using fl(4) by (simp add: m_def)
  have "quantum t e \<le> g"
  proof (cases "1 - bias t < e")
    case True
    have "real m < 2 powi (int (frac_bits t) + 1)"
    proof -
      have "real m < real (2 ^ (frac_bits t + 1))" using m by (simp only: of_nat_less_iff)
      then show ?thesis using power_int_of_nat [of "2::real" "frac_bits t + 1"] by (simp add: add.commute)
    qed
    then have "real m * 2 powi g < 2 powi (int (frac_bits t) + 1) * 2 powi g" by (intro mult_strict_right_mono) simp_all
    then have "2 powi e < (2 powi (int (frac_bits t) + 1 + g) :: real)" using e [OF True] v unfolding two_powi_add by linarith
    then have "e < int (frac_bits t) + 1 + g" using powi_mono [of "int (frac_bits t) + 1 + g" e] by linarith
    then show ?thesis using True by (simp add: quantum_def)
  next
    case False
    then show ?thesis by (auto simp: quantum_def g_def)
  qed
  then have "(2 powi g :: real) = 2 ^ nat (g - quantum t e) * 2 powi quantum t e"
    using two_powi_add [of "g - quantum t e" "quantum t e"] by (simp add: two_powi_nat(1))
  then have "mag_real (unpack b t) = real_of_int (int (m * 2 ^ nat (g - quantum t e))) * 2 powi quantum t e"
    using v by simp
  then show ?thesis by (rule that)
qed

lemma round_half_even_nearest: "\<bar>y - real_of_int (round_half_even y)\<bar> \<le> \<bar>y - real_of_int k\<bar>"
proof -
  have "k = round_half_even y" if "\<bar>y - k\<bar> < 1 / 2"
  proof -
    have "\<bar>real_of_int (k - round_half_even y)\<bar> < 1"
      using round_half_even_near [of y] that unfolding of_int_diff by linarith
    then show ?thesis by linarith
  qed
  then show ?thesis using round_half_even_near [of y] by (cases "\<bar>y - k\<bar> < 1 / 2") (auto simp: abs_minus_commute)
qed

text \<open>No finite magnitude of the format is nearer to \<open>x\<close> than \<open>rounded t x\<close>.\<close>

lemma rounded_nearest:
  assumes t: "floating t" and b: "is_valid_scalar_bits t b" and x: "0 \<le> x"
  shows "\<bar>x - rounded t x\<bar> \<le> \<bar>x - mag_real (unpack b t)\<bar>"
proof (cases "x = 0")
  case True
  then show ?thesis by (simp add: rounded_def)
next
  case False
  define e where "e = \<lfloor>log 2 x\<rfloor>"
  have "2 powr e \<le> x \<and> x < 2 powr (e + 1)"
    using x False floor_log_eq_powr_iff [of x 2 e] by (simp add: e_def)
  then have ex: "2 powi e \<le> x" "x < 2 powi (e + 1)" by (simp_all add: two_powi_powr)
  let ?u = "2 powi quantum t e :: real"
  have near: "\<bar>x - rounded t x\<bar> \<le> \<bar>x - real_of_int k * ?u\<bar>" for k
  proof -
    have "\<bar>x / ?u - real_of_int (round_half_even (x / ?u))\<bar> * ?u \<le> \<bar>x / ?u - real_of_int k\<bar> * ?u"
      by (intro mult_right_mono round_half_even_nearest) simp
    moreover have "\<bar>x / ?u - z\<bar> * ?u = \<bar>x - z * ?u\<bar>" for z
    proof -
      have "\<bar>x / ?u - z\<bar> * ?u = \<bar>(x / ?u - z) * ?u\<bar>" by (simp add: abs_mult)
      then show ?thesis by (simp add: left_diff_distrib)
    qed
    ultimately show ?thesis using False by (simp add: rounded_def Let_def flip: e_def)
  qed
  define v where "v = mag_real (unpack b t)"
  have "\<bar>x - rounded t x\<bar> \<le> \<bar>x - v\<bar>"
  proof (cases "1 - bias t < e \<longrightarrow> 2 powi e \<le> v")
    case True
    then obtain k :: int where "v = real_of_int k * ?u"
      using representable_multiple [OF t b, of e] unfolding v_def by blast
    then show ?thesis using near by simp
  next
    case False
    then have e: "1 - bias t < e" "v < 2 powi e" by auto
    have "?u * 2 ^ frac_bits t = 2 powi e"
      using e(1) two_powi_add [of "quantum t e" "int (frac_bits t)"] by (simp add: quantum_def)
    then have "\<bar>x - rounded t x\<bar> \<le> \<bar>x - 2 powi e\<bar>" using near [of "2 ^ frac_bits t"] by (simp add: mult.commute)
    then show ?thesis using ex(1) e(2) by simp
  qed
  then show ?thesis by (simp only: v_def)
qed

lemma one_natural [simp]: "normal (natural_of_u64 1)" "nat_value (natural_of_u64 1) = 1"
  by (simp_all add: normal_of_u64 nat_value_of_u64)

text \<open>A correctly rounded result: its magnitude, its sign, and that no value of the format is nearer.\<close>

definition rounds_to :: "TypeKind \<Rightarrow> real \<Rightarrow> ConstantBits \<Rightarrow> bool" where
  "rounds_to t x result \<longleftrightarrow>
     (case result of
        Inl e \<Rightarrow> e = ceNonFinite \<and> 2 powi (bias t + 1) \<le> rounded t \<bar>x\<bar>
      | Inr b \<Rightarrow> is_valid_scalar_bits t b \<and> \<bar>float_real t b\<bar> = rounded t \<bar>x\<bar> \<and>
          (x \<noteq> 0 \<longrightarrow> (fin_negative (unpack b t) \<longleftrightarrow> x < 0)) \<and>
          (\<forall>c. is_valid_scalar_bits t c \<longrightarrow> \<bar>x - float_real t b\<bar> \<le> \<bar>x - float_real t c\<bar>))"

lemma packed_rounds_to:
  assumes "floating t" "packed t False neg (rounded t \<bar>x\<bar>) r" "x \<noteq> 0 \<Longrightarrow> neg \<longleftrightarrow> x < 0"
  shows "rounds_to t x r"
proof (cases r)
  case (Inl e)
  then show ?thesis using assms(2) by (simp add: packed_def rounds_to_def)
next
  case (Inr b)
  then have b: "is_valid_scalar_bits t b" "fin_negative (unpack b t) \<longleftrightarrow> neg" "mag_real (unpack b t) = rounded t \<bar>x\<bar>"
    using assms(2) by (simp_all add: packed_def)
  have m0: "0 \<le> mag_real (unpack b t)" by (simp add: mag_real_def)
  have "\<bar>x - float_real t b\<bar> = \<bar>\<bar>x\<bar> - rounded t \<bar>x\<bar>\<bar>"
  proof (cases "x = 0")
    case True
    then show ?thesis using b by (simp add: float_real_def rounded_def)
  next
    case False
    then show ?thesis using assms(3) b m0 by (auto simp: float_real_def)
  qed
  moreover have "\<bar>\<bar>x\<bar> - rounded t \<bar>x\<bar>\<bar> \<le> \<bar>x - float_real t c\<bar>" if "is_valid_scalar_bits t c" for c
  proof -
    have "\<bar>\<bar>x\<bar> - rounded t \<bar>x\<bar>\<bar> \<le> \<bar>\<bar>x\<bar> - mag_real (unpack c t)\<bar>" by (rule rounded_nearest [OF assms(1) that]) simp
    moreover have "0 \<le> mag_real (unpack c t)" by (simp add: mag_real_def)
    ultimately show ?thesis by (auto simp: float_real_def)
  qed
  ultimately show ?thesis using Inr b m0 assms(3) by (auto simp: rounds_to_def float_real_def)
qed

lemma unpack_normal [simp]: "normal (fin_magnitude (unpack b t))"
  by (simp add: unpack_def Let_def normal_of_u64)

definition fin_real :: "Finite \<Rightarrow> real" where
  "fin_real v = (if fin_negative v then - mag_real v else mag_real v)"

lemma float_fin_real: "float_real t b = fin_real (unpack b t)"
  by (simp add: float_real_def fin_real_def)

lemma mag_real_nonneg: "0 \<le> mag_real v"
  by (simp add: mag_real_def)

lemma mag_real_zero: "normal (fin_magnitude v) \<Longrightarrow> nat_zero (fin_magnitude v) \<longleftrightarrow> mag_real v = 0"
  by (simp add: mag_real_def naturals.is_zero_val)

lemma float_order_correct:
  assumes "normal (fin_magnitude a)" "normal (fin_magnitude b)"
  shows "float_order a b = sgn (fin_real a - fin_real b)"
proof -
  let ?o = "scaled_compare (fin_magnitude a) (fin_magnitude b) (fin_scale a - fin_scale b)"
  have p: "\<not> 2 powi fin_scale b < (0::real)" by (simp add: not_less)
  have q: "real (nat_value (fin_magnitude a)) * 2 powi (fin_scale a - fin_scale b) = mag_real a / 2 powi fin_scale b"
    by (simp add: mag_real_def power_int_diff)
  have m: "real (nat_value (fin_magnitude b)) = mag_real b / 2 powi fin_scale b" by (simp add: mag_real_def)
  have o: "?o < 0 \<longleftrightarrow> mag_real a < mag_real b" "?o > 0 \<longleftrightarrow> mag_real a > mag_real b" "?o = 0 \<longleftrightarrow> mag_real a = mag_real b"
    unfolding scaled_compare_iff [OF assms] q m using p
    by (simp_all add: divide_less_cancel)
  have "?o \<in> {-1, 0, 1}"
    by (auto simp: scaled_compare_def naturals.compare_val assms nat_shift_correct sgn_if)
  then have os: "real_of_int ?o = sgn (mag_real a - mag_real b)" using o by auto
  note z = mag_real_zero [OF assms(1)] mag_real_zero [OF assms(2)]
  have nn: "0 \<le> mag_real a" "0 \<le> mag_real b" by (rule mag_real_nonneg)+
  show ?thesis
    using nn os unfolding float_order_def Let_def z fin_real_def
    by (auto simp: sgn_if split: if_splits)
qed

lemma real_shifted:
  "normal m \<Longrightarrow> s \<le> k \<Longrightarrow> real (nat_value (nat_shift (nat (k - s)) m)) * 2 powi s = real (nat_value m) * 2 powi k"
  using two_powi_add [of "k - s" s] by (simp add: nat_shift_correct two_powi_nat(1))

lemma pack_one:
  assumes "floating t" "normal n" "\<bar>x\<bar> = real (nat_value n) * 2 powi scale" "x \<noteq> 0 \<Longrightarrow> neg \<longleftrightarrow> x < 0"
  shows "rounds_to t x (pack neg n (natural_of_u64 1) scale t False)"
  using pack_correct [OF assms(1,2), of "natural_of_u64 1" "\<bar>x\<bar>" scale False neg] assms
  by (intro packed_rounds_to [of t neg]) simp_all

lemma float_sum_correct:
  assumes t: "floating t" and n: "normal (fin_magnitude a)" "normal (fin_magnitude b)"
  shows "rounds_to t (fin_real a + fin_real b) (float_sum a b t)"
proof -
  define s where "s = min (fin_scale a) (fin_scale b)"
  define x where "x = nat_shift (nat (fin_scale a - s)) (fin_magnitude a)"
  define y where "y = nat_shift (nat (fin_scale b - s)) (fin_magnitude b)"
  have nx: "normal x" "normal y" using n by (simp_all add: x_def y_def nat_shift_correct)
  have vx: "mag_real a = real (nat_value x) * 2 powi s" "mag_real b = real (nat_value y) * 2 powi s"
    using real_shifted [OF n(1), of s "fin_scale a"] real_shifted [OF n(2), of s "fin_scale b"]
    by (simp_all add: x_def y_def s_def mag_real_def)
  have p: "(0::real) < 2 powi s" by simp
  show ?thesis
  proof (cases "fin_negative a = fin_negative b")
    case True
    have "real (nat_value (nat_add x y)) * 2 powi s = mag_real a + mag_real b"
      using nx by (simp add: nat_add_correct vx algebra_simps)
    moreover have "\<bar>fin_real a + fin_real b\<bar> = mag_real a + mag_real b"
      using True mag_real_nonneg [of a] mag_real_nonneg [of b] by (auto simp: fin_real_def)
    moreover have "fin_negative a \<longleftrightarrow> fin_real a + fin_real b < 0" if "fin_real a + fin_real b \<noteq> 0"
      using True that mag_real_nonneg [of a] mag_real_nonneg [of b] by (auto simp: fin_real_def)
    ultimately have "rounds_to t (fin_real a + fin_real b) (pack (fin_negative a) (nat_add x y) (natural_of_u64 1) s t False)"
      using nat_add_correct [OF nx] by (intro pack_one [OF t]) simp_all
    then show ?thesis using True by (simp add: float_sum_def x_def y_def s_def Let_def)
  next
    case False
    define less where "less = (nat_compare x y < 0)"
    define m where "m = (if less then nat_subtract y x else nat_subtract x y)"
    define neg where "neg = (if nat_zero m then False else if less then fin_negative b else fin_negative a)"
    have less: "less \<longleftrightarrow> nat_value x < nat_value y" using naturals.compare_cases(2) [OF nx] by (simp add: less_def)
    then have nm: "normal m" "nat_value m = (if less then nat_value y - nat_value x else nat_value x - nat_value y)"
      using nx by (simp_all add: m_def nat_subtract_correct)
    have "\<bar>fin_real a + fin_real b\<bar> = \<bar>mag_real a - mag_real b\<bar>" using False by (auto simp: fin_real_def)
    also have "\<dots> = \<bar>(real (nat_value x) - real (nat_value y)) * 2 powi s\<bar>" by (simp add: vx left_diff_distrib)
    also have "\<dots> = \<bar>real (nat_value x) - real (nat_value y)\<bar> * 2 powi s" by (simp add: abs_mult)
    also have "\<dots> = real (nat_value m) * 2 powi s" using nm(2) less by (auto simp: of_nat_diff)
    finally have mag: "\<bar>fin_real a + fin_real b\<bar> = real (nat_value m) * 2 powi s" .
    have "neg \<longleftrightarrow> fin_real a + fin_real b < 0" if nz: "fin_real a + fin_real b \<noteq> 0"
    proof -
      have "nat_value m \<noteq> 0"
      proof
        assume "nat_value m = 0"
        then show False using nz mag by simp
      qed
      then have "\<not> nat_zero m" using naturals.is_zero_val [OF nm(1)] by simp
      moreover have "less \<longleftrightarrow> mag_real a < mag_real b" using less p by (simp add: vx)
      ultimately show ?thesis using False nz by (auto simp: neg_def fin_real_def)
    qed
    then have "rounds_to t (fin_real a + fin_real b) (pack neg m (natural_of_u64 1) s t False)"
      using nm(1) mag by (intro pack_one [OF t]) simp_all
    moreover have "float_sum a b t = pack neg m (natural_of_u64 1) s t False"
      using False by (simp only: float_sum_def Let_def neg_def m_def less_def x_def y_def s_def if_False)
    ultimately show ?thesis by simp
  qed
qed

lemma float_product:
  assumes "floating t"
  shows "rounds_to t (float_real t a * float_real t b) (float_binary kStar t a b)"
proof -
  let ?a = "unpack a t" and ?b = "unpack b t"
  have "mag_real ?a * mag_real ?b =
      real (nat_value (nat_multiply (fin_magnitude ?a) (fin_magnitude ?b))) * 2 powi (fin_scale ?a + fin_scale ?b)"
    by (simp add: mag_real_def nat_multiply_correct two_powi_add)
  moreover have "\<bar>float_real t a * float_real t b\<bar> = mag_real ?a * mag_real ?b"
    using mag_real_nonneg [of ?a] mag_real_nonneg [of ?b] by (simp add: float_real_def abs_mult)
  moreover have "(fin_negative ?a \<noteq> fin_negative ?b) \<longleftrightarrow> float_real t a * float_real t b < 0"
    if "float_real t a * float_real t b \<noteq> 0"
    using that mag_real_nonneg [of ?a] mag_real_nonneg [of ?b]
    by (auto simp: float_real_def mult_less_0_iff not_less split: if_splits)
  ultimately have "rounds_to t (float_real t a * float_real t b) (pack (fin_negative ?a \<noteq> fin_negative ?b)
      (nat_multiply (fin_magnitude ?a) (fin_magnitude ?b)) (natural_of_u64 1) (fin_scale ?a + fin_scale ?b) t False)"
    by (intro pack_one [OF assms] nat_multiply_correct) simp_all
  then show ?thesis by (simp add: float_binary_def is_comparison_def Let_def)
qed

lemma float_quotient:
  assumes t: "floating t" and "float_real t b \<noteq> 0"
  shows "rounds_to t (float_real t a / float_real t b) (float_binary kSlash t a b)"
proof -
  let ?a = "unpack a t" and ?b = "unpack b t"
  have b: "mag_real ?b \<noteq> 0" using assms(2) by (simp add: float_real_def split: if_splits)
  then have nz: "\<not> nat_zero (fin_magnitude ?b)" "0 < nat_value (fin_magnitude ?b)"
    using mag_real_zero [of ?b] by (simp_all add: naturals.is_zero_val)
  let ?x = "float_real t a / float_real t b"
  have "\<bar>?x\<bar> = mag_real ?a / mag_real ?b"
    using mag_real_nonneg [of ?a] mag_real_nonneg [of ?b] by (simp add: float_real_def)
  also have "\<dots> = real (nat_value (fin_magnitude ?a)) / real (nat_value (fin_magnitude ?b)) *
      2 powi (fin_scale ?a - fin_scale ?b)" by (simp add: mag_real_def power_int_diff)
  finally have "packed t False (fin_negative ?a \<noteq> fin_negative ?b) (rounded t \<bar>?x\<bar>)
      (pack (fin_negative ?a \<noteq> fin_negative ?b) (fin_magnitude ?a) (fin_magnitude ?b)
        (fin_scale ?a - fin_scale ?b) t False)"
    using pack_correct [OF t, of "fin_magnitude ?a" "fin_magnitude ?b" "\<bar>?x\<bar>" _ False] nz by simp
  moreover have "(fin_negative ?a \<noteq> fin_negative ?b) \<longleftrightarrow> ?x < 0" if "?x \<noteq> 0"
    using that mag_real_nonneg [of ?a] mag_real_nonneg [of ?b]
    by (auto simp: float_real_def divide_less_0_iff not_less split: if_splits)
  ultimately show ?thesis
    using nz(1) by (auto simp: float_binary_def is_comparison_def Let_def intro: packed_rounds_to [OF t])
qed

lemma float_sums:
  assumes "floating t"
  shows "rounds_to t (float_real t a + float_real t b) (float_binary kPlus t a b)"
    and "rounds_to t (float_real t a - float_real t b) (float_binary kMinus t a b)"
proof -
  let ?a = "unpack a t" and ?b = "unpack b t"
  show "rounds_to t (float_real t a + float_real t b) (float_binary kPlus t a b)"
    using float_sum_correct [OF assms, of ?a ?b] by (simp add: float_binary_def is_comparison_def float_fin_real)
  have "fin_real (?b\<lparr>fin_negative := \<not> fin_negative ?b\<rparr>) = - fin_real ?b" by (simp add: fin_real_def mag_real_def)
  then show "rounds_to t (float_real t a - float_real t b) (float_binary kMinus t a b)"
    using float_sum_correct [OF assms, of ?a "?b\<lparr>fin_negative := \<not> fin_negative ?b\<rparr>"]
    by (simp add: float_binary_def is_comparison_def float_fin_real Let_def)
qed

section \<open>Rounding and operators\<close>

text \<open>
  C21: \<open>pack\<close> rounds correctly. The value \<open>numerator / denominator * 2 ^ scale\<close> is rounded once, to the
  nearest multiple of the last place of the format, ties to even, with gradual underflow; the result is a
  valid finite pattern of that magnitude with the given sign; magnitudes that reach
  \<open>2 ^ (bias + 1)\<close> are reported as not finite, and a literal that is not zero but rounds to zero as out
  of range. No finite value of the format is nearer to the exact value.
\<close>

theorem pack_rounds_correctly:
  assumes "floating t" "normal n" "normal d" "0 < nat_value d"
    and "x = real (nat_value n) / real (nat_value d) * 2 powi scale"
  shows "(case pack neg n d scale t literal of
       Inl e \<Rightarrow> (e = ceNonFinite \<and> 2 powi (bias t + 1) \<le> rounded t x) \<or>
         (e = ceOutOfRange \<and> literal \<and> x \<noteq> 0 \<and> rounded t x = 0)
     | Inr b \<Rightarrow> is_valid_scalar_bits t b \<and> (fin_negative (unpack b t) \<longleftrightarrow> neg) \<and>
         mag_real (unpack b t) = rounded t x \<and> rounded t x < 2 powi (bias t + 1) \<and>
         (literal \<and> x \<noteq> 0 \<longrightarrow> rounded t x \<noteq> 0)) \<and>
    (\<forall>c. is_valid_scalar_bits t c \<longrightarrow> \<bar>x - rounded t x\<bar> \<le> \<bar>x - mag_real (unpack c t)\<bar>)"
proof -
  have "0 \<le> x" by (simp add: assms(5))
  then show ?thesis
    using pack_correct [OF assms, of literal neg] rounded_nearest [OF assms(1)]
    by (auto simp: packed_def split: sum.splits)
qed

theorem pack_rounds_correctly_witness:
  "normal [1] \<and> normal [3] \<and> (case pack False [1] [3] 0 tyFloat32 False of
     Inl e \<Rightarrow> e = ceNonFinite
   | Inr b \<Rightarrow> is_valid_scalar_bits tyFloat32 b \<and> mag_real (unpack b tyFloat32) = rounded tyFloat32 (1 / 3))"
proof -
  have n: "normal [1]" "normal [3]" "0 < nat_value [3]" "floating tyFloat32"
    by (simp_all add: normal_def floating_def)
  have "1 / 3 = real (nat_value [1]) / real (nat_value [3]) * 2 powi 0" by simp
  from pack_rounds_correctly [OF n(4,1,2,3) this, of False False] n
  show ?thesis by (auto split: sum.splits)
qed

text \<open>
  C22: floating-point operators on constants. Sum, difference, product and quotient are the correctly
  rounded results of the exact operation on the denoted values, a zero divisor is reported exactly
  for division by a zero of either sign, and comparisons order the denoted values (so the two zeros
  are equal).
\<close>

theorem float_binary_correct:
  assumes "floating t"
  shows "rounds_to t (float_real t a + float_real t b) (float_binary kPlus t a b) \<and>
    rounds_to t (float_real t a - float_real t b) (float_binary kMinus t a b) \<and>
    rounds_to t (float_real t a * float_real t b) (float_binary kStar t a b) \<and>
    (if float_real t b = 0 then float_binary kSlash t a b = Inl ceZeroDivisor
     else rounds_to t (float_real t a / float_real t b) (float_binary kSlash t a b)) \<and>
    float_binary kLess t a b = bool_bits (float_real t a < float_real t b) \<and>
    float_binary kLessEqual t a b = bool_bits (float_real t a \<le> float_real t b) \<and>
    float_binary kEqualEqual t a b = bool_bits (float_real t a = float_real t b)"
proof -
  have "float_real t b = 0 \<longleftrightarrow> nat_zero (fin_magnitude (unpack b t))"
    using mag_real_zero [of "unpack b t"] by (simp add: float_real_def)
  then have z: "float_real t b = 0 \<Longrightarrow> float_binary kSlash t a b = Inl ceZeroDivisor"
    by (simp add: float_binary_def is_comparison_def Let_def)
  have "real_of_int (float_order (unpack a t) (unpack b t)) = sgn (float_real t a - float_real t b)"
    by (simp add: float_order_correct float_fin_real)
  then have o: "float_order (unpack a t) (unpack b t) =
      (if float_real t a < float_real t b then -1 else if float_real t a = float_real t b then 0 else 1)"
    by (auto simp: sgn_if split: if_splits)
  have c: "float_binary kLess t a b = bool_bits (float_real t a < float_real t b)"
      "float_binary kLessEqual t a b = bool_bits (float_real t a \<le> float_real t b)"
      "float_binary kEqualEqual t a b = bool_bits (float_real t a = float_real t b)"
    by (simp_all add: float_binary_def is_comparison_def o comparison_def Let_def)
  show ?thesis using float_sums [OF assms] float_product [OF assms] float_quotient [OF assms] z c by simp
qed

theorem float_binary_correct_witness:
  "rounds_to tyFloat64 (float_real tyFloat64 0x3FF0000000000000 + float_real tyFloat64 1)
     (float_binary kPlus tyFloat64 0x3FF0000000000000 1)"
proof -
  have "floating tyFloat64" by (simp add: floating_def)
  then show ?thesis using float_binary_correct [of tyFloat64 "0x3FF0000000000000" 1] by blast
qed

section \<open>Decimal text\<close>

lemma exponent_loop_saturated:
  "list_all is_decimal_digit cs \<Longrightarrow> float_exponent_loop cs kSaturatedExponent = kSaturatedExponent"
  by (induction cs) (auto simp: is_decimal_digit_def kSaturatedExponent_def Let_def)

lemma exponent_loop_same:
  "list_all is_decimal_digit cs \<Longrightarrow> float_exponent_loop cs acc = parse_exponent_loop cs acc"
proof (induction cs arbitrary: acc)
  case (Cons c cs)
  then show ?case using exponent_loop_saturated [of cs] by (simp add: Let_def kSaturatedExponent_def)
qed simp

lemma float_exponent_value:
  "list_all is_decimal_digit cs \<Longrightarrow> float_exponent_loop cs 0 = min 1000000 (int (decimal_value cs))"
  using parse_exponent_loop_correct [of cs 0] by (simp add: exponent_loop_same kSaturatedExponent_def)

text \<open>What the digit loop maintains.\<close>

definition scan_ok :: "DecimalScan \<Rightarrow> bool" where
  "scan_ok s \<longleftrightarrow> normal (ds_numerator s) \<and>
     (if ds_nonzero s then 0 < ds_significant_digits s \<and>
        10 ^ (ds_significant_digits s - 1) \<le> nat_value (ds_numerator s) \<and>
        nat_value (ds_numerator s) < 10 ^ ds_significant_digits s
      else ds_significant_digits s = 0 \<and> nat_value (ds_numerator s) = 0) \<and>
     ds_significant_digits s \<le> ds_integer_digits s + ds_fractional_digits s"

lemma ten_natural: "normal (natural_of_u64 10)" "nat_value (natural_of_u64 10) = 10"
  by (simp_all add: normal_of_u64 nat_value_of_u64)

lemma consume_digit_step:
  assumes "scan_ok s" "is_decimal_digit c"
  shows "scan_ok (consume_digit c fr s)"
    "nat_value (ds_numerator (consume_digit c fr s)) = nat_value (ds_numerator s) * 10 + decimal_digit_value c"
    "ds_integer_digits (consume_digit c fr s) = (if fr then ds_integer_digits s else ds_integer_digits s + 1)"
    "ds_fractional_digits (consume_digit c fr s) = (if fr then ds_fractional_digits s + 1 else ds_fractional_digits s)"
proof -
  have d: "decimal_digit_value c < 10" "decimal_digit_value c = 0 \<longleftrightarrow> c = CHR ''0''"
  proof -
    have "c = CHR ''0'' \<longleftrightarrow> code c = code (CHR ''0'')" by (simp only: of_char_eq_iff)
    then show "decimal_digit_value c < 10" "decimal_digit_value c = 0 \<longleftrightarrow> c = CHR ''0''"
      using assms(2) by (auto simp: is_decimal_digit_def decimal_digit_value_def)
  qed
  have "unat (of_nat (code c - 48) :: u64) = decimal_digit_value c"
    using d(1) by (simp only: unat_of_nat decimal_digit_value_def) simp
  then have a: "nat_value (natural_of_u64 (of_nat (code c - 48))) = decimal_digit_value c"
      "normal (natural_of_u64 (of_nat (code c - 48)))" by (simp_all only: nat_value_of_u64 normal_of_u64)
  define n where "n = nat_multiply (ds_numerator s) (natural_of_u64 10)"
  have n: "normal n" "nat_value n = nat_value (ds_numerator s) * 10"
    by (simp_all add: n_def nat_multiply_correct ten_natural)
  have num: "ds_numerator (consume_digit c fr s) = nat_add n (natural_of_u64 (of_nat (code c - 48)))"
    by (simp add: consume_digit_def Let_def n_def)
  show v: "nat_value (ds_numerator (consume_digit c fr s)) = nat_value (ds_numerator s) * 10 + decimal_digit_value c"
    unfolding num using nat_add_correct [OF n(1) a(2)] n(2) a(1) by simp
  have nn: "normal (ds_numerator (consume_digit c fr s))" unfolding num using nat_add_correct [OF n(1) a(2)] by simp
  show "ds_integer_digits (consume_digit c fr s) = (if fr then ds_integer_digits s else ds_integer_digits s + 1)"
    "ds_fractional_digits (consume_digit c fr s) = (if fr then ds_fractional_digits s + 1 else ds_fractional_digits s)"
    by (simp_all add: consume_digit_def Let_def)
  have f: "ds_nonzero (consume_digit c fr s) \<longleftrightarrow> ds_nonzero s \<or> decimal_digit_value c \<noteq> 0"
      "ds_significant_digits (consume_digit c fr s) =
        (if ds_nonzero s \<or> decimal_digit_value c \<noteq> 0 then ds_significant_digits s + 1 else ds_significant_digits s)"
      "ds_integer_digits (consume_digit c fr s) + ds_fractional_digits (consume_digit c fr s) =
        ds_integer_digits s + ds_fractional_digits s + 1"
    unfolding d(2) by (simp_all add: consume_digit_def Let_def)
  show "scan_ok (consume_digit c fr s)"
  proof (cases "ds_nonzero s")
    case True
    then obtain k where k: "ds_significant_digits s = Suc k" "10 ^ k \<le> nat_value (ds_numerator s)"
        "nat_value (ds_numerator s) < 10 ^ Suc k" using assms(1) by (cases "ds_significant_digits s") (auto simp: scan_ok_def)
    then show ?thesis using True assms(1) nn v d(1) f unfolding scan_ok_def by simp
  next
    case False
    then show ?thesis using assms(1) nn v d(1) f unfolding scan_ok_def by auto
  qed
qed

lemma consume_digits_run:
  assumes "scan_ok s" "list_all is_decimal_digit run"
  shows "scan_ok (consume_digits run fr s) \<and>
    nat_value (ds_numerator (consume_digits run fr s)) = nat_value (ds_numerator s) * 10 ^ length run + decimal_value run \<and>
    ds_integer_digits (consume_digits run fr s) = ds_integer_digits s + (if fr then 0 else length run) \<and>
    ds_fractional_digits (consume_digits run fr s) = ds_fractional_digits s + (if fr then length run else 0)"
  using assms
proof (induction run arbitrary: s)
  case Nil
  then show ?case by (simp add: consume_digits_def)
next
  case (Cons c cs)
  have c: "is_decimal_digit c" using Cons.prems by simp
  note st = consume_digit_step [OF Cons.prems(1) c, of fr]
  have "consume_digits (c # cs) fr s = consume_digits cs fr (consume_digit c fr s)" by (simp add: consume_digits_def)
  then show ?case using Cons.IH [OF st(1)] Cons.prems st by (simp add: digits_value_Cons algebra_simps)
qed

lemma power_of_ten_value:
  "normal p \<Longrightarrow> nat_value (power_of_ten n p) = nat_value p * 10 ^ n \<and> normal (power_of_ten n p)"
  by (induction n arbitrary: p) (simp_all add: nat_multiply_correct ten_natural)

lemma rounded_large:
  assumes "2 powi (bias t + 1) \<le> x" shows "2 powi (bias t + 1) \<le> rounded t x"
proof -
  define e where "e = \<lfloor>log 2 x\<rfloor>"
  have "(0::real) < 2 powi (bias t + 1)" by simp
  then have x: "0 < x" using assms by linarith
  then have "2 powr e \<le> x \<and> x < 2 powr (e + 1)" using floor_log_eq_powr_iff [of x 2 e] by (simp add: e_def)
  then have ex: "2 powi e \<le> x" "x < 2 powi (e + 1)" by (simp_all add: two_powi_powr)
  then have "bias t + 1 < e + 1" using assms powi_mono [of "e + 1" "bias t + 1"] by linarith
  then have be: "1 - bias t \<le> e" "bias t + 1 \<le> e" using format_facts(5) [of t] by simp_all
  define y where "y = x / 2 powi quantum t e"
  have "2 ^ frac_bits t \<le> round_half_even y"
    using scaled_bounds(3) [OF ex y_def be(1)] by (intro round_half_even_ge) simp
  then have "2 powi int (frac_bits t) \<le> real_of_int (round_half_even y)"
    by (simp add: of_int_le_iff [symmetric] del: of_int_le_iff)
  then have "2 powi int (frac_bits t) * 2 powi quantum t e \<le> rounded t x"
    using x unfolding rounded_def Let_def e_def [symmetric] y_def by (auto intro!: mult_right_mono)
  moreover have "(2 powi (bias t + 1) :: real) \<le> 2 powi (int (frac_bits t) + quantum t e)"
    using be by (intro powi_mono) (simp add: quantum_def)
  ultimately show ?thesis unfolding two_powi_add by linarith
qed

lemma rounded_small:
  assumes "0 \<le> x" "x < 2 powi (- bias t - int (frac_bits t))" shows "rounded t x = 0"
proof (cases "x = 0")
  case True
  then show ?thesis by (simp add: rounded_def)
next
  case False
  define e where "e = \<lfloor>log 2 x\<rfloor>"
  have "2 powr e \<le> x \<and> x < 2 powr (e + 1)" using assms(1) False floor_log_eq_powr_iff [of x 2 e] by (simp add: e_def)
  then have ex: "2 powi e \<le> x" "x < 2 powi (e + 1)" by (simp_all add: two_powi_powr)
  then have "e < - bias t - int (frac_bits t)" using assms(2) powi_mono [of "- bias t - int (frac_bits t)" e] by linarith
  then have "round_half_even (x / 2 powi quantum t e) = 0"
    using scaled_bounds(1,5) [OF ex refl] by (intro round_half_even_small) simp_all
  then show ?thesis using False by (simp add: rounded_def Let_def e_def [symmetric])
qed

lemma ten_powi_mono: "a \<le> b \<Longrightarrow> (10 powi a :: real) \<le> 10 powi b"
  by (rule power_int_increasing) simp_all

lemma ten_powi_add: "10 powi (a + b) = 10 powi a * (10 powi b :: real)"
  by (simp add: power_int_add)

lemma finish_decimal_float_correct:
  assumes t: "floating t" and s: "scan_ok s" "ds_fractional_digits s \<le> 4096" "ds_significant_digits s \<le> 4096"
    and e: "exponent = max (- 1000000) (min 1000000 E)"
    and x: "x = real (nat_value (ds_numerator s)) * 10 powi (E - int (ds_fractional_digits s))"
  shows "packed t (x \<noteq> 0) neg (rounded t x) (finish_decimal_float neg t s exponent)"
proof (cases "ds_nonzero s")
  case False
  then have z: "nat_value (ds_numerator s) = 0" "normal (ds_numerator s)" using s(1) by (simp_all add: scan_ok_def)
  then have "nat_zero (ds_numerator s)" by (simp add: naturals.is_zero_val)
  then show ?thesis
    using pack_correct [OF t z(2), of "natural_of_u64 1" x 0 True neg] z x by (simp add: finish_decimal_float_def)
next
  case True
  define n where "n = ds_numerator s"
  define g where "g = ds_significant_digits s"
  define f where "f = ds_fractional_digits s"
  have n: "normal n" "0 < g" "10 ^ (g - 1) \<le> nat_value n" "nat_value n < 10 ^ g"
    using s(1) True by (simp_all add: scan_ok_def n_def g_def)
  have n0: "0 < nat_value n" using n(3) less_le_trans [of 0 "10 ^ (g - 1)" "nat_value n"] by simp
  then have x0: "x \<noteq> 0" by (simp add: x n_def)
  have lim: "f \<le> 4096" "g \<le> 4096" using s by (simp_all add: f_def g_def)
  have "real (10 ^ (g - 1)) \<le> real (nat_value n)" "real (nat_value n) < real (10 ^ g)"
    using n by (simp_all only: of_nat_le_iff of_nat_less_iff)
  moreover have "(10 powi (int g - 1) :: real) = 10 ^ (g - 1)"
    using n(2) by (simp add: power_int_def nat_diff_distrib')
  moreover have "(10 powi int g :: real) = 10 ^ g" by simp
  ultimately have "10 powi (int g - 1) * 10 powi (E - int f) \<le> x" "x < 10 powi int g * 10 powi (E - int f)"
    unfolding x n_def [symmetric] f_def [symmetric] by (auto intro: mult_right_mono mult_strict_right_mono)
  then have bounds: "10 powi (int g - 1 + E - int f) \<le> x" "x < 10 powi (int g + E - int f)"
    unfolding ten_powi_add [symmetric] by (simp_all add: algebra_simps)
  define order where "order = int g + (exponent - int f)"
  have fin: "finish_decimal_float neg t s exponent =
      (if order > 400 then Inl ceNonFinite else if order < -400 then Inl ceOutOfRange
       else if exponent - int f \<ge> 0
       then pack neg (nat_multiply n (power_of_ten (nat \<bar>exponent - int f\<bar>) (natural_of_u64 1))) (natural_of_u64 1) 0 t True
       else pack neg n (power_of_ten (nat \<bar>exponent - int f\<bar>) (natural_of_u64 1)) 0 t True)"
    using naturals.is_zero_val [OF n(1)] n0
    by (simp add: finish_decimal_float_def Let_def order_def n_def f_def g_def)
  have fmt: "bias t \<le> 1023" "int (frac_bits t) \<le> 52" by (simp_all add: bias_def frac_bits_def format_def)
  consider "order > 400" | "order < -400" | "\<not> order > 400" "\<not> order < -400" by linarith
  then show ?thesis
  proof cases
    case 1
    then have "400 \<le> int g - 1 + E - int f" using e lim by (auto simp: order_def)
    then have "10 powi 400 \<le> x" using ten_powi_mono bounds(1) order_trans by blast
    moreover have "(2 powi (bias t + 1) :: real) \<le> 2 powi 1024" using fmt by (intro powi_mono) simp
    moreover have "(2 powi 1024 :: real) \<le> 10 powi 400" by simp
    ultimately have "2 powi (bias t + 1) \<le> x" by linarith
    then show ?thesis using 1 rounded_large unfolding fin by (simp add: packed_def)
  next
    case 2
    then have "int g + E - int f \<le> -401" using e lim by (auto simp: order_def)
    then have "x < 10 powi (-401)" using ten_powi_mono bounds(2) less_le_trans by blast
    moreover have "(10 powi (-401) :: real) \<le> 2 powi (-1075)" by simp
    moreover have "(2 powi (-1075) :: real) \<le> 2 powi (- bias t - int (frac_bits t))" using fmt by (intro powi_mono) simp
    ultimately have "x < 2 powi (- bias t - int (frac_bits t))" by linarith
    then have "rounded t x = 0" by (intro rounded_small) (simp_all add: x)
    then show ?thesis using 2 x0 unfolding fin by (simp add: packed_def)
  next
    case 3
    then have ee: "exponent = E" using e lim by (auto simp: order_def)
    define p where "p = power_of_ten (nat \<bar>exponent - int f\<bar>) (natural_of_u64 1)"
    have p: "normal p" "nat_value p = 10 ^ nat \<bar>E - int f\<bar>"
      using power_of_ten_value [of "natural_of_u64 1"] by (simp_all add: p_def ee)
    show ?thesis
    proof (cases "exponent - int f \<ge> 0")
      case pos: True
      have "x = real (nat_value (nat_multiply n p)) / real (nat_value (natural_of_u64 1)) * 2 powi 0"
        using pos by (simp add: x n_def f_def ee nat_multiply_correct p power_int_def)
      then show ?thesis
        using pack_correct [OF t nat_multiply_correct(2) one_natural(1), of x n p 0 True neg] 3 pos x0
        unfolding fin p_def [symmetric] by simp
    next
      case neg: False
      have "x = real (nat_value n) / real (nat_value p) * 2 powi 0"
      proof -
        define k where "k = int f - E"
        have k: "0 \<le> k" "nat \<bar>E - int f\<bar> = nat k" "E - int f = - k" using neg ee by (simp_all add: k_def)
        have "(10 powi (E - int f) :: real) = inverse (10 ^ nat k)" unfolding k(3) power_int_minus using k(1) by (simp add: power_int_def)
        then show ?thesis unfolding p(2) k(2) x n_def [symmetric] f_def [symmetric] by (simp add: divide_inverse)
      qed
      then show ?thesis
        using pack_correct [OF t n(1) p(1), of x 0 True] 3 neg x0 p(2)
        unfolding fin p_def [symmetric] by simp
    qed
  qed
qed

lemma skip_run:
  assumes "txt = pre @ a @ r" "list_all P a" "r = [] \<or> \<not> P (hd r)"
  shows "skip_while P txt (length pre) = length pre + length a" "substr txt (length pre) (length a) = a"
proof -
  have "takeWhile P (a @ r) = a" using assms(2,3) by (cases r) (simp_all add: takeWhile_append list_all_iff)
  then show "skip_while P txt (length pre) = length pre + length a" using assms(1) by (simp add: skip_while_eq)
  show "substr txt (length pre) (length a) = a" using assms(1) by (simp add: substr_def)
qed

definition plain_exponent_ok :: "char \<times> string \<times> string \<Rightarrow> bool" where
  "plain_exponent_ok = (\<lambda>(letter, sign, run). (letter = CHR ''e'' \<or> letter = CHR ''E'') \<and>
     (sign = [] \<or> sign = ''+'' \<or> sign = ''-'') \<and> run \<noteq> [] \<and> list_all is_decimal_digit run)"

definition plain_exponent :: "(char \<times> string \<times> string) option \<Rightarrow> int" where
  "plain_exponent e = (case e of None \<Rightarrow> 0 | Some (letter, sign, run) \<Rightarrow>
     if sign = ''-'' then - int (decimal_value run) else int (decimal_value run))"

definition plain_fraction :: "string option \<Rightarrow> string" where
  "plain_fraction f = (case f of None \<Rightarrow> [] | Some run \<Rightarrow> run)"

lemma not_digit: "\<not> is_decimal_digit (CHR ''.'')" "\<not> is_decimal_digit (CHR ''e'')" "\<not> is_decimal_digit (CHR ''E'')"
    "\<not> is_decimal_digit (CHR ''+'')" "\<not> is_decimal_digit (CHR ''-'')"
  by (simp_all add: is_decimal_digit_def)

lemma exponent_stage:
  assumes "txt = pre @ spell_exponent e" "pred_option plain_exponent_ok e"
  shows "decimal_float_exponent txt neg t s (length pre) =
    finish_decimal_float neg t s (max (- 1000000) (min 1000000 (plain_exponent e)))"
proof (cases e)
  case None
  then show ?thesis using assms(1) by (simp add: decimal_float_exponent_def spell_exponent_def plain_exponent_def)
next
  case (Some x)
  obtain l sg run where x: "x = (l, sg, run)" by (cases x)
  have ok: "l = CHR ''e'' \<or> l = CHR ''E''" "sg = [] \<or> sg = ''+'' \<or> sg = ''-''" "run \<noteq> []" "list_all is_decimal_digit run"
    using assms(2) by (simp_all add: Some x plain_exponent_ok_def)
  have tx: "txt = pre @ l # sg @ run" using assms(1) by (simp add: Some x spell_exponent_def)
  let ?o = "length pre + 1"
  define b where "b = length (pre @ l # sg)"
  have atl: "txt ! length pre = l" "length pre < length txt" by (simp_all add: tx)
  have run: "skip_while is_decimal_digit txt b = b + length run" "substr txt b (length run) = run"
    using skip_run [of "txt" "pre @ l # sg" run "[]" is_decimal_digit] ok(4) by (simp_all add: tx b_def)
  have fin: "b + length run = length txt" by (simp add: tx b_def)
  have hd: "is_decimal_digit (hd run)" using ok(3,4) by (cases run) simp_all
  have signed: "(?o < length txt \<and> (txt ! ?o = CHR ''+'' \<or> txt ! ?o = CHR ''-'')) \<longleftrightarrow> sg \<noteq> []"
    using ok(2,3) hd not_digit by (cases run) (auto simp: tx nth_append)
  have minus: "(sg \<noteq> [] \<and> txt ! ?o = CHR ''-'') \<longleftrightarrow> sg = ''-''" using ok(2) by (auto simp: tx nth_append)
  have bo: "(if sg \<noteq> [] then ?o + 1 else ?o) = b" using ok(2) by (auto simp: b_def)
  have v: "float_exponent_loop run 0 = min 1000000 (int (decimal_value run))" by (rule float_exponent_value [OF ok(4)])
  have "decimal_float_exponent txt neg t s (length pre) =
      finish_decimal_float neg t s (if sg = ''-'' then - float_exponent_loop run 0 else float_exponent_loop run 0)"
    using atl ok(1,3) unfolding decimal_float_exponent_def Let_def signed bo minus run(1)
    by (simp add: run(2) flip: fin)
  moreover have "(if sg = ''-'' then - float_exponent_loop run 0 else float_exponent_loop run 0) =
      max (- 1000000) (min 1000000 (plain_exponent e))"
    unfolding v by (auto simp: plain_exponent_def Some x)
  ultimately show ?thesis by simp
qed

lemma empty_scan_ok: "scan_ok empty_scan"
  by (simp add: scan_ok_def empty_scan_def nat_value_of_u64 normal_of_u64)

lemma decimal_float_parts:
  assumes i: "list_all is_decimal_digit i" "i \<noteq> []"
    and f: "pred_option (\<lambda>run. run \<noteq> [] \<and> list_all is_decimal_digit run) f"
    and e: "pred_option plain_exponent_ok e"
    and tx: "txt = i @ spell_fraction f @ spell_exponent e"
  shows "decimal_float txt neg t = finish_decimal_float neg t
    (consume_digits (plain_fraction f) True (consume_digits i False empty_scan))
    (max (- 1000000) (min 1000000 (plain_exponent e)))"
proof -
  have es: "spell_exponent e = [] \<or> \<not> is_decimal_digit (hd (spell_exponent e)) \<and> hd (spell_exponent e) \<noteq> CHR ''.''"
    using e not_digit by (cases e) (auto simp: spell_exponent_def plain_exponent_ok_def)
  define r where "r = spell_fraction f @ spell_exponent e"
  have "r = [] \<or> \<not> is_decimal_digit (hd r)"
    using es not_digit by (cases f) (auto simp: r_def spell_fraction_def)
  then have i': "skip_while is_decimal_digit txt 0 = length i" "substr txt 0 (length i) = i"
    using skip_run [of "txt" "[]" i r is_decimal_digit] i(1) tx by (simp_all add: r_def)
  define s where "s = consume_digits i False empty_scan"
  have s: "scan_ok s" "ds_integer_digits s = length i" "ds_fractional_digits s = 0"
    using consume_digits_run [OF empty_scan_ok i(1), of False] by (simp_all add: s_def empty_scan_def)
  show ?thesis
  proof (cases f)
    case None
    then have "\<not> (length i < length txt \<and> txt ! length i = CHR ''.'')"
      using es tx by (cases "spell_exponent e") (auto simp: spell_fraction_def nth_append)
    then have "decimal_float txt neg t = decimal_float_exponent txt neg t s (length i)"
      using i(2) s(2) unfolding decimal_float_def Let_def i' s_def [symmetric] by (simp only: if_False length_0_conv)
    moreover have "txt = i @ spell_exponent e" using tx None by (simp add: spell_fraction_def)
    ultimately show ?thesis
      using exponent_stage [OF _ e, of "txt" i neg t s] by (simp add: None plain_fraction_def consume_digits_def s_def)
  next
    case (Some run)
    have run: "run \<noteq> []" "list_all is_decimal_digit run" using f Some by simp_all
    have dot: "length i < length txt" "txt ! length i = CHR ''.''" using tx Some by (simp_all add: spell_fraction_def)
    define b where "b = length (i @ ''.'')"
    have tx': "txt = (i @ ''.'') @ run @ spell_exponent e" using tx Some by (simp add: spell_fraction_def)
    have r': "skip_while is_decimal_digit txt b = b + length run" "substr txt b (length run) = run"
      unfolding b_def using skip_run [OF tx' run(2)] es by blast+
    define s' where "s' = consume_digits run True s"
    have fr: "ds_fractional_digits s' = length run"
      using consume_digits_run [OF s(1) run(2), of True] s(3) by (simp add: s'_def)
    have b: "length i + 1 = b" "b + length run - b = length run" by (simp_all add: b_def)
    have "decimal_float txt neg t = decimal_float_exponent txt neg t s' (b + length run)"
      using i(2) s(2) dot run(1) fr unfolding decimal_float_def Let_def i' s_def [symmetric] b r' s'_def [symmetric]
      by (simp only: if_True if_False simp_thms length_0_conv)
    then show ?thesis
      using exponent_stage [of "txt" "(i @ ''.'') @ run" e neg t s'] e tx'
      by (simp add: Some plain_fraction_def s'_def s_def b_def)
  qed
qed

text \<open>
  C23: decimal floating-point text is rounded correctly. A literal with integer digits, an optional
  fraction and an optional exponent denotes its digits scaled by a power of ten; that real number is
  rounded once to the nearest value of the format, ties to even. The cut-offs of the code on the
  decimal order and the saturation of the exponent never change the outcome for texts within the
  literal size limit.
\<close>

theorem decimal_float_correct:
  assumes "floating t" "list_all is_decimal_digit i" "i \<noteq> []"
    and "pred_option (\<lambda>run. run \<noteq> [] \<and> list_all is_decimal_digit run) f" "pred_option plain_exponent_ok e"
    and "length (i @ spell_fraction f @ spell_exponent e) \<le> kMaxConstantLiteralBytes"
    and "x = real (decimal_value (i @ plain_fraction f)) * 10 powi (plain_exponent e - int (length (plain_fraction f)))"
  shows "case decimal_float (i @ spell_fraction f @ spell_exponent e) neg t of
       Inl er \<Rightarrow> (er = ceNonFinite \<and> 2 powi (bias t + 1) \<le> rounded t x) \<or>
         (er = ceOutOfRange \<and> x \<noteq> 0 \<and> rounded t x = 0)
     | Inr b \<Rightarrow> is_valid_scalar_bits t b \<and> (fin_negative (unpack b t) \<longleftrightarrow> neg) \<and>
         mag_real (unpack b t) = rounded t x"
proof -
  let ?f = "plain_fraction f"
  define s where "s = consume_digits ?f True (consume_digits i False empty_scan)"
  have "list_all is_decimal_digit ?f" using assms(4) by (cases f) (simp_all add: plain_fraction_def)
  moreover note one = consume_digits_run [OF empty_scan_ok assms(2), of False]
  ultimately have s: "scan_ok s" "nat_value (ds_numerator s) = decimal_value (i @ ?f)"
      "ds_integer_digits s = length i" "ds_fractional_digits s = length ?f"
    using consume_digits_run [of "consume_digits i False empty_scan" ?f True]
    by (simp_all add: s_def digits_value_append empty_scan_def nat_value_of_u64)
  have len: "length i + length ?f \<le> 4096" using assms(6)
    by (cases f) (simp_all add: plain_fraction_def spell_fraction_def kMaxConstantLiteralBytes_def)
  then have "ds_significant_digits s \<le> 4096" "ds_fractional_digits s \<le> 4096"
    using s by (simp_all add: scan_ok_def)
  from finish_decimal_float_correct [OF assms(1) s(1) this(2,1) refl, of x "plain_exponent e" neg]
  show ?thesis
    using assms(7) s(2,4) decimal_float_parts [OF assms(2-5) refl, of neg t]
    by (auto simp: packed_def s_def split: sum.splits)
qed

theorem decimal_float_correct_witness:
  "case decimal_float ''12.5e-1'' False tyFloat32 of
     Inl er \<Rightarrow> er = ceNonFinite \<or> er = ceOutOfRange
   | Inr b \<Rightarrow> mag_real (unpack b tyFloat32) = rounded tyFloat32 (125 * 10 powi (-2))"
proof -
  have d: "floating tyFloat32" "list_all is_decimal_digit ''12''" "''12'' \<noteq> []"
      "pred_option (\<lambda>run. run \<noteq> [] \<and> list_all is_decimal_digit run) (Some ''5'')"
      "pred_option plain_exponent_ok (Some (CHR ''e'', ''-'', ''1''))"
    by (simp_all add: floating_def is_decimal_digit_def plain_exponent_ok_def)
  have s: "''12'' @ spell_fraction (Some ''5'') @ spell_exponent (Some (CHR ''e'', ''-'', ''1'')) = ''12.5e-1''"
    by (simp add: spell_fraction_def spell_exponent_def)
  have v: "decimal_value (''12'' @ plain_fraction (Some ''5'')) = 125"
      "plain_exponent (Some (CHR ''e'', ''-'', ''1'')) - int (length (plain_fraction (Some ''5''))) = -2"
    by (simp_all add: digits_value_def decimal_digit_value_def plain_fraction_def plain_exponent_def)
  show ?thesis using decimal_float_correct [OF d _ refl, of False, unfolded s v]
    by (auto simp: kMaxConstantLiteralBytes_def split: sum.splits)
qed

end
