(* ===== verification/Scalar_Constants.thy ===== *)
theory Scalar_Constants
  imports Float_Constants Text_Literals "HOL-Library.Signed_Division"
begin

text \<open>
  Constant evaluation on scalar bit patterns (\<^verbatim>\<open>src/sema/scalar_constants.cc\<close>): integers,
  booleans, characters, enum ordinals and floating-point values, with literals, conversions,
  unary and binary operators. The lemmas show that integer operations compute the exact mathematical
  result or report why they cannot.
\<close>

section \<open>The code\<close>

text \<open>Integers as sign and magnitude.\<close>

record Integer =
  int_negative :: bool
  int_magnitude :: u64

definition integer :: "u64 \<Rightarrow> TypeKind \<Rightarrow> Integer" where
  "integer bits type =
     (let p = the (numeric_type_properties type);
          negative = (np_category p = ncSignedInteger \<and>
                      (bits AND push_bit (np_bit_width p - 1) 1) \<noteq> 0) in
      \<lparr>int_negative = negative,
       int_magnitude = (if negative then (0 - bits) AND bit_mask (np_bit_width p) else bits)\<rparr>)"

definition integer_bits :: "Integer \<Rightarrow> TypeKind \<Rightarrow> ConstantBits" where
  "integer_bits v type =
     (let p = the (numeric_type_properties type);
          signed_type = (np_category p = ncSignedInteger);
          maximum = (if signed_type
                     then push_bit (np_bit_width p - 1) 1 - (if int_negative v then 0 else 1)
                     else bit_mask (np_bit_width p)) in
      if (\<not> signed_type \<and> int_negative v \<and> int_magnitude v \<noteq> 0) \<or> int_magnitude v > maximum
      then Inl ceOutOfRange
      else Inr ((if int_negative v then 0 - int_magnitude v else int_magnitude v)
                AND bit_mask (np_bit_width p)))"

definition convert_scalar :: "u64 \<Rightarrow> TypeKind \<Rightarrow> TypeKind \<Rightarrow> ConstantBits" where
  "convert_scalar bits source target =
     (if \<not> is_valid_scalar_bits source bits then Inl ceOutOfRange
      else if source = target then Inr bits
      else if \<not> is_numeric_type source \<or> \<not> is_numeric_type target then Inl ceInvalidOperation
      else if \<not> floating source then
        let v = integer bits source in
        if floating target
        then pack (int_negative v) (natural_of_u64 (int_magnitude v)) (natural_of_u64 1) 0 target False
        else integer_bits v target
      else
        let v = unpack bits source in
        if floating target then
          (if source = tyFloat64 \<and> target = tyFloat32 \<and>
              scaled_compare (fin_magnitude v) (natural_of_u64 0xffffff) (fin_scale v - 104) > 0
           then Inl ceOutOfRange
           else pack (fin_negative v) (fin_magnitude v) (natural_of_u64 1) (fin_scale v) target False)
        else
          let width = int (nat_width (fin_magnitude v)) + fin_scale v in
          if nat_zero (fin_magnitude v) \<or> width \<le> 0 then Inr 0
          else if width > 64 then Inl ceOutOfRange
          else
            let magnitude = nat_low (fin_magnitude v);
                magnitude = (if fin_scale v \<ge> 0 then push_bit (nat (fin_scale v)) magnitude
                             else drop_bit (nat (- fin_scale v)) magnitude) in
            integer_bits \<lparr>int_negative = fin_negative v, int_magnitude = magnitude\<rparr> target)"

text \<open>The decimal digits of an integer literal, accumulated in 64 bits.\<close>

fun literal_magnitude :: "string \<Rightarrow> u64 \<Rightarrow> ConstantBits" where
  "literal_magnitude [] magnitude = Inr magnitude"
| "literal_magnitude (ch # rest) magnitude =
     (if code ch < 48 \<or> code ch > 57 then Inl ceInvalidLiteral
      else
        let digit = of_nat (code ch - 48) in
        if magnitude > (0xFFFFFFFFFFFFFFFF - digit) div 10 then Inl ceOutOfRange
        else literal_magnitude rest (magnitude * 10 + digit))"

definition scalar_literal :: "LiteralKind \<Rightarrow> string \<Rightarrow> TypeKind \<Rightarrow> bool \<Rightarrow> ConstantBits" where
  "scalar_literal literal txt target negative =
     (if txt = [] \<or> length txt > kMaxConstantLiteralBytes then Inl ceInvalidLiteral
      else if literal = lkBoolean \<and> target = tyBool \<and> txt = ''true'' then Inr 1
      else if literal = lkBoolean \<and> target = tyBool \<and> txt = ''false'' then Inr 0
      else if literal = lkCharacter \<and> target = tyChar then
        let decoded = decode_text_literal txt tlCharacter in
        if tl_error decoded \<noteq> tleNone then Inl ceInvalidLiteral
        else Inr (ucast (tl_character decoded))
      else
        let minus = (hd txt = CHR ''-'');
            negative = (if minus then \<not> negative else negative);
            txt = (if minus then tl txt else txt) in
        if txt = [] then Inl ceInvalidLiteral
        else if literal = lkFloat \<and> is_numeric_type target then
          (case decimal_float txt negative (if floating target then target else tyFloat64) of
             Inl e \<Rightarrow> Inl e
           | Inr v \<Rightarrow> if floating target then Inr v else convert_scalar v tyFloat64 target)
        else if literal = lkInteger \<and> is_numeric_type target then
          (case literal_magnitude txt 0 of
             Inl e \<Rightarrow> Inl e
           | Inr magnitude \<Rightarrow>
               if floating target
               then pack negative (natural_of_u64 magnitude) (natural_of_u64 1) 0 target False
               else integer_bits \<lparr>int_negative = negative, int_magnitude = magnitude\<rparr> target)
        else Inl ceInvalidLiteral)"

definition convert_integer_mode ::
  "u64 \<Rightarrow> TypeKind \<Rightarrow> TypeKind \<Rightarrow> IntegerConversionMode \<Rightarrow> ConstantBits" where
  "convert_integer_mode bits source target mode =
     (if \<not> is_valid_integer_bits bits source \<or> \<not> is_integer_type target then Inl ceInvalidOperation
      else
        let v = integer bits source;
            p = the (numeric_type_properties target);
            target_mask = bit_mask (np_bit_width p) in
        if mode = cmWrap then
          Inr ((if int_negative v then 0 - int_magnitude v else int_magnitude v) AND target_mask)
        else if mode \<noteq> cmSat then Inl ceInvalidOperation
        else if np_category p = ncUnsignedInteger then
          (if int_negative v \<and> int_magnitude v \<noteq> 0 then Inr 0
           else Inr (min (int_magnitude v) target_mask))
        else
          let minimum_magnitude = push_bit (np_bit_width p - 1) 1;
              maximum = minimum_magnitude - 1 in
          if \<not> int_negative v then Inr (min (int_magnitude v) maximum)
          else if int_magnitude v \<ge> minimum_magnitude then Inr minimum_magnitude
          else Inr ((0 - int_magnitude v) AND target_mask))"

definition unary_scalar :: "TokenKind \<Rightarrow> TypeKind \<Rightarrow> u64 \<Rightarrow> ConstantBits" where
  "unary_scalar operation type bits =
     (if \<not> is_valid_scalar_bits type bits then Inl ceOutOfRange
      else if operation = kBang \<and> type = tyBool then bool_bits (bits = 0)
      else if operation = kPlus \<and> is_numeric_type type then Inr bits
      else if operation = kTilde \<and> is_integer_type type
      then Inr (NOT bits AND bit_mask (np_bit_width (the (numeric_type_properties type))))
      else if operation = kMinus \<and> floating type then Inr (bits XOR sign_bit type)
      else if operation = kMinus \<and> is_integer_type type then
        let v = integer bits type in
        (case integer_bits (v\<lparr>int_negative := \<not> int_negative v\<rparr>) type of
           Inl _ \<Rightarrow> Inl ceOverflow | Inr r \<Rightarrow> Inr r)
      else Inl ceInvalidOperation)"

text \<open>The signs in front of a literal are applied from the innermost outwards.\<close>

fun apply_signs :: "TokenKind list \<Rightarrow> TypeKind \<Rightarrow> ConstantBits \<Rightarrow> ConstantBits" where
  "apply_signs [] target v = v"
| "apply_signs (sign # signs) target (Inl e) = Inl e"
| "apply_signs (sign # signs) target (Inr v) = apply_signs signs target (unary_scalar sign target v)"

definition scalar_signed_literal :: "LiteralKind \<Rightarrow> string \<Rightarrow> TypeKind \<Rightarrow> TokenKind list \<Rightarrow> ConstantBits" where
  "scalar_signed_literal literal txt target signs =
     apply_signs (rev (if signs \<noteq> [] then take (length signs - 1) signs else signs)) target
       (scalar_literal literal txt target (signs \<noteq> [] \<and> last signs = kMinus))"

text \<open>The part of \<^verbatim>\<open>binary_scalar\<close> for shifts.\<close>

definition shift_scalar :: "TokenKind \<Rightarrow> TypeKind \<Rightarrow> u64 \<Rightarrow> u64 \<Rightarrow> TypeKind \<Rightarrow> ConstantBits" where
  "shift_scalar operation type left right right_type =
     (if \<not> is_integer_type type \<or> \<not> is_integer_type right_type then Inl ceInvalidOperation
      else
        let width = np_bit_width (the (numeric_type_properties type));
            count = integer right right_type in
        if int_negative count \<or> int_magnitude count \<ge> of_nat width then Inl ceInvalidShift
        else
          let shift = unat (int_magnitude count) in
          if operation = kShiftLeft then Inr (push_bit shift left AND bit_mask width)
          else
            let result = drop_bit shift left in
            Inr (if shift \<noteq> 0 \<and> int_negative (integer left type)
                 then result OR (bit_mask width XOR bit_mask (width - shift)) else result))"

text \<open>Its part for addition, subtraction, multiplication, division and remainder.\<close>

definition exact_integer :: "TokenKind \<Rightarrow> nat \<Rightarrow> Integer \<Rightarrow> Integer \<Rightarrow> ConstantError + Integer" where
  "exact_integer operation width a b =
     (let b = (if operation = kMinus then b\<lparr>int_negative := \<not> int_negative b\<rparr> else b) in
      if operation = kPlus \<or> operation = kMinus then
        (if int_negative a = int_negative b then
           if int_magnitude a > 0xFFFFFFFFFFFFFFFF - int_magnitude b then Inl ceOverflow
           else Inr \<lparr>int_negative = int_negative a, int_magnitude = int_magnitude a + int_magnitude b\<rparr>
         else if int_magnitude a < int_magnitude b
         then Inr \<lparr>int_negative = int_negative b, int_magnitude = int_magnitude b - int_magnitude a\<rparr>
         else Inr \<lparr>int_negative = int_negative a, int_magnitude = int_magnitude a - int_magnitude b\<rparr>)
      else if operation = kStar then
        (if int_magnitude b \<noteq> 0 \<and> int_magnitude a > 0xFFFFFFFFFFFFFFFF div int_magnitude b
         then Inl ceOverflow
         else Inr \<lparr>int_negative = (int_negative a \<noteq> int_negative b),
                   int_magnitude = int_magnitude a * int_magnitude b\<rparr>)
      else if operation = kSlash \<or> operation = kPercent then
        (if int_magnitude b = 0 then Inl ceZeroDivisor
         else if int_negative a \<and> int_magnitude a = push_bit (width - 1) 1 \<and> int_negative b \<and>
                 int_magnitude b = 1 then Inl ceOverflow
         else if operation = kSlash
         then Inr \<lparr>int_negative = (int_negative a \<noteq> int_negative b),
                   int_magnitude = int_magnitude a div int_magnitude b\<rparr>
         else Inr \<lparr>int_negative = int_negative a,
                   int_magnitude = int_magnitude a mod int_magnitude b\<rparr>)
      else Inl ceInvalidOperation)"

definition binary_scalar :: "TokenKind \<Rightarrow> TypeKind \<Rightarrow> u64 \<Rightarrow> u64 \<Rightarrow> TypeKind \<Rightarrow> ConstantBits" where
  "binary_scalar operation type left right right_type =
     (if \<not> is_valid_scalar_bits type left \<or> \<not> is_valid_scalar_bits right_type right
      then Inl ceOutOfRange
      else if operation = kShiftLeft \<or> operation = kShiftRight
      then shift_scalar operation type left right right_type
      else if type \<noteq> right_type then Inl ceInvalidOperation
      else if floating type then float_binary operation type left right
      else if type = tyBool \<and> operation = kAmpersandAmpersand
      then bool_bits (left \<noteq> 0 \<and> right \<noteq> 0)
      else if type = tyBool \<and> operation = kPipePipe then bool_bits (left \<noteq> 0 \<or> right \<noteq> 0)
      else if is_comparison operation then
        let order = (if left < right then -1 else if left > right then 1 else 0 :: int);
            order = (if is_integer_type type \<and>
                        int_negative (integer left type) \<noteq> int_negative (integer right type)
                     then (if int_negative (integer left type) then -1 else 1) else order) in
        if \<not> is_numeric_type type \<and> operation \<noteq> kEqualEqual \<and> operation \<noteq> kBangEqual
        then Inl ceInvalidOperation
        else bool_bits (comparison operation order)
      else if \<not> is_integer_type type then Inl ceInvalidOperation
      else if operation = kAmpersand then Inr (left AND right)
      else if operation = kPipe then Inr (left OR right)
      else if operation = kCaret then Inr (left XOR right)
      else
        case exact_integer operation (np_bit_width (the (numeric_type_properties type)))
               (integer left type) (integer right type) of
          Inl e \<Rightarrow> Inl e
        | Inr v \<Rightarrow> (case integer_bits v type of Inl _ \<Rightarrow> Inl ceOverflow | Inr r \<Rightarrow> Inr r))"

definition scalar_integer_decimal :: "TypeKind \<Rightarrow> u64 \<Rightarrow> string" where
  "scalar_integer_decimal type bits =
     (case numeric_type_properties type of
        None \<Rightarrow> []
      | Some p \<Rightarrow>
          if \<not> is_valid_integer_bits bits type then []
          else
            let negative = (np_category p = ncSignedInteger \<and>
                            (bits AND push_bit (np_bit_width p - 1) 1) \<noteq> 0);
                magnitude = (if \<not> negative then bits
                             else if np_bit_width p = 64 then 0 - bits
                             else push_bit (np_bit_width p) 1 - bits) in
            (if negative then ''-'' else []) @ decimal_of_nat (unat magnitude))"

section \<open>Integers\<close>

text \<open>The integer a sign and a magnitude denote.\<close>

definition ival :: "Integer \<Rightarrow> int" where
  "ival v = (if int_negative v then - uint (int_magnitude v) else uint (int_magnitude v))"

lemma bit_mask_integer_mask: "bit_mask w = integer_mask w"
  by (simp add: bit_mask_def integer_mask_def)

lemma width_props [simp]:
  assumes "is_integer_type t"
  shows "np_bit_width (the (numeric_type_properties t)) = type_width t"
    "np_category (the (numeric_type_properties t)) = ncSignedInteger \<longleftrightarrow> type_signed t"
    "np_category (the (numeric_type_properties t)) = ncUnsignedInteger \<longleftrightarrow> \<not> type_signed t"
  using width_cases(2) [OF assms] by simp_all

lemma uint_half: "0 < w \<Longrightarrow> w \<le> 64 \<Longrightarrow> uint (push_bit (w - 1) 1 :: u64) = 2 ^ (w - 1)"
proof -
  assume "0 < w" "w \<le> 64"
  then have "(2::nat) ^ (w - 1) < 2 ^ 64" by (intro power_strict_increasing) simp_all
  then have "unat (push_bit (w - 1) 1 :: u64) = 2 ^ (w - 1)"
    by (simp only: unat_push_bit unat_1 mult_1) simp
  then show ?thesis by (simp only: uint_nat of_nat_power of_nat_numeral)
qed

lemma integer_correct:
  assumes "is_valid_integer_bits b t"
  shows "ival (integer b t) = int_value t b" "int_negative (integer b t) \<longleftrightarrow> int_value t b < 0"
proof -
  have t: "is_integer_type t" "uint b < 2 ^ type_width t" using assms by (simp_all add: valid_bits_iff)
  note w = width_bounds [OF t(1)] width_cases(1) [OF t(1)]
  have neg: "int_negative (integer b t) \<longleftrightarrow> type_signed t \<and> 2 ^ (type_width t - 1) \<le> uint b"
    using sign_bit_test [OF t(2) w(1,2)] t(1) by (simp add: integer_def Let_def)
  have "int_value t b < 0 \<longleftrightarrow> type_signed t \<and> 2 ^ (type_width t - 1) \<le> uint b"
    using t(2) by (simp add: int_value_def)
  then show n: "int_negative (integer b t) \<longleftrightarrow> int_value t b < 0" using neg by simp
  show "ival (integer b t) = int_value t b"
  proof (cases "int_negative (integer b t)")
    case True
    then have "int_magnitude (integer b t) = (0 - b) AND integer_mask (type_width t)"
      using t(1) by (simp add: integer_def Let_def bit_mask_integer_mask)
    then have m: "uint (int_magnitude (integer b t)) = uint (0 - b) mod 2 ^ type_width t"
      using uint_and_integer_mask [OF w(5)] by simp
    have "uint (0 - b) = (- uint b) mod 2 ^ 64" by (simp add: uint_word_ariths)
    then have "uint (int_magnitude (integer b t)) = (- uint b) mod 2 ^ type_width t"
      using m mod_64_width [OF t(1)] by simp
    also have "\<dots> = (2 ^ type_width t - uint b) mod 2 ^ type_width t" by (simp add: mod_diff_left_eq)
    also have "\<dots> = 2 ^ type_width t - uint b"
    proof (rule mod_pos_pos_trivial)
      have "(0::int) < 2 ^ (type_width t - 1)" by simp
      then show "2 ^ type_width t - uint b < 2 ^ type_width t" using True neg by linarith
    qed (use t(2) in simp)
    finally show ?thesis using True neg by (simp add: ival_def int_value_def)
  next
    case False
    then have "int_magnitude (integer b t) = b" by (auto simp: integer_def Let_def)
    then show ?thesis using False neg by (auto simp: ival_def int_value_def)
  qed
qed

lemma uint_maximum:
  assumes "is_integer_type t"
  shows "uint (if type_signed t then push_bit (type_width t - 1) 1 - (if n then 0 else 1)
      else integer_mask (type_width t) :: u64) = (if type_signed t \<and> n then - type_min t else type_max t)"
proof -
  note w = width_bounds [OF assms] width_cases(1) [OF assms]
  have h: "uint (push_bit (type_width t - 1) 1 :: u64) = 2 ^ (type_width t - 1)"
    using uint_half [OF w(1,2)] .
  have "(1 :: u64) \<le> push_bit (type_width t - 1) 1" by (simp only: word_le_def h uint_1) simp
  then have "uint (push_bit (type_width t - 1) 1 - 1 :: u64) = 2 ^ (type_width t - 1) - 1"
    by (simp only: uint_sub_lem [THEN iffD1] word_le_def h uint_1)
  then show ?thesis using h uint_integer_mask [OF w(5)] by (simp add: type_min_def type_max_def)
qed

lemma integer_bits_correct:
  assumes t: "is_integer_type t"
  shows "integer_bits v t = (if type_min t \<le> ival v \<and> ival v \<le> type_max t
     then Inr (pattern t (ival v)) else Inl ceOutOfRange)"
proof -
  define m where "m = uint (int_magnitude v)"
  have m0: "0 \<le> m" by (simp add: m_def)
  have zero: "int_magnitude v = 0 \<longleftrightarrow> m = 0" by (simp add: m_def word_uint_eq_iff)
  have min: "type_min t \<le> 0" "type_signed t \<Longrightarrow> type_max t = - type_min t - 1"
      "\<not> type_signed t \<Longrightarrow> type_min t = 0" "0 \<le> type_max t"
    by (simp_all add: type_min_def type_max_def)
  let ?max = "if type_signed t then push_bit (type_width t - 1) 1 - (if int_negative v then 0 else 1)
      else integer_mask (type_width t) :: u64"
  have "(\<not> type_signed t \<and> int_negative v \<and> int_magnitude v \<noteq> 0) \<or> int_magnitude v > ?max \<longleftrightarrow>
      \<not> (type_min t \<le> ival v \<and> ival v \<le> type_max t)"
    using m0 min unfolding word_less_def uint_maximum [OF t] zero m_def [symmetric] ival_def by auto
  moreover have "(if int_negative v then 0 - int_magnitude v else int_magnitude v) = word_of_int (ival v)"
    by (simp add: ival_def)
  ultimately show ?thesis
    using t by (simp only: integer_bits_def Let_def width_props bit_mask_integer_mask
        word_mask_pattern [OF t]) (auto split: if_splits)
qed

lemma ival_zero: "int_magnitude v = 0 \<longleftrightarrow> ival v = 0"
  by (auto simp: ival_def word_uint_eq_iff)

lemma ival_abs: "uint (int_magnitude v) = \<bar>ival v\<bar>"
  by (simp add: ival_def)

lemma ival_less_64: "\<bar>ival v\<bar> < 2 ^ 64"
  using uint_lt2p [of "int_magnitude v"] by (simp add: ival_def)

lemma int_type_bounds:
  assumes "is_integer_type t" shows "- (2 ^ 64) < type_min t" "type_max t < 2 ^ 64"
  using width_bounds [OF assms] by (auto simp: type_min_def type_max_def)

text \<open>The exact results of the five arithmetic operators; division truncates.\<close>

definition exact_result :: "TokenKind \<Rightarrow> int \<Rightarrow> int \<Rightarrow> int" where
  "exact_result operation x y =
     (if operation = kPlus then x + y
      else if operation = kMinus then x - y
      else if operation = kStar then x * y
      else if operation = kSlash then x sdiv y
      else x smod y)"

definition arithmetic_operators :: "TokenKind list" where
  "arithmetic_operators = [kPlus, kMinus, kStar, kSlash, kPercent]"

definition flip_sign :: "Integer \<Rightarrow> Integer" where
  "flip_sign v = v\<lparr>int_negative := \<not> int_negative v\<rparr>"

lemma ival_flip [simp]: "ival (flip_sign v) = - ival v"
  by (simp add: ival_def flip_sign_def)

lemma all_ones: "uint (0xFFFFFFFFFFFFFFFF :: u64) = 2 ^ 64 - 1"
  by simp

lemma uint_sub_le: "b \<le> a \<Longrightarrow> uint (a - b) = uint a - uint b" for a b :: u64
  by (simp only: uint_sub_lem [THEN iffD1] word_le_def)

lemma uint_add_less: "uint a + uint b < 2 ^ 64 \<Longrightarrow> uint (a + b) = uint a + uint b" for a b :: u64
  using uint_add_lem [of a b] by simp

lemma uint_mult_less: "uint a * uint b < 2 ^ 64 \<Longrightarrow> uint (a * b) = uint a * uint b" for a b :: u64
  using uint_mult_lem [of a b] by simp

lemma add_overflow_test:
  "a > 0xFFFFFFFFFFFFFFFF - b \<longleftrightarrow> 2 ^ 64 \<le> uint a + uint b" for a b :: u64
proof -
  have "b \<le> 0xFFFFFFFFFFFFFFFF" using uint_lt2p [of b] by (simp only: word_le_def all_ones) simp
  then show ?thesis by (simp only: word_less_def uint_sub_le all_ones) linarith
qed

lemma le_div_iff_int: "0 < b \<Longrightarrow> a \<le> m div b \<longleftrightarrow> a * b \<le> m" for a b m :: int
proof
  assume b: "0 < b" and "a \<le> m div b"
  then have "a * b \<le> m div b * b" by simp
  also have "\<dots> \<le> m" using b by (simp add: minus_mod_eq_div_mult [symmetric])
  finally show "a * b \<le> m" .
next
  assume b: "0 < b" and "a * b \<le> m"
  then have "a * b div b \<le> m div b" by (intro zdiv_mono1)
  then show "a \<le> m div b" using b by simp
qed

lemma mult_overflow_test:
  "b \<noteq> 0 \<Longrightarrow> a > 0xFFFFFFFFFFFFFFFF div b \<longleftrightarrow> 2 ^ 64 \<le> uint a * uint b" for a b :: u64
proof -
  assume "b \<noteq> 0"
  then have b: "0 < uint b" by (simp add: word_neq_0_conv word_less_def)
  have "(2 ^ 64 - 1) div uint b < uint a \<longleftrightarrow> \<not> uint a \<le> (2 ^ 64 - 1) div uint b" by linarith
  also have "\<dots> \<longleftrightarrow> \<not> uint a * uint b \<le> 2 ^ 64 - 1" using b by (simp only: le_div_iff_int)
  finally show ?thesis by (simp only: word_less_def uint_div all_ones) linarith
qed

lemma exact_add:
  "case exact_integer kPlus w a b of
      Inl e \<Rightarrow> e = ceOverflow \<and> 2 ^ 64 \<le> \<bar>ival a + ival b\<bar>
    | Inr v \<Rightarrow> ival v = ival a + ival b"
proof (cases "int_negative a = int_negative b")
  case True
  then show ?thesis
    using add_overflow_test [of "int_magnitude b" "int_magnitude a"]
      uint_add_less [of "int_magnitude a" "int_magnitude b"]
    by (auto simp: exact_integer_def ival_def)
next
  case False
  then show ?thesis
    by (auto simp: exact_integer_def ival_def uint_sub_le not_less)
qed

lemma exact_sub: "exact_integer kMinus w a b = exact_integer kPlus w a (flip_sign b)"
  by (simp add: exact_integer_def flip_sign_def)

lemma exact_mult:
  "case exact_integer kStar w a b of
      Inl e \<Rightarrow> e = ceOverflow \<and> 2 ^ 64 \<le> \<bar>ival a * ival b\<bar>
    | Inr v \<Rightarrow> ival v = ival a * ival b"
proof (cases "int_magnitude b = 0")
  case True
  then show ?thesis by (simp add: exact_integer_def ival_def)
next
  case False
  have "\<bar>ival a * ival b\<bar> = uint (int_magnitude a) * uint (int_magnitude b)"
    by (simp add: abs_mult ival_abs)
  then show ?thesis
    using mult_overflow_test [OF False, of "int_magnitude a"]
      uint_mult_less [of "int_magnitude a" "int_magnitude b"] False
    by (auto simp: exact_integer_def ival_def)
qed

lemma exact_div:
  assumes "operation = kSlash \<or> operation = kPercent" "0 < w" "w \<le> 64"
    and "int_negative a \<longleftrightarrow> ival a < 0" "int_negative b \<longleftrightarrow> ival b < 0"
  shows "exact_integer operation w a b = Inl e \<Longrightarrow> ival b = 0 \<and> e = ceZeroDivisor \<or>
      ival a = - (2 ^ (w - 1)) \<and> ival b = -1 \<and> e = ceOverflow"
    and "exact_integer operation w a b = Inr v \<Longrightarrow>
      ival v = exact_result operation (ival a) (ival b) \<and> ival b \<noteq> 0 \<and>
      \<not> (ival a = - (2 ^ (w - 1)) \<and> ival b = -1)"
proof -
  have z: "int_magnitude b = 0 \<longleftrightarrow> ival b = 0" by (rule ival_zero)
  have min: "int_negative a \<and> int_magnitude a = push_bit (w - 1) 1 \<and> int_negative b \<and> int_magnitude b = 1
      \<longleftrightarrow> ival a = - (2 ^ (w - 1)) \<and> ival b = -1"
    using uint_half [OF assms(2,3)] assms(4,5)
    by (simp only: word_uint_eq_iff [of "int_magnitude _"] uint_1) (auto simp: ival_def)
  have eq: "exact_integer operation w a b =
      (if ival b = 0 then Inl ceZeroDivisor
       else if ival a = - (2 ^ (w - 1)) \<and> ival b = -1 then Inl ceOverflow
       else if operation = kSlash
         then Inr \<lparr>int_negative = (int_negative a \<noteq> int_negative b),
                   int_magnitude = int_magnitude a div int_magnitude b\<rparr>
         else Inr \<lparr>int_negative = int_negative a,
                   int_magnitude = int_magnitude a mod int_magnitude b\<rparr>)"
    unfolding exact_integer_def Let_def
    by (rule disjE [OF assms(1)]; hypsubst)
      (simp_all only: TokenKind.inject operator.distinct if_False if_True simp_thms z min refl)
  show "ival b = 0 \<and> e = ceZeroDivisor \<or> ival a = - (2 ^ (w - 1)) \<and> ival b = -1 \<and> e = ceOverflow"
    if "exact_integer operation w a b = Inl e" using that by (auto simp: eq split: if_splits)
  show "ival v = exact_result operation (ival a) (ival b) \<and> ival b \<noteq> 0 \<and>
      \<not> (ival a = - (2 ^ (w - 1)) \<and> ival b = -1)" if "exact_integer operation w a b = Inr v"
  proof -
    have v: "ival b \<noteq> 0" "\<not> (ival a = - (2 ^ (w - 1)) \<and> ival b = -1)" "int_negative v = (if operation = kSlash then int_negative a \<noteq> int_negative b
          else int_negative a)"
        "uint (int_magnitude v) = (if operation = kSlash then \<bar>ival a\<bar> div \<bar>ival b\<bar>
          else \<bar>ival a\<bar> mod \<bar>ival b\<bar>)"
      using that by (auto simp: eq uint_div uint_mod simp flip: ival_abs split: if_splits)
    have iv: "ival v = (if int_negative v then - uint (int_magnitude v) else uint (int_magnitude v))"
      by (simp add: ival_def)
    show ?thesis
      using assms(1) v(1,2) unfolding iv v(3,4) assms(4,5)
      by (auto simp: exact_result_def signed_divide_int_def signed_modulo_int_def sgn_if)
  qed
qed

lemma valid_scalar_integer:
  "is_integer_type t \<Longrightarrow> is_valid_scalar_bits t b \<longleftrightarrow> is_valid_integer_bits b t"
  by (simp add: is_valid_scalar_bits_def)

lemma integer_type_facts:
  "is_integer_type t \<Longrightarrow> \<not> floating t \<and> t \<noteq> tyBool \<and> is_numeric_type t"
  by (cases t) (simp_all add: is_integer_type_def numeric_type_properties_def properties_def
      floating_def is_numeric_type_def)

lemma binary_scalar_arithmetic:
  assumes "is_valid_integer_bits a t" "is_valid_integer_bits b t" "operation \<in> set arithmetic_operators"
  shows "binary_scalar operation t a b t =
    (case exact_integer operation (type_width t) (integer a t) (integer b t) of
       Inl e \<Rightarrow> Inl e
     | Inr v \<Rightarrow> (case integer_bits v t of Inl _ \<Rightarrow> Inl ceOverflow | Inr r \<Rightarrow> Inr r))"
proof -
  have t: "is_integer_type t" using assms(1) by (simp add: valid_bits_iff)
  have "operation = kPlus \<or> operation = kMinus \<or> operation = kStar \<or> operation = kSlash \<or> operation = kPercent"
    using assms(3) by (simp add: arithmetic_operators_def)
  then show ?thesis
    using assms(1,2) t integer_type_facts [OF t]
    by (elim disjE) (simp_all add: binary_scalar_def valid_scalar_integer is_comparison_def)
qed

lemma exact_integer_outcome:
  assumes w: "0 < w" "w \<le> 64" and op: "operation \<in> set arithmetic_operators"
    and neg: "int_negative a \<longleftrightarrow> ival a < 0" "int_negative b \<longleftrightarrow> ival b < 0"
  shows "case exact_integer operation w a b of
      Inl e \<Rightarrow>
        (operation \<in> {kSlash, kPercent} \<and> ival b = 0 \<and> e = ceZeroDivisor) \<or>
        (operation \<in> {kSlash, kPercent} \<and> ival a = - (2 ^ (w - 1)) \<and> ival b = -1 \<and> e = ceOverflow) \<or>
        (operation \<notin> {kSlash, kPercent} \<and> 2 ^ 64 \<le> \<bar>exact_result operation (ival a) (ival b)\<bar> \<and>
         e = ceOverflow)
    | Inr v \<Rightarrow> ival v = exact_result operation (ival a) (ival b) \<and>
        \<not> (operation \<in> {kSlash, kPercent} \<and>
           (ival b = 0 \<or> ival a = - (2 ^ (w - 1)) \<and> ival b = -1))"
proof -
  consider "operation = kPlus" | "operation = kMinus" | "operation = kStar"
    | "operation = kSlash \<or> operation = kPercent"
    using op by (auto simp: arithmetic_operators_def)
  then show ?thesis
  proof cases
    case 1
    then show ?thesis using exact_add [where w = w and a = a and b = b] by (auto simp: exact_result_def split: sum.splits)
  next
    case 2
    then show ?thesis using exact_add [where w = w and a = a and b = "flip_sign b"]
      by (auto simp: exact_result_def exact_sub split: sum.splits)
  next
    case 3
    then show ?thesis using exact_mult [where w = w and a = a and b = b] by (auto simp: exact_result_def split: sum.splits)
  next
    case 4
    note d = exact_div [OF 4 w neg]
    show ?thesis
    proof (cases "exact_integer operation w a b")
      case (Inl e)
      then show ?thesis using d(1) [OF Inl] 4 by auto
    next
      case (Inr v)
      then show ?thesis using d(2) [OF Inr] 4 by auto
    qed
  qed
qed

lemma type_min_signed:
  assumes "is_valid_integer_bits a t" "is_valid_integer_bits b t" "int_value t b = -1"
  shows "type_signed t" "type_min t = - (2 ^ (type_width t - 1))"
  using int_value_range [OF assms(2)] assms(3) by (simp_all add: type_min_def split: if_splits)

text \<open>
  C17: addition, subtraction, multiplication, division and remainder of integer constants are exact.
  A result denotes the mathematical result (division truncates towards zero), whatever the width and
  signedness of the type; a zero divisor is reported exactly for division and remainder by zero; and
  overflow is reported exactly when the mathematical result is not a value of the type, or for the
  remainder of the least value by minus one.
\<close>

theorem binary_scalar_exact:
  assumes "is_valid_integer_bits a t" "is_valid_integer_bits b t" "operation \<in> set arithmetic_operators"
  shows "(let x = int_value t a; y = int_value t b; r = exact_result operation x y;
        by_zero = (operation \<in> {kSlash, kPercent} \<and> y = 0);
        fits = (type_min t \<le> r \<and> r \<le> type_max t \<and>
          \<not> (operation = kPercent \<and> x = type_min t \<and> y = -1)) in
     case binary_scalar operation t a b t of
       Inl e \<Rightarrow> (if by_zero then e = ceZeroDivisor else e = ceOverflow \<and> \<not> fits)
     | Inr v \<Rightarrow> \<not> by_zero \<and> fits \<and> is_valid_integer_bits v t \<and> int_value t v = r)"
proof -
  have t: "is_integer_type t" using assms(1) by (simp add: valid_bits_iff)
  let ?x = "int_value t a" and ?y = "int_value t b"
  define r where "r = exact_result operation ?x ?y"
  note ia = integer_correct [OF assms(1)] and ib = integer_correct [OF assms(2)]
  note out = exact_integer_outcome [OF width_bounds(1,2) [OF t] assms(3), of "integer a t" "integer b t",
      unfolded ia ib r_def [symmetric], OF refl refl]
  have min: "type_signed t" "type_min t = - (2 ^ (type_width t - 1))" if "?y = -1"
    by (rule type_min_signed [OF assms(1,2) that])+
  have quot: "r = - type_min t \<and> \<not> r \<le> type_max t" if "operation = kSlash" "?x = type_min t" "?y = -1"
    using that min by (auto simp: r_def exact_result_def type_max_def)
  show ?thesis
  proof (cases "exact_integer operation (type_width t) (integer a t) (integer b t)")
    case (Inl e)
    then have "binary_scalar operation t a b t = Inl e"
      by (simp add: binary_scalar_arithmetic [OF assms])
    moreover have "\<not> (type_min t \<le> r \<and> r \<le> type_max t)" if "2 ^ 64 \<le> \<bar>r\<bar>"
      using that int_type_bounds [OF t] by linarith
    ultimately show ?thesis using out Inl min quot unfolding Let_def r_def [symmetric] by auto
  next
    case (Inr v)
    then have v: "ival v = r" "\<not> (operation \<in> {kSlash, kPercent} \<and>
        (?y = 0 \<or> ?x = - (2 ^ (type_width t - 1)) \<and> ?y = -1))" using out by auto
    have "binary_scalar operation t a b t =
        (if type_min t \<le> r \<and> r \<le> type_max t then Inr (pattern t r) else Inl ceOverflow)"
      using Inr by (simp add: binary_scalar_arithmetic [OF assms] integer_bits_correct [OF t] v(1))
    then show ?thesis
      using v(2) min pattern_valid [OF t, of r] int_value_pattern [OF t, of r]
      unfolding Let_def r_def [symmetric] by auto
  qed
qed

theorem binary_scalar_exact_witness:
  "is_valid_integer_bits 0x80 tyInt8 \<and> is_valid_integer_bits 0xFF tyInt8 \<and>
   binary_scalar kPercent tyInt8 0x80 0xFF tyInt8 = Inl ceOverflow"
proof -
  have v: "is_valid_integer_bits 0x80 tyInt8" "is_valid_integer_bits 0xFF tyInt8" by code_simp+
  have i: "int_value tyInt8 0x80 = -128" "int_value tyInt8 0xFF = -1" "type_min tyInt8 = -128" by code_simp+
  have "kPercent \<in> set arithmetic_operators" by (simp add: arithmetic_operators_def)
  then show ?thesis using binary_scalar_exact [OF v, of kPercent] v i
    by (auto simp: Let_def split: sum.splits)
qed

section \<open>Shifts and comparisons\<close>

lemma mask_difference:
  "s \<le> w \<Longrightarrow> mask w XOR mask (w - s) = (push_bit (w - s) (mask s) :: u64)"
  by (rule bit_word_eqI) (auto simp: bit_simps)

lemma unat_mask_difference:
  assumes "s \<le> w" "w \<le> 64"
  shows "unat (push_bit (w - s) (mask s) :: u64) = (2 ^ s - 1) * 2 ^ (w - s)"
proof -
  have m: "unat (mask s :: u64) = 2 ^ s - 1"
  proof -
    have "uint (mask s :: u64) = 2 ^ s - 1" 
      using assms by (simp only: uint_mask_eq) (simp add: mask_eq_exp_minus_1)
    then have "int (unat (mask s :: u64)) = int (2 ^ s - 1)" by (simp add: of_nat_diff)
    then show ?thesis by (simp only: of_nat_eq_iff)
  qed
  have "(2 ^ s - 1) * 2 ^ (w - s) < 2 ^ s * (2::nat) ^ (w - s)" by (intro mult_strict_right_mono) simp_all
  also have "\<dots> = 2 ^ w" using assms by (simp flip: power_add)
  also have "\<dots> \<le> (2::nat) ^ 64" using assms by (intro power_increasing) simp_all
  finally have "(2 ^ s - 1) * 2 ^ (w - s) < (2::nat) ^ LENGTH(64)" by simp
  then show ?thesis unfolding unat_push_bit m by simp
qed

lemma arithmetic_shift_right:
  assumes "0 < s" "s < w" "w \<le> 64" "uint b < 2 ^ w" "2 ^ (w - 1) \<le> uint b"
  shows "uint (drop_bit s b OR (bit_mask w XOR bit_mask (w - s))) = (uint b - 2 ^ w) div 2 ^ s + 2 ^ w"
proof -
  have b: "unat b < 2 ^ w"
  proof -
    have "int (unat b) < int (2 ^ w)" using assms(4) by (simp only: uint_nat of_nat_power of_nat_numeral)
    then show ?thesis by (simp only: of_nat_less_iff)
  qed
  have w: "2 ^ w = 2 ^ s * (2::nat) ^ (w - s)" "2 ^ w = 2 ^ s * (2::int) ^ (w - s)"
    using assms(2) by (simp_all flip: power_add)
  have "unat b div 2 ^ s < 2 ^ (w - s)" using b unfolding w(1) by (simp add: less_mult_imp_div_less mult.commute)
  then have "unat (push_bit (w - s) (mask s) OR drop_bit s b) = (2 ^ s - 1) * 2 ^ (w - s) + unat b div 2 ^ s"
    using assms by (subst unat_or_low_bits [where n = "w - s"]) (simp_all add: unat_mask_difference unat_drop_bit)
  then have "unat (drop_bit s b OR (bit_mask w XOR bit_mask (w - s))) =
      (2 ^ s - 1) * 2 ^ (w - s) + unat b div 2 ^ s"
    using assms by (simp add: bit_mask_is_mask mask_difference or.commute)
  then have "uint (drop_bit s b OR (bit_mask w XOR bit_mask (w - s))) =
      int ((2 ^ s - 1) * 2 ^ (w - s) + unat b div 2 ^ s)" by (simp only: uint_nat)
  also have "\<dots> = (2 ^ s - 1) * 2 ^ (w - s) + uint b div 2 ^ s"
    by (simp add: of_nat_diff zdiv_int)
  also have "\<dots> = (uint b - 2 ^ w) div 2 ^ s + 2 ^ w"
  proof -
    have "(uint b - 2 ^ w) div 2 ^ s = uint b div 2 ^ s - 2 ^ (w - s)"
      using div_mult_self2 [of "(2::int) ^ s" "uint b" "- (2 ^ (w - s))"] unfolding w(2) by simp
    then show ?thesis unfolding w(2) by (simp add: algebra_simps)
  qed
  finally show ?thesis .
qed

lemma shift_count:
  assumes "is_valid_integer_bits b t" "w \<in> {8, 16, 32, 64}"
  shows "int_negative (integer b t) \<or> int_magnitude (integer b t) \<ge> of_nat w \<longleftrightarrow>
      \<not> (0 \<le> int_value t b \<and> int_value t b < int w)"
    and "0 \<le> int_value t b \<Longrightarrow> int (unat (int_magnitude (integer b t))) = int_value t b"
proof -
  note i = integer_correct [OF assms(1)]
  have m: "uint (int_magnitude (integer b t)) = int_value t b" if "0 \<le> int_value t b"
    using that i by (simp add: ival_def split: if_splits)
  have "uint (of_nat w :: u64) = int w" using assms(2) by auto
  then show "int_negative (integer b t) \<or> int_magnitude (integer b t) \<ge> of_nat w \<longleftrightarrow>
      \<not> (0 \<le> int_value t b \<and> int_value t b < int w)"
    unfolding i(2) word_le_def using m by (cases "int_value t b < 0") auto
  show "int (unat (int_magnitude (integer b t))) = int_value t b" if "0 \<le> int_value t b"
    using m [OF that] by (simp only: uint_nat)
qed

lemma uint_drop_bit: "uint (drop_bit n b) = uint b div 2 ^ n" for b :: u64
  by (simp only: uint_nat unat_drop_bit zdiv_int of_nat_power of_nat_numeral)

lemma shift_right_value:
  assumes v: "is_valid_integer_bits a t" and n: "n < type_width t"
  defines "r \<equiv> (if n \<noteq> 0 \<and> int_negative (integer a t)
      then drop_bit n a OR (bit_mask (type_width t) XOR bit_mask (type_width t - n)) else drop_bit n a)"
  shows "is_valid_integer_bits r t" "int_value t r = int_value t a div 2 ^ n"
proof -
  have t: "is_integer_type t" "uint a < 2 ^ type_width t" using v by (simp_all add: valid_bits_iff)
  note w = width_bounds [OF t(1)]
  define h :: int where "h = 2 ^ (type_width t - 1)"
  have h: "0 < h" "(2::int) ^ type_width t = 2 * h" using w(3) by (simp_all add: h_def)
  have iv: "int_value t b = (if type_signed t \<and> h \<le> uint b then uint b - 2 * h else uint b)" for b
    by (simp only: int_value_def h(2) flip: h_def)
  have neg: "int_negative (integer a t) \<longleftrightarrow> type_signed t \<and> h \<le> uint a"
    using integer_correct(2) [OF v] t(2) h by (auto simp: iv)
  have "uint r < 2 * h \<and> int_value t r = int_value t a div 2 ^ n"
  proof (cases "n \<noteq> 0 \<and> int_negative (integer a t)")
    case True
    then have "uint r = (uint a - 2 ^ type_width t) div 2 ^ n + 2 ^ type_width t"
      using arithmetic_shift_right [OF _ n w(2) t(2)] neg unfolding h_def by (simp add: r_def)
    then have r: "uint r = (uint a - 2 * h) div 2 ^ n + 2 * h" by (simp only: h(2))
    have x: "int_value t a = uint a - 2 * h" using True neg by (simp add: iv)
    have up: "(uint a - 2 * h) div 2 ^ n < 0"
      using t(2) h(2) by (intro div_neg_pos_less0) simp_all
    have "(1::int) \<le> 2 ^ n" by simp
    then have "- h * 2 ^ n \<le> - h" using h(1) mult_left_mono [of 1 "2 ^ n" h] by simp
    then have "- h * 2 ^ n \<le> uint a - 2 * h" using True neg by linarith
    then have "- h \<le> (uint a - 2 * h) div 2 ^ n" by (subst le_div_iff_int) simp_all
    then show ?thesis using True neg r x up by (simp add: iv)
  next
    case False
    then have "r = drop_bit n a" unfolding r_def by (rule if_not_P)
    then have r: "uint r = uint a div 2 ^ n" by (simp only: uint_drop_bit)
    moreover have "uint a div 2 ^ n \<le> uint a"
      using zdiv_mono2 [of "uint a" 1 "2 ^ n"] by simp
    moreover have "uint a < 2 * h" using t(2) h(2) by simp
    moreover have "n \<noteq> 0 \<Longrightarrow> \<not> (type_signed t \<and> h \<le> uint a)" using False neg by blast
    ultimately show ?thesis by (cases "n = 0") (auto simp: iv)
  qed
  then show "is_valid_integer_bits r t" "int_value t r = int_value t a div 2 ^ n"
    using t(1) h by (simp_all add: valid_bits_iff)
qed

lemma shift_right_pattern:
  assumes "is_valid_integer_bits a t" and "n < type_width t"
  shows "(if n \<noteq> 0 \<and> int_negative (integer a t)
      then drop_bit n a OR (bit_mask (type_width t) XOR bit_mask (type_width t - n)) else drop_bit n a) =
      pattern t (int_value t a div 2 ^ n)"
  unfolding shift_right_value(2) [OF assms, symmetric]
  by (rule pattern_int_value [OF shift_right_value(1) [OF assms], symmetric])

lemma binary_scalar_shift:
  assumes a: "is_valid_integer_bits a t" and b: "is_valid_integer_bits b u"
    and op: "operation = kShiftLeft \<or> operation = kShiftRight"
  shows "binary_scalar operation t a b u =
    (let n = int_value u b in
     if \<not> (0 \<le> n \<and> n < int (type_width t)) then Inl ceInvalidShift
     else if operation = kShiftLeft then Inr (pattern t (int_value t a * 2 ^ nat n))
     else Inr (pattern t (int_value t a div 2 ^ nat n)))"
proof -
  have t: "is_integer_type t" and u: "is_integer_type u" using a b by (simp_all add: valid_bits_iff)
  note w = width_cases(1) [OF t] and count = shift_count [OF b width_cases(1) [OF t]]
  have e: "binary_scalar operation t a b u = shift_scalar operation t a b u"
    using op a b t u by (auto simp: binary_scalar_def valid_scalar_integer)
  show ?thesis
  proof (cases "0 \<le> int_value u b \<and> int_value u b < int (type_width t)")
    case True
    define n where "n = unat (int_magnitude (integer b u))"
    have n: "int_value u b = int n" "n < type_width t"
      using count(2) True unfolding n_def by linarith+
    have s: "shift_scalar operation t a b u =
        (if operation = kShiftLeft then Inr (push_bit n a AND bit_mask (type_width t))
         else Inr (if n \<noteq> 0 \<and> int_negative (integer a t)
           then drop_bit n a OR (bit_mask (type_width t) XOR bit_mask (type_width t - n)) else drop_bit n a))"
      using True t u count(1) by (simp add: shift_scalar_def Let_def n_def)
    have "push_bit n a = word_of_int (uint a * 2 ^ n)" by (simp add: push_bit_eq_mult)
    then have "push_bit n a AND bit_mask (type_width t) = pattern t (uint a * 2 ^ n)"
      by (simp only: bit_mask_integer_mask word_mask_pattern [OF t])
    moreover have "pattern t (uint a * 2 ^ n) = pattern t (int_value t a * 2 ^ n)"
      unfolding pattern_def by (metis int_value_mod mod_mult_left_eq)
    moreover note shift_right_pattern [OF a n(2)]
    ultimately show ?thesis using True unfolding e s n(1) Let_def by simp
  next
    case False
    then show ?thesis using t u count(1) by (auto simp: e shift_scalar_def Let_def)
  qed
qed

lemma binary_scalar_compare:
  assumes a: "is_valid_integer_bits a t" and b: "is_valid_integer_bits b t" and op: "is_comparison operation"
  shows "binary_scalar operation t a b t = bool_bits (comparison operation (sgn (int_value t a - int_value t b)))"
proof -
  have t: "is_integer_type t" using a by (simp add: valid_bits_iff)
  note i = integer_correct(2) [OF a] integer_correct(2) [OF b]
  define order :: int where "order = (if int_negative (integer a t) \<noteq> int_negative (integer b t)
     then (if int_negative (integer a t) then -1 else 1)
     else if a < b then -1 else if a > b then 1 else 0)"
  have "binary_scalar operation t a b t = bool_bits (comparison operation order)"
    using op a b t integer_type_facts [OF t] unfolding is_comparison_def
    by (elim disjE) (simp_all add: binary_scalar_def valid_scalar_integer is_comparison_def order_def)
  moreover have "order = sgn (int_value t a - int_value t b)"
  proof (cases "int_value t a < 0 \<longleftrightarrow> int_value t b < 0")
    case True
    have "uint a < 2 ^ type_width t" "uint b < 2 ^ type_width t" using a b by (simp_all add: valid_bits_iff)
    then have "int_value t a - int_value t b = uint a - uint b"
      using True by (auto simp: int_value_def split: if_splits)
    then show ?thesis using True i by (auto simp: order_def word_less_def sgn_if)
  next
    case False
    then show ?thesis using i by (auto simp: order_def sgn_if)
  qed
  ultimately show ?thesis by simp
qed

text \<open>
  C18: shifts and comparisons of integer constants have their mathematical meaning: a shift count
  outside the width of the left operand is reported; a left shift is the product with a power of two
  reduced to the type, a right shift the floor of the quotient (so it keeps the sign); and the
  comparison operators order patterns by the integers they denote, not by their bits.
\<close>

theorem binary_scalar_shift_compare:
  assumes "is_valid_integer_bits a t" "is_valid_integer_bits b u" "is_valid_integer_bits c t"
  shows "(let n = int_value u b in
     if \<not> (0 \<le> n \<and> n < int (type_width t)) then
       binary_scalar kShiftLeft t a b u = Inl ceInvalidShift \<and>
       binary_scalar kShiftRight t a b u = Inl ceInvalidShift
     else
       binary_scalar kShiftLeft t a b u = Inr (pattern t (int_value t a * 2 ^ nat n)) \<and>
       (case binary_scalar kShiftRight t a b u of Inl _ \<Rightarrow> False
        | Inr r \<Rightarrow> is_valid_integer_bits r t \<and> int_value t r = \<lfloor>real_of_int (int_value t a) / 2 ^ nat n\<rfloor>)) \<and>
    binary_scalar kLess t a c t = bool_bits (int_value t a < int_value t c) \<and>
    binary_scalar kLessEqual t a c t = bool_bits (int_value t a \<le> int_value t c) \<and>
    binary_scalar kGreater t a c t = bool_bits (int_value t a > int_value t c) \<and>
    binary_scalar kGreaterEqual t a c t = bool_bits (int_value t a \<ge> int_value t c) \<and>
    binary_scalar kEqualEqual t a c t = bool_bits (int_value t a = int_value t c) \<and>
    binary_scalar kBangEqual t a c t = bool_bits (int_value t a \<noteq> int_value t c)"
  (is "?shift \<and> _")
proof -
  have t: "is_integer_type t" using assms(1) by (simp add: valid_bits_iff)
  have floor: "int_value t a div 2 ^ n = \<lfloor>real_of_int (int_value t a) / 2 ^ n\<rfloor>" for n
    by (subst floor_divide_of_int_eq [symmetric]) simp
  have "type_min t \<le> int_value t a div 2 ^ n \<and> int_value t a div 2 ^ n \<le> type_max t"
    if "n < type_width t" for n
    using shift_right_value [OF assms(1) that] int_value_range [of _ t] by metis
  then have ?shift
    using pattern_valid [OF t] int_value_pattern [OF t]
    by (simp add: Let_def binary_scalar_shift [OF assms(1,2)] floor [symmetric] nat_less_iff)
  then show ?thesis
    by (simp add: binary_scalar_compare [OF assms(1,3)] is_comparison_def comparison_def sgn_if)
qed

theorem binary_scalar_shift_compare_witness:
  "is_valid_integer_bits 0x80 tyInt8 \<and> int_value tyInt8 0x80 = -128 \<and> int_value tyUint8 3 = 3 \<and>
   (case binary_scalar kShiftRight tyInt8 0x80 3 tyUint8 of Inl _ \<Rightarrow> False
    | Inr r \<Rightarrow> int_value tyInt8 r = -16) \<and>
   binary_scalar kLess tyInt8 0x80 1 tyInt8 = Inr 1"
proof -
  have v: "is_valid_integer_bits 0x80 tyInt8" "is_valid_integer_bits 3 tyUint8" "is_valid_integer_bits 1 tyInt8"
    by code_simp+
  have i: "int_value tyInt8 0x80 = -128" "int_value tyUint8 3 = 3" "int_value tyInt8 1 = 1" "type_width tyInt8 = 8"
    by code_simp+
  show ?thesis using binary_scalar_shift_compare [OF v] v i
    by (simp add: bool_bits_def split: sum.splits)
qed

section \<open>Unary operators, conversions and decimal text\<close>

lemma signed_word: "(if int_negative v then 0 - int_magnitude v else int_magnitude v) = word_of_int (ival v)"
  by (simp add: ival_def)

lemma numeric_not_floating: "is_integer_type t \<Longrightarrow> \<not> floating t" "is_integer_type t \<Longrightarrow> is_numeric_type t"
  using integer_type_facts by blast+

lemma pattern_negative: "is_integer_type t \<Longrightarrow> type_signed t \<Longrightarrow> pattern t (type_min t) = push_bit (type_width t - 1) 1"
proof -
  assume t: "is_integer_type t" "type_signed t"
  note w = width_bounds [OF t(1)]
  have "type_min t mod 2 ^ type_width t = 2 ^ (type_width t - 1)"
  proof -
    have "type_min t mod 2 ^ type_width t = (type_min t + 2 ^ type_width t) mod 2 ^ type_width t" by simp
    also have "\<dots> = 2 ^ (type_width t - 1) mod 2 ^ type_width t" using t(2) w(3) by (simp add: type_min_def)
    also have "\<dots> = 2 ^ (type_width t - 1)" using w by (intro mod_pos_pos_trivial) simp_all
    finally show ?thesis .
  qed
  then have "uint (pattern t (type_min t)) = uint (push_bit (type_width t - 1) 1 :: u64)"
    using uint_pattern [OF t(1)] uint_half [OF w(1,2)] by simp
  then show ?thesis by (simp only: word_uint_eq_iff)
qed

lemma pattern_small: "is_integer_type t \<Longrightarrow> uint v < 2 ^ type_width t \<Longrightarrow> pattern t (uint v) = v"
  by (simp add: word_uint_eq_iff uint_pattern)

lemma convert_saturate:
  assumes b: "is_valid_integer_bits b s" and t: "is_integer_type t"
  shows "convert_integer_mode b s t cmSat = Inr (pattern t (max (type_min t) (min (type_max t) (int_value s b))))"
proof -
  define v where "v = integer b s"
  define x where "x = int_value s b"
  have i: "ival v = x" "int_negative v \<longleftrightarrow> x < 0" using integer_correct [OF b] by (simp_all add: v_def x_def)
  have m: "uint (int_magnitude v) = \<bar>x\<bar>" using ival_abs [of v] i by simp
  note w = width_bounds [OF t]
  define M :: u64 where "M = (if type_signed t then push_bit (type_width t - 1) 1 - 1 else integer_mask (type_width t))"
  have M: "uint M = type_max t" using uint_maximum [OF t, of False] by (simp only: M_def simp_thms if_False)
  define h :: int where "h = 2 ^ (type_width t - 1)"
  have h1: "1 \<le> h" "(2::int) ^ type_width t = 2 * h" using w(3) by (simp_all add: h_def)
  then have maxw: "type_max t < 2 ^ type_width t" "0 \<le> type_max t"
    unfolding type_max_def h_def [symmetric] h1(2) by auto
  have zero: "int_magnitude v \<noteq> 0 \<longleftrightarrow> x \<noteq> 0" using ival_zero i by simp
  have pos: "min (int_magnitude v) M = pattern t (min (type_max t) x)" if "0 \<le> x"
  proof -
    have "uint (min (int_magnitude v) M) = min (type_max t) x"
      using m M that by (simp add: min_def word_le_def)
    then show ?thesis using pattern_small [OF t, of "min (int_magnitude v) M"] maxw by simp
  qed
  show ?thesis
  proof (cases "type_signed t")
    case False
    then have "convert_integer_mode b s t cmSat =
        (if x < 0 then Inr 0 else Inr (min (int_magnitude v) M))"
      using b t i zero by (auto simp: convert_integer_mode_def bit_mask_integer_mask M_def simp flip: v_def)
    then show ?thesis using False pos maxw by (auto simp: type_min_def pattern_def simp flip: x_def)
  next
    case True
    have h: "uint (push_bit (type_width t - 1) 1 :: u64) = - type_min t"
      using uint_half [OF w(1,2)] True by (simp add: type_min_def)
    have "int_magnitude v \<ge> push_bit (type_width t - 1) 1 \<longleftrightarrow> x \<le> type_min t" if "x < 0"
      unfolding word_le_def h m using that by linarith
    moreover have "(0 - int_magnitude v) AND bit_mask (type_width t) = pattern t x" if "x < 0"
      using signed_word [of v] i that word_mask_pattern [OF t, of x] by (simp add: bit_mask_integer_mask)
    ultimately have "convert_integer_mode b s t cmSat =
        (if 0 \<le> x then Inr (min (int_magnitude v) M)
         else if x \<le> type_min t then Inr (pattern t (type_min t)) else Inr (pattern t x))"
      unfolding pattern_negative [OF t True] using b t i True
      by (simp add: convert_integer_mode_def Let_def M_def not_le not_less flip: v_def)
    moreover have "type_min t \<le> 0" by (simp add: type_min_def)
    ultimately show ?thesis using pos maxw unfolding x_def [symmetric] by (auto simp: min_def max_def)
  qed
qed

lemma convert_wrap:
  assumes b: "is_valid_integer_bits b s" and t: "is_integer_type t"
  shows "convert_integer_mode b s t cmWrap = Inr (pattern t (int_value s b))"
  using b t integer_correct [OF b] word_mask_pattern [OF t]
  by (simp only: convert_integer_mode_def Let_def signed_word width_props bit_mask_integer_mask) simp

lemma convert_exact:
  assumes b: "is_valid_integer_bits b s" and t: "is_integer_type t"
  shows "convert_scalar b s t = (if type_min t \<le> int_value s b \<and> int_value s b \<le> type_max t
     then Inr (pattern t (int_value s b)) else Inl ceOutOfRange)"
proof -
  have s: "is_integer_type s" using b by (simp add: valid_bits_iff)
  show ?thesis
  proof (cases "s = t")
    case True
    then show ?thesis using b s int_value_range [OF b] pattern_int_value [OF b]
      by (simp add: convert_scalar_def valid_scalar_integer)
  next
    case False
    then show ?thesis using b s t integer_correct [OF b] integer_bits_correct [OF t]
      by (simp add: convert_scalar_def valid_scalar_integer numeric_not_floating)
  qed
qed

lemma unary_minus:
  assumes b: "is_valid_integer_bits b t"
  shows "unary_scalar kMinus t b = (if type_min t \<le> - int_value t b \<and> - int_value t b \<le> type_max t
     then Inr (pattern t (- int_value t b)) else Inl ceOverflow)"
proof -
  have t: "is_integer_type t" using b by (simp add: valid_bits_iff)
  show ?thesis
    using b t integer_correct [OF b] integer_bits_correct [OF t, of "flip_sign (integer b t)"]
    by (simp add: unary_scalar_def valid_scalar_integer numeric_not_floating flip_sign_def [symmetric])
qed

lemma unary_complement:
  assumes b: "is_valid_integer_bits b t"
  shows "unary_scalar kTilde t b = Inr (pattern t (- int_value t b - 1))"
proof -
  have t: "is_integer_type t" using b by (simp add: valid_bits_iff)
  have "NOT b = word_of_int (- uint b - 1)" by (simp add: not_eq_complement)
  then have "NOT b AND bit_mask (type_width t) = pattern t (- uint b - 1)"
    by (simp only: bit_mask_integer_mask word_mask_pattern [OF t])
  moreover have "pattern t (- uint b - 1) = pattern t (- int_value t b - 1)"
    unfolding pattern_def by (metis int_value_mod mod_diff_left_eq mod_minus_eq)
  ultimately show ?thesis using b t by (simp add: unary_scalar_def valid_scalar_integer)
qed

lemma u64_digit: "c \<in> set s \<Longrightarrow> list_all (\<lambda>c. 48 \<le> code c \<and> code c \<le> 57) s \<Longrightarrow> 48 \<le> code c \<and> code c \<le> 57"
  by (simp add: list_all_iff)

lemma literal_magnitude_step:
  fixes m d :: u64
  assumes "unat d < 10"
  shows "m > (0xFFFFFFFFFFFFFFFF - d) div 10 \<longleftrightarrow> 2 ^ 64 \<le> unat m * 10 + unat d"
    and "unat m * 10 + unat d < 2 ^ 64 \<Longrightarrow> unat (m * 10 + d) = unat m * 10 + unat d"
proof -
  have d: "uint d < 10" unfolding uint_nat using assms by linarith
  have le: "d \<le> 0xFFFFFFFFFFFFFFFF" unfolding word_le_def all_ones using d by simp
  have ten: "uint (10 :: u64) = 10" by simp
  have "m > (0xFFFFFFFFFFFFFFFF - d) div 10 \<longleftrightarrow> (2 ^ 64 - 1 - uint d) div 10 < uint m"
    by (simp only: word_less_def uint_div uint_sub_le [OF le] all_ones ten)
  also have "\<dots> \<longleftrightarrow> \<not> uint m * 10 \<le> 2 ^ 64 - 1 - uint d"
    using le_div_iff_int [of 10 "uint m" "2 ^ 64 - 1 - uint d"] by linarith
  also have "\<dots> \<longleftrightarrow> 2 ^ 64 \<le> uint m * 10 + uint d" by linarith
  also have "\<dots> \<longleftrightarrow> 2 ^ 64 \<le> unat m * 10 + unat d" 
    using of_nat_le_iff [of "2 ^ 64" "unat m * 10 + unat d", where ?'a = int] by simp
  finally show "m > (0xFFFFFFFFFFFFFFFF - d) div 10 \<longleftrightarrow> 2 ^ 64 \<le> unat m * 10 + unat d" .
  show "unat (m * 10 + d) = unat m * 10 + unat d" if "unat m * 10 + unat d < 2 ^ 64"
    using that by (simp add: unat_word_ariths)
qed

lemma literal_magnitude_digits:
  assumes "list_all (\<lambda>c. 48 \<le> code c \<and> code c \<le> 57) s"
  shows "literal_magnitude s m = (let v = unat m * 10 ^ length s + decimal_value s in
     if v < 2 ^ 64 then Inr (of_nat v) else Inl ceOutOfRange)"
  using assms
proof (induction s arbitrary: m)
  case Nil
  then show ?case using unat_lt_u64 [of m] by simp
next
  case (Cons c s)
  define d :: u64 where "d = of_nat (code c - 48)"
  have d: "unat d = code c - 48" "unat d < 10"
  proof -
    have "code c - 48 < 10" using Cons.prems by auto
    then show "unat d = code c - 48" "unat d < 10" unfolding d_def
      by (simp_all only: unat_of_nat) simp_all
  qed
  have dv: "decimal_value (c # s) = unat d * 10 ^ length s + decimal_value s"
    by (simp add: digits_value_Cons decimal_digit_value_def d(1))
  have e: "literal_magnitude (c # s) m =
      (if 2 ^ 64 \<le> unat m * 10 + unat d then Inl ceOutOfRange else literal_magnitude s (m * 10 + d))"
    using Cons.prems literal_magnitude_step(1) [OF d(2), of m] by (simp add: d_def [symmetric] Let_def)
  have v: "unat m * 10 ^ length (c # s) + decimal_value (c # s) =
      (unat m * 10 + unat d) * 10 ^ length s + decimal_value s" by (simp add: dv algebra_simps)
  have big: "2 ^ 64 \<le> (unat m * 10 + unat d) * 10 ^ length s + decimal_value s"
    if "2 ^ 64 \<le> unat m * 10 + unat d"
  proof -
    have "2 ^ 64 * 1 \<le> (unat m * 10 + unat d) * 10 ^ length s" using that by (rule mult_le_mono) simp
    then show ?thesis by simp
  qed
  show ?case
  proof (cases "2 ^ 64 \<le> unat m * 10 + unat d")
    case True
    then show ?thesis using big [OF True] unfolding e v Let_def by simp
  next
    case False
    then have "unat (m * 10 + d) = unat m * 10 + unat d" using literal_magnitude_step(2) [OF d(2)] by simp
    then show ?thesis using False Cons unfolding e v by simp
  qed
qed

lemma scalar_literal_integer:
  assumes t: "is_integer_type t" and s: "s \<noteq> []" "list_all (\<lambda>c. 48 \<le> code c \<and> code c \<le> 57) s"
    and len: "length s < kMaxConstantLiteralBytes"
    and x: "x = (if neg \<noteq> mi then - int (decimal_value s) else int (decimal_value s))"
  shows "scalar_literal lkInteger ((if mi then ''-'' else []) @ s) t neg =
    (if type_min t \<le> x \<and> x \<le> type_max t then Inr (pattern t x) else Inl ceOutOfRange)"
proof -
  have hd: "hd s \<noteq> CHR ''-''" using s by (cases s) auto
  have "scalar_literal lkInteger ((if mi then ''-'' else []) @ s) t neg =
     (case literal_magnitude s 0 of Inl e \<Rightarrow> Inl e
      | Inr m \<Rightarrow> integer_bits \<lparr>int_negative = (neg \<noteq> mi), int_magnitude = m\<rparr> t)"
    using t s len hd by (cases mi) (simp_all add: scalar_literal_def numeric_not_floating Let_def cong: sum.case_cong)
  moreover have "\<not> (type_min t \<le> x \<and> x \<le> type_max t)" if "\<not> decimal_value s < 2 ^ 64"
    using that int_type_bounds [OF t] unfolding x by auto
  moreover have "ival \<lparr>int_negative = (neg \<noteq> mi), int_magnitude = of_nat (decimal_value s)\<rparr> = x"
    if "decimal_value s < 2 ^ 64"
    using that unfolding x by (simp add: ival_def uint_nat unat_of_nat)
  ultimately show ?thesis
    by (auto simp: literal_magnitude_digits [OF s(2)] Let_def integer_bits_correct [OF t])
qed

lemma decimal_magnitude:
  assumes b: "is_valid_integer_bits b t"
  shows "scalar_integer_decimal t b = decimal_of_int (int_value t b)"
proof -
  have t: "is_integer_type t" "uint b < 2 ^ type_width t" using b by (simp_all add: valid_bits_iff)
  note w = width_bounds [OF t(1)]
  define neg where "neg = (type_signed t \<and> 2 ^ (type_width t - 1) \<le> uint b)"
  define m :: u64 where "m = (if \<not> neg then b else if type_width t = 64 then 0 - b else push_bit (type_width t) 1 - b)"
  have neg: "neg \<longleftrightarrow> type_signed t \<and> (b AND push_bit (type_width t - 1) 1) \<noteq> 0"
    unfolding neg_def using sign_bit_test [OF t(2) w(1,2)] by blast
  have d: "scalar_integer_decimal t b = (if neg then ''-'' else []) @ decimal_of_nat (unat m)"
    using b width_cases(2) [OF t(1)] unfolding m_def neg by (simp add: scalar_integer_decimal_def Let_def)
  have iv: "int_value t b = (if neg then uint b - 2 ^ type_width t else uint b)"
    unfolding neg_def int_value_def by (rule refl)
  have m: "uint m = \<bar>int_value t b\<bar>"
  proof (cases "neg \<and> type_width t \<noteq> 64")
    case True
    then have "type_width t < 64" using w(2) by simp
    then have "uint (push_bit (type_width t) 1 :: u64) = 2 ^ type_width t"
      using uint_half [of "Suc (type_width t)"] by simp
    then have "uint (push_bit (type_width t) 1 - b) = 2 ^ type_width t - uint b"
      using t(2) by (subst uint_sub_le) (simp_all add: word_le_def del: push_bit_of_1)
    then show ?thesis using True t(2) unfolding iv m_def by simp
  next
    case False
    show ?thesis
    proof (cases neg)
      case neg: True
      then have w64: "type_width t = 64" using False by simp
      have "0 < uint b" using neg unfolding neg_def by (smt (verit) zero_less_power)
      then have "uint (- b) = 2 ^ 64 - uint b" using t(2) w64
        by (simp add: uint_word_ariths zmod_zminus1_eq_if)
      then show ?thesis using neg w64 t(2) unfolding iv m_def by simp
    qed (simp add: iv m_def)
  qed
  have "neg \<longleftrightarrow> int_value t b < 0" using iv t(2) by auto
  moreover have "unat m = nat \<bar>int_value t b\<bar>" using m by (metis unat_eq_nat_uint)
  ultimately show ?thesis unfolding d decimal_of_int_def by auto
qed

text \<open>
  C19: the integer conversions of constants. An ordinary conversion keeps the value or reports that it
  is out of range; a wrapping conversion reduces it modulo the width of the target; a saturating one
  clamps it to the range of the target; negation is exact or overflows; complement is \<open>-x - 1\<close>.
\<close>

theorem integer_conversions_correct:
  assumes "is_valid_integer_bits b s" "is_integer_type t"
  shows "convert_scalar b s t = (if type_min t \<le> int_value s b \<and> int_value s b \<le> type_max t
       then Inr (pattern t (int_value s b)) else Inl ceOutOfRange) \<and>
    convert_integer_mode b s t cmWrap = Inr (pattern t (int_value s b)) \<and>
    convert_integer_mode b s t cmSat = Inr (pattern t (max (type_min t) (min (type_max t) (int_value s b)))) \<and>
    unary_scalar kMinus s b = (if type_min s \<le> - int_value s b \<and> - int_value s b \<le> type_max s
       then Inr (pattern s (- int_value s b)) else Inl ceOverflow) \<and>
    unary_scalar kTilde s b = Inr (pattern s (- int_value s b - 1)) \<and>
    (\<forall>x. uint (pattern t x) = x mod 2 ^ type_width t) \<and>
    (\<forall>x. type_min t \<le> x \<and> x \<le> type_max t \<longrightarrow> int_value t (pattern t x) = x)"
  using convert_exact [OF assms] convert_wrap [OF assms] convert_saturate [OF assms]
    unary_minus [OF assms(1)] unary_complement [OF assms(1)] uint_pattern [OF assms(2)]
    int_value_pattern [OF assms(2)] by blast

theorem integer_conversions_correct_witness:
  "is_valid_integer_bits 0xFFFE tyInt16 \<and> is_integer_type tyUint8 \<and> int_value tyInt16 0xFFFE = -2 \<and>
   convert_scalar 0xFFFE tyInt16 tyUint8 = Inl ceOutOfRange \<and>
   convert_integer_mode 0xFFFE tyInt16 tyUint8 cmWrap = Inr 0xFE \<and>
   convert_integer_mode 0xFFFE tyInt16 tyUint8 cmSat = Inr 0"
proof -
  have v: "is_valid_integer_bits 0xFFFE tyInt16" "is_integer_type tyUint8" by code_simp+
  have i: "int_value tyInt16 0xFFFE = -2" "type_min tyUint8 = 0" "type_max tyUint8 = 255"
      "type_width tyUint8 = 8" by code_simp+
  have p: "pattern tyUint8 (-2) = 0xFE" "pattern tyUint8 0 = 0" by (simp_all add: pattern_def i)
  show ?thesis using integer_conversions_correct [OF v] v i p by simp
qed

text \<open>
  The decimal text printed for an integer constant is the numeral of its value, and reading that
  text back as a literal of the same type gives the same bit pattern.
\<close>

theorem integer_decimal_roundtrip:
  assumes "is_valid_integer_bits b t"
  shows "scalar_integer_decimal t b = decimal_of_int (int_value t b) \<and>
    scalar_literal lkInteger (scalar_integer_decimal t b) t False = Inr b"
proof -
  have t: "is_integer_type t" using assms by (simp add: valid_bits_iff)
  define n where "n = nat \<bar>int_value t b\<bar>"
  have n: "n < 2 ^ 64" using int_value_range [OF assms] int_type_bounds [OF t]
    by (simp add: n_def nat_less_iff)
  have len: "length (decimal_of_nat n) < kMaxConstantLiteralBytes"
  proof (cases "n = 0")
    case True
    then show ?thesis by (simp add: kMaxConstantLiteralBytes_def decimal_of_nat.simps)
  next
    case False
    have "(10::nat) ^ (length (decimal_of_nat n) - 1) < 10 ^ 64"
      using decimal_of_nat_length [of n] False n power_mono [of "2::nat" 10 64] by linarith
    then have "length (decimal_of_nat n) - 1 < 64" by (simp only: power_strict_increasing_iff)
    then show ?thesis by (simp add: kMaxConstantLiteralBytes_def)
  qed
  let ?m = "int_value t b < 0"
  have s: "decimal_of_int (int_value t b) = (if ?m then ''-'' else []) @ decimal_of_nat n"
    by (simp add: decimal_of_int_def n_def)
  have x: "int_value t b = (if False \<noteq> ?m then - int (decimal_value (decimal_of_nat n))
      else int (decimal_value (decimal_of_nat n)))" by (simp add: n_def)
  have "scalar_literal lkInteger ((if ?m then ''-'' else []) @ decimal_of_nat n) t False = Inr b"
    using scalar_literal_integer [OF t _ _ len x] decimal_of_nat_digits int_value_range [OF assms]
      pattern_int_value [OF assms] by (simp add: list_all_iff)
  then show ?thesis using decimal_magnitude [OF assms] s by simp
qed

theorem integer_decimal_roundtrip_witness:
  "is_valid_integer_bits 0xFE tyInt8 \<and> scalar_integer_decimal tyInt8 0xFE = ''-2'' \<and>
   scalar_literal lkInteger ''-2'' tyInt8 False = Inr 0xFE"
proof -
  have v: "is_valid_integer_bits 0xFE tyInt8" by code_simp
  have "decimal_of_int (int_value tyInt8 0xFE) = ''-2''" by code_simp
  then show ?thesis using integer_decimal_roundtrip [OF v] v by metis
qed

end
