(* ===== verification/Runtime_Strings.thy ===== *)
theory Runtime_Strings
  imports Utf8
begin

text \<open>
  Strings in the runtime library (\<^verbatim>\<open>runtime/runtime.cc\<close>): its own UTF-8 decoder and scalar
  counter, the layout checks, and the operations of the \<open>string\<close> type. A call of
  \<open>runtime_failure\<close>, which ends the program with a message, is the left side of an \<open>outcome\<close>.
  The decoder is shown to be interchangeable with the compiler's through the interface
  \<open>utf8_decoder\<close>, and slicing, indexing and iteration to work on scalars.
\<close>

section \<open>The code\<close>

type_synonym 'a outcome = "string + 'a"

abbreviation fail :: "string \<Rightarrow> 'a outcome" where
  "fail message \<equiv> Inl message"

text \<open>A pointer to a type descriptor: the runtime's own ones, and the program's by number.\<close>

datatype TypeRef = NullType | ObjectType | StringType | ArrayType | ErrorType | DivisionByZeroType
  | ProgramType nat

text \<open>A string object; \<open>None\<close> in \<open>st_data\<close> is a null pointer.\<close>

record ClothString =
  st_type :: TypeRef
  st_data :: "string option"
  st_byte_size :: nat
  st_scalar_count :: nat
  st_owns_data :: bool

definition kMaximumStringSize :: nat where
  "kMaximumStringSize = 2147483647"

text \<open>On success the decoder returns the scalar and the advanced index.\<close>

definition rt_decode_utf8_scalar :: "string \<Rightarrow> nat \<Rightarrow> nat \<Rightarrow> (u32 \<times> nat) option" where
  "rt_decode_utf8_scalar data sz index =
     (let b = (\<lambda>offset. byte (data ! offset));
          is_continuation = (\<lambda>offset. b offset AND 0xC0 = 0x80);
          first = b index in
      if index \<ge> sz then None
      else if first \<le> 0x7F then Some (ucast first, index + 1)
      else if first \<ge> 0xC2 \<and> first \<le> 0xDF \<and> index + 1 < sz \<and> is_continuation (index + 1) then
        Some (push_bit 6 (ucast (first AND 0x1F)) OR ucast (b (index + 1) AND 0x3F), index + 2)
      else if index + 2 < sz \<and>
        ((first = 0xE0 \<and> b (index + 1) \<ge> 0xA0 \<and> b (index + 1) \<le> 0xBF \<and> is_continuation (index + 2)) \<or>
         (((first \<ge> 0xE1 \<and> first \<le> 0xEC) \<or> (first \<ge> 0xEE \<and> first \<le> 0xEF)) \<and>
          is_continuation (index + 1) \<and> is_continuation (index + 2)) \<or>
         (first = 0xED \<and> b (index + 1) \<ge> 0x80 \<and> b (index + 1) \<le> 0x9F \<and> is_continuation (index + 2))) then
        Some (push_bit 12 (ucast (first AND 0x0F)) OR push_bit 6 (ucast (b (index + 1) AND 0x3F)) OR
              ucast (b (index + 2) AND 0x3F), index + 3)
      else if index + 3 < sz \<and>
        ((first = 0xF0 \<and> b (index + 1) \<ge> 0x90 \<and> b (index + 1) \<le> 0xBF \<and> is_continuation (index + 2) \<and>
          is_continuation (index + 3)) \<or>
         (first \<ge> 0xF1 \<and> first \<le> 0xF3 \<and> is_continuation (index + 1) \<and> is_continuation (index + 2) \<and>
          is_continuation (index + 3)) \<or>
         (first = 0xF4 \<and> b (index + 1) \<ge> 0x80 \<and> b (index + 1) \<le> 0x8F \<and> is_continuation (index + 2) \<and>
          is_continuation (index + 3))) then
        Some (push_bit 18 (ucast (first AND 0x07)) OR push_bit 12 (ucast (b (index + 1) AND 0x3F)) OR
              push_bit 6 (ucast (b (index + 2) AND 0x3F)) OR ucast (b (index + 3) AND 0x3F), index + 4)
      else None)"

lemma rt_decode_advances: "rt_decode_utf8_scalar data sz index = Some (v, i) \<Longrightarrow> index < i \<and> i \<le> sz"
  by (auto simp: rt_decode_utf8_scalar_def Let_def split: if_splits)

function count_utf8_loop :: "string \<Rightarrow> nat \<Rightarrow> nat \<Rightarrow> nat \<Rightarrow> nat option" where
  "count_utf8_loop data sz index count =
     (if index < sz then
        (case rt_decode_utf8_scalar data sz index of
           None \<Rightarrow> None
         | Some (scalar, index') \<Rightarrow> count_utf8_loop data sz index' (count + 1))
      else Some count)"
  by pat_completeness auto
termination
  by (relation "measure (\<lambda>(data, sz, index, count). sz - index)") (auto dest: rt_decode_advances)

declare count_utf8_loop.simps [simp del]

definition try_count_utf8_scalars :: "string \<Rightarrow> nat \<Rightarrow> nat option" where
  "try_count_utf8_scalars data sz = count_utf8_loop data sz 0 0"

definition count_utf8_scalars :: "string \<Rightarrow> nat \<Rightarrow> string \<Rightarrow> nat outcome" where
  "count_utf8_scalars data sz invalid_message =
     (case try_count_utf8_scalars data sz of None \<Rightarrow> fail invalid_message | Some count \<Rightarrow> Inr count)"

text \<open>The bytes behind a data pointer; a null pointer is only read when no byte is.\<close>

abbreviation bytes_of :: "string option \<Rightarrow> string" where
  "bytes_of data \<equiv> (case data of None \<Rightarrow> [] | Some d \<Rightarrow> d)"

definition require_string :: "ClothString option \<Rightarrow> ClothString outcome" where
  "require_string v =
     (case v of
        None \<Rightarrow> fail ''null string''
      | Some s \<Rightarrow> if st_type s \<noteq> StringType then fail ''invalid string object'' else Inr s)"

definition require_parse_text :: "ClothString option \<Rightarrow> ClothString outcome" where
  "require_parse_text v =
     (case require_string v of
        Inl e \<Rightarrow> fail e
      | Inr s \<Rightarrow>
          if st_byte_size s > kMaximumStringSize \<or> st_scalar_count s > kMaximumStringSize \<or>
             (st_data s = None \<and> st_byte_size s \<noteq> 0) \<or>
             (case try_count_utf8_scalars (bytes_of (st_data s)) (st_byte_size s) of
                None \<Rightarrow> True | Some count \<Rightarrow> count \<noteq> st_scalar_count s)
          then fail ''primitive parse text has an invalid layout''
          else Inr s)"

definition has_valid_string_layout :: "ClothString \<Rightarrow> bool" where
  "has_valid_string_layout s \<longleftrightarrow>
     st_byte_size s \<le> kMaximumStringSize \<and> st_scalar_count s \<le> kMaximumStringSize \<and>
     (st_data s \<noteq> None \<or> st_byte_size s = 0) \<and>
     (case try_count_utf8_scalars (bytes_of (st_data s)) (st_byte_size s) of
        None \<Rightarrow> False | Some count \<Rightarrow> count = st_scalar_count s)"

definition require_traversable_string :: "ClothString option \<Rightarrow> ClothString outcome" where
  "require_traversable_string v =
     (case require_string v of
        Inl e \<Rightarrow> fail e
      | Inr s \<Rightarrow>
          if st_byte_size s > kMaximumStringSize \<or> st_scalar_count s > kMaximumStringSize \<or>
             (st_data s = None \<and> st_byte_size s \<noteq> 0)
          then fail ''string has an invalid layout'' else Inr s)"

text \<open>A \<^verbatim>\<open>std::size_t\<close> cast to \<^verbatim>\<open>std::int32_t\<close>.\<close>

definition int32_of_size :: "nat \<Rightarrow> int" where
  "int32_of_size n = sint (of_nat n :: u32)"

definition cloth_rt_string_length :: "ClothString option \<Rightarrow> int outcome" where
  "cloth_rt_string_length v =
     (case require_string v of Inl e \<Rightarrow> fail e | Inr s \<Rightarrow> Inr (int32_of_size (st_scalar_count s)))"

definition cloth_rt_string_byte_length :: "ClothString option \<Rightarrow> int outcome" where
  "cloth_rt_string_byte_length v =
     (case require_string v of Inl e \<Rightarrow> fail e | Inr s \<Rightarrow> Inr (int32_of_size (st_byte_size s)))"

definition cloth_rt_string_is_empty :: "ClothString option \<Rightarrow> bool outcome" where
  "cloth_rt_string_is_empty v = (case require_string v of Inl e \<Rightarrow> fail e | Inr s \<Rightarrow> Inr (st_byte_size s = 0))"

text \<open>
  Equality: \<open>same\<close> says whether the two pointers are equal, which is tested first.
\<close>

definition cloth_rt_string_equal :: "bool \<Rightarrow> ClothString option \<Rightarrow> ClothString option \<Rightarrow> bool outcome" where
  "cloth_rt_string_equal same left right =
     (if same then Inr True
      else if left = None \<or> right = None then Inr False
      else
        case require_string left of
          Inl e \<Rightarrow> fail e
        | Inr l \<Rightarrow>
            (case require_string right of
               Inl e \<Rightarrow> fail e
             | Inr r \<Rightarrow>
                 Inr (st_byte_size l = st_byte_size r \<and>
                      (st_byte_size l = 0 \<or>
                       take (st_byte_size l) (bytes_of (st_data l)) =
                       take (st_byte_size l) (bytes_of (st_data r))))))"

text \<open>The walk of a slice over the scalars, and the two byte positions it finds.\<close>

record SliceWalk =
  sw_scalar_index :: nat
  sw_start_byte :: nat
  sw_end_byte :: nat
  sw_found_start :: bool
  sw_found_end :: bool

definition slice_note :: "nat \<Rightarrow> nat \<Rightarrow> nat \<Rightarrow> SliceWalk \<Rightarrow> SliceWalk" where
  "slice_note requested_start requested_end byte_offset w =
     (let k = sw_scalar_index w + 1;
          w = w\<lparr>sw_scalar_index := k\<rparr>;
          w = (if \<not> sw_found_start w \<and> k = requested_start
               then w\<lparr>sw_start_byte := byte_offset, sw_found_start := True\<rparr> else w) in
      if \<not> sw_found_end w \<and> k = requested_end
      then w\<lparr>sw_end_byte := byte_offset, sw_found_end := True\<rparr> else w)"

function slice_walk :: "string \<Rightarrow> nat \<Rightarrow> nat \<Rightarrow> nat \<Rightarrow> nat \<Rightarrow> SliceWalk \<Rightarrow> SliceWalk option" where
  "slice_walk data sz requested_start requested_end byte_offset w =
     (if byte_offset < sz then
        (case rt_decode_utf8_scalar data sz byte_offset of
           None \<Rightarrow> None
         | Some (scalar, byte_offset') \<Rightarrow>
             slice_walk data sz requested_start requested_end byte_offset'
               (slice_note requested_start requested_end byte_offset' w))
      else Some w)"
  by pat_completeness auto
termination
  by (relation "measure (\<lambda>(data, sz, s, e, byte_offset, w). sz - byte_offset)")
    (auto dest: rt_decode_advances)

declare slice_walk.simps [simp del]

text \<open>
  \<^verbatim>\<open>cloth_rt_string_slice\<close> up to the allocation of the result: the bytes and the scalar count that it
  passes to \<^verbatim>\<open>allocate_owned_string\<close>.
\<close>

definition string_slice :: "ClothString option \<Rightarrow> int \<Rightarrow> int \<Rightarrow> (string \<times> nat) outcome" where
  "string_slice v start finish =
     (case require_traversable_string v of
        Inl e \<Rightarrow> fail e
      | Inr s \<Rightarrow>
          let has_nonnegative_bounds = (start \<ge> 0 \<and> finish \<ge> 0);
              requested_start = (if has_nonnegative_bounds then nat start else 0);
              requested_end = (if has_nonnegative_bounds then nat finish else 0) in
          case slice_walk (bytes_of (st_data s)) (st_byte_size s) requested_start requested_end 0
                 \<lparr>sw_scalar_index = 0, sw_start_byte = 0, sw_end_byte = 0,
                  sw_found_start = (has_nonnegative_bounds \<and> requested_start = 0),
                  sw_found_end = (has_nonnegative_bounds \<and> requested_end = 0)\<rparr> of
            None \<Rightarrow> fail ''string has an invalid layout''
          | Some w \<Rightarrow>
              if sw_scalar_index w \<noteq> st_scalar_count s then fail ''string has an invalid layout''
              else if \<not> has_nonnegative_bounds \<or> start > finish \<or> \<not> sw_found_start w \<or> \<not> sw_found_end w
              then fail ''string slice is out of bounds''
              else Inr (substr (bytes_of (st_data s)) (sw_start_byte w) (sw_end_byte w - sw_start_byte w),
                        requested_end - requested_start))"

text \<open>\<open>scalar_at_loop n\<close> decodes \<open>n\<close> scalars and keeps the last.\<close>

fun scalar_at_loop :: "string \<Rightarrow> nat \<Rightarrow> nat \<Rightarrow> nat \<Rightarrow> u32 \<Rightarrow> u32 option" where
  "scalar_at_loop data sz 0 byte_offset scalar = Some scalar"
| "scalar_at_loop data sz (Suc n) byte_offset scalar =
     (case rt_decode_utf8_scalar data sz byte_offset of
        None \<Rightarrow> None
      | Some (scalar', byte_offset') \<Rightarrow> scalar_at_loop data sz n byte_offset' scalar')"

definition cloth_rt_string_scalar_at :: "ClothString option \<Rightarrow> int \<Rightarrow> u32 outcome" where
  "cloth_rt_string_scalar_at v index =
     (case require_traversable_string v of
        Inl e \<Rightarrow> fail e
      | Inr s \<Rightarrow>
          if \<not> has_valid_string_layout s then fail ''string has an invalid layout''
          else if index < 0 \<or> nat index \<ge> st_scalar_count s then fail ''string index is out of bounds''
          else
            case scalar_at_loop (bytes_of (st_data s)) (st_byte_size s) (nat index + 1) 0 0 of
              None \<Rightarrow> fail ''string has an invalid layout''
            | Some scalar \<Rightarrow> Inr scalar)"

text \<open>One step of iteration: \<open>None\<close> at the end, otherwise the next cursor and the scalar.\<close>

definition cloth_rt_string_next_scalar ::
  "ClothString option \<Rightarrow> int \<Rightarrow> (nat \<times> u32) option outcome" where
  "cloth_rt_string_next_scalar v byte_offset =
     (case require_traversable_string v of
        Inl e \<Rightarrow> fail e
      | Inr s \<Rightarrow>
          if byte_offset < 0 \<or> nat byte_offset > st_byte_size s
          then fail ''string iteration cursor is invalid''
          else if nat byte_offset = st_byte_size s then
            (if \<not> has_valid_string_layout s then fail ''string has an invalid layout'' else Inr None)
          else if nat byte_offset \<noteq> 0 \<and> byte (bytes_of (st_data s) ! nat byte_offset) AND 0xC0 = 0x80
          then fail ''string iteration cursor is not at a scalar boundary''
          else
            case rt_decode_utf8_scalar (bytes_of (st_data s)) (st_byte_size s) (nat byte_offset) of
              None \<Rightarrow> fail ''string has an invalid layout''
            | Some (scalar, next_offset) \<Rightarrow>
                if next_offset > kMaximumStringSize then fail ''string has an invalid layout''
                else Inr (Some (next_offset, scalar)))"

section \<open>The decoder\<close>

lemma unat_low6: "unat (ucast (byte c AND 0x3F) :: u32) = code c mod 64"
  by (simp add: unat_ucast_up wval)

lemma unat_shifted:
  assumes "unat a < 2 ^ k" "k + n \<le> 32" shows "unat (push_bit n (a :: u32)) = unat a * 2 ^ n"
proof -
  have "unat a * 2 ^ n < 2 ^ k * 2 ^ n" using assms(1) by simp
  also have "\<dots> \<le> 2 ^ 32" unfolding power_add [symmetric] using assms(2) by (intro power_increasing) simp_all
  finally show ?thesis by (simp add: unat_push_bit)
qed

lemma unat_lead:
  "unat (ucast (byte c AND 0x1F) :: u32) = code c mod 32"
  "unat (ucast (byte c AND 0x0F) :: u32) = code c mod 16"
  "unat (ucast (byte c AND 0x07) :: u32) = code c mod 8"
  by (simp_all add: unat_ucast_up wval)

lemma small_mods: "(a :: nat) mod 32 < 2 ^ 5" "a mod 16 < 2 ^ 4" "a mod 8 < 2 ^ 3" "a mod 64 < 2 ^ 6"
  by simp_all

lemma scalar2:
  "unat (push_bit 6 (ucast (byte a AND 0x1F)) OR ucast (byte b AND 0x3F) :: u32) =
   code a mod 32 * 64 + code b mod 64"
  by (subst unat_or_low_bits [where n = 6])
    (simp_all add: unat_shifted [where k = 5] unat_lead unat_low6)

lemma scalar3:
  "unat (push_bit 12 (ucast (byte a AND 0x0F)) OR push_bit 6 (ucast (byte b AND 0x3F)) OR
     ucast (byte c AND 0x3F) :: u32) =
   (code a mod 16 * 64 + code b mod 64) * 64 + code c mod 64"
proof -
  have p: "unat (push_bit 12 (ucast (byte a AND 0x0F)) :: u32) = code a mod 16 * 4096"
      "unat (push_bit 6 (ucast (byte b AND 0x3F)) :: u32) = code b mod 64 * 64"
    by (simp_all add: unat_shifted [where k = 4] unat_shifted [where k = 6] unat_lead unat_low6)
  have q: "unat (push_bit 6 (ucast (byte b AND 0x3F)) OR ucast (byte c AND 0x3F) :: u32) =
      code b mod 64 * 64 + code c mod 64"
    using p by (subst unat_or_low_bits [where n = 6]) (simp_all add: unat_low6)
  have "code b mod 64 * 64 + code c mod 64 < 4096"
    using small_mods(4) [of "code b"] small_mods(4) [of "code c"] by simp
  then show ?thesis using p q by (subst unat_or_low_bits [where n = 12]) simp_all
qed

lemma scalar4:
  "unat (push_bit 18 (ucast (byte a AND 0x07)) OR push_bit 12 (ucast (byte b AND 0x3F)) OR
     push_bit 6 (ucast (byte c AND 0x3F)) OR ucast (byte d AND 0x3F) :: u32) =
   ((code a mod 8 * 64 + code b mod 64) * 64 + code c mod 64) * 64 + code d mod 64"
proof -
  have p: "unat (push_bit 18 (ucast (byte a AND 0x07)) :: u32) = code a mod 8 * 262144"
      "unat (push_bit 12 (ucast (byte b AND 0x3F)) :: u32) = code b mod 64 * 4096"
      "unat (push_bit 6 (ucast (byte c AND 0x3F)) :: u32) = code c mod 64 * 64"
    by (simp_all add: unat_shifted [where k = 3] unat_shifted [where k = 6] unat_lead unat_low6)
  have m: "code b mod 64 < 64" "code c mod 64 < 64" "code d mod 64 < 64" by simp_all
  have q: "unat (push_bit 6 (ucast (byte c AND 0x3F)) OR ucast (byte d AND 0x3F) :: u32) =
      code c mod 64 * 64 + code d mod 64"
    using p by (subst unat_or_low_bits [where n = 6]) (simp_all add: unat_low6)
  have l1: "code c mod 64 * 64 + code d mod 64 < 4096" using m by linarith
  have r: "unat (push_bit 12 (ucast (byte b AND 0x3F)) OR push_bit 6 (ucast (byte c AND 0x3F)) OR
      ucast (byte d AND 0x3F) :: u32) = code b mod 64 * 4096 + (code c mod 64 * 64 + code d mod 64)"
    using p q l1 by (subst unat_or_low_bits [where n = 12]) simp_all
  have "code b mod 64 * 4096 + (code c mod 64 * 64 + code d mod 64) < 262144" using m by linarith
  then show ?thesis using p r by (subst unat_or_low_bits [where n = 18]) simp_all
qed

text \<open>The byte ranges of the code exclude exactly the overlong forms, the surrogates and what is too large.\<close>

lemma ranges3:
  assumes "x < 16" "y < 64" "z < (64 :: nat)" "v = (x * 64 + y) * 64 + z"
  shows "2048 \<le> v \<and> scalar_ok v \<longleftrightarrow> (x = 0 \<and> 32 \<le> y) \<or> (x \<noteq> 0 \<and> x \<noteq> 13) \<or> (x = 13 \<and> y < 32)"
proof -
  consider "x = 0" | "x \<noteq> 0" "x < 13" | "x = 13" | "13 < x" by linarith
  then show ?thesis using assms by cases (auto simp: scalar_ok_def)
qed

lemma ranges4:
  assumes "x < 8" "y < 64" "z < 64" "w < (64 :: nat)" "v = ((x * 64 + y) * 64 + z) * 64 + w"
  shows "65536 \<le> v \<and> scalar_ok v \<longleftrightarrow> (x = 0 \<and> 16 \<le> y) \<or> (1 \<le> x \<and> x \<le> 3) \<or> (x = 4 \<and> y < 16)"
proof -
  consider "x = 0" | "1 \<le> x" "x \<le> 3" | "x = 4" | "4 < x" by linarith
  then show ?thesis using assms by cases (auto simp: scalar_ok_def)
qed

lemma continuation_code: "byte c AND 0xC0 = 0x80 \<longleftrightarrow> 128 \<le> code c \<and> code c < 192"
  by (rule continuation_iff)

lemma byte_ge: "byte c \<ge> numeral n \<longleftrightarrow> unat (numeral n :: u8) \<le> code c"
  by (simp add: word_le_nat_alt)

lemma byte_eq: "byte c = numeral n \<longleftrightarrow> code c = unat (numeral n :: u8)"
  by (simp add: word_unat_eq_iff)

lemma unat_byte_constants:
  "unat (0x7F :: u8) = 127" "unat (0xC2 :: u8) = 194" "unat (0xDF :: u8) = 223" "unat (0xE0 :: u8) = 224"
  "unat (0xA0 :: u8) = 160" "unat (0xBF :: u8) = 191" "unat (0xE1 :: u8) = 225" "unat (0xEC :: u8) = 236"
  "unat (0xEE :: u8) = 238" "unat (0xEF :: u8) = 239" "unat (0xED :: u8) = 237" "unat (0x80 :: u8) = 128"
  "unat (0x9F :: u8) = 159" "unat (0xF0 :: u8) = 240" "unat (0x90 :: u8) = 144" "unat (0xF1 :: u8) = 241"
  "unat (0xF3 :: u8) = 243" "unat (0xF4 :: u8) = 244" "unat (0x8F :: u8) = 143"
  by simp_all

text \<open>The guards of the three- and four-byte cases, as value ranges.\<close>

lemma guard3:
  fixes a b c :: char
  defines "v \<equiv> (code a mod 16 * 64 + code b mod 64) * 64 + code c mod 64"
  shows "(code a = 224 \<and> 160 \<le> code b \<and> code b \<le> 191 \<and> 128 \<le> code c \<and> code c < 192) \<or>
    ((225 \<le> code a \<and> code a \<le> 236 \<or> 238 \<le> code a \<and> code a \<le> 239) \<and>
      128 \<le> code b \<and> code b < 192 \<and> 128 \<le> code c \<and> code c < 192) \<or>
    (code a = 237 \<and> 128 \<le> code b \<and> code b \<le> 159 \<and> 128 \<le> code c \<and> code c < 192) \<longleftrightarrow>
    224 \<le> code a \<and> code a \<le> 239 \<and> 128 \<le> code b \<and> code b < 192 \<and> 128 \<le> code c \<and> code c < 192 \<and>
    2048 \<le> v \<and> scalar_ok v"
proof (cases "224 \<le> code a \<and> code a \<le> 239 \<and> 128 \<le> code b \<and> code b < 192 \<and> 128 \<le> code c \<and> code c < 192")
  case True
  then have m: "code a mod 16 = code a - 224" "code b mod 64 = code b - 128" "code c mod 64 = code c - 128"
    using low_bits by simp_all
  have "2048 \<le> v \<and> scalar_ok v \<longleftrightarrow> (code a - 224 = 0 \<and> 32 \<le> code b - 128) \<or>
      (code a - 224 \<noteq> 0 \<and> code a - 224 \<noteq> 13) \<or> (code a - 224 = 13 \<and> code b - 128 < 32)"
    using True by (intro ranges3 [where z = "code c - 128"]) (auto simp: v_def m)
  then show ?thesis using True by auto
next
  case False
  then show ?thesis by auto
qed

lemma guard4:
  fixes a b c d :: char
  defines "v \<equiv> ((code a mod 8 * 64 + code b mod 64) * 64 + code c mod 64) * 64 + code d mod 64"
  shows "(code a = 240 \<and> 144 \<le> code b \<and> code b \<le> 191 \<and> 128 \<le> code c \<and> code c < 192 \<and>
      128 \<le> code d \<and> code d < 192) \<or>
    (241 \<le> code a \<and> code a \<le> 243 \<and> 128 \<le> code b \<and> code b < 192 \<and> 128 \<le> code c \<and> code c < 192 \<and>
      128 \<le> code d \<and> code d < 192) \<or>
    (code a = 244 \<and> 128 \<le> code b \<and> code b \<le> 143 \<and> 128 \<le> code c \<and> code c < 192 \<and>
      128 \<le> code d \<and> code d < 192) \<longleftrightarrow>
    240 \<le> code a \<and> code a \<le> 247 \<and> 128 \<le> code b \<and> code b < 192 \<and> 128 \<le> code c \<and> code c < 192 \<and>
    128 \<le> code d \<and> code d < 192 \<and> 65536 \<le> v \<and> scalar_ok v"
proof (cases "240 \<le> code a \<and> code a \<le> 247 \<and> 128 \<le> code b \<and> code b < 192 \<and> 128 \<le> code c \<and>
    code c < 192 \<and> 128 \<le> code d \<and> code d < 192")
  case True
  then have m: "code a mod 8 = code a - 240" "code b mod 64 = code b - 128" "code c mod 64 = code c - 128"
      "code d mod 64 = code d - 128"
    using low_bits by simp_all
  have "65536 \<le> v \<and> scalar_ok v \<longleftrightarrow> (code a - 240 = 0 \<and> 16 \<le> code b - 128) \<or>
      (1 \<le> code a - 240 \<and> code a - 240 \<le> 3) \<or> (code a - 240 = 4 \<and> code b - 128 < 16)"
    using True by (intro ranges4 [where z = "code c - 128" and w = "code d - 128"]) ((linarith | simp add: v_def m)+)
  moreover have "(A - 240 = 0 \<and> 16 \<le> B - 128) \<or> (1 \<le> A - 240 \<and> A - 240 \<le> 3) \<or> (A - 240 = 4 \<and> B - 128 < 16) \<longleftrightarrow>
      (A = 240 \<and> 144 \<le> B \<and> B \<le> 191) \<or> (241 \<le> A \<and> A \<le> 243) \<or> (A = 244 \<and> B \<le> 143)"
    if "240 \<le> A" "128 \<le> B" "B < 192" for A B :: nat using that by linarith
  ultimately have "65536 \<le> v \<and> scalar_ok v \<longleftrightarrow> (code a = 240 \<and> 144 \<le> code b \<and> code b \<le> 191) \<or>
      (241 \<le> code a \<and> code a \<le> 243) \<or> (code a = 244 \<and> code b \<le> 143)" using True by blast
  then show ?thesis using True by (simp only: simp_thms)
next
  case False
  then show ?thesis by auto
qed

lemma rt_decode_cases:
  fixes data :: string and o' sz :: nat
  assumes "o' < sz"
  defines "c \<equiv> \<lambda>i. code (data ! (o' + i))"
  shows "rt_decode_utf8_scalar data sz o' = Some (v, i) \<longleftrightarrow>
    (c 0 < 128 \<and> i = o' + 1 \<and> unat v = c 0) \<or>
    (194 \<le> c 0 \<and> c 0 \<le> 223 \<and> o' + 2 \<le> sz \<and> 128 \<le> c 1 \<and> c 1 < 192 \<and> i = o' + 2 \<and>
      unat v = c 0 mod 32 * 64 + c 1 mod 64) \<or>
    (o' + 3 \<le> sz \<and> 224 \<le> c 0 \<and> c 0 \<le> 239 \<and> 128 \<le> c 1 \<and> c 1 < 192 \<and> 128 \<le> c 2 \<and> c 2 < 192 \<and>
      i = o' + 3 \<and> unat v = (c 0 mod 16 * 64 + c 1 mod 64) * 64 + c 2 mod 64 \<and>
      2048 \<le> unat v \<and> scalar_ok (unat v)) \<or>
    (o' + 4 \<le> sz \<and> 240 \<le> c 0 \<and> c 0 \<le> 247 \<and> 128 \<le> c 1 \<and> c 1 < 192 \<and> 128 \<le> c 2 \<and> c 2 < 192 \<and>
      128 \<le> c 3 \<and> c 3 < 192 \<and> i = o' + 4 \<and>
      unat v = ((c 0 mod 8 * 64 + c 1 mod 64) * 64 + c 2 mod 64) * 64 + c 3 mod 64 \<and>
      65536 \<le> unat v \<and> scalar_ok (unat v))"
proof -
  define v1 :: u32 where "v1 = ucast (byte (data ! o'))"
  define v2 :: u32 where "v2 = push_bit 6 (ucast (byte (data ! o') AND 0x1F)) OR ucast (byte (data ! (o' + 1)) AND 0x3F)"
  define v3 :: u32 where "v3 = push_bit 12 (ucast (byte (data ! o') AND 0x0F)) OR
    push_bit 6 (ucast (byte (data ! (o' + 1)) AND 0x3F)) OR ucast (byte (data ! (o' + 2)) AND 0x3F)"
  define v4 :: u32 where "v4 = push_bit 18 (ucast (byte (data ! o') AND 0x07)) OR
    push_bit 12 (ucast (byte (data ! (o' + 1)) AND 0x3F)) OR
    push_bit 6 (ucast (byte (data ! (o' + 2)) AND 0x3F)) OR ucast (byte (data ! (o' + 3)) AND 0x3F)"
  have v: "unat v1 = c 0" "unat v2 = c 0 mod 32 * 64 + c 1 mod 64"
      "unat v3 = (c 0 mod 16 * 64 + c 1 mod 64) * 64 + c 2 mod 64"
      "unat v4 = ((c 0 mod 8 * 64 + c 1 mod 64) * 64 + c 2 mod 64) * 64 + c 3 mod 64"
    by (simp_all only: v1_def v2_def v3_def v4_def scalar2 scalar3 scalar4 c_def add_0_right)
      (simp add: unat_ucast_up)
  have eq: "v = v' \<longleftrightarrow> unat v = unat v'" for v' :: u32 by (rule word_unat_eq_iff)
  have code: "rt_decode_utf8_scalar data sz o' =
      (if c 0 \<le> 127 then Some (v1, o' + 1)
       else if 194 \<le> c 0 \<and> c 0 \<le> 223 \<and> o' + 1 < sz \<and> 128 \<le> c 1 \<and> c 1 < 192 then Some (v2, o' + 2)
       else if o' + 2 < sz \<and> (224 \<le> c 0 \<and> c 0 \<le> 239 \<and> 128 \<le> c 1 \<and> c 1 < 192 \<and> 128 \<le> c 2 \<and> c 2 < 192 \<and>
         2048 \<le> unat v3 \<and> scalar_ok (unat v3)) then Some (v3, o' + 3)
       else if o' + 3 < sz \<and> (240 \<le> c 0 \<and> c 0 \<le> 247 \<and> 128 \<le> c 1 \<and> c 1 < 192 \<and> 128 \<le> c 2 \<and> c 2 < 192 \<and>
         128 \<le> c 3 \<and> c 3 < 192 \<and> 65536 \<le> unat v4 \<and> scalar_ok (unat v4)) then Some (v4, o' + 4)
       else None)"
  proof -
    have ns: "o' \<ge> sz \<longleftrightarrow> False" using assms(1) by simp
    show ?thesis
      unfolding v c_def guard3 [symmetric] guard4 [symmetric]
      by (simp only: rt_decode_utf8_scalar_def Let_def continuation_code v1_def v2_def v3_def v4_def ns if_False
          byte_le byte_ge byte_eq unat_byte_constants add_0_right conj_assoc)
  qed
  have pick: "(if P1 then Some x1 else if P2 then Some x2 else if P3 then Some x3 else if P4 then Some x4
      else None) = Some y \<longleftrightarrow> P1 \<and> y = x1 \<or> P2 \<and> y = x2 \<or> P3 \<and> y = x3 \<or> P4 \<and> y = x4"
    if "P1 \<Longrightarrow> \<not> P2 \<and> \<not> P3 \<and> \<not> P4" "P2 \<Longrightarrow> \<not> P3 \<and> \<not> P4" "P3 \<Longrightarrow> \<not> P4"
    for P1 P2 P3 P4 and x1 x2 x3 x4 y :: "u32 \<times> nat"
    using that by (cases P1; cases P2; cases P3; cases P4) auto
  have "rt_decode_utf8_scalar data sz o' = Some (v, i) \<longleftrightarrow>
    (c 0 \<le> 127) \<and> (v, i) = (v1, o' + 1) \<or>
    (194 \<le> c 0 \<and> c 0 \<le> 223 \<and> o' + 1 < sz \<and> 128 \<le> c 1 \<and> c 1 < 192) \<and> (v, i) = (v2, o' + 2) \<or>
    (o' + 2 < sz \<and> (224 \<le> c 0 \<and> c 0 \<le> 239 \<and> 128 \<le> c 1 \<and> c 1 < 192 \<and> 128 \<le> c 2 \<and> c 2 < 192 \<and>
         2048 \<le> unat v3 \<and> scalar_ok (unat v3))) \<and> (v, i) = (v3, o' + 3) \<or>
    (o' + 3 < sz \<and> (240 \<le> c 0 \<and> c 0 \<le> 247 \<and> 128 \<le> c 1 \<and> c 1 < 192 \<and> 128 \<le> c 2 \<and> c 2 < 192 \<and>
         128 \<le> c 3 \<and> c 3 < 192 \<and> 65536 \<le> unat v4 \<and> scalar_ok (unat v4))) \<and> (v, i) = (v4, o' + 4)"
    unfolding code by (rule pick) linarith+
  moreover have "(c 0 \<le> 127) \<and> (v, i) = (v1, o' + 1) \<longleftrightarrow> c 0 < 128 \<and> i = o' + 1 \<and> unat v = c 0"
    unfolding prod.inject eq [of v1] v(1) by auto
  moreover have "(194 \<le> c 0 \<and> c 0 \<le> 223 \<and> o' + 1 < sz \<and> 128 \<le> c 1 \<and> c 1 < 192) \<and> (v, i) = (v2, o' + 2) \<longleftrightarrow>
    194 \<le> c 0 \<and> c 0 \<le> 223 \<and> o' + 2 \<le> sz \<and> 128 \<le> c 1 \<and> c 1 < 192 \<and> i = o' + 2 \<and>
      unat v = c 0 mod 32 * 64 + c 1 mod 64"
    unfolding prod.inject eq [of v2] v(2) [symmetric] by auto
  moreover have "(o' + 2 < sz \<and> (224 \<le> c 0 \<and> c 0 \<le> 239 \<and> 128 \<le> c 1 \<and> c 1 < 192 \<and> 128 \<le> c 2 \<and> c 2 < 192 \<and>
      2048 \<le> unat v3 \<and> scalar_ok (unat v3))) \<and> (v, i) = (v3, o' + 3) \<longleftrightarrow>
    o' + 3 \<le> sz \<and> 224 \<le> c 0 \<and> c 0 \<le> 239 \<and> 128 \<le> c 1 \<and> c 1 < 192 \<and> 128 \<le> c 2 \<and> c 2 < 192 \<and>
      i = o' + 3 \<and> unat v = (c 0 mod 16 * 64 + c 1 mod 64) * 64 + c 2 mod 64 \<and>
      2048 \<le> unat v \<and> scalar_ok (unat v)"
    unfolding prod.inject eq [of v3] v(3) [symmetric] by auto
  moreover have "(o' + 3 < sz \<and> (240 \<le> c 0 \<and> c 0 \<le> 247 \<and> 128 \<le> c 1 \<and> c 1 < 192 \<and> 128 \<le> c 2 \<and> c 2 < 192 \<and>
      128 \<le> c 3 \<and> c 3 < 192 \<and> 65536 \<le> unat v4 \<and> scalar_ok (unat v4))) \<and> (v, i) = (v4, o' + 4) \<longleftrightarrow>
    o' + 4 \<le> sz \<and> 240 \<le> c 0 \<and> c 0 \<le> 247 \<and> 128 \<le> c 1 \<and> c 1 < 192 \<and> 128 \<le> c 2 \<and> c 2 < 192 \<and>
      128 \<le> c 3 \<and> c 3 < 192 \<and> i = o' + 4 \<and>
      unat v = ((c 0 mod 8 * 64 + c 1 mod 64) * 64 + c 2 mod 64) * 64 + c 3 mod 64 \<and>
      65536 \<le> unat v \<and> scalar_ok (unat v)"
    unfolding prod.inject eq [of v4] v(4) [symmetric] by auto
  ultimately show ?thesis by (simp only:)
qed

definition rt_pair :: "string \<Rightarrow> nat \<Rightarrow> nat \<Rightarrow> (u32 \<times> nat) option" where
  "rt_pair t o' limit = map_option (\<lambda>(v, i). (v, i - o')) (rt_decode_utf8_scalar t limit o')"

definition rt_count :: "string \<Rightarrow> nat \<Rightarrow> nat \<Rightarrow> nat option" where
  "rt_count t o' n = count_utf8_loop t (length t) o' n"

lemma rt_decode_width:
  assumes "o' < limit" "limit \<le> length t"
  shows "rt_decode_utf8_scalar t limit o' = Some (v, o' + w) \<longleftrightarrow> decodes_to t o' limit (unat v) w"
proof (cases "o' + w \<le> limit")
  case False
  then show ?thesis
    using rt_decode_advances [of t limit o' v "o' + w"] by (auto simp: decodes_to_def)
next
  case True
  let ?c = "\<lambda>i. code (t ! (o' + i))" and ?v = "unat v"
  have f: "?v < 2048 \<Longrightarrow> scalar_ok ?v" "?v < 128 \<Longrightarrow> scalar_ok ?v" by (simp_all add: scalar_ok_def)
  note eqs = rt_decode_cases [OF assms(1)] decodes_by_width [OF True assms(2)] Let_def
  consider "w = 1" | "w = 2" | "w = 3" | "w = 4" | "w = 0 \<or> 4 < w" by linarith
  then show ?thesis
  proof cases
    case 1
    then show ?thesis unfolding eqs by auto
  next
    case 2
    then show ?thesis unfolding eqs using bytes2 [of "?c 0" "?c 1" ?v] True by simp
  next
    case 3
    then show ?thesis unfolding eqs using bytes3 [of "?c 0" "?c 1" "?c 2" ?v] True by simp blast
  next
    case 4
    then show ?thesis unfolding eqs using bytes4 [of "?c 0" "?c 1" "?c 2" "?c 3" ?v] True by simp blast
  next
    case 5
    then have "w \<noteq> 1" "w \<noteq> 2" "w \<noteq> 3" "w \<noteq> 4" by auto
    then show ?thesis unfolding eqs by simp
  qed
qed

lemma rt_pair_iff:
  assumes "limit \<le> length t"
  shows "rt_pair t o' limit = Some (v, w) \<longleftrightarrow> decodes_to t o' limit (unat v) w"
proof (cases "o' < limit")
  case True
  have "rt_pair t o' limit = Some (v, w) \<longleftrightarrow> rt_decode_utf8_scalar t limit o' = Some (v, o' + w)"
  proof (cases "rt_decode_utf8_scalar t limit o'")
    case (Some p)
    obtain v' i where p: "p = (v', i)" by (cases p)
    have "o' < i" using rt_decode_advances Some p by blast
    then show ?thesis using Some p by (auto simp: rt_pair_def)
  qed (simp add: rt_pair_def)
  then show ?thesis using rt_decode_width [OF True assms] by simp
next
  case False
  then have "rt_decode_utf8_scalar t limit o' = None" by (simp add: rt_decode_utf8_scalar_def)
  moreover have "\<not> decodes_to t o' limit (unat v) w"
  proof
    assume "decodes_to t o' limit (unat v) w"
    then have "0 < w" "o' + w \<le> limit" using length_utf8_bytes(1) [of "unat v"] by (auto simp: decodes_to_def)
    then show False using False by linarith
  qed
  ultimately show ?thesis by (simp add: rt_pair_def)
qed

interpretation runtime_utf8: utf8_counter rt_pair rt_count
proof unfold_locales
  fix t :: string and o' n :: nat
  show "rt_count t o' n =
    (if o' < length t then
       (case rt_pair t o' (length t) of None \<Rightarrow> None | Some (v, w) \<Rightarrow> rt_count t (o' + w) (Suc n))
     else Some n)"
    unfolding rt_count_def rt_pair_def
    by (subst count_utf8_loop.simps) (auto split: option.splits dest!: rt_decode_advances)
qed (rule rt_pair_iff)

lemma rt_decode_pair: "rt_decode_utf8_scalar t limit o' = map_option (\<lambda>(v, w). (v, o' + w)) (rt_pair t o' limit)"
  by (auto simp: rt_pair_def option.map_comp o_def split_def dest!: rt_decode_advances intro!: option.map_ident_strong [symmetric])

text \<open>Both decoders meet the same specification, so they agree.\<close>

lemma decoders_agree:
  assumes "limit \<le> length t" shows "rt_pair t o' limit = decode_pair t o' limit"
proof (rule ccontr)
  assume ne: "rt_pair t o' limit \<noteq> decode_pair t o' limit"
  have iff: "rt_pair t o' limit = Some p \<longleftrightarrow> decode_pair t o' limit = Some p" for p
    using runtime_utf8.dec_iff [OF assms] compiler_utf8.dec_iff [OF assms] by (cases p) simp
  show False using ne iff by (cases "rt_pair t o' limit"; cases "decode_pair t o' limit") auto
qed

lemma counters_agree: "try_count_utf8_scalars t (length t) = utf8_scalar_count t"
proof -
  have iff: "try_count_utf8_scalars t (length t) = Some n \<longleftrightarrow> utf8_scalar_count t = Some n" for n
    using runtime_utf8.count_loop_iff [of 0 t 0 n] compiler_utf8.count_loop_iff [of 0 t 0 n]
    by (simp add: try_count_utf8_scalars_def rt_count_def utf8_scalar_count_def)
  then show ?thesis by (metis option.exhaust)
qed

text \<open>
  C24: the runtime's UTF-8 decoder, written as one table of byte ranges, and the compiler's, written
  as a width, a loop and a range check, accept the same sequences and return the same scalars and
  positions at every offset of every text; so do the two counters. Text the compiler accepts in a
  literal is never rejected by the program that contains it.
\<close>

theorem runtime_decoder_equivalent:
  "(limit \<le> length t \<longrightarrow> rt_decode_utf8_scalar t limit o' =
     map_option (\<lambda>s. (scalar_value s, o' + scalar_width s)) (decode_utf8_scalar t o' limit)) \<and>
   try_count_utf8_scalars t (length t) = utf8_scalar_count t"
proof -
  have "rt_decode_utf8_scalar t limit o' =
     map_option (\<lambda>s. (scalar_value s, o' + scalar_width s)) (decode_utf8_scalar t o' limit)"
    if "limit \<le> length t"
    unfolding rt_decode_pair decoders_agree [OF that]
    by (cases "decode_utf8_scalar t o' limit") (simp_all add: decode_pair_def)
  then show ?thesis using counters_agree by blast
qed

theorem runtime_decoder_equivalent_witness:
  "rt_decode_utf8_scalar [CHR 0xC3, CHR 0xA9] 2 0 =
     map_option (\<lambda>s. (scalar_value s, 0 + scalar_width s)) (decode_utf8_scalar [CHR 0xC3, CHR 0xA9] 0 2)"
  using runtime_decoder_equivalent [of 2 "[CHR 0xC3, CHR 0xA9]" 0] by simp

section \<open>String objects and their scalars\<close>

text \<open>A string object that holds the scalars \<open>vs\<close>.\<close>

definition represents :: "ClothString \<Rightarrow> nat list \<Rightarrow> bool" where
  "represents s vs \<longleftrightarrow> st_type s = StringType \<and> (st_data s \<noteq> None \<or> st_byte_size s = 0) \<and>
     length (bytes_of (st_data s)) = st_byte_size s \<and> st_byte_size s \<le> kMaximumStringSize \<and>
     st_scalar_count s = length vs \<and> encodes vs (bytes_of (st_data s))"

text \<open>The byte position of a scalar.\<close>

definition pos :: "nat list \<Rightarrow> nat \<Rightarrow> nat" where
  "pos vs k = length (concat (map utf8_bytes (take k vs)))"

lemma pos_0 [simp]: "pos vs 0 = 0"
  by (simp add: pos_def)

lemma pos_Suc: "k < length vs \<Longrightarrow> pos vs (Suc k) = pos vs k + length (utf8_bytes (vs ! k))"
  by (simp add: pos_def take_Suc_conv_app_nth)

lemma encodes_length: "encodes vs t \<Longrightarrow> length t = pos vs (length vs)"
  unfolding encodes_def pos_def by (metis length_map take_all order_refl)

lemma encodes_drop_pos:
  assumes "encodes vs t" "k \<le> length vs" shows "encodes (drop k vs) (drop (pos vs k) t)"
proof -
  have "map code t = concat (map utf8_bytes (take k vs)) @ concat (map utf8_bytes (drop k vs))"
    using assms(1) unfolding encodes_def by (metis append_take_drop_id concat_append map_append)
  then have "map code (drop (pos vs k) t) = concat (map utf8_bytes (drop k vs))"
    by (simp add: pos_def flip: drop_map)
  then show ?thesis using assms(1) by (auto simp: encodes_def dest: in_set_dropD)
qed

lemma encodes_take_pos:
  assumes "encodes vs t" "k \<le> length vs" shows "encodes (take k vs) (take (pos vs k) t)"
proof -
  have "map code t = concat (map utf8_bytes (take k vs)) @ concat (map utf8_bytes (drop k vs))"
    using assms(1) unfolding encodes_def by (metis append_take_drop_id concat_append map_append)
  then have "map code (take (pos vs k) t) = concat (map utf8_bytes (take k vs))"
    by (simp add: pos_def flip: take_map)
  then show ?thesis using assms(1) by (auto simp: encodes_def dest: in_set_takeD)
qed

lemma pos_strict: "k < length vs \<Longrightarrow> pos vs k < pos vs (Suc k)"
  using length_utf8_bytes(1) [of "vs ! k"] by (simp add: pos_Suc)

lemma pos_mono: "j \<le> k \<Longrightarrow> k \<le> length vs \<Longrightarrow> pos vs j \<le> pos vs k"
proof (induction k)
  case (Suc k)
  then show ?case using pos_strict [of k vs] by (cases "j = Suc k") (auto intro: less_imp_le order_trans)
qed simp

lemma pos_inj: "j \<le> length vs \<Longrightarrow> k \<le> length vs \<Longrightarrow> pos vs j = pos vs k \<Longrightarrow> j = k"
proof (induction j k rule: linorder_wlog)
  case (le a b)
  show ?case
  proof (rule ccontr)
    assume "a \<noteq> b"
    with le have "Suc a \<le> b" by simp
    then have "pos vs (Suc a) \<le> pos vs b" using le by (intro pos_mono) simp_all
    then show False using le pos_strict [of a vs] \<open>Suc a \<le> b\<close> by simp
  qed
qed simp

text \<open>Decoding at the position of a scalar yields it and the next position.\<close>

lemma decode_at_pos:
  assumes "encodes vs t" "k < length vs"
  shows "rt_decode_utf8_scalar t (length t) (pos vs k) = Some (of_nat (vs ! k), pos vs (Suc k))"
    and "unat (of_nat (vs ! k) :: u32) = vs ! k"
proof -
  have "encodes (vs ! k # drop (Suc k) vs) (drop (pos vs k) t)"
    using encodes_drop_pos [OF assms(1), of k] assms(2) by (simp add: Cons_nth_drop_Suc)
  from runtime_utf8.encodes_dec [OF this] obtain v where
    v: "rt_pair t (pos vs k) (length t) = Some (v, length (utf8_bytes (vs ! k)))" "unat v = vs ! k" by auto
  then have "v = of_nat (vs ! k)" unfolding v(2) [symmetric] by simp
  then show "rt_decode_utf8_scalar t (length t) (pos vs k) = Some (of_nat (vs ! k), pos vs (Suc k))"
      "unat (of_nat (vs ! k) :: u32) = vs ! k"
    using v pos_Suc [OF assms(2)] by (simp_all add: rt_decode_pair)
qed

lemma scalar_at_loop_eq:
  assumes "encodes vs t" "k + n \<le> length vs"
  shows "scalar_at_loop t (length t) n (pos vs k) c = Some (if n = 0 then c else of_nat (vs ! (k + n - 1)))"
  using assms(2)
proof (induction n arbitrary: k c)
  case (Suc n)
  then show ?case using decode_at_pos [OF assms(1), of k] Suc.IH [of "Suc k"] by (cases n) auto
qed simp

lemma slice_walk_eq:
  assumes e: "encodes vs t" and "k \<le> length vs" "sw_scalar_index w = k"
    and "sw_found_start w \<longleftrightarrow> ok \<and> a \<le> k" "sw_found_end w \<longleftrightarrow> ok \<and> b \<le> k"
    and "ok \<or> a = 0 \<and> b = 0"
    and "sw_found_start w \<Longrightarrow> sw_start_byte w = pos vs a" "sw_found_end w \<Longrightarrow> sw_end_byte w = pos vs b"
  shows "\<exists>w'. slice_walk t (length t) a b (pos vs k) w = Some w' \<and> sw_scalar_index w' = length vs \<and>
    (sw_found_start w' \<longleftrightarrow> ok \<and> a \<le> length vs) \<and> (sw_found_end w' \<longleftrightarrow> ok \<and> b \<le> length vs) \<and>
    (sw_found_start w' \<longrightarrow> sw_start_byte w' = pos vs a) \<and> (sw_found_end w' \<longrightarrow> sw_end_byte w' = pos vs b)"
  using assms(2-)
proof (induction "length vs - k" arbitrary: k w)
  case 0
  then have k: "k = length vs" by simp
  then have "pos vs k = length t" using encodes_length [OF e] by simp
  then have "slice_walk t (length t) a b (pos vs k) w = Some w" by (subst slice_walk.simps) simp
  then show ?case using 0 k by auto
next
  case (Suc n)
  then have k: "k < length vs" by simp
  have "pos vs (Suc k) \<le> pos vs (length vs)" using k by (intro pos_mono) simp_all
  then have lt: "pos vs k < length t" using pos_strict [OF k] encodes_length [OF e] by simp
  define w1 where "w1 = slice_note a b (pos vs (Suc k)) w"
  have step: "slice_walk t (length t) a b (pos vs k) w = slice_walk t (length t) a b (pos vs (Suc k)) w1"
    using lt decode_at_pos(1) [OF e k] by (subst slice_walk.simps) (simp add: w1_def)
  have w1: "sw_scalar_index w1 = Suc k" "sw_found_start w1 \<longleftrightarrow> ok \<and> a \<le> Suc k" "sw_found_end w1 \<longleftrightarrow> ok \<and> b \<le> Suc k"
      "sw_found_start w1 \<Longrightarrow> sw_start_byte w1 = pos vs a" "sw_found_end w1 \<Longrightarrow> sw_end_byte w1 = pos vs b"
    using Suc.prems by (auto simp: w1_def slice_note_def Let_def)
  have "n = length vs - Suc k" using Suc.hyps(2) by simp
  from Suc.hyps(1) [OF this _ w1(1-3) Suc.prems(5) w1(4,5)] k show ?case unfolding step by simp
qed

lemma le_pos: "k \<le> length vs \<Longrightarrow> k \<le> pos vs k"
proof (induction k)
  case (Suc k)
  then show ?case using pos_strict [of k vs] by simp
qed simp

lemma encodes_count_le: "encodes vs t \<Longrightarrow> length vs \<le> length t"
  using le_pos [of "length vs" vs] encodes_length by simp

lemma represents_count_le: "represents s vs \<Longrightarrow> length vs \<le> kMaximumStringSize"
  using encodes_count_le [of vs "bytes_of (st_data s)"] by (simp add: represents_def)

lemma requires_represented:
  assumes "represents s vs"
  shows "require_string (Some s) = Inr s" "require_traversable_string (Some s) = Inr s"
  using assms represents_count_le [OF assms]
  by (auto simp: require_string_def require_traversable_string_def represents_def)

text \<open>The layout test of the code says exactly that the object represents some scalars.\<close>

lemma valid_layout_iff:
  assumes "st_type s = StringType" "length (bytes_of (st_data s)) = st_byte_size s"
  shows "has_valid_string_layout s \<longleftrightarrow> (\<exists>vs. represents s vs)"
proof -
  have iff: "try_count_utf8_scalars (bytes_of (st_data s)) (st_byte_size s) = Some n \<longleftrightarrow>
      (\<exists>vs. encodes vs (bytes_of (st_data s)) \<and> n = length vs)" for n
    using runtime_utf8.count_loop_iff [of 0 "bytes_of (st_data s)" 0 n] assms(2)
    by (simp add: try_count_utf8_scalars_def rt_count_def)
  have ex: "(case try_count_utf8_scalars (bytes_of (st_data s)) (st_byte_size s) of
        None \<Rightarrow> False | Some count \<Rightarrow> count = st_scalar_count s) \<longleftrightarrow>
      (\<exists>vs. encodes vs (bytes_of (st_data s)) \<and> st_scalar_count s = length vs)"
    unfolding iff [symmetric] by (auto split: option.splits)
  show ?thesis
  proof
    assume "has_valid_string_layout s"
    then show "\<exists>vs. represents s vs" unfolding has_valid_string_layout_def ex represents_def using assms by blast
  next
    assume "\<exists>vs. represents s vs"
    then obtain vs where vs: "represents s vs" by blast
    then have "st_scalar_count s \<le> kMaximumStringSize" using represents_count_le by (simp add: represents_def)
    then show "has_valid_string_layout s"
      using vs unfolding has_valid_string_layout_def ex represents_def by auto
  qed
qed

section \<open>Properties\<close>

text \<open>
  C25: slicing and indexing work on scalars, never inside one. On a string object that represents a
  list of scalars, a slice from \<open>a\<close> to \<open>b\<close> is the UTF-8 of exactly the scalars \<open>a..b-1\<close> with
  their count, and every other pair of bounds is reported; the scalar at an index is that
  scalar, and an index outside the list is reported.
\<close>

theorem string_slice_and_index:
  assumes "represents s vs"
  shows "(if 0 \<le> a \<and> a \<le> b \<and> b \<le> int (length vs)
      then \<exists>bytes. string_slice (Some s) a b = Inr (bytes, nat b - nat a) \<and>
        encodes (take (nat b - nat a) (drop (nat a) vs)) bytes
      else string_slice (Some s) a b = fail ''string slice is out of bounds'') \<and>
    cloth_rt_string_scalar_at (Some s) i =
      (if 0 \<le> i \<and> i < int (length vs) then Inr (of_nat (vs ! nat i))
       else fail ''string index is out of bounds'')"
proof
  define t where "t = bytes_of (st_data s)"
  have t: "encodes vs t" "length t = st_byte_size s" "st_scalar_count s = length vs"
    using assms by (simp_all add: represents_def t_def)
  define ok where "ok = (0 \<le> a \<and> 0 \<le> b)"
  define ra where "ra = (if ok then nat a else 0)"
  define rb where "rb = (if ok then nat b else 0)"
  define w where "w = \<lparr>sw_scalar_index = 0, sw_start_byte = 0, sw_end_byte = 0,
     sw_found_start = (ok \<and> ra = 0), sw_found_end = (ok \<and> rb = 0)\<rparr>"
  obtain w' where w': "slice_walk t (length t) ra rb 0 w = Some w'" "sw_scalar_index w' = length vs"
      "sw_found_start w' \<longleftrightarrow> ok \<and> ra \<le> length vs" "sw_found_end w' \<longleftrightarrow> ok \<and> rb \<le> length vs"
      "sw_found_start w' \<Longrightarrow> sw_start_byte w' = pos vs ra" "sw_found_end w' \<Longrightarrow> sw_end_byte w' = pos vs rb"
  proof -
    have k: "ok \<or> ra = 0 \<and> rb = 0" by (simp add: ra_def rb_def)
    have f: "sw_found_start w \<longleftrightarrow> ok \<and> ra \<le> 0" "sw_found_end w \<longleftrightarrow> ok \<and> rb \<le> 0" "sw_scalar_index w = 0"
        "sw_found_start w \<Longrightarrow> sw_start_byte w = pos vs ra" "sw_found_end w \<Longrightarrow> sw_end_byte w = pos vs rb"
      by (simp_all add: w_def)
    show ?thesis using slice_walk_eq [OF t(1) _ f(3,1,2) k f(4,5)] that by auto
  qed
  have eq: "string_slice (Some s) a b =
      (if \<not> ok \<or> a > b \<or> \<not> sw_found_start w' \<or> \<not> sw_found_end w' then fail ''string slice is out of bounds''
       else Inr (substr t (sw_start_byte w') (sw_end_byte w' - sw_start_byte w'), rb - ra))"
    using w'(1,2) t unfolding string_slice_def requires_represented(2) [OF assms] sum.case Let_def
      ok_def [symmetric] ra_def [symmetric] rb_def [symmetric] w_def [symmetric] t_def [symmetric]
    by simp
  show "if 0 \<le> a \<and> a \<le> b \<and> b \<le> int (length vs)
      then \<exists>bytes. string_slice (Some s) a b = Inr (bytes, nat b - nat a) \<and>
        encodes (take (nat b - nat a) (drop (nat a) vs)) bytes
      else string_slice (Some s) a b = fail ''string slice is out of bounds''"
  proof (cases "0 \<le> a \<and> a \<le> b \<and> b \<le> int (length vs)")
    case True
    then have r: "ok" "ra = nat a" "rb = nat b" "ra \<le> rb" "rb \<le> length vs"
      by (auto simp: ok_def ra_def rb_def nat_le_iff)
    have "encodes (take rb vs) (take (pos vs rb) t)" using encodes_take_pos [OF t(1) r(5)] .
    moreover have "pos (take rb vs) ra = pos vs ra" using r by (simp add: pos_def min_def)
    ultimately have "encodes (drop ra (take rb vs)) (drop (pos vs ra) (take (pos vs rb) t))"
      using encodes_drop_pos [of "take rb vs" "take (pos vs rb) t" ra] r by simp
    then have "encodes (take (rb - ra) (drop ra vs)) (substr t (pos vs ra) (pos vs rb - pos vs ra))"
      by (simp add: substr_def drop_take)
    moreover have "string_slice (Some s) a b = Inr (substr t (pos vs ra) (pos vs rb - pos vs ra), rb - ra)"
      using eq w'(3-6) r True by auto
    ultimately show ?thesis using True r by auto
  next
    case False
    then show ?thesis using eq w'(3,4) by (auto simp: ok_def ra_def rb_def)
  qed
next
  have t: "encodes vs (bytes_of (st_data s))" "length (bytes_of (st_data s)) = st_byte_size s"
      "st_type s = StringType" "st_scalar_count s = length vs"
    using assms by (simp_all add: represents_def)
  have "has_valid_string_layout s" using valid_layout_iff [OF t(3,2)] assms by blast
  moreover have "scalar_at_loop (bytes_of (st_data s)) (st_byte_size s) (nat i + 1) 0 0 = Some (of_nat (vs ! nat i))"
    if "0 \<le> i" "nat i < length vs"
    using scalar_at_loop_eq [OF t(1), of 0 "nat i + 1" 0] that t(2) by simp
  ultimately show "cloth_rt_string_scalar_at (Some s) i =
      (if 0 \<le> i \<and> i < int (length vs) then Inr (of_nat (vs ! nat i))
       else fail ''string index is out of bounds'')"
    using requires_represented(2) [OF assms] t(4)
    by (auto simp: cloth_rt_string_scalar_at_def nat_less_iff)
qed

theorem string_slice_and_index_witness:
  "\<exists>s. represents s [0x61, 0xE9] \<and> cloth_rt_string_scalar_at (Some s) 1 = Inr 0xE9 \<and>
     string_slice (Some s) 1 3 = fail ''string slice is out of bounds''"
proof -
  define s where "s = \<lparr>st_type = StringType, st_data = Some [CHR 0x61, CHR 0xC3, CHR 0xA9],
    st_byte_size = 3, st_scalar_count = 2, st_owns_data = False\<rparr>"
  have s: "represents s [0x61, 0xE9]"
    by (simp add: s_def represents_def kMaximumStringSize_def encodes_def utf8_bytes_def scalar_ok_def)
  show ?thesis using string_slice_and_index [OF s, of 1 3 1] s by (intro exI [of _ s]) simp
qed

lemma utf8_bytes_lead: "scalar_ok v \<Longrightarrow> \<not> (128 \<le> utf8_bytes v ! 0 \<and> utf8_bytes v ! 0 < 192)"
  by (auto simp: utf8_bytes_def scalar_ok_def)

lemma utf8_bytes_tail: "0 < i \<Longrightarrow> i < length (utf8_bytes v) \<Longrightarrow> 128 \<le> utf8_bytes v ! i \<and> utf8_bytes v ! i < 192"
proof -
  assume i: "0 < i" "i < length (utf8_bytes v)"
  then have "i = 1 \<or> i = 2 \<or> i = 3" using length_utf8_bytes(2) [of v] by linarith
  then show ?thesis using i(2) by (elim disjE) (simp_all add: utf8_bytes_def split: if_splits)
qed

lemma byte_at_pos:
  assumes "encodes vs t" "k < length vs" "i < length (utf8_bytes (vs ! k))"
  shows "code (t ! (pos vs k + i)) = utf8_bytes (vs ! k) ! i" "pos vs k + i < length t"
proof -
  have e: "encodes (vs ! k # drop (Suc k) vs) (drop (pos vs k) t)"
    using encodes_drop_pos [OF assms(1), of k] assms(2) by (simp add: Cons_nth_drop_Suc)
  then have m: "map code (drop (pos vs k) t) = utf8_bytes (vs ! k) @ concat (map utf8_bytes (drop (Suc k) vs))"
    by (simp add: encodes_def)
  then have "length (drop (pos vs k) t) \<ge> length (utf8_bytes (vs ! k))" by (metis length_append length_map le_add1)
  then show l: "pos vs k + i < length t" using assms(3) by simp
  have "code (drop (pos vs k) t ! i) = map code (drop (pos vs k) t) ! i" using l by simp
  also have "\<dots> = utf8_bytes (vs ! k) ! i" using m assms(3) by (simp add: nth_append)
  finally show "code (t ! (pos vs k + i)) = utf8_bytes (vs ! k) ! i" using l by simp
qed

text \<open>Every byte position is the start of a scalar, or inside one.\<close>

lemma pos_cover:
  assumes "p < pos vs n" "n \<le> length vs"
  obtains k i where "k < n" "p = pos vs k + i" "i < length (utf8_bytes (vs ! k))"
  using assms
proof (induction n arbitrary: thesis)
  case (Suc n)
  show ?case
  proof (cases "p < pos vs n")
    case True
    then show ?thesis using Suc by (metis Suc_leD less_SucI)
  next
    case False
    then have "p = pos vs n + (p - pos vs n)" by simp
    moreover have "p - pos vs n < length (utf8_bytes (vs ! n))" using False Suc.prems by (simp add: pos_Suc)
    ultimately show ?thesis using Suc.prems(1) [of n] by blast
  qed
qed simp

text \<open>
  C26: iteration visits the scalars in order. On a string object that represents a list of scalars,
  a step from the byte position of a scalar returns that scalar and the position of the next one, a
  step from the end returns nothing, and every cursor that is not the start of a scalar (negative,
  past the end, or inside a scalar) is reported.
\<close>

theorem string_iteration:
  assumes "represents s vs"
  shows "cloth_rt_string_next_scalar (Some s) p =
    (if p < 0 \<or> int (pos vs (length vs)) < p then fail ''string iteration cursor is invalid''
     else if p = int (pos vs (length vs)) then Inr None
     else case find (\<lambda>k. p = int (pos vs k)) [0..<length vs] of
       Some k \<Rightarrow> Inr (Some (pos vs (Suc k), of_nat (vs ! k)))
     | None \<Rightarrow> fail ''string iteration cursor is not at a scalar boundary'')"
proof -
  define t where "t = bytes_of (st_data s)"
  have t: "encodes vs t" "length t = st_byte_size s" "st_type s = StringType" "st_byte_size s \<le> kMaximumStringSize"
    using assms by (simp_all add: represents_def t_def)
  have len: "st_byte_size s = pos vs (length vs)" using encodes_length [OF t(1)] t(2) by simp
  have lay: "has_valid_string_layout s" using valid_layout_iff [OF t(3)] assms t(2) by (auto simp: t_def)
  have next_eq: "cloth_rt_string_next_scalar (Some s) p =
      (if p < 0 \<or> nat p > length t then fail ''string iteration cursor is invalid''
       else if nat p = length t then Inr None
       else if nat p \<noteq> 0 \<and> 128 \<le> code (t ! nat p) \<and> code (t ! nat p) < 192
       then fail ''string iteration cursor is not at a scalar boundary''
       else case rt_decode_utf8_scalar t (length t) (nat p) of
           None \<Rightarrow> fail ''string has an invalid layout''
         | Some (scalar, i) \<Rightarrow> if i > kMaximumStringSize then fail ''string has an invalid layout''
             else Inr (Some (i, scalar)))"
    using requires_represented(2) [OF assms] lay t(2)
    by (simp add: cloth_rt_string_next_scalar_def continuation_code flip: t_def)
  show ?thesis
  proof (cases "p < 0 \<or> int (pos vs (length vs)) \<le> p")
    case True
    then show ?thesis unfolding next_eq using t(2) len by auto
  next
    case False
    then obtain k i where ki: "k < length vs" "nat p = pos vs k + i" "i < length (utf8_bytes (vs ! k))"
      using pos_cover [of "nat p" vs "length vs"] by (auto simp: nat_less_iff)
    note b = byte_at_pos [OF t(1) ki(1,3)]
    have ok: "scalar_ok (vs ! k)" using t(1) ki(1) by (simp add: encodes_def)
    have between: "j = k \<and> i = 0" if "j < length vs" "p = int (pos vs j)" for j
    proof -
      have p: "pos vs j = pos vs k + i" using that(2) ki(2) by simp
      have "pos vs k + i < pos vs (Suc k)" using ki by (simp add: pos_Suc)
      then have "\<not> Suc k \<le> j" using p pos_mono [of "Suc k" j vs] that(1) by auto
      moreover have "\<not> j < k" using p pos_mono [of "Suc j" k vs] pos_strict [OF that(1)] ki(1) by auto
      ultimately have "j = k" by linarith
      then show ?thesis using p by simp
    qed
    show ?thesis
    proof (cases "i = 0")
      case True
      have "find (\<lambda>k. p = int (pos vs k)) [0..<length vs] = Some k"
      proof -
        have pk: "p = int (pos vs k)" using ki(2) True False by linarith
        have nk: "p \<noteq> int (pos vs j)" if "j < k" for j using between [of j] that ki(1) by auto
        have "k < length [0..<length vs] \<and> p = int (pos vs ([0..<length vs] ! k)) \<and> k = [0..<length vs] ! k \<and>
            (\<forall>j<k. \<not> p = int (pos vs ([0..<length vs] ! j)))"
        proof (intro conjI allI impI)
          fix j assume "j < k"
          then show "\<not> p = int (pos vs ([0..<length vs] ! j))" using nk [of j] ki(1) by simp
        qed (use pk ki(1) in simp_all)
        then show ?thesis unfolding find_Some_iff by blast
      qed
      moreover have "pos vs (Suc k) \<le> kMaximumStringSize"
        using pos_mono [of "Suc k" "length vs" vs] ki(1) len t(4) by auto
      moreover have "\<not> (nat p \<noteq> 0 \<and> 128 \<le> code (t ! nat p) \<and> code (t ! nat p) < 192)"
        using utf8_bytes_lead [OF ok] b(1) ki(2) True by simp
      moreover have "rt_decode_utf8_scalar t (length t) (nat p) = Some (of_nat (vs ! k), pos vs (Suc k))"
        using decode_at_pos(1) [OF t(1) ki(1)] ki(2) True by simp
      moreover have "\<not> (p < 0 \<or> nat p > length t)" "nat p \<noteq> length t" using b(2) ki(2) False by auto
      ultimately show ?thesis unfolding next_eq using False by simp
    next
      case inside: False
      have "find (\<lambda>k. p = int (pos vs k)) [0..<length vs] = None"
        using between inside by (auto simp: find_None_iff)
      moreover have "nat p \<noteq> 0 \<and> 128 \<le> code (t ! nat p) \<and> code (t ! nat p) < 192"
        using utf8_bytes_tail [of i "vs ! k"] inside b(1) ki by simp
      moreover have "\<not> (p < 0 \<or> nat p > length t)" "nat p \<noteq> length t" using b(2) ki(2) False by auto
      ultimately show ?thesis unfolding next_eq using False by simp
    qed
  qed
qed

theorem string_iteration_witness:
  "\<exists>s. represents s [0x61, 0xE9] \<and>
     cloth_rt_string_next_scalar (Some s) 1 = Inr (Some (3, 0xE9)) \<and>
     cloth_rt_string_next_scalar (Some s) 2 = fail ''string iteration cursor is not at a scalar boundary''"
proof -
  define s where "s = \<lparr>st_type = StringType, st_data = Some [CHR 0x61, CHR 0xC3, CHR 0xA9],
    st_byte_size = 3, st_scalar_count = 2, st_owns_data = False\<rparr>"
  have s: "represents s [0x61, 0xE9]"
    by (simp add: s_def represents_def kMaximumStringSize_def encodes_def utf8_bytes_def scalar_ok_def)
  have p: "pos [0x61, 0xE9] (Suc 0) = 1" "pos [0x61, 0xE9] 2 = 3" "pos [0x61, 0xE9] (Suc (Suc 0)) = 3"
    by (simp_all add: pos_def utf8_bytes_def)
  show ?thesis using string_iteration [OF s, of 1] string_iteration [OF s, of 2] s p
    by (intro exI [of _ s]) (simp add: upt_rec)
qed

end
