(* ===== verification/Runtime_Types.thy ===== *)
theory Runtime_Types
  imports Runtime_Strings "HOL-Library.Sublist"
begin

text \<open>
  Type metadata in the runtime library (\<^verbatim>\<open>runtime/runtime.cc\<close>): the descriptors and value
  layouts the compiler emits, their validation, and the type tests and interface dispatch built on
  them. A pointer to a descriptor is a \<open>TypeRef\<close>, a pointer to a value layout an index into the
  program's layouts, a pointer to a table the list of its cells, and \<open>None\<close> the null pointer; a table
  has as many cells as its count says (\<open>tables_complete\<close>). The pointer size is eight bytes.
\<close>

section \<open>Metadata\<close>

datatype ClothHeapObjectKind = hkFileClass | hkString | hkArray | hkError | hkValueBox | hkOther u64

datatype ClothValueKind =
    vkBool | vkChar | vkByte | vkInt8 | vkInt16 | vkInt32 | vkInt64 | vkUint8 | vkUint16 | vkUint32
  | vkUint64 | vkFloat32 | vkFloat64 | vkString | vkReference | vkEnum | vkStruct | vkNullable
  | vkOther u64

datatype RuntimeFunction =
    ObjectEquals | ObjectHashCode | ObjectToString | StringEquals | StringHashCode | StringToString
  | ProgramFunction nat

type_synonym LayoutRef = "nat option"

record ClothValueFieldLayout =
  vf_type :: LayoutRef
  vf_offset :: nat
  vf_name :: "string option"
  vf_name_size :: nat

record ClothEnumCaseLayout =
  ec_name :: "string option"
  ec_name_size :: nat

record ClothValueLayout =
  vl_kind :: ClothValueKind
  vl_name :: "string option"
  vl_name_size :: nat
  vl_size :: nat
  vl_alignment :: nat
  vl_fields :: "ClothValueFieldLayout list option"
  vl_field_count :: nat
  vl_enum_cases :: "ClothEnumCaseLayout list option"
  vl_enum_case_count :: nat

record ClothInterfaceDispatch =
  id_interface_id :: nat
  id_functions :: "RuntimeFunction option list option"
  id_function_count :: nat

record ClothTypeDescriptor =
  td_kind :: ClothHeapObjectKind
  td_parent :: TypeRef
  td_name :: "string option"
  td_name_size :: nat
  td_size :: nat
  td_alignment :: nat
  td_reference_offsets :: "nat list option"
  td_reference_count :: nat
  td_virtual_functions :: "RuntimeFunction option list option"
  td_virtual_function_count :: nat
  td_interfaces :: "ClothInterfaceDispatch list option"
  td_interface_count :: nat
  td_boxed_value_layout :: LayoutRef
  td_boxed_value_offset :: nat

record ClothObjectHeader =
  oh_type :: TypeRef
  oh_runtime_state :: "u64 option"

text \<open>The metadata of one program: its descriptors, which \<open>ProgramType\<close> numbers, and its layouts.\<close>

record Metadata =
  md_types :: "ClothTypeDescriptor list"
  md_layouts :: "ClothValueLayout list"

abbreviation cells :: "'a list option \<Rightarrow> nat \<Rightarrow> 'a list" where
  "cells table count \<equiv> take count (case table of None \<Rightarrow> [] | Some xs \<Rightarrow> xs)"

definition sizeof_pointer :: nat where "sizeof_pointer = 8"

definition sizeof_ClothObjectHeader :: nat where "sizeof_ClothObjectHeader = 16"

definition sizeof_ClothString :: nat where "sizeof_ClothString = 48"

definition sizeof_ClothError :: nat where "sizeof_ClothError = 24"

definition sizeof_ClothArray :: nat where "sizeof_ClothArray = 48"

definition kObjectTypeName :: string where "kObjectTypeName = ''cloth.lang.Object''"

definition kObjectVirtualFunctions :: "RuntimeFunction option list" where
  "kObjectVirtualFunctions = [Some ObjectEquals, Some ObjectHashCode, Some ObjectToString]"

definition kStringVirtualFunctions :: "RuntimeFunction option list" where
  "kStringVirtualFunctions = [Some StringEquals, Some StringHashCode, Some StringToString]"

definition kErrorReferenceOffsets :: "nat list" where
  "kErrorReferenceOffsets = [16]"

definition kStringTypeDescriptor :: ClothTypeDescriptor where
  "kStringTypeDescriptor =
     \<lparr>td_kind = hkString, td_parent = ObjectType, td_name = Some ''string'', td_name_size = 6,
      td_size = sizeof_ClothString, td_alignment = 8, td_reference_offsets = None, td_reference_count = 0,
      td_virtual_functions = Some kStringVirtualFunctions, td_virtual_function_count = 3,
      td_interfaces = None, td_interface_count = 0, td_boxed_value_layout = None,
      td_boxed_value_offset = 0\<rparr>"

definition kArrayTypeDescriptor :: ClothTypeDescriptor where
  "kArrayTypeDescriptor =
     \<lparr>td_kind = hkArray, td_parent = ObjectType, td_name = Some ''Array'', td_name_size = 5,
      td_size = sizeof_ClothArray, td_alignment = 8, td_reference_offsets = None, td_reference_count = 0,
      td_virtual_functions = Some kObjectVirtualFunctions, td_virtual_function_count = 3,
      td_interfaces = None, td_interface_count = 0, td_boxed_value_layout = None,
      td_boxed_value_offset = 0\<rparr>"

definition cloth_rt_object_type :: ClothTypeDescriptor where
  "cloth_rt_object_type =
     \<lparr>td_kind = hkFileClass, td_parent = NullType, td_name = Some kObjectTypeName, td_name_size = 17,
      td_size = sizeof_ClothObjectHeader, td_alignment = 8, td_reference_offsets = None,
      td_reference_count = 0, td_virtual_functions = Some kObjectVirtualFunctions,
      td_virtual_function_count = 3, td_interfaces = None, td_interface_count = 0,
      td_boxed_value_layout = None, td_boxed_value_offset = 0\<rparr>"

definition cloth_rt_error_type :: ClothTypeDescriptor where
  "cloth_rt_error_type =
     \<lparr>td_kind = hkError, td_parent = ObjectType, td_name = Some ''Error'', td_name_size = 5,
      td_size = sizeof_ClothError, td_alignment = 8, td_reference_offsets = Some kErrorReferenceOffsets,
      td_reference_count = 1, td_virtual_functions = Some kObjectVirtualFunctions,
      td_virtual_function_count = 3, td_interfaces = None, td_interface_count = 0,
      td_boxed_value_layout = None, td_boxed_value_offset = 0\<rparr>"

definition cloth_rt_division_by_zero_type :: ClothTypeDescriptor where
  "cloth_rt_division_by_zero_type =
     \<lparr>td_kind = hkError, td_parent = ErrorType, td_name = Some ''DivisionByZero'', td_name_size = 14,
      td_size = sizeof_ClothError, td_alignment = 8, td_reference_offsets = Some kErrorReferenceOffsets,
      td_reference_count = 1, td_virtual_functions = Some kObjectVirtualFunctions,
      td_virtual_function_count = 3, td_interfaces = None, td_interface_count = 0,
      td_boxed_value_layout = None, td_boxed_value_offset = 0\<rparr>"

text \<open>Reading through a descriptor pointer; the null pointer is never read.\<close>

fun descriptor :: "Metadata \<Rightarrow> TypeRef \<Rightarrow> ClothTypeDescriptor" where
  "descriptor M ObjectType = cloth_rt_object_type"
| "descriptor M StringType = kStringTypeDescriptor"
| "descriptor M ArrayType = kArrayTypeDescriptor"
| "descriptor M ErrorType = cloth_rt_error_type"
| "descriptor M DivisionByZeroType = cloth_rt_division_by_zero_type"
| "descriptor M (ProgramType n) = md_types M ! n"

abbreviation layout_at :: "Metadata \<Rightarrow> LayoutRef \<Rightarrow> ClothValueLayout" where
  "layout_at M ref \<equiv> md_layouts M ! the ref"

section \<open>Validation\<close>

definition is_power_of_two :: "nat \<Rightarrow> bool" where
  "is_power_of_two v \<longleftrightarrow> v \<noteq> 0 \<and> v AND (v - 1) = 0"

definition is_heap_object_kind :: "ClothHeapObjectKind \<Rightarrow> bool" where
  "is_heap_object_kind kind \<longleftrightarrow>
     kind = hkFileClass \<or> kind = hkString \<or> kind = hkArray \<or> kind = hkError \<or> kind = hkValueBox"

fun scalar_value_size :: "ClothValueKind \<Rightarrow> nat" where
  "scalar_value_size vkBool = 1" | "scalar_value_size vkByte = 1"
| "scalar_value_size vkInt8 = 1" | "scalar_value_size vkUint8 = 1"
| "scalar_value_size vkInt16 = 2" | "scalar_value_size vkUint16 = 2"
| "scalar_value_size vkChar = 4" | "scalar_value_size vkInt32 = 4"
| "scalar_value_size vkUint32 = 4" | "scalar_value_size vkFloat32 = 4"
| "scalar_value_size vkEnum = 4"
| "scalar_value_size vkInt64 = 8" | "scalar_value_size vkUint64 = 8"
| "scalar_value_size vkFloat64 = 8"
| "scalar_value_size vkString = sizeof_pointer" | "scalar_value_size vkReference = sizeof_pointer"
| "scalar_value_size vkStruct = 0" | "scalar_value_size vkNullable = 0"
| "scalar_value_size (vkOther _) = 0"

text \<open>The checks of one layout before the loop over its fields.\<close>

definition validate_layout_header :: "ClothValueLayout \<Rightarrow> unit outcome" where
  "validate_layout_header l =
     (if vl_name l = None \<or> vl_name_size l = 0 \<or> vl_size l = 0 \<or> \<not> is_power_of_two (vl_alignment l) \<or>
         vl_size l mod vl_alignment l \<noteq> 0 \<or> (vl_fields l = None) \<noteq> (vl_field_count l = 0) \<or>
         (vl_enum_cases l = None) \<noteq> (vl_enum_case_count l = 0)
      then fail ''value layout metadata is invalid''
      else if scalar_value_size (vl_kind l) \<noteq> 0 \<and>
              (vl_size l \<noteq> scalar_value_size (vl_kind l) \<or> vl_field_count l \<noteq> 0)
      then fail ''scalar value layout has invalid storage''
      else if vl_kind l = vkEnum \<and> vl_enum_case_count l = 0
      then fail ''enum value layout has no cases''
      else if vl_kind l = vkEnum \<and>
              list_ex (\<lambda>item. ec_name item = None \<or> ec_name_size item = 0)
                (cells (vl_enum_cases l) (vl_enum_case_count l))
      then fail ''enum case layout is invalid''
      else if vl_kind l \<noteq> vkEnum \<and> vl_enum_case_count l \<noteq> 0
      then fail ''non-enum value layout has enum cases''
      else if vl_kind l = vkNullable \<and> vl_field_count l \<noteq> 1
      then fail ''nullable value layout has the wrong payload count''
      else if vl_kind l \<noteq> vkStruct \<and> vl_kind l \<noteq> vkNullable \<and> vl_field_count l \<noteq> 0
      then fail ''non-aggregate value layout has fields''
      else Inr ())"

definition field_layout_invalid ::
  "Metadata \<Rightarrow> ClothValueLayout \<Rightarrow> nat \<Rightarrow> ClothValueFieldLayout \<Rightarrow> bool" where
  "field_layout_invalid M l previous_end field \<longleftrightarrow>
     (let t = layout_at M (vf_type field) in
      vf_offset field < previous_end \<or> vf_offset field mod vl_alignment t \<noteq> 0 \<or>
      vf_offset field > vl_size l \<or> vl_size t > vl_size l - vf_offset field \<or>
      (vl_kind l = vkStruct \<and> (vf_name field = None \<or> vf_name_size field = 0)) \<or>
      (vl_kind l = vkNullable \<and> (vf_name field \<noteq> None \<or> vf_name_size field \<noteq> 0)))"

text \<open>\<open>validate_fields\<close> is the loop over the fields of \<open>l\<close>, from the previous field's end on; it runs
  at depths up to 128 only, which its first test makes plain.\<close>

function (sequential) validate_value_layout :: "Metadata \<Rightarrow> LayoutRef \<Rightarrow> nat \<Rightarrow> unit outcome"
  and validate_fields ::
    "Metadata \<Rightarrow> ClothValueLayout \<Rightarrow> nat \<Rightarrow> nat \<Rightarrow> ClothValueFieldLayout list \<Rightarrow> unit outcome" where
  "validate_value_layout M layout depth =
     (if layout = None \<or> depth > 128 then fail ''value layout metadata is invalid''
      else case validate_layout_header (layout_at M layout) of
        Inl e \<Rightarrow> fail e
      | Inr _ \<Rightarrow>
          validate_fields M (layout_at M layout) depth
            (if vl_kind (layout_at M layout) = vkNullable then 1 else 0)
            (cells (vl_fields (layout_at M layout)) (vl_field_count (layout_at M layout))))"
| "validate_fields M l depth previous_end [] = Inr ()"
| "validate_fields M l depth previous_end (field # fs) =
     (if depth > 128 then Inr ()
      else case validate_value_layout M (vf_type field) (depth + 1) of
        Inl e \<Rightarrow> fail e
      | Inr _ \<Rightarrow>
          if field_layout_invalid M l previous_end field
          then fail ''aggregate value field layout is invalid''
          else validate_fields M l depth (vf_offset field + vl_size (layout_at M (vf_type field))) fs)"
  by pat_completeness auto
termination
  by (relation "measures
        [\<lambda>x. case x of Inl (M, layout, depth) \<Rightarrow> 2 * (129 - depth)
                     | Inr (M, l, depth, previous_end, fs) \<Rightarrow> 2 * (129 - depth) - 1,
         \<lambda>x. case x of Inl _ \<Rightarrow> 0 | Inr (M, l, depth, previous_end, fs) \<Rightarrow> length fs]") auto

definition is_object_root_descriptor :: "Metadata \<Rightarrow> TypeRef \<Rightarrow> bool" where
  "is_object_root_descriptor M type \<longleftrightarrow>
     type = ObjectType \<or>
     (type \<noteq> NullType \<and> td_kind (descriptor M type) = hkFileClass \<and> td_name (descriptor M type) \<noteq> None \<and>
      td_name_size (descriptor M type) = 17 \<and> take 17 (the (td_name (descriptor M type))) = kObjectTypeName)"

definition has_invalid_parent :: "Metadata \<Rightarrow> TypeRef \<Rightarrow> bool" where
  "has_invalid_parent M type \<longleftrightarrow>
     (let d = descriptor M type; parent = td_parent d; p = descriptor M parent in
      parent \<noteq> NullType \<and>
      (parent = type \<or> (td_kind p \<noteq> td_kind d \<and> \<not> is_object_root_descriptor M parent) \<or>
       td_size p > td_size d \<or> td_alignment p > td_alignment d \<or>
       (td_virtual_function_count p > td_virtual_function_count d \<and>
        \<not> (parent = ErrorType \<and> td_virtual_function_count d < 3))))"

text \<open>The boxed payload of a value box.\<close>

definition validate_boxed_value :: "Metadata \<Rightarrow> ClothTypeDescriptor \<Rightarrow> unit outcome" where
  "validate_boxed_value M d =
     (if td_boxed_value_layout d \<noteq> None then
        (case validate_value_layout M (td_boxed_value_layout d) 0 of
           Inl e \<Rightarrow> fail e
         | Inr _ \<Rightarrow>
             let l = layout_at M (td_boxed_value_layout d) in
             if td_boxed_value_offset d < sizeof_ClothObjectHeader \<or>
                td_boxed_value_offset d mod vl_alignment l \<noteq> 0 \<or> td_boxed_value_offset d > td_size d \<or>
                vl_size l > td_size d - td_boxed_value_offset d
             then fail ''object boxed-value payload is out of bounds'' else Inr ())
      else if td_kind d = hkValueBox then fail ''value-box descriptor has no payload metadata''
      else Inr ())"

text \<open>The loop over the dispatch tables; \<open>previous\<close> is the last interface id, once there is one.\<close>

fun validate_interfaces :: "nat option \<Rightarrow> ClothInterfaceDispatch list \<Rightarrow> unit outcome" where
  "validate_interfaces previous [] = Inr ()"
| "validate_interfaces previous (i # is) =
     (if (id_functions i = None) \<noteq> (id_function_count i = 0) \<or>
         (previous \<noteq> None \<and> id_interface_id i \<le> the previous)
      then fail ''object interface dispatch metadata is invalid''
      else if list_ex (\<lambda>f. f = None) (cells (id_functions i) (id_function_count i))
      then fail ''object interface function slot is null''
      else validate_interfaces (Some (id_interface_id i)) is)"

text \<open>Whether the first dispatch table with the parent's id has as many functions as the parent's.\<close>

definition inherits_interface :: "ClothInterfaceDispatch list \<Rightarrow> ClothInterfaceDispatch \<Rightarrow> bool" where
  "inherits_interface own parent_interface =
     (case find (\<lambda>i. id_interface_id i = id_interface_id parent_interface) own of
        None \<Rightarrow> False
      | Some i \<Rightarrow> id_function_count i = id_function_count parent_interface)"

abbreviation interfaces_of :: "ClothTypeDescriptor \<Rightarrow> ClothInterfaceDispatch list" where
  "interfaces_of d \<equiv> cells (td_interfaces d) (td_interface_count d)"

fun validate_offsets :: "nat \<Rightarrow> nat option \<Rightarrow> nat list \<Rightarrow> unit outcome" where
  "validate_offsets sz previous [] = Inr ()"
| "validate_offsets sz previous (offset # offsets) =
     (if offset < sizeof_ClothObjectHeader \<or> offset mod 8 \<noteq> 0 \<or> offset > sz \<or>
         sizeof_pointer > sz - offset \<or> (previous \<noteq> None \<and> offset \<le> the previous)
      then fail ''object reference metadata has an invalid offset''
      else validate_offsets sz (Some offset) offsets)"

definition validate_type_descriptor :: "Metadata \<Rightarrow> TypeRef \<Rightarrow> unit outcome" where
  "validate_type_descriptor M type =
     (let d = descriptor M type in
      if type = NullType then fail ''object type descriptor is null''
      else if \<not> is_heap_object_kind (td_kind d) then fail ''object type descriptor has the wrong kind''
      else if has_invalid_parent M type then fail ''object type descriptor has an invalid parent''
      else if td_name d = None \<and> td_name_size d \<noteq> 0 then fail ''object type name has null storage''
      else if td_size d < sizeof_ClothObjectHeader then fail ''object is smaller than its runtime header''
      else if \<not> is_power_of_two (td_alignment d) \<or> td_alignment d < 8 then fail ''invalid object alignment''
      else if (td_reference_offsets d = None) \<noteq> (td_reference_count d = 0)
      then fail ''object reference metadata is inconsistent''
      else if (td_virtual_functions d = None) \<noteq> (td_virtual_function_count d = 0)
      then fail ''object virtual-function metadata is inconsistent''
      else if list_ex (\<lambda>f. f = None) (cells (td_virtual_functions d) (td_virtual_function_count d))
      then fail ''object virtual-function slot is null''
      else if (td_interfaces d = None) \<noteq> (td_interface_count d = 0)
      then fail ''object interface metadata is inconsistent''
      else if (td_boxed_value_layout d = None) \<noteq> (td_boxed_value_offset d = 0)
      then fail ''object boxed-value metadata is inconsistent''
      else case validate_boxed_value M d of
        Inl e \<Rightarrow> fail e
      | Inr _ \<Rightarrow>
      (case validate_interfaces None (interfaces_of d) of
        Inl e \<Rightarrow> fail e
      | Inr _ \<Rightarrow>
      if td_parent d \<noteq> NullType \<and>
         \<not> list_all (inherits_interface (interfaces_of d)) (interfaces_of (descriptor M (td_parent d)))
      then fail ''derived object lost inherited interface metadata''
      else validate_offsets (td_size d) None (cells (td_reference_offsets d) (td_reference_count d))))"

section \<open>Type tests and dispatch\<close>

definition require_object :: "ClothObjectHeader option \<Rightarrow> ClothObjectHeader outcome" where
  "require_object v =
     (case v of
        None \<Rightarrow> fail ''null object''
      | Some obj \<Rightarrow> if oh_type obj = NullType then fail ''object has no type descriptor'' else Inr obj)"

text \<open>\<^verbatim>\<open>static_cast<ClothHeapObjectKind>(kind)\<close>\<close>

definition heap_object_kind_of :: "u64 \<Rightarrow> ClothHeapObjectKind" where
  "heap_object_kind_of kind =
     (if kind = 0 then hkFileClass else if kind = 1 then hkString else if kind = 2 then hkArray
      else if kind = 3 then hkError else if kind = 4 then hkValueBox else hkOther kind)"

definition cloth_rt_object_is_kind :: "Metadata \<Rightarrow> ClothObjectHeader option \<Rightarrow> u64 \<Rightarrow> bool outcome" where
  "cloth_rt_object_is_kind M v kind =
     (if v = None then Inr False
      else if kind > 4 then fail ''invalid heap object kind''
      else case require_object v of
        Inl e \<Rightarrow> fail e
      | Inr obj \<Rightarrow> Inr (td_kind (descriptor M (oh_type obj)) = heap_object_kind_of kind))"

text \<open>One of the pointers of the cycle check, moved up to \<open>n\<close> parents on.\<close>

primrec advance_parents :: "Metadata \<Rightarrow> nat \<Rightarrow> TypeRef \<Rightarrow> TypeRef outcome" where
  "advance_parents M 0 t = Inr t"
| "advance_parents M (Suc n) t =
     (if t = NullType then Inr NullType
      else case validate_type_descriptor M t of
        Inl e \<Rightarrow> fail e
      | Inr _ \<Rightarrow> advance_parents M n (td_parent (descriptor M t)))"

partial_function (option) is_type_loop ::
  "Metadata \<Rightarrow> TypeRef \<Rightarrow> TypeRef \<Rightarrow> TypeRef \<Rightarrow> TypeRef \<Rightarrow> bool outcome option" where
  "is_type_loop M type current slow fast =
     (if current = NullType then Some (Inr False)
      else if \<not> is_heap_object_kind (td_kind (descriptor M current)) then Some (Inr False)
      else case validate_type_descriptor M current of
        Inl e \<Rightarrow> Some (fail e)
      | Inr _ \<Rightarrow>
          if current = type then Some (Inr True)
          else case advance_parents M 1 slow of
            Inl e \<Rightarrow> Some (fail e)
          | Inr slow' \<Rightarrow> (case advance_parents M 2 fast of
              Inl e \<Rightarrow> Some (fail e)
            | Inr fast' \<Rightarrow>
                if slow' \<noteq> NullType \<and> slow' = fast'
                then Some (fail ''object type descriptor ancestry contains a cycle'')
                else is_type_loop M type (td_parent (descriptor M current)) slow' fast'))"

definition cloth_rt_object_is_type ::
  "Metadata \<Rightarrow> ClothObjectHeader option \<Rightarrow> TypeRef \<Rightarrow> bool outcome option" where
  "cloth_rt_object_is_type M v type =
     (case validate_type_descriptor M type of
        Inl e \<Rightarrow> Some (fail e)
      | Inr _ \<Rightarrow>
          if v = None then Some (Inr False)
          else case require_object v of
            Inl e \<Rightarrow> Some (fail e)
          | Inr obj \<Rightarrow> is_type_loop M type (oh_type obj) (oh_type obj) (oh_type obj))"

text \<open>The binary search for an interface id; the result is the first index not below it.\<close>

function interface_search :: "ClothInterfaceDispatch list \<Rightarrow> nat \<Rightarrow> nat \<Rightarrow> nat \<Rightarrow> nat" where
  "interface_search is interface_id b e =
     (if b < e then
        let middle = b + (e - b) div 2 in
        if id_interface_id (is ! middle) < interface_id then interface_search is interface_id (middle + 1) e
        else interface_search is interface_id b middle
      else b)"
  by pat_completeness auto
termination
  by (relation "measure (\<lambda>(is, interface_id, b, e). e - b)") auto

declare interface_search.simps [simp del]

definition find_interface_dispatch :: "ClothTypeDescriptor \<Rightarrow> nat \<Rightarrow> ClothInterfaceDispatch option" where
  "find_interface_dispatch d interface_id =
     (let is = interfaces_of d; b = interface_search is interface_id 0 (td_interface_count d) in
      if b = td_interface_count d \<or> id_interface_id (is ! b) \<noteq> interface_id then None else Some (is ! b))"

definition cloth_rt_object_is_interface :: "Metadata \<Rightarrow> ClothObjectHeader option \<Rightarrow> nat \<Rightarrow> bool outcome" where
  "cloth_rt_object_is_interface M v interface_id =
     (if v = None then Inr False
      else case require_object v of
        Inl e \<Rightarrow> fail e
      | Inr obj \<Rightarrow>
          if td_kind (descriptor M (oh_type obj)) \<noteq> hkFileClass then Inr False
          else case validate_type_descriptor M (oh_type obj) of
            Inl e \<Rightarrow> fail e
          | Inr _ \<Rightarrow> Inr (find_interface_dispatch (descriptor M (oh_type obj)) interface_id \<noteq> None))"

definition cloth_rt_interface_function ::
  "Metadata \<Rightarrow> ClothObjectHeader option \<Rightarrow> nat \<Rightarrow> nat \<Rightarrow> RuntimeFunction option outcome" where
  "cloth_rt_interface_function M v interface_id function_slot =
     (case require_object v of
        Inl e \<Rightarrow> fail e
      | Inr obj \<Rightarrow> (case validate_type_descriptor M (oh_type obj) of
          Inl e \<Rightarrow> fail e
        | Inr _ \<Rightarrow> (case find_interface_dispatch (descriptor M (oh_type obj)) interface_id of
            None \<Rightarrow> fail ''object does not implement the requested interface''
          | Some i \<Rightarrow>
              if function_slot \<ge> id_function_count i then fail ''interface function slot is out of bounds''
              else Inr (cells (id_functions i) (id_function_count i) ! function_slot))))"

section \<open>Value layouts\<close>

declare validate_value_layout.simps [simp del]

lemma is_power_of_two_iff: "is_power_of_two v \<longleftrightarrow> (\<exists>k. v = 2 ^ k)"
  using power_of_two_and [of v] by (cases "v = 0") (auto simp: is_power_of_two_def)

abbreviation layout_valid :: "Metadata \<Rightarrow> LayoutRef \<Rightarrow> nat \<Rightarrow> bool" where
  "layout_valid M ref depth \<equiv> validate_value_layout M ref depth = Inr ()"

abbreviation fields_of :: "ClothValueLayout \<Rightarrow> ClothValueFieldLayout list" where
  "fields_of l \<equiv> cells (vl_fields l) (vl_field_count l)"

abbreviation field_size :: "Metadata \<Rightarrow> ClothValueFieldLayout \<Rightarrow> nat" where
  "field_size M f \<equiv> vl_size (layout_at M (vf_type f))"

lemma layout_validE:
  assumes "layout_valid M ref depth"
  obtains r where "ref = Some r" "depth \<le> 128" "validate_layout_header (layout_at M ref) = Inr ()"
    "validate_fields M (layout_at M ref) depth
       (if vl_kind (layout_at M ref) = vkNullable then 1 else 0) (fields_of (layout_at M ref)) = Inr ()"
  using assms
  by (cases "validate_layout_header (layout_at M ref)")
     (auto simp: validate_value_layout.simps [of M ref depth] split: if_splits)

lemma validate_fields_ok:
  "validate_fields M l depth pe fs = Inr () \<Longrightarrow> depth \<le> 128 \<Longrightarrow>
   sorted_wrt (\<lambda>f g. vf_offset f + field_size M f \<le> vf_offset g) fs \<and>
   list_all (\<lambda>f. pe \<le> vf_offset f \<and> vf_offset f + field_size M f \<le> vl_size l \<and>
     layout_valid M (vf_type f) (depth + 1)) fs"
proof (induction fs arbitrary: pe)
  case Nil
  then show ?case by simp
next
  case (Cons f fs)
  from Cons.prems have v: "layout_valid M (vf_type f) (depth + 1)"
      and ok: "\<not> field_layout_invalid M l pe f"
      and rest: "validate_fields M l depth (vf_offset f + field_size M f) fs = Inr ()"
    by (auto split: sum.splits if_splits)
  from ok have "pe \<le> vf_offset f" "vf_offset f + field_size M f \<le> vl_size l"
    by (auto simp: field_layout_invalid_def Let_def)
  with v Cons.IH [OF rest Cons.prems(2)] show ?case
    by (auto simp: list_all_iff)
qed

text \<open>The storage of a component of a value: its offset and layout, by the path of field numbers.\<close>

fun locate :: "Metadata \<Rightarrow> nat \<Rightarrow> nat list \<Rightarrow> (nat \<times> nat) option" where
  "locate M r [] = Some (0, r)"
| "locate M r (i # path) =
     (let fs = fields_of (md_layouts M ! r) in
      if i < length fs then
        (case locate M (the (vf_type (fs ! i))) path of
           None \<Rightarrow> None
         | Some (offset, s) \<Rightarrow> Some (vf_offset (fs ! i) + offset, s))
      else None)"

lemma locate_ConsE:
  assumes "locate M r (i # path) = Some (offset, s)"
  obtains o' where "i < length (fields_of (md_layouts M ! r))"
    "locate M (the (vf_type (fields_of (md_layouts M ! r) ! i))) path = Some (o', s)"
    "offset = vf_offset (fields_of (md_layouts M ! r) ! i) + o'"
  using assms by (auto simp: Let_def split: if_splits option.splits)

lemma layout_field:
  assumes v: "layout_valid M (Some r) depth" and i: "i < length (fields_of (md_layouts M ! r))"
  obtains t where "vf_type (fields_of (md_layouts M ! r) ! i) = Some t" "layout_valid M (Some t) (depth + 1)"
    "vf_offset (fields_of (md_layouts M ! r) ! i) + vl_size (md_layouts M ! t) \<le> vl_size (md_layouts M ! r)"
    "depth \<le> 128"
proof -
  let ?f = "fields_of (md_layouts M ! r) ! i"
  from v have d: "depth \<le> 128" by (auto elim: layout_validE)
  from v obtain pe where "validate_fields M (md_layouts M ! r) depth pe (fields_of (md_layouts M ! r)) = Inr ()"
    by (auto elim: layout_validE)
  from validate_fields_ok [OF this d] i
  have "vf_offset ?f + field_size M ?f \<le> vl_size (md_layouts M ! r)"
       and w: "layout_valid M (vf_type ?f) (depth + 1)"
    by (auto simp: list_all_length)
  moreover from w obtain t where "vf_type ?f = Some t" by (auto elim: layout_validE)
  ultimately show thesis using d that by simp
qed

lemma locate_in_bounds:
  "layout_valid M (Some r) depth \<Longrightarrow> locate M r path = Some (offset, s) \<Longrightarrow>
   offset + vl_size (md_layouts M ! s) \<le> vl_size (md_layouts M ! r) \<and>
   layout_valid M (Some s) (depth + length path) \<and> depth + length path \<le> 128"
proof (induction path arbitrary: r depth offset)
  case Nil
  then show ?case by (auto elim: layout_validE)
next
  case (Cons i path)
  from Cons.prems(2) obtain o' where i: "i < length (fields_of (md_layouts M ! r))"
      and l: "locate M (the (vf_type (fields_of (md_layouts M ! r) ! i))) path = Some (o', s)"
      and off: "offset = vf_offset (fields_of (md_layouts M ! r) ! i) + o'"
    by (rule locate_ConsE)
  from layout_field [OF Cons.prems(1) i] obtain t
    where t: "vf_type (fields_of (md_layouts M ! r) ! i) = Some t" "layout_valid M (Some t) (depth + 1)"
      "vf_offset (fields_of (md_layouts M ! r) ! i) + vl_size (md_layouts M ! t) \<le> vl_size (md_layouts M ! r)"
    by blast
  from Cons.IH [OF t(2)] l t(1)
  have "o' + vl_size (md_layouts M ! s) \<le> vl_size (md_layouts M ! t) \<and>
        layout_valid M (Some s) (depth + 1 + length path) \<and> depth + 1 + length path \<le> 128"
    by simp
  with t(3) off show ?case by simp
qed

lemma siblings_disjoint:
  assumes v: "layout_valid M (Some r) depth"
    and i: "i < length (fields_of (md_layouts M ! r))" and j: "j < length (fields_of (md_layouts M ! r))"
    and l: "locate M (the (vf_type (fields_of (md_layouts M ! r) ! i))) path = Some (o1, s1)"
    and "i < j"
  shows "vf_offset (fields_of (md_layouts M ! r) ! i) + (o1 + vl_size (md_layouts M ! s1))
           \<le> vf_offset (fields_of (md_layouts M ! r) ! j)"
proof -
  from layout_field [OF v i] obtain t
    where t: "vf_type (fields_of (md_layouts M ! r) ! i) = Some t" "layout_valid M (Some t) (depth + 1)"
    by blast
  have "o1 + vl_size (md_layouts M ! s1) \<le> vl_size (md_layouts M ! t)"
    using locate_in_bounds [OF t(2)] l t(1) by simp
  moreover have "vf_offset (fields_of (md_layouts M ! r) ! i) + vl_size (md_layouts M ! t)
      \<le> vf_offset (fields_of (md_layouts M ! r) ! j)"
  proof -
    from v have d: "depth \<le> 128" by (auto elim: layout_validE)
    from v obtain pe where "validate_fields M (md_layouts M ! r) depth pe (fields_of (md_layouts M ! r)) = Inr ()"
      by (auto elim: layout_validE)
    from validate_fields_ok [OF this d]
    have "sorted_wrt (\<lambda>f g. vf_offset f + field_size M f \<le> vf_offset g) (fields_of (md_layouts M ! r))"
      by blast
    from sorted_wrt_nth_less [OF this \<open>i < j\<close> j] show ?thesis using t(1) by simp
  qed
  ultimately show ?thesis by simp
qed

lemma locate_disjoint:
  "layout_valid M (Some r) depth \<Longrightarrow> locate M r p = Some (o1, s1) \<Longrightarrow> locate M r q = Some (o2, s2) \<Longrightarrow>
   \<not> prefix p q \<Longrightarrow> \<not> prefix q p \<Longrightarrow>
   o1 + vl_size (md_layouts M ! s1) \<le> o2 \<or> o2 + vl_size (md_layouts M ! s2) \<le> o1"
proof (induction p arbitrary: r depth o1 o2 q)
  case Nil
  then show ?case by simp
next
  case (Cons i p)
  from Cons.prems obtain j q' where q: "q = j # q'" by (cases q) auto
  let ?fs = "fields_of (md_layouts M ! r)"
  from Cons.prems(2) obtain a where i: "i < length ?fs"
      and li: "locate M (the (vf_type (?fs ! i))) p = Some (a, s1)" and o1: "o1 = vf_offset (?fs ! i) + a"
    by (rule locate_ConsE)
  from Cons.prems(3) obtain b where j: "j < length ?fs"
      and lj: "locate M (the (vf_type (?fs ! j))) q' = Some (b, s2)" and o2: "o2 = vf_offset (?fs ! j) + b"
    unfolding q by (rule locate_ConsE)
  consider "i = j" | "i < j" | "j < i" by linarith
  then show ?case
  proof cases
    case 1
    from layout_field [OF Cons.prems(1) i] obtain t
      where t: "vf_type (?fs ! i) = Some t" "layout_valid M (Some t) (depth + 1)" by blast
    from Cons.prems(4,5) q 1 have "\<not> prefix p q'" "\<not> prefix q' p" by auto
    with Cons.IH [OF t(2)] li lj t(1) 1
    have "a + vl_size (md_layouts M ! s1) \<le> b \<or> b + vl_size (md_layouts M ! s2) \<le> a" by simp
    with o1 o2 1 show ?thesis by auto
  next
    case 2
    from siblings_disjoint [OF Cons.prems(1) i j li 2] o1 o2 show ?thesis by simp
  next
    case 3
    from siblings_disjoint [OF Cons.prems(1) j i lj 3] o1 o2 show ?thesis by simp
  qed
qed

section \<open>Ancestry\<close>

abbreviation type_valid :: "Metadata \<Rightarrow> TypeRef \<Rightarrow> bool" where
  "type_valid M t \<equiv> validate_type_descriptor M t = Inr ()"

abbreviation parent :: "Metadata \<Rightarrow> TypeRef \<Rightarrow> TypeRef" where
  "parent M t \<equiv> td_parent (descriptor M t)"

text \<open>The descriptors a type descends from, itself included.\<close>

inductive extends :: "Metadata \<Rightarrow> TypeRef \<Rightarrow> TypeRef \<Rightarrow> bool" for M where
  self: "t \<noteq> NullType \<Longrightarrow> extends M t t"
| inherit: "t \<noteq> NullType \<Longrightarrow> extends M (parent M t) u \<Longrightarrow> extends M t u"

primrec nth_parent :: "Metadata \<Rightarrow> TypeRef \<Rightarrow> nat \<Rightarrow> TypeRef" where
  "nth_parent M t 0 = t"
| "nth_parent M t (Suc n) = (if nth_parent M t n = NullType then NullType else parent M (nth_parent M t n))"

definition rooted :: "Metadata \<Rightarrow> TypeRef \<Rightarrow> bool" where
  "rooted M t \<longleftrightarrow> (\<exists>n. nth_parent M t n = NullType)"

text \<open>Every parent is a descriptor of the runtime or of the program.\<close>

definition in_metadata :: "Metadata \<Rightarrow> TypeRef \<Rightarrow> bool" where
  "in_metadata M t = (case t of ProgramType n \<Rightarrow> n < length (md_types M) | _ \<Rightarrow> True)"

definition types_closed :: "Metadata \<Rightarrow> bool" where
  "types_closed M = list_all (\<lambda>d. in_metadata M (td_parent d)) (md_types M)"

lemmas runtime_descriptor_defs =
  cloth_rt_object_type_def kStringTypeDescriptor_def kArrayTypeDescriptor_def cloth_rt_error_type_def
  cloth_rt_division_by_zero_type_def

lemma type_valid_not_null: "type_valid M t \<Longrightarrow> t \<noteq> NullType"
  by (auto simp: validate_type_descriptor_def Let_def)

lemma nth_parent_shift: "t \<noteq> NullType \<Longrightarrow> nth_parent M (parent M t) n = nth_parent M t (Suc n)"
  by (induction n) auto

lemma extends_iff: "extends M t u \<longleftrightarrow> u \<noteq> NullType \<and> (\<exists>n. nth_parent M t n = u)"
proof
  assume "extends M t u"
  then show "u \<noteq> NullType \<and> (\<exists>n. nth_parent M t n = u)"
  proof (induction rule: extends.induct)
    case (self t)
    then show ?case by (metis nth_parent.simps(1))
  next
    case (inherit t u)
    then show ?case by (metis nth_parent_shift)
  qed
next
  have "nth_parent M t n = u \<Longrightarrow> u \<noteq> NullType \<Longrightarrow> extends M t u" for n
  proof (induction n arbitrary: t)
    case 0
    then show ?case by (simp add: extends.self)
  next
    case (Suc n)
    have "nth_parent M NullType m = NullType" for m by (induction m) auto
    with Suc.prems have t: "t \<noteq> NullType" by metis
    with Suc show ?case by (metis nth_parent_shift extends.inherit)
  qed
  then show "u \<noteq> NullType \<and> (\<exists>n. nth_parent M t n = u) \<Longrightarrow> extends M t u" by blast
qed

lemma nth_parent_null: "nth_parent M t n = NullType \<Longrightarrow> n \<le> m \<Longrightarrow> nth_parent M t m = NullType"
  by (induction m) (auto simp: le_Suc_eq)

lemma nth_parent_add: "nth_parent M t i = nth_parent M t j \<Longrightarrow> nth_parent M t (i + k) = nth_parent M t (j + k)"
  by (induction k) auto

lemma nth_parent_periodic:
  assumes "nth_parent M t i = nth_parent M t (i + p)" "i \<le> k"
  shows "nth_parent M t (k + m * p) = nth_parent M t k"
proof (induction m)
  case 0
  show ?case by simp
next
  case (Suc m)
  have "nth_parent M t (i + (k - i + m * p)) = nth_parent M t (i + p + (k - i + m * p))"
    by (rule nth_parent_add [OF assms(1)])
  moreover have "i + (k - i + m * p) = k + m * p" "i + p + (k - i + m * p) = k + Suc m * p"
    using assms(2) by auto
  ultimately show ?case using Suc by metis
qed

lemma nth_parent_in_metadata:
  assumes "types_closed M" "in_metadata M t"
  shows "in_metadata M (nth_parent M t n)"
proof (induction n)
  case 0
  then show ?case using assms(2) by simp
next
  case (Suc n)
  have "in_metadata M (parent M u)" if "in_metadata M u" "u \<noteq> NullType" for u
  proof (cases u)
    case (ProgramType k)
    then show ?thesis
      using that assms(1) by (auto simp: types_closed_def list_all_length in_metadata_def)
  qed (use that in \<open>auto simp: in_metadata_def runtime_descriptor_defs\<close>)
  then show ?case using Suc by (auto simp: in_metadata_def)
qed

lemma finite_in_metadata: "finite {t. in_metadata M t}"
proof -
  have "{t. in_metadata M t} \<subseteq>
      {NullType, ObjectType, StringType, ArrayType, ErrorType, DivisionByZeroType} \<union>
      ProgramType ` {..<length (md_types M)}"
  proof
    fix t
    assume "t \<in> {t. in_metadata M t}"
    then show "t \<in> {NullType, ObjectType, StringType, ArrayType, ErrorType, DivisionByZeroType} \<union>
      ProgramType ` {..<length (md_types M)}"
      by (cases t) (auto simp: in_metadata_def)
  qed
  then show ?thesis by (rule finite_subset) simp
qed

text \<open>The pointers of the cycle check meet, or the chain ends.\<close>

lemma chain_ends_or_meets:
  assumes "types_closed M" "in_metadata M t"
  obtains k where "k > 0" "nth_parent M t k = NullType \<or> nth_parent M t k = nth_parent M t (2 * k)"
proof -
  have "\<not> inj (nth_parent M t)"
  proof
    assume "inj (nth_parent M t)"
    then have "infinite (range (nth_parent M t))" using finite_imageD infinite_UNIV_nat by blast
    moreover have "range (nth_parent M t) \<subseteq> {t. in_metadata M t}"
      using nth_parent_in_metadata [OF assms] by auto
    ultimately show False using finite_in_metadata finite_subset by blast
  qed
  then obtain a b where "a < b" "nth_parent M t a = nth_parent M t b"
    unfolding inj_def by (metis linorder_neqE_nat)
  then obtain p where p: "p > 0" "nth_parent M t a = nth_parent M t (a + p)"
    by (metis less_imp_add_positive)
  let ?k = "(a + 1) * p"
  have "a \<le> ?k" using p(1) by (cases p) auto
  from nth_parent_periodic [OF p(2) this, of "a + 1"]
  have "nth_parent M t ?k = nth_parent M t (2 * ?k)" by (simp only: mult_2)
  then show thesis using that [of ?k] p(1) by simp
qed

lemma rooted_no_meeting:
  assumes "rooted M t" "k > 0" "nth_parent M t k = nth_parent M t (2 * k)"
  shows "nth_parent M t k = NullType"
proof -
  from assms(1) obtain n where n: "nth_parent M t n = NullType" by (auto simp: rooted_def)
  have "nth_parent M t (k + n * k) = nth_parent M t k"
    using nth_parent_periodic [of M t k k k n] assms(3) by (simp add: mult_2)
  moreover have "n \<le> k + n * k" using assms(2) by (simp add: trans_le_add2)
  ultimately show ?thesis using nth_parent_null [OF n] by metis
qed

section \<open>The type test\<close>

lemma advance_parents_nth:
  "advance_parents M n (nth_parent M t k) = Inr u \<Longrightarrow> u = nth_parent M t (k + n)"
proof (induction n arbitrary: k)
  case 0
  then show ?case by simp
next
  case (Suc n)
  show ?case
  proof (cases "nth_parent M t k = NullType")
    case True
    with Suc.prems nth_parent_null [of M t k "k + Suc n"] show ?thesis by simp
  next
    case False
    with Suc.prems have "advance_parents M n (nth_parent M t (Suc k)) = Inr u" by (auto split: sum.splits)
    from Suc.IH [OF this] show ?thesis by simp
  qed
qed

lemma advance_parents_valid:
  "(\<And>j. nth_parent M t j \<noteq> NullType \<Longrightarrow> type_valid M (nth_parent M t j)) \<Longrightarrow>
   advance_parents M n (nth_parent M t k) = Inr (nth_parent M t (k + n))"
proof (induction n arbitrary: k)
  case 0
  then show ?case by simp
next
  case (Suc n)
  then show ?case using Suc.IH [of "Suc k"] nth_parent_null [of M t k "k + Suc n"] by auto
qed

abbreviation type_loop :: "Metadata \<Rightarrow> TypeRef \<Rightarrow> TypeRef \<Rightarrow> nat \<Rightarrow> bool outcome option" where
  "type_loop M u t k \<equiv> is_type_loop M u (nth_parent M t k) (nth_parent M t k) (nth_parent M t (2 * k))"

abbreviation ancestry_cycle :: "bool outcome" where
  "ancestry_cycle \<equiv> fail ''object type descriptor ancestry contains a cycle''"

text \<open>One iteration of the loop.\<close>

lemma type_loop_step:
  obtains "nth_parent M t k = NullType" "type_loop M u t k = Some (Inr False)"
  | e where "type_loop M u t k = Some (Inl e)"
  | "type_loop M u t k = Some (Inr False)"
  | "nth_parent M t k = u" "u \<noteq> NullType" "type_loop M u t k = Some (Inr True)"
  | "nth_parent M t k \<noteq> NullType"
    "\<not> (nth_parent M t (k + 1) \<noteq> NullType \<and> nth_parent M t (k + 1) = nth_parent M t (2 * (k + 1)))"
    "type_loop M u t k = type_loop M u t (k + 1)"
proof -
  let ?c = "nth_parent M t k"
  note step = is_type_loop.simps [of M u ?c ?c "nth_parent M t (2 * k)", unfolded One_nat_def]
  consider "?c = NullType" | "?c \<noteq> NullType" "\<not> is_heap_object_kind (td_kind (descriptor M ?c))"
    | "?c \<noteq> NullType" "is_heap_object_kind (td_kind (descriptor M ?c))" by blast
  then show thesis
  proof cases
    case 1
    then show thesis by (intro that(1), simp) (subst step, simp)
  next
    case 2
    then show thesis by (intro that(3)) (subst step, simp)
  next
    case 3
    show thesis
    proof (cases "validate_type_descriptor M ?c")
      case (Inl e)
      then show thesis using 3 by (intro that(2) [of e]) (subst step, simp)
    next
      case (Inr x)
      show thesis
      proof (cases "?c = u")
        case True
        then show thesis using 3 Inr by (intro that(4), simp, simp) (subst step, simp)
      next
        case ne: False
        show thesis
        proof (cases "advance_parents M 1 ?c")
          case (Inl e)
          then show thesis using 3 ne \<open>validate_type_descriptor M ?c = Inr x\<close>
            by (intro that(2) [of e]) (subst step, simp)
        next
          case s: (Inr s)
          then have s': "s = nth_parent M t (k + 1)" by (rule advance_parents_nth)
          show thesis
          proof (cases "advance_parents M 2 (nth_parent M t (2 * k))")
            case (Inl e)
            then show thesis using 3 s ne \<open>validate_type_descriptor M ?c = Inr x\<close>
              by (intro that(2) [of e]) (subst step, simp)
          next
            case f: (Inr f)
            then have f': "f = nth_parent M t (2 * (k + 1))" using advance_parents_nth [OF f] by simp
            have eq: "type_loop M u t k =
                (if s \<noteq> NullType \<and> s = f then Some ancestry_cycle else is_type_loop M u (parent M ?c) s f)"
              using 3 s f ne \<open>validate_type_descriptor M ?c = Inr x\<close> by (subst step) simp
            have p: "parent M ?c = nth_parent M t (k + 1)" using 3 by simp
            show thesis
            proof (cases "s \<noteq> NullType \<and> s = f")
              case True
              with eq have "type_loop M u t k = Some ancestry_cycle" by (rule trans [OF _ if_P])
              then show thesis by (rule that(2))
            next
              case False
              then have "type_loop M u t k = type_loop M u t (k + 1)"
                using eq by (simp only: p s' f' if_False)
              then show thesis using False 3 unfolding s' f' by (intro that(5)) blast+
            qed
          qed
        qed
      qed
    qed
  qed
qed

lemma type_loop_valid:
  assumes "\<And>j. nth_parent M t j \<noteq> NullType \<Longrightarrow> type_valid M (nth_parent M t j)"
  shows "type_loop M u t k =
    (if nth_parent M t k = NullType then Some (Inr False)
     else if nth_parent M t k = u then Some (Inr True)
     else if nth_parent M t (k + 1) \<noteq> NullType \<and> nth_parent M t (k + 1) = nth_parent M t (2 * (k + 1))
     then Some ancestry_cycle
     else type_loop M u t (k + 1))"
proof (cases "nth_parent M t k = NullType")
  case True
  then show ?thesis by (subst is_type_loop.simps) simp
next
  case False
  let ?c = "nth_parent M t k"
  have v: "type_valid M ?c" using assms False by blast
  then have h: "is_heap_object_kind (td_kind (descriptor M ?c))"
    by (auto simp: validate_type_descriptor_def Let_def split: if_splits)
  have a: "advance_parents M 1 ?c = Inr (nth_parent M t (k + 1))"
    "advance_parents M 2 (nth_parent M t (2 * k)) = Inr (nth_parent M t (2 * (k + 1)))"
    using advance_parents_valid [of M t 1 k, OF assms] advance_parents_valid [of M t 2 "2 * k", OF assms] by auto
  have p: "parent M ?c = nth_parent M t (k + 1)" using False by simp
  have "type_loop M u t k =
      (if ?c = u then Some (Inr True)
       else if nth_parent M t (k + 1) \<noteq> NullType \<and> nth_parent M t (k + 1) = nth_parent M t (2 * (k + 1))
       then Some ancestry_cycle else type_loop M u t (k + 1))"
    by (subst is_type_loop.simps) (simp only: False h v a p if_False sum.case not_True_eq_False)
  then show ?thesis using False by (simp only: if_False)
qed

text \<open>Whatever the descriptors hold, the loop returns, and answers yes only for an ancestor.\<close>

lemma type_loop_returns:
  assumes K: "nth_parent M t K = NullType \<or> nth_parent M t K = nth_parent M t (2 * K)" and "k < K"
  shows "\<exists>r. type_loop M u t k = Some r \<and> (r = Inr True \<longrightarrow> extends M t u)"
  using \<open>k < K\<close>
proof (induction "K - k" arbitrary: k rule: less_induct)
  case less
  show ?case
  proof (rule type_loop_step [of M t k u])
    assume next_loop: "type_loop M u t k = type_loop M u t (k + 1)"
      and nm: "\<not> (nth_parent M t (k + 1) \<noteq> NullType \<and> nth_parent M t (k + 1) = nth_parent M t (2 * (k + 1)))"
    show ?thesis
    proof (cases "k + 1 < K")
      case True
      then show ?thesis unfolding next_loop by (intro less.hyps) (use less.prems in auto)
    next
      case False
      with less.prems have "K = k + 1" by simp
      with K nm have "nth_parent M t (k + 1) = NullType" by metis
      then have "type_loop M u t (k + 1) = Some (Inr False)" by (subst is_type_loop.simps) simp
      then show ?thesis using next_loop by (metis sum.inject(2))
    qed
  qed (auto simp: extends_iff)
qed

lemma type_loop_acyclic:
  assumes v: "\<And>j. nth_parent M t j \<noteq> NullType \<Longrightarrow> type_valid M (nth_parent M t j)"
    and "rooted M t" and N: "nth_parent M t N = NullType" and "u \<noteq> NullType" and "k \<le> N"
  shows "type_loop M u t k = Some (Inr (\<exists>j\<ge>k. nth_parent M t j = u))"
  using \<open>k \<le> N\<close>
proof (induction k rule: inc_induct)
  case base
  have "\<not> (\<exists>j\<ge>N. nth_parent M t j = u)" using nth_parent_null [OF N] \<open>u \<noteq> NullType\<close> by metis
  then show ?case using N type_loop_valid [OF v, of u N] by simp
next
  case (step k)
  have "nth_parent M t (k + 1) = nth_parent M t (2 * (k + 1)) \<Longrightarrow> nth_parent M t (k + 1) = NullType"
    by (rule rooted_no_meeting [OF \<open>rooted M t\<close>]) simp_all
  then have nm: "\<not> (nth_parent M t (k + 1) \<noteq> NullType \<and> nth_parent M t (k + 1) = nth_parent M t (2 * (k + 1)))"
    by blast
  have loop: "type_loop M u t k = (if nth_parent M t k = NullType then Some (Inr False)
      else if nth_parent M t k = u then Some (Inr True) else type_loop M u t (k + 1))"
    using type_loop_valid [OF v, of u k] unfolding if_not_P [OF nm] by blast
  consider "nth_parent M t k = NullType" | "nth_parent M t k = u"
    | "nth_parent M t k \<noteq> NullType" "nth_parent M t k \<noteq> u" by blast
  then show ?case
  proof cases
    case 1
    have "\<not> (\<exists>j\<ge>k. nth_parent M t j = u)" using nth_parent_null [OF 1] \<open>u \<noteq> NullType\<close> by metis
    then show ?thesis using loop unfolding if_P [OF 1] by simp
  next
    case 2
    then have "\<exists>j\<ge>k. nth_parent M t j = u" by blast
    moreover have "nth_parent M t k \<noteq> NullType" using 2 \<open>u \<noteq> NullType\<close> by simp
    ultimately show ?thesis using loop unfolding if_not_P [OF \<open>nth_parent M t k \<noteq> NullType\<close>] if_P [OF 2] by simp
  next
    case 3
    have "(\<exists>j\<ge>k. nth_parent M t j = u) \<longleftrightarrow> (\<exists>j\<ge>Suc k. nth_parent M t j = u)"
      using 3(2) by (metis Suc_leD le_antisym not_less_eq_eq)
    then show ?thesis using loop step.IH unfolding if_not_P [OF 3(1)] if_not_P [OF 3(2)] by simp
  qed
qed

lemma type_loop_cyclic:
  assumes v: "\<And>j. nth_parent M t j \<noteq> NullType \<Longrightarrow> type_valid M (nth_parent M t j)"
    and nr: "\<not> rooted M t" and K: "nth_parent M t K = nth_parent M t (2 * K)" and "k < K"
  shows "type_loop M u t k = Some (Inr True) \<or> type_loop M u t k = Some ancestry_cycle"
  using \<open>k < K\<close>
proof (induction "K - k" arbitrary: k rule: less_induct)
  case less
  have nn: "nth_parent M t j \<noteq> NullType" for j using nr by (auto simp: rooted_def)
  have loop: "type_loop M u t k = (if nth_parent M t k = u then Some (Inr True)
      else if nth_parent M t (k + 1) = nth_parent M t (2 * (k + 1)) then Some ancestry_cycle
      else type_loop M u t (k + 1))"
    using type_loop_valid [OF v, of u k] by (simp only: nn if_False simp_thms)
  show ?case
  proof (cases "nth_parent M t k = u \<or> nth_parent M t (k + 1) = nth_parent M t (2 * (k + 1))")
    case True
    then show ?thesis using loop by (metis (no_types, lifting))
  next
    case False
    then have eq: "type_loop M u t k = type_loop M u t (k + 1)" using loop by (metis (no_types, lifting))
    from False K have "k + 1 \<noteq> K" by metis
    then show ?thesis unfolding eq by (intro less.hyps) (use less.prems in auto)
  qed
qed

text \<open>
  C27: The type test \<open>cloth_rt_object_is_type\<close> always returns, on any finite metadata, also when the
  parent pointers run in a circle, and answers yes only for a type the object's type descends from.
  Where the target and every ancestor are valid it is exact: the answer is whether the target is an
  ancestor if the ancestry ends at a root; otherwise it finds the target or reports the cycle.
\<close>

theorem object_is_type_correct:
  assumes "types_closed M" "in_metadata M (oh_type obj)"
  shows "\<exists>r. cloth_rt_object_is_type M (Some obj) u = Some r \<and> (r = Inr True \<longrightarrow> extends M (oh_type obj) u) \<and>
    (oh_type obj \<noteq> NullType \<and> type_valid M u \<and> (\<forall>w. extends M (oh_type obj) w \<longrightarrow> type_valid M w) \<longrightarrow>
     (if rooted M (oh_type obj) then r = Inr (extends M (oh_type obj) u)
      else r = Inr True \<or> r = fail ''object type descriptor ancestry contains a cycle''))"
proof -
  let ?t = "oh_type obj"
  from chain_ends_or_meets [OF assms] obtain K where K: "K > 0"
    "nth_parent M ?t K = NullType \<or> nth_parent M ?t K = nth_parent M ?t (2 * K)" by blast
  consider e where "validate_type_descriptor M u = Inl e" | "type_valid M u" "?t = NullType"
    | "type_valid M u" "?t \<noteq> NullType" by (metis (full_types) old.unit.exhaust sum.exhaust)
  then show ?thesis
  proof cases
    case 1
    then show ?thesis by (simp add: cloth_rt_object_is_type_def)
  next
    case 2
    then show ?thesis by (simp add: cloth_rt_object_is_type_def require_object_def)
  next
    case 3
    then have eq: "cloth_rt_object_is_type M (Some obj) u = type_loop M u ?t 0"
      by (simp add: cloth_rt_object_is_type_def require_object_def)
    from type_loop_returns [OF K(2,1)] obtain r
      where r: "type_loop M u ?t 0 = Some r" "r = Inr True \<longrightarrow> extends M ?t u" by blast
    have u: "u \<noteq> NullType" using 3(1) by (rule type_valid_not_null)
    have "if rooted M ?t then r = Inr (extends M ?t u) else r = Inr True \<or> r = ancestry_cycle"
      if all: "\<forall>w. extends M ?t w \<longrightarrow> type_valid M w"
    proof -
      have v: "nth_parent M ?t j \<noteq> NullType \<Longrightarrow> type_valid M (nth_parent M ?t j)" for j
        using all by (metis extends_iff)
      show ?thesis
      proof (cases "rooted M ?t")
        case True
        then obtain N where "nth_parent M ?t N = NullType" by (auto simp: rooted_def)
        from type_loop_acyclic [OF v True this u, of 0] r(1) u True show ?thesis
          by (simp add: extends_iff)
      next
        case False
        then have "nth_parent M ?t K = nth_parent M ?t (2 * K)" using K(2) by (auto simp: rooted_def)
        from type_loop_cyclic [OF v False this K(1), of u] r(1) False show ?thesis by auto
      qed
    qed
    with r show ?thesis unfolding eq by blast
  qed
qed

definition sample_class :: "TypeRef \<Rightarrow> ClothInterfaceDispatch list \<Rightarrow> ClothTypeDescriptor" where
  "sample_class base is =
     \<lparr>td_kind = hkFileClass, td_parent = base, td_name = Some ''Sample'', td_name_size = 6,
      td_size = 32, td_alignment = 8, td_reference_offsets = Some [16, 24], td_reference_count = 2,
      td_virtual_functions = Some kObjectVirtualFunctions, td_virtual_function_count = 3,
      td_interfaces = (if is = [] then None else Some is), td_interface_count = length is,
      td_boxed_value_layout = None, td_boxed_value_offset = 0\<rparr>"

definition sample_dispatch :: "nat \<Rightarrow> ClothInterfaceDispatch" where
  "sample_dispatch k =
     \<lparr>id_interface_id = k, id_functions = Some [Some (ProgramFunction k)], id_function_count = 1\<rparr>"

definition sample_layouts :: "ClothValueLayout list" where
  "sample_layouts =
     [\<lparr>vl_kind = vkInt32, vl_name = Some ''i32'', vl_name_size = 3, vl_size = 4, vl_alignment = 4,
       vl_fields = None, vl_field_count = 0, vl_enum_cases = None, vl_enum_case_count = 0\<rparr>,
      \<lparr>vl_kind = vkStruct, vl_name = Some ''Pair'', vl_name_size = 4, vl_size = 8, vl_alignment = 4,
       vl_fields = Some [\<lparr>vf_type = Some 0, vf_offset = 0, vf_name = Some ''a'', vf_name_size = 1\<rparr>,
                         \<lparr>vf_type = Some 0, vf_offset = 4, vf_name = Some ''b'', vf_name_size = 1\<rparr>],
       vl_field_count = 2, vl_enum_cases = None, vl_enum_case_count = 0\<rparr>]"

text \<open>A base class and a derived class, with a value layout of two fields.\<close>

definition sample_metadata :: Metadata where
  "sample_metadata =
     \<lparr>md_types = [sample_class ObjectType [sample_dispatch 4],
                  sample_class (ProgramType 0) [sample_dispatch 2, sample_dispatch 4, sample_dispatch 9]],
      md_layouts = sample_layouts\<rparr>"

lemmas sample_metadata_defs =
  sample_metadata_def sample_class_def sample_dispatch_def sample_layouts_def runtime_descriptor_defs
  sizeof_ClothObjectHeader_def sizeof_pointer_def kObjectVirtualFunctions_def

lemma sample_power_of_two: "is_power_of_two 8" "is_power_of_two 4"
  by (auto simp: is_power_of_two_iff intro: exI [of _ 3] exI [of _ 2])

lemma sample_types_valid:
  "type_valid sample_metadata ObjectType" "type_valid sample_metadata (ProgramType 0)"
  "type_valid sample_metadata (ProgramType 1)"
  using sample_power_of_two
  by (auto simp: sample_metadata_defs validate_type_descriptor_def has_invalid_parent_def Let_def
      is_heap_object_kind_def validate_boxed_value_def inherits_interface_def is_object_root_descriptor_def)

lemma sample_layout_valid: "layout_valid sample_metadata (Some 1) 0"
  using sample_power_of_two
  by (simp add: validate_value_layout.simps validate_layout_header_def sample_metadata_defs
      field_layout_invalid_def Let_def)

theorem object_is_type_correct_witness:
  "cloth_rt_object_is_type sample_metadata (Some \<lparr>oh_type = ProgramType 1, oh_runtime_state = None\<rparr>)
     (ProgramType 0) = Some (Inr True)"
proof -
  let ?o = "\<lparr>oh_type = ProgramType 1, oh_runtime_state = None\<rparr>"
  have chain: "nth_parent sample_metadata (ProgramType 1) 1 = ProgramType 0"
    "nth_parent sample_metadata (ProgramType 1) 3 = NullType"
    by (simp_all add: sample_metadata_defs numeral_3_eq_3)
  have ext: "extends sample_metadata (ProgramType 1) w \<Longrightarrow> w \<in> {ProgramType 1, ProgramType 0, ObjectType}" for w
  proof -
    assume "extends sample_metadata (ProgramType 1) w"
    then obtain n where n: "w \<noteq> NullType" "nth_parent sample_metadata (ProgramType 1) n = w"
      by (auto simp: extends_iff)
    with nth_parent_null [OF chain(2), of n] have "n < 3" by (metis not_less)
    then have "n = 0 \<or> n = 1 \<or> n = 2" by linarith
    then show ?thesis using n(2) by (auto simp: sample_metadata_defs numeral_2_eq_2)
  qed
  have "rooted sample_metadata (ProgramType 1)" using chain(2) by (auto simp: rooted_def)
  moreover have "extends sample_metadata (ProgramType 1) (ProgramType 0)"
    unfolding extends_iff using chain(1) by blast
  moreover have "types_closed sample_metadata" "in_metadata sample_metadata (oh_type ?o)"
    by (simp_all add: types_closed_def in_metadata_def sample_metadata_defs)
  note object_is_type_correct [OF this, of "ProgramType 0"]
  moreover have "\<forall>w. extends sample_metadata (oh_type ?o) w \<longrightarrow> type_valid sample_metadata w"
    using ext sample_types_valid by auto
  ultimately show ?thesis using sample_types_valid(2) by auto
qed

text \<open>
  C28: A value layout that \<open>validate_value_layout\<close> accepts describes sound storage: whatever component
  of the value a path of fields leads to lies inside the value, the nesting is at most 128 deep, so
  that a cyclic layout is always refused, and two components neither of which contains the other
  share no byte.
\<close>

theorem validated_layout_sound:
  assumes "validate_value_layout M (Some r) 0 = Inr ()"
  shows "(locate M r p = Some (offset, s) \<longrightarrow>
            offset + vl_size (md_layouts M ! s) \<le> vl_size (md_layouts M ! r) \<and> length p \<le> 128) \<and>
    (locate M r p = Some (offset, s) \<and> locate M r q = Some (offset', s') \<and> \<not> prefix p q \<and> \<not> prefix q p \<longrightarrow>
       offset + vl_size (md_layouts M ! s) \<le> offset' \<or> offset' + vl_size (md_layouts M ! s') \<le> offset)"
  using locate_in_bounds [OF assms, of p offset s] locate_disjoint [OF assms, of p offset s q offset' s']
  by auto

theorem validated_layout_sound_witness:
  "validate_value_layout sample_metadata (Some 1) 0 = Inr () \<and> locate sample_metadata 1 [0] = Some (0, 0) \<and>
   locate sample_metadata 1 [1] = Some (4, 0) \<and>
   (0 + vl_size (md_layouts sample_metadata ! 0) \<le> 4 \<or> 4 + vl_size (md_layouts sample_metadata ! 0) \<le> 0)"
proof -
  have l: "locate sample_metadata 1 [0] = Some (0, 0)" "locate sample_metadata 1 [1] = Some (4, 0)"
    by (simp_all add: sample_metadata_defs Let_def)
  from validated_layout_sound [OF sample_layout_valid, of "[0]" 0 0 "[1]" 4 0] l sample_layout_valid
  show ?thesis by auto
qed

section \<open>Interface dispatch\<close>

text \<open>A table holds as many cells as the metadata says.\<close>

definition tables_complete :: "ClothTypeDescriptor \<Rightarrow> bool" where
  "tables_complete d \<longleftrightarrow>
     td_interface_count d = length (interfaces_of d) \<and>
     list_all (\<lambda>i. id_function_count i = length (cells (id_functions i) (id_function_count i))) (interfaces_of d)"

lemma validate_interfaces_ok:
  "validate_interfaces previous is = Inr () \<Longrightarrow>
   sorted_wrt (<) (map id_interface_id is) \<and>
   list_all (\<lambda>i. (previous = None \<or> the previous < id_interface_id i) \<and>
     None \<notin> set (cells (id_functions i) (id_function_count i))) is"
proof (induction "previous" "is" rule: validate_interfaces.induct)
  case (1 "previous")
  then show ?case by simp
next
  case (2 "previous" i "is")
  from "2.prems" have rest: "validate_interfaces (Some (id_interface_id i)) is = Inr ()"
      and "previous = None \<or> the previous < id_interface_id i"
      and "None \<notin> set (cells (id_functions i) (id_function_count i))"
    by (auto simp: list_all_iff list_ex_iff split: if_splits)
  with "2.IH" [OF _ _ rest] "2.prems" show ?case
    by (auto simp: list_all_iff split: if_splits)
qed

lemma type_valid_interfaces:
  assumes "type_valid M t"
  shows "sorted_wrt (<) (map id_interface_id (interfaces_of (descriptor M t)))"
    and "list_all (\<lambda>i. None \<notin> set (cells (id_functions i) (id_function_count i)))
           (interfaces_of (descriptor M t))"
    and "td_parent (descriptor M t) \<noteq> NullType \<Longrightarrow>
         list_all (inherits_interface (interfaces_of (descriptor M t)))
           (interfaces_of (descriptor M (td_parent (descriptor M t))))"
proof -
  from assms have "validate_interfaces None (interfaces_of (descriptor M t)) = Inr ()"
    and "td_parent (descriptor M t) \<noteq> NullType \<Longrightarrow>
         list_all (inherits_interface (interfaces_of (descriptor M t)))
           (interfaces_of (descriptor M (td_parent (descriptor M t))))"
    by (auto simp: validate_type_descriptor_def Let_def split: if_splits sum.splits)
  with validate_interfaces_ok [OF this(1)] show
    "sorted_wrt (<) (map id_interface_id (interfaces_of (descriptor M t)))"
    "list_all (\<lambda>i. None \<notin> set (cells (id_functions i) (id_function_count i)))
       (interfaces_of (descriptor M t))"
    "td_parent (descriptor M t) \<noteq> NullType \<Longrightarrow>
         list_all (inherits_interface (interfaces_of (descriptor M t)))
           (interfaces_of (descriptor M (td_parent (descriptor M t))))"
    by (auto simp: list_all_iff)
qed

lemma interface_search_ok:
  "sorted_wrt (<) (map id_interface_id is) \<Longrightarrow> b \<le> e \<Longrightarrow> e \<le> length is \<Longrightarrow>
    (\<And>j. j < b \<Longrightarrow> id_interface_id (is ! j) < k) \<Longrightarrow>
    (\<And>j. e \<le> j \<Longrightarrow> j < length is \<Longrightarrow> k \<le> id_interface_id (is ! j)) \<Longrightarrow>
    interface_search is k b e \<le> length is \<and>
    (\<forall>j < length is. id_interface_id (is ! j) < k \<longleftrightarrow> j < interface_search is k b e)"
proof (induction "is" k b e rule: interface_search.induct)
  case (1 "is" k b e)
  show ?case
  proof (cases "b < e")
    case False
    with "1.prems" have be: "b = e" by simp
    have "interface_search is k b e = e" by (subst interface_search.simps) (simp add: be)
    with be "1.prems" show ?thesis by (metis not_le)
  next
    case True
    let ?m = "b + (e - b) div 2"
    have m: "b \<le> ?m" "?m < e" using True by auto
    have mono: "id_interface_id (is ! i) < id_interface_id (is ! j)" if "i < j" "j < length is" for i j
      using sorted_wrt_nth_less [OF "1.prems"(1), of i j] that by simp
    show ?thesis
    proof (cases "id_interface_id (is ! ?m) < k")
      case True': True
      have eq: "interface_search is k b e = interface_search is k (?m + 1) e"
        using True True' by (simp add: interface_search.simps [of "is" k b e] Let_def)
      have below: "id_interface_id (is ! j) < k" if "j < ?m + 1" for j
      proof (cases "j = ?m")
        case False
        then have "id_interface_id (is ! j) < id_interface_id (is ! ?m)"
          using mono [of j ?m] that m "1.prems"(3) by simp
        with True' show ?thesis by simp
      qed (use True' in simp)
      show ?thesis unfolding eq
        using "1.IH"(1) [OF True refl True' "1.prems"(1) _ "1.prems"(3) below "1.prems"(5)] m(2) by simp
    next
      case False': False
      have eq: "interface_search is k b e = interface_search is k b ?m"
        using True False' by (simp add: interface_search.simps [of "is" k b e] Let_def)
      have above: "k \<le> id_interface_id (is ! j)" if "?m \<le> j" "j < length is" for j
        using mono [of ?m j] that False' by (cases "j = ?m") auto
      show ?thesis unfolding eq
        using "1.IH"(2) [OF True refl False' "1.prems"(1) m(1) _ "1.prems"(4) above] m(2) "1.prems"(3) by simp
    qed
  qed
qed

lemma interface_search_is_find:
  fixes k :: nat
  assumes sorted: "sorted_wrt (<) (map id_interface_id is)"
  defines "b \<equiv> interface_search is k 0 (length is)"
  shows "(if b = length is \<or> id_interface_id (is ! b) \<noteq> k then None else Some (is ! b)) =
    find (\<lambda>i. id_interface_id i = k) is"
proof -
  have b: "b \<le> length is" "\<And>j. j < length is \<Longrightarrow> id_interface_id (is ! j) < k \<longleftrightarrow> j < b"
    using interface_search_ok [OF sorted, of 0 "length is" k] by (auto simp: b_def)
  have mono: "id_interface_id (is ! i) < id_interface_id (is ! j)" if "i < j" "j < length is" for i j
    using sorted_wrt_nth_less [OF sorted, of i j] that by simp
  show ?thesis
  proof (cases "\<exists>j < length is. id_interface_id (is ! j) = k")
    case True
    then obtain j where j: "j < length is" "id_interface_id (is ! j) = k" by blast
    have "\<not> j < b" using b(2) [OF j(1)] j(2) by simp
    moreover have "\<not> b < j"
    proof
      assume "b < j"
      from mono [OF this j(1)] b(2) [of b] j \<open>b < j\<close> show False by simp
    qed
    ultimately have "b = j" by simp
    moreover have "find (\<lambda>i. id_interface_id i = k) is = Some (is ! j)"
    proof -
      have "\<forall>i<j. id_interface_id (is ! i) \<noteq> k" using mono j by fastforce
      then show ?thesis using j by (auto simp: find_Some_iff)
    qed
    ultimately show ?thesis using j by simp
  next
    case False
    then have "find (\<lambda>i. id_interface_id i = k) is = None" by (auto simp: find_None_iff in_set_conv_nth)
    moreover have "b = length is \<or> id_interface_id (is ! b) \<noteq> k" using False b(1) by (metis le_neq_implies_less)
    ultimately show ?thesis by simp
  qed
qed

lemma find_sorted_interfaces:
  assumes "type_valid M t" "tables_complete (descriptor M t)"
  shows "find_interface_dispatch (descriptor M t) k =
    find (\<lambda>i. id_interface_id i = k) (interfaces_of (descriptor M t))"
proof -
  have "td_interface_count (descriptor M t) = length (interfaces_of (descriptor M t))"
    using assms(2) unfolding tables_complete_def by blast
  then show ?thesis
    unfolding find_interface_dispatch_def Let_def
    using interface_search_is_find [OF type_valid_interfaces(1) [OF assms(1)], of k] by metis
qed

lemma interface_dispatch_facts:
  assumes "type_valid M (oh_type obj)" "tables_complete (descriptor M (oh_type obj))"
  defines "own \<equiv> interfaces_of (descriptor M (oh_type obj))"
    and "base \<equiv> interfaces_of (descriptor M (td_parent (descriptor M (oh_type obj))))"
  shows "find_interface_dispatch (descriptor M (oh_type obj)) k = find (\<lambda>i. id_interface_id i = k) own"
    and "(case find (\<lambda>i. id_interface_id i = k) own of
            None \<Rightarrow> cloth_rt_interface_function M (Some obj) k slot =
                      fail ''object does not implement the requested interface''
          | Some i \<Rightarrow>
              if slot < id_function_count i
              then \<exists>f. cloth_rt_interface_function M (Some obj) k slot = Inr (Some f) \<and>
                       cells (id_functions i) (id_function_count i) ! slot = Some f
              else cloth_rt_interface_function M (Some obj) k slot =
                     fail ''interface function slot is out of bounds'')"
    and "td_parent (descriptor M (oh_type obj)) \<noteq> NullType \<and>
         find (\<lambda>i. id_interface_id i = k) base = Some p \<longrightarrow>
         (\<exists>i. find_interface_dispatch (descriptor M (oh_type obj)) k = Some i \<and>
              id_function_count i = id_function_count p)"
proof -
  show srch: "find_interface_dispatch (descriptor M (oh_type obj)) k = find (\<lambda>i. id_interface_id i = k) own"
    unfolding own_def by (rule find_sorted_interfaces [OF assms(1,2)])
  have obj: "require_object (Some obj) = Inr obj"
    using type_valid_not_null [OF assms(1)] by (simp add: require_object_def)
  show "case find (\<lambda>i. id_interface_id i = k) own of
            None \<Rightarrow> cloth_rt_interface_function M (Some obj) k slot =
                      fail ''object does not implement the requested interface''
          | Some i \<Rightarrow>
              if slot < id_function_count i
              then \<exists>f. cloth_rt_interface_function M (Some obj) k slot = Inr (Some f) \<and>
                       cells (id_functions i) (id_function_count i) ! slot = Some f
              else cloth_rt_interface_function M (Some obj) k slot =
                     fail ''interface function slot is out of bounds''"
  proof (cases "find (\<lambda>i. id_interface_id i = k) own")
    case None
    then show ?thesis using obj assms(1) srch by (simp add: cloth_rt_interface_function_def)
  next
    case (Some i)
    then have "i \<in> set own" by (auto simp: find_Some_iff)
    then have "None \<notin> set (cells (id_functions i) (id_function_count i))"
      and "length (cells (id_functions i) (id_function_count i)) = id_function_count i"
      using type_valid_interfaces(2) [OF assms(1)] assms(2)
      by (auto simp: own_def list_all_iff tables_complete_def)
    then have "\<exists>f. cells (id_functions i) (id_function_count i) ! slot = Some f" if "slot < id_function_count i"
      using that by (metis not_None_eq nth_mem)
    then show ?thesis using obj assms(1) srch Some by (auto simp: cloth_rt_interface_function_def)
  qed
  show "td_parent (descriptor M (oh_type obj)) \<noteq> NullType \<and>
         find (\<lambda>i. id_interface_id i = k) base = Some p \<longrightarrow>
         (\<exists>i. find_interface_dispatch (descriptor M (oh_type obj)) k = Some i \<and>
              id_function_count i = id_function_count p)"
  proof
    assume a: "td_parent (descriptor M (oh_type obj)) \<noteq> NullType \<and> find (\<lambda>i. id_interface_id i = k) base = Some p"
    then have "p \<in> set base" "id_interface_id p = k" by (auto simp: find_Some_iff)
    with a type_valid_interfaces(3) [OF assms(1)] have "inherits_interface own p"
      by (auto simp: own_def base_def list_all_iff)
    then show "\<exists>i. find_interface_dispatch (descriptor M (oh_type obj)) k = Some i \<and>
        id_function_count i = id_function_count p"
      using \<open>id_interface_id p = k\<close> srch by (auto simp: inherits_interface_def split: option.splits)
  qed
qed

text \<open>
  C29: On a valid descriptor the binary search of \<open>find_interface_dispatch\<close> is the linear search for
  the interface id, an interface call through \<open>cloth_rt_interface_function\<close> yields a function that
  is not null exactly when the id is found and the slot is in range (and names the failure
  otherwise), and every interface the parent's descriptor lists is found again with as many slots,
  so that a call that is safe on the parent is safe on the derived object.
\<close>

theorem interface_dispatch_correct:
  assumes "type_valid M (oh_type obj)" "tables_complete (descriptor M (oh_type obj))"
  shows "find_interface_dispatch (descriptor M (oh_type obj)) k =
           find (\<lambda>i. id_interface_id i = k) (interfaces_of (descriptor M (oh_type obj))) \<and>
    (case find (\<lambda>i. id_interface_id i = k) (interfaces_of (descriptor M (oh_type obj))) of
       None \<Rightarrow> cloth_rt_interface_function M (Some obj) k slot =
                 fail ''object does not implement the requested interface''
     | Some i \<Rightarrow>
         if slot < id_function_count i
         then \<exists>f. cloth_rt_interface_function M (Some obj) k slot = Inr (Some f) \<and>
                  cells (id_functions i) (id_function_count i) ! slot = Some f
         else cloth_rt_interface_function M (Some obj) k slot =
                fail ''interface function slot is out of bounds'') \<and>
    (td_parent (descriptor M (oh_type obj)) \<noteq> NullType \<and>
     find (\<lambda>i. id_interface_id i = k)
       (interfaces_of (descriptor M (td_parent (descriptor M (oh_type obj))))) = Some p \<longrightarrow>
     (\<exists>i. find_interface_dispatch (descriptor M (oh_type obj)) k = Some i \<and>
          id_function_count i = id_function_count p))"
  by (intro conjI interface_dispatch_facts [OF assms])

theorem interface_dispatch_correct_witness:
  "\<exists>f. cloth_rt_interface_function sample_metadata
     (Some \<lparr>oh_type = ProgramType 1, oh_runtime_state = None\<rparr>) 9 0 = Inr (Some f)"
proof -
  let ?o = "\<lparr>oh_type = ProgramType 1, oh_runtime_state = None\<rparr>"
  have "type_valid sample_metadata (oh_type ?o)" "tables_complete (descriptor sample_metadata (oh_type ?o))"
    using sample_types_valid(3) by (simp_all add: tables_complete_def sample_metadata_defs)
  note conjunct1 [OF conjunct2 [OF interface_dispatch_correct [OF this, of 9 0]]]
  then show ?thesis by (auto simp: sample_metadata_defs)
qed

end
