(* ===== verification/Runtime_Numbers.thy ===== *)
theory Runtime_Numbers
  imports Runtime_Types
begin

text \<open>
  Numbers in the runtime library (\<^verbatim>\<open>runtime/runtime.cc\<close>): the parsers behind the primitive types'
  \<open>parse\<close> operations, and the reading and writing of integers in byte arrays. The status codes of
  \<^verbatim>\<open>runtime.h\<close> with the result they come with are a \<open>ParseResult\<close>. What a text means as an integer or a
  floating-point number is defined apart from the parsers, which are proved to agree.
\<close>

section \<open>Parsing\<close>

datatype ParseResult = ParseValue u64 | ParseInvalid | ParseOutOfRange

text \<open>The codes \<open>kClothParseBool\<close> to \<open>kClothParseFloat64\<close>.\<close>

datatype ParseKind = pkBool | pkChar | pkByte | pkInt8 | pkInt16 | pkInt32 | pkInt64 | pkUint8 | pkUint16
  | pkUint32 | pkUint64 | pkFloat32 | pkFloat64

definition parse_kinds :: "ParseKind list" where
  "parse_kinds = [pkBool, pkChar, pkByte, pkInt8, pkInt16, pkInt32, pkInt64, pkUint8, pkUint16, pkUint32,
                  pkUint64, pkFloat32, pkFloat64]"

definition rt_digit_value :: "char \<Rightarrow> int" where
  "rt_digit_value c =
     (if code c \<ge> 48 \<and> code c \<le> 57 then int (code c) - 48
      else if code c \<ge> 97 \<and> code c \<le> 102 then int (code c) - 97 + 10
      else if code c \<ge> 65 \<and> code c \<le> 70 then int (code c) - 65 + 10
      else - 1)"

record IntegerParseType =
  ip_width :: nat
  ip_is_signed :: bool

definition integer_parse_type :: "ParseKind \<Rightarrow> IntegerParseType option" where
  "integer_parse_type kind =
     (case kind of
        pkByte \<Rightarrow> Some \<lparr>ip_width = 8, ip_is_signed = False\<rparr>
      | pkUint8 \<Rightarrow> Some \<lparr>ip_width = 8, ip_is_signed = False\<rparr>
      | pkInt8 \<Rightarrow> Some \<lparr>ip_width = 8, ip_is_signed = True\<rparr>
      | pkInt16 \<Rightarrow> Some \<lparr>ip_width = 16, ip_is_signed = True\<rparr>
      | pkInt32 \<Rightarrow> Some \<lparr>ip_width = 32, ip_is_signed = True\<rparr>
      | pkInt64 \<Rightarrow> Some \<lparr>ip_width = 64, ip_is_signed = True\<rparr>
      | pkUint16 \<Rightarrow> Some \<lparr>ip_width = 16, ip_is_signed = False\<rparr>
      | pkUint32 \<Rightarrow> Some \<lparr>ip_width = 32, ip_is_signed = False\<rparr>
      | pkUint64 \<Rightarrow> Some \<lparr>ip_width = 64, ip_is_signed = False\<rparr>
      | _ \<Rightarrow> None)"

definition unsigned_limit :: "IntegerParseType \<Rightarrow> u64" where
  "unsigned_limit type = (if ip_width type = 64 then 0xFFFFFFFFFFFFFFFF else push_bit (ip_width type) 1 - 1)"

definition signed_maximum :: "IntegerParseType \<Rightarrow> u64" where
  "signed_maximum type =
     (if ip_width type = 64 then 0x7FFFFFFFFFFFFFFF else push_bit (ip_width type - 1) 1 - 1)"

definition parse_limit :: "IntegerParseType \<Rightarrow> bool \<Rightarrow> u64" where
  "parse_limit type negative =
     (if ip_is_signed type then signed_maximum type + (if negative then 1 else 0) else unsigned_limit type)"

text \<open>The radix and the index after a prefix.\<close>

definition radix_prefix :: "string \<Rightarrow> nat \<Rightarrow> nat \<Rightarrow> nat \<times> nat" where
  "radix_prefix data sz index =
     (let radix =
        (if index + 1 < sz \<and> data ! index = CHR ''0'' then
           (if data ! (index + 1) = CHR ''b'' then 2
            else if data ! (index + 1) = CHR ''o'' then 8
            else if data ! (index + 1) = CHR ''x'' then 16 else 10)
         else 10)
      in (radix, if radix \<noteq> 10 then index + 2 else index))"

text \<open>The loop over the digits; the result is the magnitude and whether it is out of range.\<close>

function parse_digits ::
  "string \<Rightarrow> nat \<Rightarrow> nat \<Rightarrow> u64 \<Rightarrow> nat \<Rightarrow> u64 \<Rightarrow> bool \<Rightarrow> bool \<Rightarrow> (u64 \<times> bool) option" where
  "parse_digits data sz radix limit index magnitude has_digit out_of_range =
     (if index < sz then
        let digit = rt_digit_value (data ! index) in
        if digit \<ge> 0 \<and> nat digit < radix then
          (if out_of_range then parse_digits data sz radix limit (index + 1) magnitude True True
           else if magnitude > (limit - of_int digit) div of_nat radix
           then parse_digits data sz radix limit (index + 1) magnitude True True
           else parse_digits data sz radix limit (index + 1) (magnitude * of_nat radix + of_int digit) True False)
        else if data ! index \<noteq> CHR ''_'' \<or> \<not> has_digit \<or> index + 1 = sz then None
        else
          let next_digit = rt_digit_value (data ! (index + 1)) in
          if next_digit < 0 \<or> nat next_digit \<ge> radix then None
          else parse_digits data sz radix limit (index + 1) magnitude has_digit out_of_range
      else if has_digit then Some (magnitude, out_of_range) else None)"
  by pat_completeness auto
termination
  by (relation "measure (\<lambda>(data, sz, radix, limit, index, rest). sz - index)") auto

declare parse_digits.simps [simp del]

definition parse_integer :: "ClothString \<Rightarrow> IntegerParseType \<Rightarrow> ParseResult" where
  "parse_integer text type =
     (let data = bytes_of (st_data text); sz = st_byte_size text;
          signed = 0 < sz \<and> (data ! 0 = CHR ''+'' \<or> data ! 0 = CHR ''-'');
          negative = (signed \<and> data ! 0 = CHR ''-'');
          index = (if signed then 1 else 0) in
      if negative \<and> \<not> ip_is_signed type then ParseInvalid
      else
        let (radix, index') = radix_prefix data sz index in
        (case parse_digits data sz radix (parse_limit type negative) index' 0 False False of
           None \<Rightarrow> ParseInvalid
         | Some (magnitude, out_of_range) \<Rightarrow>
             if out_of_range then ParseOutOfRange
             else ParseValue (if negative then (NOT magnitude + 1) AND unsigned_limit type else magnitude)))"

text \<open>
  The digits of a floating-point text from an index on: whether there are any, whether they are
  separated properly, the index after them, the digits alone, and whether one is not zero.
\<close>

function append_float_digits ::
  "string \<Rightarrow> nat \<Rightarrow> nat \<Rightarrow> string \<Rightarrow> bool \<Rightarrow> bool \<Rightarrow> (nat \<times> string \<times> bool) option" where
  "append_float_digits data sz index normalized nonzero has_digit =
     (if index < sz then
        let v = data ! index in
        if code v \<ge> 48 \<and> code v \<le> 57 then
          append_float_digits data sz (index + 1) (normalized @ [v]) (nonzero \<or> v \<noteq> CHR ''0'') True
        else if v \<noteq> CHR ''_'' then (if has_digit then Some (index, normalized, nonzero) else None)
        else if \<not> has_digit \<or> index + 1 = sz \<or> code (data ! (index + 1)) < 48 \<or> code (data ! (index + 1)) > 57
        then None
        else append_float_digits data sz (index + 1) normalized nonzero has_digit
      else if has_digit then Some (index, normalized, nonzero) else None)"
  by pat_completeness auto
termination
  by (relation "measure (\<lambda>(data, sz, index, rest). sz - index)") auto

declare append_float_digits.simps [simp del]

text \<open>
  What \<^verbatim>\<open>std::from_chars\<close> answers for the whole text: the bits of the value, or that it is out of range;
  \<open>None\<close> is any other answer. It is a parameter.
\<close>

datatype FromChars = ParsedFloat u64 | FloatOutOfRange

definition is_finite_nonzero :: "nat \<Rightarrow> u64 \<Rightarrow> bool" where
  "is_finite_nonzero width bits =
     (if width = 32 then bits AND 0x7F800000 \<noteq> 0x7F800000 \<and> bits AND 0x7FFFFFFF \<noteq> 0
      else bits AND 0x7FF0000000000000 \<noteq> 0x7FF0000000000000 \<and> bits AND 0x7FFFFFFFFFFFFFFF \<noteq> 0)"

text \<open>The part of \<open>parse_float\<close> that checks the text: the normalised text and whether it is not zero.\<close>

definition float_exponent_part :: "string \<Rightarrow> nat \<Rightarrow> nat \<Rightarrow> string \<Rightarrow> (nat \<times> string) option" where
  "float_exponent_part data sz index normalized =
     (if index < sz \<and> (data ! index = CHR ''e'' \<or> data ! index = CHR ''E'') then
        let normalized = normalized @ [data ! index]; index = index + 1;
            signed = index < sz \<and> (data ! index = CHR ''+'' \<or> data ! index = CHR ''-'');
            normalized = (if signed then normalized @ [data ! index] else normalized);
            index = (if signed then index + 1 else index) in
        map_option (\<lambda>(i, n, z). (i, n)) (append_float_digits data sz index normalized False False)
      else Some (index, normalized))"

definition float_fraction_part ::
  "string \<Rightarrow> nat \<Rightarrow> nat \<Rightarrow> string \<Rightarrow> bool \<Rightarrow> (nat \<times> string \<times> bool) option" where
  "float_fraction_part data sz index normalized nonzero =
     (if index < sz \<and> data ! index = CHR ''.''
      then append_float_digits data sz (index + 1) (normalized @ ''.'') nonzero False
      else Some (index, normalized, nonzero))"

definition parse_float :: "(string \<Rightarrow> FromChars option) \<Rightarrow> nat \<Rightarrow> ClothString \<Rightarrow> ParseResult outcome" where
  "parse_float from_chars width text =
     (let data = bytes_of (st_data text); sz = st_byte_size text;
          signed = 0 < sz \<and> (data ! 0 = CHR ''+'' \<or> data ! 0 = CHR ''-'');
          negative = (signed \<and> data ! 0 = CHR ''-'') in
      case append_float_digits data sz (if signed then 1 else 0) (if negative then ''-'' else []) False False of
        None \<Rightarrow> Inr ParseInvalid
      | Some (i1, n1, z1) \<Rightarrow> (case float_fraction_part data sz i1 n1 z1 of
          None \<Rightarrow> Inr ParseInvalid
        | Some (i2, n2, nonzero) \<Rightarrow> (case float_exponent_part data sz i2 n2 of
            None \<Rightarrow> Inr ParseInvalid
          | Some (i3, normalized) \<Rightarrow>
              if i3 \<noteq> sz then Inr ParseInvalid
              else if \<not> nonzero then
                Inr (ParseValue (if negative then (if width = 32 then 0x80000000 else 0x8000000000000000) else 0))
              else (case from_chars normalized of
                None \<Rightarrow> fail ''floating-point parser rejected validated input''
              | Some FloatOutOfRange \<Rightarrow> Inr ParseOutOfRange
              | Some (ParsedFloat bits) \<Rightarrow>
                  if is_finite_nonzero width bits then Inr (ParseValue bits) else Inr ParseOutOfRange))))"

text \<open>\<open>from_chars\<close> takes the width of the result. The result pointer is not null.\<close>

definition cloth_rt_parse_primitive ::
  "(nat \<Rightarrow> string \<Rightarrow> FromChars option) \<Rightarrow> nat \<Rightarrow> ClothString option \<Rightarrow> ParseResult outcome" where
  "cloth_rt_parse_primitive from_chars kind v =
     (if kind > 12 then fail ''primitive parse kind is invalid''
      else if v = None then fail ''primitive parse text is null''
      else case require_parse_text v of
        Inl e \<Rightarrow> fail e
      | Inr text \<Rightarrow>
          let data = bytes_of (st_data text); sz = st_byte_size text; k = parse_kinds ! kind in
          if k = pkBool then
            (if sz = 4 \<and> take 4 data = ''true'' then Inr (ParseValue 1)
             else if sz = 5 \<and> take 5 data = ''false'' then Inr (ParseValue 0)
             else Inr ParseInvalid)
          else if k = pkChar then
            (case rt_decode_utf8_scalar data sz 0 of
               None \<Rightarrow> Inr ParseInvalid
             | Some (scalar, index) \<Rightarrow> if index \<noteq> sz then Inr ParseInvalid else Inr (ParseValue (ucast scalar)))
          else (case integer_parse_type k of
              Some type \<Rightarrow> Inr (parse_integer text type)
            | None \<Rightarrow>
                if k = pkFloat32 then parse_float (from_chars 32) 32 text
                else parse_float (from_chars 64) 64 text))"

section \<open>Integers in byte arrays\<close>

text \<open>A byte array as far as these operations look at it.\<close>

record ByteArray =
  ba_type :: TypeRef
  ba_data :: "u8 list"
  ba_length :: nat
  ba_element_size :: nat
  ba_reference_count :: nat

definition require_byte_array :: "ByteArray option \<Rightarrow> ByteArray outcome" where
  "require_byte_array v =
     (case v of
        None \<Rightarrow> fail ''null byte array''
      | Some a \<Rightarrow>
          if ba_type a \<noteq> ArrayType \<or> ba_element_size a \<noteq> 1 \<or> ba_reference_count a \<noteq> 0
          then fail ''invalid byte array'' else Inr a)"

definition integer_byte_offset :: "ByteArray \<Rightarrow> int \<Rightarrow> nat \<Rightarrow> nat outcome" where
  "integer_byte_offset a offset byte_width =
     (if byte_width \<noteq> 1 \<and> byte_width \<noteq> 2 \<and> byte_width \<noteq> 4 \<and> byte_width \<noteq> 8
      then fail ''invalid integer byte width''
      else if offset < 0 then fail ''integer byte range is out of bounds''
      else if nat offset > ba_length a \<or> byte_width > ba_length a - nat offset
      then fail ''integer byte range is out of bounds''
      else Inr (nat offset))"

text \<open>The position of the byte of weight \<open>index\<close>; order 0 is little-endian, 1 big-endian.\<close>

definition byte_position :: "nat \<Rightarrow> nat \<Rightarrow> nat \<Rightarrow> nat" where
  "byte_position byte_order byte_width index = (if byte_order = 0 then index else byte_width - index - 1)"

fun write_bytes :: "u8 list \<Rightarrow> nat \<Rightarrow> u64 \<Rightarrow> nat \<Rightarrow> nat \<Rightarrow> nat list \<Rightarrow> u8 list" where
  "write_bytes bytes offset bits byte_width byte_order [] = bytes"
| "write_bytes bytes offset bits byte_width byte_order (index # indices) =
     write_bytes (bytes[offset + byte_position byte_order byte_width index := ucast (drop_bit (index * 8) bits)])
       offset bits byte_width byte_order indices"

fun read_bytes :: "u8 list \<Rightarrow> nat \<Rightarrow> nat \<Rightarrow> nat \<Rightarrow> u64 \<Rightarrow> nat list \<Rightarrow> u64" where
  "read_bytes bytes offset byte_width byte_order bits [] = bits"
| "read_bytes bytes offset byte_width byte_order bits (index # indices) =
     read_bytes bytes offset byte_width byte_order
       (bits OR push_bit (index * 8) (ucast (bytes ! (offset + byte_position byte_order byte_width index)))) indices"

definition cloth_rt_integer_write ::
  "ByteArray option \<Rightarrow> int \<Rightarrow> u64 \<Rightarrow> nat \<Rightarrow> nat \<Rightarrow> ByteArray outcome" where
  "cloth_rt_integer_write destination offset bits byte_width byte_order =
     (case require_byte_array destination of
        Inl e \<Rightarrow> fail e
      | Inr a \<Rightarrow> (case integer_byte_offset a offset byte_width of
          Inl e \<Rightarrow> fail e
        | Inr native_offset \<Rightarrow>
            if byte_order > 1 then fail ''invalid integer byte order''
            else Inr (a\<lparr>ba_data := write_bytes (ba_data a) native_offset bits byte_width byte_order [0..<byte_width]\<rparr>)))"

definition cloth_rt_integer_read :: "ByteArray option \<Rightarrow> int \<Rightarrow> nat \<Rightarrow> nat \<Rightarrow> u64 outcome" where
  "cloth_rt_integer_read source offset byte_width byte_order =
     (case require_byte_array source of
        Inl e \<Rightarrow> fail e
      | Inr a \<Rightarrow> (case integer_byte_offset a offset byte_width of
          Inl e \<Rightarrow> fail e
        | Inr native_offset \<Rightarrow>
            if byte_order > 1 then fail ''invalid integer byte order''
            else Inr (read_bytes (ba_data a) native_offset byte_width byte_order 0 [0..<byte_width])))"

section \<open>The integer texts\<close>

definition digit_in :: "nat \<Rightarrow> char \<Rightarrow> bool" where
  "digit_in r c \<longleftrightarrow> hex_digit c < r"

text \<open>Digits in groups that single underscores separate.\<close>

fun digit_run :: "nat \<Rightarrow> string \<Rightarrow> bool" where
  "digit_run r [] \<longleftrightarrow> False"
| "digit_run r [c] \<longleftrightarrow> digit_in r c"
| "digit_run r (c # d # cs) \<longleftrightarrow>
     digit_in r c \<and> (if d = CHR ''_'' then digit_run r cs else digit_run r (d # cs))"

abbreviation add_digit :: "nat \<Rightarrow> nat \<Rightarrow> char \<Rightarrow> nat" where
  "add_digit r n c \<equiv> n * r + hex_digit c"

definition text_digits_value :: "nat \<Rightarrow> string \<Rightarrow> nat" where
  "text_digits_value r s = foldl (add_digit r) 0 (filter (\<lambda>c. c \<noteq> CHR ''_'') s)"

text \<open>A text split into its sign, radix and digits.\<close>

definition integer_text :: "string \<Rightarrow> bool \<times> nat \<times> string" where
  "integer_text s =
     (let negative = (s \<noteq> [] \<and> hd s = CHR ''-'');
          body = (if s \<noteq> [] \<and> (hd s = CHR ''+'' \<or> hd s = CHR ''-'') then tl s else s) in
      if take 2 body = ''0b'' then (negative, 2, drop 2 body)
      else if take 2 body = ''0o'' then (negative, 8, drop 2 body)
      else if take 2 body = ''0x'' then (negative, 16, drop 2 body)
      else (negative, 10, body))"

text \<open>What the loop accepts after a digit.\<close>

fun digit_tail :: "nat \<Rightarrow> string \<Rightarrow> bool" where
  "digit_tail r [] \<longleftrightarrow> True"
| "digit_tail r (c # cs) \<longleftrightarrow>
     (if digit_in r c then digit_tail r cs
      else c = CHR ''_'' \<and> cs \<noteq> [] \<and> digit_in r (hd cs) \<and> digit_tail r cs)"

lemma digit_in_code:
  assumes "r \<le> 16"
  shows "digit_in r c \<longleftrightarrow> rt_digit_value c \<ge> 0 \<and> nat (rt_digit_value c) < r"
    "digit_in r c \<Longrightarrow> rt_digit_value c = int (hex_digit c)"
  using assms by (auto simp: digit_in_def rt_digit_value_def hex_digit_code split: if_splits)

lemma underscore_no_digit: "r \<le> 16 \<Longrightarrow> \<not> digit_in r (CHR ''_'')"
  by (simp add: digit_in_def hex_digit_code)

lemma digit_run_tail:
  assumes "r \<le> 16"
  shows "digit_run r (c # cs) \<longleftrightarrow> digit_in r c \<and> digit_tail r cs"
proof (induction cs arbitrary: c rule: length_induct)
  case (1 cs)
  show ?case
  proof (cases cs)
    case Nil
    then show ?thesis by simp
  next
    case (Cons d ds)
    show ?thesis
    proof (cases "d = CHR ''_''")
      case True
      show ?thesis
      proof (cases ds)
        case Nil
        then show ?thesis using Cons True underscore_no_digit [OF assms] by simp
      next
        case (Cons e es)
        then have "digit_run r ds \<longleftrightarrow> digit_in r e \<and> digit_tail r es"
          using "1.IH" \<open>cs = d # ds\<close> by simp
        then show ?thesis using \<open>cs = d # ds\<close> True Cons underscore_no_digit [OF assms] by auto
      qed
    next
      case False
      have "digit_run r (d # ds) \<longleftrightarrow> digit_in r d \<and> digit_tail r ds" using "1.IH" Cons by simp
      then show ?thesis using Cons False by auto
    qed
  qed
qed

definition tracks :: "u64 \<Rightarrow> nat \<Rightarrow> u64 \<times> bool \<Rightarrow> bool" where
  "tracks limit n state \<longleftrightarrow> (snd state = (n > unat limit)) \<and> (\<not> snd state \<longrightarrow> unat (fst state) = n)"

definition add_digit_step :: "u64 \<Rightarrow> nat \<Rightarrow> char \<Rightarrow> u64 \<times> bool \<Rightarrow> u64 \<times> bool" where
  "add_digit_step limit r c state =
     (case state of (magnitude, out) \<Rightarrow>
        if out then (magnitude, True)
        else if magnitude > (limit - of_int (rt_digit_value c)) div of_nat r then (magnitude, True)
        else (magnitude * of_nat r + of_int (rt_digit_value c), False))"

lemma add_digit_step_tracks:
  assumes t: "tracks limit n state" and c: "digit_in r c" and r: "2 \<le> r" "r \<le> 16" and l: "15 \<le> unat limit"
  shows "tracks limit (add_digit r n c) (add_digit_step limit r c state)"
proof -
  obtain m out where state: "state = (m, out)" by (cases state)
  define d where "d = hex_digit c"
  have d: "d < r" "d \<le> 15" "rt_digit_value c = int d"
    using c r digit_in_code(2) [OF r(2) c] by (simp_all add: digit_in_def d_def)
  have ud: "unat (of_nat d :: u64) = d" "unat (of_nat r :: u64) = r"
    using d r by (simp_all add: unat_of_nat)
  show ?thesis
  proof (cases out)
    case True
    then have "n > unat limit" using t state by (simp add: tracks_def)
    moreover have "n \<le> n * r" using r by simp
    ultimately have "unat limit < add_digit r n c" by linarith
    then show ?thesis using True state by (simp add: tracks_def add_digit_step_def)
  next
    case False
    then have m: "unat m = n" "n \<le> unat limit" using t state by (auto simp: tracks_def)
    have "unat ((limit - of_nat d) div of_nat r) = (unat limit - d) div r"
    proof -
      have "(of_nat d :: u64) \<le> limit" using ud l d by (simp add: word_le_nat_alt)
      then have "unat (limit - of_nat d) = unat limit - d" using ud by (simp add: unat_sub)
      then show ?thesis using ud by (simp add: unat_div)
    qed
    then have gt: "m > (limit - of_nat d) div of_nat r \<longleftrightarrow> unat limit < n * r + d"
      using m d l r by (simp add: word_less_nat_alt div_less_iff_less_mult) linarith
    show ?thesis
    proof (cases "unat limit < n * r + d")
      case True
      then show ?thesis using gt False state d(3) by (simp add: tracks_def add_digit_step_def d_def [symmetric])
    next
      case fit: False
      have "unat limit < 2 ^ LENGTH(64)" by (rule unsigned_less)
      then have "n * r + d < 2 ^ LENGTH(64)" using fit by linarith
      then have "unat (m * of_nat r + of_nat d) = n * r + d"
        using m ud by (simp add: unat_word_ariths)
      then show ?thesis using gt fit False state d(3) by (simp add: tracks_def add_digit_step_def d_def [symmetric])
    qed
  qed
qed

lemma parse_digits_end:
  "\<not> index < sz \<Longrightarrow> parse_digits data sz r limit index m has out = (if has then Some (m, out) else None)"
  by (subst parse_digits.simps) simp

lemma parse_digits_digit:
  assumes "index < sz" "digit_in r (data ! index)" "r \<le> 16"
  shows "parse_digits data sz r limit index m has out =
    (case add_digit_step limit r (data ! index) (m, out) of (m', out') \<Rightarrow>
       parse_digits data sz r limit (index + 1) m' True out')"
  using assms by (subst parse_digits.simps) (auto simp: Let_def digit_in_code(1) add_digit_step_def)

lemma parse_digits_other:
  assumes "index < sz" "\<not> digit_in r (data ! index)" "r \<le> 16"
  shows "parse_digits data sz r limit index m has out =
    (if data ! index = CHR ''_'' \<and> has \<and> index + 1 \<noteq> sz \<and> digit_in r (data ! (index + 1))
     then parse_digits data sz r limit (index + 1) m has out else None)"
  using assms by (subst parse_digits.simps) (auto simp: Let_def digit_in_code(1) not_le)

lemma parse_digits_tail:
  assumes r: "2 \<le> r" "r \<le> 16" and l: "15 \<le> unat limit"
  shows "index \<le> length d \<Longrightarrow> tracks limit n (m, out) \<Longrightarrow>
    (if digit_tail r (drop index d)
     then \<exists>m' out'. parse_digits d (length d) r limit index m True out = Some (m', out') \<and>
            tracks limit (foldl (add_digit r) n (filter (\<lambda>c. c \<noteq> CHR ''_'') (drop index d))) (m', out')
     else parse_digits d (length d) r limit index m True out = None)"
proof (induction "length d - index" arbitrary: index n m out)
  case 0
  then show ?case by (auto simp: parse_digits_end)
next
  case (Suc k)
  then have i: "index < length d" by simp
  then have drop: "drop index d = d ! index # drop (index + 1) d" by (simp add: Cons_nth_drop_Suc)
  have IH: "tracks limit n' (m', out') \<Longrightarrow>
    (if digit_tail r (drop (index + 1) d)
     then \<exists>m'' out''. parse_digits d (length d) r limit (index + 1) m' True out' = Some (m'', out'') \<and>
            tracks limit (foldl (add_digit r) n' (filter (\<lambda>c. c \<noteq> CHR ''_'') (drop (index + 1) d))) (m'', out'')
     else parse_digits d (length d) r limit (index + 1) m' True out' = None)" for n' m' out'
    by (rule Suc.hyps(1)) (use Suc.hyps(2) i in auto)
  show ?case
  proof (cases "digit_in r (d ! index)")
    case True
    obtain m' out' where step: "add_digit_step limit r (d ! index) (m, out) = (m', out')" by fastforce
    then have "tracks limit (add_digit r n (d ! index)) (m', out')"
      using add_digit_step_tracks [OF Suc.prems(2) True r l] by simp
    note rec = IH [OF this]
    have "d ! index \<noteq> CHR ''_''" using True underscore_no_digit [OF r(2)] by metis
    then show ?thesis using rec True step parse_digits_digit [OF i True r(2), of limit m True out]
      unfolding drop by (cases "digit_tail r (drop (index + 1) d)") simp_all
  next
    case False
    have next_digit: "drop (index + 1) d \<noteq> [] \<and> digit_in r (hd (drop (index + 1) d)) \<longleftrightarrow>
        index + 1 \<noteq> length d \<and> digit_in r (d ! (index + 1))"
      using i by (auto simp: hd_drop_conv_nth)
    show ?thesis
      using IH [OF Suc.prems(2)] False next_digit parse_digits_other [OF i False r(2), of limit m True out]
      unfolding drop by (auto split: if_splits)
  qed
qed

lemma parse_digits_run:
  assumes r: "2 \<le> r" "r \<le> 16" and l: "15 \<le> unat limit" and i: "index \<le> length d"
  shows "if digit_run r (drop index d)
     then \<exists>m out. parse_digits d (length d) r limit index 0 False False = Some (m, out) \<and>
            tracks limit (text_digits_value r (drop index d)) (m, out)
     else parse_digits d (length d) r limit index 0 False False = None"
proof (cases "index < length d")
  case False
  then show ?thesis using i by (simp add: parse_digits_end)
next
  case True
  then have drop: "drop index d = d ! index # drop (index + 1) d" by (simp add: Cons_nth_drop_Suc)
  show ?thesis
  proof (cases "digit_in r (d ! index)")
    case digit: True
    have "tracks limit 0 (0, False)" by (simp add: tracks_def)
    from add_digit_step_tracks [OF this digit r l] obtain m out
      where step: "add_digit_step limit r (d ! index) (0, False) = (m, out)"
        and t: "tracks limit (add_digit r 0 (d ! index)) (m, out)" by (metis surj_pair)
    have "index + 1 \<le> length d" using True by simp
    note rec = parse_digits_tail [OF r l this t]
    have "d ! index \<noteq> CHR ''_''" using digit underscore_no_digit [OF r(2)] by metis
    then show ?thesis
      using rec digit step parse_digits_digit [OF True digit r(2), of limit 0 False False]
      unfolding drop by (cases "digit_tail r (drop (index + 1) d)") (simp_all add: digit_run_tail [OF r(2)] text_digits_value_def)
  next
    case False
    then show ?thesis using parse_digits_other [OF True False r(2), of limit 0 False False]
      unfolding drop by (simp add: digit_run_tail [OF r(2)])
  qed
qed

lemma integer_parse_type_cases:
  assumes "integer_parse_type kind = Some type"
  shows "ip_width type \<in> {8, 16, 32, 64}"
  using assms by (auto simp: integer_parse_type_def split: ParseKind.splits)

lemma limits:
  assumes "integer_parse_type kind = Some type"
  shows "unat (unsigned_limit type) = 2 ^ ip_width type - 1" "unsigned_limit type = mask (ip_width type)"
    "unat (parse_limit type negative) =
      (if ip_is_signed type then 2 ^ (ip_width type - 1) - 1 + (if negative then 1 else 0) else 2 ^ ip_width type - 1)"
  using integer_parse_type_cases [OF assms]
  by (auto simp: unsigned_limit_def parse_limit_def signed_maximum_def mask_eq_exp_minus_1)

lemma radix_prefix_text:
  assumes "index \<le> length d"
  shows "radix_prefix d (length d) index =
    (if take 2 (drop index d) = ''0b'' then (2, index + 2)
     else if take 2 (drop index d) = ''0o'' then (8, index + 2)
     else if take 2 (drop index d) = ''0x'' then (16, index + 2) else (10, index))"
proof (cases "index + 1 < length d")
  case True
  then have "take 2 (drop index d) = [d ! index, d ! (index + 1)]"
    by (simp add: Cons_nth_drop_Suc [symmetric] numeral_2_eq_2)
  then show ?thesis using True by (auto simp: radix_prefix_def Let_def)
next
  case False
  then have "length (take 2 (drop index d)) < 2" by simp
  then have "take 2 (drop index d) \<noteq> [a, b]" for a b by (metis length_Cons list.size(3) less_irrefl numeral_2_eq_2)
  then show ?thesis using False by (simp add: radix_prefix_def Let_def)
qed

text \<open>
  The reference: the value a text denotes, and what parsing it as an integer of width \<open>w\<close> should give.
\<close>

definition integer_meaning :: "nat \<Rightarrow> bool \<Rightarrow> string \<Rightarrow> ParseResult" where
  "integer_meaning w is_signed s =
     (case integer_text s of (negative, radix, digits) \<Rightarrow>
        let v = (if negative then - int (text_digits_value radix digits) else int (text_digits_value radix digits)) in
        if (negative \<and> \<not> is_signed) \<or> \<not> digit_run radix digits then ParseInvalid
        else if (if is_signed then - (2 ^ (w - 1)) \<le> v \<and> v < 2 ^ (w - 1) else v < 2 ^ w)
        then ParseValue (of_int (v mod 2 ^ w))
        else ParseOutOfRange)"

lemma two_complement_bits:
  fixes m :: u64
  assumes "w \<le> 64"
  shows "(NOT m + 1) AND mask w = of_int (- int (unat m) mod 2 ^ w)"
proof -
  have "NOT m + 1 = - m" by (simp add: minus_eq_not_plus_1)
  then have "(NOT m + 1) AND mask w = take_bit w (- m)" by (simp only: take_bit_eq_mask)
  also have "- m = of_int (- int (unat m))" by simp
  also have "take_bit w (of_int (- int (unat m)) :: u64) = of_int (take_bit w (- int (unat m)))"
    by (rule take_bit_of_int)
  finally show ?thesis by (simp only: take_bit_eq_mod)
qed

lemma parse_integer_meaning:
  assumes data: "st_data text = Some d" "st_byte_size text = length d"
    and type: "integer_parse_type kind = Some type"
  shows "parse_integer text type = integer_meaning (ip_width type) (ip_is_signed type) d"
proof -
  define signed where "signed \<longleftrightarrow> d \<noteq> [] \<and> (hd d = CHR ''+'' \<or> hd d = CHR ''-'')"
  define negative where "negative \<longleftrightarrow> d \<noteq> [] \<and> hd d = CHR ''-''"
  define index where "index = (if signed then 1 else 0 :: nat)"
  have il: "index \<le> length d" by (auto simp: index_def signed_def Suc_le_eq)
  have sgn: "0 < length d \<and> (d ! 0 = CHR ''+'' \<or> d ! 0 = CHR ''-'') \<longleftrightarrow> signed"
    "signed \<and> d ! 0 = CHR ''-'' \<longleftrightarrow> negative"
    by (auto simp: signed_def negative_def hd_conv_nth)
  have body: "(if d \<noteq> [] \<and> (hd d = CHR ''+'' \<or> hd d = CHR ''-'') then tl d else d) = drop index d"
    by (auto simp: index_def signed_def drop_Suc)
  define radix where "radix = fst (radix_prefix d (length d) index)"
  define index' where "index' = snd (radix_prefix d (length d) index)"
  have r: "2 \<le> radix" "radix \<le> 16" "index' \<le> length d"
  proof -
    have "index + 2 \<le> length d" if "take 2 (drop index d) = [a, b]" for a b
    proof -
      have "length (take 2 (drop index d)) = 2" using that by simp
      then show ?thesis by simp
    qed
    then show "2 \<le> radix" "radix \<le> 16" "index' \<le> length d"
      using il unfolding radix_def index'_def radix_prefix_text [OF il] by auto
  qed
  have split_text: "integer_text d = (negative, radix, drop index' d)"
    unfolding integer_text_def body Let_def negative_def [symmetric] radix_def index'_def radix_prefix_text [OF il]
    by (simp add: drop_drop add.commute)
  define limit where "limit = parse_limit type negative"
  have w: "ip_width type \<in> {8, 16, 32, 64}" by (rule integer_parse_type_cases [OF type])
  have ul: "unat limit = (if ip_is_signed type then 2 ^ (ip_width type - 1) - 1 + (if negative then 1 else 0)
      else 2 ^ ip_width type - 1)"
    unfolding limit_def by (rule limits(3) [OF type])
  have l15: "15 \<le> unat limit" unfolding ul using w by auto
  have code: "parse_integer text type =
    (if negative \<and> \<not> ip_is_signed type then ParseInvalid
     else case parse_digits d (length d) radix limit index' 0 False False of
        None \<Rightarrow> ParseInvalid
      | Some (magnitude, out) \<Rightarrow>
          if out then ParseOutOfRange
          else ParseValue (if negative then (NOT magnitude + 1) AND unsigned_limit type else magnitude))"
    unfolding parse_integer_def Let_def data option.case sgn index_def [symmetric] limit_def radix_def index'_def
    by (simp add: case_prod_beta)
  show ?thesis
  proof (cases "(negative \<and> \<not> ip_is_signed type) \<or> \<not> digit_run radix (drop index' d)")
    case True
    then show ?thesis using code parse_digits_run [OF r(1,2) l15 r(3)] by (auto simp: integer_meaning_def split_text)
  next
    case False
    then obtain m out where p: "parse_digits d (length d) radix limit index' 0 False False = Some (m, out)"
        "tracks limit (text_digits_value radix (drop index' d)) (m, out)"
      using parse_digits_run [OF r(1,2) l15 r(3)] by auto
    define n where "n = text_digits_value radix (drop index' d)"
    have t: "out \<longleftrightarrow> n > unat limit" "\<not> out \<Longrightarrow> unat m = n" using p(2) by (auto simp: tracks_def n_def)
    define v where "v = (if negative then - int n else int n)"
    have range: "n \<le> unat limit \<longleftrightarrow> (if ip_is_signed type then - (2 ^ (ip_width type - 1)) \<le> v \<and> v < 2 ^ (ip_width type - 1)
        else v < 2 ^ ip_width type)"
      using w False unfolding ul v_def by auto
    have bits: "(if negative then (NOT m + 1) AND unsigned_limit type else m) = of_int (v mod 2 ^ ip_width type)"
      if "\<not> out"
    proof (cases negative)
      case True
      have "(NOT m + 1) AND mask (ip_width type) = of_int (- int (unat m) mod 2 ^ ip_width type)"
        by (rule two_complement_bits) (use w in auto)
      then show ?thesis using True t(2) [OF that] by (simp add: v_def limits(2) [OF type])
    next
      case False
      have "n \<le> unat limit" using t(1) that by simp
      also have "unat limit < 2 ^ ip_width type" unfolding ul using w False by auto
      finally have "n < 2 ^ ip_width type" .
      then have "int n < 2 ^ ip_width type" using of_nat_less_iff [of n "2 ^ ip_width type", where 'a = int] by simp
      then have "int n mod 2 ^ ip_width type = int n" by simp
      moreover have "m = of_nat n" using t(2) [OF that] by (metis of_nat_unat ucast_id)
      ultimately show ?thesis using False by (simp add: v_def)
    qed
    have mean: "integer_meaning (ip_width type) (ip_is_signed type) d = (if n \<le> unat limit then ParseValue (of_int (v mod 2 ^ ip_width type)) else ParseOutOfRange)"
      using False range by (simp add: integer_meaning_def split_text n_def v_def Let_def)
    show ?thesis unfolding mean code using False p(1) t(1) bits by (simp add: not_less)
  qed
qed

lemma decode_whole_text:
  assumes "encodes vs d"
  shows "(case rt_decode_utf8_scalar d (length d) 0 of
      None \<Rightarrow> None | Some (v, i) \<Rightarrow> if i \<noteq> length d then None else Some v) =
    (case vs of [v] \<Rightarrow> Some (of_nat v) | _ \<Rightarrow> None)"
proof (cases vs)
  case Nil
  then have "d = []" using assms by simp
  then show ?thesis using Nil by (simp add: rt_decode_utf8_scalar_def Let_def)
next
  case (Cons v ws)
  then have "rt_decode_utf8_scalar d (length d) 0 = Some (of_nat v, pos vs 1)"
    using decode_at_pos(1) [OF assms, of 0] by simp
  moreover have "pos vs 1 = length d \<longleftrightarrow> ws = []"
    using encodes_length [OF assms] pos_inj [of 1 vs "length vs"] Cons by auto
  ultimately show ?thesis using Cons by (cases ws) auto
qed

section \<open>The floating-point texts\<close>

text \<open>
  The parts of a floating-point text: its sign, the digits before the point, those after it, and the
  exponent (its letter, sign and digits). Digits are grouped by single underscores.
\<close>

record FloatText =
  ft_sign :: string
  ft_whole :: string
  ft_fraction :: "string option"
  ft_exponent :: "(char \<times> string \<times> string) option"

definition sign_text :: "string \<Rightarrow> bool" where
  "sign_text s \<longleftrightarrow> s = [] \<or> s = ''+'' \<or> s = ''-''"

definition float_text_ok :: "FloatText \<Rightarrow> bool" where
  "float_text_ok p \<longleftrightarrow> sign_text (ft_sign p) \<and> digit_run 10 (ft_whole p) \<and>
     pred_option (digit_run 10) (ft_fraction p) \<and>
     pred_option (\<lambda>(letter, sign, run). (letter = CHR ''e'' \<or> letter = CHR ''E'') \<and>
       sign_text sign \<and> digit_run 10 run) (ft_exponent p)"

text \<open>The text with its digits written by \<open>f\<close>: as they stand, or without the underscores.\<close>

definition write_float :: "(string \<Rightarrow> string) \<Rightarrow> string \<Rightarrow> FloatText \<Rightarrow> string" where
  "write_float f sign p = sign @ f (ft_whole p) @
     (case ft_fraction p of None \<Rightarrow> [] | Some run \<Rightarrow> CHR ''.'' # f run) @
     (case ft_exponent p of None \<Rightarrow> [] | Some (letter, s, run) \<Rightarrow> letter # s @ f run)"

definition ungrouped :: "string \<Rightarrow> string" where
  "ungrouped run = filter (\<lambda>c. c \<noteq> CHR ''_'') run"

definition float_spelling :: "FloatText \<Rightarrow> string" where
  "float_spelling p = write_float (\<lambda>run. run) (ft_sign p) p"

definition float_normalized :: "FloatText \<Rightarrow> string" where
  "float_normalized p = write_float ungrouped (if ft_sign p = ''-'' then ''-'' else []) p"

definition zero_digits :: "string \<Rightarrow> bool" where
  "zero_digits run \<longleftrightarrow> list_all (\<lambda>c. c = CHR ''0'') (ungrouped run)"

text \<open>
  A bit pattern of the width that is no infinity, no NaN and no zero: its exponent field is not all
  ones, and some bit apart from its sign is set.
\<close>

definition finite_nonzero_pattern :: "nat \<Rightarrow> nat \<Rightarrow> bool" where
  "finite_nonzero_pattern w n \<longleftrightarrow>
     (if w = 32 then n div 2 ^ 23 mod 2 ^ 8 \<noteq> 2 ^ 8 - 1 else n div 2 ^ 52 mod 2 ^ 11 \<noteq> 2 ^ 11 - 1) \<and>
     n mod 2 ^ (w - 1) \<noteq> 0"

definition float_meaning :: "(string \<Rightarrow> FromChars option) \<Rightarrow> nat \<Rightarrow> FloatText \<Rightarrow> ParseResult outcome" where
  "float_meaning from_chars w p =
     (if zero_digits (ft_whole p) \<and> pred_option zero_digits (ft_fraction p)
      then Inr (ParseValue (if ft_sign p = ''-'' then 2 ^ (w - 1) else 0))
      else case from_chars (float_normalized p) of
        None \<Rightarrow> fail ''floating-point parser rejected validated input''
      | Some FloatOutOfRange \<Rightarrow> Inr ParseOutOfRange
      | Some (ParsedFloat bits) \<Rightarrow>
          Inr (if finite_nonzero_pattern w (unat bits) then ParseValue bits else ParseOutOfRange))"

text \<open>The parts of a text, found from left to right.\<close>

abbreviation float_char :: "char \<Rightarrow> bool" where
  "float_char c \<equiv> digit_in 10 c \<or> c = CHR ''_''"

definition split_sign :: "string \<Rightarrow> string \<times> string" where
  "split_sign s =
     (if s \<noteq> [] \<and> (hd s = CHR ''+'' \<or> hd s = CHR ''-'') then ([hd s], tl s) else ([], s))"

definition split_fraction :: "string \<Rightarrow> string option \<times> string" where
  "split_fraction s =
     (if s \<noteq> [] \<and> hd s = CHR ''.''
      then (Some (takeWhile float_char (tl s)), dropWhile float_char (tl s)) else (None, s))"

definition split_exponent :: "string \<Rightarrow> (char \<times> string \<times> string) option \<times> string" where
  "split_exponent s =
     (if s \<noteq> [] \<and> (hd s = CHR ''e'' \<or> hd s = CHR ''E'') then
        (case split_sign (tl s) of (sign, r) \<Rightarrow>
           (Some (hd s, sign, takeWhile float_char r), dropWhile float_char r))
      else (None, s))"

definition split_float :: "string \<Rightarrow> FloatText \<times> string" where
  "split_float s =
     (let (sign, r0) = split_sign s;
          (fraction, r2) = split_fraction (dropWhile float_char r0);
          (expo, r3) = split_exponent r2
      in (\<lparr>ft_sign = sign, ft_whole = takeWhile float_char r0, ft_fraction = fraction, ft_exponent = expo\<rparr>, r3))"

lemma split_sign_append: "fst (split_sign s) @ snd (split_sign s) = s" "sign_text (fst (split_sign s))"
  by (cases s; auto simp: split_sign_def sign_text_def)+

lemma split_float_spelling: "float_spelling (fst (split_float s)) @ snd (split_float s) = s"
proof -
  obtain sign r0 where a: "split_sign s = (sign, r0)" by fastforce
  obtain f r2 where b: "split_fraction (dropWhile float_char r0) = (f, r2)" by fastforce
  obtain e r3 where c: "split_exponent r2 = (e, r3)" by fastforce
  have "s = sign @ takeWhile float_char r0 @ dropWhile float_char r0"
    using split_sign_append(1) [of s] a by simp
  moreover have "dropWhile float_char r0 = (case f of None \<Rightarrow> [] | Some run \<Rightarrow> CHR ''.'' # run) @ r2"
    using b by (cases "dropWhile float_char r0") (auto simp: split_fraction_def split: if_splits)
  moreover have "r2 = (case e of None \<Rightarrow> [] | Some (letter, sg, run) \<Rightarrow> letter # sg @ run) @ r3"
  proof (cases "r2 \<noteq> [] \<and> (hd r2 = CHR ''e'' \<or> hd r2 = CHR ''E'')")
    case True
    obtain sg r where t: "split_sign (tl r2) = (sg, r)" by fastforce
    then have "tl r2 = sg @ r" using split_sign_append(1) [of "tl r2"] by simp
    then show ?thesis using c t True by (cases r2) (auto simp: split_exponent_def)
  qed (use c in \<open>auto simp: split_exponent_def\<close>)
  ultimately have whole: "s = sign @ takeWhile float_char r0 @
      (case f of None \<Rightarrow> [] | Some run \<Rightarrow> CHR ''.'' # run) @
      (case e of None \<Rightarrow> [] | Some (letter, sg, run) \<Rightarrow> letter # sg @ run) @ r3" by simp
  have "split_float s = (\<lparr>ft_sign = sign, ft_whole = takeWhile float_char r0, ft_fraction = f, ft_exponent = e\<rparr>, r3)"
    by (simp only: split_float_def a Let_def prod.case b c)
  then show ?thesis
    by (simp only: whole [symmetric] float_spelling_def write_float_def append_assoc fst_conv snd_conv FloatText.simps)
qed

lemma digit_run_chars: "digit_run 10 run \<Longrightarrow> list_all float_char run \<and> run \<noteq> [] \<and> digit_in 10 (hd run)"
proof (induction "10 :: nat" run rule: digit_run.induct)
  case (3 c d cs)
  then show ?case by (auto split: if_splits)
qed auto

lemma float_digit_code: "digit_in 10 c \<longleftrightarrow> 48 \<le> code c \<and> code c \<le> 57"
  by (auto simp: digit_in_def hex_digit_code)

lemma takeWhile_stop:
  assumes "list_all P run" "rest = [] \<or> \<not> P (hd rest)"
  shows "takeWhile P (run @ rest) = run" "dropWhile P (run @ rest) = rest"
  using assms by (induction run) (cases rest; auto)+

lemma split_sign_text:
  assumes "sign_text sign" "r \<noteq> []" "float_char (hd r)"
  shows "split_sign (sign @ r) = (sign, r)"
  using assms by (cases r) (auto simp: sign_text_def split_sign_def float_digit_code)

lemma split_float_unique:
  assumes "float_text_ok p"
  shows "split_float (float_spelling p) = (p, [])"
proof -
  let ?e = "case ft_exponent p of None \<Rightarrow> [] | Some (letter, sg, run) \<Rightarrow> letter # sg @ run"
  let ?f = "case ft_fraction p of None \<Rightarrow> [] | Some run \<Rightarrow> CHR ''.'' # run"
  note ok = assms [unfolded float_text_ok_def]
  note whole = digit_run_chars [of "ft_whole p"]
  have e: "?e = [] \<or> \<not> float_char (hd ?e) \<and> hd ?e \<noteq> CHR ''.''"
    using ok by (cases "ft_exponent p") (auto simp: float_digit_code)
  have f: "?f @ ?e = [] \<or> \<not> float_char (hd (?f @ ?e))"
    using e by (cases "ft_fraction p") (auto simp: float_digit_code)
  have s: "float_spelling p = ft_sign p @ ft_whole p @ ?f @ ?e"
    by (simp add: float_spelling_def write_float_def)
  have a: "split_sign (float_spelling p) = (ft_sign p, ft_whole p @ ?f @ ?e)"
    unfolding s using ok whole by (intro split_sign_text) auto
  have b: "takeWhile float_char (ft_whole p @ ?f @ ?e) = ft_whole p"
    "dropWhile float_char (ft_whole p @ ?f @ ?e) = ?f @ ?e"
    using takeWhile_stop [of float_char "ft_whole p" "?f @ ?e"] ok whole f by auto
  have c: "split_fraction (?f @ ?e) = (ft_fraction p, ?e)"
  proof (cases "ft_fraction p")
    case None
    then show ?thesis using e by (auto simp: split_fraction_def)
  next
    case (Some run)
    then have "takeWhile float_char (run @ ?e) = run" "dropWhile float_char (run @ ?e) = ?e"
      using takeWhile_stop [of float_char run ?e] ok e digit_run_chars [of run] by auto
    then show ?thesis using Some by (simp add: split_fraction_def)
  qed
  have d: "split_exponent ?e = (ft_exponent p, [])"
  proof (cases "ft_exponent p")
    case None
    then show ?thesis by (simp add: split_exponent_def)
  next
    case (Some x)
    obtain letter sg run where x: "x = (letter, sg, run)" by (cases x)
    then have r: "sign_text sg" "digit_run 10 run" "letter = CHR ''e'' \<or> letter = CHR ''E''"
      using ok Some by auto
    then have "split_sign (sg @ run) = (sg, run)" using digit_run_chars [of run] by (intro split_sign_text) auto
    then show ?thesis
      using Some x r digit_run_chars [of run] takeWhile_stop [of float_char run "[]"]
      by (auto simp: split_exponent_def)
  qed
  show ?thesis unfolding split_float_def a Let_def prod.case b c d by simp
qed

lemma zero_digits_Cons:
  "zero_digits (c # run) \<longleftrightarrow> (c = CHR ''_'' \<or> c = CHR ''0'') \<and> zero_digits run"
  by (simp add: zero_digits_def ungrouped_def)

lemma append_float_digits_tail:
  "index \<le> length d \<Longrightarrow>
   append_float_digits d (length d) index norm nz True =
     (let run = takeWhile float_char (drop index d) in
      if digit_tail 10 run
      then Some (index + length run, norm @ ungrouped run, nz \<or> \<not> zero_digits run) else None)"
proof (induction "length d - index" arbitrary: index norm nz)
  case 0
  then show ?case
    by (subst append_float_digits.simps) (simp add: ungrouped_def zero_digits_def)
next
  case (Suc k)
  then have i: "index < length d" by simp
  let ?v = "d ! index" and ?r = "takeWhile float_char (drop (index + 1) d)"
  have drop: "drop index d = ?v # drop (index + 1) d" using i by (simp add: Cons_nth_drop_Suc)
  have IH: "append_float_digits d (length d) (index + 1) norm' nz' True =
     (let run = ?r in if digit_tail 10 run
      then Some (index + 1 + length run, norm' @ ungrouped run, nz' \<or> \<not> zero_digits run) else None)" for norm' nz'
    by (rule Suc.hyps(1)) (use Suc.hyps(2) i in auto)
  consider (digit) "digit_in 10 ?v" | (sep) "\<not> digit_in 10 ?v" "?v = CHR ''_''"
    | (other) "\<not> digit_in 10 ?v" "?v \<noteq> CHR ''_''" by blast
  then show ?case
  proof cases
    case digit
    have ne: "?v \<noteq> CHR ''_''" using digit underscore_no_digit [of 10] by auto
    have "append_float_digits d (length d) index norm nz True =
        append_float_digits d (length d) (index + 1) (norm @ [?v]) (nz \<or> ?v \<noteq> CHR ''0'') True"
      using i digit by (subst append_float_digits.simps) (simp add: float_digit_code Let_def)
    then show ?thesis
      using digit ne unfolding drop IH by (simp add: Let_def ungrouped_def zero_digits_Cons)
  next
    case sep
    have nd: "\<not> (48 \<le> code ?v \<and> code ?v \<le> 57)" using sep(1) by (simp only: float_digit_code not_False_eq_True)
    have nxt: "?r \<noteq> [] \<and> digit_in 10 (hd ?r) \<longleftrightarrow> index + 1 \<noteq> length d \<and> digit_in 10 (d ! (index + 1))"
    proof (cases "index + 1 < length d")
      case True
      then have "drop (index + 1) d = d ! (index + 1) # drop (index + 2) d"
        by (metis Cons_nth_drop_Suc Suc_eq_plus1 add_2_eq_Suc')
      then show ?thesis using True by auto
    qed (use i in auto)
    have "append_float_digits d (length d) index norm nz True =
        (if index + 1 \<noteq> length d \<and> digit_in 10 (d ! (index + 1))
         then append_float_digits d (length d) (index + 1) norm nz True else None)"
      using i sep(2) nd unfolding float_digit_code by (subst append_float_digits.simps) auto
    then show ?thesis
      using sep nxt unfolding drop IH by (auto simp: Let_def ungrouped_def zero_digits_Cons)
  next
    case other
    then have "append_float_digits d (length d) index norm nz True = Some (index, norm, nz)"
      using i unfolding float_digit_code by (subst append_float_digits.simps) auto
    then show ?thesis using other unfolding drop by (simp add: ungrouped_def zero_digits_def)
  qed
qed

lemma append_float_digits_run:
  assumes "index \<le> length d"
  shows "append_float_digits d (length d) index norm nz False =
     (let run = takeWhile float_char (drop index d) in
      if digit_run 10 run
      then Some (index + length run, norm @ ungrouped run, nz \<or> \<not> zero_digits run) else None)"
proof (cases "index < length d \<and> digit_in 10 (d ! index)")
  case True
  let ?v = "d ! index"
  have drop: "drop index d = ?v # drop (index + 1) d" using True by (simp add: Cons_nth_drop_Suc)
  have ne: "?v \<noteq> CHR ''_''" using True underscore_no_digit [of 10] by auto
  have "append_float_digits d (length d) index norm nz False =
      append_float_digits d (length d) (index + 1) (norm @ [?v]) (nz \<or> ?v \<noteq> CHR ''0'') True"
    using True by (subst append_float_digits.simps) (simp add: float_digit_code Let_def)
  then show ?thesis
    using True ne append_float_digits_tail [of "index + 1" d] unfolding drop
    by (simp add: Let_def ungrouped_def zero_digits_Cons digit_run_tail)
next
  case False
  then have "append_float_digits d (length d) index norm nz False = None"
    unfolding float_digit_code by (subst append_float_digits.simps) auto
  moreover have "\<not> digit_run 10 (takeWhile float_char (drop index d))"
  proof (cases "index < length d")
    case True
    then have "drop index d = d ! index # drop (index + 1) d" by (simp add: Cons_nth_drop_Suc)
    then show ?thesis using False True underscore_no_digit [of 10] by (auto simp: digit_run_tail)
  qed simp
  ultimately show ?thesis by (simp add: Let_def)
qed

text \<open>The code's stages, on the text from an index on.\<close>

lemma drop_run: "drop (index + length (takeWhile Q (drop index d))) d = dropWhile Q (drop index d)"
  by (metis add.commute drop_drop dropWhile_eq_drop)

lemma index_run: "index \<le> length d \<Longrightarrow> index + length (takeWhile Q (drop index d)) \<le> length d"
  using length_takeWhile_le [of Q "drop index d"] by simp

lemma at_head: "index < length d \<and> Q (d ! index) \<longleftrightarrow> drop index d \<noteq> [] \<and> Q (hd (drop index d))"
  by (auto simp: hd_drop_conv_nth)

lemma float_fraction_stage:
  assumes "index \<le> length d" "split_fraction (drop index d) = (f, r)"
  shows "float_fraction_part d (length d) index norm nz =
    (if pred_option (digit_run 10) f
     then Some (length d - length r, norm @ (case f of None \<Rightarrow> [] | Some run \<Rightarrow> CHR ''.'' # ungrouped run),
       nz \<or> \<not> pred_option zero_digits f) else None)" "\<exists>j \<le> length d. r = drop j d"
proof -
  let ?t = "drop (index + 1) d"
  have c: "(index < length d \<and> d ! index = CHR ''.'') = (drop index d \<noteq> [] \<and> hd (drop index d) = CHR ''.'')"
    by (rule at_head)
  have tl: "tl (drop index d) = ?t" by (simp add: drop_Suc tl_drop)
  show "float_fraction_part d (length d) index norm nz =
    (if pred_option (digit_run 10) f
     then Some (length d - length r, norm @ (case f of None \<Rightarrow> [] | Some run \<Rightarrow> CHR ''.'' # ungrouped run),
       nz \<or> \<not> pred_option zero_digits f) else None)"
  proof (cases "drop index d \<noteq> [] \<and> hd (drop index d) = CHR ''.''")
    case True
    then have fr: "f = Some (takeWhile float_char ?t)" "r = dropWhile float_char ?t" and i: "index + 1 \<le> length d"
      using assms c by (auto simp: split_fraction_def tl)
    have "length d - length r = index + 1 + length (takeWhile float_char ?t)"
      unfolding fr(2) drop_run [symmetric] using index_run [OF i, of float_char] by simp
    then show ?thesis
      using append_float_digits_run [OF i, of "norm @ ''.''" nz] True
      unfolding float_fraction_part_def c by (simp add: fr(1) Let_def)
  next
    case False
    then show ?thesis
      using assms unfolding float_fraction_part_def c by (auto simp: split_fraction_def)
  qed
  show "\<exists>j \<le> length d. r = drop j d"
  proof (cases "drop index d \<noteq> [] \<and> hd (drop index d) = CHR ''.''")
    case True
    then have "r = dropWhile float_char ?t" "index + 1 \<le> length d"
      using assms c by (auto simp: split_fraction_def tl)
    then show ?thesis using drop_run [of "index + 1" float_char d] index_run [of "index + 1" d float_char] by metis
  next
    case False
    then show ?thesis using assms by (auto simp: split_fraction_def)
  qed
qed

lemma sign_stage:
  assumes "index \<le> length d" "split_sign (drop index d) = (sg, r)"
  shows "(index < length d \<and> (d ! index = CHR ''+'' \<or> d ! index = CHR ''-'')) = (sg \<noteq> [])"
    "sg \<noteq> [] \<Longrightarrow> [d ! index] = sg" "r = drop (index + length sg) d" "index + length sg \<le> length d"
proof -
  let ?c = "drop index d \<noteq> [] \<and> (hd (drop index d) = CHR ''+'' \<or> hd (drop index d) = CHR ''-'')"
  have c: "(index < length d \<and> (d ! index = CHR ''+'' \<or> d ! index = CHR ''-'')) = ?c"
    by (rule at_head)
  have sg: "sg = (if ?c then [hd (drop index d)] else [])" "r = (if ?c then tl (drop index d) else drop index d)"
    using assms(2) by (auto simp: split_sign_def split: if_splits)
  show "(index < length d \<and> (d ! index = CHR ''+'' \<or> d ! index = CHR ''-'')) = (sg \<noteq> [])"
    unfolding c sg(1) by simp
  show "sg \<noteq> [] \<Longrightarrow> [d ! index] = sg" using sg(1) by (auto simp: hd_drop_conv_nth split: if_splits)
  show "r = drop (index + length sg) d" unfolding sg by (simp add: drop_Suc tl_drop)
  show "index + length sg \<le> length d" using assms(1) unfolding sg by (auto simp: Suc_le_eq)
qed

lemma float_exponent_stage:
  assumes "index \<le> length d" "split_exponent (drop index d) = (e, r)"
  shows "float_exponent_part d (length d) index norm =
    (if pred_option (\<lambda>(letter, sign, run). digit_run 10 run) e
     then Some (length d - length r,
       norm @ (case e of None \<Rightarrow> [] | Some (letter, sign, run) \<Rightarrow> letter # sign @ ungrouped run)) else None)"
    "pred_option (\<lambda>(letter, sign, run). (letter = CHR ''e'' \<or> letter = CHR ''E'') \<and> sign_text sign) e"
proof -
  let ?t = "drop (index + 1) d"
  have c: "(index < length d \<and> (d ! index = CHR ''e'' \<or> d ! index = CHR ''E'')) =
      (drop index d \<noteq> [] \<and> (hd (drop index d) = CHR ''e'' \<or> hd (drop index d) = CHR ''E''))" (is "_ = ?c")
    by (rule at_head)
  have tl: "tl (drop index d) = ?t" by (simp add: drop_Suc tl_drop)
  obtain sg r1 where sg: "split_sign ?t = (sg, r1)" by fastforce
  have er: "(e, r) = (if ?c then (Some (hd (drop index d), sg, takeWhile float_char r1), dropWhile float_char r1)
      else (None, drop index d))"
    using assms(2) [unfolded split_exponent_def tl sg prod.case] by (rule sym)
  show "pred_option (\<lambda>(letter, sign, run). (letter = CHR ''e'' \<or> letter = CHR ''E'') \<and> sign_text sign) e"
    using er split_sign_append(2) [of ?t] sg by (auto split: if_splits)
  show "float_exponent_part d (length d) index norm =
    (if pred_option (\<lambda>(letter, sign, run). digit_run 10 run) e
     then Some (length d - length r,
       norm @ (case e of None \<Rightarrow> [] | Some (letter, sign, run) \<Rightarrow> letter # sign @ ungrouped run)) else None)"
  proof (cases ?c)
    case True
    then have i: "index + 1 \<le> length d" and h: "hd (drop index d) = d ! index" using c by (auto simp: hd_drop_conv_nth)
    note st = sign_stage [OF i sg]
    let ?j = "index + 1 + length sg"
    have len: "length d - length r = ?j + length (takeWhile float_char r1)"
      using er True index_run [OF st(4), of float_char] unfolding st(3) drop_run [symmetric] by (simp add: drop_run [symmetric])
    have stage: "float_exponent_part d (length d) index norm =
        map_option (\<lambda>(i, n, z). (i, n)) (append_float_digits d (length d) ?j (norm @ d ! index # sg) False False)"
      using st(1,2) True h unfolding float_exponent_part_def c
      by (cases "sg = []") (auto simp: Let_def simp flip: Suc_eq_plus1)
    show ?thesis
      unfolding stage append_float_digits_run [OF st(4)] st(3) [symmetric] len
      using er True h by (simp add: Let_def)
  next
    case False
    then have "e = None" "r = drop index d" using er by (simp_all only: if_False prod.inject)
    moreover have "float_exponent_part d (length d) index norm = Some (index, norm)"
      unfolding float_exponent_part_def c if_not_P [OF False] by (rule refl)
    ultimately show ?thesis using assms(1) by simp
  qed
qed

lemma field_all_ones:
  fixes x :: u64
  assumes "k + m \<le> 64"
  shows "x AND push_bit k (mask m) = push_bit k (mask m) \<longleftrightarrow> unat x div 2 ^ k mod 2 ^ m = 2 ^ m - 1"
proof -
  have small: "n * 2 ^ k < 2 ^ 64" if "n < 2 ^ m" for n :: nat
  proof -
    have "n * 2 ^ k < 2 ^ m * 2 ^ k" using that by simp
    also have "(2 :: nat) ^ m * 2 ^ k = 2 ^ (k + m)" by (simp add: power_add)
    also have "(2 :: nat) ^ (k + m) \<le> 2 ^ 64" using assms by (intro power_increasing) simp_all
    finally show ?thesis .
  qed
  have "(mask m :: u64) = of_nat (2 ^ m - 1)" by (simp add: mask_eq_exp_minus_1 of_nat_diff)
  moreover have "(2 :: nat) ^ m - 1 < 2 ^ LENGTH(64)"
    using power_increasing [of m 64 "2 :: nat"] assms by simp
  ultimately have m: "unat (mask m :: u64) = 2 ^ m - 1" by (simp only: unat_of_nat mod_less)
  have "x AND push_bit k (mask m) = push_bit k (take_bit m (drop_bit k x))"
    by (rule bit_eqI) (auto simp: bit_simps)
  moreover have "unat (push_bit k (take_bit m (drop_bit k x))) = (unat x div 2 ^ k mod 2 ^ m) * 2 ^ k"
    using small [of "unat x div 2 ^ k mod 2 ^ m"]
    by (simp only: unat_push_bit take_bit_eq_mask unat_and_mask unat_drop_bit) simp
  moreover have "unat (push_bit k (mask m) :: u64) = (2 ^ m - 1) * 2 ^ k"
    using small [of "2 ^ m - 1"] by (simp only: unat_push_bit m) simp
  ultimately show ?thesis by (simp add: word_unat_eq_iff)
qed

lemma is_finite_nonzero_pattern:
  assumes "w = 32 \<or> w = 64"
  shows "is_finite_nonzero w bits = finite_nonzero_pattern w (unat bits)"
proof -
  have masks: "(0x7F800000 :: u64) = push_bit 23 (mask 8)" "(0x7FFFFFFF :: u64) = mask 31"
    "(0x7FF0000000000000 :: u64) = push_bit 52 (mask 11)" "(0x7FFFFFFFFFFFFFFF :: u64) = mask 63"
    by (simp_all add: mask_eq_exp_minus_1 push_bit_eq_mult)
  have low: "bits AND mask n = 0 \<longleftrightarrow> unat bits mod 2 ^ n = 0" for n
    by (simp only: word_unat_eq_iff unat_and_mask unat_0)
  show ?thesis
    using assms field_all_ones [of 23 8 bits] field_all_ones [of 52 11 bits]
    unfolding is_finite_nonzero_def finite_nonzero_pattern_def masks low by auto
qed

lemma parse_float_split:
  assumes data: "st_data text = Some d" "st_byte_size text = length d" and w: "w = 32 \<or> w = 64"
    and parts: "split_float d = (p, r)"
  shows "parse_float fc w text = (if float_text_ok p \<and> r = [] then float_meaning fc w p else Inr ParseInvalid)"
proof -
  obtain sg r0 where sg: "split_sign d = (sg, r0)" by fastforce
  obtain f r2 where f: "split_fraction (dropWhile float_char r0) = (f, r2)" by fastforce
  obtain e r3 where e: "split_exponent r2 = (e, r3)" by fastforce
  let ?whole = "takeWhile float_char r0"
  have p: "p = \<lparr>ft_sign = sg, ft_whole = ?whole, ft_fraction = f, ft_exponent = e\<rparr>" "r = r3"
    using parts by (simp_all add: split_float_def sg f e)
  then have part: "ft_sign p = sg" "ft_whole p = ?whole" "ft_fraction p = f" "r = r3" by simp_all
  note st = sign_stage [of 0 d, simplified, OF sg]
  let ?n = "if sg = ''-'' then ''-'' else []"
  have head: "(0 < length d \<and> (d ! 0 = CHR ''+'' \<or> d ! 0 = CHR ''-'')) = (sg \<noteq> [])"
    "(sg \<noteq> [] \<and> d ! 0 = CHR ''-'') = (sg = ''-'')" "(if sg \<noteq> [] then 1 else 0) = length sg"
    using st(1,2) split_sign_append(2) [of d] sg by (auto simp: sign_text_def)
  have i0: "length sg \<le> length d" and r0: "r0 = drop (length sg) d" using st(3,4) by simp_all
  have s1: "append_float_digits d (length d) (length sg) ?n False False =
      (if digit_run 10 ?whole then Some (length sg + length ?whole, ?n @ ungrouped ?whole, \<not> zero_digits ?whole) else None)"
    using append_float_digits_run [OF i0, of ?n False] by (simp add: r0 Let_def)
  have i1: "length sg + length ?whole \<le> length d" unfolding r0 by (rule index_run [OF i0])
  have d1: "dropWhile float_char r0 = drop (length sg + length ?whole) d" unfolding r0 by (rule drop_run [symmetric])
  note frac = float_fraction_stage [OF i1 f [unfolded d1]]
  obtain j where j: "j \<le> length d" "r2 = drop j d" using frac(2) by blast
  then have j2: "length d - length r2 = j" by simp
  note expo = float_exponent_stage [OF j(1) e [unfolded j(2)]]
  have r3: "length d - length r3 = length d \<longleftrightarrow> r3 = []"
    using split_float_spelling [of d] parts p(2) by (cases r3) (auto dest: arg_cong [of _ _ length])
  have ok: "float_text_ok p \<longleftrightarrow> digit_run 10 ?whole \<and> pred_option (digit_run 10) f \<and>
      pred_option (\<lambda>(letter, sign, run). digit_run 10 run) e"
    using expo(2) split_sign_append(2) [of d] sg
    by (cases e) (auto simp: float_text_ok_def p(1))
  have normal: "float_normalized p = ?n @ ungrouped ?whole @
      (case f of None \<Rightarrow> [] | Some run \<Rightarrow> CHR ''.'' # ungrouped run) @
      (case e of None \<Rightarrow> [] | Some (letter, s, run) \<Rightarrow> letter # s @ ungrouped run)"
    by (simp add: float_normalized_def write_float_def p(1))
  have bits: "(if w = 32 then 0x80000000 else 0x8000000000000000 :: u64) = 2 ^ (w - 1)" using w by auto
  have code: "parse_float fc w text =
    (case append_float_digits d (length d) (length sg) ?n False False of
        None \<Rightarrow> Inr ParseInvalid
      | Some (i1, n1, z1) \<Rightarrow> (case float_fraction_part d (length d) i1 n1 z1 of
          None \<Rightarrow> Inr ParseInvalid
        | Some (i2, n2, nonzero) \<Rightarrow> (case float_exponent_part d (length d) i2 n2 of
            None \<Rightarrow> Inr ParseInvalid
          | Some (i3, normalized) \<Rightarrow>
              if i3 \<noteq> length d then Inr ParseInvalid
              else if \<not> nonzero then Inr (ParseValue (if sg = ''-'' then 2 ^ (w - 1) else 0))
              else (case fc normalized of
                None \<Rightarrow> fail ''floating-point parser rejected validated input''
              | Some FloatOutOfRange \<Rightarrow> Inr ParseOutOfRange
              | Some (ParsedFloat bits) \<Rightarrow>
                  if is_finite_nonzero w bits then Inr (ParseValue bits) else Inr ParseOutOfRange))))"
    unfolding parse_float_def Let_def data option.sel option.case head bits ..
  show ?thesis
  proof (cases "float_text_ok p")
    case False
    then consider "\<not> digit_run 10 ?whole"
      | "digit_run 10 ?whole" "\<not> pred_option (digit_run 10) f"
      | "digit_run 10 ?whole" "pred_option (digit_run 10) f"
        "\<not> pred_option (\<lambda>(letter, sign, run). digit_run 10 run) e"
      using ok by blast
    then have "parse_float fc w text = Inr ParseInvalid"
    proof cases
      case 1
      show ?thesis unfolding code s1 if_not_P [OF 1] by simp
    next
      case 2
      show ?thesis unfolding code s1 if_P [OF 2(1)] option.case prod.case frac(1) if_not_P [OF 2(2)] by simp
    next
      case 3
      show ?thesis
        unfolding code s1 if_P [OF 3(1)] option.case prod.case frac(1) if_P [OF 3(2)] j2 expo(1) if_not_P [OF 3(3)]
        by simp
    qed
    then show ?thesis using False by simp
  next
    case True
    then have o: "digit_run 10 ?whole" "pred_option (digit_run 10) f"
      "pred_option (\<lambda>(letter, sign, run). digit_run 10 run) e" using ok by auto
    have "parse_float fc w text =
      (if r3 \<noteq> [] then Inr ParseInvalid
       else if zero_digits ?whole \<and> pred_option zero_digits f
       then Inr (ParseValue (if sg = ''-'' then 2 ^ (w - 1) else 0))
       else (case fc (float_normalized p) of
                None \<Rightarrow> fail ''floating-point parser rejected validated input''
              | Some FloatOutOfRange \<Rightarrow> Inr ParseOutOfRange
              | Some (ParsedFloat bits) \<Rightarrow>
                  if is_finite_nonzero w bits then Inr (ParseValue bits) else Inr ParseOutOfRange))"
      unfolding code s1 if_P [OF o(1)] option.case prod.case frac(1) if_P [OF o(2)] j2 expo(1) if_P [OF o(3)] r3
        normal append_assoc de_Morgan_disj not_not ..
    also have "\<dots> = (if r3 \<noteq> [] then Inr ParseInvalid else float_meaning fc w p)"
      unfolding float_meaning_def part(1-3) is_finite_nonzero_pattern [OF w] if_distrib [of Inr, symmetric] ..
    finally show ?thesis using True part(4) by simp
  qed
qed

lemma float_text_parts:
  "(\<exists>p. float_text_ok p \<and> d = float_spelling p) \<longleftrightarrow> float_text_ok (fst (split_float d)) \<and> snd (split_float d) = []"
proof
  assume "\<exists>p. float_text_ok p \<and> d = float_spelling p"
  then show "float_text_ok (fst (split_float d)) \<and> snd (split_float d) = []"
    by (auto simp: split_float_unique)
next
  assume "float_text_ok (fst (split_float d)) \<and> snd (split_float d) = []"
  then show "\<exists>p. float_text_ok p \<and> d = float_spelling p"
    using split_float_spelling [of d] by (intro exI [of _ "fst (split_float d)"]) simp
qed

lemma parse_float_meaning:
  assumes "st_data text = Some d" "st_byte_size text = length d" "w = 32 \<or> w = 64"
  shows "float_text_ok p \<Longrightarrow> d = float_spelling p \<Longrightarrow> parse_float fc w text = float_meaning fc w p"
    "\<nexists>p. float_text_ok p \<and> d = float_spelling p \<Longrightarrow> parse_float fc w text = Inr ParseInvalid"
proof -
  show "parse_float fc w text = float_meaning fc w p" if "float_text_ok p" "d = float_spelling p"
    using parse_float_split [OF assms, of p "[]" fc] split_float_unique [OF that(1)] that by simp
  show "parse_float fc w text = Inr ParseInvalid" if "\<nexists>p. float_text_ok p \<and> d = float_spelling p"
    using parse_float_split [OF assms, of "fst (split_float d)" "snd (split_float d)" fc] that
    unfolding float_text_parts by auto
qed

text \<open>The integer types by their code in \<^verbatim>\<open>runtime.h\<close>: the width, and whether the type is signed.\<close>

definition integer_kinds :: "(nat \<times> nat \<times> bool) list" where
  "integer_kinds =
     [(2, 8, False), (3, 8, True), (4, 16, True), (5, 32, True), (6, 64, True),
      (7, 8, False), (8, 16, False), (9, 32, False), (10, 64, False)]"

lemma integer_kinds_code:
  assumes "(k, w, is_signed) \<in> set integer_kinds"
  shows "k \<le> 12" "integer_parse_type (parse_kinds ! k) = Some \<lparr>ip_width = w, ip_is_signed = is_signed\<rparr>"
  using assms by (auto simp: integer_kinds_def parse_kinds_def integer_parse_type_def)

text \<open>
  C34: Parsing the contents \<open>d\<close> of a string, which holds the scalars \<open>vs\<close>, as a primitive type, given by its code.
  As a \<open>bool\<close> (0) only the two literals are accepted, and as a \<open>char\<close> (1) exactly the texts of one scalar. As an
  integer type of its width and signedness the result is what the text means: invalid unless it is an optional
  sign (a minus only for signed types), an optional \<open>0b\<close>, \<open>0o\<close> or \<open>0x\<close> prefix and digits of that radix, in
  either case, grouped by single underscores; out of range exactly when the number written does not fit the
  type; and otherwise the number's two's complement pattern. As \<open>float32\<close> (11) or \<open>float64\<close> (12) a text
  is invalid unless it is an optional sign, grouped digits, an optional fraction and an optional signed
  exponent; if all its digits are zero the result is the zero of its sign; and otherwise it is what
  \<^verbatim>\<open>std::from_chars\<close> gives, at that width, for the text without underscores and plus sign, out of range
  when that is reported or the value is zero, infinite or no number. Any other code is refused.
\<close>

theorem parse_primitive_correct:
  assumes "represents t vs" "st_data t = Some d" "result = cloth_rt_parse_primitive fc k (Some t)"
  shows "(k = 0 \<longrightarrow> result = Inr (if d = ''true'' then ParseValue 1
            else if d = ''false'' then ParseValue 0 else ParseInvalid)) \<and>
    (k = 1 \<longrightarrow> result = Inr (case vs of [v] \<Rightarrow> ParseValue (ucast (of_nat v :: u32)) | _ \<Rightarrow> ParseInvalid)) \<and>
    (\<forall>w is_signed. (k, w, is_signed) \<in> set integer_kinds \<longrightarrow> result = Inr (integer_meaning w is_signed d)) \<and>
    (\<forall>w. (k, w) \<in> {(11, 32), (12, 64)} \<longrightarrow>
       (\<forall>p. float_text_ok p \<and> d = float_spelling p \<longrightarrow> result = float_meaning (fc w) w p) \<and>
       ((\<nexists>p. float_text_ok p \<and> d = float_spelling p) \<longrightarrow> result = Inr ParseInvalid)) \<and>
    (12 < k \<longrightarrow> result = fail ''primitive parse kind is invalid'')"
proof -
  have d: "encodes vs d" "st_byte_size t = length d" "st_type t = StringType"
    using assms(1,2) by (auto simp: represents_def)
  have "has_valid_string_layout t"
    using valid_layout_iff [of t] assms(1,2) d by (auto simp: represents_def)
  then have req: "require_parse_text (Some t) = Inr t"
    using d(3) by (auto simp: require_parse_text_def require_string_def has_valid_string_layout_def not_less
        split: option.splits)
  have eq: "result =
     (let kind = parse_kinds ! k in
      if kind = pkBool then
        (if length d = 4 \<and> take 4 d = ''true'' then Inr (ParseValue 1)
         else if length d = 5 \<and> take 5 d = ''false'' then Inr (ParseValue 0) else Inr ParseInvalid)
      else if kind = pkChar then
        (case rt_decode_utf8_scalar d (length d) 0 of
           None \<Rightarrow> Inr ParseInvalid
         | Some (scalar, index) \<Rightarrow> if index \<noteq> length d then Inr ParseInvalid else Inr (ParseValue (ucast scalar)))
      else (case integer_parse_type kind of
          Some type \<Rightarrow> Inr (parse_integer t type)
        | None \<Rightarrow> if kind = pkFloat32 then parse_float (fc 32) 32 t else parse_float (fc 64) 64 t))" if "k \<le> 12"
    using assms d req that by (simp add: cloth_rt_parse_primitive_def Let_def)
  have bools: "length d = 4 \<and> take 4 d = ''true'' \<longleftrightarrow> d = ''true''" "length d = 5 \<and> take 5 d = ''false'' \<longleftrightarrow> d = ''false''"
    by auto
  have "result = Inr (integer_meaning w is_signed d)" if "(k, w, is_signed) \<in> set integer_kinds" for w is_signed
  proof -
    note type = integer_kinds_code [OF that]
    then have "parse_kinds ! k \<noteq> pkBool" "parse_kinds ! k \<noteq> pkChar" by (auto simp: integer_parse_type_def)
    then show ?thesis
      using type parse_integer_meaning [OF assms(2) d(2) type(2)] unfolding eq [OF type(1)] by (simp add: Let_def)
  qed
  moreover have "result = Inr (if d = ''true'' then ParseValue 1
         else if d = ''false'' then ParseValue 0 else ParseInvalid)" if "k = 0"
    using eq that unfolding Let_def bools by (simp add: parse_kinds_def)
  moreover have "result = Inr (case vs of [v] \<Rightarrow> ParseValue (ucast (of_nat v :: u32)) | _ \<Rightarrow> ParseInvalid)" if "k = 1"
  proof -
    have "result =
      Inr (case (case rt_decode_utf8_scalar d (length d) 0 of
          None \<Rightarrow> None | Some (v, i) \<Rightarrow> if i \<noteq> length d then None else Some v) of
        None \<Rightarrow> ParseInvalid | Some v \<Rightarrow> ParseValue (ucast v))"
      using eq that by (cases "rt_decode_utf8_scalar d (length d) 0") (auto simp: parse_kinds_def)
    then show ?thesis unfolding decode_whole_text [OF d(1)] by (cases vs; cases "tl vs") auto
  qed
  moreover have "(\<forall>p. float_text_ok p \<and> d = float_spelling p \<longrightarrow> result = float_meaning (fc w) w p) \<and>
       ((\<nexists>p. float_text_ok p \<and> d = float_spelling p) \<longrightarrow> result = Inr ParseInvalid)"
    if "(k, w) \<in> {(11, 32), (12, 64)}" for w
  proof -
    have w: "w = 32 \<or> w = 64" and "result = parse_float (fc w) w t"
      using eq that by (auto simp: parse_kinds_def integer_parse_type_def Let_def)
    then show ?thesis using parse_float_meaning [OF assms(2) d(2) w, where fc = "fc w"] by metis
  qed
  moreover have "result = fail ''primitive parse kind is invalid''" if "12 < k"
    using that assms(3) by (simp add: cloth_rt_parse_primitive_def)
  ultimately show ?thesis by blast
qed

definition sample_text :: "string \<Rightarrow> ClothString" where
  "sample_text s = \<lparr>st_type = StringType, st_data = Some s, st_byte_size = length s,
     st_scalar_count = length s, st_owns_data = False\<rparr>"

theorem parse_primitive_correct_witness:
  "cloth_rt_parse_primitive (\<lambda>_ _. None) 3 (Some (sample_text ''-0xa_0'')) = Inr ParseOutOfRange \<and>
   cloth_rt_parse_primitive (\<lambda>_ _. None) 4 (Some (sample_text ''-0xA_0'')) = Inr (ParseValue 0xFF60) \<and>
   cloth_rt_parse_primitive (\<lambda>w s. if w = 32 \<and> s = ''-10.5e+2'' then Some (ParsedFloat 0xC4834000) else None) 11
     (Some (sample_text ''-1_0.5e+2'')) = Inr (ParseValue 0xC4834000)"
proof (intro conjI)
  have hex: "map hex_digit ''aA0'' = [10, 10, 0]" by (simp add: hex_digit_code)
  have r: "represents (sample_text ''-0xa_0'') [0x2D, 0x30, 0x78, 0x61, 0x5F, 0x30]"
    "represents (sample_text ''-0xA_0'') [0x2D, 0x30, 0x78, 0x41, 0x5F, 0x30]"
    "represents (sample_text ''-1_0.5e+2'') [0x2D, 0x31, 0x5F, 0x30, 0x2E, 0x35, 0x65, 0x2B, 0x32]"
    by (simp_all add: sample_text_def represents_def kMaximumStringSize_def encodes_def utf8_bytes_def scalar_ok_def)
  have t: "st_data (sample_text s) = Some s" for s by (simp add: sample_text_def)
  note apply1 = parse_primitive_correct [OF r(1) t refl, where fc = "\<lambda>_ _. None" and k = 3]
  note apply2 = parse_primitive_correct [OF r(2) t refl, where fc = "\<lambda>_ _. None" and k = 4]
  have "integer_meaning 8 True ''-0xa_0'' = ParseOutOfRange" "integer_meaning 16 True ''-0xA_0'' = ParseValue 0xFF60"
    using hex by (simp_all add: integer_meaning_def integer_text_def Let_def text_digits_value_def digit_in_def)
  then show "cloth_rt_parse_primitive (\<lambda>_ _. None) 3 (Some (sample_text ''-0xa_0'')) = Inr ParseOutOfRange"
    "cloth_rt_parse_primitive (\<lambda>_ _. None) 4 (Some (sample_text ''-0xA_0'')) = Inr (ParseValue 0xFF60)"
    using apply1 apply2 by (simp_all add: integer_kinds_def ex_bool_eq)
  define p where "p = \<lparr>ft_sign = ''-'', ft_whole = ''1_0'', ft_fraction = Some ''5'',
    ft_exponent = Some (CHR ''e'', ''+'', ''2'')\<rparr>"
  let ?fc = "\<lambda>w s. if w = 32 \<and> s = ''-10.5e+2'' then Some (ParsedFloat 0xC4834000) else None"
  have ok: "float_text_ok p" "float_spelling p = ''-1_0.5e+2''" "float_normalized p = ''-10.5e+2''"
    "\<not> zero_digits (ft_whole p)"
    by (simp_all add: p_def float_text_ok_def sign_text_def digit_in_def hex_digit_code float_spelling_def
        float_normalized_def write_float_def ungrouped_def zero_digits_def)
  have k: "(11 :: nat, 32 :: nat) \<in> {(11, 32), (12, 64)}" by simp
  have "float_meaning (?fc 32) 32 p = Inr (ParseValue 0xC4834000)"
    using ok(3,4) by (simp add: float_meaning_def finite_nonzero_pattern_def)
  then show "cloth_rt_parse_primitive ?fc 11 (Some (sample_text ''-1_0.5e+2'')) = Inr (ParseValue 0xC4834000)"
    using parse_primitive_correct [OF r(3) t refl, where fc = ?fc and k = 11, THEN conjunct2, THEN conjunct2,
        THEN conjunct2, THEN conjunct1, THEN spec, THEN mp, OF k, THEN conjunct1, THEN spec, THEN mp,
        OF conjI [OF ok(1) ok(2) [symmetric]]] by (simp only:)
qed

section \<open>Reading back what was written\<close>

lemma bit_read_bytes:
  "list_all (\<lambda>i. i < 8) indices \<Longrightarrow>
   bit (read_bytes bytes offset w order acc indices) n \<longleftrightarrow>
     bit acc n \<or> (n div 8 \<in> set indices \<and> bit (bytes ! (offset + byte_position order w (n div 8))) (n mod 8))"
proof (induction indices arbitrary: acc)
  case Nil
  then show ?case by simp
next
  case (Cons i indices)
  have "bit (push_bit (i * 8) (ucast (bytes ! (offset + byte_position order w i)) :: u64)) n \<longleftrightarrow>
      n div 8 = i \<and> bit (bytes ! (offset + byte_position order w i)) (n mod 8)"
  proof -
    have i: "i < 8" using Cons.prems by simp
    have "bit (push_bit (i * 8) (ucast (bytes ! (offset + byte_position order w i)) :: u64)) n \<longleftrightarrow>
        n < 64 \<and> i * 8 \<le> n \<and> bit (bytes ! (offset + byte_position order w i)) (n - i * 8)"
      by (auto simp: bit_simps dest: bit_imp_le_length)
    also have "\<dots> \<longleftrightarrow> n div 8 = i \<and> bit (bytes ! (offset + byte_position order w i)) (n mod 8)"
    proof (cases "i * 8 \<le> n \<and> n - i * 8 < 8")
      case True
      then have "n div 8 = i" "n mod 8 = n - i * 8" by (auto simp: div_nat_eqI mod_nat_eqI)
      moreover have "n < 64" using True i by linarith
      ultimately show ?thesis using True by simp
    next
      case False
      have "n div 8 * 8 \<le> n" "n - n div 8 * 8 < 8" by (simp_all add: minus_div_mult_eq_mod)
      with False have "n div 8 \<noteq> i" by blast
      moreover have "\<not> bit (bytes ! (offset + byte_position order w i)) (n - i * 8)" if "i * 8 \<le> n"
        using False that by (auto dest: bit_imp_le_length)
      ultimately show ?thesis by auto
    qed
    finally show ?thesis .
  qed
  then show ?case using Cons by (auto simp: bit_simps)
qed

lemma write_bytes_other:
  "(\<And>i. i \<in> set indices \<Longrightarrow> p \<noteq> offset + byte_position order w i) \<Longrightarrow>
   write_bytes bytes offset bits w order indices ! p = bytes ! p"
proof (induction indices arbitrary: bytes)
  case (Cons i indices)
  then have "p \<noteq> offset + byte_position order w i" by simp
  with Cons show ?case by (simp add: nth_list_update_neq [OF not_sym])
qed simp

lemma length_write_bytes [simp]: "length (write_bytes bytes offset bits w order indices) = length bytes"
  by (induction indices arbitrary: bytes) auto

lemma byte_position_inj: "i < w \<Longrightarrow> j < w \<Longrightarrow> byte_position order w i = byte_position order w j \<Longrightarrow> i = j"
  by (auto simp: byte_position_def split: if_splits)

lemma byte_position_less: "i < w \<Longrightarrow> byte_position order w i < w"
  by (auto simp: byte_position_def)

lemma write_bytes_at:
  "distinct indices \<Longrightarrow> list_all (\<lambda>i. i < w) indices \<Longrightarrow> offset + w \<le> length bytes \<Longrightarrow> i \<in> set indices \<Longrightarrow>
   write_bytes bytes offset bits w order indices ! (offset + byte_position order w i) = ucast (drop_bit (i * 8) bits)"
proof (induction indices arbitrary: bytes)
  case (Cons j indices)
  show ?case
  proof (cases "i \<in> set indices")
    case True
    then show ?thesis using Cons by simp
  next
    case False
    then have "i = j" using Cons.prems by simp
    then have ij: "i < w" using Cons.prems by simp
    have "offset + byte_position order w i \<noteq> offset + byte_position order w k" if "k \<in> set indices" for k
    proof -
      have "k < w" "k \<noteq> i" using that Cons.prems \<open>i = j\<close> by (auto simp: list_all_iff)
      then show ?thesis using byte_position_inj [OF ij, of k order] by auto
    qed
    then show ?thesis
      using Cons.prems \<open>i = j\<close> byte_position_less [OF ij, of order] by (simp add: write_bytes_other)
  qed
qed simp

lemma read_write_bytes:
  assumes "w \<le> 8" "offset + w \<le> length bytes"
  shows "read_bytes (write_bytes bytes offset bits w order [0..<w]) offset w order 0 [0..<w] = take_bit (8 * w) bits"
proof (rule bit_eqI)
  fix n
  assume "possible_bit TYPE(64 word) n"
  let ?bytes = "write_bytes bytes offset bits w order [0..<w]"
  have "bit (read_bytes ?bytes offset w order 0 [0..<w]) n \<longleftrightarrow>
      n div 8 < w \<and> bit (?bytes ! (offset + byte_position order w (n div 8))) (n mod 8)"
    using assms(1) by (subst bit_read_bytes) (auto simp: list_all_iff)
  also have "\<dots> \<longleftrightarrow> n div 8 < w \<and> bit (ucast (drop_bit (n div 8 * 8) bits) :: u8) (n mod 8)"
    using assms(2) by (auto simp: write_bytes_at list_all_iff)
  also have "\<dots> \<longleftrightarrow> n < 8 * w \<and> bit bits n"
    by (auto simp: bit_simps less_mult_imp_div_less div_less_iff_less_mult mult.commute)
  finally show "bit (read_bytes ?bytes offset w order 0 [0..<w]) n \<longleftrightarrow> bit (take_bit (8 * w) bits) n"
    by (simp add: bit_simps)
qed

lemma read_bytes_cong:
  assumes "\<And>i. i < w \<Longrightarrow> bytes ! (offset + i) = bytes' ! (offset + i)" "list_all (\<lambda>i. i < w) indices"
  shows "read_bytes bytes offset w order acc indices = read_bytes bytes' offset w order acc indices"
  using assms(2) by (induction indices arbitrary: acc) (auto simp: assms(1) byte_position_less)

definition byte_array_ok :: "ByteArray \<Rightarrow> bool" where
  "byte_array_ok a \<longleftrightarrow> ba_type a = ArrayType \<and> ba_element_size a = 1 \<and> ba_reference_count a = 0 \<and>
     ba_length a = length (ba_data a)"

definition byte_range_ok :: "ByteArray \<Rightarrow> int \<Rightarrow> nat \<Rightarrow> nat \<Rightarrow> bool" where
  "byte_range_ok a offset w order \<longleftrightarrow>
     w \<in> {1, 2, 4, 8} \<and> 0 \<le> offset \<and> offset + int w \<le> int (length (ba_data a)) \<and> order \<le> 1"

lemma integer_access:
  assumes "byte_array_ok a"
  shows "byte_range_ok a offset w order \<Longrightarrow> cloth_rt_integer_read (Some a) offset w order =
      Inr (read_bytes (ba_data a) (nat offset) w order 0 [0..<w])"
    and "byte_range_ok a offset w order \<Longrightarrow> cloth_rt_integer_write (Some a) offset bits w order =
      Inr (a\<lparr>ba_data := write_bytes (ba_data a) (nat offset) bits w order [0..<w]\<rparr>)"
    and "\<not> byte_range_ok a offset w order \<Longrightarrow>
      \<exists>e. cloth_rt_integer_read (Some a) offset w order = fail e \<and> cloth_rt_integer_write (Some a) offset bits w order = fail e"
proof -
  have req: "require_byte_array (Some a) = Inr a" using assms by (simp add: require_byte_array_def byte_array_ok_def)
  have off: "integer_byte_offset a offset w = Inr (nat offset) \<and> order \<le> 1 \<longleftrightarrow> byte_range_ok a offset w order"
    using assms by (auto simp: integer_byte_offset_def byte_range_ok_def byte_array_ok_def)
  have only: "\<exists>e. integer_byte_offset a offset w = fail e" if "integer_byte_offset a offset w \<noteq> Inr (nat offset)"
    using that by (auto simp: integer_byte_offset_def split: if_splits)
  show "byte_range_ok a offset w order \<Longrightarrow> cloth_rt_integer_read (Some a) offset w order =
      Inr (read_bytes (ba_data a) (nat offset) w order 0 [0..<w])"
    "byte_range_ok a offset w order \<Longrightarrow> cloth_rt_integer_write (Some a) offset bits w order =
      Inr (a\<lparr>ba_data := write_bytes (ba_data a) (nat offset) bits w order [0..<w]\<rparr>)"
    using req off by (auto simp: cloth_rt_integer_read_def cloth_rt_integer_write_def)
  show "\<exists>e. cloth_rt_integer_read (Some a) offset w order = fail e \<and> cloth_rt_integer_write (Some a) offset bits w order = fail e"
    if "\<not> byte_range_ok a offset w order"
    using that req off only
    by (cases "integer_byte_offset a offset w = Inr (nat offset)")
       (auto simp: cloth_rt_integer_read_def cloth_rt_integer_write_def)
qed

text \<open>
  C35: Integers in a byte array. An access whose width, byte order and range are not all valid is
  refused alike by reading and writing. A valid write puts each byte of the value where the byte
  order says, changes no other byte, and is read back as the value cut to the width; reading any
  range that does not overlap the one written gives what it gave before.
\<close>

theorem integer_bytes_roundtrip:
  assumes "byte_array_ok a"
  shows "if byte_range_ok a offset w order
    then \<exists>a'. cloth_rt_integer_write (Some a) offset bits w order = Inr a' \<and>
      length (ba_data a') = length (ba_data a) \<and>
      (\<forall>i. i < w \<longrightarrow> ba_data a' ! (nat offset + (if order = 0 then i else w - i - 1)) = ucast (drop_bit (i * 8) bits)) \<and>
      (\<forall>p. p < nat offset \<or> nat offset + w \<le> p \<longrightarrow> ba_data a' ! p = ba_data a ! p) \<and>
      cloth_rt_integer_read (Some a') offset w order = Inr (take_bit (8 * w) bits) \<and>
      (\<forall>offset' w' order'. offset' + int w' \<le> offset \<or> offset + int w \<le> offset' \<longrightarrow>
         cloth_rt_integer_read (Some a') offset' w' order' = cloth_rt_integer_read (Some a) offset' w' order')
    else \<exists>e. cloth_rt_integer_write (Some a) offset bits w order = fail e \<and>
      cloth_rt_integer_read (Some a) offset w order = fail e"
proof (cases "byte_range_ok a offset w order")
  case False
  then show ?thesis using integer_access(3) [OF assms False] by auto
next
  case True
  then have range: "nat offset + w \<le> length (ba_data a)" "w \<le> 8" "0 \<le> offset"
    by (auto simp: byte_range_ok_def)
  let ?data = "write_bytes (ba_data a) (nat offset) bits w order [0..<w]"
  let ?a = "a\<lparr>ba_data := ?data\<rparr>"
  have ok: "byte_array_ok ?a" using assms by (simp add: byte_array_ok_def)
  have range': "byte_range_ok ?a = byte_range_ok a" by (simp add: byte_range_ok_def fun_eq_iff)
  have each: "?data ! (nat offset + (if order = 0 then i else w - i - 1)) = ucast (drop_bit (i * 8) bits)" if "i < w" for i
    using write_bytes_at [of "[0..<w]" w "nat offset" "ba_data a" i bits order] that range
    by (simp add: list_all_iff byte_position_def)
  have others: "?data ! p = ba_data a ! p" if "p < nat offset \<or> nat offset + w \<le> p" for p
    by (rule write_bytes_other) (use that byte_position_less [of _ w order] in fastforce)
  have readback: "cloth_rt_integer_read (Some ?a) offset w order = Inr (take_bit (8 * w) bits)"
    using integer_access(1) [OF ok, of offset w order] True range' read_write_bytes [OF range(2,1)] by simp
  have elsewhere: "cloth_rt_integer_read (Some ?a) offset' w' order' = cloth_rt_integer_read (Some a) offset' w' order'"
    if disj: "offset' + int w' \<le> offset \<or> offset + int w \<le> offset'" for offset' w' order'
  proof (cases "byte_range_ok a offset' w' order'")
    case ok': True
    then have "0 \<le> offset'" by (simp add: byte_range_ok_def)
    then have "?data ! (nat offset' + i) = ba_data a ! (nat offset' + i)" if "i < w'" for i
      using that disj range(3) by (intro others) auto
    then have "read_bytes ?data (nat offset') w' order' 0 [0..<w'] = read_bytes (ba_data a) (nat offset') w' order' 0 [0..<w']"
      by (intro read_bytes_cong) (auto simp: list_all_iff)
    then show ?thesis
      using integer_access(1) [OF ok, of offset' w' order'] integer_access(1) [OF assms ok'] ok' range' by simp
  next
    case False
    then have "cloth_rt_integer_read (Some ?a) offset' w' order' = cloth_rt_integer_read (Some a) offset' w' order'"
      by (simp add: cloth_rt_integer_read_def require_byte_array_def integer_byte_offset_def)
         (use False assms in \<open>auto simp: byte_range_ok_def byte_array_ok_def\<close>)
    then show ?thesis .
  qed
  show ?thesis
    unfolding if_P [OF True]
    using integer_access(2) [OF assms True, of bits] each others readback elsewhere
    by (intro exI [of _ ?a]) auto
qed

theorem integer_bytes_roundtrip_witness:
  "\<exists>a'. cloth_rt_integer_write (Some \<lparr>ba_type = ArrayType, ba_data = [9, 9, 9, 9], ba_length = 4,
       ba_element_size = 1, ba_reference_count = 0\<rparr>) 1 0x12345 2 1 = Inr a' \<and>
     ba_data a' ! 1 = 0x23 \<and> ba_data a' ! 3 = 9 \<and> cloth_rt_integer_read (Some a') 1 2 1 = Inr 0x2345"
proof -
  let ?a = "\<lparr>ba_type = ArrayType, ba_data = [9, 9, 9, 9], ba_length = 4, ba_element_size = 1, ba_reference_count = 0\<rparr>"
  have "byte_array_ok ?a" by (simp add: byte_array_ok_def)
  moreover have "byte_range_ok ?a 1 2 1" by (simp add: byte_range_ok_def)
  ultimately obtain a' where a': "cloth_rt_integer_write (Some ?a) 1 0x12345 2 1 = Inr a'"
      "\<forall>i. i < 2 \<longrightarrow> ba_data a' ! (nat 1 + (if (1::nat) = 0 then i else 2 - i - 1)) = ucast (drop_bit (i * 8) (0x12345 :: u64))"
      "\<forall>p. p < nat 1 \<or> nat 1 + 2 \<le> p \<longrightarrow> ba_data a' ! p = ba_data ?a ! p"
      "cloth_rt_integer_read (Some a') 1 2 1 = Inr (take_bit (8 * 2) 0x12345)"
    using integer_bytes_roundtrip [of ?a 1 2 1 "0x12345"] by auto
  have "ba_data a' ! 1 = 0x23" using a'(2) [rule_format, of 1] by simp
  moreover have "ba_data a' ! 3 = 9" using a'(3) [rule_format, of 3] by simp
  ultimately show ?thesis using a'(1,4) by auto
qed

end
