(* ===== verification/Runtime_Heap.thy ===== *)
theory Runtime_Heap
  imports Runtime_Types "HOL-Library.Multiset"
begin

text \<open>
  The managed heap of the runtime library (\<^verbatim>\<open>runtime/runtime.cc\<close>): the registry of allocations with
  its open-addressing index, the frames of roots, the mark and sweep collector, and the allocation
  of objects, strings and arrays.

  An address is a 64-bit word, 0 the null pointer. The list of allocations that the code links
  through \<open>next\<close> is a list, newest first; a pointer to an allocation record is its identity, which
  no two live records share. The worklist linked through \<open>mark_next\<close> is the list of its identities.
  An operation that aborts has a message; a result \<open>None\<close> is a computation without a result (an
  endless loop, or a read of freed memory). What the system's allocator returns is a parameter.
\<close>

section \<open>State\<close>

record ClothAllocation =
  al_object :: u64
  al_size :: u64
  al_identity :: u64
  al_marked :: bool

record ClothAllocationIndexEntry =
  ie_object :: u64
  ie_allocation :: u64

record ClothArrayElementLayout =
  ae_size :: nat
  ae_alignment :: nat
  ae_reference_offsets :: "nat list option"
  ae_reference_count :: nat

record ClothGcRootFrame =
  rf_previous :: u64
  rf_roots :: "u64 list option"
  rf_root_count :: nat

text \<open>
  An object in memory. Which parts besides the header count depends on the kind of its type: the
  words at the offsets of a class, error or box object; the data pointer and contents of a string;
  the data pointer, length, element layout and data words of an array.
\<close>

record HeapObject =
  ob_header :: ClothObjectHeader
  ob_words :: "nat \<Rightarrow> u64"
  ob_data :: u64
  ob_string :: ClothString
  ob_length :: nat
  ob_element_size :: nat
  ob_element :: "ClothArrayElementLayout option"
  ob_cells :: "nat \<Rightarrow> u64"

text \<open>
  The globals of the runtime, with the memory they refer to: objects by address, frames by address,
  and the stack slots that hold the roots. \<open>hp_freed\<close> lists the storage released so far.
\<close>

record Heap =
  hp_objects :: "u64 \<Rightarrow> HeapObject option"
  hp_frames :: "u64 \<Rightarrow> ClothGcRootFrame"
  hp_slots :: "u64 \<Rightarrow> u64"
  hp_freed :: "u64 list"
  hp_current_root_frame :: u64
  hp_allocations :: "ClothAllocation list"
  hp_index :: "ClothAllocationIndexEntry list"
  hp_live_object_count :: u64
  hp_live_byte_count :: u64
  hp_collection_count :: u64
  hp_peak_live_byte_count :: u64
  hp_collection_threshold :: u64
  hp_next_allocation_identity :: u64
  hp_collection_in_progress :: bool

definition kInitialCollectionThreshold :: u64 where
  "kInitialCollectionThreshold = 65536"

definition kInitialAllocationIndexCapacity :: nat where
  "kInitialAllocationIndexCapacity = 64"

abbreviation max_u64 :: u64 where
  "max_u64 \<equiv> 0xFFFFFFFFFFFFFFFF"

text \<open>The system's allocator: an aligned block or null, and whether the registry's requests succeed.\<close>

record Allocator =
  am_memalign :: "Heap \<Rightarrow> nat \<Rightarrow> nat \<Rightarrow> u64"
  am_calloc :: "Heap \<Rightarrow> nat \<Rightarrow> bool"
  am_malloc :: "Heap \<Rightarrow> bool"

type_synonym 'a run = "'a outcome option"

abbreviation abort :: "string \<Rightarrow> 'a run" where
  "abort message \<equiv> Some (Inl message)"

abbreviation done_with :: "'a \<Rightarrow> 'a run" where
  "done_with x \<equiv> Some (Inr x)"

definition run_bind :: "'a run \<Rightarrow> ('a \<Rightarrow> 'b run) \<Rightarrow> 'b run" where
  "run_bind m f = (case m of None \<Rightarrow> None | Some (Inl e) \<Rightarrow> abort e | Some (Inr x) \<Rightarrow> f x)"

lemma run_bind_simps [simp]:
  "run_bind None f = None" "run_bind (abort e) f = abort e" "run_bind (done_with x) f = f x"
  by (simp_all add: run_bind_def)

lemma run_bind_cong [fundef_cong]:
  "m = m' \<Longrightarrow> (\<And>x. m' = done_with x \<Longrightarrow> f x = g x) \<Longrightarrow> run_bind m f = run_bind m' g"
  by (auto simp: run_bind_def split: option.splits sum.splits)

definition initial_heap :: "(u64 \<Rightarrow> ClothGcRootFrame) \<Rightarrow> (u64 \<Rightarrow> u64) \<Rightarrow> Heap" where
  "initial_heap frames slots =
     \<lparr>hp_objects = \<lambda>_. None, hp_frames = frames, hp_slots = slots, hp_freed = [],
      hp_current_root_frame = 0, hp_allocations = [], hp_index = [], hp_live_object_count = 0,
      hp_live_byte_count = 0, hp_collection_count = 0, hp_peak_live_byte_count = 0,
      hp_collection_threshold = kInitialCollectionThreshold, hp_next_allocation_identity = 1,
      hp_collection_in_progress = False\<rparr>"

section \<open>The allocation index\<close>

definition saturating_double :: "u64 \<Rightarrow> u64" where
  "saturating_double v = (if v > max_u64 div 2 then max_u64 else v * 2)"

definition hash_object :: "u64 \<Rightarrow> u64" where
  "hash_object object =
     (let v = object XOR drop_bit 4 object; v = v * 0x9E3779B1 in v XOR drop_bit 16 v)"

text \<open>
  The probing loop from a slot on, until an entry satisfies the test. It is back at its first slot
  after as many steps as there are slots, so that many are tried; \<open>None\<close> is the endless loop.
\<close>

fun probe :: "(ClothAllocationIndexEntry \<Rightarrow> bool) \<Rightarrow> ClothAllocationIndexEntry list \<Rightarrow> nat \<Rightarrow> nat \<Rightarrow> nat option" where
  "probe stop index 0 slot = None"
| "probe stop index (Suc n) slot =
     (if stop (index ! slot) then Some slot
      else probe stop index n ((slot + 1) AND (length index - 1)))"

definition insert_allocation_index ::
  "ClothAllocationIndexEntry list \<Rightarrow> ClothAllocation \<Rightarrow> ClothAllocationIndexEntry list option" where
  "insert_allocation_index index allocation =
     (case probe (\<lambda>e. ie_object e = 0) index (length index)
             (unat (hash_object (al_object allocation)) AND (length index - 1)) of
        None \<Rightarrow> None
      | Some slot \<Rightarrow>
          Some (index[slot := \<lparr>ie_object = al_object allocation, ie_allocation = al_identity allocation\<rparr>]))"

fun insert_allocations ::
  "ClothAllocationIndexEntry list \<Rightarrow> ClothAllocation list \<Rightarrow> ClothAllocationIndexEntry list option" where
  "insert_allocations index [] = Some index"
| "insert_allocations index (a # as) =
     (case insert_allocation_index index a of None \<Rightarrow> None | Some index' \<Rightarrow> insert_allocations index' as)"

definition empty_index :: "nat \<Rightarrow> ClothAllocationIndexEntry list" where
  "empty_index capacity = replicate capacity \<lparr>ie_object = 0, ie_allocation = 0\<rparr>"

text \<open>\<^verbatim>\<open>std::numeric_limits<std::size_t>::max() / sizeof(ClothAllocationIndexEntry)\<close>\<close>

definition maximum_capacity :: nat where
  "maximum_capacity = (2 ^ 64 - 1) div 16"

partial_function (option) grow_capacity :: "nat \<Rightarrow> nat \<Rightarrow> nat run" where
  "grow_capacity required_size capacity =
     (if required_size > capacity div 2 then
        if capacity > maximum_capacity div 2 then abort ''managed allocation index is too large''
        else grow_capacity required_size (capacity * 2)
      else done_with capacity)"

definition reserve_allocation_index :: "Allocator \<Rightarrow> Heap \<Rightarrow> nat \<Rightarrow> Heap run" where
  "reserve_allocation_index A H required_size =
     (if required_size \<le> length (hp_index H) div 2 then done_with H
      else run_bind (grow_capacity required_size (max kInitialAllocationIndexCapacity (length (hp_index H))))
        (\<lambda>capacity.
           if \<not> am_calloc A H capacity then abort ''managed allocation index failed''
           else case insert_allocations (empty_index capacity) (hp_allocations H) of
             None \<Rightarrow> None
           | Some index \<Rightarrow> done_with (H\<lparr>hp_index := index\<rparr>)))"

definition rebuild_allocation_index :: "Heap \<Rightarrow> Heap run" where
  "rebuild_allocation_index H =
     (if hp_index H = [] then done_with H
      else case insert_allocations (empty_index (length (hp_index H))) (hp_allocations H) of
        None \<Rightarrow> None
      | Some index \<Rightarrow> done_with (H\<lparr>hp_index := index\<rparr>))"

definition find_identity :: "ClothAllocation list \<Rightarrow> u64 \<Rightarrow> ClothAllocation option" where
  "find_identity allocs identity = find (\<lambda>a. al_identity a = identity) allocs"

text \<open>The inner option is the pointer returned.\<close>

definition find_allocation :: "Heap \<Rightarrow> u64 \<Rightarrow> ClothAllocation option option" where
  "find_allocation H object =
     (if object = 0 \<or> hp_index H = [] then Some None
      else case probe (\<lambda>e. ie_object e = 0 \<or> ie_object e = object) (hp_index H) (length (hp_index H))
                  (unat (hash_object object) AND (length (hp_index H) - 1)) of
        None \<Rightarrow> None
      | Some slot \<Rightarrow>
          if ie_object (hp_index H ! slot) = 0 then Some None
          else Some (find_identity (hp_allocations H) (ie_allocation (hp_index H ! slot))))"

section \<open>Marking\<close>

definition set_marked :: "u64 \<Rightarrow> ClothAllocation list \<Rightarrow> ClothAllocation list" where
  "set_marked identity = map (\<lambda>a. if al_identity a = identity then a\<lparr>al_marked := True\<rparr> else a)"

definition enqueue_reference :: "u64 \<Rightarrow> Heap \<times> u64 list \<Rightarrow> (Heap \<times> u64 list) option" where
  "enqueue_reference object state =
     (case state of (H, worklist) \<Rightarrow>
        (case find_allocation H object of
           None \<Rightarrow> None
         | Some None \<Rightarrow> Some (H, worklist)
         | Some (Some a) \<Rightarrow>
             if al_marked a then Some (H, worklist)
             else Some (H\<lparr>hp_allocations := set_marked (al_identity a) (hp_allocations H)\<rparr>,
                        al_identity a # worklist)))"

fun enqueue_references :: "u64 list \<Rightarrow> Heap \<times> u64 list \<Rightarrow> (Heap \<times> u64 list) option" where
  "enqueue_references [] state = Some state"
| "enqueue_references (r # rs) state =
     (case enqueue_reference r state of None \<Rightarrow> None | Some state' \<Rightarrow> enqueue_references rs state')"

text \<open>The references the frames from \<open>frame\<close> on hold, in the order of the loop.\<close>

partial_function (option) frame_references ::
  "(u64 \<Rightarrow> ClothGcRootFrame) \<Rightarrow> (u64 \<Rightarrow> u64) \<Rightarrow> u64 \<Rightarrow> u64 list option" where
  "frame_references frames slots frame =
     (if frame = 0 then Some []
      else Option.bind (frame_references frames slots (rf_previous (frames frame)))
        (\<lambda>rest. Some (map slots (cells (rf_roots (frames frame)) (rf_root_count (frames frame))) @ rest)))"

abbreviation root_references :: "Heap \<Rightarrow> u64 list option" where
  "root_references H \<equiv> frame_references (hp_frames H) (hp_slots H) (hp_current_root_frame H)"

text \<open>The references in an object, in the order the marking loop reads them.\<close>

definition object_references :: "Metadata \<Rightarrow> HeapObject \<Rightarrow> u64 list outcome" where
  "object_references M ob =
     (let d = descriptor M (oh_type (ob_header ob)) in
      case td_kind d of
        hkString \<Rightarrow> Inr []
      | hkArray \<Rightarrow>
          (let element = the (ob_element ob) in
           if ae_reference_count element = 0 then Inr []
           else Inr (concat (map (\<lambda>index. map (\<lambda>offset. ob_cells ob (index * ob_element_size ob + offset))
                      (cells (ae_reference_offsets element) (ae_reference_count element)))
                  [0..<ob_length ob])))
      | hkOther _ \<Rightarrow> fail ''managed object has an invalid kind''
      | _ \<Rightarrow> Inr (map (ob_words ob) (cells (td_reference_offsets d) (td_reference_count d))))"

definition unmarked :: "Heap \<Rightarrow> nat" where
  "unmarked H = length (filter (\<lambda>a. \<not> al_marked a) (hp_allocations H))"

lemma find_identity_Some:
  "find_identity allocs i = Some a \<Longrightarrow> a \<in> set allocs \<and> al_identity a = i"
  by (auto simp: find_identity_def find_Some_iff)

lemma set_marked_fewer:
  "a \<in> set allocs \<Longrightarrow> \<not> al_marked a \<Longrightarrow>
   length (filter (\<lambda>a. \<not> al_marked a) (set_marked (al_identity a) allocs)) < length (filter (\<lambda>a. \<not> al_marked a) allocs)"
proof (induction allocs)
  case (Cons b bs)
  have le: "length (filter (\<lambda>a. \<not> al_marked a) (set_marked i xs)) \<le> length (filter (\<lambda>a. \<not> al_marked a) xs)" for i xs
    by (induction xs) (auto simp: set_marked_def)
  show ?case
  proof (cases "a = b")
    case True
    then show ?thesis using Cons.prems(2) le [of "al_identity a" bs] by (simp add: set_marked_def)
  next
    case False
    then show ?thesis using Cons by (auto simp: set_marked_def)
  qed
qed simp

lemma find_allocation_in: "find_allocation H object = Some (Some a) \<Longrightarrow> a \<in> set (hp_allocations H)"
  by (auto simp: find_allocation_def split: if_splits option.splits dest: find_identity_Some)

lemma enqueue_references_measure:
  "enqueue_references rs (H, wl) = Some (H', wl') \<Longrightarrow>
   2 * unmarked H' + length wl' \<le> 2 * unmarked H + length wl"
proof (induction rs arbitrary: H wl)
  case Nil
  then show ?case by simp
next
  case (Cons r rs)
  from Cons.prems obtain H1 wl1 where e: "enqueue_reference r (H, wl) = Some (H1, wl1)"
      and rest: "enqueue_references rs (H1, wl1) = Some (H', wl')"
    by (auto split: option.splits)
  have "2 * unmarked H1 + length wl1 \<le> 2 * unmarked H + length wl"
  proof (cases "find_allocation H r")
    case None
    then show ?thesis using e by (simp add: enqueue_reference_def)
  next
    case (Some x)
    show ?thesis
    proof (cases x)
      case None
      then show ?thesis using e Some by (simp add: enqueue_reference_def)
    next
      case (Some a)
      then have "a \<in> set (hp_allocations H)" using find_allocation_in \<open>find_allocation H r = Some x\<close> by simp
      from set_marked_fewer [OF this] show ?thesis
        using e Some \<open>find_allocation H r = Some x\<close>
        by (auto simp: enqueue_reference_def unmarked_def split: if_splits)
    qed
  qed
  with Cons.IH [OF rest] show ?case by simp
qed

text \<open>The loop over the worklist.\<close>

function (sequential) mark_loop :: "Metadata \<Rightarrow> Heap \<Rightarrow> u64 list \<Rightarrow> Heap run" where
  "mark_loop M H [] = done_with H"
| "mark_loop M H (w # worklist) =
     (case find_identity (hp_allocations H) w of
        None \<Rightarrow> None
      | Some a \<Rightarrow> (case hp_objects H (al_object a) of
          None \<Rightarrow> None
        | Some ob \<Rightarrow>
            if oh_type (ob_header ob) = NullType \<or> oh_runtime_state (ob_header ob) \<noteq> Some w
            then abort ''managed object header is corrupt''
            else (case object_references M ob of
              Inl e \<Rightarrow> abort e
            | Inr refs \<Rightarrow> (case enqueue_references refs (H, worklist) of
                None \<Rightarrow> None
              | Some (H', worklist') \<Rightarrow> mark_loop M H' worklist'))))"
  by pat_completeness auto
termination
  by (relation "measure (\<lambda>(M, H, worklist). 2 * unmarked H + length worklist)")
     (auto dest: enqueue_references_measure)

definition mark_reachable_objects :: "Metadata \<Rightarrow> Heap \<Rightarrow> Heap run" where
  "mark_reachable_objects M H =
     (case root_references H of
        None \<Rightarrow> None
      | Some refs \<Rightarrow> (case enqueue_references refs (H, []) of
          None \<Rightarrow> None
        | Some (H', worklist) \<Rightarrow> mark_loop M H' worklist))"

section \<open>Sweeping and collection\<close>

definition destroy_managed_object :: "Metadata \<Rightarrow> Heap \<Rightarrow> ClothAllocation \<Rightarrow> Heap run" where
  "destroy_managed_object M H a =
     (case hp_objects H (al_object a) of
        None \<Rightarrow> None
      | Some ob \<Rightarrow>
          if oh_type (ob_header ob) = NullType \<or> oh_runtime_state (ob_header ob) \<noteq> Some (al_identity a)
          then abort ''managed object header is corrupt''
          else
            let release = (\<lambda>blocks. done_with
                  (H\<lparr>hp_objects := (hp_objects H)(al_object a := None),
                     hp_freed := hp_freed H @ blocks @ [al_object a]\<rparr>)) in
            (case td_kind (descriptor M (oh_type (ob_header ob))) of
               hkString \<Rightarrow> release (if st_owns_data (ob_string ob) then [ob_data ob] else [])
             | hkArray \<Rightarrow> release [ob_data ob]
             | hkOther _ \<Rightarrow> abort ''managed object has an invalid kind''
             | _ \<Rightarrow> release []))"

text \<open>The sweeping loop over the linked list; the first result is what is left of the list.\<close>

fun sweep_loop :: "Metadata \<Rightarrow> Heap \<Rightarrow> ClothAllocation list \<Rightarrow> (ClothAllocation list \<times> Heap) run" where
  "sweep_loop M H [] = done_with ([], H)"
| "sweep_loop M H (a # as) =
     (if al_marked a then
        run_bind (sweep_loop M H as) (\<lambda>(kept, H'). done_with (a\<lparr>al_marked := False\<rparr> # kept, H'))
      else
        run_bind (destroy_managed_object M
            (H\<lparr>hp_live_object_count := hp_live_object_count H - 1,
               hp_live_byte_count := hp_live_byte_count H - al_size a\<rparr>) a)
          (\<lambda>H'. sweep_loop M H' as))"

definition sweep_unreachable_objects :: "Metadata \<Rightarrow> Heap \<Rightarrow> Heap run" where
  "sweep_unreachable_objects M H =
     run_bind (sweep_loop M H (hp_allocations H))
       (\<lambda>(kept, H'). rebuild_allocation_index (H'\<lparr>hp_allocations := kept\<rparr>))"

definition collect_heap :: "Metadata \<Rightarrow> Heap \<Rightarrow> Heap run" where
  "collect_heap M H =
     (if hp_collection_in_progress H then abort ''garbage collection is already active''
      else
        run_bind (mark_reachable_objects M (H\<lparr>hp_collection_in_progress := True\<rparr>)) (\<lambda>H1.
        run_bind (sweep_unreachable_objects M H1) (\<lambda>H2.
        done_with (H2\<lparr>hp_collection_count :=
                        (if hp_collection_count H2 \<noteq> max_u64 then hp_collection_count H2 + 1
                         else hp_collection_count H2),
                      hp_collection_threshold :=
                        max kInitialCollectionThreshold (saturating_double (hp_live_byte_count H2)),
                      hp_collection_in_progress := False\<rparr>))))"

definition collect_before_allocation :: "Metadata \<Rightarrow> Heap \<Rightarrow> u64 \<Rightarrow> Heap run" where
  "collect_before_allocation M H sz =
     (if sz > max_u64 - hp_live_byte_count H then abort ''managed heap size overflow''
      else if hp_live_byte_count H + sz \<le> hp_collection_threshold H then done_with H
      else
        run_bind (collect_heap M H) (\<lambda>H1.
          if sz > max_u64 - hp_live_byte_count H1 then abort ''managed heap size overflow''
          else
            let post_collection_size = hp_live_byte_count H1 + sz in
            if post_collection_size > hp_collection_threshold H1 then
              done_with (H1\<lparr>hp_collection_threshold :=
                max kInitialCollectionThreshold (saturating_double post_collection_size)\<rparr>)
            else done_with H1))"

section \<open>Allocation\<close>

definition allocate_aligned :: "Allocator \<Rightarrow> Heap \<Rightarrow> nat \<Rightarrow> nat \<Rightarrow> string \<Rightarrow> u64 run" where
  "allocate_aligned A H sz alignment failure =
     (if \<not> is_power_of_two alignment then abort ''invalid allocation alignment''
      else
        let storage = am_memalign A H (max sz 1) (max alignment 8) in
        if storage = 0 then abort failure else done_with storage)"

text \<open>Cleared storage that holds no object yet.\<close>

definition zero_object :: HeapObject where
  "zero_object =
     \<lparr>ob_header = \<lparr>oh_type = NullType, oh_runtime_state = None\<rparr>, ob_words = \<lambda>_. 0, ob_data = 0,
      ob_string = \<lparr>st_type = NullType, st_data = None, st_byte_size = 0, st_scalar_count = 0, st_owns_data = False\<rparr>,
      ob_length = 0, ob_element_size = 0, ob_element = None, ob_cells = \<lambda>_. 0\<rparr>"

abbreviation set_object :: "u64 \<Rightarrow> HeapObject \<Rightarrow> Heap \<Rightarrow> Heap" where
  "set_object object ob H \<equiv> H\<lparr>hp_objects := (hp_objects H)(object \<mapsto> ob)\<rparr>"

text \<open>The object is in memory, with its type set.\<close>

definition register_allocation :: "Allocator \<Rightarrow> Heap \<Rightarrow> u64 \<Rightarrow> u64 \<Rightarrow> Heap run" where
  "register_allocation A H object sz =
     (if hp_live_object_count H = max_u64 then abort ''managed object count overflow''
      else if hp_next_allocation_identity H = max_u64 then abort ''managed allocation identity overflow''
      else run_bind (reserve_allocation_index A H (unat (hp_live_object_count H + 1))) (\<lambda>H1.
        if \<not> am_malloc A H1 then abort ''managed allocation registry failed''
        else
          let allocation = \<lparr>al_object = object, al_size = sz,
                al_identity = hp_next_allocation_identity H1, al_marked = False\<rparr> in
          case insert_allocation_index (hp_index H1) allocation of
            None \<Rightarrow> None
          | Some index \<Rightarrow>
              (case hp_objects H1 object of
                 None \<Rightarrow> None
               | Some ob \<Rightarrow>
                   done_with
                     (set_object object
                        (ob\<lparr>ob_header := (ob_header ob)\<lparr>oh_runtime_state := Some (al_identity allocation)\<rparr>\<rparr>)
                        (H1\<lparr>hp_next_allocation_identity := hp_next_allocation_identity H1 + 1,
                            hp_allocations := allocation # hp_allocations H1,
                            hp_index := index,
                            hp_live_object_count := hp_live_object_count H1 + 1,
                            hp_live_byte_count := hp_live_byte_count H1 + sz,
                            hp_peak_live_byte_count :=
                              max (hp_peak_live_byte_count H1) (hp_live_byte_count H1 + sz)\<rparr>)))))"

definition cloth_rt_alloc :: "Allocator \<Rightarrow> Metadata \<Rightarrow> Heap \<Rightarrow> TypeRef \<Rightarrow> (u64 \<times> Heap) run" where
  "cloth_rt_alloc A M H type =
     (case validate_type_descriptor M type of
        Inl e \<Rightarrow> abort e
      | Inr _ \<Rightarrow>
          let d = descriptor M type in
          run_bind (collect_before_allocation M H (of_nat (td_size d))) (\<lambda>H1.
          run_bind (allocate_aligned A H1 (td_size d) (td_alignment d) ''object allocation failed'') (\<lambda>object.
          run_bind (register_allocation A
              (set_object object (zero_object\<lparr>ob_header := \<lparr>oh_type = type, oh_runtime_state = None\<rparr>\<rparr>) H1)
              object (of_nat (td_size d))) (\<lambda>H2.
          done_with (object, H2)))))"

definition string_object :: "u64 \<Rightarrow> string option \<Rightarrow> nat \<Rightarrow> nat \<Rightarrow> bool \<Rightarrow> HeapObject" where
  "string_object address contents byte_size scalar_count owns =
     zero_object\<lparr>ob_header := \<lparr>oh_type = StringType, oh_runtime_state = None\<rparr>, ob_data := address,
       ob_string := \<lparr>st_type = StringType, st_data = contents, st_byte_size = byte_size,
                     st_scalar_count = scalar_count, st_owns_data = owns\<rparr>\<rparr>"

text \<open>\<open>address\<close> and \<open>contents\<close> are the data pointer and what it points to.\<close>

definition allocate_borrowed_string ::
  "Allocator \<Rightarrow> Metadata \<Rightarrow> Heap \<Rightarrow> u64 \<Rightarrow> string option \<Rightarrow> nat \<Rightarrow> nat \<Rightarrow> (u64 \<times> Heap) run" where
  "allocate_borrowed_string A M H address contents byte_size scalar_count =
     run_bind (collect_before_allocation M H (of_nat sizeof_ClothString)) (\<lambda>H1.
     run_bind (allocate_aligned A H1 sizeof_ClothString 8 ''string allocation failed'') (\<lambda>object.
     run_bind (register_allocation A
         (set_object object (string_object address contents byte_size scalar_count False) H1)
         object (of_nat sizeof_ClothString)) (\<lambda>H2.
     done_with (object, H2))))"

definition allocate_owned_string ::
  "Allocator \<Rightarrow> Metadata \<Rightarrow> Heap \<Rightarrow> string \<Rightarrow> nat \<Rightarrow> nat \<Rightarrow> (u64 \<times> Heap) run" where
  "allocate_owned_string A M H data byte_size scalar_count =
     (if byte_size > kMaximumStringSize \<or> scalar_count > kMaximumStringSize
      then abort ''program argument is too large''
      else
        let managed_size = of_nat (sizeof_ClothString + byte_size) in
        run_bind (collect_before_allocation M H managed_size) (\<lambda>H1.
        run_bind (allocate_aligned A H1 sizeof_ClothString 8 ''string allocation failed'') (\<lambda>object.
        run_bind (allocate_aligned A (set_object object zero_object H1) byte_size 1
                    ''string payload allocation failed'') (\<lambda>owned_data.
        run_bind (register_allocation A
            (set_object object (string_object owned_data (Some (take byte_size data)) byte_size scalar_count True) H1)
            object managed_size) (\<lambda>H2.
        done_with (object, H2))))))"

definition allocate_concatenated_string ::
  "Allocator \<Rightarrow> Metadata \<Rightarrow> Heap \<Rightarrow> ClothString \<Rightarrow> ClothString \<Rightarrow> (u64 \<times> Heap) run" where
  "allocate_concatenated_string A M H left right =
     (if (of_nat (st_byte_size left) :: u64) > of_nat kMaximumStringSize - of_nat (st_byte_size right) \<or>
         (of_nat (st_scalar_count left) :: u64) > of_nat kMaximumStringSize - of_nat (st_scalar_count right)
      then abort ''string concatenation is too large''
      else
        let byte_size = st_byte_size left + st_byte_size right;
            scalar_count = st_scalar_count left + st_scalar_count right;
            managed_size = of_nat (sizeof_ClothString + byte_size) in
        run_bind (collect_before_allocation M H managed_size) (\<lambda>H1.
        run_bind (allocate_aligned A H1 sizeof_ClothString 8 ''string allocation failed'') (\<lambda>object.
        run_bind (allocate_aligned A (set_object object zero_object H1) byte_size 1
                    ''string payload allocation failed'') (\<lambda>data.
        run_bind (register_allocation A
            (set_object object
               (string_object data
                  (Some (take (st_byte_size left) (bytes_of (st_data left)) @
                         take (st_byte_size right) (bytes_of (st_data right))))
                  byte_size scalar_count True) H1)
            object managed_size) (\<lambda>H2.
        done_with (object, H2))))))"

text \<open>The checks of \<open>cloth_rt_array_alloc\<close> on the element layout.\<close>

fun array_offsets_valid :: "nat \<Rightarrow> nat option \<Rightarrow> nat list \<Rightarrow> bool" where
  "array_offsets_valid element_size previous [] = True"
| "array_offsets_valid element_size previous (offset # offsets) =
     (\<not> (offset mod 8 \<noteq> 0 \<or> offset > element_size \<or> sizeof_pointer > element_size - offset \<or>
         (previous \<noteq> None \<and> the previous \<ge> offset)) \<and>
      array_offsets_valid element_size (Some offset) offsets)"

definition validate_element_layout :: "ClothArrayElementLayout \<Rightarrow> unit outcome" where
  "validate_element_layout element =
     (if ae_size element = 0 then fail ''array element size is zero''
      else if \<not> is_power_of_two (ae_alignment element) \<or> ae_size element mod ae_alignment element \<noteq> 0
      then fail ''invalid array element alignment''
      else if (ae_reference_count element = 0) \<noteq> (ae_reference_offsets element = None) \<or>
              ae_reference_count element > ae_size element div sizeof_pointer
      then fail ''invalid array reference metadata''
      else if ae_reference_count element \<noteq> 0 \<and> ae_alignment element < 8
      then fail ''invalid reference array element layout''
      else if \<not> array_offsets_valid (ae_size element) None
              (cells (ae_reference_offsets element) (ae_reference_count element))
      then fail ''invalid array reference offset''
      else Inr ())"

definition cloth_rt_array_alloc ::
  "Allocator \<Rightarrow> Metadata \<Rightarrow> Heap \<Rightarrow> int \<Rightarrow> ClothArrayElementLayout option \<Rightarrow> (u64 \<times> Heap) run" where
  "cloth_rt_array_alloc A M H len element =
     (if len < 0 then abort ''array length is negative''
      else case element of
        None \<Rightarrow> abort ''array element metadata is null''
      | Some e \<Rightarrow> (case validate_element_layout e of
          Inl msg \<Rightarrow> abort msg
        | Inr _ \<Rightarrow>
            if nat len > (2 ^ 64 - 1) div ae_size e then abort ''array allocation is too large''
            else
              let payload_size = nat len * ae_size e in
              if payload_size > 2 ^ 64 - 1 - sizeof_ClothArray then abort ''managed array size overflow''
              else
                let managed_size = of_nat (sizeof_ClothArray + payload_size) in
                run_bind (collect_before_allocation M H managed_size) (\<lambda>H1.
                run_bind (allocate_aligned A H1 sizeof_ClothArray 8 ''array header allocation failed'') (\<lambda>object.
                run_bind (allocate_aligned A
                    (set_object object (zero_object\<lparr>ob_header := \<lparr>oh_type = ArrayType, oh_runtime_state = None\<rparr>\<rparr>) H1)
                    payload_size (ae_alignment e) ''array payload allocation failed'') (\<lambda>data.
                run_bind (register_allocation A
                    (set_object object
                       (zero_object\<lparr>ob_header := \<lparr>oh_type = ArrayType, oh_runtime_state = None\<rparr>, ob_data := data,
                          ob_length := nat len, ob_element_size := ae_size e, ob_element := Some e\<rparr>) H1)
                    object managed_size) (\<lambda>H2.
                done_with (object, H2)))))))"

section \<open>Root frames\<close>

text \<open>\<open>roots\<close> is the table of slot addresses, \<open>None\<close> the null pointer.\<close>

definition cloth_rt_gc_push_frame :: "Heap \<Rightarrow> u64 \<Rightarrow> u64 list option \<Rightarrow> nat \<Rightarrow> Heap outcome" where
  "cloth_rt_gc_push_frame H frame roots root_count =
     (if frame = 0 then fail ''GC root frame is null''
      else if (roots = None) \<noteq> (root_count = 0) then fail ''GC root frame metadata is inconsistent''
      else if frame = hp_current_root_frame H then fail ''GC root frame is already active''
      else if list_ex (\<lambda>slot. slot = 0) (cells roots root_count) then fail ''GC root slot is null''
      else Inr (H\<lparr>hp_frames := (hp_frames H)
                   (frame := \<lparr>rf_previous = hp_current_root_frame H, rf_roots = roots, rf_root_count = root_count\<rparr>),
                  hp_current_root_frame := frame\<rparr>))"

definition cloth_rt_gc_pop_frame :: "Heap \<Rightarrow> u64 \<Rightarrow> Heap outcome" where
  "cloth_rt_gc_pop_frame H frame =
     (if frame = 0 \<or> hp_current_root_frame H \<noteq> frame then fail ''GC root frames were popped out of order''
      else Inr (H\<lparr>hp_frames := (hp_frames H)(frame := \<lparr>rf_previous = 0, rf_roots = None, rf_root_count = 0\<rparr>),
                  hp_current_root_frame := rf_previous (hp_frames H frame)\<rparr>))"

definition cloth_rt_gc_collect :: "Metadata \<Rightarrow> Heap \<Rightarrow> Heap run" where
  "cloth_rt_gc_collect M H = collect_heap M H"

definition cloth_rt_gc_live_objects :: "Heap \<Rightarrow> u64" where
  "cloth_rt_gc_live_objects H = hp_live_object_count H"

definition cloth_rt_gc_live_bytes :: "Heap \<Rightarrow> u64" where
  "cloth_rt_gc_live_bytes H = hp_live_byte_count H"

definition cloth_rt_gc_collection_count :: "Heap \<Rightarrow> u64" where
  "cloth_rt_gc_collection_count H = hp_collection_count H"

definition cloth_rt_gc_peak_live_bytes :: "Heap \<Rightarrow> u64" where
  "cloth_rt_gc_peak_live_bytes H = hp_peak_live_byte_count H"

section \<open>The index as a finite map\<close>

text \<open>
  What the collector relies on in an index from objects to allocations: inserting below the capacity
  succeeds and adds the pair, and a lookup returns what was inserted.
\<close>

locale object_index =
  fixes represents :: "'x \<Rightarrow> ('k \<times> 'v) list \<Rightarrow> bool"
    and capacity :: "'x \<Rightarrow> nat"
    and valid_key :: "'k \<Rightarrow> bool"
    and insert_pair :: "'x \<Rightarrow> 'k \<times> 'v \<Rightarrow> 'x option"
    and insert_pairs :: "'x \<Rightarrow> ('k \<times> 'v) list \<Rightarrow> 'x option"
    and lookup :: "'x \<Rightarrow> 'k \<Rightarrow> 'v option option"
  assumes represents_perm: "represents x es \<Longrightarrow> mset es = mset es' \<Longrightarrow> represents x es'"
    and insert_represents:
      "represents x es \<Longrightarrow> length es < capacity x \<Longrightarrow> valid_key k \<Longrightarrow> k \<notin> fst ` set es \<Longrightarrow>
       \<exists>x'. insert_pair x (k, v) = Some x' \<and> represents x' ((k, v) # es) \<and> capacity x' = capacity x"
    and lookup_represents:
      "represents x es \<Longrightarrow> length es < capacity x \<Longrightarrow> valid_key k \<Longrightarrow> lookup x k = Some (map_of es k)"
    and insert_pairs_Nil: "insert_pairs x [] = Some x"
    and insert_pairs_Cons:
      "insert_pairs x (e # es) = (case insert_pair x e of None \<Rightarrow> None | Some x' \<Rightarrow> insert_pairs x' es)"
begin

lemma insert_pairs_represents:
  "represents x done \<Longrightarrow> length done + length es \<le> capacity x \<Longrightarrow> list_all (\<lambda>(k, v). valid_key k) es \<Longrightarrow>
   distinct (map fst (done @ es)) \<Longrightarrow>
   \<exists>x'. insert_pairs x es = Some x' \<and> represents x' (done @ es) \<and> capacity x' = capacity x"
proof (induction es arbitrary: x "done")
  case Nil
  then show ?case by (simp add: insert_pairs_Nil)
next
  case (Cons e es)
  obtain k v where e: "e = (k, v)" by (cases e)
  from insert_represents [OF Cons.prems(1), of k v] Cons.prems(2,3,4) e
  obtain x1 where x1: "insert_pair x e = Some x1" "represents x1 (e # done)" "capacity x1 = capacity x" by auto
  have "represents x1 (done @ [e])" by (rule represents_perm [OF x1(2)]) simp
  from Cons.IH [OF this] x1(3) Cons.prems(2-4)
  obtain x' where "insert_pairs x1 es = Some x'" "represents x' ((done @ [e]) @ es)" "capacity x' = capacity x1"
    by auto
  then show ?case using x1 by (simp add: insert_pairs_Cons)
qed

end

abbreviation entry_at :: "ClothAllocationIndexEntry list \<Rightarrow> nat \<Rightarrow> nat \<Rightarrow> ClothAllocationIndexEntry" where
  "entry_at index slot d \<equiv> index ! ((slot + d) mod length index)"

abbreviation home :: "ClothAllocationIndexEntry list \<Rightarrow> u64 \<Rightarrow> nat" where
  "home index object \<equiv> unat (hash_object object) mod length index"

definition occupied :: "ClothAllocationIndexEntry list \<Rightarrow> nat set" where
  "occupied index = {s. s < length index \<and> ie_object (index ! s) \<noteq> 0}"

text \<open>
  The index holds exactly the pairs; each is found from its home slot over occupied slots only.
\<close>

definition index_represents :: "ClothAllocationIndexEntry list \<Rightarrow> (u64 \<times> u64) list \<Rightarrow> bool" where
  "index_represents index es \<longleftrightarrow>
     (\<exists>k. length index = 2 ^ k) \<and> card (occupied index) \<le> length es \<and>
     distinct (map fst es) \<and> 0 \<notin> fst ` set es \<and>
     (\<forall>s \<in> occupied index. (ie_object (index ! s), ie_allocation (index ! s)) \<in> set es) \<and>
     (\<forall>(k, v) \<in> set es. \<exists>d < length index.
        entry_at index (home index k) d = \<lparr>ie_object = k, ie_allocation = v\<rparr> \<and>
        (\<forall>j < d. ie_object (entry_at index (home index k) j) \<noteq> 0))"

lemma index_represents_found:
  assumes "index_represents index es" "(k, v) \<in> set es"
  obtains d where "d < length index" "entry_at index (home index k) d = \<lparr>ie_object = k, ie_allocation = v\<rparr>"
    "\<forall>j < d. ie_object (entry_at index (home index k) j) \<noteq> 0"
  using assms unfolding index_represents_def by fast

lemma nat_and_mask: "(n::nat) AND (2 ^ k - 1) = n mod 2 ^ k"
  using take_bit_eq_mask [of k n] by (simp only: take_bit_eq_mod mask_eq_exp_minus_1)

lemma probe_Some:
  assumes "length index = 2 ^ k"
  shows "slot < length index \<Longrightarrow> probe stop index n slot = Some s \<longleftrightarrow>
    (\<exists>d < n. s = (slot + d) mod length index \<and> stop (index ! s) \<and> (\<forall>j < d. \<not> stop (entry_at index slot j)))"
proof (induction n arbitrary: slot)
  case 0
  then show ?case by simp
next
  case (Suc n)
  have pos: "0 < length index" using assms by simp
  let ?next = "(slot + 1) mod length index"
  have step: "(slot + 1) AND (length index - 1) = ?next" using assms nat_and_mask by simp
  have shift: "(?next + d) mod length index = (slot + Suc d) mod length index" for d
    by (simp add: mod_add_left_eq)
  show ?case
  proof (cases "stop (index ! slot)")
    case True
    have "d = 0" if "\<forall>j < d. \<not> stop (entry_at index slot j)" for d
      using that True Suc.prems by (cases d) auto
    moreover have s0: "(slot + 0) mod length index = slot" using Suc.prems by simp
    ultimately have "(\<exists>d < Suc n. s = (slot + d) mod length index \<and> stop (index ! s) \<and>
        (\<forall>j < d. \<not> stop (entry_at index slot j))) \<longleftrightarrow> s = slot"
      using True by (metis not_less_zero zero_less_Suc)
    then show ?thesis using True by auto
  next
    case False
    have IH: "probe stop index n ?next = Some s \<longleftrightarrow>
        (\<exists>d < n. s = (slot + Suc d) mod length index \<and> stop (index ! s) \<and>
           (\<forall>j < d. \<not> stop (entry_at index slot (Suc j))))"
      using Suc.IH [of ?next] pos unfolding shift by simp
    have "(\<exists>d < Suc n. P d) \<longleftrightarrow> P 0 \<or> (\<exists>d < n. P (Suc d))" for P :: "nat \<Rightarrow> bool"
      by (metis (no_types) Suc_less_eq2 not0_implies_Suc zero_less_Suc Suc_less_eq)
    note ex = this
    have all: "(\<forall>j < Suc d. P j) \<longleftrightarrow> P 0 \<and> (\<forall>j < d. P (Suc j))" for d and P :: "nat \<Rightarrow> bool"
      by (metis Suc_less_eq2 not0_implies_Suc zero_less_Suc Suc_less_eq)
    show ?thesis
      using IH False Suc.prems step unfolding ex all by auto
  qed
qed

lemma probe_SomeE:
  assumes "length index = 2 ^ k" "slot < length index" "probe stop index n slot = Some s"
  obtains d where "d < n" "s = (slot + d) mod length index" "stop (index ! s)"
    "\<forall>j < d. \<not> stop (entry_at index slot j)"
  using assms(3) unfolding probe_Some [OF assms(1,2)] by blast

lemma probe_ends:
  assumes cap: "length index = 2 ^ k" and "slot < length index"
    and ex: "\<exists>t < length index. stop (index ! t)"
  shows "\<exists>s. probe stop index (length index) slot = Some s"
proof -
  let ?P = "\<lambda>d. stop (entry_at index slot d)"
  from ex obtain t where t: "t < length index" "stop (index ! t)" by blast
  let ?d = "(t + length index - slot) mod length index"
  have "(slot + ?d) mod length index = t"
    using t(1) assms(2) by (simp add: mod_add_right_eq)
  with t(2) have P: "?P ?d" by simp
  have "(LEAST d. ?P d) \<le> ?d" using P by (rule Least_le)
  moreover have "?d < length index" using t(1) by (simp add: mod_less_divisor [OF gr_implies_not0 [THEN neq0_conv [THEN iffD1]]])
  ultimately have "(LEAST d. ?P d) < length index" by simp
  moreover have "?P (LEAST d. ?P d)" using P by (rule LeastI)
  moreover have "\<forall>j < (LEAST d. ?P d). \<not> ?P j" using not_less_Least by blast
  ultimately show ?thesis using probe_Some [OF cap assms(2)] by blast
qed

lemma free_slot:
  assumes "index_represents index es" "length es < length index"
  shows "\<exists>t < length index. ie_object (index ! t) = 0"
proof (rule ccontr)
  assume "\<not> ?thesis"
  then have "occupied index = {..<length index}" by (auto simp: occupied_def)
  with assms show False by (auto simp: index_represents_def)
qed

definition index_lookup :: "ClothAllocationIndexEntry list \<Rightarrow> u64 \<Rightarrow> u64 option option" where
  "index_lookup index object =
     (case probe (\<lambda>e. ie_object e = 0 \<or> ie_object e = object) index (length index)
             (unat (hash_object object) AND (length index - 1)) of
        None \<Rightarrow> None
      | Some slot \<Rightarrow>
          Some (if ie_object (index ! slot) = 0 then None else Some (ie_allocation (index ! slot))))"

lemma index_lookup_represents:
  assumes rep: "index_represents index es" and room: "length es < length index" and "object \<noteq> 0"
  shows "index_lookup index object = Some (map_of es object)"
proof -
  from rep obtain k where cap: "length index = 2 ^ k" by (auto simp: index_represents_def)
  have home: "unat (hash_object object) AND (length index - 1) = home index object"
    using cap nat_and_mask by simp
  have h: "home index object < length index" using cap by simp
  let ?stop = "\<lambda>e. ie_object e = 0 \<or> ie_object e = object"
  from probe_ends [OF cap h, of ?stop] free_slot [OF rep room]
  obtain s where s: "probe ?stop index (length index) (home index object) = Some s" by auto
  from probe_SomeE [OF cap h s] obtain d where "d < length index" and d: "s = (home index object + d) mod length index"
      "?stop (index ! s)" "\<forall>j < d. \<not> ?stop (entry_at index (home index object) j)" .
  have sl: "s < length index" using d(1) cap by simp
  have dist: "distinct (map fst es)" using rep by (simp add: index_represents_def)
  show ?thesis
  proof (cases "ie_object (index ! s) = 0")
    case False
    then have "(object, ie_allocation (index ! s)) \<in> set es"
      using rep sl d(2) by (auto simp: index_represents_def occupied_def)
    then have "map_of es object = Some (ie_allocation (index ! s))" using dist by simp
    then show ?thesis using False s home by (simp add: index_lookup_def)
  next
    case True
    have "object \<notin> fst ` set es"
    proof
      assume "object \<in> fst ` set es"
      then obtain v where v: "(object, v) \<in> set es" by auto
      from index_represents_found [OF rep v] obtain e
        where "e < length index"
          and e: "entry_at index (home index object) e = \<lparr>ie_object = object, ie_allocation = v\<rparr>"
          "\<forall>j < e. ie_object (entry_at index (home index object) j) \<noteq> 0" .
      have "\<not> e < d" using d(3) e(1) by auto
      moreover have "\<not> d < e" using e(2) True d(1) by auto
      ultimately have "d = e" by linarith
      with e(1) d(1) True \<open>object \<noteq> 0\<close> show False by simp
    qed
    then have "map_of es object = None" by (simp add: map_of_eq_None_iff)
    then show ?thesis using True s home by (simp add: index_lookup_def)
  qed
qed

abbreviation entry_of :: "ClothAllocation \<Rightarrow> u64 \<times> u64" where
  "entry_of a \<equiv> (al_object a, al_identity a)"

definition index_insert :: "ClothAllocationIndexEntry list \<Rightarrow> u64 \<times> u64 \<Rightarrow> ClothAllocationIndexEntry list option" where
  "index_insert index e =
     insert_allocation_index index \<lparr>al_object = fst e, al_size = 0, al_identity = snd e, al_marked = False\<rparr>"

definition index_insert_all ::
  "ClothAllocationIndexEntry list \<Rightarrow> (u64 \<times> u64) list \<Rightarrow> ClothAllocationIndexEntry list option" where
  "index_insert_all index es = insert_allocations index
     (map (\<lambda>e. \<lparr>al_object = fst e, al_size = 0, al_identity = snd e, al_marked = False\<rparr>) es)"

lemma insert_allocation_index_eq: "insert_allocation_index index a = index_insert index (entry_of a)"
  by (simp add: index_insert_def insert_allocation_index_def split: option.splits)

lemma insert_allocations_eq: "insert_allocations index as = index_insert_all index (map entry_of as)"
proof (induction "as" arbitrary: index)
  case (Cons a "as")
  show ?case
  proof (cases "insert_allocation_index index a")
    case None
    then show ?thesis by (simp add: index_insert_all_def insert_allocation_index_def split: option.splits)
  next
    case (Some index')
    moreover from this have "insert_allocation_index index
        \<lparr>al_object = al_object a, al_size = 0, al_identity = al_identity a, al_marked = False\<rparr> = Some index'"
      by (simp add: insert_allocation_index_def split: option.splits)
    ultimately show ?thesis using Cons.IH [of index'] by (simp add: index_insert_all_def)
  qed
qed (simp add: index_insert_all_def)

lemma index_insert_represents:
  assumes rep: "index_represents index es" and room: "length es < length index"
    and "object \<noteq> 0" and new: "object \<notin> fst ` set es"
  shows "\<exists>index'. index_insert index (object, identity) = Some index' \<and>
    index_represents index' ((object, identity) # es) \<and> length index' = length index"
proof -
  from rep obtain k where cap: "length index = 2 ^ k" by (auto simp: index_represents_def)
  have h: "home index object < length index" using cap by simp
  from probe_ends [OF cap h free_slot [OF rep room]]
  obtain s where s: "probe (\<lambda>e. ie_object e = 0) index (length index) (home index object) = Some s" by auto
  from probe_SomeE [OF cap h s] obtain d where dl: "d < length index"
      and d: "s = (home index object + d) mod length index" "ie_object (index ! s) = 0"
      "\<forall>j < d. ie_object (entry_at index (home index object) j) \<noteq> 0" .
  have sl: "s < length index" using d(1) cap by simp
  let ?e = "\<lparr>ie_object = object, ie_allocation = identity\<rparr>"
  let ?index = "index[s := ?e]"
  have home': "unat (hash_object object) AND (length index - 1) = home index object"
    using cap nat_and_mask by simp
  have ins: "index_insert index (object, identity) = Some ?index"
    by (simp add: index_insert_def insert_allocation_index_def home' s del: One_nat_def)
  have occ: "occupied ?index = insert s (occupied index)"
    using \<open>object \<noteq> 0\<close> sl by (auto simp: occupied_def nth_list_update)
  have keep: "ie_object (?index ! t) \<noteq> 0" if "ie_object (index ! t) \<noteq> 0" for t
    using that \<open>object \<noteq> 0\<close> sl by (cases "t = s") auto
  have fin: "finite (occupied index)" by (simp add: occupied_def)
  have "s \<notin> occupied index" using d(2) by (simp add: occupied_def)
  then have "card (occupied ?index) \<le> length ((object, identity) # es)"
    using rep fin by (simp add: occ index_represents_def)
  moreover have "distinct (map fst ((object, identity) # es))" "0 \<notin> fst ` set ((object, identity) # es)"
    using rep new \<open>object \<noteq> 0\<close> by (auto simp: index_represents_def)
  moreover have "\<forall>t \<in> occupied ?index. (ie_object (?index ! t), ie_allocation (?index ! t)) \<in> set ((object, identity) # es)"
    using rep sl unfolding occ by (auto simp: index_represents_def nth_list_update)
  moreover have "\<forall>(k, v) \<in> set ((object, identity) # es). \<exists>d < length ?index.
      entry_at ?index (home ?index k) d = \<lparr>ie_object = k, ie_allocation = v\<rparr> \<and>
      (\<forall>j < d. ie_object (entry_at ?index (home ?index k) j) \<noteq> 0)"
  proof clarify
    fix k v
    assume kv: "(k, v) \<in> set ((object, identity) # es)"
    show "\<exists>d < length ?index. entry_at ?index (home ?index k) d = \<lparr>ie_object = k, ie_allocation = v\<rparr> \<and>
      (\<forall>j < d. ie_object (entry_at ?index (home ?index k) j) \<noteq> 0)"
    proof (cases "(k, v) = (object, identity)")
      case True
      then show ?thesis using dl d sl keep by (intro exI [of _ d]) auto
    next
      case False
      with kv have "(k, v) \<in> set es" by auto
      from index_represents_found [OF rep this] obtain c where c: "c < length index"
          "entry_at index (home index k) c = \<lparr>ie_object = k, ie_allocation = v\<rparr>"
          "\<forall>j < c. ie_object (entry_at index (home index k) j) \<noteq> 0" .
      have "k \<noteq> 0" using rep \<open>(k, v) \<in> set es\<close> by (auto simp: index_represents_def image_iff)
      then have "(home index k + c) mod length index \<noteq> s" using c(2) d(2) by auto
      then show ?thesis using c keep by (intro exI [of _ c]) auto
    qed
  qed
  ultimately have "index_represents ?index ((object, identity) # es)"
    using cap unfolding index_represents_def by auto
  then show ?thesis using ins by auto
qed

lemma empty_index_represents: "index_represents (empty_index (2 ^ k)) []"
  by (auto simp: index_represents_def occupied_def empty_index_def)

lemma index_represents_perm:
  assumes "index_represents index es" "mset es = mset es'"
  shows "index_represents index es'"
proof -
  have "mset (map fst es) = mset (map fst es')" using assms(2) by (simp only: mset_map)
  then have "distinct (map fst es) = distinct (map fst es')" by (rule mset_eq_imp_distinct_iff)
  moreover have "set es = set es'" "length es = length es'"
    using assms(2) by (auto dest: mset_eq_setD mset_eq_length)
  ultimately show ?thesis using assms(1) by (simp add: index_represents_def)
qed

interpretation allocation_index: object_index index_represents length "\<lambda>k. k \<noteq> (0::u64)"
  index_insert index_insert_all index_lookup
  using index_insert_represents index_lookup_represents
  by unfold_locales
    (auto simp: index_represents_perm index_insert_all_def index_insert_def split: option.splits)

section \<open>The registry\<close>

definition allocation_ok :: "Metadata \<Rightarrow> Heap \<Rightarrow> ClothAllocation \<Rightarrow> bool" where
  "allocation_ok M H a \<longleftrightarrow>
     al_object a \<noteq> 0 \<and>
     (case hp_objects H (al_object a) of
        None \<Rightarrow> False
      | Some ob \<Rightarrow> oh_type (ob_header ob) \<noteq> NullType \<and>
          is_heap_object_kind (td_kind (descriptor M (oh_type (ob_header ob)))) \<and>
          oh_runtime_state (ob_header ob) = Some (al_identity a))"

lemma allocation_ok_simps [simp]:
  "allocation_ok M H (a\<lparr>al_marked := m\<rparr>) = allocation_ok M H a"
  "allocation_ok M (H\<lparr>hp_allocations := as\<rparr>) = allocation_ok M H"
  by (auto simp: allocation_ok_def fun_eq_iff split: option.splits)

definition index_ok :: "Heap \<Rightarrow> bool" where
  "index_ok H \<longleftrightarrow>
     (if hp_index H = [] then hp_allocations H = []
      else index_represents (hp_index H) (map entry_of (hp_allocations H)) \<and>
           2 * length (hp_allocations H) \<le> length (hp_index H))"

definition registry_ok :: "Metadata \<Rightarrow> Heap \<Rightarrow> bool" where
  "registry_ok M H \<longleftrightarrow>
     distinct (map al_object (hp_allocations H)) \<and> distinct (map al_identity (hp_allocations H)) \<and>
     list_all (allocation_ok M H) (hp_allocations H) \<and> index_ok H"

abbreviation find_object :: "ClothAllocation list \<Rightarrow> u64 \<Rightarrow> ClothAllocation option" where
  "find_object allocs object \<equiv> find (\<lambda>a. al_object a = object) allocs"

lemma map_of_entries: "map_of (map entry_of allocs) object = map_option al_identity (find_object allocs object)"
  by (induction allocs) auto

lemma find_identity_distinct:
  "distinct (map al_identity allocs) \<Longrightarrow> a \<in> set allocs \<Longrightarrow> find_identity allocs (al_identity a) = Some a"
  unfolding find_identity_def by (induction allocs) (auto simp: image_iff)

lemma find_allocation_correct:
  assumes "registry_ok M H"
  shows "find_allocation H object = Some (find_object (hp_allocations H) object)"
proof (cases "object = 0 \<or> hp_index H = []")
  case True
  have "find_object (hp_allocations H) object = None"
    using True assms by (auto simp: registry_ok_def index_ok_def find_None_iff list_all_iff allocation_ok_def)
  then show ?thesis using True by (simp add: find_allocation_def)
next
  case False
  then have rep: "index_represents (hp_index H) (map entry_of (hp_allocations H))"
      "2 * length (hp_allocations H) \<le> length (hp_index H)"
    using assms by (auto simp: registry_ok_def index_ok_def)
  have room: "length (map entry_of (hp_allocations H)) < length (hp_index H)"
    using rep(2) False by (cases "hp_allocations H") auto
  from allocation_index.lookup_represents [OF rep(1) room, of object] False
  have look: "index_lookup (hp_index H) object = Some (map_option al_identity (find_object (hp_allocations H) object))"
    by (simp add: map_of_entries)
  obtain slot where slot: "probe (\<lambda>e. ie_object e = 0 \<or> ie_object e = object) (hp_index H) (length (hp_index H))
      (unat (hash_object object) AND (length (hp_index H) - 1)) = Some slot"
    using look by (auto simp: index_lookup_def split: option.splits)
  show ?thesis
  proof (cases "find_object (hp_allocations H) object")
    case None
    then show ?thesis using look slot False
      by (auto simp: index_lookup_def find_allocation_def split: if_splits)
  next
    case (Some a)
    then have "a \<in> set (hp_allocations H)" by (auto simp: find_Some_iff)
    then have "find_identity (hp_allocations H) (al_identity a) = Some a"
      using assms by (intro find_identity_distinct) (auto simp: registry_ok_def)
    then show ?thesis using look slot False Some
      by (auto simp: index_lookup_def find_allocation_def split: if_splits)
  qed
qed

section \<open>Tracing\<close>

text \<open>The objects that the roots lead to.\<close>

inductive reachable :: "'o set \<Rightarrow> 'o list \<Rightarrow> ('o \<Rightarrow> 'o list) \<Rightarrow> 'o \<Rightarrow> bool" for live roots refs where
  root: "r \<in> set roots \<Longrightarrow> r \<in> live \<Longrightarrow> reachable live roots refs r"
| step: "reachable live roots refs p \<Longrightarrow> r \<in> set (refs p) \<Longrightarrow> r \<in> live \<Longrightarrow> reachable live roots refs r"

text \<open>
  What the tracing loop relies on: enqueueing a reference marks it and puts it on the worklist if it
  is a live object without a mark, and otherwise changes nothing.
\<close>

locale mark_worklist =
  fixes good :: "'s \<Rightarrow> bool" and live :: "'s \<Rightarrow> 'o set" and marked :: "'s \<Rightarrow> 'o set" and pending :: "'s \<Rightarrow> 'o list"
    and unchanged :: "'s \<Rightarrow> 'f"
    and enqueue :: "'o \<Rightarrow> 's \<Rightarrow> 's option" and enqueue_all :: "'o list \<Rightarrow> 's \<Rightarrow> 's option"
  assumes enqueue_law: "good s \<Longrightarrow>
      \<exists>s'. enqueue r s = Some s' \<and> good s' \<and> unchanged s' = unchanged s \<and> live s' = live s \<and>
        (if r \<in> live s - marked s then marked s' = insert r (marked s) \<and> pending s' = r # pending s
         else marked s' = marked s \<and> pending s' = pending s)"
    and enqueue_all_Nil: "enqueue_all [] s = Some s"
    and enqueue_all_Cons:
      "enqueue_all (r # rs) s = (case enqueue r s of None \<Rightarrow> None | Some s' \<Rightarrow> enqueue_all rs s')"
begin

lemma enqueue_all_marks:
  "good s \<Longrightarrow>
   \<exists>s'. enqueue_all rs s = Some s' \<and> good s' \<and> unchanged s' = unchanged s \<and> live s' = live s \<and>
     marked s' = marked s \<union> (set rs \<inter> live s) \<and>
     set (pending s') = set (pending s) \<union> (set rs \<inter> live s - marked s)"
proof (induction rs arbitrary: s)
  case Nil
  then show ?case by (simp add: enqueue_all_Nil)
next
  case (Cons r rs)
  from enqueue_law [OF Cons.prems, of r] obtain s1
    where s1: "enqueue r s = Some s1" "good s1" "unchanged s1 = unchanged s" "live s1 = live s"
      "if r \<in> live s - marked s then marked s1 = insert r (marked s) \<and> pending s1 = r # pending s
       else marked s1 = marked s \<and> pending s1 = pending s" by blast
  from Cons.IH [OF s1(2)] obtain s'
    where s': "enqueue_all rs s1 = Some s'" "good s'" "unchanged s' = unchanged s1" "live s' = live s1"
      "marked s' = marked s1 \<union> (set rs \<inter> live s1)"
      "set (pending s') = set (pending s1) \<union> (set rs \<inter> live s1 - marked s1)" by blast
  have "marked s' = marked s \<union> (set (r # rs) \<inter> live s)"
    using s1(4,5) s'(5) by (auto split: if_splits)
  moreover have "set (pending s') = set (pending s) \<union> (set (r # rs) \<inter> live s - marked s)"
    using s1(4,5) s'(6) by (auto split: if_splits)
  ultimately show ?case using s1 s' by (simp add: enqueue_all_Cons)
qed

text \<open>
  Between the iterations: what is marked is reachable, and covers the roots and the references of
  every marked object that is not waiting.
\<close>

definition traced :: "'o set \<Rightarrow> 'o list \<Rightarrow> ('o \<Rightarrow> 'o list) \<Rightarrow> 's \<Rightarrow> bool" where
  "traced L roots refs s \<longleftrightarrow>
     good s \<and> live s = L \<and> marked s \<subseteq> {x. reachable L roots refs x} \<and> set (pending s) \<subseteq> marked s \<and>
     set roots \<inter> L \<subseteq> marked s \<and> (\<forall>x \<in> marked s - set (pending s). set (refs x) \<inter> L \<subseteq> marked s)"

lemma traced_start:
  assumes "good s" "marked s = {}" "pending s = []"
  shows "\<exists>s'. enqueue_all roots s = Some s' \<and> traced (live s) roots refs s' \<and> unchanged s' = unchanged s"
proof -
  from enqueue_all_marks [OF assms(1), of roots] obtain s'
    where s': "enqueue_all roots s = Some s'" "good s'" "unchanged s' = unchanged s" "live s' = live s"
      "marked s' = set roots \<inter> live s" "set (pending s') = set roots \<inter> live s"
    using assms(2,3) by auto
  then have "traced (live s) roots refs s'"
    by (auto simp: traced_def intro: reachable.root)
  with s' show ?thesis by blast
qed

lemma traced_step:
  assumes t: "traced L roots refs s" and s1: "good s1" "live s1 = L" "marked s1 = marked s"
    "pending s = x # pending s1"
  shows "\<exists>s'. enqueue_all (refs x) s1 = Some s' \<and> traced L roots refs s' \<and> unchanged s' = unchanged s1"
proof -
  from enqueue_all_marks [OF s1(1), of "refs x"] obtain s'
    where s': "enqueue_all (refs x) s1 = Some s'" "good s'" "unchanged s' = unchanged s1" "live s' = L"
      "marked s' = marked s \<union> (set (refs x) \<inter> L)"
      "set (pending s') = set (pending s1) \<union> (set (refs x) \<inter> L - marked s)"
    using s1(2,3) by auto
  have x: "x \<in> marked s" "reachable L roots refs x" using t s1(4) by (auto simp: traced_def)
  have "marked s' \<subseteq> {x. reachable L roots refs x}"
    using t s'(5) reachable.step [OF x(2)] by (auto simp: traced_def)
  moreover have "set (pending s') \<subseteq> marked s'" using t s1(4) s'(5,6) by (auto simp: traced_def)
  moreover have "set (refs y) \<inter> L \<subseteq> marked s'" if y: "y \<in> marked s' - set (pending s')" for y
  proof (cases "y = x")
    case True
    then show ?thesis using s'(5) by auto
  next
    case False
    then have "y \<in> marked s - set (pending s)" using y s'(5,6) s1(4) by auto
    then show ?thesis using t s'(5) by (auto simp: traced_def)
  qed
  ultimately have "traced L roots refs s'" using t s' by (auto simp: traced_def)
  with s' show ?thesis by blast
qed

lemma traced_done:
  assumes "traced L roots refs s" "pending s = []"
  shows "marked s = {x. reachable L roots refs x}"
proof
  show "marked s \<subseteq> {x. reachable L roots refs x}" using assms by (auto simp: traced_def)
  have "x \<in> marked s" if "reachable L roots refs x" for x
    using that
  proof (induction rule: reachable.induct)
    case (root r)
    then show ?case using assms by (auto simp: traced_def)
  next
    case (step p r)
    then show ?case using assms by (auto simp: traced_def)
  qed
  then show "{x. reachable L roots refs x} \<subseteq> marked s" by auto
qed

end

text \<open>The heap without the marks.\<close>

definition erase_marks :: "Heap \<Rightarrow> Heap" where
  "erase_marks H = H\<lparr>hp_allocations := map (\<lambda>a. a\<lparr>al_marked := False\<rparr>) (hp_allocations H)\<rparr>"

definition live_objects :: "Heap \<Rightarrow> u64 set" where
  "live_objects H = al_object ` set (hp_allocations H)"

definition marked_objects :: "Heap \<Rightarrow> u64 set" where
  "marked_objects H = al_object ` {a \<in> set (hp_allocations H). al_marked a}"

definition object_of :: "Heap \<Rightarrow> u64 \<Rightarrow> u64" where
  "object_of H identity = the (map_of (map (\<lambda>a. (al_identity a, al_object a)) (hp_allocations H)) identity)"

abbreviation waiting_objects :: "Heap \<times> u64 list \<Rightarrow> u64 list" where
  "waiting_objects s \<equiv> map (object_of (fst s)) (snd s)"

definition mark_state_ok :: "Metadata \<Rightarrow> Heap \<times> u64 list \<Rightarrow> bool" where
  "mark_state_ok M s \<longleftrightarrow>
     registry_ok M (fst s) \<and> set (snd s) \<subseteq> al_identity ` set (hp_allocations (fst s))"

lemma find_identity_object:
  "find_identity (hp_allocations H) i = Some a \<Longrightarrow> object_of H i = al_object a"
proof -
  have "find (\<lambda>a. al_identity a = i) as = Some a \<Longrightarrow>
      map_of (map (\<lambda>a. (al_identity a, al_object a)) as) i = Some (al_object a)" for "as"
    by (induction "as") (auto split: if_splits)
  then show "find_identity (hp_allocations H) i = Some a \<Longrightarrow> object_of H i = al_object a"
    by (simp add: find_identity_def object_of_def)
qed

lemma set_marked_simps [simp]:
  "map al_object (set_marked i as) = map al_object as" "map al_identity (set_marked i as) = map al_identity as"
  "map entry_of (set_marked i as) = map entry_of as" "length (set_marked i as) = length as"
  "map (\<lambda>a. (al_identity a, al_object a)) (set_marked i as) = map (\<lambda>a. (al_identity a, al_object a)) as"
  "map (\<lambda>a. a\<lparr>al_marked := False\<rparr>) (set_marked i as) = map (\<lambda>a. a\<lparr>al_marked := False\<rparr>) as"
  "set_marked i as = [] \<longleftrightarrow> as = []"
  by (auto simp: set_marked_def)

lemma set_marked_image:
  "al_object ` set (set_marked i as) = al_object ` set as"
  "al_identity ` set (set_marked i as) = al_identity ` set as"
  by (metis set_map set_marked_simps(1), metis set_map set_marked_simps(2))

lemma registry_ok_marks:
  assumes "registry_ok M H"
  shows "registry_ok M (H\<lparr>hp_allocations := set_marked i (hp_allocations H)\<rparr>)"
proof -
  have "list_all (allocation_ok M (H\<lparr>hp_allocations := set_marked i (hp_allocations H)\<rparr>)) (set_marked i (hp_allocations H))"
    using assms by (auto simp: registry_ok_def list_all_iff set_marked_def)
  then show ?thesis using assms by (simp add: registry_ok_def index_ok_def)
qed

lemma marked_objects_set_marked:
  assumes "registry_ok M H" "a \<in> set (hp_allocations H)"
  shows "marked_objects (H\<lparr>hp_allocations := set_marked (al_identity a) (hp_allocations H)\<rparr>)
    = insert (al_object a) (marked_objects H)"
proof -
  have same: "b = a" if "b \<in> set (hp_allocations H)" "al_identity b = al_identity a" for b
    using assms that by (auto simp: registry_ok_def distinct_map inj_on_def)
  show ?thesis
  proof (intro set_eqI iffI)
    fix x
    assume "x \<in> marked_objects (H\<lparr>hp_allocations := set_marked (al_identity a) (hp_allocations H)\<rparr>)"
    then obtain b where b: "b \<in> set (hp_allocations H)" "x = al_object b"
        "al_identity b = al_identity a \<or> al_marked b"
      by (auto simp: marked_objects_def set_marked_def split: if_splits)
    then show "x \<in> insert (al_object a) (marked_objects H)"
      using same [of b] by (auto simp: marked_objects_def)
  next
    fix x
    assume x: "x \<in> insert (al_object a) (marked_objects H)"
    then obtain b where b: "b \<in> set (hp_allocations H)" "x = al_object b" "al_marked b \<or> b = a"
      using assms(2) by (auto simp: marked_objects_def)
    let ?b = "if al_identity b = al_identity a then b\<lparr>al_marked := True\<rparr> else b"
    have "?b \<in> set (set_marked (al_identity a) (hp_allocations H))" using b(1) by (auto simp: set_marked_def)
    moreover have "al_marked ?b" "al_object ?b = x" using b by auto
    ultimately show "x \<in> marked_objects (H\<lparr>hp_allocations := set_marked (al_identity a) (hp_allocations H)\<rparr>)"
      unfolding marked_objects_def by force
  qed
qed

lemma enqueue_reference_law:
  assumes "mark_state_ok M s"
  shows "\<exists>s'. enqueue_reference r s = Some s' \<and> mark_state_ok M s' \<and>
    erase_marks (fst s') = erase_marks (fst s) \<and> live_objects (fst s') = live_objects (fst s) \<and>
    (if r \<in> live_objects (fst s) - marked_objects (fst s)
     then marked_objects (fst s') = insert r (marked_objects (fst s)) \<and> waiting_objects s' = r # waiting_objects s
     else marked_objects (fst s') = marked_objects (fst s) \<and> waiting_objects s' = waiting_objects s)"
proof -
  obtain H wl where s: "s = (H, wl)" by (cases s)
  from assms s have reg: "registry_ok M H" and wl: "set wl \<subseteq> al_identity ` set (hp_allocations H)"
    by (auto simp: mark_state_ok_def)
  note found = find_allocation_correct [OF reg, of r]
  show ?thesis
  proof (cases "find_object (hp_allocations H) r")
    case None
    then have "r \<notin> live_objects H" by (auto simp: live_objects_def find_None_iff)
    then show ?thesis using found None assms s by (simp add: enqueue_reference_def)
  next
    case (Some a)
    then have a: "a \<in> set (hp_allocations H)" "al_object a = r" by (auto simp: find_Some_iff)
    have same: "b = a" if "b \<in> set (hp_allocations H)" "al_object b = r" for b
      using reg that a by (auto simp: registry_ok_def distinct_map inj_on_def)
    show ?thesis
    proof (cases "al_marked a")
      case True
      then have "r \<in> marked_objects H" using a by (auto simp: marked_objects_def)
      then show ?thesis using found Some True assms s by (simp add: enqueue_reference_def)
    next
      case False
      let ?H = "H\<lparr>hp_allocations := set_marked (al_identity a) (hp_allocations H)\<rparr>"
      have "r \<notin> marked_objects H"
      proof
        assume "r \<in> marked_objects H"
        then obtain b where "b \<in> set (hp_allocations H)" "al_object b = r" "al_marked b"
          by (auto simp: marked_objects_def)
        with same [of b] False show False by simp
      qed
      with a have new: "r \<in> live_objects H - marked_objects H" by (auto simp: live_objects_def)
      have e: "enqueue_reference r (H, wl) = Some (?H, al_identity a # wl)"
        using found Some False by (simp add: enqueue_reference_def)
      have ok: "mark_state_ok M (?H, al_identity a # wl)"
        using registry_ok_marks [OF reg] wl a by (auto simp: mark_state_ok_def set_marked_image)
      have rest: "erase_marks ?H = erase_marks H" "live_objects ?H = live_objects H"
        by (simp_all add: erase_marks_def live_objects_def set_marked_image)
      have "find_identity (hp_allocations H) (al_identity a) = Some a"
        using find_identity_distinct a(1) reg by (simp add: registry_ok_def)
      then have "object_of H (al_identity a) = r" using find_identity_object a(2) by blast
      moreover have "object_of ?H = object_of H" by (simp add: object_of_def fun_eq_iff)
      ultimately have w: "map (object_of ?H) (al_identity a # wl) = r # map (object_of H) wl" by simp
      have m: "marked_objects ?H = insert r (marked_objects H)"
        using marked_objects_set_marked [OF reg a(1)] a(2) by simp
      show ?thesis
        unfolding s fst_conv snd_conv if_P [OF new]
        by (intro exI [of _ "(?H, al_identity a # wl)"] conjI) (simp_all only: fst_conv snd_conv e ok rest m w)
    qed
  qed
qed

interpretation heap_marking: mark_worklist "mark_state_ok M" "\<lambda>s. live_objects (fst s)"
  "\<lambda>s. marked_objects (fst s)" waiting_objects "\<lambda>s. erase_marks (fst s)" enqueue_reference enqueue_references
  for M
  using enqueue_reference_law by unfold_locales (auto split: option.splits)

definition heap_refs :: "Metadata \<Rightarrow> Heap \<Rightarrow> u64 \<Rightarrow> u64 list" where
  "heap_refs M H x =
     (case hp_objects H x of
        None \<Rightarrow> []
      | Some ob \<Rightarrow> (case object_references M ob of Inl _ \<Rightarrow> [] | Inr rs \<Rightarrow> rs))"

lemma object_references_defined:
  "is_heap_object_kind (td_kind (descriptor M (oh_type (ob_header ob)))) \<Longrightarrow>
   \<exists>rs. object_references M ob = Inr rs"
  by (auto simp: is_heap_object_kind_def object_references_def Let_def)

lemma allocation_okE:
  assumes "allocation_ok M H a"
  obtains ob where "hp_objects H (al_object a) = Some ob" "oh_type (ob_header ob) \<noteq> NullType"
    "is_heap_object_kind (td_kind (descriptor M (oh_type (ob_header ob))))"
    "oh_runtime_state (ob_header ob) = Some (al_identity a)" "al_object a \<noteq> 0"
  using assms by (auto simp: allocation_ok_def split: option.splits)

lemma erase_marks_restore:
  assumes "erase_marks H' = erase_marks H"
  shows "H' = H\<lparr>hp_allocations := hp_allocations H'\<rparr>"
proof -
  have "H' = (erase_marks H')\<lparr>hp_allocations := hp_allocations H'\<rparr>" by (simp add: erase_marks_def)
  also have "\<dots> = H\<lparr>hp_allocations := hp_allocations H'\<rparr>" unfolding assms by (simp add: erase_marks_def)
  finally show ?thesis .
qed

lemma mark_loop_correct:
  "heap_marking.traced M L roots (heap_refs M H0) (H, wl) \<Longrightarrow> hp_objects H = hp_objects H0 \<Longrightarrow>
   \<exists>H'. mark_loop M H wl = done_with H' \<and> registry_ok M H' \<and> erase_marks H' = erase_marks H \<and>
     marked_objects H' = {x. reachable L roots (heap_refs M H0) x}"
proof (induction M H wl rule: mark_loop.induct)
  case (1 M H)
  have "mark_state_ok M (H, [])" using "1.prems"(1) unfolding heap_marking.traced_def by blast
  then show ?case using heap_marking.traced_done [OF "1.prems"(1)] by (simp add: mark_state_ok_def)
next
  case (2 M H w wl)
  from "2.prems"(1) have st: "mark_state_ok M (H, w # wl)" "live_objects (fst (H, w # wl)) = L"
    unfolding heap_marking.traced_def by blast+
  then have ok: "registry_ok M H" and L: "live_objects H = L"
      and ids: "w \<in> al_identity ` set (hp_allocations H)" "set wl \<subseteq> al_identity ` set (hp_allocations H)"
    by (auto simp: mark_state_ok_def)
  from ids(1) obtain a where a: "a \<in> set (hp_allocations H)" "al_identity a = w" by auto
  then have fid: "find_identity (hp_allocations H) w = Some a"
    using ok find_identity_distinct by (auto simp: registry_ok_def)
  have "allocation_ok M H a" using ok a by (auto simp: registry_ok_def list_all_iff)
  then obtain ob where ob: "hp_objects H (al_object a) = Some ob" "oh_type (ob_header ob) \<noteq> NullType"
    "is_heap_object_kind (td_kind (descriptor M (oh_type (ob_header ob))))"
    "oh_runtime_state (ob_header ob) = Some (al_identity a)" by (rule allocation_okE)
  from object_references_defined [OF ob(3)] obtain rs where rs: "object_references M ob = Inr rs" ..
  have refs: "heap_refs M H0 (al_object a) = rs"
    using ob(1) rs "2.prems"(2) by (simp add: heap_refs_def)
  have "\<exists>s'. enqueue_references (heap_refs M H0 (al_object a)) (H, wl) = Some s' \<and>
      heap_marking.traced M L roots (heap_refs M H0) s' \<and> erase_marks (fst s') = erase_marks (fst (H, wl))"
    by (rule heap_marking.traced_step [OF "2.prems"(1)])
       (use ok ids L find_identity_object [OF fid] in \<open>auto simp: mark_state_ok_def\<close>)
  then obtain H1 wl1 where s': "enqueue_references rs (H, wl) = Some (H1, wl1)"
      and t: "heap_marking.traced M L roots (heap_refs M H0) (H1, wl1)"
      and er: "erase_marks H1 = erase_marks H"
    unfolding refs by auto
  have objs: "hp_objects H1 = hp_objects H0"
    using arg_cong [OF er, of hp_objects] "2.prems"(2) by (simp add: erase_marks_def)
  have "mark_loop M H (w # wl) = mark_loop M H1 wl1"
    using fid ob rs s' a(2) by simp
  moreover have "\<not> (oh_type (ob_header ob) = NullType \<or> oh_runtime_state (ob_header ob) \<noteq> Some w)"
    using ob a(2) by simp
  from "2.IH" [OF fid ob(1) this rs s' refl t objs] er obtain H'
    where "mark_loop M H1 wl1 = done_with H'" "registry_ok M H'" "erase_marks H' = erase_marks H"
      "marked_objects H' = {x. reachable L roots (heap_refs M H0) x}" by auto
  ultimately show ?case by auto
qed

text \<open>The effect of marking on the registry.\<close>

definition with_marks :: "(u64 \<Rightarrow> bool) \<Rightarrow> ClothAllocation list \<Rightarrow> ClothAllocation list" where
  "with_marks R = map (\<lambda>a. a\<lparr>al_marked := R (al_object a)\<rparr>)"

lemma marks_determined:
  assumes "registry_ok M H'" "erase_marks H' = erase_marks H" "marked_objects H' = {x. R x}"
  shows "H' = H\<lparr>hp_allocations := with_marks R (hp_allocations H)\<rparr>"
proof -
  have mk: "al_marked a \<longleftrightarrow> R (al_object a)" if a: "a \<in> set (hp_allocations H')" for a
  proof -
    have "R (al_object a) \<longleftrightarrow> al_object a \<in> marked_objects H'" using assms(3) by auto
    also have "\<dots> \<longleftrightarrow> al_marked a"
      using assms(1) a by (auto simp: marked_objects_def registry_ok_def distinct_map inj_on_def)
    finally show ?thesis by simp
  qed
  have "a\<lparr>al_marked := R (al_object a)\<rparr> = a" if "a \<in> set (hp_allocations H')" for a
    using mk [OF that] by (cases a) simp
  then have "hp_allocations H' = with_marks R (hp_allocations H')"
    by (simp add: with_marks_def map_idI)
  also have "\<dots> = with_marks R (map (\<lambda>a. a\<lparr>al_marked := False\<rparr>) (hp_allocations H'))"
    by (simp add: with_marks_def o_def)
  also have "map (\<lambda>a. a\<lparr>al_marked := False\<rparr>) (hp_allocations H') = map (\<lambda>a. a\<lparr>al_marked := False\<rparr>) (hp_allocations H)"
    using arg_cong [OF assms(2), of hp_allocations] by (simp add: erase_marks_def)
  also have "with_marks R \<dots> = with_marks R (hp_allocations H)"
    by (simp add: with_marks_def o_def)
  finally show ?thesis using erase_marks_restore [OF assms(2)] by simp
qed

abbreviation survives :: "Metadata \<Rightarrow> Heap \<Rightarrow> u64 list \<Rightarrow> u64 \<Rightarrow> bool" where
  "survives M H roots \<equiv> reachable (live_objects H) roots (heap_refs M H)"

lemma mark_correct:
  assumes "registry_ok M H" "list_all (\<lambda>a. \<not> al_marked a) (hp_allocations H)"
    and "root_references H = Some roots"
  shows "mark_reachable_objects M H = done_with
    (H\<lparr>hp_allocations := with_marks (survives M H roots) (hp_allocations H)\<rparr>)"
proof -
  have "mark_state_ok M (H, [])" using assms(1) by (simp add: mark_state_ok_def)
  moreover have "marked_objects H = {}" using assms(2) by (auto simp: marked_objects_def list_all_iff)
  ultimately obtain H1 wl1 where s: "enqueue_references roots (H, []) = Some (H1, wl1)"
      and t: "heap_marking.traced M (live_objects H) roots (heap_refs M H) (H1, wl1)"
      and er: "erase_marks H1 = erase_marks H"
    using heap_marking.traced_start [of M "(H, [])" roots "heap_refs M H"] by auto
  have "hp_objects H1 = hp_objects H"
    using arg_cong [OF er, of hp_objects] by (simp add: erase_marks_def)
  from mark_loop_correct [OF t this] er obtain H' where H': "mark_loop M H1 wl1 = done_with H'"
      "registry_ok M H'" "erase_marks H' = erase_marks H" "marked_objects H' = {x. survives M H roots x}"
    by auto
  from marks_determined [OF H'(2-4)] H'(1) s assms(3) show ?thesis
    by (simp add: mark_reachable_objects_def)
qed

section \<open>Sweeping\<close>

text \<open>The storage released with an object.\<close>

definition released :: "Metadata \<Rightarrow> Heap \<Rightarrow> ClothAllocation \<Rightarrow> u64 list" where
  "released M H a =
     (case hp_objects H (al_object a) of
        None \<Rightarrow> []
      | Some ob \<Rightarrow>
          (case td_kind (descriptor M (oh_type (ob_header ob))) of
             hkString \<Rightarrow> if st_owns_data (ob_string ob) then [ob_data ob] else []
           | hkArray \<Rightarrow> [ob_data ob]
           | _ \<Rightarrow> []) @ [al_object a])"

lemma destroy_managed_object_ok:
  assumes "allocation_ok M H a"
  shows "destroy_managed_object M H a = done_with
    (H\<lparr>hp_objects := (hp_objects H)(al_object a := None), hp_freed := hp_freed H @ released M H a\<rparr>)"
  using assms
  by (elim allocation_okE) (auto simp: destroy_managed_object_def released_def is_heap_object_kind_def Let_def)

abbreviation total_size :: "ClothAllocation list \<Rightarrow> nat" where
  "total_size as \<equiv> sum_list (map (\<lambda>a. unat (al_size a)) as)"

definition swept :: "Metadata \<Rightarrow> Heap \<Rightarrow> ClothAllocation list \<Rightarrow> Heap" where
  "swept M H dead =
     H\<lparr>hp_objects := (\<lambda>x. if x \<in> al_object ` set dead then None else hp_objects H x),
       hp_freed := hp_freed H @ concat (map (released M H) dead),
       hp_live_object_count := hp_live_object_count H - of_nat (length dead),
       hp_live_byte_count := hp_live_byte_count H - of_nat (total_size dead)\<rparr>"

lemma swept_Nil: "swept M H [] = H"
  by (simp add: swept_def)

lemma allocation_ok_cong:
  "hp_objects H (al_object a) = hp_objects H' (al_object a) \<Longrightarrow> allocation_ok M H a = allocation_ok M H' a"
  by (simp add: allocation_ok_def)

lemma released_cong:
  "hp_objects H (al_object a) = hp_objects H' (al_object a) \<Longrightarrow> released M H a = released M H' a"
  by (simp add: released_def)

lemma swept_Cons:
  assumes "al_object a \<notin> al_object ` set dead"
    and "H' = H\<lparr>hp_live_object_count := hp_live_object_count H - 1,
               hp_live_byte_count := hp_live_byte_count H - al_size a,
               hp_objects := (hp_objects H)(al_object a := None), hp_freed := hp_freed H @ released M H a\<rparr>"
  shows "swept M H' dead = swept M H (a # dead)"
proof -
  have "released M H' d = released M H d" if "d \<in> set dead" for d
  proof -
    have "al_object d \<noteq> al_object a" using that assms(1) by (auto simp: image_iff)
    then show ?thesis using assms(2) by (intro released_cong) simp
  qed
  then have "map (released M H') dead = map (released M H) dead" by simp
  moreover have "(\<lambda>x. if x \<in> al_object ` set dead then None else hp_objects H' x) =
      (\<lambda>x. if x \<in> al_object ` set (a # dead) then None else hp_objects H x)"
    using assms(2) by (auto simp: fun_eq_iff)
  moreover have "hp_live_object_count H' - of_nat (length dead) = hp_live_object_count H - of_nat (length (a # dead))"
    "hp_live_byte_count H' - of_nat (total_size dead) = hp_live_byte_count H - of_nat (total_size (a # dead))"
    "hp_freed H' = hp_freed H @ released M H a"
    using assms(2) by (simp_all add: diff_diff_eq)
  ultimately show ?thesis
    unfolding swept_def using assms(2) by (simp only: list.map concat.simps append_assoc) simp
qed

lemma sweep_loop_ok:
  "distinct (map al_object as) \<Longrightarrow> list_all (allocation_ok M H) as \<Longrightarrow>
   sweep_loop M H as = done_with
     (map (\<lambda>a. a\<lparr>al_marked := False\<rparr>) (filter al_marked as), swept M H (filter (\<lambda>a. \<not> al_marked a) as))"
proof (induction "as" arbitrary: H)
  case Nil
  then show ?case by (simp add: swept_Nil)
next
  case (Cons a "as")
  show ?case
  proof (cases "al_marked a")
    case True
    with Cons show ?thesis by simp
  next
    case False
    let ?H1 = "H\<lparr>hp_live_object_count := hp_live_object_count H - 1,
               hp_live_byte_count := hp_live_byte_count H - al_size a\<rparr>"
    let ?H2 = "?H1\<lparr>hp_objects := (hp_objects H)(al_object a := None), hp_freed := hp_freed H @ released M H a\<rparr>"
    have ok1: "allocation_ok M ?H1 a" using Cons.prems(2) by (simp add: allocation_ok_cong [of ?H1 a H])
    have "released M ?H1 a = released M H a" by (rule released_cong) simp
    with destroy_managed_object_ok [OF ok1] have d: "destroy_managed_object M ?H1 a = done_with ?H2" by simp
    have "list_all (allocation_ok M ?H2) as"
      unfolding list_all_iff
    proof
      fix b
      assume b: "b \<in> set as"
      then have "al_object b \<noteq> al_object a" using Cons.prems(1) by (auto simp: image_iff)
      then have "allocation_ok M ?H2 b = allocation_ok M H b" by (intro allocation_ok_cong) simp
      with Cons.prems(2) b show "allocation_ok M ?H2 b" by (simp add: list_all_iff)
    qed
    with Cons.IH [of ?H2] Cons.prems(1)
    have "sweep_loop M ?H2 as = done_with (map (\<lambda>a. a\<lparr>al_marked := False\<rparr>) (filter al_marked as),
        swept M ?H2 (filter (\<lambda>a. \<not> al_marked a) as))" by simp
    moreover have "swept M ?H2 (filter (\<lambda>a. \<not> al_marked a) as) = swept M H (a # filter (\<lambda>a. \<not> al_marked a) as)"
      by (rule swept_Cons) (use Cons.prems(1) in auto)
    ultimately show ?thesis using False d by simp
  qed
qed

lemma rebuild_index_ok:
  assumes rep: "hp_index H = [] \<or> (\<exists>k. length (hp_index H) = 2 ^ k)" "hp_index H = [] \<longrightarrow> hp_allocations H = []"
    and "distinct (map al_object (hp_allocations H))" "list_all (\<lambda>a. al_object a \<noteq> 0) (hp_allocations H)"
    and "2 * length (hp_allocations H) \<le> length (hp_index H)"
  shows "\<exists>index. rebuild_allocation_index H = done_with (H\<lparr>hp_index := index\<rparr>) \<and>
    index_ok (H\<lparr>hp_index := index\<rparr>) \<and> length index = length (hp_index H)"
proof (cases "hp_index H = []")
  case True
  then show ?thesis using rep(2) by (intro exI [of _ "[]"]) (simp add: rebuild_allocation_index_def index_ok_def)
next
  case False
  with rep(1) obtain k where k: "length (hp_index H) = 2 ^ k" by auto
  have len: "length (empty_index (2 ^ k)) = 2 ^ k" by (simp add: empty_index_def)
  have "\<exists>index. index_insert_all (empty_index (2 ^ k)) (map entry_of (hp_allocations H)) = Some index \<and>
      index_represents index ([] @ map entry_of (hp_allocations H)) \<and> length index = length (empty_index (2 ^ k))"
    by (rule allocation_index.insert_pairs_represents [OF empty_index_represents])
       (use assms(3-5) k len in \<open>auto simp: list_all_iff o_def\<close>)
  then obtain index where index: "index_insert_all (empty_index (2 ^ k)) (map entry_of (hp_allocations H)) = Some index"
      "index_represents index (map entry_of (hp_allocations H))" "length index = 2 ^ k"
    using len by auto
  then have "index \<noteq> []" by auto
  then show ?thesis using index False k assms(5)
    by (intro exI [of _ index])
       (simp add: rebuild_allocation_index_def insert_allocations_eq index_ok_def)
qed

section \<open>The invariant of the heap\<close>

text \<open>
  What holds between the operations of the runtime: the registry is consistent, no mark is set, no
  collection runs, memory holds no other object, the counters are the number and total size of the
  allocations, and the identities in use are below the next one.
\<close>

definition heap_ok :: "Metadata \<Rightarrow> Heap \<Rightarrow> bool" where
  "heap_ok M H \<longleftrightarrow>
     registry_ok M H \<and> list_all (\<lambda>a. \<not> al_marked a) (hp_allocations H) \<and> \<not> hp_collection_in_progress H \<and>
     dom (hp_objects H) = live_objects H \<and>
     unat (hp_live_object_count H) = length (hp_allocations H) \<and>
     unat (hp_live_byte_count H) = total_size (hp_allocations H) \<and>
     list_all (\<lambda>a. al_identity a < hp_next_allocation_identity H) (hp_allocations H) \<and>
     hp_live_byte_count H \<le> hp_peak_live_byte_count H \<and>
     kInitialCollectionThreshold \<le> hp_collection_threshold H"

lemma initial_heap_ok: "heap_ok M (initial_heap frames slots)"
  by (simp add: heap_ok_def initial_heap_def registry_ok_def index_ok_def live_objects_def)

lemma filter_with_marks:
  "list_all (\<lambda>a. \<not> al_marked a) as \<Longrightarrow>
   map (\<lambda>a. a\<lparr>al_marked := False\<rparr>) (filter al_marked (with_marks R as)) = filter (\<lambda>a. R (al_object a)) as"
proof (induction "as")
  case (Cons a "as")
  moreover from Cons.prems have "a\<lparr>al_marked := False\<rparr> = a" by (cases a) simp
  ultimately show ?case by (simp add: with_marks_def)
qed (simp add: with_marks_def)

lemma filter_unmarked_with_marks:
  "filter (\<lambda>a. \<not> al_marked a) (with_marks R as) = with_marks R (filter (\<lambda>a. \<not> R (al_object a)) as)"
  by (induction "as") (auto simp: with_marks_def)

lemma released_with_marks:
  "map (released M H) (with_marks R as) = map (released M H) as"
proof -
  have "released M H (a\<lparr>al_marked := m\<rparr>) = released M H a" for a m
    by (simp add: released_def split: option.splits)
  then show ?thesis by (simp add: with_marks_def)
qed

lemma total_size_with_marks: "total_size (with_marks R as) = total_size as"
  by (simp add: with_marks_def o_def)

lemma total_size_filter: "total_size (filter P as) + total_size (filter (\<lambda>a. \<not> P a) as) = total_size as"
  by (induction "as") auto

lemma word_diff_of_nat:
  fixes w :: "'a::len word"
  assumes "unat w = m + n"
  shows "unat (w - of_nat n) = m"
proof -
  have "w = of_nat (m + n)" using assms by (metis of_nat_unat ucast_id)
  then have "w - of_nat n = of_nat m" by simp
  moreover have "unat w < 2 ^ LENGTH('a)" by simp
  then have "m < 2 ^ LENGTH('a)" using assms by simp
  ultimately show ?thesis by (simp add: unat_of_nat)
qed

lemma index_ok_cong:
  "hp_index H = hp_index H' \<Longrightarrow> hp_allocations H = hp_allocations H' \<Longrightarrow> index_ok H = index_ok H'"
  by (simp only: index_ok_def)

lemma registry_ok_filter:
  assumes "registry_ok M H" and idx: "index_ok H'" and as: "hp_allocations H' = filter P (hp_allocations H)"
    and objs: "\<And>a. a \<in> set (hp_allocations H) \<Longrightarrow> P a \<Longrightarrow> hp_objects H' (al_object a) = hp_objects H (al_object a)"
  shows "registry_ok M H'"
proof -
  have "list_all (allocation_ok M H') (hp_allocations H')"
    unfolding list_all_iff
  proof
    fix a
    assume "a \<in> set (hp_allocations H')"
    then have a: "a \<in> set (hp_allocations H)" "P a" using as by auto
    then have "allocation_ok M H' a = allocation_ok M H a" using objs by (intro allocation_ok_cong)
    with a assms(1) show "allocation_ok M H' a" by (auto simp: registry_ok_def list_all_iff)
  qed
  then show ?thesis using assms(1) idx as by (auto simp: registry_ok_def distinct_map_filter)
qed

definition collected :: "Metadata \<Rightarrow> Heap \<Rightarrow> u64 list \<Rightarrow> Heap \<Rightarrow> bool" where
  "collected M H roots H' \<longleftrightarrow>
     hp_allocations H' = filter (\<lambda>a. survives M H roots (al_object a)) (hp_allocations H) \<and>
     (\<forall>x. hp_objects H' x = (if survives M H roots x then hp_objects H x else None)) \<and>
     hp_freed H' = hp_freed H @
       concat (map (released M H) (filter (\<lambda>a. \<not> survives M H roots (al_object a)) (hp_allocations H))) \<and>
     hp_frames H' = hp_frames H \<and> hp_slots H' = hp_slots H \<and>
     hp_current_root_frame H' = hp_current_root_frame H \<and>
     hp_next_allocation_identity H' = hp_next_allocation_identity H \<and>
     hp_collection_count H' =
       (if hp_collection_count H = max_u64 then max_u64 else hp_collection_count H + 1)"

lemma survives_live: "survives M H roots x \<Longrightarrow> x \<in> live_objects H"
  by (auto elim: reachable.cases)

lemma sweep_correct:
  assumes reg: "registry_ok M H"
  defines "kept \<equiv> map (\<lambda>a. a\<lparr>al_marked := False\<rparr>) (filter al_marked (hp_allocations H))"
    and "dead \<equiv> filter (\<lambda>a. \<not> al_marked a) (hp_allocations H)"
  shows "\<exists>index. sweep_unreachable_objects M H =
      done_with ((swept M H dead)\<lparr>hp_allocations := kept, hp_index := index\<rparr>) \<and>
    index_ok ((swept M H dead)\<lparr>hp_allocations := kept, hp_index := index\<rparr>)"
proof -
  let ?H2 = "(swept M H dead)\<lparr>hp_allocations := kept\<rparr>"
  have "sweep_loop M H (hp_allocations H) = done_with (kept, swept M H dead)"
    using reg by (simp add: sweep_loop_ok registry_ok_def kept_def dead_def)
  then have sweep: "sweep_unreachable_objects M H = rebuild_allocation_index ?H2"
    by (simp add: sweep_unreachable_objects_def)
  have idx: "hp_index ?H2 = hp_index H" by (simp add: swept_def)
  have "\<exists>index. rebuild_allocation_index ?H2 = done_with (?H2\<lparr>hp_index := index\<rparr>) \<and>
      index_ok (?H2\<lparr>hp_index := index\<rparr>) \<and> length index = length (hp_index ?H2)"
  proof (rule rebuild_index_ok)
    show "hp_index ?H2 = [] \<or> (\<exists>k. length (hp_index ?H2) = 2 ^ k)"
      using reg by (auto simp: idx registry_ok_def index_ok_def index_represents_def split: if_splits)
    show "hp_index ?H2 = [] \<longrightarrow> hp_allocations ?H2 = []"
      using reg unfolding idx by (auto simp: registry_ok_def index_ok_def kept_def)
    show "distinct (map al_object (hp_allocations ?H2))"
      using reg by (simp add: registry_ok_def kept_def o_def distinct_map_filter)
    show "list_all (\<lambda>a. al_object a \<noteq> 0) (hp_allocations ?H2)"
      using reg by (auto simp: registry_ok_def list_all_iff allocation_ok_def kept_def)
    have "2 * length kept \<le> 2 * length (hp_allocations H)"
      using length_filter_le by (auto simp: kept_def intro: mult_left_mono)
    moreover have "2 * length (hp_allocations H) \<le> length (hp_index H)"
      using reg by (auto simp: registry_ok_def index_ok_def split: if_splits)
    ultimately have "2 * length kept \<le> length (hp_index H)" by (rule le_trans)
    then show "2 * length (hp_allocations ?H2) \<le> length (hp_index ?H2)" by (simp add: idx)
  qed
  then show ?thesis unfolding sweep by auto
qed

lemma filtered_heap_ok:
  assumes ok: "heap_ok M H" and as: "hp_allocations H' = filter (\<lambda>a. P (al_object a)) (hp_allocations H)"
    and objs: "\<And>x. hp_objects H' x = (if P x \<and> x \<in> live_objects H then hp_objects H x else None)"
    and idx: "index_ok H'"
    and cnt: "hp_live_object_count H' =
      hp_live_object_count H - of_nat (length (filter (\<lambda>a. \<not> P (al_object a)) (hp_allocations H)))"
    and bytes: "hp_live_byte_count H' =
      hp_live_byte_count H - of_nat (total_size (filter (\<lambda>a. \<not> P (al_object a)) (hp_allocations H)))"
    and rest: "hp_next_allocation_identity H' = hp_next_allocation_identity H" "\<not> hp_collection_in_progress H'"
      "hp_peak_live_byte_count H' = hp_peak_live_byte_count H" "kInitialCollectionThreshold \<le> hp_collection_threshold H'"
  shows "heap_ok M H'"
proof -
  have "registry_ok M H'"
    by (rule registry_ok_filter [OF _ idx as]) (use ok objs in \<open>auto simp: heap_ok_def live_objects_def\<close>)
  moreover have "dom (hp_objects H') = live_objects H'"
    using ok by (auto simp: heap_ok_def dom_def objs as live_objects_def split: if_splits)
  moreover have "unat (hp_live_object_count H') = length (hp_allocations H')"
    unfolding cnt as
    by (rule word_diff_of_nat)
       (use ok sum_length_filter_compl [of "\<lambda>a. P (al_object a)" "hp_allocations H"] in \<open>simp add: heap_ok_def\<close>)
  moreover have bs: "unat (hp_live_byte_count H') = total_size (hp_allocations H')"
    unfolding bytes as
    by (rule word_diff_of_nat)
       (use ok total_size_filter [of "\<lambda>a. P (al_object a)" "hp_allocations H"] in \<open>simp add: heap_ok_def\<close>)
  moreover have "hp_live_byte_count H' \<le> hp_peak_live_byte_count H'"
  proof -
    have "total_size (hp_allocations H') \<le> total_size (hp_allocations H)"
      using total_size_filter [of "\<lambda>a. P (al_object a)" "hp_allocations H"] as by simp
    then have "unat (hp_live_byte_count H') \<le> unat (hp_live_byte_count H)" using bs ok by (simp add: heap_ok_def)
    then show ?thesis using ok rest(3) by (simp add: heap_ok_def word_le_nat_alt)
  qed
  moreover have "list_all (\<lambda>a. \<not> al_marked a \<and> al_identity a < hp_next_allocation_identity H) (hp_allocations H')"
    using ok by (auto simp: heap_ok_def list_all_iff as)
  ultimately show ?thesis using rest by (simp add: heap_ok_def list_all_iff)
qed

lemma collect_heap_correct:
  assumes ok: "heap_ok M H" and fr: "root_references H = Some roots"
  shows "\<exists>H'. collect_heap M H = done_with H' \<and> heap_ok M H' \<and> collected M H roots H' \<and>
    hp_collection_threshold H' = max kInitialCollectionThreshold (saturating_double (hp_live_byte_count H'))"
proof -
  let ?R = "survives M H roots"
  let ?as = "hp_allocations H"
  let ?kept = "filter (\<lambda>a. ?R (al_object a)) ?as"
  let ?dead = "filter (\<lambda>a. \<not> ?R (al_object a)) ?as"
  let ?H0 = "H\<lparr>hp_collection_in_progress := True\<rparr>"
  let ?H1 = "?H0\<lparr>hp_allocations := with_marks ?R ?as\<rparr>"
  from ok have reg: "registry_ok M H" and um: "list_all (\<lambda>a. \<not> al_marked a) ?as" by (auto simp: heap_ok_def)
  have aok: "allocation_ok M ?H0 = allocation_ok M H" by (auto simp: allocation_ok_def fun_eq_iff)
  then have reg0: "registry_ok M ?H0" using reg index_ok_cong [of ?H0 H] by (simp add: registry_ok_def)
  have "live_objects ?H0 = live_objects H" "heap_refs M ?H0 = heap_refs M H"
    by (simp_all add: live_objects_def heap_refs_def fun_eq_iff)
  then have mark: "mark_reachable_objects M ?H0 = done_with ?H1"
    using mark_correct [OF reg0, of roots] um fr by simp
  have reg1: "registry_ok M ?H1"
  proof -
    have "allocation_ok M ?H1 = allocation_ok M H" by (auto simp: allocation_ok_def fun_eq_iff)
    then show ?thesis using reg
      by (simp add: registry_ok_def index_ok_def with_marks_def o_def list_all_iff)
  qed
  let ?dm = "with_marks ?R ?dead"
  from sweep_correct [OF reg1] obtain index where
    sweep: "sweep_unreachable_objects M ?H1 = done_with ((swept M ?H1 ?dm)\<lparr>hp_allocations := ?kept, hp_index := index\<rparr>)"
    and iok: "index_ok ((swept M ?H1 ?dm)\<lparr>hp_allocations := ?kept, hp_index := index\<rparr>)"
    by (auto simp: filter_with_marks [OF um] filter_unmarked_with_marks)
  let ?H3 = "(swept M ?H1 ?dm)\<lparr>hp_allocations := ?kept, hp_index := index\<rparr>"
  let ?H4 = "?H3\<lparr>hp_collection_count :=
                   (if hp_collection_count ?H3 \<noteq> max_u64 then hp_collection_count ?H3 + 1 else hp_collection_count ?H3),
                 hp_collection_threshold := max kInitialCollectionThreshold (saturating_double (hp_live_byte_count ?H3)),
                 hp_collection_in_progress := False\<rparr>"
  have coll: "collect_heap M H = done_with ?H4"
    using ok mark sweep by (simp add: collect_heap_def heap_ok_def)
  have dead_objs: "al_object ` set ?dm = live_objects H - {x. ?R x}"
  proof -
    have "al_object ` set ?dm = al_object ` set ?dead" by (simp add: with_marks_def image_image)
    then show ?thesis by (auto simp: live_objects_def)
  qed
  have none: "hp_objects H x = None" if "x \<notin> live_objects H" for x using ok that by (auto simp: heap_ok_def)
  have objs: "hp_objects ?H4 x = (if ?R x then hp_objects H x else None)" for x
    using none survives_live [where M = M and H = H and roots = roots and x = x] by (auto simp: swept_def dead_objs)
  have "released M ?H1 = released M H" by (rule ext, rule released_cong) simp
  then have freed: "hp_freed ?H4 = hp_freed H @ concat (map (released M H) ?dead)"
    by (simp add: swept_def released_with_marks)
  have len: "length ?dm = length ?dead" by (simp add: with_marks_def)
  have "heap_ok M ?H4"
    by (rule filtered_heap_ok [OF ok, where P = ?R])
       (use objs iok index_ok_cong [of ?H4 ?H3] none len in \<open>simp_all add: swept_def total_size_with_marks\<close>)
  moreover have "collected M H roots ?H4"
    unfolding collected_def using objs freed by (simp add: swept_def)
  moreover have "hp_collection_threshold ?H4 =
      max kInitialCollectionThreshold (saturating_double (hp_live_byte_count ?H4))" by simp
  ultimately show ?thesis using coll by blast
qed

section \<open>Allocating\<close>

lemma grow_capacity_ends:
  "\<exists>r. grow_capacity n (2 ^ k) = Some r \<and> (\<forall>c. r = Inr c \<longrightarrow> (\<exists>j. c = 2 ^ j) \<and> n \<le> c div 2) \<and>
     (\<forall>e. r = Inl e \<longrightarrow> e = ''managed allocation index is too large'' \<and> 2 ^ 58 < n)"
proof (induction "60 - k" arbitrary: k)
  case 0
  then have k: "60 \<le> k" by simp
  then have "(2::nat) ^ 60 \<le> 2 ^ k" by (rule power_increasing) simp
  then have "maximum_capacity div 2 < 2 ^ k" "(2::nat) ^ 58 \<le> 2 ^ k div 2" by (simp_all add: maximum_capacity_def)
  then show ?case by (subst grow_capacity.simps) auto
next
  case (Suc d)
  have "grow_capacity n (2 ^ k * 2) = grow_capacity n (2 ^ Suc k)" by (simp add: mult.commute)
  moreover from Suc(2) have "d = 60 - Suc k" by simp
  from Suc(1) [OF this] obtain r where r: "grow_capacity n (2 ^ Suc k) = Some r"
      "\<forall>c. r = Inr c \<longrightarrow> (\<exists>j. c = 2 ^ j) \<and> n \<le> c div 2"
      "\<forall>e. r = Inl e \<longrightarrow> e = ''managed allocation index is too large'' \<and> 2 ^ 58 < n" by blast
  moreover have "2 ^ 58 < n" if "2 ^ k div 2 < n" "maximum_capacity div 2 < 2 ^ k"
  proof -
    have "k > 58"
    proof (rule ccontr)
      assume "\<not> k > 58"
      then have "(2::nat) ^ k \<le> 2 ^ 58" by (intro power_increasing) simp_all
      then show False using that(2) by (simp add: maximum_capacity_def)
    qed
    then have "(2::nat) ^ 59 \<le> 2 ^ k" by (intro power_increasing) simp_all
    then have "(2::nat) ^ 58 \<le> 2 ^ k div 2" by simp
    with that(1) show ?thesis by simp
  qed
  ultimately show ?case by (subst grow_capacity.simps) auto
qed

definition index_room :: "ClothAllocationIndexEntry list \<Rightarrow> ClothAllocation list \<Rightarrow> nat \<Rightarrow> bool" where
  "index_room index as n \<longleftrightarrow> index_represents index (map entry_of as) \<and> n \<le> length index div 2"

text \<open>Reserving fails only when the system has no memory for the table.\<close>

lemma reserve_allocation_index_ok:
  assumes idx: "index_ok H" and "distinct (map al_object (hp_allocations H))"
    and "list_all (\<lambda>a. al_object a \<noteq> 0) (hp_allocations H)" and n: "n = length (hp_allocations H) + 1"
  shows "\<exists>r. reserve_allocation_index A H n = Some r \<and>
    (\<forall>H'. r = Inr H' \<longrightarrow> (\<exists>index. H' = H\<lparr>hp_index := index\<rparr> \<and> index_room index (hp_allocations H) n)) \<and>
    (\<forall>e. r = Inl e \<longrightarrow> e = ''managed allocation index is too large'' \<and> 2 ^ 58 < n \<or>
       e = ''managed allocation index failed'' \<and> (\<exists>c. \<not> am_calloc A H c))"
proof (cases "n \<le> length (hp_index H) div 2")
  case True
  then have "hp_index H \<noteq> []" using n by auto
  then have "index_room (hp_index H) (hp_allocations H) n"
    using True idx by (simp add: index_ok_def index_room_def)
  moreover have "reserve_allocation_index A H n = done_with H"
    using True by (simp add: reserve_allocation_index_def)
  ultimately show ?thesis by (intro exI [of _ "Inr H"]) (auto intro: exI [of _ "hp_index H"])
next
  case False
  have "\<exists>k. max kInitialAllocationIndexCapacity (length (hp_index H)) = 2 ^ k"
  proof (cases "hp_index H = []")
    case True
    then show ?thesis by (intro exI [of _ 6]) (simp add: kInitialAllocationIndexCapacity_def)
  next
    case False
    then obtain k where "length (hp_index H) = 2 ^ k"
      using idx by (auto simp: index_ok_def index_represents_def)
    moreover have "kInitialAllocationIndexCapacity = 2 ^ 6" by (simp add: kInitialAllocationIndexCapacity_def)
    ultimately show ?thesis by (metis max_def)
  qed
  then obtain k where k: "max kInitialAllocationIndexCapacity (length (hp_index H)) = 2 ^ k" ..
  obtain r where r: "grow_capacity n (2 ^ k) = Some r" "\<forall>c. r = Inr c \<longrightarrow> (\<exists>j. c = 2 ^ j) \<and> n \<le> c div 2"
      "\<forall>e. r = Inl e \<longrightarrow> e = ''managed allocation index is too large'' \<and> 2 ^ 58 < n" using grow_capacity_ends by blast
  show ?thesis
  proof (cases r)
    case (Inl e)
    then show ?thesis using False k r by (simp add: reserve_allocation_index_def)
  next
    case (Inr c)
    with r(2) obtain j where j: "c = 2 ^ j" "n \<le> c div 2" by blast
    show ?thesis
    proof (cases "am_calloc A H c")
      case False: False
      then show ?thesis using \<open>\<not> n \<le> length (hp_index H) div 2\<close> k r(1) Inr
        by (auto simp: reserve_allocation_index_def)
    next
      case True
      have len: "length (empty_index c) = c" by (simp add: empty_index_def)
      have "\<exists>index. index_insert_all (empty_index c) (map entry_of (hp_allocations H)) = Some index \<and>
          index_represents index ([] @ map entry_of (hp_allocations H)) \<and> length index = length (empty_index c)"
        unfolding j(1)
        by (rule allocation_index.insert_pairs_represents [OF empty_index_represents])
           (use assms(2,3) n j len in \<open>auto simp: list_all_iff o_def\<close>)
      then obtain index where index: "index_insert_all (empty_index c) (map entry_of (hp_allocations H)) = Some index"
          "index_represents index (map entry_of (hp_allocations H))" "length index = c"
        using len by auto
      have "reserve_allocation_index A H n = done_with (H\<lparr>hp_index := index\<rparr>)"
        using \<open>\<not> n \<le> length (hp_index H) div 2\<close> k r(1) Inr True index(1)
        by (simp add: reserve_allocation_index_def insert_allocations_eq)
      moreover have "index_room index (hp_allocations H) n" using index j by (simp add: index_room_def)
      ultimately show ?thesis by blast
    qed
  qed
qed

abbreviation owned_by :: "u64 \<Rightarrow> HeapObject \<Rightarrow> HeapObject" where
  "owned_by identity ob \<equiv> ob\<lparr>ob_header := (ob_header ob)\<lparr>oh_runtime_state := Some identity\<rparr>\<rparr>"

text \<open>A heap that differs from an earlier one by a new object, registered with its size.\<close>

definition allocated :: "Heap \<Rightarrow> u64 \<Rightarrow> HeapObject \<Rightarrow> u64 \<Rightarrow> Heap \<Rightarrow> bool" where
  "allocated H object ob sz H' \<longleftrightarrow>
     hp_allocations H' = \<lparr>al_object = object, al_size = sz, al_identity = hp_next_allocation_identity H,
                          al_marked = False\<rparr> # hp_allocations H \<and>
     hp_objects H' = (hp_objects H)(object \<mapsto> owned_by (hp_next_allocation_identity H) ob) \<and>
     hp_next_allocation_identity H' = hp_next_allocation_identity H + 1 \<and>
     hp_frames H' = hp_frames H \<and> hp_slots H' = hp_slots H \<and> hp_freed H' = hp_freed H \<and>
     hp_current_root_frame H' = hp_current_root_frame H \<and>
     hp_collection_count H' = hp_collection_count H"

definition object_type_ok :: "Metadata \<Rightarrow> HeapObject \<Rightarrow> bool" where
  "object_type_ok M ob \<longleftrightarrow>
     oh_type (ob_header ob) \<noteq> NullType \<and> is_heap_object_kind (td_kind (descriptor M (oh_type (ob_header ob))))"

lemma unat_plus_one: "(w::u64) \<noteq> max_u64 \<Longrightarrow> unat (w + 1) = unat w + 1"
proof -
  assume "w \<noteq> max_u64"
  moreover have "w = max_u64" if "w + 1 = 0"
  proof -
    have "w = - 1" using that by (simp add: eq_neg_iff_add_eq_0)
    also have "\<dots> = max_u64" by simp
    finally show ?thesis .
  qed
  ultimately have "w + 1 \<noteq> 0" by blast
  then show ?thesis by (simp add: unatSuc add.commute)
qed

lemma register_ok_heap:
  assumes ok: "heap_ok M H" and new: "object \<notin> live_objects H" "object \<noteq> 0"
    and ob: "object_type_ok M ob" and room: "index_room index (hp_allocations H) (length (hp_allocations H) + 1)"
    and ids: "hp_next_allocation_identity H \<noteq> max_u64" and cnt: "hp_live_object_count H \<noteq> max_u64"
    and bytes: "unat (hp_live_byte_count H) + unat sz < 2 ^ 64"
    and a: "a = \<lparr>al_object = object, al_size = sz, al_identity = hp_next_allocation_identity H, al_marked = False\<rparr>"
    and ins: "index_insert index (object, al_identity a) = Some index'"
    and rep: "index_represents index' (entry_of a # map entry_of (hp_allocations H))" "length index' = length index"
    and H': "H' = (set_object object (owned_by (al_identity a) ob)
                    (H\<lparr>hp_next_allocation_identity := hp_next_allocation_identity H + 1,
                       hp_allocations := a # hp_allocations H, hp_index := index',
                       hp_live_object_count := hp_live_object_count H + 1,
                       hp_live_byte_count := hp_live_byte_count H + sz,
                       hp_peak_live_byte_count := max (hp_peak_live_byte_count H) (hp_live_byte_count H + sz)\<rparr>))"
  shows "heap_ok M H'"
proof -
  from ok have reg: "registry_ok M H" by (simp add: heap_ok_def)
  have lo: "al_object ` set (hp_allocations H) = live_objects H" by (simp add: live_objects_def)
  have idlt: "al_identity b < hp_next_allocation_identity H" if "b \<in> set (hp_allocations H)" for b
    using ok that by (simp add: heap_ok_def list_all_iff)
  have idneq: "hp_next_allocation_identity H \<notin> al_identity ` set (hp_allocations H)"
    using idlt by (metis imageE less_irrefl)
  have idsuc: "unat (hp_next_allocation_identity H + 1) = unat (hp_next_allocation_identity H) + 1"
    using ids by (rule unat_plus_one)
  have all_ok: "list_all (allocation_ok M H') (hp_allocations H')"
  proof -
    have "allocation_ok M H' a" using ob new(2) by (simp add: H' a allocation_ok_def object_type_ok_def)
    moreover have "allocation_ok M H' b" if b: "b \<in> set (hp_allocations H)" for b
    proof -
      have "al_object b \<noteq> object" using new(1) lo b by auto
      then have "allocation_ok M H' b = allocation_ok M H b" by (intro allocation_ok_cong) (simp add: H')
      then show ?thesis using reg b by (simp add: registry_ok_def list_all_iff)
    qed
    ultimately show ?thesis by (simp add: H' list_all_iff)
  qed
  have "index' \<noteq> []" using rep(2) room by (auto simp: index_room_def)
  moreover have "2 * (length (hp_allocations H) + 1) \<le> length index'"
  proof -
    have "length (hp_allocations H) + 1 \<le> length index' div 2" using rep(2) room by (simp add: index_room_def)
    then show ?thesis by (simp add: less_eq_div_iff_mult_less_eq)
  qed
  ultimately have "index_ok H'"
    using rep(1) unfolding index_ok_def by (simp add: H')
  then have "registry_ok M H'"
    using reg all_ok new(1) lo idneq by (simp add: registry_ok_def H' a)
  moreover have "dom (hp_objects H') = live_objects H'"
    using ok by (simp add: heap_ok_def H' live_objects_def a)
  moreover have "unat (hp_live_object_count H') = length (hp_allocations H')"
    using ok unat_plus_one [OF cnt] by (simp add: heap_ok_def H')
  moreover have "unat (hp_live_byte_count H') = total_size (hp_allocations H')"
    using ok bytes unat_add_lem [of "hp_live_byte_count H" sz] by (simp add: heap_ok_def H' a)
  moreover have "list_all (\<lambda>b. al_identity b < hp_next_allocation_identity H') (hp_allocations H')"
  proof -
    have "b < hp_next_allocation_identity H + 1" if "b \<le> hp_next_allocation_identity H" for b
      using that idsuc by (simp add: word_less_nat_alt word_le_nat_alt)
    then show ?thesis using idlt by (auto simp: H' a list_all_iff intro: less_imp_le)
  qed
  moreover have "hp_live_byte_count H' \<le> hp_peak_live_byte_count H'" by (simp add: H')
  ultimately show ?thesis using ok by (simp add: heap_ok_def H' a)
qed

lemma register_allocation_ok:
  assumes ok: "heap_ok M H" and new: "object \<notin> live_objects H" "object \<noteq> 0"
    and ob: "object_type_ok M ob" and bytes: "unat (hp_live_byte_count H) + unat sz < 2 ^ 64"
  shows "\<exists>r. register_allocation A (set_object object ob H) object sz = Some r \<and>
    (\<forall>H'. r = Inr H' \<longrightarrow> heap_ok M H' \<and> allocated H object ob sz H') \<and>
    (\<forall>e. r = Inl e \<longrightarrow>
       e \<in> {''managed object count overflow'', ''managed allocation index is too large''} \<and>
         2 ^ 58 < length (hp_allocations H) + 1 \<or>
       e = ''managed allocation identity overflow'' \<and> hp_next_allocation_identity H = max_u64 \<or>
       e = ''managed allocation index failed'' \<and> (\<exists>h c. \<not> am_calloc A h c) \<or>
       e = ''managed allocation registry failed'' \<and> (\<exists>h. \<not> am_malloc A h))"
proof (cases "hp_live_object_count H = max_u64 \<or> hp_next_allocation_identity H = max_u64")
  case True
  have "2 ^ 58 < length (hp_allocations H) + 1" if "hp_live_object_count H = max_u64"
    using ok that by (simp add: heap_ok_def)
  then show ?thesis using True by (auto simp: register_allocation_def)
next
  case False
  let ?H = "set_object object ob H"
  let ?as = "hp_allocations H"
  have reg: "registry_ok M H" using ok by (simp add: heap_ok_def)
  have n: "unat (hp_live_object_count ?H + 1) = length (hp_allocations ?H) + 1"
    using ok unat_plus_one [of "hp_live_object_count H"] False by (simp add: heap_ok_def)
  have "index_ok ?H" using reg index_ok_cong [of ?H H] by (simp add: registry_ok_def)
  note reserve = reserve_allocation_index_ok [OF this _ _ n, of A]
  have as: "hp_allocations ?H = ?as" by simp
  have "distinct (map al_object ?as)" "list_all (\<lambda>a. al_object a \<noteq> 0) ?as"
    using reg by (auto simp: registry_ok_def list_all_iff allocation_ok_def)
  from reserve [unfolded n as, OF this] obtain r
    where r: "reserve_allocation_index A ?H (length ?as + 1) = Some r"
      "\<forall>H'. r = Inr H' \<longrightarrow> (\<exists>index. H' = ?H\<lparr>hp_index := index\<rparr> \<and> index_room index ?as (length ?as + 1))"
      "\<forall>e. r = Inl e \<longrightarrow> e = ''managed allocation index is too large'' \<and> 2 ^ 58 < length ?as + 1 \<or>
         e = ''managed allocation index failed'' \<and> (\<exists>c. \<not> am_calloc A ?H c)" by (elim exE conjE)
  note n = n [unfolded as]
  show ?thesis
  proof (cases r)
    case (Inl e)
    with r(3) have "e = ''managed allocation index is too large'' \<and> 2 ^ 58 < length ?as + 1 \<or>
         e = ''managed allocation index failed'' \<and> (\<exists>h c. \<not> am_calloc A h c)" by blast
    moreover have "register_allocation A ?H object sz = abort e"
      using False r(1) n Inl by (simp add: register_allocation_def)
    ultimately show ?thesis by auto
  next
    case (Inr H1)
    from r(2) Inr obtain index where H1: "H1 = ?H\<lparr>hp_index := index\<rparr>"
        and room: "index_room index ?as (length ?as + 1)" by blast
    show ?thesis
    proof (cases "am_malloc A H1")
      case False: False
      then show ?thesis using r(1) n Inr \<open>\<not> (hp_live_object_count H = max_u64 \<or> hp_next_allocation_identity H = max_u64)\<close>
        by (auto simp: register_allocation_def)
    next
      case True
      define a where "a = \<lparr>al_object = object, al_size = sz, al_identity = hp_next_allocation_identity H, al_marked = False\<rparr>"
      have "length (map entry_of ?as) < length index" using room by (auto simp: index_room_def)
      from allocation_index.insert_represents [OF _ this, of object "al_identity a"] room new
      obtain index' where ins: "index_insert index (object, al_identity a) = Some index'"
          and rep: "index_represents index' ((object, al_identity a) # map entry_of ?as)" "length index' = length index"
        by (auto simp: index_room_def live_objects_def image_image)
      let ?H' = "set_object object (owned_by (al_identity a) ob)
                    (H\<lparr>hp_next_allocation_identity := hp_next_allocation_identity H + 1,
                       hp_allocations := a # ?as, hp_index := index',
                       hp_live_object_count := hp_live_object_count H + 1,
                       hp_live_byte_count := hp_live_byte_count H + sz,
                       hp_peak_live_byte_count := max (hp_peak_live_byte_count H) (hp_live_byte_count H + sz)\<rparr>)"
      have "heap_ok M ?H'"
        by (rule register_ok_heap [OF ok new ob room _ _ bytes a_def ins _ rep(2) refl])
           (use False rep(1) in \<open>auto simp: a_def\<close>)
      moreover have "register_allocation A ?H object sz = done_with ?H'"
        using False r(1) n Inr True ins
        by (simp add: register_allocation_def H1 insert_allocation_index_eq a_def Let_def)
      moreover have "allocated H object ob sz ?H'" by (simp add: allocated_def a_def)
      ultimately show ?thesis by blast
    qed
  qed
qed

lemma no_heap_overflow: "\<not> (sz::u64) > max_u64 - l \<longleftrightarrow> unat l + unat sz < 2 ^ 64"
proof -
  have "unat l < 2 ^ LENGTH(64)" by (rule unsigned_less)
  then have l: "unat l \<le> unat max_u64" by simp
  have "l \<le> max_u64" using l by (simp add: word_le_nat_alt)
  then have "unat (max_u64 - l) = unat max_u64 - unat l" by (simp add: unat_sub)
  then show ?thesis using l by (auto simp: word_less_nat_alt not_less)
qed

lemma collect_roots: "collect_heap M H = done_with H' \<Longrightarrow> \<exists>roots. root_references H = Some roots"
  by (auto simp: collect_heap_def mark_reachable_objects_def split: if_splits option.splits)

lemma collect_before_ok:
  assumes ok: "heap_ok M H" and fr: "root_references H = Some roots"
  shows "\<exists>r. collect_before_allocation M H sz = Some r \<and>
    (\<forall>H'. r = Inr H' \<longrightarrow> heap_ok M H' \<and> (H' = H \<or> collected M H roots (H'\<lparr>hp_collection_threshold := th\<rparr>)) \<and>
       unat (hp_live_byte_count H') + unat sz < 2 ^ 64) \<and>
    (\<forall>e. r = Inl e \<longrightarrow> e = ''managed heap size overflow'' \<and> 2 ^ 64 \<le> unat (hp_live_byte_count H) + unat sz)"
proof -
  consider (over) "2 ^ 64 \<le> unat (hp_live_byte_count H) + unat sz"
    | (small) "unat (hp_live_byte_count H) + unat sz < 2 ^ 64" "hp_live_byte_count H + sz \<le> hp_collection_threshold H"
    | (big) "unat (hp_live_byte_count H) + unat sz < 2 ^ 64" "\<not> hp_live_byte_count H + sz \<le> hp_collection_threshold H"
    by linarith
  then show ?thesis
  proof cases
    case over
    then have "sz > max_u64 - hp_live_byte_count H" using no_heap_overflow [of "hp_live_byte_count H" sz] by linarith
    then show ?thesis using over by (simp add: collect_before_allocation_def)
  next
    case small
    then show ?thesis using ok no_heap_overflow [of "hp_live_byte_count H" sz] by (simp add: collect_before_allocation_def)
  next
    case big
    from collect_heap_correct [OF ok fr] obtain H1 where H1: "collect_heap M H = done_with H1" "heap_ok M H1"
        "collected M H roots H1" by blast
    have "unat (hp_live_byte_count H1) \<le> unat (hp_live_byte_count H)"
      using H1 ok total_size_filter [of "\<lambda>a. survives M H roots (al_object a)" "hp_allocations H"]
      by (simp add: heap_ok_def collected_def)
    then have fit: "unat (hp_live_byte_count H1) + unat sz < 2 ^ 64" using big(1) by simp
    have upd: "heap_ok M (H1\<lparr>hp_collection_threshold := max kInitialCollectionThreshold t\<rparr>)" for t
    proof -
      have "registry_ok M (H1\<lparr>hp_collection_threshold := x\<rparr>) = registry_ok M H1" for x
        by (simp add: registry_ok_def index_ok_cong [of "H1\<lparr>hp_collection_threshold := x\<rparr>" H1]
            allocation_ok_def list_all_iff)
      then show ?thesis using H1(2) by (simp add: heap_ok_def live_objects_def)
    qed
    have col: "collected M H roots (H1\<lparr>hp_collection_threshold := t\<rparr>)" for t
      using H1(3) by (simp add: collected_def)
    have step: "collect_before_allocation M H sz =
        done_with (if hp_live_byte_count H1 + sz > hp_collection_threshold H1
          then H1\<lparr>hp_collection_threshold := max kInitialCollectionThreshold (saturating_double (hp_live_byte_count H1 + sz))\<rparr>
          else H1)"
      using big fit no_heap_overflow [of "hp_live_byte_count H" sz] no_heap_overflow [of "hp_live_byte_count H1" sz] H1(1)
      by (simp add: collect_before_allocation_def Let_def)
    show ?thesis unfolding step using H1(2) upd col fit by auto
  qed
qed

lemma collect_before_done:
  assumes ok: "heap_ok M H" and cb: "collect_before_allocation M H sz = done_with H1"
  shows "heap_ok M H1 \<and> unat (hp_live_byte_count H1) + unat sz < 2 ^ 64 \<and>
    (H1 = H \<or> (\<exists>roots. root_references H = Some roots \<and> collected M H roots H1))"
proof (cases "root_references H")
  case None
  then have "H1 = H" "unat (hp_live_byte_count H) + unat sz < 2 ^ 64"
    using cb no_heap_overflow [of "hp_live_byte_count H" sz]
    by (auto simp: collect_before_allocation_def collect_heap_def mark_reachable_objects_def split: if_splits)
  then show ?thesis using ok by simp
next
  case (Some roots)
  from collect_before_ok [OF ok Some, of sz "hp_collection_threshold H1"] cb Some show ?thesis by auto
qed

section \<open>Allocation keeps the invariant\<close>

text \<open>
  The system's allocator returns null or the address of storage that is not in use.
\<close>

definition allocator_ok :: "Allocator \<Rightarrow> bool" where
  "allocator_ok A \<longleftrightarrow>
     (\<forall>H sz alignment. am_memalign A H sz alignment \<noteq> 0 \<longrightarrow> hp_objects H (am_memalign A H sz alignment) = None)"

text \<open>
  The outcome of an allocation: \<open>x\<close> is a new object \<open>ob\<close> of the given size, in the heap as it was or
  after a collection.
\<close>

definition new_object :: "Metadata \<Rightarrow> Heap \<Rightarrow> u64 \<Rightarrow> HeapObject \<Rightarrow> u64 \<Rightarrow> Heap \<Rightarrow> bool" where
  "new_object M H x ob sz H' \<longleftrightarrow>
     (\<exists>H1. heap_ok M H1 \<and> (H1 = H \<or> (\<exists>roots. root_references H = Some roots \<and> collected M H roots H1)) \<and>
           x \<noteq> 0 \<and> x \<notin> live_objects H1 \<and> allocated H1 x ob sz H')"

lemma allocate_aligned_fresh:
  assumes "allocate_aligned A H sz al msg = done_with x" "allocator_ok A" "heap_ok M H"
  shows "x \<noteq> 0" "x \<notin> live_objects H"
proof -
  have x: "x = am_memalign A H (max sz 1) (max al 8)" "x \<noteq> 0"
    using assms(1) by (auto simp: allocate_aligned_def Let_def split: if_splits)
  then have "hp_objects H x = None" using assms(2) unfolding allocator_ok_def by metis
  then show "x \<noteq> 0" "x \<notin> live_objects H" using x assms(3) by (auto simp: heap_ok_def)
qed

lemma allocate_finish:
  assumes "allocator_ok A" "heap_ok M H" "collect_before_allocation M H sz = done_with H1"
    and "allocate_aligned A H1 hs al msg = done_with x" "object_type_ok M ob"
    and "register_allocation A (set_object x ob H1) x sz = done_with H'"
  shows "heap_ok M H' \<and> new_object M H x ob sz H'"
proof -
  from collect_before_done [OF assms(2,3)]
  have H1: "heap_ok M H1" "unat (hp_live_byte_count H1) + unat sz < 2 ^ 64"
    "H1 = H \<or> (\<exists>roots. root_references H = Some roots \<and> collected M H roots H1)" by auto
  from allocate_aligned_fresh [OF assms(4,1) H1(1)] have x: "x \<noteq> 0" "x \<notin> live_objects H1" .
  from register_allocation_ok [OF H1(1) x(2,1) assms(5) H1(2), of A] assms(6)
  have "heap_ok M H'" "allocated H1 x ob sz H'" by auto
  then show ?thesis using H1 x unfolding new_object_def by blast
qed

lemma run_bind_doneE:
  assumes "run_bind m f = done_with y"
  obtains x where "m = done_with x" "f x = done_with y"
  using assms by (auto simp: run_bind_def split: option.splits sum.splits)

lemma cloth_rt_alloc_new:
  assumes "allocator_ok A" "heap_ok M H" "cloth_rt_alloc A M H t = done_with (x, H')"
  shows "heap_ok M H' \<and> type_valid M t \<and>
    new_object M H x (zero_object\<lparr>ob_header := \<lparr>oh_type = t, oh_runtime_state = None\<rparr>\<rparr>)
      (of_nat (td_size (descriptor M t))) H'"
proof -
  have v: "type_valid M t" using assms(3) by (cases "validate_type_descriptor M t") (auto simp: cloth_rt_alloc_def)
  let ?ob = "zero_object\<lparr>ob_header := \<lparr>oh_type = t, oh_runtime_state = None\<rparr>\<rparr>"
  have "object_type_ok M ?ob"
    using v type_valid_not_null [OF v]
    by (auto simp: object_type_ok_def validate_type_descriptor_def Let_def split: if_splits)
  moreover from assms(3) v obtain H1 where "collect_before_allocation M H (of_nat (td_size (descriptor M t))) = done_with H1"
      "allocate_aligned A H1 (td_size (descriptor M t)) (td_alignment (descriptor M t)) ''object allocation failed'' = done_with x"
      "register_allocation A (set_object x ?ob H1) x (of_nat (td_size (descriptor M t))) = done_with H'"
    by (auto simp: cloth_rt_alloc_def Let_def elim!: run_bind_doneE)
  ultimately show ?thesis using allocate_finish [OF assms(1,2)] v by blast
qed

lemma string_object_ok: "object_type_ok M (string_object d c b s w)"
  by (simp add: object_type_ok_def string_object_def is_heap_object_kind_def kStringTypeDescriptor_def)

lemma allocate_borrowed_string_new:
  assumes "allocator_ok A" "heap_ok M H"
    and "allocate_borrowed_string A M H address contents byte_size scalar_count = done_with (x, H')"
  shows "heap_ok M H' \<and> new_object M H x (string_object address contents byte_size scalar_count False)
    (of_nat sizeof_ClothString) H'"
  using assms(3) allocate_finish [OF assms(1,2) _ _ string_object_ok]
  by (auto simp: allocate_borrowed_string_def elim!: run_bind_doneE)

lemma allocate_owned_string_new:
  assumes "allocator_ok A" "heap_ok M H"
    and "allocate_owned_string A M H data byte_size scalar_count = done_with (x, H')"
  shows "heap_ok M H' \<and> byte_size \<le> kMaximumStringSize \<and> scalar_count \<le> kMaximumStringSize \<and>
    (\<exists>d. new_object M H x (string_object d (Some (take byte_size data)) byte_size scalar_count True)
      (of_nat (sizeof_ClothString + byte_size)) H')"
  using assms(3) allocate_finish [OF assms(1,2) _ _ string_object_ok]
  by (fastforce simp: allocate_owned_string_def Let_def split: if_splits elim!: run_bind_doneE)

lemma allocate_concatenated_string_new:
  assumes "allocator_ok A" "heap_ok M H" "allocate_concatenated_string A M H left right = done_with (x, H')"
  shows "heap_ok M H' \<and>
    (\<exists>d. new_object M H x
      (string_object d (Some (take (st_byte_size left) (bytes_of (st_data left)) @
                              take (st_byte_size right) (bytes_of (st_data right))))
         (st_byte_size left + st_byte_size right) (st_scalar_count left + st_scalar_count right) True)
      (of_nat (sizeof_ClothString + (st_byte_size left + st_byte_size right))) H')"
  using assms(3) allocate_finish [OF assms(1,2) _ _ string_object_ok]
  by (fastforce simp: allocate_concatenated_string_def Let_def split: if_splits elim!: run_bind_doneE)

definition array_object :: "u64 \<Rightarrow> nat \<Rightarrow> ClothArrayElementLayout \<Rightarrow> HeapObject" where
  "array_object data len e =
     zero_object\<lparr>ob_header := \<lparr>oh_type = ArrayType, oh_runtime_state = None\<rparr>, ob_data := data,
       ob_length := len, ob_element_size := ae_size e, ob_element := Some e\<rparr>"

lemma cloth_rt_array_alloc_new:
  assumes "allocator_ok A" "heap_ok M H" "cloth_rt_array_alloc A M H len element = done_with (x, H')"
  shows "heap_ok M H' \<and> 0 \<le> len \<and>
    (\<exists>e d. element = Some e \<and> validate_element_layout e = Inr () \<and>
       new_object M H x (array_object d (nat len) e) (of_nat (sizeof_ClothArray + nat len * ae_size e)) H')"
proof -
  have ob: "object_type_ok M (array_object d n e)" for d n e
    by (simp add: object_type_ok_def array_object_def is_heap_object_kind_def kArrayTypeDescriptor_def)
  from assms(3) obtain e where e: "element = Some e" "0 \<le> len"
    by (auto simp: cloth_rt_array_alloc_def split: if_splits option.splits)
  have v: "validate_element_layout e = Inr ()"
    using assms(3) e by (cases "validate_element_layout e") (auto simp: cloth_rt_array_alloc_def)
  from assms(3) e v obtain H1 d where
      "collect_before_allocation M H (of_nat (sizeof_ClothArray + nat len * ae_size e)) = done_with H1"
      "allocate_aligned A H1 sizeof_ClothArray 8 ''array header allocation failed'' = done_with x"
      "register_allocation A (set_object x (array_object d (nat len) e) H1) x
         (of_nat (sizeof_ClothArray + nat len * ae_size e)) = done_with H'"
    unfolding array_object_def
    by (auto simp: cloth_rt_array_alloc_def Let_def split: if_splits elim!: run_bind_doneE)
  with allocate_finish [OF assms(1,2) _ _ ob] e v show ?thesis by blast
qed

section \<open>Runs of a program\<close>

text \<open>
  What a program does with the heap: it allocates, collects, enters and leaves frames, and writes
  references into objects, arrays and stack slots.
\<close>

inductive heap_step :: "Allocator \<Rightarrow> Metadata \<Rightarrow> Heap \<Rightarrow> Heap \<Rightarrow> bool" for A M where
  alloc: "cloth_rt_alloc A M H t = done_with (x, H') \<Longrightarrow> heap_step A M H H'"
| borrowed: "allocate_borrowed_string A M H address contents b s = done_with (x, H') \<Longrightarrow> heap_step A M H H'"
| owned: "allocate_owned_string A M H data b s = done_with (x, H') \<Longrightarrow> heap_step A M H H'"
| concatenated: "allocate_concatenated_string A M H left right = done_with (x, H') \<Longrightarrow> heap_step A M H H'"
| array: "cloth_rt_array_alloc A M H len element = done_with (x, H') \<Longrightarrow> heap_step A M H H'"
| collect: "cloth_rt_gc_collect M H = done_with H' \<Longrightarrow> heap_step A M H H'"
| push: "cloth_rt_gc_push_frame H frame roots n = Inr H' \<Longrightarrow> heap_step A M H H'"
| pop: "cloth_rt_gc_pop_frame H frame = Inr H' \<Longrightarrow> heap_step A M H H'"
| write_word: "hp_objects H x = Some ob \<Longrightarrow> heap_step A M H (set_object x (ob\<lparr>ob_words := (ob_words ob)(i := r)\<rparr>) H)"
| write_cell: "hp_objects H x = Some ob \<Longrightarrow> heap_step A M H (set_object x (ob\<lparr>ob_cells := (ob_cells ob)(i := r)\<rparr>) H)"
| write_slot: "heap_step A M H (H\<lparr>hp_slots := (hp_slots H)(slot := r)\<rparr>)"

inductive heap_run :: "Allocator \<Rightarrow> Metadata \<Rightarrow> Heap \<Rightarrow> bool" for A M where
  start: "heap_run A M (initial_heap frames slots)"
| step: "heap_run A M H \<Longrightarrow> heap_step A M H H' \<Longrightarrow> heap_run A M H'"

lemma heap_ok_same_registry:
  assumes "heap_ok M H" "hp_allocations H' = hp_allocations H" "hp_index H' = hp_index H"
    "hp_live_object_count H' = hp_live_object_count H" "hp_live_byte_count H' = hp_live_byte_count H"
    "hp_next_allocation_identity H' = hp_next_allocation_identity H"
    "hp_peak_live_byte_count H' = hp_peak_live_byte_count H"
    "hp_collection_threshold H' = hp_collection_threshold H" "\<not> hp_collection_in_progress H'"
    and objs: "\<And>x. map_option ob_header (hp_objects H' x) = map_option ob_header (hp_objects H x)"
  shows "heap_ok M H'"
proof -
  have "allocation_ok M H' a = allocation_ok M H a" for a
    using objs [of "al_object a"] by (auto simp: allocation_ok_def split: option.splits)
  then have "registry_ok M H'"
    using assms(1-3) index_ok_cong [of H' H] by (simp add: heap_ok_def registry_ok_def list_all_iff)
  moreover have "dom (hp_objects H') = dom (hp_objects H)"
    using objs by (auto simp: dom_def) (metis option.map_disc_iff option.distinct(1) not_None_eq)+
  ultimately show ?thesis using assms by (simp add: heap_ok_def live_objects_def)
qed

lemma heap_step_ok:
  assumes A: "allocator_ok A" and ok: "heap_ok M H" and "heap_step A M H H'"
  shows "heap_ok M H'"
  using assms(3) ok
proof (cases rule: heap_step.cases)
  case (alloc t x)
  then show ?thesis using cloth_rt_alloc_new [OF A ok] by blast
next
  case (borrowed address contents b s x)
  then show ?thesis using allocate_borrowed_string_new [OF A ok] by blast
next
  case (owned data b s x)
  then show ?thesis using allocate_owned_string_new [OF A ok] by blast
next
  case (concatenated left right x)
  then show ?thesis using allocate_concatenated_string_new [OF A ok] by blast
next
  case (array len element x)
  then show ?thesis using cloth_rt_array_alloc_new [OF A ok] by blast
next
  case collect
  then have c: "collect_heap M H = done_with H'" by (simp add: cloth_rt_gc_collect_def)
  from collect_roots [OF c] obtain roots where "root_references H = Some roots" ..
  from collect_heap_correct [OF ok this] c show ?thesis by auto
next
  case (push frame roots n)
  then show ?thesis using ok
    by (intro heap_ok_same_registry [OF ok]) (auto simp: cloth_rt_gc_push_frame_def heap_ok_def split: if_splits)
next
  case (pop frame)
  then show ?thesis using ok
    by (intro heap_ok_same_registry [OF ok]) (auto simp: cloth_rt_gc_pop_frame_def heap_ok_def split: if_splits)
next
  case (write_word x ob i r)
  then show ?thesis using ok by (intro heap_ok_same_registry [OF ok]) (auto simp: heap_ok_def)
next
  case (write_cell x ob i r)
  then show ?thesis using ok by (intro heap_ok_same_registry [OF ok]) (auto simp: heap_ok_def)
next
  case (write_slot slot r)
  then show ?thesis using ok by (intro heap_ok_same_registry [OF ok]) (auto simp: heap_ok_def)
qed

lemma heap_run_ok: "allocator_ok A \<Longrightarrow> heap_run A M H \<Longrightarrow> heap_ok M H"
  by (rotate_tac, induction rule: heap_run.induct) (auto simp: initial_heap_ok intro: heap_step_ok)

section \<open>Root frames\<close>

text \<open>The frames linked from a pointer, innermost first.\<close>

fun frame_chain :: "(u64 \<Rightarrow> ClothGcRootFrame) \<Rightarrow> u64 \<Rightarrow> u64 list \<Rightarrow> bool" where
  "frame_chain frames f [] \<longleftrightarrow> f = 0"
| "frame_chain frames f (g # gs) \<longleftrightarrow> f = g \<and> f \<noteq> 0 \<and> g \<notin> set gs \<and> frame_chain frames (rf_previous (frames f)) gs"

definition frame_slots :: "ClothGcRootFrame \<Rightarrow> u64 list" where
  "frame_slots f = cells (rf_roots f) (rf_root_count f)"

lemma frame_chain_references:
  "frame_chain frames f gs \<Longrightarrow> frame_references frames slots f = Some (concat (map (\<lambda>g. map slots (frame_slots (frames g))) gs))"
proof (induction gs arbitrary: f)
  case Nil
  then show ?case by (subst frame_references.simps) simp
next
  case (Cons g gs)
  then have g: "f = g" "g \<noteq> 0" "frame_chain frames (rf_previous (frames g)) gs" by auto
  from Cons.IH [OF g(3)] g show ?case by (subst frame_references.simps) (simp add: frame_slots_def)
qed

lemma frame_chain_update:
  "g \<notin> set gs \<Longrightarrow> frame_chain (frames(g := r)) f gs = frame_chain frames f gs"
  by (induction gs arbitrary: f) auto

lemma frame_slots_update:
  "g \<notin> set gs \<Longrightarrow>
   map (\<lambda>h. map slots (frame_slots (if h = g then r else frames h))) gs = map (\<lambda>h. map slots (frame_slots (frames h))) gs"
  by (induction gs) auto

section \<open>Properties\<close>

text \<open>A system allocator with one block, and a heap with one object that nothing refers to.\<close>

definition sample_allocator :: Allocator where
  "sample_allocator =
     \<lparr>am_memalign = \<lambda>H sz alignment. if hp_objects H 4096 = None then 4096 else 0,
      am_calloc = \<lambda>H n. True, am_malloc = \<lambda>H. True\<rparr>"

abbreviation sample_start :: Heap where
  "sample_start \<equiv> initial_heap (\<lambda>_. \<lparr>rf_previous = 0, rf_roots = None, rf_root_count = 0\<rparr>) (\<lambda>_. 0)"

lemma sample_allocator_ok: "allocator_ok sample_allocator"
  by (simp add: allocator_ok_def sample_allocator_def)

lemma sample_alloc:
  "\<exists>H. cloth_rt_alloc sample_allocator sample_metadata sample_start ObjectType = done_with (4096, H)"
proof -
  let ?ob = "zero_object\<lparr>ob_header := \<lparr>oh_type = ObjectType, oh_runtime_state = None\<rparr>\<rparr>"
  have size: "td_size (descriptor sample_metadata ObjectType) = 16" "td_alignment (descriptor sample_metadata ObjectType) = 8"
    by (simp_all add: cloth_rt_object_type_def sizeof_ClothObjectHeader_def)
  have cb: "collect_before_allocation sample_metadata sample_start 16 = done_with sample_start"
    by (simp add: collect_before_allocation_def initial_heap_def kInitialCollectionThreshold_def)
  have al: "allocate_aligned sample_allocator sample_start 16 8 msg = done_with 4096" for msg
    using sample_power_of_two by (simp add: allocate_aligned_def sample_allocator_def initial_heap_def Let_def)
  have ob: "object_type_ok sample_metadata ?ob"
    by (simp add: object_type_ok_def is_heap_object_kind_def cloth_rt_object_type_def)
  have new: "(4096 :: u64) \<notin> live_objects sample_start" "(4096 :: u64) \<noteq> 0"
    "unat (hp_live_byte_count sample_start) + unat (16 :: u64) < 2 ^ 64"
    by (simp_all add: live_objects_def initial_heap_def)
  have "\<exists>H. register_allocation sample_allocator (set_object 4096 ?ob sample_start) 4096 16 = done_with H"
    using register_allocation_ok [OF initial_heap_ok new(1,2) ob new(3), of sample_allocator]
  proof (elim exE conjE)
    fix r
    assume r: "register_allocation sample_allocator (set_object 4096 ?ob sample_start) 4096 16 = Some r"
      and e: "\<forall>e. r = Inl e \<longrightarrow>
       e \<in> {''managed object count overflow'', ''managed allocation index is too large''} \<and>
         2 ^ 58 < length (hp_allocations sample_start) + 1 \<or>
       e = ''managed allocation identity overflow'' \<and> hp_next_allocation_identity sample_start = max_u64 \<or>
       e = ''managed allocation index failed'' \<and> (\<exists>h c. \<not> am_calloc sample_allocator h c) \<or>
       e = ''managed allocation registry failed'' \<and> (\<exists>h. \<not> am_malloc sample_allocator h)"
    have "\<nexists>e. r = Inl e" using e by (simp add: sample_allocator_def initial_heap_def)
    then show ?thesis using r by (cases r) auto
  qed
  then show ?thesis using sample_types_valid(1) cb al size by (auto simp: cloth_rt_alloc_def Let_def)
qed

text \<open>
  C30: In every state that a run of the program reaches, whatever the order of allocations,
  collections, frames and writes, and whatever memory the system hands out, the registry is exact:
  the index finds the allocation of an address precisely when the address is a live object, no two
  allocations share an object or an identity, memory holds no object that is not registered, the
  object and byte counters are the number and total size of the allocations, at most half of the
  index is in use, and no mark is left over.
\<close>

theorem heap_invariant:
  assumes "allocator_ok A" "heap_run A M H"
  shows "(\<forall>x. find_allocation H x = Some (find (\<lambda>a. al_object a = x) (hp_allocations H))) \<and>
    distinct (map al_object (hp_allocations H)) \<and> distinct (map al_identity (hp_allocations H)) \<and>
    dom (hp_objects H) = al_object ` set (hp_allocations H) \<and>
    unat (cloth_rt_gc_live_objects H) = length (hp_allocations H) \<and>
    unat (cloth_rt_gc_live_bytes H) = sum_list (map (\<lambda>a. unat (al_size a)) (hp_allocations H)) \<and>
    cloth_rt_gc_live_bytes H \<le> cloth_rt_gc_peak_live_bytes H \<and>
    2 * length (hp_allocations H) \<le> length (hp_index H) \<and>
    filter al_marked (hp_allocations H) = []"
proof -
  have ok: "heap_ok M H" by (rule heap_run_ok [OF assms])
  then have reg: "registry_ok M H" by (simp add: heap_ok_def)
  have "2 * length (hp_allocations H) \<le> length (hp_index H)"
    using reg by (auto simp: registry_ok_def index_ok_def split: if_splits)
  moreover have "filter al_marked (hp_allocations H) = []"
    using ok by (simp add: heap_ok_def filter_empty_conv list_all_iff)
  ultimately show ?thesis
    using ok find_allocation_correct [OF reg]
    by (simp add: heap_ok_def registry_ok_def live_objects_def cloth_rt_gc_live_objects_def
        cloth_rt_gc_live_bytes_def cloth_rt_gc_peak_live_bytes_def)
qed

theorem heap_invariant_witness:
  "\<exists>H. heap_run sample_allocator sample_metadata H \<and> hp_objects H 4096 \<noteq> None \<and>
     4096 \<in> al_object ` set (hp_allocations H)"
proof -
  from sample_alloc obtain H where H: "cloth_rt_alloc sample_allocator sample_metadata sample_start ObjectType = done_with (4096, H)" ..
  then have run: "heap_run sample_allocator sample_metadata H"
    by (intro heap_run.step [OF heap_run.start] heap_step.alloc)
  have "hp_objects H 4096 \<noteq> None"
    using cloth_rt_alloc_new [OF sample_allocator_ok initial_heap_ok H] by (auto simp: new_object_def allocated_def)
  moreover from this have "4096 \<in> al_object ` set (hp_allocations H)"
    using heap_invariant [OF sample_allocator_ok run] by auto
  ultimately show ?thesis using run by blast
qed

text \<open>
  What the objects hold, apart from the marking loop: \<open>x\<close> holds \<open>y\<close> in a word at a reference offset of its type, or,
  when it is an array, in an element at a reference offset of the element type.
\<close>

definition holds_reference :: "Metadata \<Rightarrow> Heap \<Rightarrow> u64 \<Rightarrow> u64 \<Rightarrow> bool" where
  "holds_reference M H x y \<longleftrightarrow>
     (\<exists>ob d element. hp_objects H x = Some ob \<and> d = descriptor M (oh_type (ob_header ob)) \<and>
        element = the (ob_element ob) \<and>
        (td_kind d \<in> {hkFileClass, hkError, hkValueBox} \<and>
           (\<exists>offset \<in> set (cells (td_reference_offsets d) (td_reference_count d)). y = ob_words ob offset) \<or>
         td_kind d = hkArray \<and>
           (\<exists>i < ob_length ob. \<exists>offset \<in> set (cells (ae_reference_offsets element) (ae_reference_count element)).
              y = ob_cells ob (i * ob_element_size ob + offset))))"

inductive held :: "Metadata \<Rightarrow> Heap \<Rightarrow> u64 list \<Rightarrow> u64 \<Rightarrow> bool" for M H roots where
  held_root: "r \<in> set roots \<Longrightarrow> r \<in> live_objects H \<Longrightarrow> held M H roots r"
| held_slot: "held M H roots x \<Longrightarrow> holds_reference M H x y \<Longrightarrow> y \<in> live_objects H \<Longrightarrow> held M H roots y"

lemma heap_refs_holds: "y \<in> set (heap_refs M H x) \<longleftrightarrow> holds_reference M H x y"
  by (cases "hp_objects H x")
    (auto simp: heap_refs_def holds_reference_def object_references_def Let_def split: ClothHeapObjectKind.splits)

lemma held_eq: "held M H roots x \<longleftrightarrow> reachable (live_objects H) roots (heap_refs M H) x"
proof
  assume "held M H roots x"
  then show "reachable (live_objects H) roots (heap_refs M H) x"
    by induction (auto intro: reachable.intros simp: heap_refs_holds)
next
  assume "reachable (live_objects H) roots (heap_refs M H) x"
  then show "held M H roots x"
    by induction (auto intro: held.intros simp: heap_refs_holds)
qed

text \<open>
  C31: A collection in a reachable state whose frames form a chain always finishes, and keeps exactly
  the objects that the roots lead to through the reference slots of the objects on the way, as their
  type descriptors and array elements list them: their
  allocations in the same order and their contents unchanged. Every other object is released once,
  with its own data, and the counters and the collection count follow.
\<close>

theorem collection_exact:
  assumes "allocator_ok A" "heap_run A M H" "root_references H = Some roots"
  shows "\<exists>H'. cloth_rt_gc_collect M H = done_with H' \<and>
    hp_allocations H' =
      filter (\<lambda>a. held M H roots (al_object a)) (hp_allocations H) \<and>
    (\<forall>x. hp_objects H' x =
      (if held M H roots x then hp_objects H x else None)) \<and>
    hp_freed H' = hp_freed H @ concat (map (released M H)
      (filter (\<lambda>a. \<not> held M H roots (al_object a)) (hp_allocations H))) \<and>
    unat (cloth_rt_gc_live_objects H') = length (hp_allocations H') \<and>
    unat (cloth_rt_gc_live_bytes H') = sum_list (map (\<lambda>a. unat (al_size a)) (hp_allocations H')) \<and>
    cloth_rt_gc_collection_count H' =
      (if cloth_rt_gc_collection_count H = 0xFFFFFFFFFFFFFFFF then 0xFFFFFFFFFFFFFFFF
       else cloth_rt_gc_collection_count H + 1) \<and>
    root_references H' = Some roots"
proof -
  have ok: "heap_ok M H" by (rule heap_run_ok [OF assms(1,2)])
  from collect_heap_correct [OF ok assms(3)] obtain H'
    where "collect_heap M H = done_with H'" "heap_ok M H'" "collected M H roots H'" by blast
  then show ?thesis using assms(3)
    by (intro exI [of _ H'])
       (simp add: held_eq collected_def heap_ok_def cloth_rt_gc_collect_def cloth_rt_gc_live_objects_def
         cloth_rt_gc_live_bytes_def cloth_rt_gc_collection_count_def)
qed

lemma nothing_held: "\<not> held M H [] x"
proof
  assume "held M H [] x"
  then show False by induction auto
qed

theorem collection_exact_witness:
  "\<exists>H H'. hp_objects H 4096 \<noteq> None \<and> cloth_rt_gc_collect sample_metadata H = done_with H' \<and>
     hp_objects H' 4096 = None \<and> hp_allocations H' = []"
proof -
  from sample_alloc obtain H where H: "cloth_rt_alloc sample_allocator sample_metadata sample_start ObjectType = done_with (4096, H)" ..
  then have run: "heap_run sample_allocator sample_metadata H"
    by (intro heap_run.step [OF heap_run.start] heap_step.alloc)
  have new: "hp_objects H 4096 \<noteq> None \<and> hp_current_root_frame H = 0"
    using cloth_rt_alloc_new [OF sample_allocator_ok initial_heap_ok H]
    by (auto simp: new_object_def allocated_def collected_def initial_heap_def)
  then have "root_references H = Some []" by (subst frame_references.simps) simp
  from collection_exact [OF sample_allocator_ok run this] new show ?thesis
    by (auto simp: nothing_held)
qed

text \<open>The messages of \<open>register_allocation\<close>.\<close>

definition registry_messages :: "string set" where
  "registry_messages =
     {''managed object count overflow'', ''managed allocation identity overflow'',
      ''managed allocation index is too large'', ''managed allocation index failed'',
      ''managed allocation registry failed''}"

lemma register_allocation_messages:
  assumes "heap_ok M H" "object \<notin> live_objects H" "object \<noteq> 0" "object_type_ok M ob"
    and "unat (hp_live_byte_count H) + unat sz < 2 ^ 64"
  obtains H' where "register_allocation A (set_object object ob H) object sz = done_with H'"
  | e where "register_allocation A (set_object object ob H) object sz = abort e"
    "e \<in> registry_messages"
  using register_allocation_ok [OF assms, of A]
proof (elim exE conjE)
  fix r
  assume r: "register_allocation A (set_object object ob H) object sz = Some r"
    and e: "\<forall>e. r = Inl e \<longrightarrow>
       e \<in> {''managed object count overflow'', ''managed allocation index is too large''} \<and>
         2 ^ 58 < length (hp_allocations H) + 1 \<or>
       e = ''managed allocation identity overflow'' \<and> hp_next_allocation_identity H = max_u64 \<or>
       e = ''managed allocation index failed'' \<and> (\<exists>h c. \<not> am_calloc A h c) \<or>
       e = ''managed allocation registry failed'' \<and> (\<exists>h. \<not> am_malloc A h)"
  show thesis
  proof (cases r)
    case (Inl m)
    from e [rule_format, OF Inl] have "m \<in> registry_messages"
      by (elim disjE conjE) (simp_all only: registry_messages_def insert_iff empty_iff simp_thms, elim disjE, simp_all only: simp_thms)
    then show thesis using Inl r by (intro that(2)) simp
  next
    case (Inr H')
    then show thesis using r by (intro that(1)) simp
  qed
qed

text \<open>
  C32: Allocating an object always finishes. It returns the address of a new cleared object of the
  requested type, at an address that no live object has, in the heap as it was or as an exact
  collection left it; or it aborts because the type's descriptor is invalid or because memory, the
  index or a counter is exhausted, never because of the state of the heap.
\<close>

theorem allocation_correct:
  assumes "allocator_ok A" "heap_run A M H" "root_references H = Some roots"
  shows "\<exists>r. cloth_rt_alloc A M H t = Some r \<and>
    (case r of
       Inr (x, H') \<Rightarrow> validate_type_descriptor M t = Inr () \<and>
         new_object M H x (zero_object\<lparr>ob_header := \<lparr>oh_type = t, oh_runtime_state = None\<rparr>\<rparr>)
           (of_nat (td_size (descriptor M t))) H'
     | Inl e \<Rightarrow> validate_type_descriptor M t = Inl e \<or>
         e \<in> {''managed heap size overflow'', ''object allocation failed''} \<union> registry_messages)"
proof (cases "validate_type_descriptor M t")
  case (Inl e)
  then show ?thesis by (simp add: cloth_rt_alloc_def)
next
  case (Inr u)
  then have v: "type_valid M t" by simp
  let ?d = "descriptor M t"
  let ?sz = "of_nat (td_size ?d) :: u64"
  let ?ob = "zero_object\<lparr>ob_header := \<lparr>oh_type = t, oh_runtime_state = None\<rparr>\<rparr>"
  let ?alloc = "\<lambda>H. allocate_aligned A H (td_size ?d) (td_alignment ?d) ''object allocation failed''"
  have ok: "heap_ok M H" by (rule heap_run_ok [OF assms(1,2)])
  have ob: "object_type_ok M ?ob" and pow: "is_power_of_two (td_alignment ?d)"
    using v type_valid_not_null [OF v]
    by (auto simp: object_type_ok_def validate_type_descriptor_def Let_def split: if_splits)
  have eq: "cloth_rt_alloc A M H t =
      run_bind (collect_before_allocation M H ?sz) (\<lambda>H1. run_bind (?alloc H1) (\<lambda>x.
      run_bind (register_allocation A (set_object x ?ob H1) x ?sz) (\<lambda>H2. done_with (x, H2))))"
    using v by (simp add: cloth_rt_alloc_def Let_def)
  from collect_before_ok [OF ok assms(3), of ?sz] obtain r1 where r1: "collect_before_allocation M H ?sz = Some r1"
      "\<forall>e. r1 = Inl e \<longrightarrow> e = ''managed heap size overflow''" by blast
  show ?thesis
  proof (cases r1)
    case (Inl e)
    then have "cloth_rt_alloc A M H t = abort e" "e = ''managed heap size overflow''"
      using r1 unfolding eq by simp_all
    then show ?thesis by simp
  next
    case H1: (Inr H1)
    from collect_before_done [OF ok, of ?sz H1] r1(1) H1 have
      ok1: "heap_ok M H1" and fit: "unat (hp_live_byte_count H1) + unat ?sz < 2 ^ 64" by auto
    show ?thesis
    proof (cases "am_memalign A H1 (max (td_size ?d) 1) (max (td_alignment ?d) 8) = 0")
      case True
      then have "?alloc H1 = abort ''object allocation failed''" using pow by (simp add: allocate_aligned_def)
      then have "cloth_rt_alloc A M H t = abort ''object allocation failed''" using r1(1) H1 unfolding eq by simp
      then show ?thesis by simp
    next
      case False
      then obtain x where x: "?alloc H1 = done_with x" using pow by (simp add: allocate_aligned_def Let_def)
      from allocate_aligned_fresh [OF x assms(1) ok1] have "x \<notin> live_objects H1" "x \<noteq> 0" by auto
      then show ?thesis
      proof (rule register_allocation_messages [OF ok1 _ _ ob fit, of x A])
        fix H2
        assume "register_allocation A (set_object x ?ob H1) x ?sz = done_with H2"
        then have d: "cloth_rt_alloc A M H t = done_with (x, H2)" using r1(1) H1 x unfolding eq by simp
        with cloth_rt_alloc_new [OF assms(1) ok d] show ?thesis by simp
      next
        fix e
        assume "register_allocation A (set_object x ?ob H1) x ?sz = abort e"
        then have "cloth_rt_alloc A M H t = abort e" using r1(1) H1 x unfolding eq by simp
        moreover assume "e \<in> registry_messages"
        ultimately show ?thesis by (intro exI [of _ "Inl e"]) simp
      qed
    qed
  qed
qed

theorem allocation_correct_witness:
  "\<exists>H'. cloth_rt_alloc sample_allocator sample_metadata sample_start ObjectType = done_with (4096, H') \<and>
     new_object sample_metadata sample_start 4096
       (zero_object\<lparr>ob_header := \<lparr>oh_type = ObjectType, oh_runtime_state = None\<rparr>\<rparr>) 16 H'"
proof -
  have "root_references sample_start = Some []"
    by (subst frame_references.simps) (simp add: initial_heap_def)
  from allocation_correct [OF sample_allocator_ok heap_run.start this, of sample_metadata ObjectType] sample_alloc
  show ?thesis by (auto simp: cloth_rt_object_type_def sizeof_ClothObjectHeader_def)
qed

text \<open>
  C33: Root frames nest. Entering a frame that is not active puts its slots in front of the roots and
  leaves the frames below untouched; leaving it, after any writes to the slots, restores exactly the
  frames and the roots from before; and leaving any other frame first is refused.
\<close>

theorem root_frames_nest:
  assumes "frame_chain (hp_frames H) (hp_current_root_frame H) fs" "f \<notin> set fs"
    and "cloth_rt_gc_push_frame H f slots n = Inr H1"
  shows "frame_chain (hp_frames H1) (hp_current_root_frame H1) (f # fs) \<and>
    root_references H1 = Some (map (hp_slots H) (cells slots n) @ the (root_references H)) \<and>
    (\<forall>g. g \<noteq> f \<longrightarrow> cloth_rt_gc_pop_frame H1 g = fail ''GC root frames were popped out of order'') \<and>
    (\<exists>H2. cloth_rt_gc_pop_frame (H1\<lparr>hp_slots := w\<rparr>) f = Inr H2 \<and>
      hp_current_root_frame H2 = hp_current_root_frame H \<and> frame_chain (hp_frames H2) (hp_current_root_frame H2) fs \<and>
      root_references H2 = root_references (H\<lparr>hp_slots := w\<rparr>))"
proof -
  from assms(3) have f: "f \<noteq> 0" and H1: "H1 = H\<lparr>hp_frames := (hp_frames H)
      (f := \<lparr>rf_previous = hp_current_root_frame H, rf_roots = slots, rf_root_count = n\<rparr>), hp_current_root_frame := f\<rparr>"
    by (auto simp: cloth_rt_gc_push_frame_def split: if_splits)
  have chain1: "frame_chain (hp_frames H1) (hp_current_root_frame H1) (f # fs)"
    using assms(1,2) f frame_chain_update [OF assms(2)] by (simp add: H1)
  have fsf: "frame_slots \<lparr>rf_previous = p, rf_roots = slots, rf_root_count = n\<rparr> = cells slots n" for p
    by (simp add: frame_slots_def)
  have roots1: "root_references H1 = Some (map (hp_slots H) (cells slots n) @ the (root_references H))"
    unfolding frame_chain_references [OF chain1] frame_chain_references [OF assms(1)]
    by (simp add: H1 fsf frame_slots_update [OF assms(2)])
  let ?H2 = "H1\<lparr>hp_slots := w, hp_frames := (hp_frames H1)(f := \<lparr>rf_previous = 0, rf_roots = None, rf_root_count = 0\<rparr>),
      hp_current_root_frame := hp_current_root_frame H\<rparr>"
  have pop: "cloth_rt_gc_pop_frame (H1\<lparr>hp_slots := w\<rparr>) f = Inr ?H2"
    using f by (simp add: cloth_rt_gc_pop_frame_def H1)
  have chain2: "frame_chain (hp_frames ?H2) (hp_current_root_frame ?H2) fs"
    using assms(1) frame_chain_update [OF assms(2)] by (simp add: H1)
  have chain0: "frame_chain (hp_frames (H\<lparr>hp_slots := w\<rparr>)) (hp_current_root_frame (H\<lparr>hp_slots := w\<rparr>)) fs"
    using assms(1) by simp
  have "root_references ?H2 = root_references (H\<lparr>hp_slots := w\<rparr>)"
    unfolding frame_chain_references [OF chain2] frame_chain_references [OF chain0]
    by (simp add: H1 frame_slots_update [OF assms(2)])
  moreover have "cloth_rt_gc_pop_frame H1 g = fail ''GC root frames were popped out of order''" if "g \<noteq> f" for g
    using that by (simp add: cloth_rt_gc_pop_frame_def H1)
  ultimately show ?thesis using chain1 roots1 pop chain2 by auto
qed

theorem root_frames_nest_witness:
  "\<exists>H1. cloth_rt_gc_push_frame sample_start 64 (Some [72, 80]) 2 = Inr H1 \<and> root_references H1 = Some [0, 0]"
proof -
  obtain H1 where push: "cloth_rt_gc_push_frame sample_start 64 (Some [72, 80]) 2 = Inr H1"
    by (simp add: cloth_rt_gc_push_frame_def initial_heap_def)
  have chain: "frame_chain (hp_frames sample_start) (hp_current_root_frame sample_start) []"
    by (simp add: initial_heap_def)
  have start: "root_references sample_start = Some []"
    using frame_chain_references [OF chain] by simp
  have "(64 :: u64) \<notin> set []" by simp
  from conjunct1 [OF conjunct2 [OF root_frames_nest [OF chain this push]]] start
  have "root_references H1 = Some [0, 0]" by (simp add: initial_heap_def)
  with push show ?thesis by blast
qed

end
