(* ===== verification/Runtime_Values.thy ===== *)
theory Runtime_Values
  imports Runtime_Heap
begin

text \<open>
  Values in the runtime library (\<^verbatim>\<open>runtime/runtime.cc\<close>): equality, hashing and formatting of a value
  through the layout the compiler emits, and the operations of objects, strings and boxed values
  that are built on them. A pointer to a value is a byte address; \<open>mem\<close> is the memory the pointers
  point into, read in the little-endian order of the host. Strings and references are object
  addresses in the heap.
\<close>

section \<open>Hashing\<close>

definition mix_hash :: "u64 \<Rightarrow> u64" where
  "mix_hash v =
     (let v = v XOR drop_bit 30 v; v = v * 0xBF58476D1CE4E5B9;
          v = v XOR drop_bit 27 v; v = v * 0x94D049BB133111EB in
      v XOR drop_bit 31 v)"

definition hash_byte :: "u64 \<Rightarrow> char \<Rightarrow> u64" where
  "hash_byte hash c = (hash XOR ucast (byte c)) * 0x100000001B3"

definition hash_bytes :: "string \<Rightarrow> nat \<Rightarrow> u64" where
  "hash_bytes data sz = mix_hash (foldl hash_byte 0xCBF29CE484222325 (take sz data))"

definition combine_hash :: "u64 \<Rightarrow> u64 \<Rightarrow> u64" where
  "combine_hash left right =
     mix_hash (left XOR (right + 0x9E3779B97F4A7C15 + push_bit 6 left + drop_bit 2 left))"

definition string_hash_code :: "ClothString option \<Rightarrow> u64 outcome" where
  "string_hash_code v =
     (case require_traversable_string v of
        Inl e \<Rightarrow> fail e
      | Inr s \<Rightarrow> Inr (mix_hash (foldl hash_byte 0xCBF29CE484222325
                   (take (st_byte_size s) (bytes_of (st_data s))) XOR 0x737472696E67)))"

definition string_equals :: "ClothString option \<Rightarrow> ClothString option \<Rightarrow> bool outcome" where
  "string_equals v other =
     (case require_traversable_string v of
        Inl e \<Rightarrow> fail e
      | Inr left \<Rightarrow>
          (case other of
             None \<Rightarrow> Inr False
           | Some o' \<Rightarrow>
               if st_type o' = NullType then fail ''object has no type descriptor''
               else if st_type o' \<noteq> StringType then Inr False
               else (case require_traversable_string other of
                   Inl e \<Rightarrow> fail e
                 | Inr right \<Rightarrow>
                     Inr (st_byte_size left = st_byte_size right \<and>
                          (st_byte_size left = 0 \<or>
                           take (st_byte_size left) (bytes_of (st_data left)) =
                           take (st_byte_size left) (bytes_of (st_data right)))))))"

section \<open>Loading\<close>

type_synonym memory = "u64 \<Rightarrow> u8"

text \<open>\<^verbatim>\<open>load_value\<close> of an unsigned type of \<open>n\<close> bytes.\<close>

primrec load_value :: "nat \<Rightarrow> memory \<Rightarrow> u64 \<Rightarrow> u64" where
  "load_value 0 mem p = 0"
| "load_value (Suc n) mem p = ucast (mem p) OR push_bit 8 (load_value n mem (p + 1))"

text \<open>The conversion of a loaded signed integer of \<open>n\<close> bytes to 64 bits.\<close>

definition load_signed :: "nat \<Rightarrow> memory \<Rightarrow> u64 \<Rightarrow> u64" where
  "load_signed n mem p = signed_take_bit (8 * n - 1) (load_value n mem p)"

text \<open>Comparison of the floating-point numbers with the given bits.\<close>

definition float_is_nan :: "nat \<Rightarrow> u64 \<Rightarrow> bool" where
  "float_is_nan width bits =
     (if width = 32 then bits AND 0x7FFFFFFF > 0x7F800000 else bits AND 0x7FFFFFFFFFFFFFFF > 0x7FF0000000000000)"

definition float_is_zero :: "nat \<Rightarrow> u64 \<Rightarrow> bool" where
  "float_is_zero width bits =
     (if width = 32 then bits AND 0x7FFFFFFF = 0 else bits AND 0x7FFFFFFFFFFFFFFF = 0)"

definition float_equal :: "nat \<Rightarrow> u64 \<Rightarrow> u64 \<Rightarrow> bool" where
  "float_equal width l r \<longleftrightarrow>
     \<not> float_is_nan width l \<and> \<not> float_is_nan width r \<and>
     ((float_is_zero width l \<and> float_is_zero width r) \<or> l = r)"

text \<open>The string behind an address.\<close>

definition string_at :: "Heap \<Rightarrow> u64 \<Rightarrow> ClothString option" where
  "string_at H p =
     (if p = 0 then None
      else let ob = the (hp_objects H p) in Some ((ob_string ob)\<lparr>st_type := oh_type (ob_header ob)\<rparr>))"

definition header_at :: "Heap \<Rightarrow> u64 \<Rightarrow> ClothObjectHeader option" where
  "header_at H p = (if p = 0 then None else Some (ob_header (the (hp_objects H p))))"

section \<open>Equality and hash of a value\<close>

text \<open>The kinds without components; the result is \<open>None\<close> for the other kinds.\<close>

definition scalars_equal :: "Heap \<Rightarrow> memory \<Rightarrow> ClothValueKind \<Rightarrow> u64 \<Rightarrow> u64 \<Rightarrow> bool outcome option" where
  "scalars_equal H mem kind l r =
     (case kind of
        vkBool \<Rightarrow> Some (Inr (load_value 1 mem l = load_value 1 mem r))
      | vkByte \<Rightarrow> Some (Inr (load_value 1 mem l = load_value 1 mem r))
      | vkUint8 \<Rightarrow> Some (Inr (load_value 1 mem l = load_value 1 mem r))
      | vkInt8 \<Rightarrow> Some (Inr (load_signed 1 mem l = load_signed 1 mem r))
      | vkInt16 \<Rightarrow> Some (Inr (load_signed 2 mem l = load_signed 2 mem r))
      | vkInt32 \<Rightarrow> Some (Inr (load_signed 4 mem l = load_signed 4 mem r))
      | vkInt64 \<Rightarrow> Some (Inr (load_signed 8 mem l = load_signed 8 mem r))
      | vkChar \<Rightarrow> Some (Inr (load_value 4 mem l = load_value 4 mem r))
      | vkUint32 \<Rightarrow> Some (Inr (load_value 4 mem l = load_value 4 mem r))
      | vkEnum \<Rightarrow> Some (Inr (load_value 4 mem l = load_value 4 mem r))
      | vkUint16 \<Rightarrow> Some (Inr (load_value 2 mem l = load_value 2 mem r))
      | vkUint64 \<Rightarrow> Some (Inr (load_value 8 mem l = load_value 8 mem r))
      | vkFloat32 \<Rightarrow> Some (Inr (float_equal 32 (load_value 4 mem l) (load_value 4 mem r)))
      | vkFloat64 \<Rightarrow> Some (Inr (float_equal 64 (load_value 8 mem l) (load_value 8 mem r)))
      | vkString \<Rightarrow> Some (cloth_rt_string_equal (load_value 8 mem l = load_value 8 mem r)
                     (string_at H (load_value 8 mem l)) (string_at H (load_value 8 mem r)))
      | vkReference \<Rightarrow> Some (Inr (load_value 8 mem l = load_value 8 mem r))
      | _ \<Rightarrow> None)"

text \<open>
  \<open>fields_equal\<close> is the loop over the fields of a struct; it runs at depths up to 128 only, which its
  first test makes plain.
\<close>

function (sequential) values_equal ::
  "Metadata \<Rightarrow> Heap \<Rightarrow> memory \<Rightarrow> ClothValueLayout \<Rightarrow> u64 \<Rightarrow> u64 \<Rightarrow> nat \<Rightarrow> bool outcome"
  and fields_equal ::
  "Metadata \<Rightarrow> Heap \<Rightarrow> memory \<Rightarrow> ClothValueFieldLayout list \<Rightarrow> u64 \<Rightarrow> u64 \<Rightarrow> nat \<Rightarrow> bool outcome" where
  "values_equal M H mem layout l r depth =
     (if depth > 128 then fail ''value equality exceeds the nesting limit''
      else case scalars_equal H mem (vl_kind layout) l r of
        Some result \<Rightarrow> result
      | None \<Rightarrow>
          if vl_kind layout = vkStruct
          then fields_equal M H mem (cells (vl_fields layout) (vl_field_count layout)) l r depth
          else if vl_kind layout = vkNullable then
            (let left_tag = load_value 1 mem l; right_tag = load_value 1 mem r in
             if left_tag > 1 \<or> right_tag > 1 then fail ''nullable value has an invalid tag''
             else if left_tag \<noteq> right_tag \<or> left_tag = 0 then Inr (left_tag = right_tag)
             else
               let payload = the (vl_fields layout) ! 0 in
               values_equal M H mem (layout_at M (vf_type payload))
                 (l + of_nat (vf_offset payload)) (r + of_nat (vf_offset payload)) (depth + 1))
          else fail ''value equality has an unknown kind'')"
| "fields_equal M H mem [] l r depth = Inr True"
| "fields_equal M H mem (field # fs) l r depth =
     (if depth > 128 then Inr True
      else case values_equal M H mem (layout_at M (vf_type field))
              (l + of_nat (vf_offset field)) (r + of_nat (vf_offset field)) (depth + 1) of
        Inl e \<Rightarrow> fail e
      | Inr equal \<Rightarrow> if \<not> equal then Inr False else fields_equal M H mem fs l r depth)"
  by pat_completeness auto
termination
  by (relation "measures
        [\<lambda>x. case x of Inl (M, H, mem, layout, l, r, depth) \<Rightarrow> 2 * (129 - depth)
                     | Inr (M, H, mem, fs, l, r, depth) \<Rightarrow> 2 * (129 - depth) - 1,
         \<lambda>x. case x of Inl _ \<Rightarrow> 0 | Inr (M, H, mem, fs, l, r, depth) \<Rightarrow> length fs]") auto

text \<open>The hash of a live object: that of its identity.\<close>

definition hash_identity :: "Heap \<Rightarrow> u64 \<Rightarrow> string \<Rightarrow> u64 outcome" where
  "hash_identity H p message =
     (case require_object (header_at H p) of
        Inl e \<Rightarrow> fail e
      | Inr obj \<Rightarrow>
          (case find_allocation H p of
             Some (Some a) \<Rightarrow>
               if oh_runtime_state obj \<noteq> Some (al_identity a) then fail message
               else Inr (mix_hash (al_identity a))
           | _ \<Rightarrow> fail message))"

definition scalar_hash :: "Heap \<Rightarrow> memory \<Rightarrow> ClothValueKind \<Rightarrow> u64 \<Rightarrow> u64 outcome option" where
  "scalar_hash H mem kind p =
     (case kind of
        vkBool \<Rightarrow> Some (Inr (mix_hash (load_value 1 mem p)))
      | vkByte \<Rightarrow> Some (Inr (mix_hash (load_value 1 mem p)))
      | vkUint8 \<Rightarrow> Some (Inr (mix_hash (load_value 1 mem p)))
      | vkInt8 \<Rightarrow> Some (Inr (mix_hash (load_signed 1 mem p)))
      | vkInt16 \<Rightarrow> Some (Inr (mix_hash (load_signed 2 mem p)))
      | vkInt32 \<Rightarrow> Some (Inr (mix_hash (load_signed 4 mem p)))
      | vkInt64 \<Rightarrow> Some (Inr (mix_hash (load_signed 8 mem p)))
      | vkChar \<Rightarrow> Some (Inr (mix_hash (load_value 4 mem p)))
      | vkUint32 \<Rightarrow> Some (Inr (mix_hash (load_value 4 mem p)))
      | vkEnum \<Rightarrow> Some (Inr (mix_hash (load_value 4 mem p)))
      | vkUint16 \<Rightarrow> Some (Inr (mix_hash (load_value 2 mem p)))
      | vkUint64 \<Rightarrow> Some (Inr (mix_hash (load_value 8 mem p)))
      | vkFloat32 \<Rightarrow> Some (Inr (mix_hash (if float_is_zero 32 (load_value 4 mem p) then 0 else load_value 4 mem p)))
      | vkFloat64 \<Rightarrow> Some (Inr (mix_hash (if float_is_zero 64 (load_value 8 mem p) then 0 else load_value 8 mem p)))
      | vkString \<Rightarrow>
          (let string = load_value 8 mem p in
           Some (if string = 0 then Inr 0 else string_hash_code (string_at H string)))
      | vkReference \<Rightarrow>
          (let reference = load_value 8 mem p in
           Some (if reference = 0 then Inr 0
                 else hash_identity H reference ''referenced value is not a live managed allocation''))
      | _ \<Rightarrow> None)"

function (sequential) value_hash ::
  "Metadata \<Rightarrow> Heap \<Rightarrow> memory \<Rightarrow> ClothValueLayout \<Rightarrow> u64 \<Rightarrow> nat \<Rightarrow> u64 outcome"
  and fields_hash ::
  "Metadata \<Rightarrow> Heap \<Rightarrow> memory \<Rightarrow> ClothValueFieldLayout list \<Rightarrow> u64 \<Rightarrow> nat \<Rightarrow> u64 \<Rightarrow> u64 outcome" where
  "value_hash M H mem layout p depth =
     (if depth > 128 then fail ''value hashing exceeds the nesting limit''
      else case scalar_hash H mem (vl_kind layout) p of
        Some result \<Rightarrow> result
      | None \<Rightarrow>
          if vl_kind layout = vkStruct then
            fields_hash M H mem (cells (vl_fields layout) (vl_field_count layout)) p depth
              (hash_bytes (the (vl_name layout)) (vl_name_size layout))
          else if vl_kind layout = vkNullable then
            (let tag = load_value 1 mem p in
             if tag > 1 then fail ''nullable value has an invalid tag''
             else if tag = 0 then Inr (mix_hash 0)
             else
               let payload = the (vl_fields layout) ! 0 in
               case value_hash M H mem (layout_at M (vf_type payload)) (p + of_nat (vf_offset payload)) (depth + 1) of
                 Inl e \<Rightarrow> fail e
               | Inr h \<Rightarrow> Inr (combine_hash (mix_hash 1) h))
          else fail ''value hashing has an unknown kind'')"
| "fields_hash M H mem [] p depth result = Inr result"
| "fields_hash M H mem (field # fs) p depth result =
     (if depth > 128 then Inr result
      else case value_hash M H mem (layout_at M (vf_type field)) (p + of_nat (vf_offset field)) (depth + 1) of
        Inl e \<Rightarrow> fail e
      | Inr h \<Rightarrow> fields_hash M H mem fs p depth (combine_hash result h))"
  by pat_completeness auto
termination
  by (relation "measures
        [\<lambda>x. case x of Inl (M, H, mem, layout, p, depth) \<Rightarrow> 2 * (129 - depth)
                     | Inr (M, H, mem, fs, p, depth, result) \<Rightarrow> 2 * (129 - depth) - 1,
         \<lambda>x. case x of Inl _ \<Rightarrow> 0 | Inr (M, H, mem, fs, p, depth, result) \<Rightarrow> length fs]") auto

section \<open>Formatting\<close>

definition append_utf8_scalar :: "u32 \<Rightarrow> string" where
  "append_utf8_scalar scalar =
     (if scalar \<le> 0x7F then [to_char scalar]
      else if scalar \<le> 0x7FF then [to_char (0xC0 OR drop_bit 6 scalar), to_char (0x80 OR (scalar AND 0x3F))]
      else if scalar \<le> 0xFFFF then
        [to_char (0xE0 OR drop_bit 12 scalar), to_char (0x80 OR (drop_bit 6 scalar AND 0x3F)),
         to_char (0x80 OR (scalar AND 0x3F))]
      else
        [to_char (0xF0 OR drop_bit 18 scalar), to_char (0x80 OR (drop_bit 12 scalar AND 0x3F)),
         to_char (0x80 OR (drop_bit 6 scalar AND 0x3F)), to_char (0x80 OR (scalar AND 0x3F))])"

text \<open>The output buffer holds at most \<open>kMaximumStringSize\<close> bytes.\<close>

definition append_bytes :: "string \<Rightarrow> string \<Rightarrow> string outcome" where
  "append_bytes output bytes =
     (if length output + length bytes > kMaximumStringSize then fail ''value string representation is too large''
      else Inr (output @ bytes))"

definition bind_outcome :: "'a outcome \<Rightarrow> ('a \<Rightarrow> 'b outcome) \<Rightarrow> 'b outcome" where
  "bind_outcome m f = (case m of Inl e \<Rightarrow> fail e | Inr x \<Rightarrow> f x)"

lemma bind_outcome_simps [simp]: "bind_outcome (Inl e) f = Inl e" "bind_outcome (Inr x) f = f x"
  by (simp_all add: bind_outcome_def)

lemma bind_outcome_cong [fundef_cong]:
  "m = m' \<Longrightarrow> (\<And>x. m' = Inr x \<Longrightarrow> f x = g x) \<Longrightarrow> bind_outcome m f = bind_outcome m' g"
  by (cases m') auto

text \<open>\<open>format_number\<close> is \<^verbatim>\<open>std::to_chars\<close> of a finite floating-point number, a parameter.\<close>

definition float_text :: "(nat \<Rightarrow> u64 \<Rightarrow> string) \<Rightarrow> nat \<Rightarrow> u64 \<Rightarrow> string" where
  "float_text format_number width bits =
     (if float_is_nan width bits then ''nan''
      else if (if width = 32 then bits AND 0x7FFFFFFF = 0x7F800000
               else bits AND 0x7FFFFFFFFFFFFFFF = 0x7FF0000000000000)
      then (if bit bits (width - 1) then ''-inf'' else ''inf'')
      else format_number width bits)"

text \<open>The text of an object reference: its type's name.\<close>

definition name_bytes :: "string option \<Rightarrow> nat \<Rightarrow> string" where
  "name_bytes name sz = take sz (bytes_of name)"

definition scalar_text ::
  "(nat \<Rightarrow> u64 \<Rightarrow> string) \<Rightarrow> Metadata \<Rightarrow> Heap \<Rightarrow> memory \<Rightarrow> ClothValueLayout \<Rightarrow> string \<Rightarrow> u64 \<Rightarrow> string outcome option" where
  "scalar_text format_number M H mem layout output p =
     (let unsigned = (\<lambda>n. Some (append_bytes output (decimal_of_int (uint (load_value n mem p)))));
          signed = (\<lambda>n. Some (append_bytes output (decimal_of_int (sint (load_signed n mem p))))) in
      case vl_kind layout of
        vkBool \<Rightarrow> Some (append_bytes output (if load_value 1 mem p = 0 then ''false'' else ''true''))
      | vkChar \<Rightarrow>
          (let scalar = load_value 4 mem p in
           Some (if scalar > 0x10FFFF \<or> (scalar \<ge> 0xD800 \<and> scalar \<le> 0xDFFF)
                 then fail ''character value is not a Unicode scalar''
                 else append_bytes output (append_utf8_scalar (ucast scalar))))
      | vkByte \<Rightarrow> unsigned 1 | vkUint8 \<Rightarrow> unsigned 1
      | vkInt8 \<Rightarrow> signed 1 | vkInt16 \<Rightarrow> signed 2 | vkInt32 \<Rightarrow> signed 4 | vkInt64 \<Rightarrow> signed 8
      | vkUint16 \<Rightarrow> unsigned 2 | vkUint32 \<Rightarrow> unsigned 4 | vkUint64 \<Rightarrow> unsigned 8
      | vkFloat32 \<Rightarrow> Some (append_bytes output (float_text format_number 32 (load_value 4 mem p)))
      | vkFloat64 \<Rightarrow> Some (append_bytes output (float_text format_number 64 (load_value 8 mem p)))
      | vkString \<Rightarrow>
          (let reference = load_value 8 mem p in
           Some (if reference = 0 then append_bytes output ''null''
                 else case require_traversable_string (string_at H reference) of
                   Inl e \<Rightarrow> fail e
                 | Inr s \<Rightarrow> append_bytes output (name_bytes (st_data s) (st_byte_size s))))
      | vkReference \<Rightarrow>
          (let reference = load_value 8 mem p in
           Some (if reference = 0 then append_bytes output ''null''
                 else case require_object (header_at H reference) of
                   Inl e \<Rightarrow> fail e
                 | Inr obj \<Rightarrow>
                     let d = descriptor M (oh_type obj) in
                     bind_outcome (append_bytes output ''<'') (\<lambda>output.
                     bind_outcome (append_bytes output (name_bytes (td_name d) (td_name_size d))) (\<lambda>output.
                     append_bytes output ''>''))))
      | vkEnum \<Rightarrow>
          (let tag = unat (load_value 4 mem p) in
           Some (if tag \<ge> vl_enum_case_count layout then fail ''enum value has an invalid tag''
                 else
                   let item = the (vl_enum_cases layout) ! tag in
                   bind_outcome (append_bytes output (name_bytes (vl_name layout) (vl_name_size layout))) (\<lambda>output.
                   bind_outcome (append_bytes output ''.'') (\<lambda>output.
                   append_bytes output (name_bytes (ec_name item) (ec_name_size item))))))
      | _ \<Rightarrow> None)"

function (sequential) append_value ::
  "(nat \<Rightarrow> u64 \<Rightarrow> string) \<Rightarrow> Metadata \<Rightarrow> Heap \<Rightarrow> memory \<Rightarrow> string \<Rightarrow> ClothValueLayout \<Rightarrow> u64 \<Rightarrow> nat \<Rightarrow> string outcome"
  and append_fields ::
  "(nat \<Rightarrow> u64 \<Rightarrow> string) \<Rightarrow> Metadata \<Rightarrow> Heap \<Rightarrow> memory \<Rightarrow> string \<Rightarrow> bool \<Rightarrow> ClothValueFieldLayout list \<Rightarrow> u64 \<Rightarrow> nat \<Rightarrow> string outcome" where
  "append_value format_number M H mem output layout p depth =
     (if depth > 128 then fail ''value formatting exceeds the nesting limit''
      else case scalar_text format_number M H mem layout output p of
        Some result \<Rightarrow> result
      | None \<Rightarrow>
          if vl_kind layout = vkStruct then
            bind_outcome (append_bytes output (name_bytes (vl_name layout) (vl_name_size layout))) (\<lambda>output.
            bind_outcome (append_bytes output ''{'') (\<lambda>output.
            bind_outcome (append_fields format_number M H mem output True
                (cells (vl_fields layout) (vl_field_count layout)) p depth) (\<lambda>output.
            append_bytes output ''}'')))
          else if vl_kind layout = vkNullable then
            (let tag = load_value 1 mem p in
             if tag > 1 then fail ''nullable value has an invalid tag''
             else if tag = 0 then append_bytes output ''null''
             else
               let payload = the (vl_fields layout) ! 0 in
               append_value format_number M H mem output (layout_at M (vf_type payload))
                 (p + of_nat (vf_offset payload)) (depth + 1))
          else fail ''value formatting has an unknown kind'')"
| "append_fields format_number M H mem output first [] p depth = Inr output"
| "append_fields format_number M H mem output first (field # fs) p depth =
     (if depth > 128 then Inr output
      else
        bind_outcome (if first then Inr output else append_bytes output '', '') (\<lambda>output.
        bind_outcome (append_bytes output (name_bytes (vf_name field) (vf_name_size field))) (\<lambda>output.
        bind_outcome (append_bytes output ''='') (\<lambda>output.
        bind_outcome (append_value format_number M H mem output (layout_at M (vf_type field))
            (p + of_nat (vf_offset field)) (depth + 1)) (\<lambda>output.
        append_fields format_number M H mem output False fs p depth)))))"
  by pat_completeness auto
termination
  by (relation "measures
        [\<lambda>x. case x of Inl (f, M, H, mem, output, layout, p, depth) \<Rightarrow> 2 * (129 - depth)
                     | Inr (f, M, H, mem, output, first, fs, p, depth) \<Rightarrow> 2 * (129 - depth) - 1,
         \<lambda>x. case x of Inl _ \<Rightarrow> 0 | Inr (f, M, H, mem, output, first, fs, p, depth) \<Rightarrow> length fs]") auto

section \<open>Objects and boxed values\<close>

definition require_value_box :: "Metadata \<Rightarrow> Heap \<Rightarrow> u64 \<Rightarrow> ClothObjectHeader outcome" where
  "require_value_box M H p =
     (case require_object (header_at H p) of
        Inl e \<Rightarrow> fail e
      | Inr obj \<Rightarrow> (case validate_type_descriptor M (oh_type obj) of
          Inl e \<Rightarrow> fail e
        | Inr _ \<Rightarrow>
            if td_boxed_value_layout (descriptor M (oh_type obj)) = None
            then fail ''object has no boxed-value payload'' else Inr obj))"

definition same_value_layout_identity :: "ClothValueLayout \<Rightarrow> ClothValueLayout \<Rightarrow> bool" where
  "same_value_layout_identity left right \<longleftrightarrow>
     vl_kind left = vl_kind right \<and> vl_size left = vl_size right \<and> vl_alignment left = vl_alignment right \<and>
     vl_name_size left = vl_name_size right \<and>
     take (vl_name_size left) (bytes_of (vl_name left)) = take (vl_name_size left) (bytes_of (vl_name right))"

definition cloth_rt_object_equals :: "Heap \<Rightarrow> u64 \<Rightarrow> u64 \<Rightarrow> bool outcome" where
  "cloth_rt_object_equals H p other =
     (case require_object (header_at H p) of
        Inl e \<Rightarrow> fail e
      | Inr _ \<Rightarrow>
          if other \<noteq> 0 then
            (case require_object (header_at H other) of Inl e \<Rightarrow> fail e | Inr _ \<Rightarrow> Inr (p = other))
          else Inr (p = other))"

definition cloth_rt_object_hash_code :: "Heap \<Rightarrow> u64 \<Rightarrow> u64 outcome" where
  "cloth_rt_object_hash_code H p = hash_identity H p ''object is not a live managed allocation''"

definition cloth_rt_value_box_equals :: "Metadata \<Rightarrow> Heap \<Rightarrow> memory \<Rightarrow> u64 \<Rightarrow> u64 \<Rightarrow> bool outcome" where
  "cloth_rt_value_box_equals M H mem p other =
     (case require_value_box M H p of
        Inl e \<Rightarrow> fail e
      | Inr left \<Rightarrow>
          if other = 0 then Inr False
          else (case require_object (header_at H other) of
              Inl e \<Rightarrow> fail e
            | Inr right \<Rightarrow>
                if oh_type left \<noteq> oh_type right then Inr False
                else
                  let d = descriptor M (oh_type left) in
                  values_equal M H mem (layout_at M (td_boxed_value_layout d))
                    (p + of_nat (td_boxed_value_offset d)) (other + of_nat (td_boxed_value_offset d)) 0))"

definition cloth_rt_value_box_hash_code :: "Metadata \<Rightarrow> Heap \<Rightarrow> memory \<Rightarrow> u64 \<Rightarrow> u64 outcome" where
  "cloth_rt_value_box_hash_code M H mem p =
     (case require_value_box M H p of
        Inl e \<Rightarrow> fail e
      | Inr obj \<Rightarrow>
          let d = descriptor M (oh_type obj) in
          bind_outcome (value_hash M H mem (layout_at M (td_boxed_value_layout d))
              (p + of_nat (td_boxed_value_offset d)) 0)
            (\<lambda>h. Inr (combine_hash (hash_bytes (bytes_of (td_name d)) (td_name_size d)) h)))"

text \<open>The text of a boxed value and its number of scalars; allocating it is the heap's part.\<close>

definition value_box_text ::
  "(nat \<Rightarrow> u64 \<Rightarrow> string) \<Rightarrow> Metadata \<Rightarrow> Heap \<Rightarrow> memory \<Rightarrow> u64 \<Rightarrow> (string \<times> nat) outcome" where
  "value_box_text format_number M H mem p =
     (case require_value_box M H p of
        Inl e \<Rightarrow> fail e
      | Inr obj \<Rightarrow>
          let d = descriptor M (oh_type obj) in
          bind_outcome (append_value format_number M H mem [] (layout_at M (td_boxed_value_layout d))
              (p + of_nat (td_boxed_value_offset d)) 0) (\<lambda>buffer.
          bind_outcome (count_utf8_scalars buffer (length buffer) ''string contains invalid UTF-8'') (\<lambda>count.
          Inr (buffer, count))))"

section \<open>Equal values hash alike\<close>

declare values_equal.simps [simp del] value_hash.simps [simp del] append_value.simps [simp del]

lemma no_scalar_kind:
  "scalars_equal H mem kind l r = None \<longleftrightarrow> kind = vkStruct \<or> kind = vkNullable \<or> (\<exists>x. kind = vkOther x)"
  "scalar_hash H mem kind p = None \<longleftrightarrow> kind = vkStruct \<or> kind = vkNullable \<or> (\<exists>x. kind = vkOther x)"
  by (cases kind; simp add: scalars_equal_def scalar_hash_def Let_def)+

lemma require_traversable_Inr:
  "require_traversable_string v = Inr s \<Longrightarrow> v = Some s"
  by (auto simp: require_traversable_string_def require_string_def split: option.splits if_splits sum.splits)

lemma require_string_Inr: "require_string v = Inr s \<Longrightarrow> v = Some s"
  by (auto simp: require_string_def split: option.splits if_splits)

lemma same_bytes_hash:
  assumes "st_byte_size s = st_byte_size t"
    and "st_byte_size s = 0 \<or> take (st_byte_size s) (bytes_of (st_data s)) = take (st_byte_size s) (bytes_of (st_data t))"
    and "string_hash_code (Some s) = Inr h" "string_hash_code (Some t) = Inr k"
  shows "h = k"
proof -
  have "take (st_byte_size s) (bytes_of (st_data s)) = take (st_byte_size t) (bytes_of (st_data t))"
    using assms(1,2) by auto
  moreover have "h = mix_hash (foldl hash_byte 0xCBF29CE484222325
      (take (st_byte_size s) (bytes_of (st_data s))) XOR 0x737472696E67)"
    "k = mix_hash (foldl hash_byte 0xCBF29CE484222325
      (take (st_byte_size t) (bytes_of (st_data t))) XOR 0x737472696E67)"
    using assms(3,4) by (auto simp: string_hash_code_def dest!: require_traversable_Inr split: sum.splits)
  ultimately show ?thesis by simp
qed

lemma string_equal_hash:
  assumes "cloth_rt_string_equal (a = b) (string_at H a) (string_at H b) = Inr True"
    and "(if a = 0 then Inr 0 else string_hash_code (string_at H a)) = Inr h"
    and "(if b = 0 then Inr 0 else string_hash_code (string_at H b)) = Inr k"
  shows "h = k"
proof (cases "a = b")
  case True
  then show ?thesis using assms(2,3) by (auto split: if_splits)
next
  case False
  with assms(1) obtain s t where st: "string_at H a = Some s" "string_at H b = Some t"
      "st_byte_size s = st_byte_size t"
      "st_byte_size s = 0 \<or> take (st_byte_size s) (bytes_of (st_data s)) = take (st_byte_size s) (bytes_of (st_data t))"
    by (auto simp: cloth_rt_string_equal_def dest!: require_string_Inr split: if_splits sum.splits)
  then have "a \<noteq> 0" "b \<noteq> 0" by (auto simp: string_at_def)
  then show ?thesis using same_bytes_hash [OF st(3,4)] assms(2,3) st(1,2) by simp
qed

lemma scalars_equal_hash:
  assumes "scalars_equal H mem kind l r = Some (Inr True)" "scalar_hash H mem kind l = Some (Inr h)"
    and "scalar_hash H mem kind r = Some (Inr k)"
  shows "h = k"
proof (cases "kind = vkString")
  case True
  show ?thesis
    by (rule string_equal_hash [where a = "load_value 8 mem l" and b = "load_value 8 mem r" and H = H])
      (use assms True in \<open>simp_all add: scalars_equal_def scalar_hash_def Let_def\<close>)
next
  case False
  then show ?thesis using assms
    by (cases kind) (auto simp: scalars_equal_def scalar_hash_def float_equal_def Let_def split: if_splits)
qed

lemma equal_hash:
  "values_equal M H mem layout l r depth = Inr True \<Longrightarrow> value_hash M H mem layout l depth = Inr h \<Longrightarrow>
     value_hash M H mem layout r depth = Inr k \<Longrightarrow> h = k"
  "fields_equal M H mem fs l r depth = Inr True \<Longrightarrow> fields_hash M H mem fs l depth res = Inr h' \<Longrightarrow>
     fields_hash M H mem fs r depth res = Inr k' \<Longrightarrow> h' = k'"
proof (induction M H mem layout l r depth and M H mem fs l r depth
    arbitrary: h k and res h' k' rule: values_equal_fields_equal.induct)
  case (1 M H mem layout l r depth)
  note eq = "1.prems"(1) [unfolded values_equal.simps [of M H mem layout l r depth]]
  note hl = "1.prems"(2) [unfolded value_hash.simps [of M H mem layout l depth]]
  note hr = "1.prems"(3) [unfolded value_hash.simps [of M H mem layout r depth]]
  from eq have d: "\<not> depth > 128" by (auto split: if_splits)
  show ?case
  proof (cases "scalars_equal H mem (vl_kind layout) l r")
    case (Some res)
    then obtain hl' hr' where "scalar_hash H mem (vl_kind layout) l = Some hl'" "scalar_hash H mem (vl_kind layout) r = Some hr'"
      using no_scalar_kind by (metis option.distinct(1) option.exhaust)
    then show ?thesis using eq hl hr d Some scalars_equal_hash by auto
  next
    case None
    then have hn: "scalar_hash H mem (vl_kind layout) l = None" "scalar_hash H mem (vl_kind layout) r = None"
      using no_scalar_kind by metis+
    consider "vl_kind layout = vkStruct" | "vl_kind layout \<noteq> vkStruct" "vl_kind layout = vkNullable"
      | "vl_kind layout \<noteq> vkStruct" "vl_kind layout \<noteq> vkNullable" by blast
    then show ?thesis
    proof cases
      case s: 1
      then show ?thesis using "1.IH"(1) [OF d None s] eq hl hr d None hn by simp
    next
      case n: 2
      let ?payload = "the (vl_fields layout) ! 0"
      show ?thesis
      proof (cases "load_value 1 mem l = 0 \<or> load_value 1 mem l \<noteq> load_value 1 mem r")
        case True
        then show ?thesis using eq hl hr d None hn n by (auto simp: Let_def split: if_splits)
      next
        case False
        then have ve: "values_equal M H mem (layout_at M (vf_type ?payload))
            (l + of_nat (vf_offset ?payload)) (r + of_nat (vf_offset ?payload)) (depth + 1) = Inr True"
          and tags: "\<not> (1 < load_value 1 mem l \<or> 1 < load_value 1 mem r)"
          using eq d None n by (auto simp: Let_def split: if_splits)
        obtain hl' where hl': "value_hash M H mem (layout_at M (vf_type ?payload)) (l + of_nat (vf_offset ?payload)) (depth + 1) = Inr hl'"
            "h = combine_hash (mix_hash 1) hl'"
          using hl d hn n False tags by (auto simp: Let_def split: if_splits sum.splits)
        obtain hr' where hr': "value_hash M H mem (layout_at M (vf_type ?payload)) (r + of_nat (vf_offset ?payload)) (depth + 1) = Inr hr'"
            "k = combine_hash (mix_hash 1) hr'"
          using hr d hn n False tags by (auto simp: Let_def split: if_splits sum.splits)
        have "hl' = hr'"
          using "1.IH"(2) [OF d None n refl refl tags _ refl ve hl'(1) hr'(1)] False by auto
        then show ?thesis using hl' hr' by simp
      qed
    next
      case 3
      then show ?thesis using eq d None by simp
    qed
  qed
next
  case (2 M H mem l r depth)
  then show ?case by simp
next
  case (3 M H mem field fs l r depth)
  show ?case
  proof (cases "depth > 128")
    case True
    then show ?thesis using "3.prems" by simp
  next
    case d: False
    let ?o = "of_nat (vf_offset field)"
    from "3.prems"(1) d have ve: "values_equal M H mem (layout_at M (vf_type field)) (l + ?o) (r + ?o) (depth + 1) = Inr True"
        and fe: "fields_equal M H mem fs l r depth = Inr True"
      by (auto split: sum.splits if_splits)
    from "3.prems"(2) d obtain a where a: "value_hash M H mem (layout_at M (vf_type field)) (l + ?o) (depth + 1) = Inr a"
        "fields_hash M H mem fs l depth (combine_hash res a) = Inr h'"
      by (auto split: sum.splits)
    from "3.prems"(3) d obtain b where b: "value_hash M H mem (layout_at M (vf_type field)) (r + ?o) (depth + 1) = Inr b"
        "fields_hash M H mem fs r depth (combine_hash res b) = Inr k'"
      by (auto split: sum.splits)
    have "a = b" by (rule "3.IH"(1) [OF d ve a(1) b(1)])
    then show ?thesis using "3.IH"(2) [OF d ve _ fe a(2)] b(2) by simp
  qed
qed

section \<open>Equality is symmetric and transitive\<close>

lemma string_equal_sym:
  "cloth_rt_string_equal (a = b) v w = Inr e \<Longrightarrow> cloth_rt_string_equal (b = a) w v = Inr e"
  by (auto simp: cloth_rt_string_equal_def split: sum.splits if_splits)

lemma string_equal_trans:
  assumes "cloth_rt_string_equal (a = b) (string_at H a) (string_at H b) = Inr True"
    and "cloth_rt_string_equal (b = c) (string_at H b) (string_at H c) = Inr True"
  shows "cloth_rt_string_equal (a = c) (string_at H a) (string_at H c) = Inr True"
  using assms
  by (cases "a = b"; cases "b = c")
    (auto simp: cloth_rt_string_equal_def dest!: require_string_Inr split: sum.splits if_splits)

lemma float_equal_sym: "float_equal w l r = float_equal w r l"
  by (auto simp: float_equal_def)

lemma float_equal_trans: "float_equal w a b \<Longrightarrow> float_equal w b c \<Longrightarrow> float_equal w a c"
  by (auto simp: float_equal_def)

lemma scalars_equal_sym:
  assumes "scalars_equal H mem kind l r = Some (Inr e)"
  shows "scalars_equal H mem kind r l = Some (Inr e)"
proof (cases "kind = vkString")
  case True
  then show ?thesis using assms string_equal_sym by (simp add: scalars_equal_def)
next
  case False
  then show ?thesis using assms
    by (cases kind) (auto simp: scalars_equal_def float_equal_sym)
qed

lemma scalars_equal_trans:
  assumes "scalars_equal H mem kind a b = Some (Inr True)" "scalars_equal H mem kind b c = Some (Inr True)"
  shows "scalars_equal H mem kind a c = Some (Inr True)"
proof (cases "kind = vkString")
  case True
  then show ?thesis using assms string_equal_trans by (simp add: scalars_equal_def)
next
  case False
  then show ?thesis using assms
    by (cases kind) (auto simp: scalars_equal_def intro: float_equal_trans)
qed

lemma scalars_equal_none: "scalars_equal H mem kind l r = None \<longleftrightarrow> scalars_equal H mem kind l' r' = None"
  by (simp only: no_scalar_kind)

lemma equal_sym:
  "values_equal M H mem layout l r depth = Inr e \<Longrightarrow> values_equal M H mem layout r l depth = Inr e"
  "fields_equal M H mem fs l r depth = Inr e' \<Longrightarrow> fields_equal M H mem fs r l depth = Inr e'"
proof (induction M H mem layout l r depth and M H mem fs l r depth
    arbitrary: e and e' rule: values_equal_fields_equal.induct)
  case (1 M H mem layout l r depth)
  note eq = "1.prems"(1) [unfolded values_equal.simps [of M H mem layout l r depth]]
  from eq have d: "\<not> depth > 128" by (auto split: if_splits)
  show ?case
  proof (cases "scalars_equal H mem (vl_kind layout) l r")
    case (Some res)
    then show ?thesis using eq d scalars_equal_sym [of H mem "vl_kind layout" l r e]
      by (simp add: values_equal.simps [of M H mem layout r l depth])
  next
    case None
    then have n: "scalars_equal H mem (vl_kind layout) r l = None" using scalars_equal_none by blast
    consider "vl_kind layout = vkStruct" | "vl_kind layout \<noteq> vkStruct" "vl_kind layout = vkNullable"
      | "vl_kind layout \<noteq> vkStruct" "vl_kind layout \<noteq> vkNullable" by blast
    then show ?thesis
    proof cases
      case s: 1
      then show ?thesis using "1.IH"(1) [OF d None s] eq d None n
        by (simp add: values_equal.simps [of M H mem layout r l depth])
    next
      case u: 2
      let ?payload = "the (vl_fields layout) ! 0"
      show ?thesis
      proof (cases "load_value 1 mem l = 0 \<or> load_value 1 mem l \<noteq> load_value 1 mem r")
        case True
        with eq d None n u show ?thesis
          by (cases e; auto simp add: Let_def values_equal.simps [of M H mem layout r l depth] split: if_splits)
      next
        case False
        then have ve: "values_equal M H mem (layout_at M (vf_type ?payload))
            (l + of_nat (vf_offset ?payload)) (r + of_nat (vf_offset ?payload)) (depth + 1) = Inr e"
          and tags: "\<not> (1 < load_value 1 mem l \<or> 1 < load_value 1 mem r)"
          using eq d None u by (simp_all add: Let_def split: if_splits)
        have "\<not> (load_value 1 mem l \<noteq> load_value 1 mem r \<or> load_value 1 mem l = 0)" using False by blast
        from "1.IH"(2) [OF d None u refl refl tags this refl ve] show ?thesis
          using d n u False tags by (auto simp add: Let_def values_equal.simps [of M H mem layout r l depth])
      qed
    next
      case 3
      then show ?thesis using eq d None by simp
    qed
  qed
next
  case (2 M H mem l r depth)
  then show ?case by simp
next
  case (3 M H mem field fs l r depth)
  show ?case
  proof (cases "depth > 128")
    case True
    then show ?thesis using "3.prems" by simp
  next
    case d: False
    let ?o = "of_nat (vf_offset field)"
    from "3.prems" d obtain x where ve:
        "values_equal M H mem (layout_at M (vf_type field)) (l + ?o) (r + ?o) (depth + 1) = Inr x"
      by (auto split: sum.splits)
    from "3.IH"(1) [OF d ve] have rv:
        "values_equal M H mem (layout_at M (vf_type field)) (r + ?o) (l + ?o) (depth + 1) = Inr x" .
    show ?thesis using "3.IH"(2) [OF d ve] "3.prems" d ve rv by (cases x) auto
  qed
qed

lemma equal_trans:
  "values_equal M H mem layout l m depth = Inr True \<Longrightarrow> values_equal M H mem layout m r depth = Inr True \<Longrightarrow>
     values_equal M H mem layout l r depth = Inr True"
  "fields_equal M H mem fs l m depth = Inr True \<Longrightarrow> fields_equal M H mem fs m r depth = Inr True \<Longrightarrow>
     fields_equal M H mem fs l r depth = Inr True"
proof (induction M H mem layout l m depth and M H mem fs l m depth
    arbitrary: r and r rule: values_equal_fields_equal.induct)
  case (1 M H mem layout l m depth)
  note eq = "1.prems"(1) [unfolded values_equal.simps [of M H mem layout l m depth]]
    "1.prems"(2) [unfolded values_equal.simps [of M H mem layout m r depth]]
  from eq(1) have d: "\<not> depth > 128" by (auto split: if_splits)
  show ?case
  proof (cases "scalars_equal H mem (vl_kind layout) l m")
    case (Some res)
    then obtain res' where "scalars_equal H mem (vl_kind layout) m r = Some res'"
      using scalars_equal_none by (metis option.distinct(1) option.exhaust)
    with Some show ?thesis using eq d scalars_equal_trans [of H mem "vl_kind layout" l m r]
      by (simp add: values_equal.simps [of M H mem layout l r depth])
  next
    case None
    then have n: "scalars_equal H mem (vl_kind layout) m r = None" "scalars_equal H mem (vl_kind layout) l r = None"
      using scalars_equal_none by blast+
    consider "vl_kind layout = vkStruct" | "vl_kind layout \<noteq> vkStruct" "vl_kind layout = vkNullable"
      | "vl_kind layout \<noteq> vkStruct" "vl_kind layout \<noteq> vkNullable" by blast
    then show ?thesis
    proof cases
      case s: 1
      then show ?thesis using "1.IH"(1) [OF d None s] eq d None n
        by (simp add: values_equal.simps [of M H mem layout l r depth])
    next
      case u: 2
      let ?payload = "the (vl_fields layout) ! 0"
      show ?thesis
      proof (cases "load_value 1 mem l = 0 \<or> load_value 1 mem l \<noteq> load_value 1 mem m")
        case True
        with eq d None n u show ?thesis
          by (simp add: Let_def values_equal.simps [of M H mem layout l r depth] split: if_splits)
      next
        case False
        then have ve: "values_equal M H mem (layout_at M (vf_type ?payload))
            (l + of_nat (vf_offset ?payload)) (m + of_nat (vf_offset ?payload)) (depth + 1) = Inr True"
          and tags: "\<not> (1 < load_value 1 mem l \<or> 1 < load_value 1 mem m)"
          using eq(1) d None u by (simp_all add: Let_def split: if_splits)
        have mr: "load_value 1 mem m = load_value 1 mem r" "values_equal M H mem (layout_at M (vf_type ?payload))
            (m + of_nat (vf_offset ?payload)) (r + of_nat (vf_offset ?payload)) (depth + 1) = Inr True"
          using eq(2) d n(1) u False by (simp_all add: Let_def split: if_splits)
        have "\<not> (load_value 1 mem l \<noteq> load_value 1 mem m \<or> load_value 1 mem l = 0)" using False by blast
        from "1.IH"(2) [OF d None u refl refl tags this refl ve mr(2)] show ?thesis
          using d n u False tags mr(1) by (auto simp add: Let_def values_equal.simps [of M H mem layout l r depth])
      qed
    next
      case 3
      then show ?thesis using eq d None by simp
    qed
  qed
next
  case (2 M H mem l m depth)
  then show ?case by simp
next
  case (3 M H mem field fs l m depth)
  show ?case
  proof (cases "depth > 128")
    case True
    then show ?thesis by simp
  next
    case d: False
    let ?o = "of_nat (vf_offset field)"
    from "3.prems"(1) d have a: "values_equal M H mem (layout_at M (vf_type field)) (l + ?o) (m + ?o) (depth + 1) = Inr True"
        "fields_equal M H mem fs l m depth = Inr True"
      by (auto split: sum.splits if_splits)
    from "3.prems"(2) d have b: "values_equal M H mem (layout_at M (vf_type field)) (m + ?o) (r + ?o) (depth + 1) = Inr True"
        "fields_equal M H mem fs m r depth = Inr True"
      by (auto split: sum.splits if_splits)
    show ?thesis using "3.IH"(1) [OF d a(1) b(1)] "3.IH"(2) [OF d a(1) _ a(2) b(2)] d by simp
  qed
qed

lemma require_value_box_Inr:
  "require_value_box M H p = Inr obj \<Longrightarrow> p \<noteq> 0 \<and> require_object (header_at H p) = Inr obj"
  by (auto simp: require_value_box_def header_at_def require_object_def Let_def split: sum.splits if_splits)

text \<open>Two values of one box type, and the comparison of their payloads.\<close>

lemma box_equal_payloads:
  assumes "cloth_rt_value_box_equals M H mem p q = Inr True"
  obtains x y where "require_value_box M H p = Inr x" "require_object (header_at H q) = Inr y" "q \<noteq> 0"
    "oh_type x = oh_type y"
    "values_equal M H mem (layout_at M (td_boxed_value_layout (descriptor M (oh_type x))))
       (p + of_nat (td_boxed_value_offset (descriptor M (oh_type x))))
       (q + of_nat (td_boxed_value_offset (descriptor M (oh_type x)))) 0 = Inr True"
  using assms by (auto simp: cloth_rt_value_box_equals_def Let_def split: sum.splits if_splits)

lemma box_same_type:
  assumes "require_value_box M H p = Inr x" "require_object (header_at H q) = Inr y" "oh_type x = oh_type y"
  shows "require_value_box M H q = Inr y"
  using assms by (auto simp: require_value_box_def Let_def split: sum.splits if_splits)

lemma box_hash:
  assumes "cloth_rt_value_box_hash_code M H mem p = Inr h" "require_value_box M H p = Inr x"
  obtains v where "value_hash M H mem (layout_at M (td_boxed_value_layout (descriptor M (oh_type x))))
       (p + of_nat (td_boxed_value_offset (descriptor M (oh_type x)))) 0 = Inr v"
    "h = combine_hash (hash_bytes (bytes_of (td_name (descriptor M (oh_type x)))) (td_name_size (descriptor M (oh_type x)))) v"
proof (cases "value_hash M H mem (layout_at M (td_boxed_value_layout (descriptor M (oh_type x))))
       (p + of_nat (td_boxed_value_offset (descriptor M (oh_type x)))) 0")
  case (Inl e)
  then show ?thesis using assms by (simp add: cloth_rt_value_box_hash_code_def Let_def)
next
  case (Inr v)
  then show ?thesis using assms that [OF Inr] by (simp add: cloth_rt_value_box_hash_code_def Let_def)
qed

lemma box_equal_sym:
  assumes "cloth_rt_value_box_equals M H mem p q = Inr e" "require_value_box M H q = Inr y"
  shows "cloth_rt_value_box_equals M H mem q p = Inr e"
proof -
  from assms(1) obtain x where x: "require_value_box M H p = Inr x"
    by (auto simp: cloth_rt_value_box_equals_def split: sum.splits)
  note p = require_value_box_Inr [OF x]
  note q = require_value_box_Inr [OF assms(2)]
  show ?thesis
  proof (cases "oh_type x = oh_type y")
    case True
    with assms(1) x p q have "values_equal M H mem (layout_at M (td_boxed_value_layout (descriptor M (oh_type y))))
       (p + of_nat (td_boxed_value_offset (descriptor M (oh_type y))))
       (q + of_nat (td_boxed_value_offset (descriptor M (oh_type y)))) 0 = Inr e"
      by (simp add: cloth_rt_value_box_equals_def Let_def)
    from equal_sym(1) [OF this] True x p q assms(2) show ?thesis
      by (simp add: cloth_rt_value_box_equals_def Let_def)
  next
    case False
    with assms x p q show ?thesis by (simp add: cloth_rt_value_box_equals_def Let_def)
  qed
qed

lemma box_equal_trans:
  assumes "cloth_rt_value_box_equals M H mem p q = Inr True" "cloth_rt_value_box_equals M H mem q r = Inr True"
  shows "cloth_rt_value_box_equals M H mem p r = Inr True"
proof -
  from assms(1) obtain x y where pq: "require_value_box M H p = Inr x" "require_object (header_at H q) = Inr y"
    "oh_type x = oh_type y"
    "values_equal M H mem (layout_at M (td_boxed_value_layout (descriptor M (oh_type x))))
       (p + of_nat (td_boxed_value_offset (descriptor M (oh_type x))))
       (q + of_nat (td_boxed_value_offset (descriptor M (oh_type x)))) 0 = Inr True"
    by (rule box_equal_payloads)
  from assms(2) obtain y' z where qr: "require_value_box M H q = Inr y'" "require_object (header_at H r) = Inr z" "r \<noteq> 0"
    "oh_type y' = oh_type z"
    "values_equal M H mem (layout_at M (td_boxed_value_layout (descriptor M (oh_type y'))))
       (q + of_nat (td_boxed_value_offset (descriptor M (oh_type y'))))
       (r + of_nat (td_boxed_value_offset (descriptor M (oh_type y')))) 0 = Inr True"
    by (rule box_equal_payloads)
  have "y' = y" using box_same_type [OF pq(1,2,3)] qr(1) by simp
  with pq qr equal_trans(1) [of M H mem] show ?thesis
    by (auto simp: cloth_rt_value_box_equals_def Let_def)
qed

lemma box_equal_hash:
  assumes "cloth_rt_value_box_equals M H mem p q = Inr True"
    and "cloth_rt_value_box_hash_code M H mem p = Inr h" "cloth_rt_value_box_hash_code M H mem q = Inr k"
  shows "h = k"
proof -
  from assms(1) obtain x y where pq: "require_value_box M H p = Inr x" "require_object (header_at H q) = Inr y"
    "oh_type x = oh_type y"
    "values_equal M H mem (layout_at M (td_boxed_value_layout (descriptor M (oh_type x))))
       (p + of_nat (td_boxed_value_offset (descriptor M (oh_type x))))
       (q + of_nat (td_boxed_value_offset (descriptor M (oh_type x)))) 0 = Inr True"
    by (rule box_equal_payloads)
  note q = box_same_type [OF pq(1-3)]
  from box_hash [OF assms(2) pq(1)] obtain v where v: "value_hash M H mem (layout_at M (td_boxed_value_layout (descriptor M (oh_type x))))
       (p + of_nat (td_boxed_value_offset (descriptor M (oh_type x)))) 0 = Inr v"
    "h = combine_hash (hash_bytes (bytes_of (td_name (descriptor M (oh_type x)))) (td_name_size (descriptor M (oh_type x)))) v" .
  from box_hash [OF assms(3) q] obtain w where w: "value_hash M H mem (layout_at M (td_boxed_value_layout (descriptor M (oh_type y))))
       (q + of_nat (td_boxed_value_offset (descriptor M (oh_type y)))) 0 = Inr w"
    "k = combine_hash (hash_bytes (bytes_of (td_name (descriptor M (oh_type y)))) (td_name_size (descriptor M (oh_type y)))) w" .
  from equal_hash(1) [OF pq(4) v(1)] w pq(3) v(2) show ?thesis by simp
qed

text \<open>
  C36: Equality of boxed values agrees with their hash codes: boxed values that are equal have the same
  hash code, whatever their type, floating-point zeros of both signs and strings in different
  objects included. Equality of boxed values is symmetric and transitive.
\<close>

theorem boxed_equality_correct:
  "(cloth_rt_value_box_equals M H mem p q = Inr True \<and> cloth_rt_value_box_hash_code M H mem p = Inr h \<and>
    cloth_rt_value_box_hash_code M H mem q = Inr k \<longrightarrow> h = k) \<and>
   (cloth_rt_value_box_equals M H mem p q = Inr e \<and> require_value_box M H q = Inr y \<longrightarrow>
    cloth_rt_value_box_equals M H mem q p = Inr e) \<and>
   (cloth_rt_value_box_equals M H mem p q = Inr True \<and> cloth_rt_value_box_equals M H mem q r = Inr True \<longrightarrow>
    cloth_rt_value_box_equals M H mem p r = Inr True)"
  using box_equal_hash [of M H mem p q h k] box_equal_sym [of M H mem p q e y] box_equal_trans [of M H mem p q r]
  by blast

text \<open>Two boxes of a 64-bit float, holding the two zeros.\<close>

definition sample_box_metadata :: Metadata where
  "sample_box_metadata =
     \<lparr>md_types = [(sample_class ObjectType [])
         \<lparr>td_kind := hkValueBox, td_boxed_value_layout := Some 0, td_boxed_value_offset := 16,
          td_reference_offsets := None, td_reference_count := 0\<rparr>],
      md_layouts = [\<lparr>vl_kind = vkFloat64, vl_name = Some ''f64'', vl_name_size = 3, vl_size = 8, vl_alignment = 8,
       vl_fields = None, vl_field_count = 0, vl_enum_cases = None, vl_enum_case_count = 0\<rparr>]\<rparr>"

definition sample_box :: HeapObject where
  "sample_box =
     \<lparr>ob_header = \<lparr>oh_type = ProgramType 0, oh_runtime_state = None\<rparr>, ob_words = (\<lambda>_. 0), ob_data = 0,
      ob_string = \<lparr>st_type = ProgramType 0, st_data = None, st_byte_size = 0, st_scalar_count = 0, st_owns_data = False\<rparr>, ob_length = 0,
      ob_element_size = 0, ob_element = None, ob_cells = (\<lambda>_. 0)\<rparr>"

definition sample_box_heap :: Heap where
  "sample_box_heap = sample_start\<lparr>hp_objects := (\<lambda>_. Some sample_box)\<rparr>"

definition sample_box_memory :: memory where
  "sample_box_memory = (\<lambda>a. if a = 8192 + 16 + 7 then 128 else 0)"

lemmas sample_box_defs = sample_box_metadata_def sample_box_heap_def sample_box_memory_def sample_metadata_defs

lemma sample_box_layout: "validate_value_layout sample_box_metadata (Some 0) 0 = Inr ()"
  using sample_power_of_two
  by (simp add: validate_value_layout.simps validate_layout_header_def sample_box_defs Let_def)

lemma sample_box_type: "validate_type_descriptor sample_box_metadata (ProgramType 0) = Inr ()"
proof -
  have "validate_boxed_value sample_box_metadata (descriptor sample_box_metadata (ProgramType 0)) = Inr ()"
    using sample_box_layout
    by (simp add: validate_boxed_value_def sample_box_metadata_def sample_class_def Let_def sizeof_ClothObjectHeader_def)
  then show ?thesis using sample_power_of_two
    by (simp add: sample_box_defs validate_type_descriptor_def has_invalid_parent_def Let_def
      is_heap_object_kind_def inherits_interface_def is_object_root_descriptor_def)
qed

lemma sample_box_payload:
  "td_boxed_value_layout (md_types sample_box_metadata ! 0) = Some 0"
  "td_boxed_value_offset (md_types sample_box_metadata ! 0) = 16"
  "vl_kind (md_layouts sample_box_metadata ! 0) = vkFloat64"
  by (simp_all add: sample_box_metadata_def)

lemma sample_box_header:
  "header_at sample_box_heap 4096 = Some \<lparr>oh_type = ProgramType 0, oh_runtime_state = None\<rparr>"
  "header_at sample_box_heap 8192 = Some \<lparr>oh_type = ProgramType 0, oh_runtime_state = None\<rparr>"
  by (simp_all add: header_at_def sample_box_heap_def sample_box_def)

lemma sample_box_valid: "require_value_box sample_box_metadata sample_box_heap p =
    Inr \<lparr>oh_type = ProgramType 0, oh_runtime_state = None\<rparr>" if "p = 4096 \<or> p = 8192"
  using that sample_box_type
  by (auto simp: require_value_box_def sample_box_header require_object_def sample_box_payload)

lemma load_value_8:
  "load_value 8 mem p =
     ucast (mem p) OR push_bit 8 (ucast (mem (p + 1)) OR push_bit 8 (ucast (mem (p + 2)) OR
     push_bit 8 (ucast (mem (p + 3)) OR push_bit 8 (ucast (mem (p + 4)) OR push_bit 8 (ucast (mem (p + 5)) OR
     push_bit 8 (ucast (mem (p + 6)) OR push_bit 8 (ucast (mem (p + 7)))))))))"
proof -
  have eight: "(8 :: nat) = Suc (Suc (Suc (Suc (Suc (Suc (Suc (Suc 0)))))))" by simp
  have "load_value (Suc (Suc (Suc (Suc (Suc (Suc (Suc (Suc 0)))))))) mem p =
     ucast (mem p) OR push_bit 8 (ucast (mem (p + 1)) OR push_bit 8 (ucast (mem (p + 2)) OR
     push_bit 8 (ucast (mem (p + 3)) OR push_bit 8 (ucast (mem (p + 4)) OR push_bit 8 (ucast (mem (p + 5)) OR
     push_bit 8 (ucast (mem (p + 6)) OR push_bit 8 (ucast (mem (p + 7)))))))))"
    by (simp only: load_value.simps) (simp add: add.assoc)
  then show ?thesis by (simp only: eight [symmetric])
qed

lemma sample_box_bits:
  "load_value 8 sample_box_memory (4096 + 16) = 0" "load_value 8 sample_box_memory (8192 + 16) = 0x8000000000000000"
  by (simp_all add: sample_box_memory_def load_value_8)

lemma sample_box_equals:
  "cloth_rt_value_box_equals sample_box_metadata sample_box_heap sample_box_memory 4096 8192 = Inr True"
proof -
  have "values_equal sample_box_metadata sample_box_heap sample_box_memory
      (md_layouts sample_box_metadata ! 0) (4096 + 16) (8192 + 16) 0 = Inr True"
    by (subst values_equal.simps)
      (simp only: sample_box_payload sample_box_bits scalars_equal_def ClothValueKind.case option.case, simp add:
        float_equal_def float_is_nan_def float_is_zero_def)
  then show ?thesis
    using sample_box_valid [of 4096] require_value_box_Inr [OF sample_box_valid [of 8192]]
    by (simp add: cloth_rt_value_box_equals_def sample_box_payload Let_def)
qed

theorem boxed_equality_correct_witness:
  "cloth_rt_value_box_equals sample_box_metadata sample_box_heap sample_box_memory 8192 4096 = Inr True \<and>
   cloth_rt_value_box_equals sample_box_metadata sample_box_heap sample_box_memory 4096 4096 = Inr True"
  using boxed_equality_correct [of sample_box_metadata sample_box_heap sample_box_memory 4096 8192 _ _ True _ 4096]
    sample_box_equals sample_box_valid [of 8192]
  by auto

section \<open>The text of a value is well-formed\<close>

definition well_formed :: "string \<Rightarrow> bool" where
  "well_formed t \<longleftrightarrow> (\<exists>vs. encodes vs t)"

lemma well_formed_append: "well_formed s \<Longrightarrow> well_formed t \<Longrightarrow> well_formed (s @ t)"
  unfolding well_formed_def by (blast intro: encodes_append)

lemma well_formed_ascii: "list_all (\<lambda>c. code c < 128) t \<Longrightarrow> well_formed t"
proof -
  assume a: "list_all (\<lambda>c. code c < 128) t"
  then have "concat (map utf8_bytes (map code t)) = map code t"
    by (induction t) (simp_all add: utf8_bytes_def)
  moreover have "\<forall>v \<in> set (map code t). scalar_ok v" using a by (auto simp: list_all_iff scalar_ok_def)
  ultimately show "well_formed t" unfolding well_formed_def encodes_def by metis
qed

lemma decimal_ascii: "list_all (\<lambda>c. code c < 128) (decimal_of_nat n)"
proof (induction n rule: decimal_of_nat.induct)
  case (1 n)
  have "code (digit_char d) < 128" if "d < 10" for d
    using that by (simp add: digit_char_def)
  with 1 show ?case by (subst decimal_of_nat.simps) auto
qed

lemma decimal_well_formed: "well_formed (decimal_of_int i)"
  by (rule well_formed_ascii) (simp add: decimal_of_int_def decimal_ascii)

lemma append_utf8_scalar_eq: "append_utf8_scalar v = append_utf8 v []"
  by (simp add: append_utf8_scalar_def append_utf8_def)

lemma scalar_well_formed:
  assumes "\<not> (v > 0x10FFFF \<or> (v \<ge> 0xD800 \<and> v \<le> 0xDFFF))"
  shows "well_formed (append_utf8_scalar (ucast (v :: u64)))"
proof -
  have "unat v \<le> 0x10FFFF" using assms by (simp add: word_less_nat_alt)
  then have u: "unat (ucast v :: u32) = unat v" by (simp add: unat_ucast_mod)
  have "scalar_ok (unat (ucast v :: u32))"
    using assms by (auto simp: u scalar_ok_def word_less_nat_alt word_le_nat_alt)
  from encodes_append_utf8 [OF this] show ?thesis
    by (auto simp: well_formed_def append_utf8_scalar_eq)
qed

text \<open>What the texts of the parts of a value are: the names the compiler emits and the strings of the heap.\<close>

definition layout_text_ok :: "Metadata \<Rightarrow> ClothValueLayout \<Rightarrow> bool" where
  "layout_text_ok M l \<longleftrightarrow>
     well_formed (name_bytes (vl_name l) (vl_name_size l)) \<and>
     list_all (\<lambda>f. well_formed (name_bytes (vf_name f) (vf_name_size f)) \<and>
        (\<exists>i < length (md_layouts M). vf_type f = Some i)) (cells (vl_fields l) (vl_field_count l)) \<and>
     (vl_kind l = vkNullable \<longrightarrow> vl_field_count l \<noteq> 0 \<and> cells (vl_fields l) (vl_field_count l) \<noteq> []) \<and>
     list_all (\<lambda>item. well_formed (name_bytes (ec_name item) (ec_name_size item))) (cells (vl_enum_cases l) (vl_enum_case_count l)) \<and>
     length (cells (vl_enum_cases l) (vl_enum_case_count l)) = vl_enum_case_count l"

definition texts_ok :: "(nat \<Rightarrow> u64 \<Rightarrow> string) \<Rightarrow> Metadata \<Rightarrow> Heap \<Rightarrow> bool" where
  "texts_ok format_number M H \<longleftrightarrow>
     (\<forall>w b. well_formed (format_number w b)) \<and> list_all (layout_text_ok M) (md_layouts M) \<and>
     (\<forall>p obj. header_at H p = Some obj \<longrightarrow>
        well_formed (name_bytes (td_name (descriptor M (oh_type obj))) (td_name_size (descriptor M (oh_type obj))))) \<and>
     (\<forall>p s. require_traversable_string (string_at H p) = Inr s \<longrightarrow> well_formed (name_bytes (st_data s) (st_byte_size s)))"

lemma append_bytes_Inr [simp]:
  "append_bytes output b = Inr t \<longleftrightarrow> t = output @ b \<and> length output + length b \<le> kMaximumStringSize"
  by (auto simp: append_bytes_def)

lemma bind_outcome_Inr [simp]: "bind_outcome m f = Inr t \<longleftrightarrow> (\<exists>x. m = Inr x \<and> f x = Inr t)"
  by (cases m) auto

lemma float_text_well_formed: "\<forall>w b. well_formed (format_number w b) \<Longrightarrow> well_formed (float_text format_number w bits)"
  by (auto simp: float_text_def intro: well_formed_ascii)

lemma require_object_Inr: "require_object v = Inr obj \<Longrightarrow> v = Some obj"
  by (auto simp: require_object_def split: option.splits if_splits)

lemmas well_formed_parts = well_formed_append decimal_well_formed scalar_well_formed float_text_well_formed

lemma well_formed_literals:
  "well_formed ''false''" "well_formed ''true''" "well_formed ''null''" "well_formed ''<''" "well_formed ''>''"
  "well_formed ''.''" "well_formed ''{''" "well_formed ''}''" "well_formed ''='' " "well_formed '', ''"
  by (simp_all add: well_formed_ascii)

lemma enum_item_well_formed:
  assumes "layout_text_ok M l" "tag < vl_enum_case_count l"
  shows "well_formed (name_bytes (ec_name (the (vl_enum_cases l) ! tag)) (ec_name_size (the (vl_enum_cases l) ! tag)))"
proof -
  let ?c = "cells (vl_enum_cases l) (vl_enum_case_count l)"
  from assms have "?c ! tag \<in> set ?c" by (intro nth_mem) (simp add: layout_text_ok_def)
  moreover have "?c ! tag = the (vl_enum_cases l) ! tag"
    using assms by (cases "vl_enum_cases l") (auto simp: layout_text_ok_def)
  ultimately show ?thesis using assms(1) unfolding layout_text_ok_def by (metis (no_types, lifting) list.pred_set)
qed

lemma scalar_text_well_formed:
  assumes ok: "texts_ok f M H" and l: "layout_text_ok M layout" and o: "well_formed output"
    and t: "scalar_text f M H mem layout output p = Some (Inr t)"
  shows "well_formed t \<and> length t \<le> kMaximumStringSize"
proof -
  have fm: "\<forall>w b. well_formed (f w b)" and
    strings: "\<And>p s. require_traversable_string (string_at H p) = Inr s \<Longrightarrow> well_formed (name_bytes (st_data s) (st_byte_size s))" and
    objects: "\<And>p obj. header_at H p = Some obj \<Longrightarrow>
        well_formed (name_bytes (td_name (descriptor M (oh_type obj))) (td_name_size (descriptor M (oh_type obj))))"
    using ok by (auto simp: texts_ok_def)
  have name: "well_formed (name_bytes (vl_name layout) (vl_name_size layout))" using l by (simp add: layout_text_ok_def)
  note parts = well_formed_append [OF o] well_formed_literals
  show ?thesis
  proof (cases "vl_kind layout")
    case vkString
    have "well_formed (output @ name_bytes (st_data s) (st_byte_size s))"
      if "require_traversable_string (string_at H (load_value 8 mem p)) = Inr s" for s
      using parts(1) strings [OF that] .
    with vkString t parts show ?thesis
      by (cases "require_traversable_string (string_at H (load_value 8 mem p))")
        (simp_all add: scalar_text_def Let_def del: load_value.simps split: if_splits)
  next
    case vkReference
    have "well_formed (((output @ ''<'') @ name_bytes (td_name (descriptor M (oh_type obj)))
        (td_name_size (descriptor M (oh_type obj)))) @ ''>'')"
      if "require_object (header_at H (load_value 8 mem p)) = Inr obj" for obj
      using well_formed_append [OF well_formed_append [OF parts(1) objects] ] well_formed_literals
        require_object_Inr [OF that] by blast
    with vkReference t parts show ?thesis
      by (cases "require_object (header_at H (load_value 8 mem p))")
        (simp_all add: scalar_text_def Let_def split: if_splits)
  next
    case vkEnum
    let ?tag = "unat (load_value 4 mem p)"
    have "well_formed (((output @ name_bytes (vl_name layout) (vl_name_size layout)) @ ''.'') @
        name_bytes (ec_name (the (vl_enum_cases layout) ! ?tag)) (ec_name_size (the (vl_enum_cases layout) ! ?tag)))"
      if "?tag < vl_enum_case_count layout"
      using well_formed_append [OF well_formed_append [OF parts(1) [OF name] well_formed_literals(6)]
          enum_item_well_formed [OF l that]] .
    with vkEnum t show ?thesis
      by (cases "?tag < vl_enum_case_count layout") (simp_all add: scalar_text_def Let_def)
  next
    case vkChar
    then show ?thesis using t parts(1) [OF scalar_well_formed]
      by (simp add: scalar_text_def Let_def split: if_splits)
  qed (use t parts(1) [OF decimal_well_formed] parts(1) [OF float_text_well_formed [OF fm]]
      parts(1) [OF well_formed_literals(1)] parts(1) [OF well_formed_literals(2)] in
    \<open>simp_all add: scalar_text_def Let_def split: if_splits\<close>)
qed

lemma layout_text_okD:
  assumes "texts_ok f M H" "layout_text_ok M l" "field \<in> set (cells (vl_fields l) (vl_field_count l))"
  shows "layout_text_ok M (layout_at M (vf_type field)) \<and> well_formed (name_bytes (vf_name field) (vf_name_size field))"
proof -
  from assms(2,3) obtain i where "i < length (md_layouts M)" "vf_type field = Some i"
    "well_formed (name_bytes (vf_name field) (vf_name_size field))"
    by (auto simp: layout_text_ok_def list.pred_set)
  with assms(1) show ?thesis by (auto simp: texts_ok_def list_all_length)
qed

lemma append_well_formed:
  "append_value f M H mem output layout p depth = Inr t \<Longrightarrow> texts_ok f M H \<Longrightarrow> layout_text_ok M layout \<Longrightarrow>
     well_formed output \<Longrightarrow> length output \<le> kMaximumStringSize \<Longrightarrow>
     well_formed t \<and> length t \<le> kMaximumStringSize"
  "append_fields f M H mem output first fs p depth = Inr t' \<Longrightarrow> texts_ok f M H \<Longrightarrow>
     \<forall>field \<in> set fs. layout_text_ok M (layout_at M (vf_type field)) \<and>
       well_formed (name_bytes (vf_name field) (vf_name_size field)) \<Longrightarrow>
     well_formed output \<Longrightarrow> length output \<le> kMaximumStringSize \<Longrightarrow>
     well_formed t' \<and> length t' \<le> kMaximumStringSize"
proof (induction f M H mem "output" layout p depth and f M H mem "output" first fs p depth
    arbitrary: t and t' rule: append_value_append_fields.induct)
  case (1 f M H mem buf layout p depth)
  note eq = "1.prems"(1) [unfolded append_value.simps [of f M H mem buf layout p depth]]
  from eq have d: "\<not> depth > 128" by (auto split: if_splits)
  note ok = "1.prems"(2,3) and out = "1.prems"(4,5)
  show ?case
  proof (cases "scalar_text f M H mem layout buf p")
    case (Some r)
    then show ?thesis using eq d scalar_text_well_formed [OF ok out(1)] by simp
  next
    case None
    consider "vl_kind layout = vkStruct" | "vl_kind layout \<noteq> vkStruct" "vl_kind layout = vkNullable"
      | "vl_kind layout \<noteq> vkStruct" "vl_kind layout \<noteq> vkNullable" by blast
    then show ?thesis
    proof cases
      case s: 1
      let ?o = "(buf @ name_bytes (vl_name layout) (vl_name_size layout)) @ ''{''"
      let ?b = "buf @ name_bytes (vl_name layout) (vl_name_size layout)"
      from eq d None s obtain u where u:
          "append_bytes buf (name_bytes (vl_name layout) (vl_name_size layout)) = Inr ?b"
          "append_bytes ?b ''{'' = Inr ?o"
          "append_fields f M H mem ?o True (cells (vl_fields layout) (vl_field_count layout)) p depth = Inr u"
          "t = u @ ''}''" "length t \<le> kMaximumStringSize"
        by auto
      have wf: "well_formed ?o"
        using ok(2) by (intro well_formed_append out(1) well_formed_literals) (simp add: layout_text_ok_def)
      have "well_formed u"
        using "1.IH"(1) [OF d None s u(1,2) u(3) ok(1) _ wf] layout_text_okD [OF ok] u(2) by auto
      then show ?thesis using u(4,5) well_formed_append well_formed_literals(8) by blast
    next
      case n: 2
      let ?payload = "the (vl_fields layout) ! 0"
      have pay: "layout_text_ok M (layout_at M (vf_type ?payload))"
      proof -
        have "cells (vl_fields layout) (vl_field_count layout) \<noteq> []" "vl_field_count layout \<noteq> 0"
          using ok(2) n by (auto simp: layout_text_ok_def)
        then have "?payload \<in> set (cells (vl_fields layout) (vl_field_count layout))"
          by (cases "vl_fields layout"; cases "the (vl_fields layout)"; cases "vl_field_count layout") auto
        from layout_text_okD [OF ok this] show ?thesis by simp
      qed
      show ?thesis
      proof (cases "load_value 1 mem p = 0")
        case True
        then show ?thesis using eq d None n out well_formed_append well_formed_literals by auto
      next
        case False
        then have tag: "\<not> 1 < load_value 1 mem p"
          and v: "append_value f M H mem buf (layout_at M (vf_type ?payload)) (p + of_nat (vf_offset ?payload)) (depth + 1) = Inr t"
          using eq d None n by (simp_all add: Let_def split: if_splits)
        show ?thesis by (rule "1.IH"(2) [OF d None n refl tag False refl v ok(1) pay out])
      qed
    next
      case 3
      then show ?thesis using eq d None by simp
    qed
  qed
next
  case (2 f M H mem buf first p depth)
  then show ?case by simp
next
  case (3 f M H mem buf first field fs p depth)
  show ?case
  proof (cases "depth > 128")
    case True
    then show ?thesis using "3.prems" by simp
  next
    case d: False
    let ?n = "name_bytes (vf_name field) (vf_name_size field)"
    from "3.prems"(1) d obtain a b c v where *: "(if first then Inr buf else append_bytes buf '', '') = Inr a"
        "append_bytes a ?n = Inr b" "append_bytes b ''='' = Inr c"
        "append_value f M H mem c (layout_at M (vf_type field)) (p + of_nat (vf_offset field)) (depth + 1) = Inr v"
        "append_fields f M H mem v False fs p depth = Inr t'"
      by (simp only: append_fields.simps if_False bind_outcome_Inr) blast
    then have bc: "b = a @ ?n" "c = (a @ ?n) @ ''=''" by simp_all
    note a = * [unfolded bc]
    have "well_formed a"
      using a(1) "3.prems"(4) by (auto intro: well_formed_append well_formed_literals split: if_splits)
    then have wf: "well_formed ((a @ ?n) @ ''='')"
      using "3.prems"(3) by (intro well_formed_append well_formed_literals) auto
    have "well_formed v \<and> length v \<le> kMaximumStringSize"
      using "3.IH"(1) [OF d a(1,2,3) a(4) "3.prems"(2) _ wf] "3.prems"(3) a(3) by auto
    then show ?thesis using "3.IH"(2) [OF d a(1,2,3,4) a(5) "3.prems"(2)] "3.prems"(3) by auto
  qed
qed

lemma count_well_formed: "encodes vs t \<Longrightarrow> count_utf8_scalars t (length t) m = Inr (length vs)"
  using compiler_utf8.count_loop_iff [of 0 t 0 "length vs"] counters_agree [of t]
  by (auto simp: count_utf8_scalars_def utf8_scalar_count_def)

text \<open>
  C37: The text of a boxed value is always a string the runtime can hold: when the names the compiler
  emitted and the strings in the heap are well-formed UTF-8 and formatting the payload succeeds, the
  text is well-formed UTF-8 too, no longer than the largest string, and the count passed on for the
  new string object is the number of scalars the text encodes; the final validation never fails.
\<close>

theorem value_text_correct:
  assumes "texts_ok format_number M H" "require_value_box M H p = Inr obj"
    and "td_boxed_value_layout (descriptor M (oh_type obj)) = Some i" "i < length (md_layouts M)"
    and "append_value format_number M H mem [] (md_layouts M ! i)
           (p + of_nat (td_boxed_value_offset (descriptor M (oh_type obj)))) 0 = Inr t"
  shows "\<exists>vs. encodes vs t \<and> length t \<le> kMaximumStringSize \<and>
    value_box_text format_number M H mem p = Inr (t, length vs)"
proof -
  from assms(1,4) have l: "layout_text_ok M (md_layouts M ! i)" by (simp add: texts_ok_def list_all_length)
  have "well_formed []" by (simp add: well_formed_def)
  from append_well_formed(1) [OF assms(5,1) l this] obtain vs where "encodes vs t" "length t \<le> kMaximumStringSize"
    by (auto simp: well_formed_def)
  with assms count_well_formed [of vs t] show ?thesis
    by (intro exI [of _ vs]) (simp add: value_box_text_def Let_def bind_outcome_def)
qed

definition sample_float_text :: "nat \<Rightarrow> u64 \<Rightarrow> string" where
  "sample_float_text w b = (if b = 0 then ''0'' else ''-0'')"

lemma sample_texts_ok: "texts_ok sample_float_text sample_box_metadata sample_box_heap"
proof -
  have header: "oh_type obj = ProgramType 0" if "header_at sample_box_heap p = Some obj" for p obj
    using that by (auto simp: header_at_def sample_box_heap_def sample_box_def split: if_splits)
  have "st_type s \<noteq> StringType" if "string_at sample_box_heap p = Some s" for p s
    using that by (auto simp: string_at_def sample_box_heap_def sample_box_def split: if_splits)
  then have "require_traversable_string (string_at sample_box_heap p) \<noteq> Inr s" for p s
    by (auto simp: require_traversable_string_def require_string_def split: option.splits if_splits sum.splits)
  moreover have "well_formed (sample_float_text w b)" for w b
    by (simp add: sample_float_text_def well_formed_ascii)
  moreover have "well_formed (name_bytes (td_name (md_types sample_box_metadata ! 0)) (td_name_size (md_types sample_box_metadata ! 0)))"
    by (simp add: sample_box_metadata_def sample_class_def name_bytes_def well_formed_ascii)
  moreover have "list_all (layout_text_ok sample_box_metadata) (md_layouts sample_box_metadata)"
    by (simp add: sample_box_metadata_def layout_text_ok_def name_bytes_def well_formed_ascii)
  ultimately show ?thesis using header by (auto simp: texts_ok_def)
qed

theorem value_text_correct_witness:
  "value_box_text sample_float_text sample_box_metadata sample_box_heap sample_box_memory 8192 = Inr (''-0'', 2)"
proof -
  have "append_value sample_float_text sample_box_metadata sample_box_heap sample_box_memory []
      (md_layouts sample_box_metadata ! 0) (8192 + 16) 0 = Inr ''-0''"
    by (subst append_value.simps)
      (simp only: sample_box_payload sample_box_bits scalar_text_def ClothValueKind.case option.case Let_def,
        simp add: float_text_def float_is_nan_def sample_float_text_def append_bytes_def kMaximumStringSize_def)
  moreover have "0 < length (md_layouts sample_box_metadata)" by (simp add: sample_box_metadata_def)
  moreover note value_text_correct [OF sample_texts_ok sample_box_valid [of 8192], of 0 sample_box_memory "''-0''"]
  ultimately obtain vs where vs: "encodes vs ''-0''"
      "value_box_text sample_float_text sample_box_metadata sample_box_heap sample_box_memory 8192 = Inr (''-0'', length vs)"
    by (auto simp: sample_box_payload)
  have "encodes [45, 48] ''-0''" by (simp add: encodes_def scalar_ok_def utf8_bytes_def)
  with vs(1) have "vs = [45, 48]" by (rule encodes_unique)
  with vs(2) show ?thesis by simp
qed

end
