(* ===== verification/Canonical_Identity.thy ===== *)
theory Canonical_Identity
  imports Prelude
begin

text \<open>
  Canonical identities of declarations (\<^verbatim>\<open>src/identity/canonical_identity.cc\<close>): the byte strings that
  name types and members across packages, their mangling into linker symbols, and interface ids.
  The lemmas decode the encoding: every component carries its length, so an identity determines
  the declaration it was made from.
\<close>

section \<open>Identities\<close>

record PackageIdentity =
  pkg_name :: string
  pkg_version :: string

datatype NominalKind = nkClass | nkInterface | nkEnum | nkStruct

record NominalIdentity =
  nom_package :: PackageIdentity
  nom_source_package :: string
  nom_name :: string
  nom_kind :: NominalKind

datatype CanonicalMemberKind = cmkFunction | cmkConstructor | cmkConstructorInitializer | cmkStaticField
  | cmkInstanceField | cmkDescriptor | cmkEnumCase

definition kCompilerAbiVersion :: nat where
  "kCompilerAbiVersion = 7"

section \<open>The encoding\<close>

definition append_count :: "string \<Rightarrow> u64 \<Rightarrow> string" where
  "append_count output value = output @ map (\<lambda>i. to_char (drop_bit (8 * i) value AND 0xFF)) [0..<8]"

definition append_component :: "string \<Rightarrow> string \<Rightarrow> string" where
  "append_component output value = append_count output (of_nat (length value)) @ value"

primrec member_tag :: "CanonicalMemberKind \<Rightarrow> string" where
  "member_tag cmkFunction = ''function''"
| "member_tag cmkConstructor = ''constructor''"
| "member_tag cmkConstructorInitializer = ''constructor-initializer''"
| "member_tag cmkStaticField = ''static-field''"
| "member_tag cmkInstanceField = ''instance-field''"
| "member_tag cmkDescriptor = ''descriptor''"
| "member_tag cmkEnumCase = ''enum-case''"

definition wrapped_identity :: "string \<Rightarrow> string \<Rightarrow> string" where
  "wrapped_identity tag element = append_component (append_component [] tag) element"

text \<open>\<^verbatim>\<open>std::string::find\<close> of a character from a position on.\<close>

function find_from :: "char \<Rightarrow> string \<Rightarrow> nat \<Rightarrow> nat option" where
  "find_from c s i = (if i \<ge> length s then None else if s ! i = c then Some i else find_from c s (i + 1))"
  by pat_completeness auto
termination by (relation "measure (\<lambda>(c, s, i). length s - i)") auto

declare find_from.simps [simp del]

text \<open>The components of a source package, \<open>n\<close> of them from \<open>begin\<close> on.\<close>

primrec append_source_components :: "nat \<Rightarrow> string \<Rightarrow> nat \<Rightarrow> string \<Rightarrow> string" where
  "append_source_components 0 source begin_at result = result"
| "append_source_components (Suc n) source begin_at result =
     (let e = find_from CHR ''.'' source begin_at;
          part = (case e of None \<Rightarrow> drop begin_at source | Some j \<Rightarrow> take (j - begin_at) (drop begin_at source))
      in append_source_components n source (case e of None \<Rightarrow> begin_at | Some j \<Rightarrow> j + 1)
           (append_component result part))"

definition source_component_count :: "string \<Rightarrow> nat" where
  "source_component_count source =
     (if source = [] then 0 else 1) + length (filter (\<lambda>c. c = CHR ''.'') source)"

definition nominal_kind_name :: "NominalKind \<Rightarrow> string" where
  "nominal_kind_name kind =
     (if kind = nkStruct then ''struct'' else if kind = nkEnum then ''enum''
      else if kind = nkClass then ''class'' else ''interface'')"

definition canonical_nominal_identity :: "NominalIdentity \<Rightarrow> string" where
  "canonical_nominal_identity identity =
     (let result = append_component [] ''nominal'';
          result = append_component result
            (if pkg_name (nom_package identity) = [] then ''standalone'' else ''package'');
          result = append_component result (pkg_name (nom_package identity));
          result = append_component result (pkg_version (nom_package identity));
          component_count = source_component_count (nom_source_package identity);
          result = append_count result (of_nat component_count);
          result = append_source_components component_count (nom_source_package identity) 0 result;
          result = append_component result (nom_name identity)
      in append_component result (nominal_kind_name (nom_kind identity)))"

definition canonical_primitive_identity :: "string \<Rightarrow> string" where
  "canonical_primitive_identity name = wrapped_identity ''primitive'' name"

definition canonical_array_identity :: "string \<Rightarrow> string" where
  "canonical_array_identity element = wrapped_identity ''array'' element"

definition canonical_nullable_identity :: "string \<Rightarrow> string" where
  "canonical_nullable_identity element = wrapped_identity ''nullable'' element"

definition canonical_member_identity ::
  "NominalIdentity \<Rightarrow> CanonicalMemberKind \<Rightarrow> string \<Rightarrow> string list \<Rightarrow> string" where
  "canonical_member_identity owner kind name parameter_types =
     (let result = append_component [] (member_tag kind);
          result = append_component result (canonical_nominal_identity owner);
          result = append_component result name;
          result = append_count result (of_nat (length parameter_types))
      in foldl append_component result parameter_types)"

definition kHex :: string where
  "kHex = ''0123456789abcdef''"

definition append_hex :: "string \<Rightarrow> char \<Rightarrow> string" where
  "append_hex result c = result @ [kHex ! unat (drop_bit 4 (byte c)), kHex ! unat (byte c AND 0xF)]"

definition mangle_canonical_identity :: "string \<Rightarrow> string" where
  "mangle_canonical_identity identity =
     foldl append_hex (''_C'' @ decimal_of_nat kCompilerAbiVersion) identity"

definition canonical_interface_id :: "NominalIdentity \<Rightarrow> u64" where
  "canonical_interface_id identity =
     foldl (\<lambda>result c. (result XOR ucast (byte c)) * 1099511628211) 14695981039346656037
       (canonical_nominal_identity identity)"

text \<open>
  Types and symbols (\<^verbatim>\<open>src/sema/canonical_identity.cc\<close>). A type is given with the references to its file and element
  followed: one declared in a file has its nominal identity; a primitive carries the name
  of its kind, or its own name if it is an error class without a file.
\<close>

datatype SemanticTypeShape =
    NominalType NominalIdentity
  | PrimitiveType string
  | ArrayOf SemanticTypeShape
  | NullableOf SemanticTypeShape

datatype TypeIdentityMode = timSemantic | timOverload

fun canonical_type_identity :: "SemanticTypeShape \<Rightarrow> TypeIdentityMode \<Rightarrow> string" where
  "canonical_type_identity (NominalType identity) mode = canonical_nominal_identity identity"
| "canonical_type_identity (PrimitiveType name) mode = canonical_primitive_identity name"
| "canonical_type_identity (ArrayOf element) mode = canonical_array_identity (canonical_type_identity element mode)"
| "canonical_type_identity (NullableOf element) mode =
     (if mode = timOverload then canonical_type_identity element mode
      else canonical_nullable_identity (canonical_type_identity element mode))"

definition canonical_symbol_identity ::
  "NominalIdentity \<Rightarrow> string \<Rightarrow> SemanticTypeShape list \<Rightarrow> CanonicalMemberKind \<Rightarrow> string" where
  "canonical_symbol_identity owner name parameter_types kind =
     canonical_member_identity owner kind name
       (map (\<lambda>t. canonical_type_identity t timOverload) parameter_types)"

section \<open>Decoding the encoding\<close>

abbreviation count_bytes :: "u64 \<Rightarrow> string" where
  "count_bytes n \<equiv> append_count [] n"

abbreviation component :: "string \<Rightarrow> string" where
  "component v \<equiv> append_component [] v"

lemma append_count_eq: "append_count r n = r @ count_bytes n"
  by (simp add: append_count_def)

lemma append_component_eq: "append_component r v = r @ component v"
  by (simp add: append_component_def append_count_def)

lemma length_count [simp]: "length (count_bytes n) = 8"
  by (simp add: append_count_def)

lemma length_component [simp]: "length (component v) = 8 + length v"
  by (simp add: append_component_def)

lemma to_char_inj_byte: "to_char (v AND 0xFF) = to_char (w AND 0xFF) \<Longrightarrow> v AND 0xFF = (w AND 0xFF :: u64)"
proof -
  have le: "unat (x AND 0xFF) < 256" for x :: u64
  proof -
    have "x AND 0xFF \<le> 0xFF" by (rule word_and_le1)
    then show ?thesis by (simp add: word_le_nat_alt)
  qed
  assume "to_char (v AND 0xFF) = to_char (w AND 0xFF)"
  then have "unat (v AND 0xFF) mod 256 = unat (w AND 0xFF) mod 256"
    by (metis code_to_char)
  then show ?thesis using le [of v] le [of w] by (simp add: word_unat_eq_iff)
qed

lemma count_bytes_inj: "count_bytes v = count_bytes w \<Longrightarrow> v = w"
proof (rule bit_word_eqI)
  fix n assume eq: "count_bytes v = count_bytes w" and n: "n < LENGTH(64)"
  have "n div 8 < 8" using n by simp
  then have "to_char (drop_bit (8 * (n div 8)) v AND 0xFF) = to_char (drop_bit (8 * (n div 8)) w AND 0xFF)"
    using arg_cong [OF eq, of "\<lambda>l. l ! (n div 8)"] n by (simp add: append_count_def)
  then have "bit (drop_bit (8 * (n div 8)) v AND 0xFF) (n mod 8) \<longleftrightarrow> bit (drop_bit (8 * (n div 8)) w AND 0xFF) (n mod 8)"
    using to_char_inj_byte by metis
  moreover have "bit (0xFF :: u64) (n mod 8)"
  proof -
    have "(0xFF :: u64) = mask 8" by (simp add: mask_eq_exp_minus_1)
    then have "bit (0xFF :: u64) (n mod 8) = bit (mask 8 :: u64) (n mod 8)" by (rule arg_cong)
    also have "\<dots>" by (simp add: bit_mask_iff)
    finally show ?thesis .
  qed
  ultimately show "bit v n \<longleftrightarrow> bit w n" by (simp add: bit_simps)
qed

lemma count_prefix: "count_bytes v @ xs = count_bytes w @ ys \<Longrightarrow> v = w \<and> xs = ys"
  using count_bytes_inj by (simp add: append_eq_append_conv)

abbreviation small :: "string \<Rightarrow> bool" where
  "small v \<equiv> length v < 2 ^ 64"

lemma component_prefix:
  assumes "component v @ xs = component w @ ys" "small v" "small w"
  shows "v = w \<and> xs = ys"
proof -
  have "count_bytes (of_nat (length v)) @ (v @ xs) = count_bytes (of_nat (length w)) @ (w @ ys)"
    using assms(1) by (simp add: append_component_def)
  then have l: "(of_nat (length v) :: u64) = of_nat (length w)" and r: "v @ xs = w @ ys"
    using count_prefix by blast+
  have "length v = length w"
    using arg_cong [OF l, of unat] assms(2,3) by (simp add: unat_of_nat)
  with r show ?thesis by simp
qed

lemma components_prefix:
  "concat (map component vs) @ xs = concat (map component ws) @ ys \<Longrightarrow> length vs = length ws \<Longrightarrow>
   \<forall>v \<in> set vs. small v \<Longrightarrow> \<forall>w \<in> set ws. small w \<Longrightarrow> vs = ws \<and> xs = ys"
proof (induction vs arbitrary: ws)
  case (Cons v vs)
  then obtain w ws' where ws: "ws = w # ws'" by (cases ws) auto
  have "component v @ (concat (map component vs) @ xs) = component w @ (concat (map component ws') @ ys)"
    using Cons.prems(1) ws by simp
  moreover have "small v" "small w" using Cons.prems(3,4) ws by auto
  ultimately have "v = w" and rest: "concat (map component vs) @ xs = concat (map component ws') @ ys"
    using component_prefix by blast+
  moreover have "vs = ws' \<and> xs = ys"
    by (rule Cons.IH [OF rest]) (use Cons.prems(2,3,4) ws in auto)
  ultimately show ?case using ws by simp
qed simp

lemma foldl_component: "foldl append_component r vs = r @ concat (map component vs)"
proof (induction vs arbitrary: r)
  case (Cons v vs)
  then show ?case by (simp add: append_component_eq [of r v])
qed simp

text \<open>The components of a source package.\<close>

fun split_dots :: "string \<Rightarrow> string list" where
  "split_dots [] = [[]]"
| "split_dots (c # s) = (if c = CHR ''.'' then [] # split_dots s else (c # hd (split_dots s)) # tl (split_dots s))"

lemma split_dots_ne [simp]: "split_dots s \<noteq> []" "[] \<noteq> split_dots s"
  by (cases s; auto)+

lemma length_split_dots: "length (split_dots s) = Suc (length (filter (\<lambda>c. c = CHR ''.'') s))"
  by (induction s) auto

lemma split_dots_inj: "split_dots s = split_dots t \<Longrightarrow> s = t"
proof (induction s arbitrary: t)
  case Nil
  then show ?case by (cases t) (auto split: if_splits)
next
  case (Cons c s)
  then obtain d t' where t: "t = d # t'" by (cases t) (auto split: if_splits)
  have "c = d \<and> split_dots s = split_dots t'"
    using Cons.prems t split_dots_ne(1) [of s] split_dots_ne(1) [of t']
    by (cases "split_dots s"; cases "split_dots t'") (auto split: if_splits)
  with Cons.IH t show ?case by simp
qed

lemma split_dots_small: "v \<in> set (split_dots s) \<Longrightarrow> length v \<le> length s"
proof (induction s arbitrary: v)
  case (Cons c s)
  then show ?case
    by (cases "split_dots s") (auto split: if_splits intro: le_SucI)
qed simp

lemma find_from_none: "find_from c s i = None \<Longrightarrow> filter (\<lambda>d. d = c) (drop i s) = []"
proof (induction c s i rule: find_from.induct)
  case (1 c s i)
  then show ?case
    by (subst (asm) find_from.simps) (auto simp: Cons_nth_drop_Suc [symmetric] not_le split: if_splits)
qed

lemma find_from_some:
  "find_from c s i = Some j \<Longrightarrow> i \<le> j \<and> j < length s \<and> s ! j = c \<and> filter (\<lambda>d. d = c) (take (j - i) (drop i s)) = []"
proof (induction c s i rule: find_from.induct)
  case (1 c s i)
  note eq = "1.prems" [unfolded find_from.simps [of c s i]]
  from eq have i: "i < length s" by (auto split: if_splits)
  show ?case
  proof (cases "s ! i = c")
    case True
    then show ?thesis using eq i by simp
  next
    case False
    then have j: "Suc i \<le> j" "j < length s" "s ! j = c" "filter (\<lambda>d. d = c) (take (j - Suc i) (drop (Suc i) s)) = []"
      using "1.IH" eq i by (auto split: if_splits)
    have "take (j - i) (drop i s) = s ! i # take (j - Suc i) (drop (Suc i) s)"
      using j i by (metis Cons_nth_drop_Suc Suc_diff_Suc Suc_le_lessD take_Suc_Cons)
    with j False show ?thesis by simp
  qed
qed

lemma split_dots_none: "filter (\<lambda>d. d = CHR ''.'') s = [] \<Longrightarrow> split_dots s = [s]"
  by (induction s) (auto split: if_splits)

lemma split_dots_some: "filter (\<lambda>d. d = CHR ''.'') p = [] \<Longrightarrow> split_dots (p @ CHR ''.'' # s) = p # split_dots s"
  by (induction p) (auto split: if_splits)

lemma append_source_components_eq:
  "n = length (split_dots (drop i source)) \<Longrightarrow>
   append_source_components n source i r = r @ concat (map component (split_dots (drop i source)))"
proof (induction n arbitrary: i r)
  case (Suc n)
  show ?case
  proof (cases "find_from CHR ''.'' source i")
    case None
    then have "split_dots (drop i source) = [drop i source]"
      using find_from_none split_dots_none by blast
    with Suc.prems None show ?thesis by (simp add: append_component_eq [of r])
  next
    case (Some j)
    note j = find_from_some [OF Some]
    have "drop i source = take (j - i) (drop i source) @ CHR ''.'' # drop (Suc j) source"
      using j by (metis Cons_nth_drop_Suc append_take_drop_id drop_drop le_add_diff_inverse2)
    then have sp: "split_dots (drop i source) = take (j - i) (drop i source) # split_dots (drop (Suc j) source)"
      using split_dots_some j by metis
    with Suc.prems have "n = length (split_dots (drop (Suc j) source))" by simp
    from Suc.IH [OF this] Some sp show ?thesis by (simp add: append_component_eq [of r])
  qed
qed simp

definition source_parts :: "string \<Rightarrow> string list" where
  "source_parts s = (if s = [] then [] else split_dots s)"

lemma source_parts_inj: "source_parts s = source_parts t \<Longrightarrow> s = t"
  using split_dots_inj by (auto simp: source_parts_def split: if_splits)

lemma source_parts_count: "source_component_count s = length (source_parts s)"
  by (simp add: source_parts_def source_component_count_def length_split_dots)

lemma source_parts_components:
  "append_source_components (source_component_count s) s 0 r = r @ concat (map component (source_parts s))"
  using append_source_components_eq [of "source_component_count s" 0 s r]
  by (simp add: source_parts_count) (simp add: source_parts_def)

section \<open>An identity determines its declaration\<close>

lemma components_small:
  "small (concat (map component vs) @ xs) \<Longrightarrow> \<forall>v \<in> set vs. small v"
  by (induction vs) auto

lemma components_count: "8 * length vs \<le> length (concat (map component vs))"
  by (induction vs) auto

lemma components_list_prefix:
  assumes "count_bytes (of_nat (length vs)) @ concat (map component vs) @ xs =
      count_bytes (of_nat (length ws)) @ concat (map component ws) @ ys"
    and "small (concat (map component vs) @ xs)" "small (concat (map component ws) @ ys)"
  shows "vs = ws \<and> xs = ys"
proof -
  from count_prefix [OF assms(1)] have l: "(of_nat (length vs) :: u64) = of_nat (length ws)"
    and r: "concat (map component vs) @ xs = concat (map component ws) @ ys" by blast+
  have "length vs < 2 ^ 64" "length ws < 2 ^ 64"
    using components_count [of vs] components_count [of ws] assms(2,3) by auto
  then have "length vs = length ws" using arg_cong [OF l, of unat] by (simp add: unat_of_nat)
  from components_prefix [OF r this components_small [OF assms(2)] components_small [OF assms(3)]] show ?thesis .
qed

definition domain_name :: "NominalIdentity \<Rightarrow> string" where
  "domain_name i = (if pkg_name (nom_package i) = [] then ''standalone'' else ''package'')"

lemma nominal_identity_eq:
  "canonical_nominal_identity i =
     component ''nominal'' @ component (domain_name i) @ component (pkg_name (nom_package i)) @
     component (pkg_version (nom_package i)) @
     count_bytes (of_nat (length (source_parts (nom_source_package i)))) @
     concat (map component (source_parts (nom_source_package i))) @
     component (nom_name i) @ component (nominal_kind_name (nom_kind i))"
  unfolding canonical_nominal_identity_def Let_def domain_name_def source_parts_components
  by (simp only: append_component_eq [of "_ @ _"] append_count_eq [of "_ @ _"]
      append_component_eq [of "component _"] source_parts_count append.assoc)

lemma nominal_kind_name_inj: "nominal_kind_name k = nominal_kind_name l \<Longrightarrow> k = l"
  by (cases k; cases l) (simp_all add: nominal_kind_name_def)

lemma nominal_identity_inj:
  assumes "canonical_nominal_identity i = canonical_nominal_identity j"
    and "small (canonical_nominal_identity i)" "small (canonical_nominal_identity j)"
  shows "i = j"
proof -
  note eq = assms(1) [unfolded nominal_identity_eq]
  note si = assms(2) [unfolded nominal_identity_eq]
  note sj = assms(3) [unfolded nominal_identity_eq]
  from component_prefix [OF eq] si sj have e1: "component (domain_name i) @ component (pkg_name (nom_package i)) @
     component (pkg_version (nom_package i)) @
     count_bytes (of_nat (length (source_parts (nom_source_package i)))) @
     concat (map component (source_parts (nom_source_package i))) @
     component (nom_name i) @ component (nominal_kind_name (nom_kind i)) =
     component (domain_name j) @ component (pkg_name (nom_package j)) @
     component (pkg_version (nom_package j)) @
     count_bytes (of_nat (length (source_parts (nom_source_package j)))) @
     concat (map component (source_parts (nom_source_package j))) @
     component (nom_name j) @ component (nominal_kind_name (nom_kind j))" by simp
  from component_prefix [OF e1] si sj have e2: "component (pkg_name (nom_package i)) @
     component (pkg_version (nom_package i)) @
     count_bytes (of_nat (length (source_parts (nom_source_package i)))) @
     concat (map component (source_parts (nom_source_package i))) @
     component (nom_name i) @ component (nominal_kind_name (nom_kind i)) =
     component (pkg_name (nom_package j)) @
     component (pkg_version (nom_package j)) @
     count_bytes (of_nat (length (source_parts (nom_source_package j)))) @
     concat (map component (source_parts (nom_source_package j))) @
     component (nom_name j) @ component (nominal_kind_name (nom_kind j))" by simp
  from component_prefix [OF e2] si sj have n: "pkg_name (nom_package i) = pkg_name (nom_package j)"
    and e3: "component (pkg_version (nom_package i)) @
     count_bytes (of_nat (length (source_parts (nom_source_package i)))) @
     concat (map component (source_parts (nom_source_package i))) @
     component (nom_name i) @ component (nominal_kind_name (nom_kind i)) =
     component (pkg_version (nom_package j)) @
     count_bytes (of_nat (length (source_parts (nom_source_package j)))) @
     concat (map component (source_parts (nom_source_package j))) @
     component (nom_name j) @ component (nominal_kind_name (nom_kind j))" by simp_all
  from component_prefix [OF e3] si sj have v: "pkg_version (nom_package i) = pkg_version (nom_package j)"
    and e4: "count_bytes (of_nat (length (source_parts (nom_source_package i)))) @
     concat (map component (source_parts (nom_source_package i))) @
     component (nom_name i) @ component (nominal_kind_name (nom_kind i)) =
     count_bytes (of_nat (length (source_parts (nom_source_package j)))) @
     concat (map component (source_parts (nom_source_package j))) @
     component (nom_name j) @ component (nominal_kind_name (nom_kind j))" by simp_all
  from components_list_prefix [OF e4] si sj
  have p: "nom_source_package i = nom_source_package j"
    and e5: "component (nom_name i) @ component (nominal_kind_name (nom_kind i)) =
     component (nom_name j) @ component (nominal_kind_name (nom_kind j))"
    using source_parts_inj by simp_all
  from component_prefix [OF e5] si sj have m: "nom_name i = nom_name j"
    and e6: "component (nominal_kind_name (nom_kind i)) @ [] = component (nominal_kind_name (nom_kind j)) @ []"
    by simp_all
  from component_prefix [OF e6] si sj have "nom_kind i = nom_kind j" using nominal_kind_name_inj by simp
  with n v p m show "i = j"
    by (cases i; cases j; cases "nom_package i"; cases "nom_package j") auto
qed

fun erase_nullable :: "SemanticTypeShape \<Rightarrow> SemanticTypeShape" where
  "erase_nullable (ArrayOf t) = ArrayOf (erase_nullable t)"
| "erase_nullable (NullableOf t) = erase_nullable t"
| "erase_nullable t = t"

lemma overload_identity: "canonical_type_identity t timOverload = canonical_type_identity (erase_nullable t) timSemantic"
  by (induction t) simp_all

lemma wrapped_identity_eq: "wrapped_identity tag v = component tag @ component v @ []"
  by (simp add: wrapped_identity_def append_component_eq [of "component tag"])

lemmas type_identity_defs = canonical_primitive_identity_def canonical_array_identity_def
  canonical_nullable_identity_def wrapped_identity_eq

lemma component_tag:
  "component v @ xs = component w @ ys \<Longrightarrow> length v < 100 \<Longrightarrow> length w < 100 \<Longrightarrow> v = w"
  using component_prefix [of v xs w ys] by simp

fun type_tag :: "SemanticTypeShape \<Rightarrow> string" where
  "type_tag (NominalType _) = ''nominal''"
| "type_tag (PrimitiveType _) = ''primitive''"
| "type_tag (ArrayOf _) = ''array''"
| "type_tag (NullableOf _) = ''nullable''"

lemma type_tag_prefix: "\<exists>rest. canonical_type_identity t timSemantic = component (type_tag t) @ rest"
  by (cases t) (auto simp: type_identity_defs nominal_identity_eq)

lemma type_tag_eq:
  assumes "canonical_type_identity t timSemantic = canonical_type_identity u timSemantic"
  shows "type_tag t = type_tag u"
proof -
  obtain r r' where "component (type_tag t) @ r = component (type_tag u) @ r'"
    using type_tag_prefix assms by metis
  moreover have "length (type_tag x) < 100" for x by (cases x) simp_all
  ultimately show ?thesis using component_tag by blast
qed

lemma type_identity_inj:
  "canonical_type_identity t timSemantic = canonical_type_identity u timSemantic \<Longrightarrow>
   small (canonical_type_identity t timSemantic) \<Longrightarrow> t = u"
proof (induction t arbitrary: u)
  case (NominalType i)
  from type_tag_eq [OF NominalType.prems(1)] obtain j where "u = NominalType j" by (cases u) simp_all
  with NominalType nominal_identity_inj show ?case by simp
next
  case (PrimitiveType n)
  from type_tag_eq [OF PrimitiveType.prems(1)] obtain m where u: "u = PrimitiveType m" by (cases u) simp_all
  with PrimitiveType have c: "component n @ [] = component m @ []" by (simp add: type_identity_defs)
  have "length n = length m" using arg_cong [OF c, of length] by simp
  with component_prefix [OF c] PrimitiveType.prems(2) u show ?case by (simp add: type_identity_defs)
next
  case (ArrayOf t)
  from type_tag_eq [OF ArrayOf.prems(1)] obtain s where u: "u = ArrayOf s" by (cases u) simp_all
  with ArrayOf.prems have c: "component (canonical_type_identity t timSemantic) @ [] = component (canonical_type_identity s timSemantic) @ []"
    by (simp add: type_identity_defs)
  have "length (canonical_type_identity t timSemantic) = length (canonical_type_identity s timSemantic)"
    using arg_cong [OF c, of length] by simp
  with component_prefix [OF c] ArrayOf u show ?case by (simp add: type_identity_defs)
next
  case (NullableOf t)
  from type_tag_eq [OF NullableOf.prems(1)] obtain s where u: "u = NullableOf s" by (cases u) simp_all
  with NullableOf.prems have c: "component (canonical_type_identity t timSemantic) @ [] = component (canonical_type_identity s timSemantic) @ []"
    by (simp add: type_identity_defs)
  have "length (canonical_type_identity t timSemantic) = length (canonical_type_identity s timSemantic)"
    using arg_cong [OF c, of length] by simp
  with component_prefix [OF c] NullableOf u show ?case by (simp add: type_identity_defs)
qed

lemma member_identity_eq:
  "canonical_member_identity owner kind name ps =
     component (member_tag kind) @ component (canonical_nominal_identity owner) @ component name @
     count_bytes (of_nat (length ps)) @ concat (map component ps) @ []"
  unfolding canonical_member_identity_def Let_def foldl_component
  by (simp only: append_component_eq [of "_ @ _"] append_count_eq [of "_ @ _"]
      append_component_eq [of "component _"] append.assoc append_Nil2)

lemma member_tag_inj: "member_tag k = member_tag l \<Longrightarrow> k = l"
  by (cases k; cases l) simp_all

lemma member_tag_length: "length (member_tag k) < 100"
  by (cases k) simp_all

lemma member_identity_inj:
  assumes "canonical_member_identity i k n ps = canonical_member_identity j l m qs"
    and "small (canonical_member_identity i k n ps)"
  shows "i = j \<and> k = l \<and> n = m \<and> ps = qs"
proof -
  note eq = assms(1) [unfolded member_identity_eq]
  note si = assms(2) [unfolded member_identity_eq]
  note sj = si [unfolded eq]
  have k: "k = l" using component_tag [OF eq member_tag_length member_tag_length] by (rule member_tag_inj)
  from component_prefix [OF eq] si sj have e1:
    "component (canonical_nominal_identity i) @ component n @ count_bytes (of_nat (length ps)) @ concat (map component ps) @ [] =
     component (canonical_nominal_identity j) @ component m @ count_bytes (of_nat (length qs)) @ concat (map component qs) @ []"
    by simp
  from component_prefix [OF e1] si sj have i: "canonical_nominal_identity i = canonical_nominal_identity j"
    and e2: "component n @ count_bytes (of_nat (length ps)) @ concat (map component ps) @ [] =
     component m @ count_bytes (of_nat (length qs)) @ concat (map component qs) @ []" by simp_all
  from component_prefix [OF e2] si sj have n: "n = m"
    and e3: "count_bytes (of_nat (length ps)) @ concat (map component ps) @ [] =
     count_bytes (of_nat (length qs)) @ concat (map component qs) @ []" by simp_all
  from components_list_prefix [OF e3] si sj have "ps = qs" by simp
  moreover have "i = j" using nominal_identity_inj [OF i] si sj by simp
  ultimately show ?thesis using k n by simp
qed

section \<open>Mangling\<close>

lemma kHex_inj: "a < 16 \<Longrightarrow> b < 16 \<Longrightarrow> kHex ! a = kHex ! b \<Longrightarrow> a = b"
proof -
  have d: "distinct kHex" "length kHex = 16" by (simp_all add: kHex_def)
  show "a < 16 \<Longrightarrow> b < 16 \<Longrightarrow> kHex ! a = kHex ! b \<Longrightarrow> a = b"
    using nth_eq_iff_index_eq [OF d(1)] d(2) by simp
qed

lemma append_hex_inj:
  assumes "[kHex ! unat (drop_bit 4 (byte c)), kHex ! unat (byte c AND 0xF)] =
    [kHex ! unat (drop_bit 4 (byte d)), kHex ! unat (byte d AND 0xF)]"
  shows "c = d"
proof -
  have hi: "unat (drop_bit 4 (byte x)) = code x div 16" for x
    by (simp add: drop_bit_eq_div unat_div unat_byte)
  have lo: "unat (byte x AND 0xF) = code x mod 16" for x
  proof -
    have "(0xF :: u8) = mask 4" by (simp add: mask_eq_exp_minus_1)
    then have "byte x AND 0xF = take_bit 4 (byte x)" by (simp only: take_bit_eq_mask)
    then show ?thesis by (simp add: take_bit_eq_mod unat_mod unat_byte)
  qed
  have b: "code x div 16 < 16" "code x mod 16 < 16" for x by (simp_all add: less_mult_imp_div_less)
  have "code c div 16 = code d div 16" "code c mod 16 = code d mod 16"
    using assms kHex_inj [OF b(1) b(1)] kHex_inj [OF b(2) b(2)] by (simp_all add: hi lo)
  then have "code c = code d" by (metis div_mult_mod_eq)
  then show ?thesis by simp
qed

lemma foldl_hex:
  "foldl append_hex r s = r @ concat (map (\<lambda>c. [kHex ! unat (drop_bit 4 (byte c)), kHex ! unat (byte c AND 0xF)]) s)"
  by (induction s arbitrary: r) (simp_all add: append_hex_def)

lemma hex_inj:
  "concat (map (\<lambda>c. [kHex ! unat (drop_bit 4 (byte c)), kHex ! unat (byte c AND 0xF)]) s) =
   concat (map (\<lambda>c. [kHex ! unat (drop_bit 4 (byte c)), kHex ! unat (byte c AND 0xF)]) t) \<Longrightarrow> s = t"
proof (induction s arbitrary: t)
  case Nil
  then show ?case by (cases t) auto
next
  case (Cons c s)
  then obtain d t' where t: "t = d # t'" by (cases t) auto
  with Cons.prems append_hex_inj [of c d] Cons.IH [of t'] show ?case by simp
qed

lemma mangle_inj: "mangle_canonical_identity s = mangle_canonical_identity t \<longleftrightarrow> s = t"
  using hex_inj by (auto simp: mangle_canonical_identity_def foldl_hex)

text \<open>
  C39: Identities and symbols never collide. As long as an identity is shorter than \<open>2 ^ 64\<close> bytes, two types with the same
  semantic identity are the same type; and two members whose identities, or whose mangled linker
  symbols, are the same have the same owner (package, version, source package, name and kind), the
  same kind and name, and the same parameter types up to nullability, which overloads do not
  distinguish. The converses hold as well.
\<close>

theorem canonical_identity_injective:
  assumes "length (canonical_symbol_identity owner name ts kind) < 2 ^ 64"
    and "length (canonical_type_identity t timSemantic) < 2 ^ 64"
  shows "(canonical_symbol_identity owner name ts kind = canonical_symbol_identity owner' name' us kind' \<longleftrightarrow>
      owner = owner' \<and> kind = kind' \<and> name = name' \<and> map erase_nullable ts = map erase_nullable us) \<and>
    (mangle_canonical_identity (canonical_symbol_identity owner name ts kind) =
       mangle_canonical_identity (canonical_symbol_identity owner' name' us kind') \<longleftrightarrow>
      owner = owner' \<and> kind = kind' \<and> name = name' \<and> map erase_nullable ts = map erase_nullable us) \<and>
    (canonical_type_identity t timSemantic = canonical_type_identity u timSemantic \<longleftrightarrow> t = u)"
proof -
  let ?id = "\<lambda>t. canonical_type_identity t timOverload"
  have small_id: "small (?id t)" if "t \<in> set ts" for t
  proof -
    have "small (concat (map component (map ?id ts)) @ [])"
      using assms(1) by (simp add: canonical_symbol_identity_def member_identity_eq)
    from components_small [OF this] that show ?thesis by simp
  qed
  have types: "map ?id ts = map ?id us \<Longrightarrow> map erase_nullable ts = map erase_nullable us"
  proof (rule nth_equalityI)
    assume eq: "map ?id ts = map ?id us"
    then show l: "length (map erase_nullable ts) = length (map erase_nullable us)" using map_eq_imp_length_eq by force
    fix k assume k: "k < length (map erase_nullable ts)"
    have "?id (ts ! k) = ?id (us ! k)" using arg_cong [OF eq, of "\<lambda>l. l ! k"] k l by simp
    with small_id [of "ts ! k"] k l show "map erase_nullable ts ! k = map erase_nullable us ! k"
      using type_identity_inj by (simp add: overload_identity)
  qed
  have converse: "map erase_nullable ts = map erase_nullable us \<Longrightarrow> map ?id ts = map ?id us"
    by (simp add: overload_identity list_eq_iff_nth_eq)
  have member: "canonical_symbol_identity owner name ts kind = canonical_symbol_identity owner' name' us kind' \<longleftrightarrow>
      owner = owner' \<and> kind = kind' \<and> name = name' \<and> map erase_nullable ts = map erase_nullable us"
  proof
    assume "canonical_symbol_identity owner name ts kind = canonical_symbol_identity owner' name' us kind'"
    from member_identity_inj [OF this [unfolded canonical_symbol_identity_def]] assms(1) types
    show "owner = owner' \<and> kind = kind' \<and> name = name' \<and> map erase_nullable ts = map erase_nullable us"
      unfolding canonical_symbol_identity_def by blast
  next
    assume "owner = owner' \<and> kind = kind' \<and> name = name' \<and> map erase_nullable ts = map erase_nullable us"
    then show "canonical_symbol_identity owner name ts kind = canonical_symbol_identity owner' name' us kind'"
      using converse by (simp add: canonical_symbol_identity_def)
  qed
  have "canonical_type_identity t timSemantic = canonical_type_identity u timSemantic \<longleftrightarrow> t = u"
    using type_identity_inj [OF _ assms(2)] by blast
  with member show ?thesis unfolding mangle_inj by (intro conjI)
qed

definition sample_owner :: NominalIdentity where
  "sample_owner =
     \<lparr>nom_package = \<lparr>pkg_name = ''app'', pkg_version = ''1.0.0''\<rparr>, nom_source_package = ''a.b'', nom_name = ''T'', nom_kind = nkClass\<rparr>"

theorem canonical_identity_injective_witness:
  "mangle_canonical_identity (canonical_symbol_identity sample_owner ''f'' [PrimitiveType ''int''] cmkFunction) \<noteq>
   mangle_canonical_identity (canonical_symbol_identity sample_owner ''f'' [ArrayOf (PrimitiveType ''int'')] cmkFunction) \<and>
   mangle_canonical_identity (canonical_symbol_identity sample_owner ''f'' [PrimitiveType ''int''] cmkFunction) =
   mangle_canonical_identity (canonical_symbol_identity sample_owner ''f'' [NullableOf (PrimitiveType ''int'')] cmkFunction)"
proof -
  have "length (canonical_symbol_identity sample_owner ''f'' [PrimitiveType ''int''] cmkFunction) < 2 ^ 64"
    "length (canonical_type_identity (PrimitiveType ''int'') timSemantic) < 2 ^ 64"
    by (simp_all add: canonical_symbol_identity_def member_identity_eq nominal_identity_eq type_identity_defs
      sample_owner_def domain_name_def source_parts_def nominal_kind_name_def)
  from canonical_identity_injective [OF this, of sample_owner "''f''" "[ArrayOf (PrimitiveType ''int'')]" cmkFunction]
    canonical_identity_injective [OF this, of sample_owner "''f''" "[NullableOf (PrimitiveType ''int'')]" cmkFunction]
  show ?thesis by simp
qed

end
