(* ===== verification/Semantic_Model.thy ===== *)
theory Semantic_Model
  imports Ast Diagnostics Numeric_Types Canonical_Identity
begin

text \<open>
  The semantic model (\<^verbatim>\<open>include/cloth/sema/semantic_model.h\<close>, \<^verbatim>\<open>src/sema/semantic_model.cc\<close>): tables of
  types, symbols and files that ids index, the interning of array and nullable types, and the search for callables
  that need the error convention. A lookup outside its table throws in the code and is \<open>None\<close> here. The
  fields that no modelled pass reads are left out.
\<close>

section \<open>Types, symbols and files\<close>

type_synonym TypeId = nat
type_synonym SymbolId = nat
type_synonym FileId = nat

datatype Visibility = visPublic | visPrivate

datatype SymbolKind = syFileClass | syField | syFunction | syConstructor | syParameter | syLocal | sySelf
  | syInterface | syEnum | syEnumCase | syStruct | syError

datatype IntrinsicKind = ikNone | ikConsoleReadLine | ikConsoleWriteError | ikFileReadBytes
  | ikObjectEquals | ikObjectHashCode | ikObjectToString
  | ikValueBoxEquals | ikValueBoxHashCode | ikValueBoxToString | ikPrimitiveParse
  | ikPrintString | ikPrintBool | ikPrintChar | ikPrintInt8 | ikPrintInt16 | ikPrintInt32 | ikPrintInt64
  | ikPrintUint8 | ikPrintUint16 | ikPrintUint32 | ikPrintUint64 | ikPrintFloat32 | ikPrintFloat64
  | ikPrintObject | ikPrintNewline | ikPrintEnum | ikPrintStruct

record SemanticType =
  sty_kind :: TypeKind
  sty_name :: string
  sty_file :: "FileId option"
  sty_element_type :: "TypeId option"

record SemanticSymbol =
  sym_kind :: SymbolKind
  sym_name :: string
  sym_type :: TypeId
  sym_parameter_types :: "TypeId list"
  sym_visibility :: Visibility
  sym_file :: "FileId option"
  sym_range :: SourceRange
  sym_is_valid :: bool
  sym_intrinsic :: IntrinsicKind
  sym_is_static :: bool
  sym_is_abstract :: bool
  sym_overridden_symbol :: "SymbolId option"
  sym_thrown_types :: "TypeId list"

record InterfaceImplementation =
  ii_interface_file :: FileId
  ii_functions :: "SymbolId list"

record FileSemantics =
  fs_type :: TypeId
  fs_self_symbol :: SymbolId
  fs_boxed_value_type :: "TypeId option"
  fs_boxed_value_field :: "SymbolId option"
  fs_virtual_functions :: "SymbolId list"
  fs_kind :: FileTypeKind
  fs_interface_functions :: "SymbolId list"
  fs_interface_implementations :: "InterfaceImplementation list"
  fs_interface_id :: "u64 option"
  fs_identity :: NominalIdentity

record SemanticModel =
  sm_types :: "SemanticType list"
  sm_value_wrappers :: "TypeId option list"
  sm_wrapped_values :: "TypeId option list"
  sm_type_names :: "(string \<times> TypeId) list"
  sm_symbols :: "SemanticSymbol list"
  sm_files :: "FileSemantics list"
  sm_error_type :: TypeId
  sm_bottom_type :: TypeId
  sm_error_root_type :: TypeId
  sm_nullable_error_root_type :: TypeId
  sm_division_by_zero_type :: TypeId
  sm_void_type :: TypeId
  sm_null_type :: TypeId
  sm_bool_type :: TypeId
  sm_string_type :: TypeId
  sm_object_type :: TypeId

text \<open>\<^verbatim>\<open>std::vector::at\<close>\<close>

definition at_index :: "'a list \<Rightarrow> nat \<Rightarrow> 'a option" where
  "at_index xs i = (if i < length xs then Some (xs ! i) else None)"

lemma at_index_eq_Some: "at_index xs i = Some x \<longleftrightarrow> i < length xs \<and> x = xs ! i"
  by (auto simp: at_index_def)

definition semantic_type :: "SemanticModel \<Rightarrow> TypeId \<Rightarrow> SemanticType option" where
  "semantic_type M i = at_index (sm_types M) i"

definition semantic_symbol :: "SemanticModel \<Rightarrow> SymbolId \<Rightarrow> SemanticSymbol option" where
  "semantic_symbol M i = at_index (sm_symbols M) i"

definition semantic_file :: "SemanticModel \<Rightarrow> FileId \<Rightarrow> FileSemantics option" where
  "semantic_file M i = at_index (sm_files M) i"

lemmas semantic_lookup_defs = semantic_type_def semantic_symbol_def semantic_file_def at_index_eq_Some

section \<open>Building the model\<close>

definition add_type :: "SemanticType \<Rightarrow> SemanticModel \<Rightarrow> TypeId \<times> SemanticModel" where
  "add_type type M =
     (length (sm_types M),
      M\<lparr>sm_type_names := sm_type_names M @ [(sty_name type, length (sm_types M))],
        sm_types := sm_types M @ [type],
        sm_value_wrappers := sm_value_wrappers M @ [None],
        sm_wrapped_values := sm_wrapped_values M @ [None]\<rparr>)"

definition first_index :: "('a \<Rightarrow> bool) \<Rightarrow> 'a list \<Rightarrow> nat option" where
  "first_index P xs =
     (let i = length (takeWhile (\<lambda>x. \<not> P x) xs) in if i < length xs then Some i else None)"

definition find_constructed :: "TypeKind \<Rightarrow> TypeId \<Rightarrow> SemanticModel \<Rightarrow> TypeId option" where
  "find_constructed kind element M =
     first_index (\<lambda>t. sty_kind t = kind \<and> sty_element_type t = Some element) (sm_types M)"

definition get_array_type :: "TypeId \<Rightarrow> SemanticModel \<Rightarrow> (TypeId \<times> SemanticModel) option" where
  "get_array_type element M =
     (case find_constructed tyArray element M of
        Some i \<Rightarrow> Some (i, M)
      | None \<Rightarrow>
          (case semantic_type M element of
             None \<Rightarrow> None
           | Some t \<Rightarrow>
               Some (add_type \<lparr>sty_kind = tyArray, sty_name = sty_name t @ ''[]'', sty_file = None,
                               sty_element_type = Some element\<rparr> M)))"

definition get_nullable_type :: "TypeId \<Rightarrow> SemanticModel \<Rightarrow> (TypeId \<times> SemanticModel) option" where
  "get_nullable_type underlying M =
     (case semantic_type M underlying of
        None \<Rightarrow> None
      | Some t \<Rightarrow>
          if sty_kind t = tyNullable then Some (underlying, M)
          else (case find_constructed tyNullable underlying M of
                  Some i \<Rightarrow> Some (i, M)
                | None \<Rightarrow>
                    Some (add_type \<lparr>sty_kind = tyNullable, sty_name = sty_name t @ ''?'', sty_file = None,
                                    sty_element_type = Some underlying\<rparr> M)))"

definition add_type_alias :: "string \<Rightarrow> TypeId \<Rightarrow> SemanticModel \<Rightarrow> SemanticModel" where
  "add_type_alias name type M = M\<lparr>sm_type_names := sm_type_names M @ [(name, type)]\<rparr>"

definition bind_value_wrapper :: "TypeId \<Rightarrow> TypeId \<Rightarrow> SemanticModel \<Rightarrow> SemanticModel option" where
  "bind_value_wrapper value_type wrapper M =
     (if value_type < length (sm_value_wrappers M) \<and> wrapper < length (sm_wrapped_values M)
      then Some (M\<lparr>sm_value_wrappers := (sm_value_wrappers M)[value_type := Some wrapper],
                   sm_wrapped_values := (sm_wrapped_values M)[wrapper := Some value_type]\<rparr>)
      else None)"

definition add_symbol :: "SemanticSymbol \<Rightarrow> SemanticModel \<Rightarrow> SymbolId \<times> SemanticModel" where
  "add_symbol symbol M = (length (sm_symbols M), M\<lparr>sm_symbols := sm_symbols M @ [symbol]\<rparr>)"

definition add_file :: "FileSemantics \<Rightarrow> SemanticModel \<Rightarrow> FileId \<times> SemanticModel" where
  "add_file f M = (length (sm_files M), M\<lparr>sm_files := sm_files M @ [f]\<rparr>)"

definition value_wrapper :: "SemanticModel \<Rightarrow> TypeId \<Rightarrow> TypeId option" where
  "value_wrapper M t = (if t < length (sm_value_wrappers M) then sm_value_wrappers M ! t else None)"

definition wrapped_value :: "SemanticModel \<Rightarrow> TypeId \<Rightarrow> TypeId option" where
  "wrapped_value M t = (if t < length (sm_wrapped_values M) then sm_wrapped_values M ! t else None)"

definition find_type :: "SemanticModel \<Rightarrow> string \<Rightarrow> TypeId option" where
  "find_type M name = map_of (sm_type_names M) name"

definition find_intrinsics :: "SemanticModel \<Rightarrow> string \<Rightarrow> SymbolId list" where
  "find_intrinsics M name =
     filter (\<lambda>i. sym_intrinsic (sm_symbols M ! i) \<noteq> ikNone \<and> sym_name (sm_symbols M ! i) = name)
       [0..<length (sm_symbols M)]"

definition is_default_initializable_array_element :: "TypeId \<Rightarrow> SemanticModel \<Rightarrow> bool" where
  "is_default_initializable_array_element type M =
     (case semantic_type M type of
        None \<Rightarrow> False
      | Some element \<Rightarrow>
          if sty_kind element = tyNullable then
            (case Option.bind (sty_element_type element) (semantic_type M) of
               None \<Rightarrow> False
             | Some underlying \<Rightarrow>
                 sty_kind underlying \<notin> {tyError, tyBottom, tyVoid, tyNull, tyArray, tyNullable})
          else sty_kind element \<in> {tyBool, tyChar, tyByte, tyInt8, tyInt16, tyInt32, tyInt64,
                                   tyUint8, tyUint16, tyUint32, tyUint64, tyFloat32, tyFloat64})"

primrec type_kind_name :: "TypeKind \<Rightarrow> string" where
  "type_kind_name tyError = ''error''" | "type_kind_name tyBottom = ''bottom''"
| "type_kind_name tyVoid = ''void''" | "type_kind_name tyNull = ''null''"
| "type_kind_name tyBool = ''bool''" | "type_kind_name tyChar = ''char''"
| "type_kind_name tyByte = ''byte''" | "type_kind_name tyInt8 = ''int8''"
| "type_kind_name tyInt16 = ''int16''" | "type_kind_name tyInt32 = ''int32''"
| "type_kind_name tyInt64 = ''int64''" | "type_kind_name tyUint8 = ''uint8''"
| "type_kind_name tyUint16 = ''uint16''" | "type_kind_name tyUint32 = ''uint32''"
| "type_kind_name tyUint64 = ''uint64''" | "type_kind_name tyFloat32 = ''float32''"
| "type_kind_name tyFloat64 = ''float64''" | "type_kind_name tyString = ''string''"
| "type_kind_name tyObject = ''object''" | "type_kind_name tyErrorClass = ''error class''"
| "type_kind_name tyFileClass = ''file class''" | "type_kind_name tyInterface = ''interface''"
| "type_kind_name tyArray = ''array''" | "type_kind_name tyNullable = ''nullable type''"
| "type_kind_name tyEnum = ''enum''" | "type_kind_name tyStruct = ''struct''"

primrec symbol_kind_name :: "SymbolKind \<Rightarrow> string" where
  "symbol_kind_name syFileClass = ''file class''" | "symbol_kind_name syField = ''field''"
| "symbol_kind_name syFunction = ''function''" | "symbol_kind_name syConstructor = ''constructor''"
| "symbol_kind_name syParameter = ''parameter''" | "symbol_kind_name syLocal = ''local''"
| "symbol_kind_name sySelf = ''self''" | "symbol_kind_name syInterface = ''interface''"
| "symbol_kind_name syEnum = ''enum''" | "symbol_kind_name syStruct = ''struct''"
| "symbol_kind_name syError = ''error''" | "symbol_kind_name syEnumCase = ''enum case''"

text \<open>\<^verbatim>\<open>SemanticModel::SemanticModel\<close>: the primitive types, their aliases and the print intrinsics.\<close>

definition empty_model :: SemanticModel where
  "empty_model =
     \<lparr>sm_types = [], sm_value_wrappers = [], sm_wrapped_values = [], sm_type_names = [], sm_symbols = [],
      sm_files = [], sm_error_type = 0, sm_bottom_type = 0, sm_error_root_type = 0,
      sm_nullable_error_root_type = 0, sm_division_by_zero_type = 0, sm_void_type = 0, sm_null_type = 0,
      sm_bool_type = 0, sm_string_type = 0, sm_object_type = 0\<rparr>"

definition add_primitive :: "TypeKind \<Rightarrow> string \<Rightarrow> SemanticModel \<Rightarrow> TypeId \<times> SemanticModel" where
  "add_primitive kind name M =
     add_type \<lparr>sty_kind = kind, sty_name = name, sty_file = None, sty_element_type = None\<rparr> M"

definition add_intrinsic ::
  "string \<Rightarrow> TypeId list \<Rightarrow> IntrinsicKind \<Rightarrow> SemanticModel \<Rightarrow> SemanticModel" where
  "add_intrinsic name parameter_types intrinsic M =
     snd (add_symbol
       \<lparr>sym_kind = syFunction, sym_name = name, sym_type = sm_void_type M, sym_parameter_types = parameter_types,
        sym_visibility = visPublic, sym_file = None,
        sym_range = point_range \<lparr>loc_file = ''<core>'', loc_byte_offset = 0, loc_line = 1, loc_column = 1\<rparr>,
        sym_is_valid = True, sym_intrinsic = intrinsic, sym_is_static = False, sym_is_abstract = False,
        sym_overridden_symbol = None, sym_thrown_types = []\<rparr> M)"

definition add_prints :: "TypeId \<times> IntrinsicKind \<Rightarrow> SemanticModel \<Rightarrow> SemanticModel" where
  "add_prints entry M =
     add_intrinsic ''println'' [fst entry] (snd entry) (add_intrinsic ''print'' [fst entry] (snd entry) M)"

definition add_primitive_types :: "SemanticModel \<Rightarrow> SemanticModel" where
  "add_primitive_types M0 =
     (let (error_type, M1) = add_primitive tyError ''<error>'' M0;
          (bottom_type, M2) = add_primitive tyBottom ''<bottom>'' M1;
          (void_type, M3) = add_primitive tyVoid ''void'' M2;
          (null_type, M4) = add_primitive tyNull ''null'' M3;
          (bool_type, M5) = add_primitive tyBool ''bool'' M4;
          M6 = fold (\<lambda>(kind, name) M. snd (add_primitive kind name M))
            [(tyChar, ''char''), (tyByte, ''byte''), (tyInt8, ''int8''), (tyInt16, ''int16''),
             (tyInt32, ''int32''), (tyInt64, ''int64''), (tyUint8, ''uint8''), (tyUint16, ''uint16''),
             (tyUint32, ''uint32''), (tyUint64, ''uint64''), (tyFloat32, ''float32''), (tyFloat64, ''float64'')] M5;
          (string_type, M7) = add_primitive tyString ''string'' M6;
          (object_type, M8) = add_primitive tyObject ''object'' M7;
          (error_root_type, M9) = add_primitive tyErrorClass ''Error'' M8;
          (division_by_zero_type, M10) = add_primitive tyErrorClass ''DivisionByZero'' M9
      in M10\<lparr>sm_error_type := error_type, sm_bottom_type := bottom_type, sm_void_type := void_type,
             sm_null_type := null_type, sm_bool_type := bool_type, sm_string_type := string_type,
             sm_object_type := object_type, sm_error_root_type := error_root_type,
             sm_division_by_zero_type := division_by_zero_type\<rparr>)"

text \<open>The ids of the primitive types are their positions in the order above.\<close>

definition new_model :: "SemanticModel option" where
  "new_model =
     (let M = add_primitive_types empty_model in
      case get_nullable_type (sm_error_root_type M) M of
        None \<Rightarrow> None
      | Some (nullable_error_root, M1) \<Rightarrow>
          (let M2 = add_type_alias ''float'' 15 (add_type_alias ''uint'' 13 (add_type_alias ''int'' 9
                      (M1\<lparr>sm_nullable_error_root_type := nullable_error_root\<rparr>)));
               M3 = fold add_prints
                 [(sm_string_type M2, ikPrintString), (sm_bool_type M2, ikPrintBool), (5, ikPrintChar),
                  (6, ikPrintUint8), (7, ikPrintInt8), (8, ikPrintInt16), (9, ikPrintInt32),
                  (10, ikPrintInt64), (11, ikPrintUint8), (12, ikPrintUint16), (13, ikPrintUint32),
                  (14, ikPrintUint64), (15, ikPrintFloat32), (16, ikPrintFloat64),
                  (sm_null_type M2, ikPrintObject)] M2
           in case get_nullable_type (sm_object_type M3) M3 of
                None \<Rightarrow> None
              | Some (nullable_object, M4) \<Rightarrow>
                  Some (add_intrinsic ''println'' [] ikPrintNewline
                    (add_prints (nullable_object, ikPrintObject) M4))))"

section \<open>Callables that use the error convention\<close>

text \<open>
  The functions that a symbol's convention must agree with: the one it overrides, and the interface functions it
  implements. The stack is searched from its end; its list has that end first.
\<close>

definition implemented_functions :: "SemanticModel \<Rightarrow> SymbolId \<Rightarrow> InterfaceImplementation \<Rightarrow> SymbolId list" where
  "implemented_functions M current implementation =
     (if ii_interface_file implementation \<ge> length (sm_files M) then []
      else map snd (filter (\<lambda>(f, g). f = current)
             (zip (ii_functions implementation)
                  (fs_interface_functions (sm_files M ! ii_interface_file implementation)))))"

definition convention_successors :: "SemanticModel \<Rightarrow> SymbolId \<Rightarrow> SymbolId list" where
  "convention_successors M current =
     (let symbol = sm_symbols M ! current in
      (case sym_overridden_symbol symbol of None \<Rightarrow> [] | Some s \<Rightarrow> [s]) @
      (case sym_file symbol of
         None \<Rightarrow> []
       | Some f \<Rightarrow>
           if f \<ge> length (sm_files M) then []
           else concat (map (implemented_functions M current)
                  (fs_interface_implementations (sm_files M ! f)))))"

lemma unvisited_decreases:
  "i < length visited \<Longrightarrow> \<not> visited ! i \<Longrightarrow>
   length (filter Not (visited[i := True])) < length (filter Not visited)"
proof (induction visited arbitrary: i)
  case (Cons v visited)
  then show ?case by (cases i) auto
qed simp

function uses_error_abi_loop :: "SemanticModel \<Rightarrow> bool list \<Rightarrow> SymbolId list \<Rightarrow> bool" where
  "uses_error_abi_loop M visited [] = False"
| "uses_error_abi_loop M visited (current # pending) =
     (if current \<ge> length visited \<or> visited ! current then uses_error_abi_loop M visited pending
      else if sym_thrown_types (sm_symbols M ! current) \<noteq> [] then True
      else uses_error_abi_loop M (visited[current := True]) (rev (convention_successors M current) @ pending))"
  by pat_completeness auto
termination
  by (relation "measures [\<lambda>(M, visited, pending). length (filter Not visited), \<lambda>(M, visited, pending). length pending]")
    (auto intro: unvisited_decreases)

definition callable_uses_error_abi :: "SymbolId \<Rightarrow> SemanticModel \<Rightarrow> bool" where
  "callable_uses_error_abi symbol M =
     uses_error_abi_loop M (replicate (length (sm_symbols M)) False) [symbol]"

text \<open>The search finds a thrown type exactly when some function the convention must agree with has one.\<close>

definition convention_edge :: "SemanticModel \<Rightarrow> SymbolId \<Rightarrow> SymbolId \<Rightarrow> bool" where
  "convention_edge M a b \<longleftrightarrow> a < length (sm_symbols M) \<and> b \<in> set (convention_successors M a)"

definition throws_type :: "SemanticModel \<Rightarrow> SymbolId \<Rightarrow> bool" where
  "throws_type M s \<longleftrightarrow> s < length (sm_symbols M) \<and> sym_thrown_types (sm_symbols M ! s) \<noteq> []"

definition search_ok :: "SemanticModel \<Rightarrow> bool list \<Rightarrow> SymbolId list \<Rightarrow> bool" where
  "search_ok M visited pending \<longleftrightarrow>
     length visited = length (sm_symbols M) \<and>
     (\<forall>v < length visited. visited ! v \<longrightarrow>
        \<not> throws_type M v \<and>
        (\<forall>w \<in> set (convention_successors M v). w < length visited \<longrightarrow> visited ! w \<or> w \<in> set pending))"

lemma search_leaves_visited:
  assumes "(convention_edge M)\<^sup>*\<^sup>* v s" "throws_type M s" "search_ok M visited pending" "v < length visited" "visited ! v"
  shows "\<exists>q \<in> set pending. \<not> (q < length visited \<and> visited ! q) \<and> (convention_edge M)\<^sup>*\<^sup>* q s"
  using assms
proof (induction rule: converse_rtranclp_induct)
  case base
  then show ?case by (auto simp: search_ok_def)
next
  case (step v w)
  have "w < length (sm_symbols M)"
    using step.hyps(2) step.prems(1) by (cases rule: converse_rtranclpE) (auto simp: throws_type_def convention_edge_def)
  moreover have "w \<in> set (convention_successors M v)" using step.hyps(1) by (simp add: convention_edge_def)
  ultimately have "visited ! w \<or> w \<in> set pending"
    using step.prems unfolding search_ok_def by metis
  then show ?case
    using step.IH step.hyps(2) step.prems \<open>w < length (sm_symbols M)\<close> by (auto simp: search_ok_def)
qed

lemma uses_error_abi_loop_iff:
  "search_ok M visited pending \<Longrightarrow>
   uses_error_abi_loop M visited pending \<longleftrightarrow>
     (\<exists>q \<in> set pending. \<exists>s. (convention_edge M)\<^sup>*\<^sup>* q s \<and> throws_type M s)"
proof (induction M visited pending rule: uses_error_abi_loop.induct)
  case (2 M visited p rest)
  let ?finds = "\<lambda>qs. \<exists>q \<in> set qs. \<exists>s. (convention_edge M)\<^sup>*\<^sup>* q s \<and> throws_type M s"
  have len: "length visited = length (sm_symbols M)" using "2.prems" by (simp add: search_ok_def)
  consider (skip) "p \<ge> length visited \<or> visited ! p" | (found) "p < length visited" "\<not> visited ! p" "throws_type M p"
    | (fresh) "p < length visited" "\<not> visited ! p" "\<not> throws_type M p" by linarith
  then show ?case
  proof cases
    case skip
    have ok: "search_ok M visited rest"
      using "2.prems" skip unfolding search_ok_def by (metis linorder_not_le set_ConsD)
    have "?finds (p # rest) \<longleftrightarrow> ?finds rest"
    proof -
      have "?finds rest" if r: "(convention_edge M)\<^sup>*\<^sup>* p s" "throws_type M s" for s
      proof (cases "p \<ge> length visited")
        case True
        then show ?thesis using r len by (auto simp: convention_edge_def throws_type_def elim: converse_rtranclpE)
      next
        case False
        then show ?thesis using search_leaves_visited [OF r ok] skip r(2) by auto
      qed
      then show ?thesis by auto
    qed
    with "2.IH"(1) [OF skip ok] skip show ?thesis by simp
  next
    case found
    then show ?thesis by (auto simp: throws_type_def)
  next
    case fresh
    have ok: "search_ok M (visited[p := True]) (rev (convention_successors M p) @ rest)"
      using "2.prems" fresh unfolding search_ok_def
      by (auto simp: nth_list_update simp del: length_list_update) (metis length_list_update nth_list_update)+
    have step: "(\<exists>s. (convention_edge M)\<^sup>*\<^sup>* p s \<and> throws_type M s) \<longleftrightarrow> ?finds (convention_successors M p)"
    proof
      assume "\<exists>s. (convention_edge M)\<^sup>*\<^sup>* p s \<and> throws_type M s"
      then obtain s where r: "(convention_edge M)\<^sup>*\<^sup>* p s" and t: "throws_type M s" by blast
      from r fresh(3) t obtain q where "convention_edge M p q" "(convention_edge M)\<^sup>*\<^sup>* q s"
        by (cases rule: converse_rtranclpE) auto
      with t show "?finds (convention_successors M p)" unfolding convention_edge_def by blast
    next
      assume "?finds (convention_successors M p)"
      then obtain q s where q: "q \<in> set (convention_successors M p)" "(convention_edge M)\<^sup>*\<^sup>* q s" "throws_type M s"
        by blast
      then have "convention_edge M p q" using fresh(1) len by (simp add: convention_edge_def)
      with q show "\<exists>s. (convention_edge M)\<^sup>*\<^sup>* p s \<and> throws_type M s"
        by (blast intro: converse_rtranclp_into_rtranclp)
    qed
    have "sym_thrown_types (sm_symbols M ! p) = []" using fresh(1,3) len by (simp add: throws_type_def)
    then show ?thesis
      using "2.IH"(2) [OF _ _ ok] fresh(1,2) step by auto
  qed
qed simp

lemma callable_uses_error_abi_iff:
  "callable_uses_error_abi symbol M \<longleftrightarrow> (\<exists>s. (convention_edge M)\<^sup>*\<^sup>* symbol s \<and> throws_type M s)"
proof -
  have "search_ok M (replicate (length (sm_symbols M)) False) [symbol]" by (simp add: search_ok_def)
  from uses_error_abi_loop_iff [OF this] show ?thesis by (simp only: callable_uses_error_abi_def) simp
qed

end
