(* ===== verification/Control_Flow.thy ===== *)
theory Control_Flow
  imports Semantic_Model
begin

text \<open>
  Control-flow analysis of callables (\<^verbatim>\<open>src/flow/control_flow.cc\<close>) over the high-level intermediate
  representation (\<^verbatim>\<open>include/cloth/hir/hir.h\<close>): which bodies can fall through to their end, which
  statements are unreachable, and which functions miss a return.

  The storage of a module is three vectors, and an id is a position in one. A lookup outside its
  vector throws in the code and is \<open>None\<close> here. The analysis follows ids; \<open>fuel\<close> bounds the depth it
  follows them to, and a storage whose nodes are nested without cycles has enough fuel. Where the
  analysis does not tell the alternatives of a variant apart, or does not read a field, the model
  has one alternative and no field.
\<close>

section \<open>The representation\<close>

datatype HirExpressionData =
    HirLiteralExpression LiteralKind string
  | HirGroupedExpression nat
  | HirOtherExpression

record HirExpression =
  hx_type :: TypeId
  hx_data :: HirExpressionData

record HirSwitchArm =
  arm_body :: nat

datatype HirStatementData =
    HirInvalidStatement
  | HirLocalStatement "nat option"
  | HirReturnStatement "nat option"
  | HirExpressionStatement nat
  | HirIfStatement nat nat "nat option"
  | HirWhileStatement nat nat
  | HirForEachStatement nat nat
  | HirForStatement "nat option" "nat option" "nat list" nat
  | HirSwitchStatement nat "HirSwitchArm list" bool
  | HirBreakStatement
  | HirContinueStatement
  | HirNestedBlockStatement nat

record HirStatement =
  hs_range :: SourceRange
  hs_data :: HirStatementData

record HirBlock =
  hb_statements :: "nat list"

record HirStorage =
  hir_expressions :: "HirExpression list"
  hir_statements :: "HirStatement list"
  hir_blocks :: "HirBlock list"

definition hir_expression :: "HirStorage \<Rightarrow> nat \<Rightarrow> HirExpression option" where
  "hir_expression S i = at_index (hir_expressions S) i"

definition hir_statement :: "HirStorage \<Rightarrow> nat \<Rightarrow> HirStatement option" where
  "hir_statement S i = at_index (hir_statements S) i"

definition hir_block :: "HirStorage \<Rightarrow> nat \<Rightarrow> HirBlock option" where
  "hir_block S i = at_index (hir_blocks S) i"

section \<open>The analysis of a callable\<close>

record FlowResult =
  can_fall_through :: bool
  has_break :: bool

abbreviation flow :: "bool \<Rightarrow> bool \<Rightarrow> FlowResult" where
  "flow falls breaks \<equiv> \<lparr>can_fall_through = falls, has_break = breaks\<rparr>"

text \<open>The counters of a \<^verbatim>\<open>CallableAnalyzer\<close> and the diagnostics it reports to.\<close>

record CallableAnalyzer =
  reachable_statements :: nat
  unreachable_statements :: nat
  ca_diagnostics :: DiagnosticEngine

definition never_completes :: "HirStorage \<Rightarrow> TypeId \<Rightarrow> nat \<Rightarrow> bool option" where
  "never_completes S bottom i = map_option (\<lambda>e. hx_type e = bottom) (hir_expression S i)"

definition never_completes_optional :: "HirStorage \<Rightarrow> TypeId \<Rightarrow> nat option \<Rightarrow> bool option" where
  "never_completes_optional S bottom initial =
     (case initial of None \<Rightarrow> Some False | Some e \<Rightarrow> never_completes S bottom e)"

fun is_true :: "nat \<Rightarrow> HirStorage \<Rightarrow> nat \<Rightarrow> bool option" where
  "is_true 0 S i = None"
| "is_true (Suc fuel) S i =
     (case hir_expression S i of
        None \<Rightarrow> None
      | Some e \<Rightarrow>
          (case hx_data e of
             HirLiteralExpression kind lexeme \<Rightarrow> Some (kind = lkBoolean \<and> lexeme = ''true'')
           | HirGroupedExpression inner \<Rightarrow> is_true fuel S inner
           | HirOtherExpression \<Rightarrow> Some False))"

definition count_reachable :: "CallableAnalyzer \<Rightarrow> CallableAnalyzer" where
  "count_reachable A = A\<lparr>reachable_statements := reachable_statements A + 1\<rparr>"

definition count_unreachable :: "HirStatement \<Rightarrow> CallableAnalyzer \<Rightarrow> CallableAnalyzer" where
  "count_unreachable statement A =
     A\<lparr>unreachable_statements := unreachable_statements A + 1,
       ca_diagnostics := warning_range (hs_range statement) ''unreachable statement'' (ca_diagnostics A)\<rparr>"

text \<open>
  \<open>analyze_statements\<close> is the loop over the statements of a block, \<open>analyze_arms\<close> the loop over the
  arms of a switch.
\<close>

function (sequential) analyze_block ::
  "nat \<Rightarrow> HirStorage \<Rightarrow> TypeId \<Rightarrow> nat \<Rightarrow> bool \<Rightarrow> CallableAnalyzer \<Rightarrow> (FlowResult \<times> CallableAnalyzer) option"
and analyze_statements ::
  "nat \<Rightarrow> HirStorage \<Rightarrow> TypeId \<Rightarrow> nat list \<Rightarrow> FlowResult \<Rightarrow> CallableAnalyzer \<Rightarrow> (FlowResult \<times> CallableAnalyzer) option"
and analyze_statement ::
  "nat \<Rightarrow> HirStorage \<Rightarrow> TypeId \<Rightarrow> HirStatementData \<Rightarrow> CallableAnalyzer \<Rightarrow> (FlowResult \<times> CallableAnalyzer) option"
and analyze_arms ::
  "nat \<Rightarrow> HirStorage \<Rightarrow> TypeId \<Rightarrow> HirSwitchArm list \<Rightarrow> bool \<Rightarrow> CallableAnalyzer \<Rightarrow> (bool \<times> CallableAnalyzer) option"
where
  "analyze_block 0 S bottom i is_reachable A = None"
| "analyze_block (Suc fuel) S bottom i is_reachable A =
     (case hir_block S i of
        None \<Rightarrow> None
      | Some block \<Rightarrow> analyze_statements fuel S bottom (hb_statements block) (flow is_reachable False) A)"
| "analyze_statements fuel S bottom [] block_flow A = Some (block_flow, A)"
| "analyze_statements fuel S bottom (statement_id # ids) block_flow A =
     (case hir_statement S statement_id of
        None \<Rightarrow> None
      | Some statement \<Rightarrow>
          if \<not> can_fall_through block_flow
          then analyze_statements fuel S bottom ids block_flow (count_unreachable statement A)
          else (case analyze_statement fuel S bottom (hs_data statement) (count_reachable A) of
              None \<Rightarrow> None
            | Some (statement_flow, A') \<Rightarrow>
                analyze_statements fuel S bottom ids
                  (flow (can_fall_through statement_flow) (has_break block_flow \<or> has_break statement_flow)) A'))"
| "analyze_statement 0 S bottom data A = None"
| "analyze_statement (Suc fuel) S bottom data A =
     (case data of
        HirReturnStatement v \<Rightarrow> Some (flow False False, A)
      | HirBreakStatement \<Rightarrow> Some (flow False True, A)
      | HirContinueStatement \<Rightarrow> Some (flow False False, A)
      | HirLocalStatement initializer \<Rightarrow>
          (case never_completes_optional S bottom initializer of
             None \<Rightarrow> None
           | Some never \<Rightarrow> Some (flow (\<not> never) False, A))
      | HirExpressionStatement expression \<Rightarrow>
          (case never_completes S bottom expression of
             None \<Rightarrow> None
           | Some never \<Rightarrow> Some (flow (\<not> never) False, A))
      | HirIfStatement condition then_block else_block \<Rightarrow>
          (case never_completes S bottom condition of
             None \<Rightarrow> None
           | Some True \<Rightarrow> Some (flow False False, A)
           | Some False \<Rightarrow>
               (case analyze_block fuel S bottom then_block True A of
                  None \<Rightarrow> None
                | Some (then_flow, A1) \<Rightarrow>
                    (case else_block of
                       None \<Rightarrow> Some (flow True (has_break then_flow), A1)
                     | Some b \<Rightarrow>
                         (case analyze_block fuel S bottom b True A1 of
                            None \<Rightarrow> None
                          | Some (else_flow, A2) \<Rightarrow>
                              Some (flow (can_fall_through then_flow \<or> can_fall_through else_flow)
                                     (has_break then_flow \<or> has_break else_flow), A2)))))
      | HirWhileStatement condition body \<Rightarrow>
          (case never_completes S bottom condition of
             None \<Rightarrow> None
           | Some True \<Rightarrow> Some (flow False False, A)
           | Some False \<Rightarrow>
               (case analyze_block fuel S bottom body True A of
                  None \<Rightarrow> None
                | Some (body_flow, A1) \<Rightarrow>
                    (case is_true fuel S condition of
                       None \<Rightarrow> None
                     | Some forever \<Rightarrow> Some (flow (\<not> forever \<or> has_break body_flow) False, A1))))
      | HirSwitchStatement selector arms is_exhaustive \<Rightarrow>
          (case never_completes S bottom selector of
             None \<Rightarrow> None
           | Some True \<Rightarrow> Some (flow False False, A)
           | Some False \<Rightarrow>
               (case analyze_arms fuel S bottom arms (\<not> is_exhaustive) A of
                  None \<Rightarrow> None
                | Some (falls, A1) \<Rightarrow> Some (flow falls False, A1)))
      | HirForEachStatement iterable body \<Rightarrow>
          (case never_completes S bottom iterable of
             None \<Rightarrow> None
           | Some True \<Rightarrow> Some (flow False False, A)
           | Some False \<Rightarrow>
               (case analyze_block fuel S bottom body True A of
                  None \<Rightarrow> None
                | Some (_, A1) \<Rightarrow> Some (flow True False, A1)))
      | HirForStatement initializer condition updates body \<Rightarrow>
          (case (case initializer of
                   None \<Rightarrow> Some (flow True False, A)
                 | Some s \<Rightarrow>
                     (case hir_statement S s of
                        None \<Rightarrow> None
                      | Some statement \<Rightarrow> analyze_statement fuel S bottom (hs_data statement) A)) of
             None \<Rightarrow> None
           | Some (initial, A1) \<Rightarrow>
               if \<not> can_fall_through initial then Some (initial, A1)
               else (case never_completes_optional S bottom condition of
                   None \<Rightarrow> None
                 | Some True \<Rightarrow> Some (flow False False, A1)
                 | Some False \<Rightarrow>
                     (case analyze_block fuel S bottom body True A1 of
                        None \<Rightarrow> None
                      | Some (body_flow, A2) \<Rightarrow>
                          (case (case condition of
                                   None \<Rightarrow> Some True
                                 | Some c \<Rightarrow> is_true fuel S c) of
                             None \<Rightarrow> None
                           | Some forever \<Rightarrow> Some (flow (\<not> forever \<or> has_break body_flow) False, A2)))))
      | HirNestedBlockStatement block \<Rightarrow> analyze_block fuel S bottom block True A
      | HirInvalidStatement \<Rightarrow> Some (flow True False, A))"
| "analyze_arms fuel S bottom [] falls A = Some (falls, A)"
| "analyze_arms fuel S bottom (arm # arms) falls A =
     (case analyze_block fuel S bottom (arm_body arm) True A of
        None \<Rightarrow> None
      | Some (f, A1) \<Rightarrow>
          analyze_arms fuel S bottom arms (falls \<or> can_fall_through f \<or> has_break f) A1)"
  by pat_completeness auto
termination
  by (relation "measures
       [\<lambda>x. case x of Inl (Inl (fuel, _)) \<Rightarrow> fuel | Inl (Inr (fuel, _)) \<Rightarrow> fuel
                    | Inr (Inl (fuel, _)) \<Rightarrow> fuel | Inr (Inr (fuel, _)) \<Rightarrow> fuel,
        \<lambda>x. case x of Inl (Inl _) \<Rightarrow> 0 | Inl (Inr (_, _, _, ids, _)) \<Rightarrow> Suc (length ids)
                    | Inr (Inl _) \<Rightarrow> 0 | Inr (Inr (_, _, _, arms, _)) \<Rightarrow> Suc (length arms)]") auto

declare analyze_statement.simps [simp del]

record CallableControlFlow =
  ccf_symbol :: SymbolId
  ccf_can_fall_through :: bool
  ccf_reachable_statements :: nat
  ccf_unreachable_statements :: nat

record HirConstructorInitializer =
  ci_arguments :: "nat list"

record HirCallable =
  hc_symbol :: SymbolId
  hc_initializer :: "HirConstructorInitializer option"
  hc_body :: nat

definition analyze ::
  "nat \<Rightarrow> HirStorage \<Rightarrow> TypeId \<Rightarrow> DiagnosticEngine \<Rightarrow> HirCallable \<Rightarrow> bool \<Rightarrow>
   (CallableControlFlow \<times> DiagnosticEngine) option" where
  "analyze fuel S bottom diagnostics callable body_is_reachable =
     (case analyze_block fuel S bottom (hc_body callable) body_is_reachable
             \<lparr>reachable_statements = 0, unreachable_statements = 0, ca_diagnostics = diagnostics\<rparr> of
        None \<Rightarrow> None
      | Some (f, A) \<Rightarrow>
          Some (\<lparr>ccf_symbol = hc_symbol callable, ccf_can_fall_through = can_fall_through f,
                 ccf_reachable_statements = reachable_statements A,
                 ccf_unreachable_statements = unreachable_statements A\<rparr>, ca_diagnostics A))"

section \<open>The analysis of a module\<close>

record HirField =
  hf_symbol :: SymbolId
  hf_initializer :: "nat option"

record HirFileClass =
  fc_fields :: "HirField list"
  fc_functions :: "HirCallable list"
  fc_constructors :: "HirCallable list"
  fc_member_order :: "MemberReference list"

record HirModule =
  hm_storage :: HirStorage
  hm_files :: "HirFileClass list"

text \<open>\<^verbatim>\<open>std::ranges::none_of\<close>, whose predicate may throw.\<close>

fun none_of :: "('a \<Rightarrow> bool option) \<Rightarrow> 'a list \<Rightarrow> bool option" where
  "none_of p [] = Some True"
| "none_of p (x # xs) =
     (case p x of None \<Rightarrow> None | Some True \<Rightarrow> Some False | Some False \<Rightarrow> none_of p xs)"

definition field_never_completes :: "HirStorage \<Rightarrow> SemanticModel \<Rightarrow> HirField \<Rightarrow> bool option" where
  "field_never_completes S M field =
     (case semantic_symbol M (hf_symbol field) of
        None \<Rightarrow> None
      | Some symbol \<Rightarrow>
          if sym_is_static symbol then Some False
          else never_completes_optional S (sm_bottom_type M) (hf_initializer field))"

definition initializer_completes :: "HirStorage \<Rightarrow> SemanticModel \<Rightarrow> HirCallable \<Rightarrow> bool option" where
  "initializer_completes S M constructor =
     (case hc_initializer constructor of
        None \<Rightarrow> Some True
      | Some i \<Rightarrow> none_of (never_completes S (sm_bottom_type M)) (ci_arguments i))"

definition missing_return :: "SemanticModel \<Rightarrow> SemanticSymbol \<Rightarrow> CallableControlFlow \<Rightarrow> bool" where
  "missing_return M symbol f \<longleftrightarrow>
     sym_is_valid symbol \<and> sym_type symbol \<noteq> sm_void_type M \<and> sym_type symbol \<noteq> sm_error_type M \<and>
     ccf_can_fall_through f"

definition analyze_function ::
  "nat \<Rightarrow> HirStorage \<Rightarrow> SemanticModel \<Rightarrow> HirCallable \<Rightarrow> DiagnosticEngine \<Rightarrow>
   (CallableControlFlow \<times> DiagnosticEngine) option" where
  "analyze_function fuel S M callable diagnostics =
     (case semantic_symbol M (hc_symbol callable) of
        None \<Rightarrow> None
      | Some symbol \<Rightarrow>
          (case (if sym_is_abstract symbol
                 then Some (\<lparr>ccf_symbol = hc_symbol callable, ccf_can_fall_through = False,
                             ccf_reachable_statements = 0, ccf_unreachable_statements = 0\<rparr>, diagnostics)
                 else analyze fuel S (sm_bottom_type M) diagnostics callable True) of
             None \<Rightarrow> None
           | Some (f, diagnostics1) \<Rightarrow>
               Some (f, if missing_return M symbol f
                        then error_range (sym_range symbol)
                               (''function '' @ [CHR 0x27] @ sym_name symbol @ [CHR 0x27] @
                                '' does not return a value on every path'') diagnostics1
                        else diagnostics1)))"

fun analyze_members ::
  "nat \<Rightarrow> HirStorage \<Rightarrow> SemanticModel \<Rightarrow> HirFileClass \<Rightarrow> bool \<Rightarrow> MemberReference list \<Rightarrow>
   CallableControlFlow list \<Rightarrow> DiagnosticEngine \<Rightarrow> (CallableControlFlow list \<times> DiagnosticEngine) option" where
  "analyze_members fuel S M file fields_complete [] callables diagnostics = Some (callables, diagnostics)"
| "analyze_members fuel S M file fields_complete (member # ms) callables diagnostics =
     (case mr_kind member of
        dkFunction \<Rightarrow>
          (case at_index (fc_functions file) (mr_index member) of
             None \<Rightarrow> None
           | Some callable \<Rightarrow>
               (case analyze_function fuel S M callable diagnostics of
                  None \<Rightarrow> None
                | Some (f, diagnostics1) \<Rightarrow>
                    analyze_members fuel S M file fields_complete ms (callables @ [f]) diagnostics1))
      | dkConstructor \<Rightarrow>
          (case at_index (fc_constructors file) (mr_index member) of
             None \<Rightarrow> None
           | Some callable \<Rightarrow>
               (case initializer_completes S M callable of
                  None \<Rightarrow> None
                | Some completes \<Rightarrow>
                    (case analyze fuel S (sm_bottom_type M) diagnostics callable (completes \<and> fields_complete) of
                       None \<Rightarrow> None
                     | Some (f, diagnostics1) \<Rightarrow>
                         analyze_members fuel S M file fields_complete ms (callables @ [f]) diagnostics1)))
      | _ \<Rightarrow> analyze_members fuel S M file fields_complete ms callables diagnostics)"

fun analyze_files ::
  "nat \<Rightarrow> HirStorage \<Rightarrow> SemanticModel \<Rightarrow> HirFileClass list \<Rightarrow> CallableControlFlow list \<Rightarrow>
   DiagnosticEngine \<Rightarrow> (CallableControlFlow list \<times> DiagnosticEngine) option" where
  "analyze_files fuel S M [] callables diagnostics = Some (callables, diagnostics)"
| "analyze_files fuel S M (file # fs) callables diagnostics =
     (case none_of (field_never_completes S M) (fc_fields file) of
        None \<Rightarrow> None
      | Some fields_complete \<Rightarrow>
          (case analyze_members fuel S M file fields_complete (fc_member_order file) callables diagnostics of
             None \<Rightarrow> None
           | Some (callables1, diagnostics1) \<Rightarrow> analyze_files fuel S M fs callables1 diagnostics1))"

definition analyze_control_flow ::
  "nat \<Rightarrow> HirModule \<Rightarrow> SemanticModel \<Rightarrow> DiagnosticEngine \<Rightarrow>
   (CallableControlFlow list \<times> DiagnosticEngine) option" where
  "analyze_control_flow fuel hir M diagnostics =
     analyze_files fuel (hm_storage hir) M (hm_files hir) [] diagnostics"

section \<open>What the analysis means\<close>

text \<open>
  The ways a statement can complete. The runs abstract from values: an expression completes unless its
  type is the bottom type, both branches of a conditional can be taken, a switch can take any arm,
  and any loop can be left by its condition unless that is the literal \<^verbatim>\<open>true\<close>, possibly in parentheses, or missing.
\<close>

datatype Completion = Normal | Break | Continue | Return

definition completes :: "HirStorage \<Rightarrow> TypeId \<Rightarrow> nat \<Rightarrow> bool" where
  "completes S bottom e \<longleftrightarrow> (\<exists>x. hir_expression S e = Some x \<and> hx_type x \<noteq> bottom)"

inductive literal_true :: "HirStorage \<Rightarrow> nat \<Rightarrow> bool" for S where
  literal: "hir_expression S e = Some x \<Longrightarrow> hx_data x = HirLiteralExpression lkBoolean ''true'' \<Longrightarrow> literal_true S e"
| grouped: "hir_expression S e = Some x \<Longrightarrow> hx_data x = HirGroupedExpression i \<Longrightarrow> literal_true S i \<Longrightarrow>
    literal_true S e"

text \<open>The runs of a loop whose body completes in the ways \<open>B\<close>.\<close>

inductive runs_loop :: "bool \<Rightarrow> (Completion \<Rightarrow> bool) \<Rightarrow> Completion \<Rightarrow> bool" for can_exit B where
  exit: "can_exit \<Longrightarrow> runs_loop can_exit B Normal"
| broken: "B Break \<Longrightarrow> runs_loop can_exit B Normal"
| returned: "B Return \<Longrightarrow> runs_loop can_exit B Return"
| again: "B c \<Longrightarrow> c = Normal \<or> c = Continue \<Longrightarrow> runs_loop can_exit B d \<Longrightarrow> runs_loop can_exit B d"

lemma runs_loop_mono [mono]: "B \<le> C \<Longrightarrow> runs_loop x B c \<longrightarrow> runs_loop x C c"
proof
  assume BC: "B \<le> C" and "runs_loop x B c"
  from this(2) show "runs_loop x C c"
    using BC by induction (auto intro: runs_loop.intros simp: le_fun_def)
qed

inductive runs_block :: "HirStorage \<Rightarrow> TypeId \<Rightarrow> nat \<Rightarrow> Completion \<Rightarrow> bool"
  and runs_statements :: "HirStorage \<Rightarrow> TypeId \<Rightarrow> nat list \<Rightarrow> Completion \<Rightarrow> bool"
  and runs :: "HirStorage \<Rightarrow> TypeId \<Rightarrow> HirStatementData \<Rightarrow> Completion \<Rightarrow> bool"
  for S bottom where
  block: "hir_block S b = Some x \<Longrightarrow> runs_statements S bottom (hb_statements x) c \<Longrightarrow> runs_block S bottom b c"
| finished: "runs_statements S bottom [] Normal"
| step: "hir_statement S s = Some x \<Longrightarrow> runs S bottom (hs_data x) Normal \<Longrightarrow> runs_statements S bottom ss c \<Longrightarrow>
    runs_statements S bottom (s # ss) c"
| stop: "hir_statement S s = Some x \<Longrightarrow> runs S bottom (hs_data x) c \<Longrightarrow> c \<noteq> Normal \<Longrightarrow>
    runs_statements S bottom (s # ss) c"
| invalid: "runs S bottom HirInvalidStatement Normal"
| local: "(\<And>e. i = Some e \<Longrightarrow> completes S bottom e) \<Longrightarrow> runs S bottom (HirLocalStatement i) Normal"
| expression: "completes S bottom e \<Longrightarrow> runs S bottom (HirExpressionStatement e) Normal"
| return: "runs S bottom (HirReturnStatement v) Return"
| break: "runs S bottom HirBreakStatement Break"
| continue: "runs S bottom HirContinueStatement Continue"
| if_then: "completes S bottom e \<Longrightarrow> runs_block S bottom b c \<Longrightarrow> runs S bottom (HirIfStatement e b b') c"
| if_else: "completes S bottom e \<Longrightarrow> runs_block S bottom b' c \<Longrightarrow> runs S bottom (HirIfStatement e b (Some b')) c"
| if_skip: "completes S bottom e \<Longrightarrow> runs S bottom (HirIfStatement e b None) Normal"
| while: "completes S bottom e \<Longrightarrow> runs_loop (\<not> literal_true S e) (runs_block S bottom b) c \<Longrightarrow>
    runs S bottom (HirWhileStatement e b) c"
| for_each: "completes S bottom e \<Longrightarrow> runs_loop True (runs_block S bottom b) c \<Longrightarrow>
    runs S bottom (HirForEachStatement e b) c"
| for_initial: "hir_statement S s = Some x \<Longrightarrow> runs S bottom (hs_data x) c \<Longrightarrow> c \<noteq> Normal \<Longrightarrow>
    runs S bottom (HirForStatement (Some s) e us b) c"
| for_loop: "i = None \<or> (\<exists>s x. i = Some s \<and> hir_statement S s = Some x \<and> runs S bottom (hs_data x) Normal) \<Longrightarrow>
    (\<And>t. e = Some t \<Longrightarrow> completes S bottom t) \<Longrightarrow>
    runs_loop (\<exists>t. e = Some t \<and> \<not> literal_true S t) (runs_block S bottom b) c \<Longrightarrow>
    runs S bottom (HirForStatement i e us b) c"
| switch_skip: "completes S bottom e \<Longrightarrow> \<not> exhaustive \<Longrightarrow> runs S bottom (HirSwitchStatement e arms exhaustive) Normal"
| switch_arm: "completes S bottom e \<Longrightarrow> arm \<in> set arms \<Longrightarrow> runs_block S bottom (arm_body arm) c \<Longrightarrow>
    runs S bottom (HirSwitchStatement e arms exhaustive) (if c = Break then Normal else c)"
| nested: "runs_block S bottom b c \<Longrightarrow> runs S bottom (HirNestedBlockStatement b) c"

inductive_simps runs_block_iff: "runs_block S bottom b c"
inductive_simps runs_statements_iff: "runs_statements S bottom [] c" "runs_statements S bottom (s # ss) c"
inductive_simps runs_iff:
  "runs S bottom HirInvalidStatement c" "runs S bottom (HirLocalStatement i) c"
  "runs S bottom (HirExpressionStatement e) c" "runs S bottom (HirReturnStatement v) c"
  "runs S bottom HirBreakStatement c" "runs S bottom HirContinueStatement c"
  "runs S bottom (HirIfStatement e b b') c" "runs S bottom (HirWhileStatement e b) c"
  "runs S bottom (HirForEachStatement e b) c" "runs S bottom (HirForStatement i e us b) c"
  "runs S bottom (HirSwitchStatement e arms exhaustive) c" "runs S bottom (HirNestedBlockStatement b) c"
inductive_simps literal_true_iff: "literal_true S e"

section \<open>The analysis is exact\<close>

lemma runs_loop_normal: "runs_loop x B Normal \<longleftrightarrow> x \<or> B Break"
proof
  show "runs_loop x B Normal \<Longrightarrow> x \<or> B Break" by (induction "Normal" rule: runs_loop.induct) auto
qed (auto intro: runs_loop.intros)

lemma runs_loop_break: "\<not> runs_loop x B Break"
proof
  show "runs_loop x B Break \<Longrightarrow> False" by (induction "Break" rule: runs_loop.induct) auto
qed

lemma is_true_exact: "is_true fuel S e = Some b \<Longrightarrow> b \<longleftrightarrow> literal_true S e"
proof (induction fuel S e rule: is_true.induct)
  case (2 fuel S i)
  then obtain x where x: "hir_expression S i = Some x" by (auto split: option.splits)
  show ?case
  proof (cases "hx_data x")
    case (HirLiteralExpression kind lexeme)
    then show ?thesis using 2 x by (auto simp: literal_true_iff [of S i])
  next
    case (HirGroupedExpression e)
    then show ?thesis using "2.IH" [OF x] "2.prems" x by (simp add: literal_true_iff [of S i])
  next
    case HirOtherExpression
    then show ?thesis using 2 x by (simp add: literal_true_iff [of S i])
  qed
qed simp

lemma never_completes_exact: "never_completes S bottom e = Some b \<Longrightarrow> b \<longleftrightarrow> \<not> completes S bottom e"
  by (auto simp: never_completes_def completes_def)

lemma never_completes_optional_exact:
  "never_completes_optional S bottom i = Some b \<Longrightarrow> b \<longleftrightarrow> \<not> (\<forall>e. i = Some e \<longrightarrow> completes S bottom e)"
  by (auto simp: never_completes_optional_def never_completes_exact split: option.splits)

definition flow_exact :: "FlowResult \<Rightarrow> (Completion \<Rightarrow> bool) \<Rightarrow> bool" where
  "flow_exact f R \<longleftrightarrow> (can_fall_through f \<longleftrightarrow> R Normal) \<and> (has_break f \<longleftrightarrow> R Break)"

lemmas exact_intros = never_completes_exact never_completes_optional_exact is_true_exact

text \<open>
  The initializer of a \<^verbatim>\<open>for\<close> statement is a local or an expression statement, as the verifier of the
  representation demands (\<^verbatim>\<open>src/hir/hir_verifier.cc\<close>), so it never breaks.
\<close>

definition simple_initializers :: "HirStorage \<Rightarrow> bool" where
  "simple_initializers S \<longleftrightarrow>
     (\<forall>x \<in> set (hir_statements S). \<forall>s e us b y. hs_data x = HirForStatement (Some s) e us b \<longrightarrow>
        hir_statement S s = Some y \<longrightarrow>
        (\<exists>i. hs_data y = HirLocalStatement i) \<or> (\<exists>t. hs_data y = HirExpressionStatement t))"

definition simple_for :: "HirStorage \<Rightarrow> HirStatementData \<Rightarrow> bool" where
  "simple_for S data \<longleftrightarrow>
     (\<forall>s e us b y. data = HirForStatement (Some s) e us b \<longrightarrow> hir_statement S s = Some y \<longrightarrow>
        (\<exists>i. hs_data y = HirLocalStatement i) \<or> (\<exists>t. hs_data y = HirExpressionStatement t))"

lemma simple_forD: "simple_initializers S \<Longrightarrow> hir_statement S s = Some x \<Longrightarrow> simple_for S (hs_data x)"
  unfolding simple_initializers_def simple_for_def hir_statement_def at_index_def
  by (metis nth_mem option.inject option.distinct(1))

lemma analysis_exact:
  "simple_initializers S \<Longrightarrow> analyze_block fuel S bottom b reach A = Some (f, A') \<Longrightarrow>
     flow_exact f (\<lambda>c. reach \<and> runs_block S bottom b c)"
  "simple_initializers S \<Longrightarrow> analyze_statements fuel S bottom ss block_flow A = Some (f, A') \<Longrightarrow>
     flow_exact f (\<lambda>c. can_fall_through block_flow \<and> runs_statements S bottom ss c \<or> c = Break \<and> has_break block_flow)"
  "simple_initializers S \<Longrightarrow> simple_for S data \<Longrightarrow> analyze_statement fuel S bottom data A = Some (f, A') \<Longrightarrow>
     flow_exact f (runs S bottom data)"
  "simple_initializers S \<Longrightarrow> analyze_arms fuel S bottom arms falls A = Some (g, A') \<Longrightarrow>
     g \<longleftrightarrow> falls \<or> (\<exists>arm \<in> set arms. runs_block S bottom (arm_body arm) Normal \<or> runs_block S bottom (arm_body arm) Break)"
proof (induction fuel S bottom b reach A and fuel S bottom ss block_flow A and fuel S bottom data A
    and fuel S bottom arms falls A arbitrary: f A' and f A' and f A' and g A'
    rule: analyze_block_analyze_statements_analyze_statement_analyze_arms.induct)
  case (1 S bottom i is_reachable A)
  then show ?case by simp
next
  case (2 fuel S bottom i is_reachable A)
  then show ?case
    by (cases "hir_block S i") (auto simp: runs_block_iff flow_exact_def)
next
  case (3 fuel S bottom block_flow A)
  then show ?case by (auto simp: runs_statements_iff flow_exact_def)
next
  case (4 fuel S bottom s ss block_flow A)
  show ?case
  proof (cases "hir_statement S s")
    case None
    then show ?thesis using "4.prems" by simp
  next
    case (Some x)
    show ?thesis
    proof (cases "can_fall_through block_flow")
      case False
      with "4.prems" Some "4.IH"(1) [OF Some False "4.prems"(1)] show ?thesis by (simp add: flow_exact_def)
    next
      case True
      then obtain g A1 where g: "analyze_statement fuel S bottom (hs_data x) (count_reachable A) = Some (g, A1)"
        using "4.prems" Some by (auto split: option.splits)
      have "flow_exact g (runs S bottom (hs_data x))" using "4.IH"(2) [OF Some _ "4.prems"(1) simple_forD [OF "4.prems"(1) Some] g] True by simp
      moreover have "flow_exact f (\<lambda>c. can_fall_through g \<and> runs_statements S bottom ss c \<or>
          c = Break \<and> (has_break block_flow \<or> has_break g))"
        using "4.IH"(3) [OF Some _ g refl "4.prems"(1)] True g "4.prems" Some by simp
      ultimately show ?thesis using True Some by (auto simp: flow_exact_def runs_statements_iff)
    qed
  qed
next
  case (5 S bottom data A)
  then show ?case by (simp add: analyze_statement.simps)
next
  case (6 fuel S bottom data A)
  note IH = "6.IH" and ok = "6.prems"(1) and eq = "6.prems"(3) [unfolded analyze_statement.simps]
  show ?case
  proof (cases data)
    case HirInvalidStatement
    then show ?thesis using eq by (auto simp: flow_exact_def runs_iff)
  next
    case (HirLocalStatement i)
    then show ?thesis using eq
      by (auto simp: flow_exact_def runs_iff dest: never_completes_optional_exact split: option.splits)
  next
    case (HirReturnStatement v)
    then show ?thesis using eq by (auto simp: flow_exact_def runs_iff)
  next
    case (HirExpressionStatement e)
    then show ?thesis using eq
      by (auto simp: flow_exact_def runs_iff dest: never_completes_exact split: option.splits)
  next
    case (HirIfStatement e b b')
    show ?thesis
    proof (cases "never_completes S bottom e")
      case None
      then show ?thesis using eq HirIfStatement by simp
    next
      case (Some never)
      note nc = never_completes_exact [OF Some]
      show ?thesis
      proof (cases never)
        case True
        then show ?thesis using eq HirIfStatement Some nc by (auto simp: flow_exact_def runs_iff)
      next
        case False
        then have nf: "never = False" by simp
        from False obtain g A1 where g: "analyze_block fuel S bottom b True A = Some (g, A1)"
          using eq HirIfStatement Some by (auto split: option.splits)
        note then_exact = IH(1) [OF HirIfStatement Some nf ok g]
        show ?thesis
        proof (cases b')
          case None
          then show ?thesis using then_exact eq HirIfStatement Some False g nc by (auto simp: flow_exact_def runs_iff)
        next
          case b': (Some d)
          then obtain h A2 where h: "analyze_block fuel S bottom d True A1 = Some (h, A2)"
            using eq HirIfStatement Some False g by (auto split: option.splits)
          note else_exact = IH(2) [OF HirIfStatement Some nf g refl b' ok h]
          show ?thesis using then_exact else_exact eq HirIfStatement Some False g h nc b'
            by (auto simp: flow_exact_def runs_iff)
        qed
      qed
    qed
  next
    case (HirWhileStatement e b)
    show ?thesis
    proof (cases "never_completes S bottom e")
      case None
      then show ?thesis using eq HirWhileStatement by simp
    next
      case (Some never)
      note nc = never_completes_exact [OF Some]
      show ?thesis
      proof (cases never)
        case True
        then show ?thesis using eq HirWhileStatement Some nc by (auto simp: flow_exact_def runs_iff)
      next
        case False
        then have nf: "never = False" by simp
        from False obtain g A1 where g: "analyze_block fuel S bottom b True A = Some (g, A1)"
          using eq HirWhileStatement Some by (auto split: option.splits)
        then obtain forever where forever: "is_true fuel S e = Some forever"
          using eq HirWhileStatement Some False by (auto split: option.splits)
        have "flow_exact g (\<lambda>c. True \<and> runs_block S bottom b c)"
          using IH(3) [OF HirWhileStatement Some nf ok g] .
        then show ?thesis using eq HirWhileStatement Some False g nc forever is_true_exact [OF forever]
          by (auto simp: flow_exact_def runs_iff runs_loop_normal runs_loop_break)
      qed
    qed
  next
    case (HirForEachStatement e b)
    show ?thesis
    proof (cases "never_completes S bottom e")
      case None
      then show ?thesis using eq HirForEachStatement by simp
    next
      case (Some never)
      then show ?thesis using eq HirForEachStatement never_completes_exact [OF Some]
        by (cases never) (auto simp: flow_exact_def runs_iff runs_loop_normal runs_loop_break split: option.splits)
    qed
  next
    case (HirForStatement i e us b)
    obtain g A1 where g: "(case i of None \<Rightarrow> Some (flow True False, A)
        | Some s \<Rightarrow> (case hir_statement S s of None \<Rightarrow> None
            | Some x \<Rightarrow> analyze_statement fuel S bottom (hs_data x) A)) = Some (g, A1)"
      using eq HirForStatement by (cases "case i of None \<Rightarrow> Some (flow True False, A)
        | Some s \<Rightarrow> (case hir_statement S s of None \<Rightarrow> None
            | Some x \<Rightarrow> analyze_statement fuel S bottom (hs_data x) A)") auto
    have initial: "flow_exact g (\<lambda>c. case i of None \<Rightarrow> c = Normal
        | Some s \<Rightarrow> \<exists>x. hir_statement S s = Some x \<and> runs S bottom (hs_data x) c)"
    proof (cases i)
      case None
      then show ?thesis using g by (auto simp: flow_exact_def)
    next
      case (Some s)
      then obtain x where x: "hir_statement S s = Some x" "analyze_statement fuel S bottom (hs_data x) A = Some (g, A1)"
        using g by (auto split: option.splits)
      have "simple_for S (hs_data x)" using simple_forD [OF ok x(1)] .
      from IH(5) [OF HirForStatement Some x(1) ok this x(2)] show ?thesis using x(1) Some by (simp add: flow_exact_def)
    qed
    have unbroken: "\<not> (i = Some s \<and> hir_statement S s = Some x \<and> runs S bottom (hs_data x) Break)" for s x
    proof
      assume a: "i = Some s \<and> hir_statement S s = Some x \<and> runs S bottom (hs_data x) Break"
      then have "(\<exists>i. hs_data x = HirLocalStatement i) \<or> (\<exists>t. hs_data x = HirExpressionStatement t)"
        using "6.prems"(2) HirForStatement by (auto simp: simple_for_def)
      with a show False by (auto simp: runs_iff)
    qed
    show ?thesis
    proof (cases "can_fall_through g")
      case False
      then have "f = g" using eq HirForStatement g by simp
      then show ?thesis using initial False HirForStatement
        by (auto simp: flow_exact_def runs_iff runs_loop_normal runs_loop_break split: option.splits)
    next
      case falls: True
      then obtain never where never: "never_completes_optional S bottom e = Some never"
        using eq HirForStatement g by (auto split: option.splits)
      note nc = never_completes_optional_exact [OF never]
      show ?thesis
      proof (cases never)
        case True
        then have "f = flow False False" using eq HirForStatement g falls never by simp
        then show ?thesis using initial falls HirForStatement nc True unbroken
          by (auto simp: flow_exact_def runs_iff runs_loop_normal runs_loop_break split: option.splits)
      next
        case False
        then have nf: "never = False" by simp
        have nn: "\<not> \<not> can_fall_through g" using falls by simp
        obtain h A2 where h: "analyze_block fuel S bottom b True A1 = Some (h, A2)"
          using eq HirForStatement g falls never nf by (auto split: option.splits)
        note body = IH(6) [OF HirForStatement g refl nn never nf ok h]
        obtain forever where forever: "(case e of None \<Rightarrow> Some True | Some c \<Rightarrow> is_true fuel S c) = Some forever"
          using eq HirForStatement g falls never nf h by (cases "case e of None \<Rightarrow> Some True | Some c \<Rightarrow> is_true fuel S c") auto
        then have exit: "\<not> forever \<longleftrightarrow> (\<exists>t. e = Some t \<and> \<not> literal_true S t)"
          using is_true_exact by (auto split: option.splits)
        have "f = flow (\<not> forever \<or> has_break h) False"
          using eq HirForStatement g falls never nf h forever by simp
        then show ?thesis using initial falls HirForStatement nc nf body exit unbroken
          by (auto simp: flow_exact_def runs_iff runs_loop_normal runs_loop_break split: option.splits)
      qed
    qed
  next
    case (HirSwitchStatement e arms exhaustive)
    show ?thesis
    proof (cases "never_completes S bottom e")
      case None
      then show ?thesis using eq HirSwitchStatement by simp
    next
      case (Some never)
      note nc = never_completes_exact [OF Some]
      show ?thesis
      proof (cases never)
        case True
        then show ?thesis using eq HirSwitchStatement Some nc by (auto simp: flow_exact_def runs_iff)
      next
        case False
        then have nf: "never = False" by simp
        obtain g A1 where g: "analyze_arms fuel S bottom arms (\<not> exhaustive) A = Some (g, A1)"
          using eq HirSwitchStatement Some nf by (auto split: option.splits)
        have "f = flow g False" using eq HirSwitchStatement Some nf g by simp
        then show ?thesis using IH(7) [OF HirSwitchStatement Some nf ok g] HirSwitchStatement nc nf
          by (auto simp: flow_exact_def runs_iff)
      qed
    qed
  next
    case HirBreakStatement
    then show ?thesis using eq by (auto simp: flow_exact_def runs_iff)
  next
    case HirContinueStatement
    then show ?thesis using eq by (auto simp: flow_exact_def runs_iff)
  next
    case (HirNestedBlockStatement b)
    then show ?thesis using eq IH(8) [OF HirNestedBlockStatement ok] by (auto simp: flow_exact_def runs_iff)
  qed
next
  case (7 fuel S bottom falls A)
  then show ?case by simp
next
  case (8 fuel S bottom arm arms falls A)
  then obtain h A1 where h: "analyze_block fuel S bottom (arm_body arm) True A = Some (h, A1)"
    by (auto split: option.splits)
  show ?case using "8.IH"(1) [OF "8.prems"(1) h] "8.IH"(2) [OF h refl "8.prems"(1)] "8.prems" h by (auto simp: flow_exact_def)
qed

section \<open>Enough fuel\<close>

text \<open>The nodes a node of the storage refers to, and storages in which they are nested without cycles.\<close>

datatype HirNode = NodeExpression nat | NodeStatement nat | NodeBlock nat

fun present :: "HirStorage \<Rightarrow> HirNode \<Rightarrow> bool" where
  "present S (NodeExpression i) \<longleftrightarrow> i < length (hir_expressions S)"
| "present S (NodeStatement i) \<longleftrightarrow> i < length (hir_statements S)"
| "present S (NodeBlock i) \<longleftrightarrow> i < length (hir_blocks S)"

definition optional_node :: "(nat \<Rightarrow> HirNode) \<Rightarrow> nat option \<Rightarrow> HirNode list" where
  "optional_node f i = (case i of None \<Rightarrow> [] | Some x \<Rightarrow> [f x])"

fun statement_nodes :: "HirStatementData \<Rightarrow> HirNode list" where
  "statement_nodes (HirLocalStatement i) = optional_node NodeExpression i"
| "statement_nodes (HirExpressionStatement e) = [NodeExpression e]"
| "statement_nodes (HirIfStatement e b b') = [NodeExpression e, NodeBlock b] @ optional_node NodeBlock b'"
| "statement_nodes (HirWhileStatement e b) = [NodeExpression e, NodeBlock b]"
| "statement_nodes (HirForEachStatement e b) = [NodeExpression e, NodeBlock b]"
| "statement_nodes (HirForStatement i e us b) =
     optional_node NodeStatement i @ optional_node NodeExpression e @ [NodeBlock b]"
| "statement_nodes (HirSwitchStatement e arms exhaustive) = NodeExpression e # map (\<lambda>a. NodeBlock (arm_body a)) arms"
| "statement_nodes (HirNestedBlockStatement b) = [NodeBlock b]"
| "statement_nodes _ = []"

fun expression_nodes :: "HirExpressionData \<Rightarrow> HirNode list" where
  "expression_nodes (HirGroupedExpression e) = [NodeExpression e]"
| "expression_nodes _ = []"

fun nodes :: "HirStorage \<Rightarrow> HirNode \<Rightarrow> HirNode list" where
  "nodes S (NodeExpression i) = expression_nodes (hx_data (hir_expressions S ! i))"
| "nodes S (NodeStatement i) = statement_nodes (hs_data (hir_statements S ! i))"
| "nodes S (NodeBlock i) = map NodeStatement (hb_statements (hir_blocks S ! i))"

definition well_nested :: "HirStorage \<Rightarrow> (HirNode \<Rightarrow> nat) \<Rightarrow> bool" where
  "well_nested S rank \<longleftrightarrow>
     (\<forall>v. present S v \<longrightarrow> (\<forall>w \<in> set (nodes S v). present S w \<and> rank w < rank v))"

lemma well_nestedD: "well_nested S rank \<Longrightarrow> present S v \<Longrightarrow> w \<in> set (nodes S v) \<Longrightarrow> present S w \<and> rank w < rank v"
  by (auto simp: well_nested_def)

lemma present_lookup:
  "present S (NodeExpression i) \<Longrightarrow> hir_expression S i = Some (hir_expressions S ! i)"
  "present S (NodeStatement i) \<Longrightarrow> hir_statement S i = Some (hir_statements S ! i)"
  "present S (NodeBlock i) \<Longrightarrow> hir_block S i = Some (hir_blocks S ! i)"
  by (simp_all add: hir_expression_def hir_statement_def hir_block_def at_index_def)

lemma is_true_total:
  assumes "well_nested S rank"
  shows "present S (NodeExpression e) \<Longrightarrow> rank (NodeExpression e) < fuel \<Longrightarrow> \<exists>b. is_true fuel S e = Some b"
proof (induction fuel arbitrary: e)
  case (Suc fuel)
  have "present S (NodeExpression i) \<and> rank (NodeExpression i) < fuel"
    if "hx_data (hir_expressions S ! e) = HirGroupedExpression i" for i
    using well_nestedD [OF assms Suc.prems(1), of "NodeExpression i"] that Suc.prems(2) by simp
  with Suc show ?case
    by (cases "hx_data (hir_expressions S ! e)") (auto simp: present_lookup)
qed simp

lemma never_completes_total:
  "present S (NodeExpression e) \<Longrightarrow> \<exists>b. never_completes S bottom e = Some b"
  by (simp add: never_completes_def present_lookup)

lemma never_completes_optional_total:
  "\<forall>w \<in> set (optional_node NodeExpression i). present S w \<Longrightarrow> \<exists>b. never_completes_optional S bottom i = Some b"
  using never_completes_total by (auto simp: never_completes_optional_def optional_node_def split: option.splits)

definition fueled :: "HirStorage \<Rightarrow> (HirNode \<Rightarrow> nat) \<Rightarrow> nat \<Rightarrow> HirNode list \<Rightarrow> bool" where
  "fueled S rank fuel vs \<longleftrightarrow> (\<forall>v \<in> set vs. present S v \<and> rank v < fuel)"

lemma fueled_simps [simp]:
  "fueled S rank fuel []"
  "fueled S rank fuel (v # vs) \<longleftrightarrow> present S v \<and> rank v < fuel \<and> fueled S rank fuel vs"
  "fueled S rank fuel (vs @ ws) \<longleftrightarrow> fueled S rank fuel vs \<and> fueled S rank fuel ws"
  by (auto simp: fueled_def)

lemma fueled_nodes: "well_nested S rank \<Longrightarrow> present S v \<Longrightarrow> rank v < Suc fuel \<Longrightarrow> fueled S rank fuel (nodes S v)"
  using well_nestedD by (fastforce simp: fueled_def)

lemma statements_total:
  assumes "\<And>s A. present S (NodeStatement s) \<Longrightarrow> rank (NodeStatement s) < fuel \<Longrightarrow>
      \<exists>r. analyze_statement fuel S bottom (hs_data (hir_statements S ! s)) A = Some r"
  shows "fueled S rank fuel (map NodeStatement ss) \<Longrightarrow> \<exists>r. analyze_statements fuel S bottom ss f A = Some r"
proof (induction ss arbitrary: f A)
  case (Cons s ss)
  then have s: "present S (NodeStatement s)" "rank (NodeStatement s) < fuel" by simp_all
  obtain g A1 where "analyze_statement fuel S bottom (hs_data (hir_statements S ! s)) (count_reachable A) = Some (g, A1)"
    using assms [OF s] by (metis surj_pair)
  with Cons s show ?case by (simp add: present_lookup)
qed simp

lemma arms_total:
  assumes "\<And>b A. present S (NodeBlock b) \<Longrightarrow> rank (NodeBlock b) < fuel \<Longrightarrow>
      \<exists>r. analyze_block fuel S bottom b True A = Some r"
  shows "fueled S rank fuel (map (\<lambda>a. NodeBlock (arm_body a)) arms) \<Longrightarrow> \<exists>r. analyze_arms fuel S bottom arms falls A = Some r"
proof (induction arms arbitrary: falls A)
  case (Cons a arms)
  then have s: "present S (NodeBlock (arm_body a))" "rank (NodeBlock (arm_body a)) < fuel" by simp_all
  obtain g A1 where "analyze_block fuel S bottom (arm_body a) True A = Some (g, A1)"
    using assms [OF s] by (metis surj_pair)
  with Cons show ?case by simp
qed simp

lemma analysis_total:
  assumes W: "well_nested S rank"
  shows "(present S (NodeBlock b) \<longrightarrow> rank (NodeBlock b) < fuel \<longrightarrow>
      (\<exists>r. analyze_block fuel S bottom b reach A = Some r)) \<and>
    (present S (NodeStatement s) \<longrightarrow> rank (NodeStatement s) < fuel \<longrightarrow>
      (\<exists>r. analyze_statement fuel S bottom (hs_data (hir_statements S ! s)) A = Some r))"
proof (induction fuel arbitrary: b reach A s)
  case (Suc fuel)
  have B: "\<exists>g A1. analyze_block fuel S bottom b reach A = Some (g, A1)"
    if "present S (NodeBlock b)" "rank (NodeBlock b) < fuel" for b reach A
    using Suc.IH that by (metis surj_pair)
  have St: "\<exists>g A1. analyze_statement fuel S bottom (hs_data (hir_statements S ! s)) A = Some (g, A1)"
    if "present S (NodeStatement s)" "rank (NodeStatement s) < fuel" for s A
    using Suc.IH that by (metis surj_pair)
  note N = never_completes_total [of S _ bottom]
  note T = is_true_total [OF W]
  show ?case
  proof (intro conjI impI)
    assume b: "present S (NodeBlock b)" "rank (NodeBlock b) < Suc fuel"
    have "fueled S rank fuel (map NodeStatement (hb_statements (hir_blocks S ! b)))"
      using fueled_nodes [OF W b] by simp
    from statements_total [OF _ this] St show "\<exists>r. analyze_block (Suc fuel) S bottom b reach A = Some r"
      using b by (simp add: present_lookup)
  next
    assume s: "present S (NodeStatement s)" "rank (NodeStatement s) < Suc fuel"
    define data where "data = hs_data (hir_statements S ! s)"
    have F: "fueled S rank fuel (statement_nodes data)" using fueled_nodes [OF W s] by (simp add: data_def)
    have "\<exists>r. analyze_statement (Suc fuel) S bottom data A = Some r"
    proof (cases data)
      case (HirLocalStatement i)
      then show ?thesis using F never_completes_optional_total [of i S bottom]
        by (auto simp: analyze_statement.simps fueled_def)
    next
      case (HirExpressionStatement e)
      then show ?thesis using F N [of e] by (auto simp: analyze_statement.simps)
    next
      case (HirIfStatement e b b')
      then have f: "present S (NodeExpression e)" "present S (NodeBlock b)" "rank (NodeBlock b) < fuel"
        "\<And>d. b' = Some d \<Longrightarrow> present S (NodeBlock d) \<and> rank (NodeBlock d) < fuel"
        using F by (auto simp: optional_node_def)
      obtain never where never: "never_completes S bottom e = Some never" using N [OF f(1)] by blast
      obtain g A1 where g: "analyze_block fuel S bottom b True A = Some (g, A1)" using B [OF f(2,3)] by blast
      have "\<exists>h A2. analyze_block fuel S bottom d True A1 = Some (h, A2)" if "b' = Some d" for d
        using f(4) [OF that] B by blast
      then show ?thesis using HirIfStatement never g
        by (cases never; cases b') (auto simp: analyze_statement.simps)
    next
      case (HirWhileStatement e b)
      then have f: "present S (NodeExpression e)" "rank (NodeExpression e) < fuel" "present S (NodeBlock b)"
        "rank (NodeBlock b) < fuel" using F by auto
      obtain never where never: "never_completes S bottom e = Some never" using N [OF f(1)] by blast
      obtain g A1 where g: "analyze_block fuel S bottom b True A = Some (g, A1)" using B [OF f(3,4)] by blast
      show ?thesis using HirWhileStatement never g T [OF f(1,2)]
        by (cases never) (auto simp: analyze_statement.simps)
    next
      case (HirForEachStatement e b)
      then have f: "present S (NodeExpression e)" "present S (NodeBlock b)" "rank (NodeBlock b) < fuel" using F by auto
      obtain never where never: "never_completes S bottom e = Some never" using N [OF f(1)] by blast
      obtain g A1 where g: "analyze_block fuel S bottom b True A = Some (g, A1)" using B [OF f(2,3)] by blast
      show ?thesis using HirForEachStatement never g by (cases never) (auto simp: analyze_statement.simps)
    next
      case (HirForStatement i e us b)
      then have f: "present S (NodeBlock b)" "rank (NodeBlock b) < fuel"
        "\<And>t. e = Some t \<Longrightarrow> present S (NodeExpression t) \<and> rank (NodeExpression t) < fuel"
        "\<And>u. i = Some u \<Longrightarrow> present S (NodeStatement u) \<and> rank (NodeStatement u) < fuel"
        using F by (auto simp: optional_node_def)
      obtain g A1 where g: "(case i of None \<Rightarrow> Some (flow True False, A)
        | Some s \<Rightarrow> (case hir_statement S s of None \<Rightarrow> None
            | Some x \<Rightarrow> analyze_statement fuel S bottom (hs_data x) A)) = Some (g, A1)"
      proof (cases i)
        case (Some u)
        then show ?thesis using St [of u A] f(4) [OF Some] that by (auto simp: present_lookup)
      qed (use that in simp)
      obtain never where never: "never_completes_optional S bottom e = Some never"
        using never_completes_optional_total [of e S bottom] f(3) by (cases e) (auto simp: optional_node_def)
      obtain h A2 where h: "analyze_block fuel S bottom b True A1 = Some (h, A2)" using B [OF f(1,2)] by blast
      have "\<exists>b. is_true fuel S t = Some b" if "e = Some t" for t using T f(3) [OF that] by blast
      then show ?thesis using HirForStatement g never h
        by (cases never; cases e) (auto simp: analyze_statement.simps)
    next
      case (HirSwitchStatement e arms exhaustive)
      then have f: "present S (NodeExpression e)" "fueled S rank fuel (map (\<lambda>a. NodeBlock (arm_body a)) arms)"
        using F by auto
      obtain never where never: "never_completes S bottom e = Some never" using N [OF f(1)] by blast
      obtain g A1 where g: "analyze_arms fuel S bottom arms (\<not> exhaustive) A = Some (g, A1)"
        using arms_total [OF _ f(2)] B by (metis surj_pair)
      show ?thesis using HirSwitchStatement never g by (cases never) (auto simp: analyze_statement.simps)
    next
      case (HirNestedBlockStatement b)
      then show ?thesis using F B [of b True A] by (auto simp: analyze_statement.simps)
    qed (auto simp: analyze_statement.simps)
    then show "\<exists>r. analyze_statement (Suc fuel) S bottom (hs_data (hir_statements S ! s)) A = Some r"
      by (simp add: data_def)
  qed
qed simp

section \<open>Callables and modules\<close>

text \<open>The analysis reports warnings only; the error of a missing return is the module's.\<close>

lemma analysis_warns:
  "analyze_block fuel S bottom b reach A = Some (f, A') \<Longrightarrow>
     eng_has_errors (ca_diagnostics A') = eng_has_errors (ca_diagnostics A)"
  "analyze_statements fuel S bottom ss block_flow A = Some (f, A') \<Longrightarrow>
     eng_has_errors (ca_diagnostics A') = eng_has_errors (ca_diagnostics A)"
  "analyze_statement fuel S bottom data A = Some (f, A') \<Longrightarrow>
     eng_has_errors (ca_diagnostics A') = eng_has_errors (ca_diagnostics A)"
  "analyze_arms fuel S bottom arms falls A = Some (g, A') \<Longrightarrow>
     eng_has_errors (ca_diagnostics A') = eng_has_errors (ca_diagnostics A)"
proof (induction fuel S bottom b reach A and fuel S bottom ss block_flow A and fuel S bottom data A
    and fuel S bottom arms falls A arbitrary: f A' and f A' and f A' and g A'
    rule: analyze_block_analyze_statements_analyze_statement_analyze_arms.induct)
  case (4 fuel S bottom s ss block_flow A)
  then obtain x where x: "hir_statement S s = Some x" by (auto split: option.splits)
  show ?case
  proof (cases "can_fall_through block_flow")
    case False
    with "4.prems" x "4.IH"(1) [OF x False] show ?thesis by (simp add: count_unreachable_def warning_range_def)
  next
    case True
    then obtain g A1 where g: "analyze_statement fuel S bottom (hs_data x) (count_reachable A) = Some (g, A1)"
      using "4.prems" x by (auto split: option.splits)
    show ?thesis using "4.IH"(2) [OF x _ g] "4.IH"(3) [OF x _ g refl] True g "4.prems" x
      by (simp add: count_reachable_def)
  qed
next
  case (5 S bottom data A)
  then show ?case by (simp add: analyze_statement.simps)
next
  case (6 fuel S bottom data A)
  note IH = "6.IH" and eq = "6.prems" [unfolded analyze_statement.simps]
  show ?case
  proof (cases data)
    case (HirForStatement i e us b)
    let ?first = "case i of None \<Rightarrow> Some (flow True False, A)
        | Some s \<Rightarrow> (case hir_statement S s of None \<Rightarrow> None
            | Some x \<Rightarrow> analyze_statement fuel S bottom (hs_data x) A)"
    obtain g A1 where g: "?first = Some (g, A1)"
      using eq HirForStatement by (cases ?first) auto
    have A1: "eng_has_errors (ca_diagnostics A1) = eng_has_errors (ca_diagnostics A)"
      using g IH(5) [OF HirForStatement] by (auto split: option.splits)
    show ?thesis
    proof (cases "can_fall_through g \<and> never_completes_optional S bottom e = Some False")
      case False
      then have "A' = A1" using eq HirForStatement g by (auto split: option.splits if_splits bool.splits)
      with A1 show ?thesis by simp
    next
      case True
      then have nn: "\<not> \<not> can_fall_through g" and never: "never_completes_optional S bottom e = Some False" by simp_all
      obtain h A2 where h: "analyze_block fuel S bottom b True A1 = Some (h, A2)"
        using eq HirForStatement g nn never by (auto split: option.splits)
      have "A' = A2" using eq HirForStatement g nn never h by (auto split: option.splits)
      with A1 IH(6) [OF HirForStatement g refl nn never refl h] show ?thesis by simp
    qed
  next
    case (HirIfStatement e b b')
    show ?thesis
    proof (cases "never_completes S bottom e = Some False")
      case False
      then show ?thesis using eq HirIfStatement by (auto split: option.splits bool.splits)
    next
      case True
      then obtain g A1 where g: "analyze_block fuel S bottom b True A = Some (g, A1)"
        using eq HirIfStatement by (auto split: option.splits)
      note A1 = IH(1) [OF HirIfStatement True refl g]
      show ?thesis
      proof (cases b')
        case None
        then show ?thesis using A1 eq HirIfStatement True g by simp
      next
        case (Some d)
        then obtain h A2 where h: "analyze_block fuel S bottom d True A1 = Some (h, A2)"
          using eq HirIfStatement True g by (auto split: option.splits)
        from IH(2) [OF HirIfStatement True refl g refl Some h] A1 show ?thesis
          using eq HirIfStatement True g Some h by simp
      qed
    qed
  next
    case (HirWhileStatement e b)
    show ?thesis
    proof (cases "never_completes S bottom e = Some False")
      case False
      then show ?thesis using eq HirWhileStatement by (auto split: option.splits bool.splits)
    next
      case True
      then obtain g A1 where g: "analyze_block fuel S bottom b True A = Some (g, A1)"
        using eq HirWhileStatement by (auto split: option.splits)
      show ?thesis using IH(3) [OF HirWhileStatement True refl g] eq HirWhileStatement True g
        by (auto split: option.splits)
    qed
  next
    case (HirForEachStatement e b)
    show ?thesis
    proof (cases "never_completes S bottom e = Some False")
      case False
      then show ?thesis using eq HirForEachStatement by (auto split: option.splits bool.splits)
    next
      case True
      then obtain g A1 where g: "analyze_block fuel S bottom b True A = Some (g, A1)"
        using eq HirForEachStatement by (auto split: option.splits)
      show ?thesis using IH(4) [OF HirForEachStatement True refl g] eq HirForEachStatement True g by simp
    qed
  next
    case (HirSwitchStatement e arms exhaustive)
    show ?thesis
    proof (cases "never_completes S bottom e = Some False")
      case False
      then show ?thesis using eq HirSwitchStatement by (auto split: option.splits bool.splits)
    next
      case True
      then obtain g A1 where g: "analyze_arms fuel S bottom arms (\<not> exhaustive) A = Some (g, A1)"
        using eq HirSwitchStatement by (auto split: option.splits)
      show ?thesis using IH(7) [OF HirSwitchStatement True refl g] eq HirSwitchStatement True g by simp
    qed
  next
    case (HirNestedBlockStatement b)
    then show ?thesis using eq IH(8) [OF HirNestedBlockStatement] by simp
  qed (use eq in \<open>auto split: option.splits\<close>)
next
  case (8 fuel S bottom arm arms falls A)
  then show ?case by (auto split: option.splits)
qed (auto split: option.splits)

definition callable_falls :: "HirStorage \<Rightarrow> SemanticModel \<Rightarrow> HirCallable \<Rightarrow> bool" where
  "callable_falls S M c \<longleftrightarrow> runs_block S (sm_bottom_type M) (hc_body c) Normal"

lemma analyze_exact:
  assumes "simple_initializers S" "well_nested S rank" "present S (NodeBlock (hc_body c))" "rank (NodeBlock (hc_body c)) < fuel"
  shows "\<exists>r d'. analyze fuel S (sm_bottom_type M) d c reach = Some (r, d') \<and> ccf_symbol r = hc_symbol c \<and>
    (ccf_can_fall_through r \<longleftrightarrow> reach \<and> callable_falls S M c) \<and> eng_has_errors d' = eng_has_errors d"
proof -
  let ?A = "\<lparr>reachable_statements = 0, unreachable_statements = 0, ca_diagnostics = d\<rparr>"
  obtain f A' where r: "analyze_block fuel S (sm_bottom_type M) (hc_body c) reach ?A = Some (f, A')"
    using analysis_total [OF assms(2)] assms(3,4) by (metis surj_pair)
  from analysis_exact(1) [OF assms(1) r] analysis_warns(1) [OF r] r show ?thesis
    by (simp add: analyze_def callable_falls_def flow_exact_def)
qed

text \<open>The callables of a module in the order of its files and their members, each with its file.\<close>

datatype Entry = FunctionEntry HirFileClass HirCallable | ConstructorEntry HirFileClass HirCallable

fun member_entries :: "HirFileClass \<Rightarrow> MemberReference \<Rightarrow> Entry list" where
  "member_entries file m =
     (case mr_kind m of
        dkFunction \<Rightarrow> [FunctionEntry file (fc_functions file ! mr_index m)]
      | dkConstructor \<Rightarrow> [ConstructorEntry file (fc_constructors file ! mr_index m)]
      | _ \<Rightarrow> [])"

definition file_entries :: "HirFileClass \<Rightarrow> Entry list" where
  "file_entries file = concat (map (member_entries file) (fc_member_order file))"

definition module_entries :: "HirModule \<Rightarrow> Entry list" where
  "module_entries hir = concat (map file_entries (hm_files hir))"

definition fields_completable :: "HirStorage \<Rightarrow> SemanticModel \<Rightarrow> HirFileClass \<Rightarrow> bool" where
  "fields_completable S M file \<longleftrightarrow>
     (\<forall>field \<in> set (fc_fields file). \<forall>e. hf_initializer field = Some e \<longrightarrow>
        sym_is_static (sm_symbols M ! hf_symbol field) \<or> completes S (sm_bottom_type M) e)"

definition arguments_completable :: "HirStorage \<Rightarrow> SemanticModel \<Rightarrow> HirCallable \<Rightarrow> bool" where
  "arguments_completable S M c \<longleftrightarrow>
     (\<forall>i. hc_initializer c = Some i \<longrightarrow> (\<forall>e \<in> set (ci_arguments i). completes S (sm_bottom_type M) e))"

text \<open>Whether a callable can complete at the end of its body.\<close>

fun entry_falls :: "HirStorage \<Rightarrow> SemanticModel \<Rightarrow> Entry \<Rightarrow> bool" where
  "entry_falls S M (FunctionEntry file c) \<longleftrightarrow>
     \<not> sym_is_abstract (sm_symbols M ! hc_symbol c) \<and> callable_falls S M c"
| "entry_falls S M (ConstructorEntry file c) \<longleftrightarrow>
     fields_completable S M file \<and> arguments_completable S M c \<and> callable_falls S M c"

fun entry_callable :: "Entry \<Rightarrow> HirCallable" where
  "entry_callable (FunctionEntry file c) = c"
| "entry_callable (ConstructorEntry file c) = c"

fun entry_misses_return :: "HirStorage \<Rightarrow> SemanticModel \<Rightarrow> Entry \<Rightarrow> bool" where
  "entry_misses_return S M (FunctionEntry file c) \<longleftrightarrow>
     (let s = sm_symbols M ! hc_symbol c in
      sym_is_valid s \<and> sym_type s \<noteq> sm_void_type M \<and> sym_type s \<noteq> sm_error_type M \<and> entry_falls S M (FunctionEntry file c))"
| "entry_misses_return S M (ConstructorEntry file c) \<longleftrightarrow> False"

definition describes :: "HirStorage \<Rightarrow> SemanticModel \<Rightarrow> Entry \<Rightarrow> CallableControlFlow \<Rightarrow> bool" where
  "describes S M entry r \<longleftrightarrow>
     ccf_symbol r = hc_symbol (entry_callable entry) \<and> (ccf_can_fall_through r \<longleftrightarrow> entry_falls S M entry)"

text \<open>Modules whose ids and indices refer to something.\<close>

definition callable_ok :: "HirStorage \<Rightarrow> SemanticModel \<Rightarrow> HirCallable \<Rightarrow> bool" where
  "callable_ok S M c \<longleftrightarrow> hc_symbol c < length (sm_symbols M) \<and> present S (NodeBlock (hc_body c)) \<and>
     (\<forall>i. hc_initializer c = Some i \<longrightarrow> (\<forall>e \<in> set (ci_arguments i). present S (NodeExpression e)))"

definition file_ok :: "HirStorage \<Rightarrow> SemanticModel \<Rightarrow> HirFileClass \<Rightarrow> bool" where
  "file_ok S M file \<longleftrightarrow>
     (\<forall>field \<in> set (fc_fields file). hf_symbol field < length (sm_symbols M) \<and>
        (\<forall>e. hf_initializer field = Some e \<longrightarrow> present S (NodeExpression e))) \<and>
     list_all (callable_ok S M) (fc_functions file) \<and> list_all (callable_ok S M) (fc_constructors file) \<and>
     (\<forall>m \<in> set (fc_member_order file).
        (mr_kind m = dkFunction \<longrightarrow> mr_index m < length (fc_functions file)) \<and>
        (mr_kind m = dkConstructor \<longrightarrow> mr_index m < length (fc_constructors file)))"

lemma none_of_exact:
  "\<forall>x \<in> set xs. p x = Some (\<not> q x) \<Longrightarrow> none_of p xs = Some (\<forall>x \<in> set xs. q x)"
  by (induction xs) (auto split: bool.splits)

lemma never_completes_present:
  "present S (NodeExpression e) \<Longrightarrow> never_completes S bottom e = Some (\<not> completes S bottom e)"
  by (simp add: never_completes_def completes_def present_lookup)

lemma initializer_completes_exact:
  "callable_ok S M c \<Longrightarrow> initializer_completes S M c = Some (arguments_completable S M c)"
  using none_of_exact [where p = "never_completes S (sm_bottom_type M)" and q = "completes S (sm_bottom_type M)"]
  by (auto simp: initializer_completes_def arguments_completable_def callable_ok_def never_completes_present
      simp del: present.simps split: option.splits)

lemma fields_complete_exact:
  assumes "file_ok S M file"
  shows "none_of (field_never_completes S M) (fc_fields file) = Some (fields_completable S M file)"
proof -
  have "field_never_completes S M field =
      Some (\<not> (\<forall>e. hf_initializer field = Some e \<longrightarrow>
        sym_is_static (sm_symbols M ! hf_symbol field) \<or> completes S (sm_bottom_type M) e))"
    if "field \<in> set (fc_fields file)" for field
    using assms that never_completes_present
    by (cases "hf_initializer field")
      (auto simp: file_ok_def field_never_completes_def semantic_symbol_def at_index_def never_completes_optional_def
        simp del: present.simps)
  then show ?thesis unfolding fields_completable_def by (intro none_of_exact) blast
qed

lemma function_exact:
  assumes "simple_initializers S" "well_nested S rank" "callable_ok S M c" "rank (NodeBlock (hc_body c)) < fuel"
  shows "\<exists>r d'. analyze_function fuel S M c d = Some (r, d') \<and> describes S M (FunctionEntry file c) r \<and>
    (eng_has_errors d' \<longleftrightarrow> eng_has_errors d \<or> entry_misses_return S M (FunctionEntry file c))"
proof -
  let ?s = "sm_symbols M ! hc_symbol c"
  have s: "semantic_symbol M (hc_symbol c) = Some ?s"
    using assms(3) by (simp add: callable_ok_def semantic_symbol_def at_index_def)
  have b: "present S (NodeBlock (hc_body c))" using assms(3) by (simp add: callable_ok_def)
  show ?thesis
  proof (cases "sym_is_abstract ?s")
    case True
    then show ?thesis using s
      by (simp add: analyze_function_def describes_def missing_return_def Let_def)
  next
    case False
    from analyze_exact [OF assms(1,2) b assms(4), of M d True] obtain r d' where
      "analyze fuel S (sm_bottom_type M) d c True = Some (r, d')" "ccf_symbol r = hc_symbol c"
      "ccf_can_fall_through r \<longleftrightarrow> callable_falls S M c" "eng_has_errors d' = eng_has_errors d"
      by auto
    with s False show ?thesis
      by (auto simp: analyze_function_def describes_def missing_return_def Let_def error_range_def)
  qed
qed

lemma members_exact:
  assumes S: "simple_initializers S" "well_nested S rank" and F: "\<forall>v. present S v \<longrightarrow> rank v < fuel" "file_ok S M file"
  shows "set ms \<subseteq> set (fc_member_order file) \<Longrightarrow>
    \<exists>rs d'. analyze_members fuel S M file (fields_completable S M file) ms callables d = Some (callables @ rs, d') \<and>
      list_all2 (describes S M) (concat (map (member_entries file) ms)) rs \<and>
      (eng_has_errors d' \<longleftrightarrow> eng_has_errors d \<or> list_ex (entry_misses_return S M) (concat (map (member_entries file) ms)))"
proof (induction ms arbitrary: callables d)
  case (Cons m ms)
  have m: "m \<in> set (fc_member_order file)" and ms: "set ms \<subseteq> set (fc_member_order file)" using Cons.prems by auto
  show ?case
  proof (cases "mr_kind m")
    case dkFunction
    let ?c = "fc_functions file ! mr_index m"
    have i: "mr_index m < length (fc_functions file)" using F(2) m dkFunction by (auto simp: file_ok_def)
    then have ok: "callable_ok S M ?c" using F(2) by (auto simp: file_ok_def list_all_length)
    then have "rank (NodeBlock (hc_body ?c)) < fuel" using F(1) by (simp add: callable_ok_def)
    from function_exact [OF S ok this, of d "file"] obtain r d1 where r: "analyze_function fuel S M ?c d = Some (r, d1)"
      "describes S M (FunctionEntry file ?c) r"
      "eng_has_errors d1 \<longleftrightarrow> eng_has_errors d \<or> entry_misses_return S M (FunctionEntry file ?c)" by blast
    from Cons.IH [OF ms, of "callables @ [r]" d1] r i dkFunction show ?thesis
      by (auto simp: at_index_def list_all2_Cons1)
  next
    case dkConstructor
    let ?c = "fc_constructors file ! mr_index m"
    have i: "mr_index m < length (fc_constructors file)" using F(2) m dkConstructor by (auto simp: file_ok_def)
    then have ok: "callable_ok S M ?c" using F(2) by (auto simp: file_ok_def list_all_length)
    then have b: "present S (NodeBlock (hc_body ?c))" by (simp add: callable_ok_def)
    then have "rank (NodeBlock (hc_body ?c)) < fuel" using F(1) by blast
    from analyze_exact [OF S b this, of M d "arguments_completable S M ?c \<and> fields_completable S M file"]
    obtain r d1 where r: "analyze fuel S (sm_bottom_type M) d ?c (arguments_completable S M ?c \<and> fields_completable S M file) = Some (r, d1)"
      "describes S M (ConstructorEntry file ?c) r" "eng_has_errors d1 \<longleftrightarrow> eng_has_errors d"
      by (auto simp: describes_def)
    from Cons.IH [OF ms, of "callables @ [r]" d1] r i dkConstructor initializer_completes_exact [OF ok] show ?thesis
      by (auto simp: at_index_def list_all2_Cons1)
  next
    case dkField
    with Cons.IH [OF ms] show ?thesis by simp
  next
    case dkNestedType
    with Cons.IH [OF ms] show ?thesis by simp
  qed
qed simp

lemma files_exact:
  assumes S: "simple_initializers S" "well_nested S rank" and F: "\<forall>v. present S v \<longrightarrow> rank v < fuel"
  shows "list_all (file_ok S M) fs \<Longrightarrow>
    \<exists>rs d'. analyze_files fuel S M fs callables d = Some (callables @ rs, d') \<and>
      list_all2 (describes S M) (concat (map file_entries fs)) rs \<and>
      (eng_has_errors d' \<longleftrightarrow> eng_has_errors d \<or> list_ex (entry_misses_return S M) (concat (map file_entries fs)))"
proof (induction fs arbitrary: callables d)
  case (Cons f fs)
  then have f: "file_ok S M f" and fs: "list_all (file_ok S M) fs" by simp_all
  from members_exact [OF S F f order_refl, of callables d] obtain rs d1 where
    r: "analyze_members fuel S M f (fields_completable S M f) (fc_member_order f) callables d = Some (callables @ rs, d1)"
      "list_all2 (describes S M) (file_entries f) rs"
      "eng_has_errors d1 \<longleftrightarrow> eng_has_errors d \<or> list_ex (entry_misses_return S M) (file_entries f)"
    by (auto simp: file_entries_def)
  from Cons.IH [OF fs, of "callables @ rs" d1] obtain rs' d2 where
    "analyze_files fuel S M fs (callables @ rs) d1 = Some ((callables @ rs) @ rs', d2)"
      "list_all2 (describes S M) (concat (map file_entries fs)) rs'"
      "eng_has_errors d2 \<longleftrightarrow> eng_has_errors d1 \<or> list_ex (entry_misses_return S M) (concat (map file_entries fs))"
    by blast
  with r fields_complete_exact [OF f] show ?case
    by (auto intro!: list_all2_appendI)
qed simp

text \<open>
  C38: Control-flow analysis is exact and never gets stuck. On every module whose ids and indices refer to
  something and are not cyclic, the analysis finishes and describes the functions and constructors of each file in the order of its
  members: a callable is reported as able to fall through exactly when some run of its body reaches
  the end (for a constructor, also the field initializers and the arguments of its initializer must be able to complete). The module gets an error exactly when
  a valid, concrete function with a result type can reach the end of its body without returning.
\<close>

theorem control_flow_exact:
  assumes "simple_initializers (hm_storage hir)" "well_nested (hm_storage hir) rank"
    and "list_all (file_ok (hm_storage hir) M) (hm_files hir)"
  shows "\<exists>N. \<forall>fuel \<ge> N. \<exists>callables d'.
    analyze_control_flow fuel hir M d = Some (callables, d') \<and>
    list_all2 (describes (hm_storage hir) M) (module_entries hir) callables \<and>
    (eng_has_errors d' \<longleftrightarrow>
       eng_has_errors d \<or> list_ex (entry_misses_return (hm_storage hir) M) (module_entries hir))"
proof -
  let ?S = "hm_storage hir"
  have "{v. present ?S v} \<subseteq> NodeExpression ` {..<length (hir_expressions ?S)} \<union>
      NodeStatement ` {..<length (hir_statements ?S)} \<union> NodeBlock ` {..<length (hir_blocks ?S)}"
  proof
    fix v assume "v \<in> {v. present ?S v}"
    then show "v \<in> NodeExpression ` {..<length (hir_expressions ?S)} \<union>
      NodeStatement ` {..<length (hir_statements ?S)} \<union> NodeBlock ` {..<length (hir_blocks ?S)}"
      by (cases v) auto
  qed
  then have fin: "finite {v. present ?S v}" by (rule finite_subset) simp
  have "rank v \<le> Max (rank ` {v. present ?S v})" if "present ?S v" for v
    using fin that by (intro Max_ge) auto
  then have bound: "\<forall>v. present ?S v \<longrightarrow> rank v < fuel" if "Suc (Max (rank ` {v. present ?S v})) \<le> fuel" for fuel
    using that by (meson Suc_le_lessD le_less_trans)
  show ?thesis
  proof (rule exI, intro allI impI)
    fix fuel assume "Suc (Max (rank ` {v. present ?S v})) \<le> fuel"
    from files_exact [OF assms(1,2) bound [OF this] assms(3), of "[]" d]
    show "\<exists>callables d'. analyze_control_flow fuel hir M d = Some (callables, d') \<and>
      list_all2 (describes ?S M) (module_entries hir) callables \<and>
      (eng_has_errors d' \<longleftrightarrow> eng_has_errors d \<or> list_ex (entry_misses_return ?S M) (module_entries hir))"
      by (simp add: analyze_control_flow_def module_entries_def)
  qed
qed

text \<open>A function with a result whose body is a loop forever that a nested \<^verbatim>\<open>break\<close> leaves.\<close>

definition sample_range :: SourceRange where
  "sample_range = point_range \<lparr>loc_file = ''a'', loc_byte_offset = 0, loc_line = 1, loc_column = 1\<rparr>"

definition sample_storage :: HirStorage where
  "sample_storage =
     \<lparr>hir_expressions = [\<lparr>hx_type = 1, hx_data = HirLiteralExpression lkBoolean ''true''\<rparr>,
                         \<lparr>hx_type = 1, hx_data = HirOtherExpression\<rparr>],
      hir_statements = [\<lparr>hs_range = sample_range, hs_data = HirBreakStatement\<rparr>,
                        \<lparr>hs_range = sample_range, hs_data = HirIfStatement 1 0 None\<rparr>,
                        \<lparr>hs_range = sample_range, hs_data = HirWhileStatement 0 1\<rparr>],
      hir_blocks = [\<lparr>hb_statements = [0]\<rparr>, \<lparr>hb_statements = [1]\<rparr>, \<lparr>hb_statements = [2]\<rparr>]\<rparr>"

definition sample_module :: HirModule where
  "sample_module =
     \<lparr>hm_storage = sample_storage,
      hm_files = [\<lparr>fc_fields = [], fc_functions = [\<lparr>hc_symbol = 0, hc_initializer = None, hc_body = 2\<rparr>],
                   fc_constructors = [], fc_member_order = [\<lparr>mr_kind = dkFunction, mr_index = 0\<rparr>]\<rparr>]\<rparr>"

definition sample_symbol :: SemanticSymbol where
  "sample_symbol =
     \<lparr>sym_kind = syFunction, sym_name = ''f'', sym_type = 1, sym_parameter_types = [], sym_visibility = visPrivate,
      sym_file = Some 0, sym_range = sample_range, sym_is_valid = True, sym_intrinsic = ikNone,
      sym_is_static = True, sym_is_abstract = False, sym_overridden_symbol = None, sym_thrown_types = []\<rparr>"

definition sample_model :: SemanticModel where
  "sample_model =
     empty_model\<lparr>sm_symbols := [sample_symbol], sm_void_type := 2, sm_error_type := 3, sm_bottom_type := 4\<rparr>"

fun sample_rank :: "HirNode \<Rightarrow> nat" where
  "sample_rank (NodeExpression i) = 0"
| "sample_rank (NodeStatement i) = 2 * i + 1"
| "sample_rank (NodeBlock i) = 2 * i + 2"

lemmas sample_hir_defs = sample_storage_def sample_module_def sample_model_def sample_symbol_def empty_model_def

lemma sample_module_ok:
  "simple_initializers sample_storage" "well_nested sample_storage sample_rank"
  "list_all (file_ok sample_storage sample_model) (hm_files sample_module)"
proof -
  show "simple_initializers sample_storage" by (simp add: sample_hir_defs simple_initializers_def)
  have "present sample_storage w \<and> sample_rank w < sample_rank v"
    if "present sample_storage v" "w \<in> set (nodes sample_storage v)" for v w
    using that by (cases v) (auto simp: sample_hir_defs optional_node_def less_Suc_eq numeral_3_eq_3 numeral_2_eq_2)
  then show "well_nested sample_storage sample_rank" by (simp add: well_nested_def)
  show "list_all (file_ok sample_storage sample_model) (hm_files sample_module)"
    by (simp add: sample_hir_defs file_ok_def callable_ok_def)
qed

lemma sample_falls: "runs_block sample_storage 4 2 Normal"
  by (simp add: runs_block_iff runs_statements_iff runs_iff sample_storage_def hir_block_def hir_statement_def
      hir_expression_def at_index_def completes_def runs_loop_normal)

theorem control_flow_exact_witness:
  "\<exists>N. \<forall>fuel \<ge> N. \<exists>r d'.
     analyze_control_flow fuel sample_module sample_model empty_engine = Some ([r], d') \<and>
     ccf_can_fall_through r \<and> eng_has_errors d'"
proof -
  have s: "hm_storage sample_module = sample_storage" by (simp add: sample_module_def)
  note exact = control_flow_exact [of sample_module sample_rank sample_model empty_engine, unfolded s, OF sample_module_ok]
  have entries: "module_entries sample_module =
      [FunctionEntry (hm_files sample_module ! 0) \<lparr>hc_symbol = 0, hc_initializer = None, hc_body = 2\<rparr>]"
    by (simp add: module_entries_def file_entries_def sample_module_def)
  have falls: "entry_falls sample_storage sample_model (module_entries sample_module ! 0)"
    using sample_falls by (simp add: entries callable_falls_def sample_model_def sample_symbol_def)
  then have "entry_misses_return sample_storage sample_model (module_entries sample_module ! 0)"
    by (simp add: entries sample_model_def sample_symbol_def empty_model_def)
  with exact falls show ?thesis
    by (fastforce simp: entries list_all2_Cons1 describes_def)
qed

end
