(* ===== verification/Data_Layout.thy ===== *)
theory Data_Layout
  imports Prelude
begin

text \<open>
  Target data layouts and address arithmetic (\<^verbatim>\<open>include/cloth/target/data_layout.h\<close>,
  \<^verbatim>\<open>src/target/data_layout.cc\<close>), and the checked arithmetic of \<^verbatim>\<open>src/abi/abi.cc\<close>. All sizes
  are 64-bit words; the lemmas give the checked operations their value as natural numbers.
\<close>

section \<open>The code\<close>

datatype Endianness = enLittle | enBig

record SizeAlignment =
  sa_size :: u64
  sa_alignment :: u64

record TargetDataLayout =
  tl_target_name :: string
  tl_llvm_data_layout :: string
  tl_endianness :: Endianness
  tl_pointer :: SizeAlignment
  tl_int64_alignment :: u64
  tl_float64_alignment :: u64
  tl_object_header_words :: u64

definition llvm_x86_64 :: TargetDataLayout where
  "llvm_x86_64 =
     \<lparr>tl_target_name = ''x86_64-unknown-unknown'',
      tl_llvm_data_layout = ''e-p:64:64-i64:64-f64:64-n8:16:32:64-S128'',
      tl_endianness = enLittle, tl_pointer = \<lparr>sa_size = 8, sa_alignment = 8\<rparr>,
      tl_int64_alignment = 8, tl_float64_alignment = 8, tl_object_header_words = 2\<rparr>"

definition llvm_wasm32 :: TargetDataLayout where
  "llvm_wasm32 =
     \<lparr>tl_target_name = ''wasm32-unknown-unknown'',
      tl_llvm_data_layout = ''e-m:e-p:32:32-i64:64-f64:64-n32:64-S128'',
      tl_endianness = enLittle, tl_pointer = \<lparr>sa_size = 4, sa_alignment = 4\<rparr>,
      tl_int64_alignment = 8, tl_float64_alignment = 8, tl_object_header_words = 2\<rparr>"

definition is_power_of_two_u64 :: "u64 \<Rightarrow> bool" where
  "is_power_of_two_u64 value \<longleftrightarrow> value \<noteq> 0 \<and> value AND (value - 1) = 0"

definition u64_max :: u64 where
  "u64_max = 0xFFFFFFFFFFFFFFFF"

definition is_valid_data_layout :: "TargetDataLayout \<Rightarrow> bool" where
  "is_valid_data_layout l \<longleftrightarrow>
     tl_target_name l \<noteq> [] \<and> tl_llvm_data_layout l \<noteq> [] \<and>
     (tl_endianness l = enLittle \<or> tl_endianness l = enBig) \<and>
     sa_size (tl_pointer l) \<noteq> 0 \<and> is_power_of_two_u64 (sa_alignment (tl_pointer l)) \<and>
     is_power_of_two_u64 (tl_int64_alignment l) \<and> is_power_of_two_u64 (tl_float64_alignment l) \<and>
     tl_object_header_words l = 2 \<and>
     tl_object_header_words l \<le> u64_max div sa_size (tl_pointer l) \<and>
     sa_size (tl_pointer l) \<le> 0xFFFFFFFF div 8"

definition align_to :: "u64 \<Rightarrow> u64 \<Rightarrow> u64" where
  "align_to value alignment =
     (if \<not> is_power_of_two_u64 alignment then value
      else if value > u64_max - (alignment - 1) then u64_max
      else (value + (alignment - 1)) AND NOT (alignment - 1))"

definition checked_add :: "u64 \<Rightarrow> u64 \<Rightarrow> u64 option" where
  "checked_add left right = (if left > u64_max - right then None else Some (left + right))"

definition checked_align :: "u64 \<Rightarrow> u64 \<Rightarrow> u64 option" where
  "checked_align value alignment =
     (if \<not> is_power_of_two_u64 alignment then None
      else case checked_add value (alignment - 1) of
             None \<Rightarrow> None
           | Some padded \<Rightarrow> Some (padded AND NOT (alignment - 1)))"

section \<open>Powers of two\<close>

lemma unat_u64_max [simp]: "unat u64_max = 2 ^ 64 - 1"
  by (simp add: u64_max_def)

lemma is_power_of_two_u64_iff: "is_power_of_two_u64 a \<longleftrightarrow> (\<exists>k < 64. unat a = 2 ^ k)"
proof (cases "a = 0")
  case False
  then have pos: "unat a \<noteq> 0" by (simp add: unat_eq_0)
  have "unat (a - 1) = unat a - 1"
    using False by (metis unat_minus_one)
  then have "a AND (a - 1) = 0 \<longleftrightarrow> unat a AND (unat a - 1) = 0"
    by (simp flip: unat_eq_0 add: unsigned_and_eq)
  also have "\<dots> \<longleftrightarrow> (\<exists>k. unat a = 2 ^ k)" using pos by (rule power_of_two_and)
  also have "\<dots> \<longleftrightarrow> (\<exists>k < 64. unat a = 2 ^ k)"
  proof -
    have "k < 64" if "unat a = 2 ^ k" for k
    proof -
      have "(2::nat) ^ k < 2 ^ 64" using unat_lt_u64 [of a] that by simp
      then show ?thesis by (rule power_less_imp_less_exp [rotated]) simp
    qed
    then show ?thesis by blast
  qed
  finally show ?thesis using False by (simp add: is_power_of_two_u64_def)
qed (simp add: is_power_of_two_u64_def)

lemma is_power_of_two_u64_dvd:
  "is_power_of_two_u64 a \<Longrightarrow> is_power_of_two_u64 b \<Longrightarrow> unat a \<le> unat b \<Longrightarrow> unat a dvd unat b"
  by (auto simp: is_power_of_two_u64_iff le_imp_power_dvd)

lemma and_not_mask_u64:
  fixes a v :: u64
  assumes "unat a = 2 ^ k" "k < 64"
  shows "unat (v AND NOT (a - 1)) = unat v div 2 ^ k * 2 ^ k"
proof -
  have "a = of_nat (unat a)" by simp
  also have "\<dots> = 2 ^ k" by (simp only: assms(1) of_nat_power of_nat_numeral)
  finally have "a = 2 ^ k" .
  then have m: "a - 1 = mask k" by (simp add: mask_eq_exp_minus_1)
  have "v AND NOT (mask k) = push_bit k (drop_bit k v)"
    by (rule bit_eqI) (auto simp: bit_simps)
  moreover have "unat v div 2 ^ k * 2 ^ k < 2 ^ 64"
    by (rule order_le_less_trans [OF div_times_less_eq_dividend]) (use unat_lt_u64 [of v] in simp)
  ultimately show ?thesis by (simp add: m unat_push_bit unat_drop_bit)
qed

section \<open>Checked arithmetic\<close>

lemma checked_add_iff: "checked_add a b = Some c \<longleftrightarrow> unat a + unat b < 2 ^ 64 \<and> c = a + b"
proof -
  have "unat (u64_max - b) = 2 ^ 64 - 1 - unat b"
    using unat_lt_u64 [of b] by (subst unat_sub) (auto simp: word_le_nat_alt)
  then show ?thesis
    using unat_lt_u64 [of b] by (auto simp: checked_add_def word_less_nat_alt)
qed

lemma checked_add_unat: "checked_add a b = Some c \<Longrightarrow> unat c = unat a + unat b"
  by (simp add: checked_add_iff unat_word_ariths)

lemma checked_align_unat:
  assumes "checked_align v a = Some r"
  shows "is_power_of_two_u64 a" "unat a dvd unat r" "unat v \<le> unat r" "unat r < unat v + unat a"
proof -
  from assms show p: "is_power_of_two_u64 a"
    by (simp add: checked_align_def split: if_splits)
  then obtain k where k: "k < 64" "unat a = 2 ^ k" by (auto simp: is_power_of_two_u64_iff)
  from assms p obtain w where w: "checked_add v (a - 1) = Some w" and r: "r = w AND NOT (a - 1)"
    by (auto simp: checked_align_def split: option.splits)
  have "a \<noteq> 0" using k by (auto simp flip: unat_eq_0)
  then have "unat (a - 1) = 2 ^ k - 1" using k by (metis unat_minus_one)
  with w have uw: "unat w = unat v + (2 ^ k - 1)" by (simp add: checked_add_unat)
  have ur: "unat r = unat w div 2 ^ k * 2 ^ k" unfolding r by (rule and_not_mask_u64) (use k in auto)
  have d: "unat w div 2 ^ k * 2 ^ k + unat w mod 2 ^ k = unat w" by (rule div_mult_mod_eq)
  have m: "unat w mod 2 ^ k < 2 ^ k" by simp
  have pos: "(0::nat) < 2 ^ k" by simp
  show "unat a dvd unat r" by (simp add: k ur)
  from uw ur d m pos show "unat v \<le> unat r" by linarith
  from uw ur d m pos show "unat r < unat v + unat a" unfolding k by linarith
qed

text \<open>The result is the least multiple of the alignment that is not below the value.\<close>

lemma checked_align_least:
  assumes "checked_align v a = Some r" "unat a dvd m" "unat v \<le> m"
  shows "unat r \<le> m"
proof (rule ccontr)
  assume "\<not> unat r \<le> m"
  then have "m < unat r" by simp
  moreover from this have "unat a dvd unat r - m" using checked_align_unat(2) [OF assms(1)] assms(2) by simp
  ultimately have "unat a \<le> unat r - m" by (intro dvd_imp_le) auto
  with \<open>m < unat r\<close> show False using checked_align_unat(4) [OF assms(1)] assms(3) by linarith
qed

lemma align_to_checked:
  "is_power_of_two_u64 a \<Longrightarrow> align_to v a = (case checked_align v a of None \<Rightarrow> u64_max | Some r \<Rightarrow> r)"
  by (simp add: align_to_def checked_align_def checked_add_def)

lemma valid_data_layouts [simp]: "is_valid_data_layout llvm_x86_64" "is_valid_data_layout llvm_wasm32"
  by (simp_all add: is_valid_data_layout_def llvm_x86_64_def llvm_wasm32_def is_power_of_two_u64_def u64_max_def
      word_le_nat_alt unat_div)

end
