(* ===== verification/Abi_Layout.thy ===== *)
theory Abi_Layout
  imports Data_Layout Semantic_Model
begin

text \<open>
  The storage layout of types and file classes (\<^verbatim>\<open>include/cloth/abi/abi.h\<close>,
  \<^verbatim>\<open>include/cloth/abi/aggregate_limits.h\<close>, the first part of \<^verbatim>\<open>src/abi/abi.cc\<close>). A lowering
  either throws or leaves defined behaviour (\<open>None\<close>: an id outside its table, the layout of a file that has
  none yet), or fails with a diagnostic (\<open>Inl\<close>, the engine with the report), or succeeds (\<open>Inr\<close>). The
  lemmas show that a layout keeps its fields and its reference slots aligned, disjoint and inside the object.
\<close>

section \<open>Lowerings\<close>

type_synonym 'a lowering = "(DiagnosticEngine + 'a) option"

definition lbind :: "'a lowering \<Rightarrow> ('a \<Rightarrow> 'b lowering) \<Rightarrow> 'b lowering" where
  "lbind m f = (case m of None \<Rightarrow> None | Some (Inl d) \<Rightarrow> Some (Inl d) | Some (Inr x) \<Rightarrow> f x)"

definition required :: "'a option \<Rightarrow> 'a lowering" where
  "required x = map_option Inr x"

definition fail_at :: "SemanticModel \<Rightarrow> SymbolId \<Rightarrow> DiagnosticEngine \<Rightarrow> string \<Rightarrow> 'a lowering" where
  "fail_at M symbol d message =
     (case semantic_symbol M symbol of
        None \<Rightarrow> None
      | Some s \<Rightarrow> Some (Inl (error_range (sym_range s) message d)))"

lemma lbind_Inr [simp]: "lbind m f = Some (Inr y) \<longleftrightarrow> (\<exists>x. m = Some (Inr x) \<and> f x = Some (Inr y))"
  by (auto simp: lbind_def split: option.splits sum.splits)

lemma required_Inr [simp]: "required x = Some (Inr y) \<longleftrightarrow> x = Some y"
  by (auto simp: required_def)

lemma fail_at_Inr [simp]: "fail_at M s d m \<noteq> Some (Inr y)"
  by (simp add: fail_at_def split: option.splits)

lemma lbind_cong [fundef_cong]:
  "m = m' \<Longrightarrow> (\<And>x. m' = Some (Inr x) \<Longrightarrow> f x = g x) \<Longrightarrow> lbind m f = lbind m' g"
  by (auto simp: lbind_def split: option.splits sum.splits)

section \<open>Types\<close>

definition kMaxStructFields :: nat where "kMaxStructFields = 65536"
definition kMaxStructDepth :: nat where "kMaxStructDepth = 128"
definition kMaxStructSize :: u64 where "kMaxStructSize = 1048576"
definition kMaxLayoutReferences :: nat where "kMaxLayoutReferences = 65536"
definition kMaxAggregateMapEntries :: nat where "kMaxAggregateMapEntries = 1048576"

datatype AbiTypeKind = abiInvalid | abiVoid | abiInteger | abiFloat | abiReference | abiAggregate

record AbiTypeLayout =
  atl_type :: TypeId
  atl_kind :: AbiTypeKind
  atl_bit_width :: u32
  atl_storage :: SizeAlignment
  atl_reference_offsets :: "u64 list"

record AbiFieldLayout =
  afl_symbol :: SymbolId
  afl_type :: TypeId
  afl_offset :: u64

record AbiClassLayout =
  acl_header_size :: u64
  acl_size :: u64
  acl_alignment :: u64
  acl_fields :: "AbiFieldLayout list"

abbreviation atl_size :: "AbiTypeLayout \<Rightarrow> u64" where
  "atl_size l \<equiv> sa_size (atl_storage l)"

abbreviation atl_alignment :: "AbiTypeLayout \<Rightarrow> u64" where
  "atl_alignment l \<equiv> sa_alignment (atl_storage l)"

definition pointer_bit_width :: "TargetDataLayout \<Rightarrow> u32" where
  "pointer_bit_width T = ucast (sa_size (tl_pointer T) * 8)"

definition make_type_layout :: "TypeId \<Rightarrow> AbiTypeKind \<Rightarrow> u32 \<Rightarrow> u64 \<Rightarrow> u64 \<Rightarrow> AbiTypeLayout" where
  "make_type_layout type kind bit_width sz alignment =
     \<lparr>atl_type = type, atl_kind = kind, atl_bit_width = bit_width,
      atl_storage = \<lparr>sa_size = sz, sa_alignment = alignment\<rparr>,
      atl_reference_offsets = (if kind = abiReference then [0] else [])\<rparr>"

definition is_reference_type :: "TypeId \<Rightarrow> SemanticModel \<Rightarrow> bool option" where
  "is_reference_type type M =
     map_option (\<lambda>t. sty_kind t = tyString \<or> sty_kind t = tyObject \<or> sty_kind t = tyErrorClass \<or>
                     sty_kind t = tyFileClass \<or> sty_kind t = tyInterface \<or> sty_kind t = tyArray)
       (semantic_type M type)"

definition is_nullable_value :: "TypeId \<Rightarrow> SemanticModel \<Rightarrow> bool option" where
  "is_nullable_value type M =
     (case semantic_type M type of
        None \<Rightarrow> None
      | Some nullable \<Rightarrow>
          (case sty_element_type nullable of
             Some element \<Rightarrow>
               if sty_kind nullable = tyNullable then map_option Not (is_reference_type element M) else Some False
           | None \<Rightarrow> Some False))"

definition inline_struct_type :: "TypeId \<Rightarrow> SemanticModel \<Rightarrow> TypeId option option" where
  "inline_struct_type type M =
     (case semantic_type M type of
        None \<Rightarrow> None
      | Some t \<Rightarrow>
          if sty_kind t = tyStruct then Some (Some type)
          else if sty_kind t \<noteq> tyNullable then Some None
          else (case sty_element_type t of
                  None \<Rightarrow> Some None
                | Some element \<Rightarrow>
                    (case semantic_type M element of
                       None \<Rightarrow> None
                     | Some e \<Rightarrow> Some (if sty_kind e \<noteq> tyStruct then None else Some element))))"

primrec shift_offsets :: "u64 \<Rightarrow> u64 list \<Rightarrow> u64 list option" where
  "shift_offsets payload [] = Some []"
| "shift_offsets payload (offset # offsets) =
     (case checked_add payload offset of
        None \<Rightarrow> None
      | Some shifted \<Rightarrow> map_option ((#) shifted) (shift_offsets payload offsets))"

definition lower_nullable_value_layout :: "TypeId \<Rightarrow> AbiTypeLayout \<Rightarrow> AbiTypeLayout option" where
  "lower_nullable_value_layout type element =
     (if atl_kind element = abiInvalid \<or> atl_kind element = abiVoid \<or> atl_size element = 0 \<or>
         \<not> is_power_of_two_u64 (atl_alignment element)
      then None
      else
        Option.bind (checked_align 1 (atl_alignment element)) (\<lambda>payload.
        Option.bind (checked_add payload (atl_size element)) (\<lambda>end_offset.
        Option.bind (checked_align end_offset (atl_alignment element)) (\<lambda>sz.
        Option.bind (shift_offsets payload (atl_reference_offsets element)) (\<lambda>references.
          Some \<lparr>atl_type = type, atl_kind = abiAggregate, atl_bit_width = 0,
                atl_storage = \<lparr>sa_size = sz, sa_alignment = atl_alignment element\<rparr>,
                atl_reference_offsets = references\<rparr>)))))"

definition reference_layout :: "TypeId \<Rightarrow> TargetDataLayout \<Rightarrow> AbiTypeLayout" where
  "reference_layout type T =
     make_type_layout type abiReference (pointer_bit_width T) (sa_size (tl_pointer T)) (sa_alignment (tl_pointer T))"

definition lower_type ::
  "TypeId \<Rightarrow> SemanticType \<Rightarrow> SemanticModel \<Rightarrow> AbiTypeLayout list \<Rightarrow> TargetDataLayout \<Rightarrow> AbiTypeLayout option" where
  "lower_type type description M types T =
     (case sty_kind description of
        tyError \<Rightarrow> Some (make_type_layout type abiInvalid 0 0 1)
      | tyBottom \<Rightarrow> Some (make_type_layout type abiInvalid 0 0 1)
      | tyStruct \<Rightarrow> Some (make_type_layout type abiAggregate 0 0 1)
      | tyVoid \<Rightarrow> Some (make_type_layout type abiVoid 0 0 1)
      | tyNull \<Rightarrow> Some (reference_layout type T)
      | tyString \<Rightarrow> Some (reference_layout type T)
      | tyObject \<Rightarrow> Some (reference_layout type T)
      | tyErrorClass \<Rightarrow> Some (reference_layout type T)
      | tyFileClass \<Rightarrow> Some (reference_layout type T)
      | tyInterface \<Rightarrow> Some (reference_layout type T)
      | tyArray \<Rightarrow> Some (reference_layout type T)
      | tyNullable \<Rightarrow>
          (case sty_element_type description of
             None \<Rightarrow> Some (make_type_layout type abiInvalid 0 0 1)
           | Some element \<Rightarrow>
               (case is_reference_type element M of
                  None \<Rightarrow> None
                | Some True \<Rightarrow> Some (reference_layout type T)
                | Some False \<Rightarrow>
                    (case (if element < length types then lower_nullable_value_layout type (types ! element) else None) of
                       Some l \<Rightarrow> Some l
                     | None \<Rightarrow> Some (make_type_layout type abiAggregate 0 0 1))))
      | tyBool \<Rightarrow> Some (make_type_layout type abiInteger 1 1 1)
      | tyChar \<Rightarrow> Some (make_type_layout type abiInteger 32 4 4)
      | tyByte \<Rightarrow> Some (make_type_layout type abiInteger 8 1 1)
      | tyInt8 \<Rightarrow> Some (make_type_layout type abiInteger 8 1 1)
      | tyUint8 \<Rightarrow> Some (make_type_layout type abiInteger 8 1 1)
      | tyInt16 \<Rightarrow> Some (make_type_layout type abiInteger 16 2 2)
      | tyUint16 \<Rightarrow> Some (make_type_layout type abiInteger 16 2 2)
      | tyInt32 \<Rightarrow> Some (make_type_layout type abiInteger 32 4 4)
      | tyUint32 \<Rightarrow> Some (make_type_layout type abiInteger 32 4 4)
      | tyEnum \<Rightarrow> Some (make_type_layout type abiInteger 32 4 4)
      | tyInt64 \<Rightarrow> Some (make_type_layout type abiInteger 64 8 (tl_int64_alignment T))
      | tyUint64 \<Rightarrow> Some (make_type_layout type abiInteger 64 8 (tl_int64_alignment T))
      | tyFloat32 \<Rightarrow> Some (make_type_layout type abiFloat 32 4 4)
      | tyFloat64 \<Rightarrow> Some (make_type_layout type abiFloat 64 8 (tl_float64_alignment T)))"

section \<open>File classes\<close>

text \<open>The parts of the middle representation (\<^verbatim>\<open>include/cloth/mir/mir.h\<close>) that the lowering reads.\<close>

record MirField =
  mf_symbol :: SymbolId

record MirCallable =
  mc_symbol :: SymbolId
  mc_parameters :: "SymbolId list"

record MirFileClass =
  mfc_file :: FileId
  mfc_symbol :: SymbolId
  mfc_base_file :: "FileId option"
  mfc_fields :: "MirField list"
  mfc_functions :: "MirCallable list"
  mfc_constructors :: "MirCallable list"
  mfc_member_order :: "MemberReference list"

record FileLayout =
  fl_storage :: AbiClassLayout
  fl_references :: "u64 list"
  fl_depth :: nat

definition core_error_message_symbol :: "SemanticModel \<Rightarrow> SymbolId option" where
  "core_error_message_symbol M =
     first_index (\<lambda>s. sym_kind s = syField \<and> sym_file s = None \<and> sym_name s = ''Message'') (sm_symbols M)"

text \<open>The variables of the loop over the fields.\<close>

record LayoutCursor =
  lc_offset :: u64
  lc_alignment :: u64
  lc_depth :: nat
  lc_instance_count :: nat
  lc_fields :: "AbiFieldLayout list"
  lc_references :: "u64 list"

definition object_header :: "TargetDataLayout \<Rightarrow> bool \<Rightarrow> u64" where
  "object_header T aggregate = (if aggregate then 0 else sa_size (tl_pointer T) * tl_object_header_words T)"

definition computed_layout :: "FileLayout option list \<Rightarrow> nat \<Rightarrow> FileLayout option" where
  "computed_layout layouts i = (case at_index layouts i of None \<Rightarrow> None | Some l \<Rightarrow> l)"

definition start_layout ::
  "MirFileClass \<Rightarrow> FileTypeKind \<Rightarrow> SemanticModel \<Rightarrow> AbiTypeLayout list \<Rightarrow> TargetDataLayout \<Rightarrow>
   FileLayout option list \<Rightarrow> DiagnosticEngine \<Rightarrow> LayoutCursor lowering" where
  "start_layout f kind M types T layouts d =
     (let aggregate = (kind = ftStruct);
          c = \<lparr>lc_offset = object_header T aggregate,
               lc_alignment = (if aggregate then 1 else sa_alignment (tl_pointer T)),
               lc_depth = (if aggregate then 1 else 0), lc_instance_count = 0, lc_fields = [], lc_references = []\<rparr>
      in case mfc_base_file f of
           Some base \<Rightarrow>
             lbind (required (computed_layout layouts base)) (\<lambda>l.
               Some (Inr (c\<lparr>lc_offset := acl_size (fl_storage l),
                            lc_alignment := max (lc_alignment c) (acl_alignment (fl_storage l)),
                            lc_fields := acl_fields (fl_storage l), lc_references := fl_references l\<rparr>)))
         | None \<Rightarrow>
             if kind \<noteq> ftError then Some (Inr c)
             else (case core_error_message_symbol M of
                     None \<Rightarrow> fail_at M (mfc_symbol f) d ''compiler Error.Message field is unavailable''
                   | Some message \<Rightarrow>
                       lbind (required (at_index types (sm_string_type M))) (\<lambda>type.
                         case Option.bind (checked_align (lc_offset c) (atl_alignment type)) (\<lambda>aligned.
                                map_option (Pair aligned) (checked_add aligned (atl_size type))) of
                           None \<Rightarrow> fail_at M (mfc_symbol f) d ''compiler Error.Message layout overflows the target''
                         | Some (aligned, end_offset) \<Rightarrow>
                             Some (Inr (c\<lparr>lc_offset := end_offset,
                                          lc_alignment := max (lc_alignment c) (atl_alignment type),
                                          lc_fields := [\<lparr>afl_symbol = message, afl_type = sm_string_type M,
                                                         afl_offset = aligned\<rparr>],
                                          lc_references := [aligned]\<rparr>)))))"

primrec place_reference_slots ::
  "TargetDataLayout \<Rightarrow> u64 \<Rightarrow> u64 \<Rightarrow> u64 list \<Rightarrow> u64 list option" where
  "place_reference_slots T aligned sz [] = Some []"
| "place_reference_slots T aligned sz (reference # references) =
     (case checked_add aligned reference of
        None \<Rightarrow> None
      | Some shifted \<Rightarrow>
          if reference > sz \<or> sa_size (tl_pointer T) > sz - reference \<or> shifted mod sa_alignment (tl_pointer T) \<noteq> 0
          then None
          else map_option ((#) shifted) (place_reference_slots T aligned sz references))"

text \<open>
  The depth of a struct that contains another. \<^verbatim>\<open>kMaxLayoutReferences - references.size()\<close> below does not
  wrap: no list of references is longer than the limit.
\<close>

definition nest_struct ::
  "MirFileClass \<Rightarrow> SemanticModel \<Rightarrow> FileLayout option list \<Rightarrow> DiagnosticEngine \<Rightarrow> bool \<Rightarrow> TypeId option \<Rightarrow>
   LayoutCursor \<Rightarrow> LayoutCursor lowering" where
  "nest_struct f M layouts d aggregate nested_struct c =
     (case nested_struct of
        None \<Rightarrow> Some (Inr c)
      | Some nested \<Rightarrow>
          if \<not> aggregate then Some (Inr c)
          else lbind (required (semantic_type M nested)) (\<lambda>t.
            case sty_file t of
              None \<Rightarrow> fail_at M (mfc_symbol f) d ''inline struct field has no nominal owner''
            | Some owner \<Rightarrow>
                lbind (required (computed_layout layouts owner)) (\<lambda>l.
                  let depth = max (lc_depth c) (fl_depth l + 1) in
                  if depth > kMaxStructDepth
                  then fail_at M (mfc_symbol f) d ''struct exceeds the inline nesting limit of 128''
                  else Some (Inr (c\<lparr>lc_depth := depth\<rparr>)))))"

definition place_field ::
  "MirFileClass \<Rightarrow> SemanticModel \<Rightarrow> AbiTypeLayout list \<Rightarrow> TargetDataLayout \<Rightarrow> FileLayout option list \<Rightarrow>
   DiagnosticEngine \<Rightarrow> bool \<Rightarrow> MirField \<Rightarrow> LayoutCursor \<Rightarrow> LayoutCursor lowering" where
  "place_field f M types T layouts d aggregate field c =
     lbind (required (semantic_symbol M (mf_symbol field))) (\<lambda>symbol.
       if sym_is_static symbol then Some (Inr c)
       else let c1 = (if aggregate then c\<lparr>lc_instance_count := lc_instance_count c + 1\<rparr> else c) in
       if aggregate \<and> lc_instance_count c1 > kMaxStructFields
       then fail_at M (mfc_symbol f) d ''struct exceeds the instance-field limit of 65536''
       else lbind (required (at_index types (sym_type symbol))) (\<lambda>type.
       if atl_kind type = abiInvalid \<or> atl_kind type = abiVoid \<or> atl_size type = 0 \<or>
          \<not> is_power_of_two_u64 (atl_alignment type)
       then fail_at M (mfc_symbol f) d ''field has no valid ABI storage layout''
       else case checked_align (lc_offset c1) (atl_alignment type) of
         None \<Rightarrow> fail_at M (mfc_symbol f) d ''field alignment overflows the target layout''
       | Some aligned \<Rightarrow>
       (case checked_add aligned (atl_size type) of
         None \<Rightarrow> fail_at M (mfc_symbol f) d ''field size overflows the target layout''
       | Some end_offset \<Rightarrow>
       if length (atl_reference_offsets type) > kMaxLayoutReferences - length (lc_references c1)
       then fail_at M (mfc_symbol f) d ''layout exceeds the reference-slot limit of 65536''
       else case place_reference_slots T aligned (atl_size type) (atl_reference_offsets type) of
         None \<Rightarrow> fail_at M (mfc_symbol f) d ''field has an invalid reference-slot layout''
       | Some slots \<Rightarrow>
       lbind (required (inline_struct_type (sym_type symbol) M)) (\<lambda>nested_struct.
         nest_struct f M layouts d aggregate nested_struct
           (c1\<lparr>lc_offset := end_offset,
               lc_alignment := max (lc_alignment c1) (atl_alignment type),
               lc_fields := lc_fields c1 @
                 [\<lparr>afl_symbol = mf_symbol field, afl_type = sym_type symbol, afl_offset = aligned\<rparr>],
               lc_references := lc_references c1 @ slots\<rparr>)))))"

primrec place_fields ::
  "MirFileClass \<Rightarrow> SemanticModel \<Rightarrow> AbiTypeLayout list \<Rightarrow> TargetDataLayout \<Rightarrow> FileLayout option list \<Rightarrow>
   DiagnosticEngine \<Rightarrow> bool \<Rightarrow> MirField list \<Rightarrow> LayoutCursor \<Rightarrow> LayoutCursor lowering" where
  "place_fields f M types T layouts d aggregate [] c = Some (Inr c)"
| "place_fields f M types T layouts d aggregate (field # rest) c =
     lbind (place_field f M types T layouts d aggregate field c)
       (place_fields f M types T layouts d aggregate rest)"

definition finish_layout ::
  "MirFileClass \<Rightarrow> SemanticModel \<Rightarrow> TargetDataLayout \<Rightarrow> DiagnosticEngine \<Rightarrow> bool \<Rightarrow> LayoutCursor \<Rightarrow>
   FileLayout lowering" where
  "finish_layout f M T d aggregate c =
     (case checked_align (if aggregate then max (lc_offset c) 1 else lc_offset c) (lc_alignment c) of
        None \<Rightarrow> fail_at M (mfc_symbol f) d ''padded size overflows the target layout''
      | Some sz \<Rightarrow>
          if aggregate \<and> sz > kMaxStructSize
          then fail_at M (mfc_symbol f) d ''struct exceeds the padded-size limit of 1048576 bytes''
          else Some (Inr
            \<lparr>fl_storage = \<lparr>acl_header_size = object_header T aggregate, acl_size = sz,
                           acl_alignment = lc_alignment c, acl_fields = lc_fields c\<rparr>,
             fl_references = lc_references c, fl_depth = lc_depth c\<rparr>))"

definition lower_file_layout ::
  "MirFileClass \<Rightarrow> SemanticModel \<Rightarrow> AbiTypeLayout list \<Rightarrow> TargetDataLayout \<Rightarrow> FileLayout option list \<Rightarrow>
   DiagnosticEngine \<Rightarrow> FileLayout lowering" where
  "lower_file_layout f M types T layouts d =
     lbind (required (semantic_file M (mfc_file f))) (\<lambda>semantic.
       if fs_kind semantic = ftEnum
       then Some (Inr \<lparr>fl_storage = \<lparr>acl_header_size = 0, acl_size = 0, acl_alignment = 1, acl_fields = []\<rparr>,
                       fl_references = [], fl_depth = 0\<rparr>)
       else
         lbind (start_layout f (fs_kind semantic) M types T layouts d) (\<lambda>c.
         lbind (place_fields f M types T layouts d (fs_kind semantic = ftStruct) (mfc_fields f) c)
           (finish_layout f M T d (fs_kind semantic = ftStruct))))"

section \<open>Reference slots\<close>

abbreviation pointer_size :: "TargetDataLayout \<Rightarrow> nat" where
  "pointer_size T \<equiv> unat (sa_size (tl_pointer T))"

abbreviation pointer_alignment :: "TargetDataLayout \<Rightarrow> nat" where
  "pointer_alignment T \<equiv> unat (sa_alignment (tl_pointer T))"

definition target_ok :: "TargetDataLayout \<Rightarrow> bool" where
  "target_ok T \<longleftrightarrow> is_valid_data_layout T \<and> pointer_alignment T dvd pointer_size T"

text \<open>
  The slots of an object of \<open>bound\<close> bytes whose first \<open>hdr\<close> are its header: increasing, a pointer apart,
  aligned, and inside.
\<close>

definition slots_ok :: "TargetDataLayout \<Rightarrow> nat \<Rightarrow> nat \<Rightarrow> u64 list \<Rightarrow> bool" where
  "slots_ok T hdr bound slots \<longleftrightarrow>
     sorted_wrt (\<lambda>r s. unat r + pointer_size T \<le> unat s) slots \<and>
     (\<forall>r \<in> set slots. hdr \<le> unat r \<and> unat r + pointer_size T \<le> bound \<and> pointer_alignment T dvd unat r)"

lemma slots_ok_Nil [simp]: "slots_ok T hdr bound []"
  by (simp add: slots_ok_def)

lemma slots_ok_bound: "slots_ok T hdr bound slots \<Longrightarrow> bound \<le> bound' \<Longrightarrow> slots_ok T hdr bound' slots"
  unfolding slots_ok_def by fastforce

lemma slots_ok_append:
  "slots_ok T hdr middle xs \<Longrightarrow> slots_ok T start bound ys \<Longrightarrow> hdr \<le> start \<Longrightarrow> middle \<le> start \<Longrightarrow> middle \<le> bound \<Longrightarrow>
   slots_ok T hdr bound (xs @ ys)"
  unfolding slots_ok_def sorted_wrt_append by (fastforce intro: order_trans)

lemma shift_offsets_map:
  "shift_offsets payload xs = Some ys \<Longrightarrow>
   map unat ys = map (\<lambda>x. unat payload + unat x) xs \<and> length ys = length xs"
  by (induction xs arbitrary: ys) (auto simp: checked_add_unat split: option.splits)

lemma place_reference_slots_shift:
  "place_reference_slots T aligned sz xs = Some ys \<Longrightarrow>
   shift_offsets aligned xs = Some ys \<and>
   (\<forall>x \<in> set xs. unat x + pointer_size T \<le> unat sz \<and> pointer_alignment T dvd unat aligned + unat x)"
proof (induction xs arbitrary: ys)
  case (Cons x xs)
  from Cons.prems obtain s where s1: "checked_add aligned x = Some s"
    by (cases "checked_add aligned x") auto
  have s6: "s mod sa_alignment (tl_pointer T) = 0" and s4: "\<not> x > sz" and s5: "\<not> sa_size (tl_pointer T) > sz - x"
    using Cons.prems s1 by (auto split: if_splits)
  then obtain zs where s2: "ys = s # zs" and s3: "place_reference_slots T aligned sz xs = Some zs"
    using Cons.prems s1 by auto
  have "x \<le> sz" using s4 by simp
  then have "unat (sz - x) = unat sz - unat x" by (simp add: unat_sub)
  then have "unat x + pointer_size T \<le> unat sz"
    using s4 s5 by (simp add: word_less_nat_alt word_le_nat_alt)
  moreover have "pointer_alignment T dvd unat aligned + unat x"
    using s6 checked_add_unat [OF s1] by (simp flip: unat_eq_0 add: unat_mod dvd_eq_mod_eq_0)
  ultimately show ?case using s1 s2 Cons.IH [OF s3] by simp
qed simp

lemma slots_ok_shift:
  assumes "shift_offsets payload xs = Some ys"
    and "sorted_wrt (\<lambda>r s. unat r + pointer_size T \<le> unat s) xs"
    and "\<forall>x \<in> set xs. unat x + pointer_size T \<le> sz \<and> pointer_alignment T dvd unat payload + unat x"
    and "unat payload + sz \<le> bound" "hdr \<le> unat payload"
  shows "slots_ok T hdr bound ys"
proof -
  have m: "map unat ys = map (\<lambda>x. unat payload + unat x) xs"
    using shift_offsets_map [OF assms(1)] by simp
  have "sorted_wrt (\<lambda>r s. r + pointer_size T \<le> s) (map unat ys)"
    unfolding m using assms(2) by (simp add: sorted_wrt_map ab_semigroup_add_class.add_ac(1))
  moreover have "\<forall>r \<in> set (map unat ys). hdr \<le> r \<and> r + pointer_size T \<le> bound \<and> pointer_alignment T dvd r"
    unfolding m using assms(3-5) by fastforce
  ultimately show ?thesis by (simp add: slots_ok_def sorted_wrt_map)
qed

section \<open>Types\<close>

text \<open>A type's slots are inside it, and a type with slots is aligned for them.\<close>

definition type_ok :: "TargetDataLayout \<Rightarrow> AbiTypeLayout \<Rightarrow> bool" where
  "type_ok T l \<longleftrightarrow>
     slots_ok T 0 (unat (atl_size l)) (atl_reference_offsets l) \<and>
     (atl_reference_offsets l \<noteq> [] \<longrightarrow> pointer_alignment T dvd unat (atl_alignment l))"

lemma type_ok_make [simp]: "kind \<noteq> abiReference \<Longrightarrow> type_ok T (make_type_layout type kind w sz a)"
  by (simp add: type_ok_def make_type_layout_def)

lemma type_ok_reference [simp]: "type_ok T (reference_layout type T)"
  by (simp add: type_ok_def make_type_layout_def reference_layout_def slots_ok_def)

lemma type_ok_nullable:
  assumes "lower_nullable_value_layout type l = Some l'" "type_ok T l"
  shows "type_ok T l'"
proof -
  let ?a = "atl_alignment l"
  from assms(1) obtain payload e sz references where
    p: "checked_align 1 ?a = Some payload" and e: "checked_add payload (atl_size l) = Some e"
    and s: "checked_align e ?a = Some sz" and r: "shift_offsets payload (atl_reference_offsets l) = Some references"
    and l': "atl_size l' = sz" "atl_alignment l' = ?a" "atl_reference_offsets l' = references"
    by (auto simp: lower_nullable_value_layout_def bind_eq_Some_conv split: if_splits)
  have bound: "unat payload + unat (atl_size l) \<le> unat sz"
    using checked_add_unat [OF e] checked_align_unat(3) [OF s] by simp
  have empty: "references = [] \<longleftrightarrow> atl_reference_offsets l = []"
    using shift_offsets_map [OF r] by auto
  have "slots_ok T 0 (unat sz) references"
  proof (rule slots_ok_shift [OF r _ _ bound])
    show "\<forall>x \<in> set (atl_reference_offsets l).
        unat x + pointer_size T \<le> unat (atl_size l) \<and> pointer_alignment T dvd unat payload + unat x"
    proof
      fix x assume x: "x \<in> set (atl_reference_offsets l)"
      then have "pointer_alignment T dvd unat ?a" using assms(2) by (auto simp: type_ok_def)
      then have "pointer_alignment T dvd unat payload"
        using checked_align_unat(2) [OF p] by (rule dvd_trans)
      then show "unat x + pointer_size T \<le> unat (atl_size l) \<and> pointer_alignment T dvd unat payload + unat x"
        using assms(2) x by (simp add: type_ok_def slots_ok_def)
    qed
  qed (use assms(2) in \<open>simp_all add: type_ok_def slots_ok_def\<close>)
  then show ?thesis using assms(2) empty by (simp add: type_ok_def l')
qed

lemma type_ok_lower:
  "lower_type type t M types T = Some l \<Longrightarrow> list_all (type_ok T) types \<Longrightarrow> type_ok T l"
  by (auto simp: lower_type_def list_all_length intro: type_ok_nullable
      split: TypeKind.splits option.splits bool.splits if_splits)

section \<open>Storage\<close>

abbreviation afl_size :: "AbiTypeLayout list \<Rightarrow> AbiFieldLayout \<Rightarrow> nat" where
  "afl_size types f \<equiv> unat (atl_size (types ! afl_type f))"

abbreviation afl_alignment :: "AbiTypeLayout list \<Rightarrow> AbiFieldLayout \<Rightarrow> nat" where
  "afl_alignment types f \<equiv> unat (atl_alignment (types ! afl_type f))"

text \<open>Fields in increasing order, each aligned, not empty, after the previous one's end, and inside.\<close>

definition fields_ok :: "AbiTypeLayout list \<Rightarrow> nat \<Rightarrow> nat \<Rightarrow> AbiFieldLayout list \<Rightarrow> bool" where
  "fields_ok types hdr bound fs \<longleftrightarrow>
     sorted_wrt (\<lambda>f g. unat (afl_offset f) + afl_size types f \<le> unat (afl_offset g)) fs \<and>
     (\<forall>f \<in> set fs. afl_type f < length types \<and> 0 < afl_size types f \<and> hdr \<le> unat (afl_offset f) \<and>
        unat (afl_offset f) + afl_size types f \<le> bound \<and> afl_alignment types f dvd unat (afl_offset f))"

definition storage_ok ::
  "TargetDataLayout \<Rightarrow> AbiTypeLayout list \<Rightarrow> nat \<Rightarrow> nat \<Rightarrow> u64 \<Rightarrow> AbiFieldLayout list \<Rightarrow> u64 list \<Rightarrow> bool" where
  "storage_ok T types hdr bound alignment fs slots \<longleftrightarrow>
     fields_ok types hdr bound fs \<and> slots_ok T hdr bound slots \<and> length slots \<le> kMaxLayoutReferences \<and>
     is_power_of_two_u64 alignment \<and> (slots \<noteq> [] \<longrightarrow> pointer_alignment T dvd unat alignment) \<and>
     (\<forall>f \<in> set fs. afl_alignment types f dvd unat alignment)"

definition cursor_ok :: "TargetDataLayout \<Rightarrow> AbiTypeLayout list \<Rightarrow> bool \<Rightarrow> LayoutCursor \<Rightarrow> bool" where
  "cursor_ok T types aggregate c \<longleftrightarrow>
     unat (object_header T aggregate) \<le> unat (lc_offset c) \<and>
     storage_ok T types (unat (object_header T aggregate)) (unat (lc_offset c)) (lc_alignment c) (lc_fields c)
       (lc_references c) \<and>
     (\<not> aggregate \<longrightarrow> pointer_alignment T dvd unat (lc_alignment c))"

definition layout_ok :: "TargetDataLayout \<Rightarrow> AbiTypeLayout list \<Rightarrow> bool \<Rightarrow> FileLayout \<Rightarrow> bool" where
  "layout_ok T types aggregate l \<longleftrightarrow>
     acl_header_size (fl_storage l) = object_header T aggregate \<and>
     acl_header_size (fl_storage l) \<le> acl_size (fl_storage l) \<and>
     storage_ok T types (unat (object_header T aggregate)) (unat (acl_size (fl_storage l)))
       (acl_alignment (fl_storage l)) (acl_fields (fl_storage l)) (fl_references l) \<and>
     unat (acl_alignment (fl_storage l)) dvd unat (acl_size (fl_storage l)) \<and>
     (\<not> aggregate \<longrightarrow> pointer_alignment T dvd unat (acl_alignment (fl_storage l)))"

lemma fields_ok_Nil [simp]: "fields_ok types hdr bound []"
  by (simp add: fields_ok_def)

lemma fields_ok_bound: "fields_ok types hdr bound fs \<Longrightarrow> bound \<le> bound' \<Longrightarrow> fields_ok types hdr bound' fs"
  unfolding fields_ok_def by fastforce

lemma fields_ok_snoc:
  assumes "fields_ok types hdr middle fs" "afl_type f < length types" "0 < afl_size types f"
    and "middle \<le> unat (afl_offset f)" "hdr \<le> unat (afl_offset f)"
    and "unat (afl_offset f) + afl_size types f \<le> bound" "afl_alignment types f dvd unat (afl_offset f)"
  shows "fields_ok types hdr bound (fs @ [f])"
proof -
  have "middle \<le> bound" using assms(4,6) by linarith
  then show ?thesis
    using assms unfolding fields_ok_def sorted_wrt_append by (fastforce intro: order_trans)
qed

lemma max_alignment:
  assumes "is_power_of_two_u64 a" "is_power_of_two_u64 b"
  shows "is_power_of_two_u64 (max a b)" "unat a dvd unat (max a b)" "unat b dvd unat (max a b)"
  using assms by (auto simp: max_def word_le_nat_alt intro: is_power_of_two_u64_dvd)

lemma storage_ok_pad:
  "storage_ok T types hdr bound a fs slots \<Longrightarrow> bound \<le> bound' \<Longrightarrow> storage_ok T types hdr bound' a fs slots"
  by (auto simp: storage_ok_def intro: fields_ok_bound slots_ok_bound)

lemma storage_ok_align:
  assumes "storage_ok T types hdr bound a fs slots" "is_power_of_two_u64 b"
  shows "storage_ok T types hdr bound (max b a) fs slots"
  using assms max_alignment [OF assms(2), of a] unfolding storage_ok_def by (blast intro: dvd_trans)

lemma nest_struct_keeps:
  "nest_struct f M layouts d aggregate nested c = Some (Inr c') \<Longrightarrow> \<exists>n. c' = c\<lparr>lc_depth := n\<rparr>"
  by (auto simp: nest_struct_def Let_def split: option.splits if_splits intro: exI [of _ "lc_depth c"])

text \<open>What a field adds.\<close>

lemma place_fieldE:
  assumes "place_field f M types T layouts d aggregate field c = Some (Inr c')"
  obtains (static) symbol where "semantic_symbol M (mf_symbol field) = Some symbol" "sym_is_static symbol" "c' = c"
  | (placed) symbol type aligned e slots where "semantic_symbol M (mf_symbol field) = Some symbol" "\<not> sym_is_static symbol"
    "sym_type symbol < length types" "type = types ! sym_type symbol" "atl_size type \<noteq> 0"
    "is_power_of_two_u64 (atl_alignment type)" "checked_align (lc_offset c) (atl_alignment type) = Some aligned"
    "checked_add aligned (atl_size type) = Some e"
    "length (atl_reference_offsets type) \<le> kMaxLayoutReferences - length (lc_references c)"
    "place_reference_slots T aligned (atl_size type) (atl_reference_offsets type) = Some slots"
    "lc_offset c' = e" "lc_alignment c' = max (lc_alignment c) (atl_alignment type)"
    "lc_fields c' = lc_fields c @ [\<lparr>afl_symbol = mf_symbol field, afl_type = sym_type symbol, afl_offset = aligned\<rparr>]"
    "lc_references c' = lc_references c @ slots"
proof -
  from assms obtain symbol where s: "semantic_symbol M (mf_symbol field) = Some symbol"
    by (auto simp: place_field_def)
  show thesis
  proof (cases "sym_is_static symbol")
    case True
    then show thesis using assms s by (intro static) (auto simp: place_field_def)
  next
    case False
    with assms s show thesis
      by (auto simp: place_field_def Let_def at_index_eq_Some intro!: placed
          split: option.splits if_splits dest!: nest_struct_keeps)
  qed
qed

lemma place_field_ok:
  assumes "place_field f M types T layouts d aggregate field c = Some (Inr c')"
    and "list_all (type_ok T) types" "cursor_ok T types aggregate c"
  shows "cursor_ok T types aggregate c'"
  using assms(1)
proof (cases rule: place_fieldE)
  case static
  then show ?thesis using assms(3) by simp
next
  case (placed symbol type aligned e slots)
  let ?h = "unat (object_header T aggregate)"
  note al = checked_align_unat [OF placed(7)]
  note e = checked_add_unat [OF placed(8)]
  have ok: "type_ok T type" using assms(2) placed(3,4) by (simp add: list_all_length)
  have c: "?h \<le> unat (lc_offset c)"
    "storage_ok T types ?h (unat (lc_offset c)) (lc_alignment c) (lc_fields c) (lc_references c)"
    using assms(3) by (simp_all add: cursor_ok_def)
  have pow: "is_power_of_two_u64 (lc_alignment c)" using c(2) by (simp add: storage_ok_def)
  note max = max_alignment [OF pow placed(6)]
  note shift = place_reference_slots_shift [OF placed(10)]
  have slots: "slots_ok T (unat aligned) (unat e) slots"
    by (rule slots_ok_shift) (use shift ok e in \<open>auto simp: type_ok_def slots_ok_def\<close>)
  have len: "length slots = length (atl_reference_offsets type)"
    using shift_offsets_map shift by blast
  have "fields_ok types ?h (unat e)
      (lc_fields c @ [\<lparr>afl_symbol = mf_symbol field, afl_type = sym_type symbol, afl_offset = aligned\<rparr>])"
    by (rule fields_ok_snoc [of _ _ "unat (lc_offset c)"])
      (use c al e placed in \<open>auto simp: storage_ok_def unat_gt_0\<close>)
  moreover have "slots_ok T ?h (unat e) (lc_references c @ slots)"
    by (rule slots_ok_append [OF _ slots, of _ "unat (lc_offset c)"]) (use c al e in \<open>auto simp: storage_ok_def\<close>)
  moreover have "pointer_alignment T dvd unat (max (lc_alignment c) (atl_alignment type))"
    if "lc_references c @ slots \<noteq> []"
  proof (cases "lc_references c = []")
    case True
    then have "atl_reference_offsets type \<noteq> []" using that len by auto
    then show ?thesis using ok max(3) by (auto simp: type_ok_def intro: dvd_trans)
  next
    case False
    then show ?thesis using c(2) max(2) by (auto simp: storage_ok_def intro: dvd_trans)
  qed
  ultimately have "storage_ok T types ?h (unat e) (max (lc_alignment c) (atl_alignment type)) (lc_fields c')
      (lc_references c')"
    using c(2) placed(4,9,13,14) len max unfolding storage_ok_def by (auto intro: dvd_trans)
  then show ?thesis
    using assms(3) al(3) e c(1) placed(11,12) max(2) by (auto simp: cursor_ok_def intro: dvd_trans)
qed

definition instance_symbols :: "SemanticModel \<Rightarrow> MirField list \<Rightarrow> SymbolId list" where
  "instance_symbols M fs =
     map mf_symbol (filter (\<lambda>field. \<not> sym_is_static (sm_symbols M ! mf_symbol field)) fs)"

lemma place_fields_ok:
  assumes "place_fields f M types T layouts d aggregate fs c = Some (Inr c')"
    and "list_all (type_ok T) types" "cursor_ok T types aggregate c"
  shows "cursor_ok T types aggregate c' \<and>
    map afl_symbol (lc_fields c') = map afl_symbol (lc_fields c) @ instance_symbols M fs \<and>
    (\<exists>own. lc_fields c' = lc_fields c @ own)"
  using assms(1,3)
proof (induction fs arbitrary: c)
  case Nil
  then show ?case by (simp add: instance_symbols_def)
next
  case (Cons field fs)
  from Cons.prems(1) obtain c1 where step: "place_field f M types T layouts d aggregate field c = Some (Inr c1)"
    and rest: "place_fields f M types T layouts d aggregate fs c1 = Some (Inr c')" by auto
  have ok: "cursor_ok T types aggregate c1" by (rule place_field_ok [OF step assms(2) Cons.prems(2)])
  note IH = Cons.IH [OF rest ok]
  from step show ?case
    by (cases rule: place_fieldE)
      (use IH in \<open>auto simp: instance_symbols_def semantic_lookup_defs\<close>)
qed

section \<open>Layouts of file classes\<close>

abbreviation aggregate_kind :: "FileTypeKind \<Rightarrow> bool" where
  "aggregate_kind kind \<equiv> kind = ftStruct \<or> kind = ftEnum"

text \<open>What the model says of a file class: only classes extend files, and the type of strings is a reference.\<close>

definition string_type_ok :: "TargetDataLayout \<Rightarrow> SemanticModel \<Rightarrow> AbiTypeLayout list \<Rightarrow> bool" where
  "string_type_ok T M types \<longleftrightarrow>
     sm_string_type M < length types \<and> types ! sm_string_type M = reference_layout (sm_string_type M) T"

lemma target_okD:
  assumes "target_ok T"
  shows "is_power_of_two_u64 (sa_alignment (tl_pointer T))" "pointer_alignment T dvd pointer_size T"
    "0 < pointer_size T" "tl_object_header_words T = 2" "unat (object_header T False) = 2 * pointer_size T"
proof -
  show "is_power_of_two_u64 (sa_alignment (tl_pointer T))" "pointer_alignment T dvd pointer_size T"
    "0 < pointer_size T" and w: "tl_object_header_words T = 2"
    using assms by (auto simp: target_ok_def is_valid_data_layout_def unat_gt_0)
  have "sa_size (tl_pointer T) \<le> 0xFFFFFFFF div 8"
    using assms by (simp add: target_ok_def is_valid_data_layout_def)
  then have "pointer_size T \<le> 0xFFFFFFFF div 8" by (simp add: word_le_nat_alt unat_div)
  then show "unat (object_header T False) = 2 * pointer_size T"
    by (simp add: object_header_def w unat_word_ariths)
qed

lemma start_layout_ok:
  assumes start: "start_layout f kind M types T layouts d = Some (Inr c)"
    and T: "target_ok T" and string: "string_type_ok T M types"
    and base: "\<And>b l. mfc_base_file f = Some b \<Longrightarrow> computed_layout layouts b = Some l \<Longrightarrow>
      kind \<noteq> ftStruct \<and> layout_ok T types False l"
  shows "cursor_ok T types (kind = ftStruct) c \<and>
    (\<forall>b. mfc_base_file f = Some b \<longrightarrow>
       (\<exists>l. computed_layout layouts b = Some l \<and> lc_fields c = acl_fields (fl_storage l)))"
proof (cases "mfc_base_file f")
  case (Some b)
  with start obtain l where l: "computed_layout layouts b = Some l"
    and c: "lc_offset c = acl_size (fl_storage l)" "lc_fields c = acl_fields (fl_storage l)"
      "lc_references c = fl_references l"
      "lc_alignment c = max (if kind = ftStruct then 1 else sa_alignment (tl_pointer T)) (acl_alignment (fl_storage l))"
    by (auto simp: start_layout_def Let_def)
  have k: "kind \<noteq> ftStruct" and ok: "layout_ok T types False l" using base [OF Some l] by auto
  note p = target_okD(1) [OF T]
  have "storage_ok T types (unat (object_header T False)) (unat (lc_offset c)) (lc_alignment c) (lc_fields c)
      (lc_references c)"
    using storage_ok_align [OF _ p] ok k unfolding layout_ok_def c by simp
  moreover have "pointer_alignment T dvd unat (lc_alignment c)"
    using max_alignment(2) [OF p, of "acl_alignment (fl_storage l)"] ok k
    unfolding layout_ok_def storage_ok_def c by simp
  ultimately show ?thesis
    using ok k l Some by (auto simp: cursor_ok_def layout_ok_def c(1,2) word_le_nat_alt)
next
  case None
  show ?thesis
  proof (cases "kind = ftError")
    case False
    then have "c = \<lparr>lc_offset = object_header T (kind = ftStruct),
        lc_alignment = (if kind = ftStruct then 1 else sa_alignment (tl_pointer T)),
        lc_depth = (if kind = ftStruct then 1 else 0), lc_instance_count = 0, lc_fields = [], lc_references = []\<rparr>"
      using None start by (simp add: start_layout_def Let_def)
    moreover have "is_power_of_two_u64 1" by (simp add: is_power_of_two_u64_def)
    ultimately show ?thesis
      using target_okD(1) [OF T] None by (simp add: cursor_ok_def storage_ok_def)
  next
    case True
    let ?type = "types ! sm_string_type M"
    let ?a = "sa_alignment (tl_pointer T)"
    have type: "sm_string_type M < length types" "atl_size ?type = sa_size (tl_pointer T)" "atl_alignment ?type = ?a"
      using string by (simp_all add: string_type_ok_def reference_layout_def make_type_layout_def)
    from None True start obtain message aligned e where
      al: "checked_align (object_header T False) ?a = Some aligned"
      and e: "checked_add aligned (sa_size (tl_pointer T)) = Some e"
      and c: "lc_offset c = e" "lc_alignment c = ?a" "lc_references c = [aligned]"
        "lc_fields c = [\<lparr>afl_symbol = message, afl_type = sm_string_type M, afl_offset = aligned\<rparr>]"
      by (auto simp: start_layout_def Let_def at_index_eq_Some type bind_eq_Some_conv split: option.splits)
    note al' = checked_align_unat [OF al] and e' = checked_add_unat [OF e] and p = target_okD [OF T]
    have "storage_ok T types (unat (object_header T False)) (unat e) ?a (lc_fields c) (lc_references c)"
      using al' e' p by (simp add: storage_ok_def fields_ok_def slots_ok_def c type kMaxLayoutReferences_def)
    then show ?thesis
      using al' e' None True by (simp add: cursor_ok_def c)
  qed
qed

lemma finish_layout_ok:
  assumes "finish_layout f M T d aggregate c = Some (Inr l)" "cursor_ok T types aggregate c"
  shows "layout_ok T types aggregate l \<and> acl_fields (fl_storage l) = lc_fields c \<and>
    (aggregate \<longrightarrow> acl_size (fl_storage l) \<noteq> 0)"
proof -
  from assms(1) obtain sz where
    sz: "checked_align (if aggregate then max (lc_offset c) 1 else lc_offset c) (lc_alignment c) = Some sz"
    and l: "fl_storage l = \<lparr>acl_header_size = object_header T aggregate, acl_size = sz,
                           acl_alignment = lc_alignment c, acl_fields = lc_fields c\<rparr>"
      "fl_references l = lc_references c"
    by (auto simp: finish_layout_def split: option.splits if_splits)
  note al = checked_align_unat [OF sz]
  have le: "unat (lc_offset c) \<le> unat sz"
    using al(3) by (auto simp: max_def word_le_nat_alt split: if_splits)
  have "sz \<noteq> 0" if aggregate
    using al(3) that by (auto simp: max_def word_le_nat_alt split: if_splits)
  then show ?thesis
    using assms(2) al(2) le storage_ok_pad [OF _ le]
    by (auto simp: layout_ok_def cursor_ok_def l word_le_nat_alt)
qed

lemma lower_file_layout_ok:
  assumes low: "lower_file_layout f M types T layouts d = Some (Inr l)"
    and sem: "semantic_file M (mfc_file f) = Some s"
    and T: "target_ok T" and types: "list_all (type_ok T) types" and string: "string_type_ok T M types"
    and no_base: "\<And>b. mfc_base_file f = Some b \<Longrightarrow> \<not> aggregate_kind (fs_kind s)"
    and base: "\<And>b l. mfc_base_file f = Some b \<Longrightarrow> computed_layout layouts b = Some l \<Longrightarrow> layout_ok T types False l"
  shows "layout_ok T types (aggregate_kind (fs_kind s)) l"
    and "fs_kind s = ftStruct \<Longrightarrow> acl_size (fl_storage l) \<noteq> 0"
    and "mfc_base_file f = Some b \<Longrightarrow> \<exists>bl own. computed_layout layouts b = Some bl \<and>
      acl_fields (fl_storage l) = acl_fields (fl_storage bl) @ own \<and>
      map afl_symbol own = instance_symbols M (mfc_fields f)"
proof -
  have "layout_ok T types (aggregate_kind (fs_kind s)) l \<and>
    (fs_kind s = ftStruct \<longrightarrow> acl_size (fl_storage l) \<noteq> 0) \<and>
    (\<forall>b. mfc_base_file f = Some b \<longrightarrow> (\<exists>bl own. computed_layout layouts b = Some bl \<and>
      acl_fields (fl_storage l) = acl_fields (fl_storage bl) @ own \<and>
      map afl_symbol own = instance_symbols M (mfc_fields f)))"
  proof (cases "fs_kind s = ftEnum")
    case True
    then have "l = \<lparr>fl_storage = \<lparr>acl_header_size = 0, acl_size = 0, acl_alignment = 1, acl_fields = []\<rparr>,
        fl_references = [], fl_depth = 0\<rparr>"
      using low sem by (simp add: lower_file_layout_def)
    then show ?thesis
      using True no_base by (auto simp: layout_ok_def storage_ok_def object_header_def is_power_of_two_u64_def)
  next
    case False
    let ?agg = "fs_kind s = ftStruct"
    from low sem False obtain c c' where
      start: "start_layout f (fs_kind s) M types T layouts d = Some (Inr c)"
      and place: "place_fields f M types T layouts d ?agg (mfc_fields f) c = Some (Inr c')"
      and finish: "finish_layout f M T d ?agg c' = Some (Inr l)"
      by (auto simp: lower_file_layout_def)
    have c: "cursor_ok T types ?agg c \<and> (\<forall>b. mfc_base_file f = Some b \<longrightarrow>
       (\<exists>l. computed_layout layouts b = Some l \<and> lc_fields c = acl_fields (fl_storage l)))"
      by (rule start_layout_ok [OF start T string]) (use base no_base in auto)
    note placed = place_fields_ok [OF place types conjunct1 [OF c]]
    note fin = finish_layout_ok [OF finish conjunct1 [OF placed]]
    show ?thesis using c placed fin False by (elim conjE exE) auto
  qed
  then show "layout_ok T types (aggregate_kind (fs_kind s)) l"
    and "fs_kind s = ftStruct \<Longrightarrow> acl_size (fl_storage l) \<noteq> 0"
    and "mfc_base_file f = Some b \<Longrightarrow> \<exists>bl own. computed_layout layouts b = Some bl \<and>
      acl_fields (fl_storage l) = acl_fields (fl_storage bl) @ own \<and>
      map afl_symbol own = instance_symbols M (mfc_fields f)" by blast+
qed

text \<open>A table of types that only fills in sizes that were zero keeps the layouts made with it.\<close>

definition types_extend :: "AbiTypeLayout list \<Rightarrow> AbiTypeLayout list \<Rightarrow> bool" where
  "types_extend types types' \<longleftrightarrow>
     length types' = length types \<and> (\<forall>t < length types. atl_size (types ! t) \<noteq> 0 \<longrightarrow> types' ! t = types ! t)"

lemma types_extend_refl [simp]: "types_extend types types"
  by (simp add: types_extend_def)

lemma types_extend_trans: "types_extend a b \<Longrightarrow> types_extend b c \<Longrightarrow> types_extend a c"
  by (simp add: types_extend_def)

lemma layout_ok_extend:
  assumes "layout_ok T types aggregate l" "types_extend types types'"
  shows "layout_ok T types' aggregate l"
proof -
  have "types' ! afl_type f = types ! afl_type f"
    if "f \<in> set (acl_fields (fl_storage l))" for f
    using that assms by (auto simp: layout_ok_def storage_ok_def fields_ok_def types_extend_def unat_gt_0)
  then show ?thesis
    using assms unfolding layout_ok_def storage_ok_def fields_ok_def types_extend_def
    by (auto simp: sorted_wrt_iff_nth_less)
qed

lemma string_type_extend:
  assumes "string_type_ok T M types" "types_extend types types'" "target_ok T"
  shows "string_type_ok T M types'"
  using assms target_okD(3) [OF assms(3)]
  by (simp add: string_type_ok_def types_extend_def reference_layout_def make_type_layout_def unat_gt_0)

end
