(* ===== verification/Abi_Lowering.thy ===== *)
theory Abi_Lowering
  imports Abi_Layout
begin

text \<open>
  The lowering of a module to its binary interface (the rest of \<^verbatim>\<open>src/abi/abi.cc\<close>): names, callables, type
  descriptors, and the traversal that lays files out after the files they depend on. The lemmas show that the traversal
  never reads a layout that is not there yet, and that the layouts of a lowered module are sound.
\<close>

section \<open>Names\<close>

primrec traverse :: "('a \<Rightarrow> 'b option) \<Rightarrow> 'a list \<Rightarrow> 'b list option" where
  "traverse f [] = Some []"
| "traverse f (x # xs) = Option.bind (f x) (\<lambda>y. map_option ((#) y) (traverse f xs))"

text \<open>
  The shape of a type, by following its references. A missing file or element has undefined behaviour, and a
  type that is its own element never ends: both are \<open>None\<close>.
\<close>

partial_function (option) type_shape :: "SemanticModel \<Rightarrow> TypeId \<Rightarrow> SemanticTypeShape option" where
  "type_shape M type =
     (case semantic_type M type of
        None \<Rightarrow> None
      | Some value \<Rightarrow>
          let kind = sty_kind value in
          if (kind = tyObject \<and> sty_file value \<noteq> None) \<or> kind = tyFileClass \<or>
             (kind = tyErrorClass \<and> sty_file value \<noteq> None) \<or> kind = tyInterface \<or> kind = tyEnum \<or> kind = tyStruct
          then (case sty_file value of
                  None \<Rightarrow> None
                | Some f \<Rightarrow> map_option (\<lambda>s. NominalType (fs_identity s)) (semantic_file M f))
          else if kind = tyErrorClass then Some (PrimitiveType (sty_name value))
          else if kind = tyArray \<or> kind = tyNullable then
            (case sty_element_type value of
               None \<Rightarrow> None
             | Some element \<Rightarrow>
                 Option.bind (type_shape M element) (\<lambda>shape.
                   Some (if kind = tyArray then ArrayOf shape else NullableOf shape)))
          else Some (PrimitiveType (type_kind_name kind)))"

declare type_shape.simps [code]

definition symbol_identity :: "SemanticSymbol \<Rightarrow> SemanticModel \<Rightarrow> CanonicalMemberKind \<Rightarrow> string option" where
  "symbol_identity symbol M kind =
     Option.bind (traverse (type_shape M) (sym_parameter_types symbol)) (\<lambda>shapes.
     Option.bind (sym_file symbol) (\<lambda>f.
     map_option (\<lambda>s. canonical_symbol_identity (fs_identity s) (sym_name symbol) shapes kind) (semantic_file M f)))"

definition mangle_abi_symbol :: "SemanticSymbol \<Rightarrow> SemanticModel \<Rightarrow> string option" where
  "mangle_abi_symbol symbol M =
     map_option mangle_canonical_identity
       (symbol_identity symbol M (if sym_kind symbol = syConstructor then cmkConstructor else cmkFunction))"

definition mangle_abi_static_field :: "SemanticSymbol \<Rightarrow> SemanticModel \<Rightarrow> string option" where
  "mangle_abi_static_field symbol M = map_option mangle_canonical_identity (symbol_identity symbol M cmkStaticField)"

definition mangle_abi_constructor_initializer :: "SemanticSymbol \<Rightarrow> SemanticModel \<Rightarrow> string option" where
  "mangle_abi_constructor_initializer symbol M =
     map_option mangle_canonical_identity (symbol_identity symbol M cmkConstructorInitializer)"

definition mangle_descriptor :: "FileSemantics \<Rightarrow> string" where
  "mangle_descriptor s = mangle_canonical_identity (canonical_member_identity (fs_identity s) cmkDescriptor [] [])"

section \<open>Callables\<close>

datatype AbiCallableKind = ackFunction | ackConstructor
datatype AbiLinkage = alInternal | alExternal
datatype AbiCallingConvention = accC
datatype AbiParameterKind = apkResult | apkReceiver | apkExplicit
datatype AbiPassingMode = apmDirect | apmValuePointer | apmResultPointer
datatype AbiReturnMode = armVoid | armDirect | armIndirect
datatype AbiReceiverMode = arcNone | arcReference | arcReadOnlyValue | arcConstruction

primrec abi_passing_mode_name :: "AbiPassingMode \<Rightarrow> string" where
  "abi_passing_mode_name apmDirect = ''direct''"
| "abi_passing_mode_name apmValuePointer = ''value_pointer''"
| "abi_passing_mode_name apmResultPointer = ''result_pointer''"

primrec abi_return_mode_name :: "AbiReturnMode \<Rightarrow> string" where
  "abi_return_mode_name armVoid = ''void''"
| "abi_return_mode_name armDirect = ''direct''"
| "abi_return_mode_name armIndirect = ''indirect''"

primrec abi_receiver_mode_name :: "AbiReceiverMode \<Rightarrow> string" where
  "abi_receiver_mode_name arcNone = ''none''"
| "abi_receiver_mode_name arcReference = ''reference''"
| "abi_receiver_mode_name arcReadOnlyValue = ''readonly_value''"
| "abi_receiver_mode_name arcConstruction = ''construction''"

record AbiParameter =
  apr_kind :: AbiParameterKind
  apr_symbol :: "SymbolId option"
  apr_type :: TypeId
  apr_passing :: AbiPassingMode

record AbiCallable =
  acb_symbol :: SymbolId
  acb_kind :: AbiCallableKind
  acb_linkage :: AbiLinkage
  acb_calling_convention :: AbiCallingConvention
  acb_mangled_name :: string
  acb_initializer_mangled_name :: string
  acb_return_type :: TypeId
  acb_parameters :: "AbiParameter list"
  acb_initializer_linkage :: AbiLinkage
  acb_return_mode :: AbiReturnMode
  acb_receiver_mode :: AbiReceiverMode
  acb_uses_error_abi :: bool

definition lower_linkage :: "Visibility \<Rightarrow> AbiLinkage" where
  "lower_linkage visibility = (if visibility = visPublic then alExternal else alInternal)"

definition is_aggregate_value :: "TypeId \<Rightarrow> SemanticModel \<Rightarrow> bool option" where
  "is_aggregate_value type M =
     Option.bind (semantic_type M type) (\<lambda>t.
       if sty_kind t = tyStruct then Some True else is_nullable_value type M)"

definition lower_parameter :: "SemanticModel \<Rightarrow> SymbolId \<Rightarrow> AbiParameter option" where
  "lower_parameter M parameter =
     Option.bind (semantic_symbol M parameter) (\<lambda>symbol.
     map_option (\<lambda>aggregate.
       \<lparr>apr_kind = apkExplicit, apr_symbol = Some parameter, apr_type = sym_type symbol,
        apr_passing = (if aggregate then apmValuePointer else apmDirect)\<rparr>)
       (is_aggregate_value (sym_type symbol) M))"

definition return_mode :: "bool \<Rightarrow> bool \<Rightarrow> TypeKind \<Rightarrow> AbiReturnMode" where
  "return_mode uses_error_abi aggregate_result result_kind =
     (if uses_error_abi \<and> result_kind \<noteq> tyVoid then armIndirect
      else if aggregate_result then armIndirect
      else if result_kind = tyVoid then armVoid
      else armDirect)"

definition receiver_mode :: "bool \<Rightarrow> bool \<Rightarrow> bool \<Rightarrow> AbiReceiverMode" where
  "receiver_mode constructor struct_owner is_static =
     (if constructor \<and> struct_owner then arcConstruction
      else if \<not> constructor \<and> \<not> is_static then (if struct_owner then arcReadOnlyValue else arcReference)
      else arcNone)"

definition lower_callable ::
  "MirCallable \<Rightarrow> AbiCallableKind \<Rightarrow> FileSemantics \<Rightarrow> SemanticModel \<Rightarrow> AbiCallable option" where
  "lower_callable callable kind s M =
     Option.bind (semantic_symbol M (mc_symbol callable)) (\<lambda>symbol.
     let constructor = (kind = ackConstructor);
         struct_owner = (fs_kind s = ftStruct);
         return_type = (if constructor then fs_type s else sym_type symbol) in
     Option.bind (semantic_type M return_type) (\<lambda>result_type.
     Option.bind (is_aggregate_value return_type M) (\<lambda>aggregate_result.
     let uses_error_abi = callable_uses_error_abi (mc_symbol callable) M;
         returns = return_mode uses_error_abi aggregate_result (sty_kind result_type);
         initializer = (constructor \<and> \<not> struct_owner) in
     Option.bind (traverse (lower_parameter M) (mc_parameters callable)) (\<lambda>explicit.
     Option.bind (mangle_abi_symbol symbol M) (\<lambda>name.
     Option.bind (if initializer then mangle_abi_constructor_initializer symbol M else Some []) (\<lambda>initializer_name.
       Some \<lparr>acb_symbol = mc_symbol callable, acb_kind = kind, acb_linkage = lower_linkage (sym_visibility symbol),
             acb_calling_convention = accC, acb_mangled_name = name,
             acb_initializer_mangled_name = initializer_name, acb_return_type = return_type,
             acb_parameters =
               (if returns = armIndirect
                then [\<lparr>apr_kind = apkResult, apr_symbol = None, apr_type = return_type, apr_passing = apmResultPointer\<rparr>]
                else []) @
               (if \<not> constructor \<and> \<not> sym_is_static symbol
                then [\<lparr>apr_kind = apkReceiver, apr_symbol = Some (fs_self_symbol s), apr_type = fs_type s,
                       apr_passing = (if struct_owner then apmValuePointer else apmDirect)\<rparr>]
                else []) @ explicit,
             acb_initializer_linkage = (if initializer then lower_linkage (sym_visibility symbol) else alInternal),
             acb_return_mode = returns,
             acb_receiver_mode = receiver_mode constructor struct_owner (sym_is_static symbol),
             acb_uses_error_abi = uses_error_abi\<rparr>))))))"

section \<open>Type descriptors\<close>

datatype AbiHeapObjectKind = ahkFileClass | ahkString | ahkArray | ahkError | ahkValueBox

record InterfaceDispatch =
  idp_interface_file :: FileId
  idp_interface_id :: u64
  idp_functions :: "SymbolId list"

record AbiTypeDescriptor =
  atd_kind :: AbiHeapObjectKind
  atd_parent_file :: "FileId option"
  atd_name :: string
  atd_size :: u64
  atd_alignment :: u64
  atd_reference_offsets :: "u64 list"
  atd_virtual_functions :: "SymbolId list"
  atd_interfaces :: "InterfaceDispatch list"
  atd_mangled_name :: string
  atd_parent_is_error_root :: bool
  atd_boxed_value_type :: "TypeId option"
  atd_boxed_value_offset :: u64
  atd_uses_value_box_virtuals :: bool

definition interface_dispatch :: "SemanticModel \<Rightarrow> InterfaceImplementation \<Rightarrow> InterfaceDispatch option" where
  "interface_dispatch M implementation =
     map_option (\<lambda>s. \<lparr>idp_interface_file = ii_interface_file implementation,
                      idp_interface_id = (case fs_interface_id s of Some i \<Rightarrow> i | None \<Rightarrow> 0),
                      idp_functions = ii_functions implementation\<rparr>)
       (semantic_file M (ii_interface_file implementation))"

text \<open>\<^verbatim>\<open>std::ranges::sort\<close> leaves the order of equal ids open; here it is stable.\<close>

definition lower_type_descriptor ::
  "AbiClassLayout \<Rightarrow> SemanticSymbol \<Rightarrow> u64 list \<Rightarrow> FileId option \<Rightarrow> FileSemantics \<Rightarrow> SemanticModel \<Rightarrow>
   AbiTypeDescriptor option" where
  "lower_type_descriptor layout class_symbol reference_offsets parent_file s M =
     Option.bind (traverse (interface_dispatch M) (fs_interface_implementations s)) (\<lambda>interfaces.
       Some \<lparr>atd_kind = (if fs_kind s = ftError then ahkError else ahkFileClass), atd_parent_file = parent_file,
             atd_name = sym_name class_symbol, atd_size = acl_size layout, atd_alignment = acl_alignment layout,
             atd_reference_offsets = reference_offsets, atd_virtual_functions = fs_virtual_functions s,
             atd_interfaces = sort_key idp_interface_id interfaces,
             atd_mangled_name = (if fs_kind s = ftClass \<or> fs_kind s = ftError then mangle_descriptor s else []),
             atd_parent_is_error_root = (fs_kind s = ftError \<and> parent_file = None),
             atd_boxed_value_type = fs_boxed_value_type s,
             atd_boxed_value_offset =
               (case fs_boxed_value_field s of
                  None \<Rightarrow> 0
                | Some field \<Rightarrow>
                    (case find (\<lambda>f. afl_symbol f = field) (acl_fields layout) of
                       None \<Rightarrow> 0
                     | Some f \<Rightarrow> afl_offset f)),
             atd_uses_value_box_virtuals = False\<rparr>)"

definition lower_value_box_descriptor ::
  "TypeId \<Rightarrow> AbiTypeLayout \<Rightarrow> SemanticSymbol \<Rightarrow> FileId \<Rightarrow> FileSemantics \<Rightarrow> TargetDataLayout \<Rightarrow>
   AbiTypeDescriptor option" where
  "lower_value_box_descriptor value_type value_layout symbol object_file s T =
     (let alignment = max (sa_alignment (tl_pointer T)) (atl_alignment value_layout) in
      Option.bind (checked_align (sa_size (tl_pointer T) * tl_object_header_words T) (atl_alignment value_layout))
        (\<lambda>payload.
      Option.bind (checked_add payload (atl_size value_layout)) (\<lambda>end_offset.
      Option.bind (checked_align end_offset alignment) (\<lambda>sz.
      if atl_size value_layout = 0 then None
      else Option.bind (shift_offsets payload (atl_reference_offsets value_layout)) (\<lambda>references.
        Some \<lparr>atd_kind = ahkValueBox, atd_parent_file = Some object_file, atd_name = sym_name symbol,
              atd_size = sz, atd_alignment = alignment, atd_reference_offsets = references,
              atd_virtual_functions = [], atd_interfaces = [], atd_mangled_name = mangle_descriptor s,
              atd_parent_is_error_root = False, atd_boxed_value_type = Some value_type,
              atd_boxed_value_offset = payload, atd_uses_value_box_virtuals = True\<rparr>)))))"

section \<open>The order of files\<close>

definition abi_fail :: "DiagnosticEngine \<Rightarrow> string \<Rightarrow> 'a lowering" where
  "abi_fail d message =
     Some (Inl (error_range (point_range \<lparr>loc_file = ''<abi>'', loc_byte_offset = 0, loc_line = 1, loc_column = 1\<rparr>)
       message d))"

text \<open>The files whose layout a file's own layout reads.\<close>

primrec field_dependencies :: "SemanticModel \<Rightarrow> DiagnosticEngine \<Rightarrow> MirField list \<Rightarrow> FileId list lowering" where
  "field_dependencies M d [] = Some (Inr [])"
| "field_dependencies M d (field # rest) =
     lbind (required (semantic_symbol M (mf_symbol field))) (\<lambda>symbol.
       if sym_is_static symbol then field_dependencies M d rest
       else lbind (required (inline_struct_type (sym_type symbol) M)) (\<lambda>struct_type.
         case struct_type of
           None \<Rightarrow> field_dependencies M d rest
         | Some t \<Rightarrow>
             lbind (required (semantic_type M t)) (\<lambda>type.
               case sty_file type of
                 None \<Rightarrow> abi_fail d ''struct field has no nominal owner''
               | Some owner \<Rightarrow>
                   lbind (field_dependencies M d rest) (\<lambda>owners. Some (Inr (owner # owners))))))"

definition file_dependencies :: "SemanticModel \<Rightarrow> DiagnosticEngine \<Rightarrow> MirFileClass \<Rightarrow> FileId list lowering" where
  "file_dependencies M d f =
     lbind (field_dependencies M d (mfc_fields f)) (\<lambda>owners.
       Some (Inr (remdups (sort ((case mfc_base_file f of None \<Rightarrow> [] | Some b \<Rightarrow> [b]) @ owners)))))"

primrec add_dependents ::
  "DiagnosticEngine \<Rightarrow> nat \<Rightarrow> FileId list \<Rightarrow> nat list list \<Rightarrow> nat list list lowering" where
  "add_dependents d index [] dependents = Some (Inr dependents)"
| "add_dependents d index (dependency # rest) dependents =
     (if dependency \<ge> length dependents then abi_fail d ''layout dependency has no file declaration''
      else add_dependents d index rest (dependents[dependency := dependents ! dependency @ [index]]))"

text \<open>
  \<^verbatim>\<open>ready\<close> is a queue that gives its smallest index first, here a sorted list. \<^verbatim>\<open>pending\<close>
  counts are integers; they do not reach the wrap-around of \<^verbatim>\<open>std::size_t\<close>.
\<close>

record FileOrder =
  fo_dependents :: "nat list list"
  fo_pending :: "int list"
  fo_ready :: "nat list"

primrec order_files ::
  "SemanticModel \<Rightarrow> DiagnosticEngine \<Rightarrow> nat \<Rightarrow> MirFileClass list \<Rightarrow> FileOrder \<Rightarrow> FileOrder lowering" where
  "order_files M d index [] s = Some (Inr s)"
| "order_files M d index (f # rest) s =
     (if mfc_file f \<noteq> index \<or> index \<ge> length (sm_files M)
      then abi_fail d ''file identity is invalid during ABI lowering''
      else lbind (file_dependencies M d f) (\<lambda>dependencies.
           lbind (add_dependents d index dependencies (fo_dependents s)) (\<lambda>dependents.
             order_files M d (index + 1) rest
               \<lparr>fo_dependents = dependents,
                fo_pending = (fo_pending s)[index := int (length dependencies)],
                fo_ready = (if dependencies = [] then insort index (fo_ready s) else fo_ready s)\<rparr>)))"

text \<open>Indexing \<^verbatim>\<open>pending\<close> outside its bounds is undefined.\<close>

primrec release_dependents :: "nat list \<Rightarrow> int list \<Rightarrow> nat list \<Rightarrow> (int list \<times> nat list) option" where
  "release_dependents [] pending ready = Some (pending, ready)"
| "release_dependents (dependent # rest) pending ready =
     (if dependent \<ge> length pending then None
      else let count = pending ! dependent - 1 in
           release_dependents rest (pending[dependent := count]) (if count = 0 then insort dependent ready else ready))"

section \<open>The layout of all files\<close>

record LayoutState =
  ls_types :: "AbiTypeLayout list"
  ls_layouts :: "FileLayout option list"
  ls_pending :: "int list"
  ls_ready :: "nat list"
  ls_completed :: nat
  ls_map_entries :: nat

text \<open>The nullable types of a struct get their layout with it.\<close>

primrec update_nullables ::
  "SemanticModel \<Rightarrow> DiagnosticEngine \<Rightarrow> TypeId \<Rightarrow> TypeId list \<Rightarrow> AbiTypeLayout list \<Rightarrow> AbiTypeLayout list lowering" where
  "update_nullables M d struct_type [] types = Some (Inr types)"
| "update_nullables M d struct_type (nullable # rest) types =
     lbind (required (semantic_type M nullable)) (\<lambda>t.
       if sty_kind t \<noteq> tyNullable \<or> sty_element_type t \<noteq> Some struct_type
       then update_nullables M d struct_type rest types
       else case lower_nullable_value_layout nullable (types ! struct_type) of
              None \<Rightarrow> abi_fail d ''nullable value layout overflows the target''
            | Some l \<Rightarrow> update_nullables M d struct_type rest (types[nullable := l]))"

definition record_struct ::
  "SemanticModel \<Rightarrow> DiagnosticEngine \<Rightarrow> FileSemantics \<Rightarrow> FileLayout \<Rightarrow> AbiTypeLayout list \<Rightarrow> AbiTypeLayout list lowering" where
  "record_struct M d s l types =
     (if fs_kind s \<noteq> ftStruct then Some (Inr types)
      else lbind (required (at_index types (fs_type s))) (\<lambda>type.
        update_nullables M d (fs_type s) [0..<length (sm_types M)]
          (types[fs_type s := type\<lparr>
             atl_storage := \<lparr>sa_size = acl_size (fl_storage l), sa_alignment = acl_alignment (fl_storage l)\<rparr>,
             atl_reference_offsets := fl_references l\<rparr>])))"

definition layout_step ::
  "SemanticModel \<Rightarrow> MirFileClass list \<Rightarrow> TargetDataLayout \<Rightarrow> nat list list \<Rightarrow> DiagnosticEngine \<Rightarrow> nat \<Rightarrow>
   LayoutState \<Rightarrow> LayoutState lowering" where
  "layout_step M files T dependents d index s =
     lbind (required (at_index files index)) (\<lambda>f.
     lbind (lower_file_layout f M (ls_types s) T (ls_layouts s) d) (\<lambda>l.
       if length (fl_references l) > kMaxAggregateMapEntries - ls_map_entries s
       then fail_at M (mfc_symbol f) d ''compilation exceeds the aggregate reference-map limit''
       else
         lbind (required (semantic_file M (mfc_file f))) (\<lambda>semantic.
         lbind (record_struct M d semantic l (ls_types s)) (\<lambda>types.
         lbind (required (at_index dependents index)) (\<lambda>released.
         lbind (required (release_dependents released (ls_pending s) (ls_ready s))) (\<lambda>(pending, ready).
           Some (Inr \<lparr>ls_types = types, ls_layouts = (ls_layouts s)[index := Some l], ls_pending = pending,
                      ls_ready = ready, ls_completed = ls_completed s + 1,
                      ls_map_entries = ls_map_entries s + length (fl_references l)\<rparr>)))))))"

definition blocked :: "int list \<Rightarrow> nat" where
  "blocked pending = length (filter (\<lambda>p. p > 0) pending)"

lemma blocked_update:
  "i < length pending \<Longrightarrow>
   blocked (pending[i := p]) + of_bool (pending ! i > 0) = blocked pending + of_bool (p > 0)"
  unfolding blocked_def
proof (induction pending arbitrary: i)
  case (Cons x pending)
  then show ?case by (cases i) (fastforce simp: of_bool_def)+
qed simp

lemma release_measure:
  "release_dependents deps pending ready = Some (pending', ready') \<Longrightarrow>
   length ready' + blocked pending' \<le> length ready + blocked pending"
proof (induction deps arbitrary: pending ready)
  case (Cons i deps)
  show ?case
    using Cons.IH Cons.prems blocked_update [of i pending "pending ! i - 1"]
    by (fastforce simp: Let_def of_bool_def split: if_splits)
qed simp

function lower_layouts ::
  "SemanticModel \<Rightarrow> MirFileClass list \<Rightarrow> TargetDataLayout \<Rightarrow> nat list list \<Rightarrow> DiagnosticEngine \<Rightarrow>
   LayoutState \<Rightarrow> LayoutState lowering" where
  "lower_layouts M files T dependents d s =
     (case ls_ready s of
        [] \<Rightarrow> Some (Inr s)
      | index # ready \<Rightarrow>
          lbind (layout_step M files T dependents d index (s\<lparr>ls_ready := ready\<rparr>)) (\<lambda>s1.
            lower_layouts M files T dependents d s1))"
  by pat_completeness auto
termination
  by (relation "measure (\<lambda>(M, files, T, dependents, d, s). length (ls_ready s) + blocked (ls_pending s))")
    (auto simp: layout_step_def less_Suc_eq_le split: if_splits dest!: release_measure)

declare lower_layouts.simps [simp del]

section \<open>The module\<close>

record AbiStaticField =
  asf_symbol :: SymbolId
  asf_type :: TypeId
  asf_linkage :: AbiLinkage
  asf_mangled_name :: string

record AbiFileClass =
  afc_file :: FileId
  afc_symbol :: SymbolId
  afc_base_file :: "FileId option"
  afc_layout :: AbiClassLayout
  afc_type_descriptor :: "AbiTypeDescriptor option"
  afc_static_fields :: "AbiStaticField list"
  afc_functions :: "AbiCallable list"
  afc_constructors :: "AbiCallable list"
  afc_member_order :: "MemberReference list"
  afc_kind :: FileTypeKind

record AbiModule =
  abi_target :: TargetDataLayout
  abi_types :: "AbiTypeLayout list"
  abi_files :: "AbiFileClass list"

primrec lower_types :: "SemanticModel \<Rightarrow> TargetDataLayout \<Rightarrow> TypeId list \<Rightarrow> AbiTypeLayout list \<Rightarrow> AbiTypeLayout list option" where
  "lower_types M T [] types = Some types"
| "lower_types M T (type # rest) types =
     Option.bind (semantic_type M type) (\<lambda>t.
     Option.bind (lower_type type t M types T) (\<lambda>l. lower_types M T rest (types @ [l])))"

primrec lower_static_fields :: "SemanticModel \<Rightarrow> MirField list \<Rightarrow> AbiStaticField list option" where
  "lower_static_fields M [] = Some []"
| "lower_static_fields M (field # rest) =
     Option.bind (semantic_symbol M (mf_symbol field)) (\<lambda>symbol.
       if \<not> sym_is_static symbol then lower_static_fields M rest
       else Option.bind (mangle_abi_static_field symbol M) (\<lambda>name.
         map_option ((#) \<lparr>asf_symbol = mf_symbol field, asf_type = sym_type symbol,
                          asf_linkage = lower_linkage (sym_visibility symbol), asf_mangled_name = name\<rparr>)
           (lower_static_fields M rest)))"

definition file_descriptor ::
  "SemanticModel \<Rightarrow> AbiTypeLayout list \<Rightarrow> TargetDataLayout \<Rightarrow> DiagnosticEngine \<Rightarrow> MirFileClass \<Rightarrow> FileSemantics \<Rightarrow>
   FileLayout \<Rightarrow> AbiTypeDescriptor option lowering" where
  "file_descriptor M types T d f s l =
     lbind (required (semantic_type M (sm_object_type M))) (\<lambda>object_type.
       case (if fs_kind s = ftEnum \<or> fs_kind s = ftStruct then sty_file object_type else None) of
         Some object_file \<Rightarrow>
           lbind (required (at_index types (fs_type s))) (\<lambda>value_layout.
           lbind (required (semantic_symbol M (mfc_symbol f))) (\<lambda>symbol.
             case lower_value_box_descriptor (fs_type s) value_layout symbol object_file s T of
               None \<Rightarrow> abi_fail d ''value-box descriptor layout overflows the target''
             | Some descr \<Rightarrow> Some (Inr (Some descr))))
       | None \<Rightarrow>
           if fs_kind s = ftStruct then Some (Inr None)
           else lbind (required (semantic_symbol M (mfc_symbol f))) (\<lambda>symbol.
                lbind (required (lower_type_descriptor (fl_storage l) symbol (fl_references l) (mfc_base_file f) s M))
                  (\<lambda>descr. Some (Inr (Some descr)))))"

definition lower_file ::
  "SemanticModel \<Rightarrow> AbiTypeLayout list \<Rightarrow> TargetDataLayout \<Rightarrow> FileLayout option list \<Rightarrow> DiagnosticEngine \<Rightarrow>
   MirFileClass \<Rightarrow> AbiFileClass lowering" where
  "lower_file M types T layouts d f =
     lbind (required (semantic_file M (mfc_file f))) (\<lambda>s.
     lbind (required (computed_layout layouts (mfc_file f))) (\<lambda>l.
     lbind (file_descriptor M types T d f s l) (\<lambda>descr.
     lbind (required (lower_static_fields M (mfc_fields f))) (\<lambda>static_fields.
     lbind (required (traverse (\<lambda>c. lower_callable c ackFunction s M) (mfc_functions f))) (\<lambda>functions.
     lbind (required (traverse (\<lambda>c. lower_callable c ackConstructor s M) (mfc_constructors f))) (\<lambda>constructors.
       Some (Inr \<lparr>afc_file = mfc_file f, afc_symbol = mfc_symbol f, afc_base_file = mfc_base_file f,
                  afc_layout = fl_storage l, afc_type_descriptor = descr, afc_static_fields = static_fields,
                  afc_functions = functions, afc_constructors = constructors,
                  afc_member_order = mfc_member_order f, afc_kind = fs_kind s\<rparr>)))))))"

primrec lower_files ::
  "SemanticModel \<Rightarrow> AbiTypeLayout list \<Rightarrow> TargetDataLayout \<Rightarrow> FileLayout option list \<Rightarrow> DiagnosticEngine \<Rightarrow>
   MirFileClass list \<Rightarrow> AbiFileClass list lowering" where
  "lower_files M types T layouts d [] = Some (Inr [])"
| "lower_files M types T layouts d (f # rest) =
     lbind (lower_file M types T layouts d f) (\<lambda>x.
     lbind (lower_files M types T layouts d rest) (\<lambda>xs. Some (Inr (x # xs))))"

definition traverse_files ::
  "MirFileClass list \<Rightarrow> SemanticModel \<Rightarrow> AbiTypeLayout list \<Rightarrow> TargetDataLayout \<Rightarrow> DiagnosticEngine \<Rightarrow> LayoutState lowering" where
  "traverse_files files M types T d =
     lbind (order_files M d 0 files
       \<lparr>fo_dependents = replicate (length files) [], fo_pending = replicate (length files) 0, fo_ready = []\<rparr>) (\<lambda>ord.
     lower_layouts M files T (fo_dependents ord) d
       \<lparr>ls_types = types, ls_layouts = replicate (length files) None, ls_pending = fo_pending ord,
        ls_ready = fo_ready ord, ls_completed = 0, ls_map_entries = 0\<rparr>)"

definition lay_out_files ::
  "MirFileClass list \<Rightarrow> SemanticModel \<Rightarrow> AbiTypeLayout list \<Rightarrow> TargetDataLayout \<Rightarrow> DiagnosticEngine \<Rightarrow> LayoutState lowering" where
  "lay_out_files files M types T d =
     lbind (traverse_files files M types T d) (\<lambda>s.
       if ls_completed s \<noteq> length files then abi_fail d ''inline layout dependency cycle''
       else Some (Inr s))"

definition lower_to_abi ::
  "MirFileClass list \<Rightarrow> SemanticModel \<Rightarrow> TargetDataLayout \<Rightarrow> DiagnosticEngine \<Rightarrow> AbiModule lowering" where
  "lower_to_abi files M T d =
     (if \<not> is_valid_data_layout T \<or> sa_size (tl_pointer T) mod sa_alignment (tl_pointer T) \<noteq> 0
      then abi_fail d ''target data layout is invalid''
      else lbind (required (lower_types M T [0..<length (sm_types M)] [])) (\<lambda>types.
           lbind (lay_out_files files M types T d) (\<lambda>s.
           lbind (lower_files M (ls_types s) T (ls_layouts s) d files) (\<lambda>abi_file_list.
             Some (Inr \<lparr>abi_target = T, abi_types = ls_types s, abi_files = abi_file_list\<rparr>)))))"

section \<open>The table of types\<close>

abbreviation struct_type :: "SemanticModel \<Rightarrow> TypeId \<Rightarrow> bool" where
  "struct_type M t \<equiv> t < length (sm_types M) \<and> sty_kind (sm_types M ! t) = tyStruct"

abbreviation nullable_of :: "SemanticModel \<Rightarrow> TypeId \<Rightarrow> TypeId \<Rightarrow> bool" where
  "nullable_of M element t \<equiv>
     t < length (sm_types M) \<and> sty_kind (sm_types M ! t) = tyNullable \<and> sty_element_type (sm_types M ! t) = Some element"

lemma list_all_update [intro]: "list_all P xs \<Longrightarrow> P x \<Longrightarrow> list_all P (xs[i := x])"
  by (cases "i < length xs") (auto simp: list_all_length nth_list_update)

lemma lower_types_nth:
  "lower_types M T ts types = Some types' \<Longrightarrow>
   length types' = length types + length ts \<and> take (length types) types' = types \<and>
   (\<forall>k < length ts. ts ! k < length (sm_types M) \<and>
      lower_type (ts ! k) (sm_types M ! (ts ! k)) M (take (length types + k) types') T = Some (types' ! (length types + k)))"
proof (induction ts arbitrary: types)
  case (Cons t ts)
  from Cons.prems obtain l where l: "lower_type t (sm_types M ! t) M types T = Some l" "t < length (sm_types M)"
    and rest: "lower_types M T ts (types @ [l]) = Some types'"
    by (auto simp: bind_eq_Some_conv semantic_lookup_defs)
  note IH = Cons.IH [OF rest]
  have len: "length types' = length types + Suc (length ts)" using IH by simp
  have tk: "take (Suc (length types)) types' = types @ [l]" using IH by simp
  then have t0: "take (length types) types' = types" and tl: "types' ! length types = l"
    using len by (simp_all add: take_Suc_conv_app_nth)
  show ?case
  proof (intro conjI allI impI)
    fix k assume "k < length (t # ts)"
    then show "(t # ts) ! k < length (sm_types M)" using IH l by (cases k) auto
    show "lower_type ((t # ts) ! k) (sm_types M ! ((t # ts) ! k)) M (take (length types + k) types') T =
        Some (types' ! (length types + k))"
      using \<open>k < length (t # ts)\<close> IH l t0 tl by (cases k) auto
  qed (use len t0 in auto)
qed simp

lemma lower_types_ok:
  assumes low: "lower_types M T [0..<length (sm_types M)] [] = Some types"
  shows "length types = length (sm_types M)" "list_all (type_ok T) types"
    and "sm_string_type M < length types \<Longrightarrow> sty_kind (sm_types M ! sm_string_type M) = tyString \<Longrightarrow> string_type_ok T M types"
    and "struct_type M t \<Longrightarrow> atl_size (types ! t) = 0"
    and "struct_type M e \<Longrightarrow> nullable_of M e t \<Longrightarrow> atl_size (types ! t) = 0"
proof -
  note nth = lower_types_nth [OF low]
  show len: "length types = length (sm_types M)" using nth by simp
  have low_k: "lower_type k (sm_types M ! k) M (take k types) T = Some (types ! k)" if "k < length (sm_types M)" for k
    using nth that by (metis add_0 length_upt list.size(3) minus_nat.diff_0 nth_upt)
  have "\<forall>k \<le> length types. list_all (type_ok T) (take k types)"
  proof (intro allI impI)
    fix k assume "k \<le> length types"
    then show "list_all (type_ok T) (take k types)"
    proof (induction k)
      case (Suc k)
      then have "type_ok T (types ! k)" using low_k [of k] len by (intro type_ok_lower) auto
      with Suc show ?case by (simp add: take_Suc_conv_app_nth)
    qed simp
  qed
  from this [rule_format, of "length types"] show "list_all (type_ok T) types" by simp
  show "sm_string_type M < length types \<Longrightarrow> sty_kind (sm_types M ! sm_string_type M) = tyString \<Longrightarrow> string_type_ok T M types"
    using low_k [of "sm_string_type M"] len by (simp add: lower_type_def string_type_ok_def)
  show struct: "atl_size (types ! t) = 0" if "struct_type M t" for t
  proof -
    have "make_type_layout t abiAggregate 0 0 1 = types ! t"
      using low_k [of t] that by (simp add: lower_type_def)
    from this [symmetric] show ?thesis by (simp add: make_type_layout_def)
  qed
  show "atl_size (types ! t) = 0" if e: "struct_type M e" and t: "nullable_of M e t"
  proof -
    have "is_reference_type e M = Some False" using e by (simp add: is_reference_type_def semantic_lookup_defs at_index_def)
    moreover have "lower_nullable_value_layout t (take t types ! e) = None" if "e < t"
      using struct [OF e] that by (simp add: lower_nullable_value_layout_def)
    ultimately have "make_type_layout t abiAggregate 0 0 1 = types ! t"
      using low_k [of t] t by (cases "e < t") (auto simp: lower_type_def split: if_splits)
    from this [symmetric] show ?thesis by (simp add: make_type_layout_def)
  qed
qed

text \<open>Recording a struct only touches its own type and the nullable types of it.\<close>

lemma update_nullables_ok:
  assumes "update_nullables M d st ts types = Some (Inr types')"
    and "list_all (type_ok T) types" "length types = length (sm_types M)" "struct_type M st"
  shows "length types' = length types \<and> list_all (type_ok T) types' \<and>
    (\<forall>t < length types. \<not> nullable_of M st t \<longrightarrow> types' ! t = types ! t)"
  using assms(1-3)
proof (induction ts arbitrary: types)
  case (Cons n ts)
  show ?case
  proof (cases "nullable_of M st n")
    case True
    with Cons.prems obtain l where l: "lower_nullable_value_layout n (types ! st) = Some l"
      and rest: "update_nullables M d st ts (types[n := l]) = Some (Inr types')"
      by (auto simp: semantic_lookup_defs abi_fail_def split: option.splits)
    have "type_ok T l"
      by (rule type_ok_nullable [OF l]) (use Cons.prems assms(4) in \<open>simp add: list_all_length\<close>)
    then have ok: "list_all (type_ok T) (types[n := l])"
      using Cons.prems(2) by (rule list_all_update [rotated])
    have len: "length (types[n := l]) = length (sm_types M)" using Cons.prems(3) by simp
    have "types[n := l] ! t = types ! t" if "\<not> nullable_of M st t" for t
      using that True by (cases "t = n") auto
    then show ?thesis using Cons.IH [OF rest ok len] by simp
  next
    case False
    then show ?thesis using Cons.IH Cons.prems by (auto simp: semantic_lookup_defs split: if_splits)
  qed
qed simp

lemma record_struct_ok:
  assumes rec: "record_struct M d s l types = Some (Inr types')"
    and types: "list_all (type_ok T) types" "length types = length (sm_types M)"
    and l: "layout_ok T types (aggregate_kind (fs_kind s)) l"
    and struct: "fs_kind s = ftStruct \<Longrightarrow> struct_type M (fs_type s)"
    and zero: "\<And>t. fs_kind s = ftStruct \<Longrightarrow> t = fs_type s \<or> nullable_of M (fs_type s) t \<Longrightarrow> atl_size (types ! t) = 0"
  shows "list_all (type_ok T) types'" "types_extend types types'"
    and "t < length types \<Longrightarrow> fs_kind s = ftStruct \<Longrightarrow> t \<noteq> fs_type s \<Longrightarrow> \<not> nullable_of M (fs_type s) t \<Longrightarrow> types' ! t = types ! t"
    and "fs_kind s \<noteq> ftStruct \<Longrightarrow> types' = types"
proof -
  have "list_all (type_ok T) types' \<and> types_extend types types' \<and>
    (fs_kind s = ftStruct \<longrightarrow> (\<forall>t < length types. t \<noteq> fs_type s \<and> \<not> nullable_of M (fs_type s) t \<longrightarrow> types' ! t = types ! t)) \<and>
    (fs_kind s \<noteq> ftStruct \<longrightarrow> types' = types)"
  proof (cases "fs_kind s = ftStruct")
    case True
    let ?type = "(types ! fs_type s)\<lparr>
      atl_storage := \<lparr>sa_size = acl_size (fl_storage l), sa_alignment = acl_alignment (fl_storage l)\<rparr>,
      atl_reference_offsets := fl_references l\<rparr>"
    let ?types = "types[fs_type s := ?type]"
    from rec True have up: "update_nullables M d (fs_type s) [0..<length (sm_types M)] ?types = Some (Inr types')"
      by (auto simp: record_struct_def at_index_eq_Some)
    have "type_ok T ?type"
      using l True by (simp add: layout_ok_def storage_ok_def type_ok_def object_header_def)
    then have ok: "list_all (type_ok T) ?types"
      using types(1) by (rule list_all_update [rotated])
    note u = update_nullables_ok [OF up ok _ struct [OF True]]
    have *: "types' ! t = types ! t" if "t < length types" "t \<noteq> fs_type s" "\<not> nullable_of M (fs_type s) t" for t
      using u that types(2) by simp
    have "types_extend types types'"
      unfolding types_extend_def
    proof (intro conjI allI impI)
      show "length types' = length types" using u types(2) by simp
      fix t assume "t < length types" "atl_size (types ! t) \<noteq> 0"
      then show "types' ! t = types ! t" using * zero [OF True] by blast
    qed
    then show ?thesis using * u types(2) True by simp
  next
    case False
    then show ?thesis using rec types by (simp add: record_struct_def)
  qed
  then show "list_all (type_ok T) types'" "types_extend types types'"
    and "t < length types \<Longrightarrow> fs_kind s = ftStruct \<Longrightarrow> t \<noteq> fs_type s \<Longrightarrow> \<not> nullable_of M (fs_type s) t \<Longrightarrow> types' ! t = types ! t"
    and "fs_kind s \<noteq> ftStruct \<Longrightarrow> types' = types" by blast+
qed

section \<open>The traversal keeps its invariant\<close>

abbreviation kind_of :: "SemanticModel \<Rightarrow> FileId \<Rightarrow> FileTypeKind" where
  "kind_of M i \<equiv> fs_kind (sm_files M ! i)"

abbreviation type_of :: "SemanticModel \<Rightarrow> FileId \<Rightarrow> TypeId" where
  "type_of M i \<equiv> fs_type (sm_files M ! i)"

text \<open>
  What the analyzer guarantees of the model: the type of strings is one, every struct has a type of its own, and only
  classes extend classes.
\<close>

definition layout_model_ok :: "MirFileClass list \<Rightarrow> SemanticModel \<Rightarrow> bool" where
  "layout_model_ok files M \<longleftrightarrow>
     sm_string_type M < length (sm_types M) \<and> sty_kind (sm_types M ! sm_string_type M) = tyString \<and>
     (\<forall>i < length (sm_files M). kind_of M i = ftStruct \<longrightarrow>
        struct_type M (type_of M i) \<and>
        (\<forall>j < length (sm_files M). kind_of M j = ftStruct \<longrightarrow> type_of M j = type_of M i \<longrightarrow> j = i)) \<and>
     (\<forall>f \<in> set files. \<forall>b. mfc_base_file f = Some b \<longrightarrow>
        \<not> aggregate_kind (kind_of M (mfc_file f)) \<and> \<not> aggregate_kind (kind_of M b))"

definition numbered :: "MirFileClass list \<Rightarrow> SemanticModel \<Rightarrow> bool" where
  "numbered files M \<longleftrightarrow> length files \<le> length (sm_files M) \<and> (\<forall>i < length files. mfc_file (files ! i) = i)"

definition file_layout_ok ::
  "MirFileClass list \<Rightarrow> SemanticModel \<Rightarrow> TargetDataLayout \<Rightarrow> AbiTypeLayout list \<Rightarrow> FileLayout option list \<Rightarrow>
   FileId \<Rightarrow> FileLayout \<Rightarrow> bool" where
  "file_layout_ok files M T types layouts i l \<longleftrightarrow>
     layout_ok T types (aggregate_kind (kind_of M i)) l \<and>
     (\<forall>b. mfc_base_file (files ! i) = Some b \<longrightarrow>
        (\<exists>bl own. computed_layout layouts b = Some bl \<and>
           acl_fields (fl_storage l) = acl_fields (fl_storage bl) @ own \<and>
           map afl_symbol own = instance_symbols M (mfc_fields (files ! i))))"

text \<open>A file is laid out at most once: a file that is ready or done waits for nothing, and is not done when ready.\<close>

definition layout_inv :: "MirFileClass list \<Rightarrow> SemanticModel \<Rightarrow> TargetDataLayout \<Rightarrow> LayoutState \<Rightarrow> bool" where
  "layout_inv files M T s \<longleftrightarrow>
     length (ls_types s) = length (sm_types M) \<and> list_all (type_ok T) (ls_types s) \<and>
     string_type_ok T M (ls_types s) \<and>
     length (ls_layouts s) = length files \<and> length (ls_pending s) = length files \<and> distinct (ls_ready s) \<and>
     (\<forall>i \<in> set (ls_ready s). i < length files \<and> ls_pending s ! i \<le> 0 \<and> ls_layouts s ! i = None) \<and>
     (\<forall>i < length files. \<forall>l. ls_layouts s ! i = Some l \<longrightarrow>
        ls_pending s ! i \<le> 0 \<and> file_layout_ok files M T (ls_types s) (ls_layouts s) i l) \<and>
     (\<forall>i < length files. ls_layouts s ! i = None \<longrightarrow> kind_of M i = ftStruct \<longrightarrow>
        (\<forall>t. t = type_of M i \<or> nullable_of M (type_of M i) t \<longrightarrow> atl_size (ls_types s ! t) = 0))"

lemma release_dependents_ok:
  "release_dependents deps pending ready = Some (pending', ready') \<Longrightarrow>
   length pending' = length pending \<and> (\<forall>i < length pending. pending' ! i \<le> pending ! i) \<and>
   (\<forall>i. i \<in> set ready' \<longleftrightarrow> i \<in> set ready \<or> i < length pending \<and> pending ! i > 0 \<and> pending' ! i \<le> 0) \<and>
   (distinct ready \<longrightarrow> (\<forall>i \<in> set ready. i < length pending \<and> pending ! i \<le> 0) \<longrightarrow> distinct ready')"
proof (induction deps arbitrary: pending ready)
  case (Cons k deps)
  let ?pending = "pending[k := pending ! k - 1]"
  let ?ready = "if pending ! k - 1 = 0 then insort k ready else ready"
  from Cons.prems have k: "k < length pending"
    and rest: "release_dependents deps ?pending ?ready = Some (pending', ready')"
    by (auto simp: Let_def split: if_splits)
  note IH = Cons.IH [OF rest]
  have le: "\<forall>i < length pending. pending' ! i \<le> ?pending ! i" and len: "length pending' = length pending"
    using IH by auto
  have kle: "pending' ! k \<le> pending ! k - 1" using le k by (auto dest: spec [of _ k])
  show ?case
  proof (intro conjI allI impI)
    show "length pending' = length pending" by (fact len)
    show "pending' ! i \<le> pending ! i" if "i < length pending" for i
      using le that by (cases "i = k") (auto dest!: spec [of _ i])
    show "i \<in> set ready' \<longleftrightarrow> i \<in> set ready \<or> i < length pending \<and> pending ! i > 0 \<and> pending' ! i \<le> 0" for i
      using IH k kle by (cases "i = k") (auto simp: set_insort_key)
    assume d: "distinct ready" and r: "\<forall>i \<in> set ready. i < length pending \<and> pending ! i \<le> 0"
    have "distinct ?ready" using d r by (auto simp: distinct_insort)
    moreover have "\<forall>i \<in> set ?ready. i < length ?pending \<and> ?pending ! i \<le> 0"
      using r k by (auto simp: set_insort_key nth_list_update)
    ultimately show "distinct ready'" using IH by blast
  qed
qed auto

lemma layout_stepE:
  assumes "layout_step M files T dependents d index s = Some (Inr s')"
  obtains f l semantic types released where
    "index < length files" "f = files ! index"
    "lower_file_layout f M (ls_types s) T (ls_layouts s) d = Some (Inr l)"
    "semantic_file M (mfc_file f) = Some semantic"
    "record_struct M d semantic l (ls_types s) = Some (Inr types)"
    "index < length dependents" "released = dependents ! index"
    "release_dependents released (ls_pending s) (ls_ready s) = Some (ls_pending s', ls_ready s')"
    "ls_types s' = types" "ls_layouts s' = (ls_layouts s)[index := Some l]" "ls_completed s' = ls_completed s + 1"
proof -
  from assms obtain f l semantic types released where *:
    "index < length files" "f = files ! index"
    "lower_file_layout f M (ls_types s) T (ls_layouts s) d = Some (Inr l)"
    "semantic_file M (mfc_file f) = Some semantic"
    "record_struct M d semantic l (ls_types s) = Some (Inr types)"
    "index < length dependents" "released = dependents ! index"
    "release_dependents released (ls_pending s) (ls_ready s) = Some (ls_pending s', ls_ready s')"
    "ls_types s' = types" "ls_layouts s' = (ls_layouts s)[index := Some l]" "ls_completed s' = ls_completed s + 1"
    by (auto simp: layout_step_def at_index_eq_Some split: if_splits)
  then show thesis by (rule that)
qed

lemma file_layout_ok_extend:
  assumes "file_layout_ok files M T types layouts i l" "types_extend types types'"
    and "\<And>b. computed_layout layouts b \<noteq> None \<Longrightarrow> computed_layout layouts' b = computed_layout layouts b"
  shows "file_layout_ok files M T types' layouts' i l"
  using assms layout_ok_extend [OF _ assms(2)] unfolding file_layout_ok_def by (metis option.distinct(1))

lemma layout_step_inv:
  assumes step: "layout_step M files T dependents d index (s\<lparr>ls_ready := ready\<rparr>) = Some (Inr s')"
    and ready: "ls_ready s = index # ready" and inv: "layout_inv files M T s"
    and T: "target_ok T" and M: "layout_model_ok files M" and num: "numbered files M"
  shows "layout_inv files M T s'"
proof -
  let ?s = "s\<lparr>ls_ready := ready\<rparr>"
  from step obtain f l semantic types released where
    i: "index < length files" "f = files ! index"
    and low: "lower_file_layout f M (ls_types s) T (ls_layouts s) d = Some (Inr l)"
    and sem: "semantic_file M (mfc_file f) = Some semantic"
    and rec: "record_struct M d semantic l (ls_types s) = Some (Inr types)"
    and rel: "release_dependents released (ls_pending s) ready = Some (ls_pending s', ls_ready s')"
    and s': "ls_types s' = types" "ls_layouts s' = (ls_layouts s)[index := Some l]"
    by (auto elim!: layout_stepE)
  have none: "ls_layouts s ! index = None" "ls_pending s ! index \<le> 0" "index \<notin> set ready"
    using inv ready by (auto simp: layout_inv_def)
  have index: "mfc_file f = index" using num i by (simp add: numbered_def)
  have semantic: "semantic = sm_files M ! index" "index < length (sm_files M)"
    using sem index by (simp_all add: semantic_lookup_defs)
  have lens: "length (ls_layouts s) = length files" "length (ls_pending s) = length files"
    "length (ls_types s) = length (sm_types M)" using inv by (simp_all add: layout_inv_def)
  have ok_types: "list_all (type_ok T) (ls_types s)" "string_type_ok T M (ls_types s)"
    using inv by (simp_all add: layout_inv_def)
  have base_ok: "\<not> aggregate_kind (fs_kind semantic) \<and> \<not> aggregate_kind (kind_of M b)" if "mfc_base_file f = Some b" for b
    using M that i semantic index unfolding layout_model_ok_def by (metis nth_mem)
  have base: "layout_ok T (ls_types s) False bl"
    if b: "mfc_base_file f = Some b" and bl: "computed_layout (ls_layouts s) b = Some bl" for b bl
  proof -
    have "b < length files" "ls_layouts s ! b = Some bl"
      using bl lens by (auto simp: computed_layout_def at_index_eq_Some split: option.splits)
    then have "layout_ok T (ls_types s) (aggregate_kind (kind_of M b)) bl"
      using inv by (simp add: layout_inv_def file_layout_ok_def)
    then show ?thesis using base_ok [OF b] by simp
  qed
  have l: "layout_ok T (ls_types s) (aggregate_kind (fs_kind semantic)) l"
    by (rule lower_file_layout_ok(1) [OF low sem T ok_types]) (use base base_ok in auto)
  have fields: "\<exists>bl own. computed_layout (ls_layouts s) b = Some bl \<and>
      acl_fields (fl_storage l) = acl_fields (fl_storage bl) @ own \<and>
      map afl_symbol own = instance_symbols M (mfc_fields f)" if b: "mfc_base_file f = Some b" for b
    by (rule lower_file_layout_ok(3) [OF low sem T ok_types _ _ b]) (use base base_ok in auto)
  have zero: "atl_size (ls_types s ! t) = 0"
    if "fs_kind semantic = ftStruct" "t = fs_type semantic \<or> nullable_of M (fs_type semantic) t" for t
    using inv none i that unfolding layout_inv_def semantic by blast
  have struct: "struct_type M (fs_type semantic)" if "fs_kind semantic = ftStruct"
    using M that semantic unfolding layout_model_ok_def by blast
  note rec = record_struct_ok [OF rec ok_types(1) lens(3) l struct zero]
  have keep: "computed_layout (ls_layouts s') b = computed_layout (ls_layouts s) b"
    if "computed_layout (ls_layouts s) b \<noteq> None" for b
    using that none lens i
    by (cases "b = index") (auto simp: computed_layout_def at_index_def s'(2) split: if_splits)
  note rel = release_dependents_ok [OF rel]
  have ready_ok: "\<forall>j \<in> set ready. j < length files \<and> ls_pending s ! j \<le> 0 \<and> ls_layouts s ! j = None" "distinct ready"
    using inv ready by (auto simp: layout_inv_def)
  show ?thesis
    unfolding layout_inv_def
  proof (intro conjI ballI allI impI)
    show "length (ls_types s') = length (sm_types M)" using rec(2) lens s' by (simp add: types_extend_def)
    show "list_all (type_ok T) (ls_types s')" using rec(1) s' by simp
    show "string_type_ok T M (ls_types s')" using string_type_extend [OF ok_types(2) rec(2) T] s' by simp
    show "length (ls_layouts s') = length files" using lens s' by simp
    show "length (ls_pending s') = length files" using rel lens by simp
    show "distinct (ls_ready s')" using rel ready_ok lens by simp
  next
    fix j assume "j \<in> set (ls_ready s')"
    then consider "j \<in> set ready" | "j < length files" "ls_pending s ! j > 0" "ls_pending s' ! j \<le> 0"
      using rel lens by auto
    then have "j < length files \<and> ls_pending s' ! j \<le> 0 \<and> ls_layouts s' ! j = None"
    proof cases
      case 1
      then have j: "j < length files" "ls_pending s ! j \<le> 0" "ls_layouts s ! j = None" "j \<noteq> index"
        using ready_ok none by auto
      then have "ls_pending s' ! j \<le> 0" using rel lens by (metis order_trans)
      then show ?thesis using j s' by simp
    next
      case 2
      then have "j \<noteq> index" using none by auto
      moreover have "ls_layouts s ! j = None"
        using inv 2 unfolding layout_inv_def by (metis linorder_not_less not_Some_eq)
      ultimately show ?thesis using 2 s' by simp
    qed
    then show "j < length files" "ls_pending s' ! j \<le> 0" "ls_layouts s' ! j = None" by simp_all
  next
    fix j l' assume j: "j < length files" and l': "ls_layouts s' ! j = Some l'"
    have ok: "ls_pending s ! j \<le> 0 \<and> file_layout_ok files M T (ls_types s) (ls_layouts s) j l'"
    proof (cases "j = index")
      case True
      then have "l' = l" using l' s' lens i by simp
      then show ?thesis using True none l fields i semantic by (simp add: file_layout_ok_def)
    next
      case False
      then show ?thesis using inv j l' s' by (simp add: layout_inv_def)
    qed
    then show "ls_pending s' ! j \<le> 0" using rel lens j by (metis order_trans)
    show "file_layout_ok files M T (ls_types s') (ls_layouts s') j l'"
      using ok rec(2) keep unfolding s'(1) [symmetric] by (blast intro: file_layout_ok_extend)
  next
    fix j t assume j: "j < length files" "ls_layouts s' ! j = None" "kind_of M j = ftStruct"
      and t: "t = type_of M j \<or> nullable_of M (type_of M j) t"
    have jx: "j \<noteq> index" "ls_layouts s ! j = None" using j s' lens i by (auto simp: nth_list_update split: if_splits)
    have z: "atl_size (ls_types s ! t) = 0" using inv j jx t unfolding layout_inv_def by blast
    show "atl_size (ls_types s' ! t) = 0"
    proof (cases "fs_kind semantic = ftStruct")
      case True
      have jl: "j < length (sm_files M)" using j num by (simp add: numbered_def)
      have sj: "struct_type M (type_of M j)" using M jl j unfolding layout_model_ok_def by blast
      have ne: "type_of M j \<noteq> fs_type semantic"
        using M jl j semantic True jx unfolding layout_model_ok_def by metis
      have "t < length (ls_types s)" "t \<noteq> fs_type semantic" "\<not> nullable_of M (fs_type semantic) t"
        using t ne sj struct [OF True] lens by auto
      then have "types ! t = ls_types s ! t" using rec(3) [of t] True by blast
      then show ?thesis using z s' by simp
    next
      case False
      then show ?thesis using rec(4) z s' by simp
    qed
  qed
qed

section \<open>The dependencies between files\<close>

definition dependencies :: "SemanticModel \<Rightarrow> MirFileClass list \<Rightarrow> FileId \<Rightarrow> FileId list" where
  "dependencies M files i =
     (case file_dependencies M empty_engine (files ! i) of Some (Inr ds) \<Rightarrow> ds | _ \<Rightarrow> [])"

definition dependents_upto :: "SemanticModel \<Rightarrow> MirFileClass list \<Rightarrow> nat \<Rightarrow> nat list list" where
  "dependents_upto M files k =
     map (\<lambda>j. filter (\<lambda>i. j \<in> set (dependencies M files i)) [0..<k]) [0..<length files]"

text \<open>What the traversal starts from, once the first \<open>k\<close> files have been entered.\<close>

definition order_upto :: "SemanticModel \<Rightarrow> MirFileClass list \<Rightarrow> nat \<Rightarrow> FileOrder" where
  "order_upto M files k =
     \<lparr>fo_dependents = dependents_upto M files k,
      fo_pending = map (\<lambda>i. if i < k then int (length (dependencies M files i)) else 0) [0..<length files],
      fo_ready = filter (\<lambda>i. dependencies M files i = []) [0..<k]\<rparr>"

lemma field_dependencies_engine:
  "field_dependencies M d fs = Some (Inr ds) \<Longrightarrow> field_dependencies M d' fs = Some (Inr ds)"
proof (induction fs arbitrary: ds)
  case (Cons a fs)
  from Cons.prems obtain symbol where symbol: "semantic_symbol M (mf_symbol a) = Some symbol" by auto
  show ?case
  proof (cases "sym_is_static symbol")
    case True
    then show ?thesis using Cons symbol by simp
  next
    case False
    with Cons.prems symbol obtain st where st: "inline_struct_type (sym_type symbol) M = Some st" by auto
    show ?thesis
    proof (cases st)
      case None
      then show ?thesis using Cons symbol False st by simp
    next
      case (Some t)
      with Cons.prems symbol False st obtain type where type: "semantic_type M t = Some type" by auto
      with Cons.prems symbol False st Some obtain owner where "sty_file type = Some owner"
        by (cases "sty_file type") (auto simp: abi_fail_def)
      then show ?thesis using Cons symbol False st Some type by auto
    qed
  qed
qed simp

lemma file_dependencies_eq:
  "file_dependencies M d (files ! i) = Some (Inr ds) \<Longrightarrow> dependencies M files i = ds \<and> distinct ds"
proof -
  assume "file_dependencies M d (files ! i) = Some (Inr ds)"
  then obtain owners where owners: "field_dependencies M d (mfc_fields (files ! i)) = Some (Inr owners)"
    and ds: "ds = remdups (sort ((case mfc_base_file (files ! i) of None \<Rightarrow> [] | Some b \<Rightarrow> [b]) @ owners))"
    by (auto simp: file_dependencies_def)
  have "field_dependencies M empty_engine (mfc_fields (files ! i)) = Some (Inr owners)"
    by (rule field_dependencies_engine [OF owners])
  then show ?thesis using ds by (simp add: dependencies_def file_dependencies_def lbind_def)
qed

lemma add_dependents_eq:
  "add_dependents d index ds dependents = Some (Inr dependents') \<Longrightarrow> distinct ds \<Longrightarrow>
   (\<forall>j \<in> set ds. j < length dependents) \<and> length dependents' = length dependents \<and>
   (\<forall>j < length dependents. dependents' ! j = dependents ! j @ (if j \<in> set ds then [index] else []))"
proof (induction ds arbitrary: dependents)
  case (Cons k ds)
  then have k: "k < length dependents" by (auto simp: abi_fail_def split: if_splits)
  with Cons.prems have rest: "add_dependents d index ds (dependents[k := dependents ! k @ [index]]) = Some (Inr dependents')"
    by simp
  show ?case using Cons.IH [OF rest] Cons.prems(2) k by (auto simp: nth_list_update)
qed simp

lemma insort_above: "(\<And>x. x \<in> set xs \<Longrightarrow> x < k) \<Longrightarrow> insort k xs = xs @ [k]" for k :: nat
proof (induction xs)
  case (Cons x xs)
  then have "x < k" "insort k xs = xs @ [k]" by simp_all
  then show ?case by simp
qed simp

lemma order_step:
  assumes "file_dependencies M d (files ! k) = Some (Inr ds)" "k < length files"
    and "add_dependents d k ds (dependents_upto M files k) = Some (Inr dependents)"
  shows "\<lparr>fo_dependents = dependents, fo_pending = (fo_pending (order_upto M files k))[k := int (length ds)],
          fo_ready = (if ds = [] then insort k (fo_ready (order_upto M files k)) else fo_ready (order_upto M files k))\<rparr> =
         order_upto M files (Suc k)"
    and "\<forall>j \<in> set ds. j < length files"
proof -
  have ds: "dependencies M files k = ds" "distinct ds" using file_dependencies_eq [OF assms(1)] by auto
  note add = add_dependents_eq [OF assms(3) ds(2)]
  have len: "length (dependents_upto M files k) = length files" by (simp add: dependents_upto_def)
  have "dependents = dependents_upto M files (Suc k)"
    by (rule nth_equalityI) (use add len ds in \<open>simp_all add: dependents_upto_def\<close>)
  moreover have "(fo_pending (order_upto M files k))[k := int (length ds)] = fo_pending (order_upto M files (Suc k))"
    by (rule nth_equalityI) (auto simp: order_upto_def nth_list_update ds less_Suc_eq)
  moreover have "insort k (fo_ready (order_upto M files k)) = fo_ready (order_upto M files k) @ [k]"
    by (rule insort_above) (auto simp: order_upto_def)
  ultimately show "\<lparr>fo_dependents = dependents, fo_pending = (fo_pending (order_upto M files k))[k := int (length ds)],
          fo_ready = (if ds = [] then insort k (fo_ready (order_upto M files k)) else fo_ready (order_upto M files k))\<rparr> =
         order_upto M files (Suc k)"
    by (auto simp: order_upto_def ds)
  show "\<forall>j \<in> set ds. j < length files" using add len by simp
qed

lemma order_files_eq:
  assumes "order_files M d k rest (order_upto M files k) = Some (Inr ord)" "rest = drop k files" "k \<le> length files"
  shows "ord = order_upto M files (length files) \<and>
    (\<forall>i. k \<le> i \<longrightarrow> i < length files \<longrightarrow>
       mfc_file (files ! i) = i \<and> i < length (sm_files M) \<and>
       file_dependencies M d (files ! i) = Some (Inr (dependencies M files i)) \<and>
       (\<forall>j \<in> set (dependencies M files i). j < length files))"
  using assms
proof (induction rest arbitrary: k)
  case Nil
  then show ?case by simp
next
  case (Cons f rest)
  have k: "k < length files" using Cons.prems(2,3) by (cases "k < length files") auto
  then have f: "f = files ! k" and rest: "rest = drop (Suc k) files"
    using Cons.prems(2) by (simp_all add: Cons_nth_drop_Suc [symmetric])
  from Cons.prems(1) f obtain ds dependents where
    num: "mfc_file (files ! k) = k" "k < length (sm_files M)"
    and ds: "file_dependencies M d (files ! k) = Some (Inr ds)"
    and add: "add_dependents d k ds (dependents_upto M files k) = Some (Inr dependents)"
    and next_order: "order_files M d (Suc k) rest
      \<lparr>fo_dependents = dependents, fo_pending = (fo_pending (order_upto M files k))[k := int (length ds)],
       fo_ready = (if ds = [] then insort k (fo_ready (order_upto M files k)) else fo_ready (order_upto M files k))\<rparr> =
      Some (Inr ord)"
    by (auto simp: abi_fail_def order_upto_def split: if_splits)
  note step = order_step [OF ds k add]
  from next_order have "order_files M d (Suc k) rest (order_upto M files (Suc k)) = Some (Inr ord)"
    by (simp only: step(1))
  from Cons.IH [OF this rest] k have IH: "ord = order_upto M files (length files)"
    "\<And>i. Suc k \<le> i \<Longrightarrow> i < length files \<Longrightarrow>
       mfc_file (files ! i) = i \<and> i < length (sm_files M) \<and>
       file_dependencies M d (files ! i) = Some (Inr (dependencies M files i)) \<and>
       (\<forall>j \<in> set (dependencies M files i). j < length files)" by simp_all
  have "dependencies M files k = ds" using file_dependencies_eq [OF ds] by simp
  then have "mfc_file (files ! i) = i \<and> i < length (sm_files M) \<and>
       file_dependencies M d (files ! i) = Some (Inr (dependencies M files i)) \<and>
       (\<forall>j \<in> set (dependencies M files i). j < length files)" if "k \<le> i" "i < length files" for i
    using IH(2) [of i] num ds step(2) that by (cases "i = k") auto
  with IH(1) show ?case by blast
qed

section \<open>The layouts of a lowered module\<close>

lemma lower_layouts_inv:
  "lower_layouts M files T dependents d s = Some (Inr s') \<Longrightarrow> layout_inv files M T s \<Longrightarrow>
   target_ok T \<Longrightarrow> layout_model_ok files M \<Longrightarrow> numbered files M \<Longrightarrow> layout_inv files M T s'"
proof (induction M files T dependents d s rule: lower_layouts.induct)
  case (1 M files T dependents d s)
  show ?case
  proof (cases "ls_ready s")
    case Nil
    then show ?thesis using "1.prems" by (simp add: lower_layouts.simps [of M files T dependents d s])
  next
    case (Cons index ready)
    with "1.prems"(1) obtain s1 where
      step: "layout_step M files T dependents d index (s\<lparr>ls_ready := ready\<rparr>) = Some (Inr s1)"
      and rest: "lower_layouts M files T dependents d s1 = Some (Inr s')"
      by (auto simp: lower_layouts.simps [of M files T dependents d s])
    have "layout_inv files M T s1" by (rule layout_step_inv [OF step Cons]) (use "1.prems" in simp_all)
    with "1.IH" [OF Cons step rest] "1.prems" show ?thesis by simp
  qed
qed

abbreviation initial_state :: "MirFileClass list \<Rightarrow> SemanticModel \<Rightarrow> AbiTypeLayout list \<Rightarrow> LayoutState" where
  "initial_state files M types \<equiv>
     \<lparr>ls_types = types, ls_layouts = replicate (length files) None,
      ls_pending = fo_pending (order_upto M files (length files)),
      ls_ready = fo_ready (order_upto M files (length files)), ls_completed = 0, ls_map_entries = 0\<rparr>"

definition dependencies_in_range :: "SemanticModel \<Rightarrow> MirFileClass list \<Rightarrow> bool" where
  "dependencies_in_range M files \<longleftrightarrow>
     (\<forall>i < length files. distinct (dependencies M files i) \<and> (\<forall>j \<in> set (dependencies M files i). j < length files))"

lemma order_start:
  "\<lparr>fo_dependents = replicate (length files) [], fo_pending = replicate (length files) 0, fo_ready = []\<rparr> =
   order_upto M files 0"
  by (simp add: order_upto_def dependents_upto_def map_replicate_const)

lemma order_files_numbered:
  assumes "order_files M d 0 files (order_upto M files 0) = Some (Inr ord)"
  shows "ord = order_upto M files (length files)" "numbered files M" "dependencies_in_range M files"
    and "i < length files \<Longrightarrow> file_dependencies M d (files ! i) = Some (Inr (dependencies M files i))"
proof -
  from order_files_eq [OF assms] show o: "ord = order_upto M files (length files)" by simp
  have all: "mfc_file (files ! i) = i \<and> i < length (sm_files M) \<and>
       file_dependencies M d (files ! i) = Some (Inr (dependencies M files i)) \<and>
       (\<forall>j \<in> set (dependencies M files i). j < length files)" if "i < length files" for i
    using order_files_eq [OF assms] that by simp
  have "length files \<le> length (sm_files M)" using all [of "length files - 1"] by (cases "length files") auto
  then show "numbered files M" using all by (simp add: numbered_def)
  show "dependencies_in_range M files"
    unfolding dependencies_in_range_def using all file_dependencies_eq by blast
  show "i < length files \<Longrightarrow> file_dependencies M d (files ! i) = Some (Inr (dependencies M files i))" using all by simp
qed

lemma traverse_filesE:
  assumes "traverse_files files M types T d = Some (Inr s)"
  obtains "numbered files M" "dependencies_in_range M files"
    "lower_layouts M files T (dependents_upto M files (length files)) d (initial_state files M types) = Some (Inr s)"
proof -
  from assms obtain ord where ord: "order_files M d 0 files (order_upto M files 0) = Some (Inr ord)"
    and low: "lower_layouts M files T (fo_dependents ord) d
       \<lparr>ls_types = types, ls_layouts = replicate (length files) None, ls_pending = fo_pending ord,
        ls_ready = fo_ready ord, ls_completed = 0, ls_map_entries = 0\<rparr> = Some (Inr s)"
    by (auto simp: traverse_files_def order_start [of files M])
  note o = order_files_numbered [OF ord]
  have "fo_dependents ord = dependents_upto M files (length files)" by (simp add: o(1) order_upto_def)
  with low o show thesis by (intro that) auto
qed

lemma initial_state_inv:
  assumes "lower_types M T [0..<length (sm_types M)] [] = Some types" "layout_model_ok files M" "numbered files M"
  shows "layout_inv files M T (initial_state files M types)"
proof -
  note ok = lower_types_ok [OF assms(1)]
  have "atl_size (types ! t) = 0"
    if "i < length files" "kind_of M i = ftStruct" "t = type_of M i \<or> nullable_of M (type_of M i) t" for i t
  proof -
    have "struct_type M (type_of M i)"
      using that assms(2,3) unfolding layout_model_ok_def numbered_def by (meson order_less_le_trans)
    then show ?thesis using that(3) ok(4,5) by blast
  qed
  then show ?thesis
    using ok(1-3) assms(2) by (auto simp: layout_inv_def order_upto_def layout_model_ok_def)
qed

text \<open>What a descriptor that reaches the runtime satisfies.\<close>

definition descriptor_ok :: "TargetDataLayout \<Rightarrow> AbiTypeDescriptor \<Rightarrow> bool" where
  "descriptor_ok T descr \<longleftrightarrow>
     slots_ok T (unat (object_header T False)) (unat (atd_size descr)) (atd_reference_offsets descr) \<and>
     unat (object_header T False) \<le> unat (atd_size descr) \<and>
     is_power_of_two_u64 (atd_alignment descr) \<and> pointer_alignment T dvd unat (atd_alignment descr) \<and>
     unat (atd_alignment descr) dvd unat (atd_size descr)"

lemma lower_type_descriptor_ok:
  assumes "lower_type_descriptor (fl_storage l) symbol (fl_references l) parent s M = Some descr"
    and "layout_ok T types False l"
  shows "descriptor_ok T descr"
proof -
  from assms(1) have "atd_size descr = acl_size (fl_storage l)" "atd_alignment descr = acl_alignment (fl_storage l)"
    "atd_reference_offsets descr = fl_references l"
    by (auto simp: lower_type_descriptor_def bind_eq_Some_conv)
  then show ?thesis
    using assms(2) by (auto simp: descriptor_ok_def layout_ok_def storage_ok_def word_le_nat_alt)
qed

lemma lower_value_box_descriptor_ok:
  assumes "lower_value_box_descriptor t v symbol object_file s T = Some descr" "type_ok T v" "target_ok T"
  shows "descriptor_ok T descr"
proof -
  let ?header = "sa_size (tl_pointer T) * tl_object_header_words T"
  let ?a = "max (sa_alignment (tl_pointer T)) (atl_alignment v)"
  from assms(1) obtain payload e sz references where
    p: "checked_align ?header (atl_alignment v) = Some payload"
    and e: "checked_add payload (atl_size v) = Some e" and z: "checked_align e ?a = Some sz"
    and r: "shift_offsets payload (atl_reference_offsets v) = Some references"
    and descr: "atd_size descr = sz" "atd_alignment descr = ?a" "atd_reference_offsets descr = references"
    by (auto simp: lower_value_box_descriptor_def Let_def bind_eq_Some_conv split: if_splits)
  have header: "?header = object_header T False" by (simp add: object_header_def)
  note p' = checked_align_unat [OF p] and e' = checked_add_unat [OF e] and z' = checked_align_unat [OF z]
  have bound: "unat payload + unat (atl_size v) \<le> unat sz" using e' z' by simp
  have "pointer_alignment T dvd unat payload" if "atl_reference_offsets v \<noteq> []"
    using assms(2) that p'(2) by (auto simp: type_ok_def intro: dvd_trans)
  then have "slots_ok T (unat (object_header T False)) (unat sz) references"
    using assms(2) p' header by (intro slots_ok_shift [OF r _ _ bound]) (auto simp: type_ok_def slots_ok_def)
  then show ?thesis
    using p' e' z' max_alignment(2) [OF target_okD(1) [OF assms(3)] p'(1)] header by (simp add: descriptor_ok_def descr)
qed

lemma lower_filesE:
  "lower_files M types T layouts d files = Some (Inr xs) \<Longrightarrow>
   length xs = length files \<and> (\<forall>i < length files. lower_file M types T layouts d (files ! i) = Some (Inr (xs ! i)))"
proof (induction files arbitrary: xs)
  case (Cons f files)
  then obtain x ys where x: "lower_file M types T layouts d f = Some (Inr x)" "xs = x # ys"
    and ys: "lower_files M types T layouts d files = Some (Inr ys)" by auto
  then show ?case using Cons.IH [OF ys] by (auto simp: nth_Cons split: nat.splits)
qed simp

lemma lower_fileE:
  assumes "lower_file M types T layouts d f = Some (Inr x)"
  obtains s l where "semantic_file M (mfc_file f) = Some s" "computed_layout layouts (mfc_file f) = Some l"
    "afc_file x = mfc_file f" "afc_base_file x = mfc_base_file f" "afc_layout x = fl_storage l"
    "file_descriptor M types T d f s l = Some (Inr (afc_type_descriptor x))"
  using assms by (auto simp: lower_file_def intro: that)

lemma file_descriptor_ok:
  assumes "file_descriptor M types T d f s l = Some (Inr (Some descr))" "atd_mangled_name descr \<noteq> []"
    and "list_all (type_ok T) types" "target_ok T" "layout_ok T types (aggregate_kind (fs_kind s)) l"
  shows "descriptor_ok T descr"
proof -
  from assms(1) consider
    (box) v symbol object_file where "lower_value_box_descriptor (fs_type s) v symbol object_file s T = Some descr"
      "v \<in> set types"
  | (descriptor) symbol where
      "lower_type_descriptor (fl_storage l) symbol (fl_references l) (mfc_base_file f) s M = Some descr"
    by (auto simp: file_descriptor_def abi_fail_def at_index_eq_Some split: option.splits if_splits)
  then show ?thesis
  proof cases
    case box
    then show ?thesis using assms(3,4) by (auto simp: list_all_iff intro: lower_value_box_descriptor_ok)
  next
    case descriptor
    then have "\<not> aggregate_kind (fs_kind s)"
      using assms(2) by (auto simp: lower_type_descriptor_def bind_eq_Some_conv split: if_splits)
    then show ?thesis using lower_type_descriptor_ok [OF descriptor] assms(5) by simp
  qed
qed

definition abi_class_ok :: "SemanticModel \<Rightarrow> MirFileClass list \<Rightarrow> AbiModule \<Rightarrow> FileId \<Rightarrow> bool" where
  "abi_class_ok M files abi i \<longleftrightarrow>
     (let f = abi_files abi ! i; layout = afc_layout f in
      fields_ok (abi_types abi) (unat (acl_header_size layout)) (unat (acl_size layout)) (acl_fields layout) \<and>
      unat (acl_alignment layout) dvd unat (acl_size layout) \<and>
      (\<forall>b. afc_base_file f = Some b \<longrightarrow>
         (\<exists>own. acl_fields layout = acl_fields (afc_layout (abi_files abi ! b)) @ own \<and>
            map afl_symbol own = instance_symbols M (mfc_fields (files ! i)))) \<and>
      (\<forall>descr. afc_type_descriptor f = Some descr \<longrightarrow> atd_mangled_name descr \<noteq> [] \<longrightarrow>
         descriptor_ok (abi_target abi) descr))"

lemma lower_to_abi_target:
  assumes "lower_to_abi files M T d = Some (Inr abi)"
  shows "target_ok T" "abi_target abi = T"
proof -
  from assms have v: "is_valid_data_layout T" "sa_size (tl_pointer T) mod sa_alignment (tl_pointer T) = 0"
    by (auto simp: lower_to_abi_def abi_fail_def split: if_splits)
  from arg_cong [where f = unat, OF v(2)] have "pointer_size T mod pointer_alignment T = 0" by (simp only: unat_mod) simp
  with v(1) show "target_ok T" by (simp add: target_ok_def mod_eq_0_iff_dvd)
  show "abi_target abi = T" using assms by (auto simp: lower_to_abi_def abi_fail_def split: if_splits)
qed

lemma lower_to_abi_layouts:
  assumes low: "lower_to_abi files M T d = Some (Inr abi)" and M: "layout_model_ok files M"
  shows "length (abi_files abi) = length files \<and> (\<forall>i < length files. abi_class_ok M files abi i)"
proof -
  note T = lower_to_abi_target [OF low]
  from low obtain types s where types: "lower_types M T [0..<length (sm_types M)] [] = Some types"
    and lay: "lay_out_files files M types T d = Some (Inr s)"
    and files: "lower_files M (ls_types s) T (ls_layouts s) d files = Some (Inr (abi_files abi))"
    and abi: "abi_types abi = ls_types s"
    by (auto simp: lower_to_abi_def abi_fail_def split: if_splits)
  from lay have "traverse_files files M types T d = Some (Inr s)"
    by (auto simp: lay_out_files_def abi_fail_def split: if_splits)
  then obtain num: "numbered files M" and run: "lower_layouts M files T (dependents_upto M files (length files)) d
      (initial_state files M types) = Some (Inr s)" by (rule traverse_filesE)
  have inv: "layout_inv files M T s"
    by (rule lower_layouts_inv [OF run initial_state_inv [OF types M num] T(1) M num])
  have xs: "length (abi_files abi) = length files"
    "\<And>i. i < length files \<Longrightarrow> lower_file M (ls_types s) T (ls_layouts s) d (files ! i) = Some (Inr (abi_files abi ! i))"
    using lower_filesE [OF files] by auto
  have layout_at: "afc_layout (abi_files abi ! b) = fl_storage bl"
    if "computed_layout (ls_layouts s) b = Some bl" for b bl
  proof -
    have b: "b < length files" using that inv by (auto simp: computed_layout_def at_index_def layout_inv_def split: if_splits)
    from xs(2) [OF this] show ?thesis
      by (rule lower_fileE) (use num b that in \<open>auto simp: numbered_def\<close>)
  qed
  have "abi_class_ok M files abi i" if i: "i < length files" for i
  proof -
    from xs(2) [OF i] obtain sem l where sem: "semantic_file M (mfc_file (files ! i)) = Some sem"
      and l: "computed_layout (ls_layouts s) (mfc_file (files ! i)) = Some l"
      and x: "afc_base_file (abi_files abi ! i) = mfc_base_file (files ! i)"
        "afc_layout (abi_files abi ! i) = fl_storage l"
        "file_descriptor M (ls_types s) T d (files ! i) sem l = Some (Inr (afc_type_descriptor (abi_files abi ! i)))"
      by (rule lower_fileE)
    have idx: "mfc_file (files ! i) = i" using num i by (simp add: numbered_def)
    have sem_i: "sem = sm_files M ! i" using sem idx by (simp add: semantic_lookup_defs)
    have "ls_layouts s ! i = Some l"
      using l idx by (auto simp: computed_layout_def at_index_def split: if_splits)
    then have ok: "file_layout_ok files M T (ls_types s) (ls_layouts s) i l" using inv i by (simp add: layout_inv_def)
    then have lok: "layout_ok T (ls_types s) (aggregate_kind (fs_kind sem)) l" by (simp add: file_layout_ok_def sem_i)
    have types_ok: "list_all (type_ok T) (ls_types s)" using inv by (simp add: layout_inv_def)
    have "\<forall>descr. afc_type_descriptor (abi_files abi ! i) = Some descr \<longrightarrow> atd_mangled_name descr \<noteq> [] \<longrightarrow> descriptor_ok T descr"
      using file_descriptor_ok [OF _ _ types_ok T(1) lok] x(3) by auto
    moreover have "\<forall>b. mfc_base_file (files ! i) = Some b \<longrightarrow>
         (\<exists>own. acl_fields (fl_storage l) = acl_fields (afc_layout (abi_files abi ! b)) @ own \<and>
            map afl_symbol own = instance_symbols M (mfc_fields (files ! i)))"
      using ok layout_at unfolding file_layout_ok_def by fastforce
    ultimately show ?thesis
      using lok by (simp add: abi_class_ok_def Let_def x abi T(2) layout_ok_def storage_ok_def)
  qed
  then show ?thesis using xs(1) by simp
qed

end
