(* ===== verification/Abi_Traversal.thy ===== *)
theory Abi_Traversal
  imports Abi_Lowering
begin

text \<open>
  The order in which \<^verbatim>\<open>lower_to_abi\<close> lays files out: the lemmas show that it reads no
  missing layout and no id outside its table, and that it reaches every file exactly when the dependencies
  have no cycle. A sample module shows that the hypotheses can hold.
\<close>

section \<open>The traversal reaches every file\<close>

abbreviation missing :: "SemanticModel \<Rightarrow> MirFileClass list \<Rightarrow> LayoutState \<Rightarrow> FileId \<Rightarrow> FileId set" where
  "missing M files s i \<equiv> {j \<in> set (dependencies M files i). ls_layouts s ! j = None}"

text \<open>
  The pending count of a file is the number of its dependencies without a layout, and the files that are done were
  done after all of their dependencies.
\<close>

definition order_inv :: "MirFileClass list \<Rightarrow> SemanticModel \<Rightarrow> LayoutState \<Rightarrow> bool" where
  "order_inv files M s \<longleftrightarrow>
     length (ls_layouts s) = length files \<and> length (ls_pending s) = length files \<and> distinct (ls_ready s) \<and>
     (\<forall>i < length files. ls_pending s ! i = int (card (missing M files s i))) \<and>
     (\<forall>i. i \<in> set (ls_ready s) \<longleftrightarrow> i < length files \<and> ls_layouts s ! i = None \<and> ls_pending s ! i = 0) \<and>
     ls_completed s = card {i. i < length files \<and> ls_layouts s ! i \<noteq> None} \<and>
     (\<exists>rank. \<forall>i < length files. ls_layouts s ! i \<noteq> None \<longrightarrow>
        rank i < ls_completed s \<and>
        (\<forall>j \<in> set (dependencies M files i). ls_layouts s ! j \<noteq> None \<and> rank j < rank i))"

lemma release_distinct:
  "distinct deps \<Longrightarrow> \<forall>i \<in> set deps. i < length pending \<Longrightarrow> distinct ready \<Longrightarrow> \<forall>i \<in> set deps. pending ! i = 1 \<longrightarrow> i \<notin> set ready \<Longrightarrow>
   \<exists>pending' ready'. release_dependents deps pending ready = Some (pending', ready') \<and>
     length pending' = length pending \<and> distinct ready' \<and>
     (\<forall>i < length pending. pending' ! i = pending ! i - of_bool (i \<in> set deps)) \<and>
     set ready' = set ready \<union> {i \<in> set deps. pending ! i = 1}"
proof (induction deps arbitrary: pending ready)
  case (Cons k deps)
  let ?pending = "pending[k := pending ! k - 1]"
  let ?ready = "if pending ! k - 1 = 0 then insort k ready else ready"
  have k: "k < length pending" "k \<notin> set deps" using Cons.prems by auto
  have d1: "distinct deps" and d2: "\<forall>i \<in> set deps. i < length ?pending" using Cons.prems by auto
  have d3: "distinct ?ready" using Cons.prems k by (auto simp: distinct_insort)
  have d4: "\<forall>i \<in> set deps. ?pending ! i = 1 \<longrightarrow> i \<notin> set ?ready"
    using Cons.prems k by (auto simp: set_insort_key nth_list_update)
  obtain pending' ready' where
    rel: "release_dependents deps ?pending ?ready = Some (pending', ready')"
    and len: "length pending' = length ?pending" and dist: "distinct ready'"
    and val: "\<forall>i < length ?pending. pending' ! i = ?pending ! i - of_bool (i \<in> set deps)"
    and ready': "set ready' = set ?ready \<union> {i \<in> set deps. ?pending ! i = 1}"
    using Cons.IH [OF d1 d2 d3 d4] by (elim exE conjE) (rule that)
  have "\<forall>i < length pending. pending' ! i = pending ! i - of_bool (i \<in> set (k # deps))"
    using val k by (auto simp: nth_list_update)
  moreover have "set ready' = set ready \<union> {i \<in> set (k # deps). pending ! i = 1}"
    using ready' k by (auto simp: set_insort_key nth_list_update split: if_splits)
  moreover have "release_dependents (k # deps) pending ready = Some (pending', ready')"
    using rel k by (simp add: Let_def)
  ultimately show ?case using len dist by (metis length_list_update)
qed simp

lemma order_inv_step:
  assumes step: "layout_step M files T (dependents_upto M files (length files)) d index (s\<lparr>ls_ready := ready\<rparr>) = Some (Inr s')"
    and ready: "ls_ready s = index # ready" and inv: "order_inv files M s" and deps: "dependencies_in_range M files"
  shows "order_inv files M s'"
proof -
  let ?n = "length files"
  let ?rel = "filter (\<lambda>i. index \<in> set (dependencies M files i)) [0..<?n]"
  from step obtain l where i: "index < ?n"
    and rel: "release_dependents (dependents_upto M files ?n ! index) (ls_pending s) ready = Some (ls_pending s', ls_ready s')"
    and s': "ls_layouts s' = (ls_layouts s)[index := Some l]" "ls_completed s' = ls_completed s + 1"
    by (auto elim!: layout_stepE)
  have lens: "length (ls_layouts s) = ?n" "length (ls_pending s) = ?n" using inv by (simp_all add: order_inv_def)
  have released: "dependents_upto M files ?n ! index = ?rel" using i by (simp add: dependents_upto_def)
  have index: "ls_layouts s ! index = None" "ls_pending s ! index = 0"
    using inv ready unfolding order_inv_def by auto
  have rest: "distinct ready" "index \<notin> set ready"
    "\<And>j. j \<in> set ready \<longleftrightarrow> j \<noteq> index \<and> j < ?n \<and> ls_layouts s ! j = None \<and> ls_pending s ! j = 0"
    using inv ready unfolding order_inv_def by auto
  obtain pending' ready' where r: "release_dependents ?rel (ls_pending s) ready = Some (pending', ready')"
    "length pending' = ?n" "distinct ready'"
    "\<forall>j < ?n. pending' ! j = ls_pending s ! j - of_bool (j \<in> set ?rel)"
    "set ready' = set ready \<union> {j \<in> set ?rel. ls_pending s ! j = 1}"
    using release_distinct [of ?rel "ls_pending s" ready] rest lens by auto
  have p': "ls_pending s' = pending'" "ls_ready s' = ready'" using r(1) rel released by simp_all
  have miss: "missing M files s' j = missing M files s j - {index}" if "j < ?n" for j
    using deps that lens i s'(1) by (auto simp: dependencies_in_range_def nth_list_update split: if_splits)
  have pend: "ls_pending s' ! j = int (card (missing M files s' j))" if j: "j < ?n" for j
  proof -
    have "index \<in> missing M files s j \<longleftrightarrow> j \<in> set ?rel" using index j by auto
    moreover have "ls_pending s ! j = int (card (missing M files s j))" using inv j by (simp add: order_inv_def)
    moreover have "card (missing M files s j) > 0" if "index \<in> missing M files s j"
      using that by (auto simp: card_gt_0_iff)
    ultimately show ?thesis
      using r(4) j miss [OF j] p' by (auto simp: card_Diff_singleton_if of_nat_diff)
  qed
  have ready_iff: "j \<in> set (ls_ready s') \<longleftrightarrow> j < ?n \<and> ls_layouts s' ! j = None \<and> ls_pending s' ! j = 0" for j
  proof -
    have open_deps: "ls_layouts s ! j = None" if "j < ?n" "index \<in> set (dependencies M files j)"
    proof (rule ccontr)
      assume "ls_layouts s ! j \<noteq> None"
      then have "ls_layouts s ! index \<noteq> None" using inv that unfolding order_inv_def by metis
      then show False using index by simp
    qed
    have "ls_pending s ! j \<noteq> 0" if "j < ?n" "index \<in> set (dependencies M files j)"
    proof -
      have "index \<in> missing M files s j" using that index by simp
      then have "card (missing M files s j) \<noteq> 0" by (auto simp: card_eq_0_iff)
      then show ?thesis using inv that by (simp add: order_inv_def)
    qed
    then show ?thesis
      using rest(3) [of j] r(4,5) p' s'(1) lens i index(2) open_deps
      by (cases "j < ?n"; cases "j = index") auto
  qed
  have done_set: "{j. j < ?n \<and> ls_layouts s' ! j \<noteq> None} = insert index {j. j < ?n \<and> ls_layouts s ! j \<noteq> None}"
    using i lens s'(1) by (auto simp: nth_list_update split: if_splits)
  have completed: "ls_completed s' = card {j. j < ?n \<and> ls_layouts s' ! j \<noteq> None}"
    using inv index unfolding done_set s'(2) by (simp add: order_inv_def)
  from inv obtain rank where rank: "\<And>j. j < ?n \<Longrightarrow> ls_layouts s ! j \<noteq> None \<Longrightarrow> rank j < ls_completed s \<and>
      (\<forall>k \<in> set (dependencies M files j). ls_layouts s ! k \<noteq> None \<and> rank k < rank j)"
    unfolding order_inv_def by blast
  let ?rank = "rank(index := ls_completed s)"
  have "ls_pending s ! index = int (card (missing M files s index))" using inv i by (simp add: order_inv_def)
  then have "missing M files s index = {}" using index by simp
  then have index_deps: "ls_layouts s ! k \<noteq> None" if "k \<in> set (dependencies M files index)" for k
    using that \<open>missing M files s index = {}\<close> by (metis (mono_tags, lifting) empty_Collect_eq)
  have "?rank j < ls_completed s' \<and> (\<forall>k \<in> set (dependencies M files j). ls_layouts s' ! k \<noteq> None \<and> ?rank k < ?rank j)"
    if j: "j < ?n" "ls_layouts s' ! j \<noteq> None" for j
  proof (cases "j = index")
    case True
    then show ?thesis
      using index_deps index rank deps i lens s' unfolding dependencies_in_range_def
      by (auto simp: nth_list_update)
  next
    case False
    then have old: "ls_layouts s ! j \<noteq> None" using j s'(1) by simp
    show ?thesis
    proof (intro conjI ballI)
      show "?rank j < ls_completed s'" using rank [OF j(1) old] False s'(2) by simp
      fix k assume k: "k \<in> set (dependencies M files j)"
      then have "ls_layouts s ! k \<noteq> None" "rank k < rank j" using rank [OF j(1) old] by auto
      moreover from this have "k \<noteq> index" using index by auto
      ultimately show "ls_layouts s' ! k \<noteq> None" "?rank k < ?rank j" using False s'(1) by auto
    qed
  qed
  then have "\<exists>rank. \<forall>j < ?n. ls_layouts s' ! j \<noteq> None \<longrightarrow> rank j < ls_completed s' \<and>
      (\<forall>k \<in> set (dependencies M files j). ls_layouts s' ! k \<noteq> None \<and> rank k < rank j)" by blast
  then show ?thesis
    using lens r(2,3) p' s'(1) pend ready_iff completed unfolding order_inv_def by simp
qed

lemma initial_order_inv:
  assumes "dependencies_in_range M files"
  shows "order_inv files M (initial_state files M types)"
  unfolding order_inv_def
proof (intro conjI allI impI)
  let ?s = "initial_state files M types"
  have pending: "ls_pending ?s ! i = int (length (dependencies M files i))" if "i < length files" for i
    using that by (simp add: order_upto_def)
  show "ls_pending ?s ! i = int (card (missing M files ?s i))" if "i < length files" for i
  proof -
    have "missing M files ?s i = set (dependencies M files i)"
      using assms that by (auto simp: dependencies_in_range_def)
    then show ?thesis
      using assms that pending [OF that] by (simp add: dependencies_in_range_def distinct_card)
  qed
  show "i \<in> set (ls_ready ?s) \<longleftrightarrow> i < length files \<and> ls_layouts ?s ! i = None \<and> ls_pending ?s ! i = 0" for i
    using pending [of i] by (auto simp: order_upto_def)
qed (simp_all add: order_upto_def)

lemma lower_layouts_order:
  "lower_layouts M files T (dependents_upto M files (length files)) d s = Some (Inr s') \<Longrightarrow> order_inv files M s \<Longrightarrow>
   dependencies_in_range M files \<Longrightarrow> order_inv files M s' \<and> ls_ready s' = []"
proof (induction M files T "dependents_upto M files (length files)" d s rule: lower_layouts.induct)
  case (1 M files T d s)
  show ?case
  proof (cases "ls_ready s")
    case Nil
    then show ?thesis
      using "1.prems" by (simp add: lower_layouts.simps [of M files T _ d s])
  next
    case (Cons index ready)
    with "1.prems"(1) obtain s1 where
      step: "layout_step M files T (dependents_upto M files (length files)) d index (s\<lparr>ls_ready := ready\<rparr>) = Some (Inr s1)"
      and rest: "lower_layouts M files T (dependents_upto M files (length files)) d s1 = Some (Inr s')"
      by (auto simp: lower_layouts.simps [of M files T _ d s])
    have "order_inv files M s1" by (rule order_inv_step [OF step Cons "1.prems"(2,3)])
    with "1.hyps" [OF Cons step rest] "1.prems"(3) show ?thesis by simp
  qed
qed

definition acyclic_layout :: "SemanticModel \<Rightarrow> MirFileClass list \<Rightarrow> bool" where
  "acyclic_layout M files \<longleftrightarrow>
     (\<exists>rank :: nat \<Rightarrow> nat. \<forall>i < length files. \<forall>j \<in> set (dependencies M files i). rank j < rank i)"

lemma finished_iff_acyclic:
  assumes inv: "order_inv files M s" and ready: "ls_ready s = []" and deps: "dependencies_in_range M files"
  shows "ls_completed s = length files \<longleftrightarrow> acyclic_layout M files"
proof -
  let ?n = "length files"
  let ?done = "{i. i < ?n \<and> ls_layouts s ! i \<noteq> None}"
  have completed: "ls_completed s = card ?done" using inv by (simp add: order_inv_def)
  have full: "ls_completed s = ?n \<longleftrightarrow> (\<forall>i < ?n. ls_layouts s ! i \<noteq> None)"
  proof
    assume "ls_completed s = ?n"
    then have "card ?done = card {..<?n}" using completed by simp
    then have "?done = {..<?n}" by (intro card_subset_eq) auto
    then show "\<forall>i < ?n. ls_layouts s ! i \<noteq> None" by auto
  next
    assume "\<forall>i < ?n. ls_layouts s ! i \<noteq> None"
    then have "?done = {..<?n}" by auto
    then show "ls_completed s = ?n" using completed by simp
  qed
  show ?thesis
  proof
    assume "ls_completed s = ?n"
    then have all: "ls_layouts s ! i \<noteq> None" if "i < ?n" for i using full that by blast
    from inv obtain rank where "\<And>j. j < ?n \<Longrightarrow> ls_layouts s ! j \<noteq> None \<Longrightarrow>
      (\<forall>k \<in> set (dependencies M files j). rank k < (rank j :: nat))"
      unfolding order_inv_def by blast
    then show "acyclic_layout M files" using all unfolding acyclic_layout_def by blast
  next
    assume "acyclic_layout M files"
    then obtain rank where rank: "\<And>i j. i < ?n \<Longrightarrow> j \<in> set (dependencies M files i) \<Longrightarrow> rank j < (rank i :: nat)"
      unfolding acyclic_layout_def by blast
    have "i < ?n \<Longrightarrow> ls_layouts s ! i \<noteq> None" for i
    proof (induction "rank i" arbitrary: i rule: less_induct)
      case less
      have "missing M files s i = {}"
        using less.hyps less.prems rank deps unfolding dependencies_in_range_def by blast
      then have "card (missing M files s i) = 0" by (simp only: card.empty)
      then have "ls_pending s ! i = 0" using inv less.prems by (simp add: order_inv_def)
      then show ?case using inv ready less.prems unfolding order_inv_def by (metis empty_iff empty_set)
    qed
    then show "ls_completed s = ?n" using full by blast
  qed
qed

section \<open>No lookup fails\<close>

text \<open>Every id of the module and of the model is inside its table.\<close>

definition ids_ok :: "MirFileClass list \<Rightarrow> SemanticModel \<Rightarrow> bool" where
  "ids_ok files M \<longleftrightarrow>
     sm_string_type M < length (sm_types M) \<and>
     (\<forall>t \<in> set (sm_types M). \<forall>e. sty_element_type t = Some e \<longrightarrow> e < length (sm_types M)) \<and>
     (\<forall>s \<in> set (sm_symbols M). sym_type s < length (sm_types M)) \<and>
     (\<forall>s \<in> set (sm_files M). fs_type s < length (sm_types M)) \<and>
     (\<forall>f \<in> set files. mfc_symbol f < length (sm_symbols M) \<and>
        (\<forall>field \<in> set (mfc_fields f). mf_symbol field < length (sm_symbols M)))"

definition answers :: "'a lowering \<Rightarrow> bool" where
  "answers m \<longleftrightarrow> m \<noteq> None"

lemma answers_Some [simp]: "answers (Some r)"
  by (simp add: answers_def)

lemma answers_abi_fail [simp]: "answers (abi_fail d m)"
  by (simp add: answers_def abi_fail_def)

lemma answers_required [simp]: "answers (required x) \<longleftrightarrow> (\<exists>y. x = Some y)"
  by (simp add: answers_def required_def)

lemma answers_lbind [intro]: "answers m \<Longrightarrow> (\<And>x. m = Some (Inr x) \<Longrightarrow> answers (f x)) \<Longrightarrow> answers (lbind m f)"
  by (auto simp: answers_def lbind_def split: option.splits sum.splits)

lemma answers_fail_at: "ids_ok files M \<Longrightarrow> f \<in> set files \<Longrightarrow> answers (fail_at M (mfc_symbol f) d m)"
  by (simp add: ids_ok_def answers_def fail_at_def semantic_symbol_def at_index_def)

lemma inline_struct_type_total:
  assumes "ids_ok files M" "t < length (sm_types M)"
  shows "inline_struct_type t M \<noteq> None" "inline_struct_type t M = Some (Some u) \<Longrightarrow> u < length (sm_types M)"
proof -
  have e: "e < length (sm_types M)" if "sty_element_type (sm_types M ! t) = Some e" for e
    using assms that unfolding ids_ok_def by (metis nth_mem)
  show "inline_struct_type t M \<noteq> None"
    using assms(2) e by (auto simp: inline_struct_type_def semantic_lookup_defs semantic_type_def at_index_def split: option.splits)
  show "inline_struct_type t M = Some (Some u) \<Longrightarrow> u < length (sm_types M)"
    using assms(2) e by (auto simp: inline_struct_type_def semantic_type_def at_index_def split: option.splits if_splits)
qed

lemma lower_types_total:
  assumes "ids_ok files M" "\<forall>t \<in> set ts. t < length (sm_types M)"
  shows "lower_types M T ts types \<noteq> None"
  using assms(2)
proof (induction ts arbitrary: types)
  case (Cons t ts)
  then have t: "t < length (sm_types M)" by simp
  have "is_reference_type e M \<noteq> None" if "sty_element_type (sm_types M ! t) = Some e" for e
    using assms(1) t that unfolding ids_ok_def is_reference_type_def semantic_type_def at_index_def by auto
  then have "lower_type t (sm_types M ! t) M types T \<noteq> None"
    by (auto simp: lower_type_def split: TypeKind.splits option.splits bool.splits)
  then show ?case using Cons t by (auto simp: semantic_type_def at_index_def)
qed simp

lemma field_dependencies_tail:
  assumes "field_dependencies M d (f # fs) = Some (Inr ds)"
  obtains ds' where "field_dependencies M d fs = Some (Inr ds')" "set ds' \<subseteq> set ds"
proof -
  have "\<exists>ds'. field_dependencies M d fs = Some (Inr ds') \<and> set ds' \<subseteq> set ds"
    using assms by (auto simp: abi_fail_def split: if_splits option.splits)
  then show thesis using that by blast
qed

lemma field_dependencies_mem:
  assumes "field_dependencies M d fs = Some (Inr ds)" "field \<in> set fs"
    and "semantic_symbol M (mf_symbol field) = Some symbol" "\<not> sym_is_static symbol"
    and "inline_struct_type (sym_type symbol) M = Some (Some t)" "semantic_type M t = Some type" "sty_file type = Some owner"
  shows "owner \<in> set ds"
  using assms(1,2)
proof (induction fs arbitrary: ds)
  case (Cons f fs)
  obtain ds' where rest: "field_dependencies M d fs = Some (Inr ds')" "set ds' \<subseteq> set ds"
    by (rule field_dependencies_tail [OF Cons.prems(1)])
  show ?case
  proof (cases "field = f")
    case True
    then show ?thesis using Cons.prems(1) assms(3-7) by auto
  next
    case False
    then show ?thesis using Cons.IH [OF rest(1)] Cons.prems(2) rest(2) by auto
  qed
qed simp

text \<open>The layouts that a file reads are there.\<close>

definition ready_for :: "SemanticModel \<Rightarrow> MirFileClass \<Rightarrow> FileLayout option list \<Rightarrow> bool" where
  "ready_for M f layouts \<longleftrightarrow>
     (\<forall>b. mfc_base_file f = Some b \<longrightarrow> computed_layout layouts b \<noteq> None) \<and>
     (\<forall>field \<in> set (mfc_fields f). \<forall>symbol t type owner.
        semantic_symbol M (mf_symbol field) = Some symbol \<longrightarrow> \<not> sym_is_static symbol \<longrightarrow>
        inline_struct_type (sym_type symbol) M = Some (Some t) \<longrightarrow> semantic_type M t = Some type \<longrightarrow>
        sty_file type = Some owner \<longrightarrow> computed_layout layouts owner \<noteq> None)"

lemma ready_for_dependencies:
  assumes "file_dependencies M d f = Some (Inr ds)" "\<And>j. j \<in> set ds \<Longrightarrow> computed_layout layouts j \<noteq> None"
  shows "ready_for M f layouts"
proof -
  from assms(1) obtain owners where owners: "field_dependencies M d (mfc_fields f) = Some (Inr owners)"
    and ds: "set ds = set (case mfc_base_file f of None \<Rightarrow> [] | Some b \<Rightarrow> [b]) \<union> set owners"
    by (auto simp: file_dependencies_def)
  show ?thesis
    unfolding ready_for_def using field_dependencies_mem [OF owners] assms(2) ds by auto
qed

lemma place_field_total:
  assumes ids: "ids_ok files M" and f: "f \<in> set files" and types: "length types = length (sm_types M)"
    and ready: "ready_for M f layouts" and field: "field \<in> set (mfc_fields f)"
  shows "answers (place_field f M types T layouts d aggregate field c)"
proof -
  note fail = answers_fail_at [OF ids f]
  have symbol: "semantic_symbol M (mf_symbol field) = Some (sm_symbols M ! mf_symbol field)"
    "sym_type (sm_symbols M ! mf_symbol field) < length (sm_types M)"
    using ids f field by (auto simp: ids_ok_def semantic_symbol_def at_index_def)
  note inline = inline_struct_type_total [OF ids symbol(2)]
  have nest: "answers (nest_struct f M layouts d aggregate nested c')"
    if "inline_struct_type (sym_type (sm_symbols M ! mf_symbol field)) M = Some nested"
      "\<not> sym_is_static (sm_symbols M ! mf_symbol field)" for nested c'
  proof (cases nested)
    case (Some t)
    have t: "semantic_type M t = Some (sm_types M ! t)"
      using inline(2) that(1) Some by (simp add: semantic_type_def at_index_def)
    have "computed_layout layouts owner \<noteq> None" if "sty_file (sm_types M ! t) = Some owner" for owner
      using ready field symbol(1) \<open>\<not> sym_is_static _\<close> \<open>inline_struct_type _ M = Some nested\<close> t that Some
      unfolding ready_for_def by blast
    then show ?thesis
      using Some t fail by (auto simp: nest_struct_def Let_def split: option.splits intro!: answers_lbind)
  qed (simp add: nest_struct_def)
  show ?thesis
    unfolding place_field_def
    by (intro answers_lbind)
      (use symbol inline types fail nest in
        \<open>auto simp: Let_def at_index_def split: option.splits intro!: answers_lbind\<close>)
qed

lemma place_fields_total:
  assumes "ids_ok files M" "f \<in> set files" "length types = length (sm_types M)" "ready_for M f layouts"
    and "set fs \<subseteq> set (mfc_fields f)"
  shows "answers (place_fields f M types T layouts d aggregate fs c)"
  using assms(5)
proof (induction fs arbitrary: c)
  case (Cons field fs)
  have "answers (place_field f M types T layouts d aggregate field c)"
    by (rule place_field_total [OF assms(1-4)]) (use Cons.prems in simp)
  then show ?case using Cons by (auto intro: answers_lbind)
qed simp

lemma lower_file_layout_total:
  assumes ids: "ids_ok files M" and f: "f \<in> set files" and types: "length types = length (sm_types M)"
    and ready: "ready_for M f layouts" and sem: "mfc_file f < length (sm_files M)"
  shows "answers (lower_file_layout f M types T layouts d)"
proof -
  note fail = answers_fail_at [OF ids f]
  have "answers (start_layout f kind M types T layouts d)" for kind
    using ready ids types fail
    by (auto simp: start_layout_def Let_def ready_for_def ids_ok_def at_index_def
        split: option.splits intro!: answers_lbind)
  moreover have "answers (finish_layout f M T d aggregate c)" for aggregate c
    using fail by (auto simp: finish_layout_def split: option.splits)
  ultimately show ?thesis
    using sem place_fields_total [OF ids f types ready order_refl]
    by (auto simp: lower_file_layout_def semantic_file_def at_index_def intro!: answers_lbind)
qed

lemma update_nullables_total:
  "\<forall>t \<in> set ts. t < length (sm_types M) \<Longrightarrow> answers (update_nullables M d st ts types)"
  by (induction ts arbitrary: types)
    (auto simp: semantic_type_def at_index_def intro!: answers_lbind split: option.splits)

lemma layout_step_total:
  assumes ids: "ids_ok files M" and num: "numbered files M" and inv: "order_inv files M s"
    and types: "length (ls_types s) = length (sm_types M)" and ready: "ls_ready s = index # ready"
    and deps: "dependencies_in_range M files"
    and exact: "file_dependencies M d (files ! index) = Some (Inr (dependencies M files index))"
  shows "answers (layout_step M files T (dependents_upto M files (length files)) d index (s\<lparr>ls_ready := ready\<rparr>))"
proof -
  let ?n = "length files"
  let ?rel = "filter (\<lambda>i. index \<in> set (dependencies M files i)) [0..<?n]"
  have i: "index < ?n" "ls_layouts s ! index = None" "ls_pending s ! index = 0"
    using inv ready unfolding order_inv_def by auto
  then have f: "files ! index \<in> set files" "mfc_file (files ! index) = index" "index < length (sm_files M)"
    using num by (auto simp: numbered_def)
  have "card (missing M files s index) = 0" using inv i by (simp add: order_inv_def)
  then have "missing M files s index = {}" by (simp add: card_eq_0_iff)
  then have there: "computed_layout (ls_layouts s) j \<noteq> None" if "j \<in> set (dependencies M files index)" for j
    using that deps i(1) inv unfolding computed_layout_def at_index_def dependencies_in_range_def order_inv_def by auto
  have ready_f: "ready_for M (files ! index) (ls_layouts s)"
    by (rule ready_for_dependencies [OF exact]) (rule there)
  have low: "answers (lower_file_layout (files ! index) M (ls_types s) T (ls_layouts s) d)"
    by (rule lower_file_layout_total [OF ids f(1) types ready_f]) (simp add: f)
  have fs: "fs_type (sm_files M ! index) < length (sm_types M)"
    using ids f(3) by (simp add: ids_ok_def)
  have "answers (record_struct M d (sm_files M ! index) l (ls_types s))" for l
    using fs types update_nullables_total [of "[0..<length (sm_types M)]" M]
    by (auto simp: record_struct_def at_index_def intro!: answers_lbind)
  moreover have "\<exists>r. release_dependents ?rel (ls_pending s) ready = Some r"
  proof -
    have lens: "length (ls_pending s) = ?n" using inv by (simp add: order_inv_def)
    have idle: "ls_pending s ! j = 0" if "j \<in> set ready" for j
      using inv ready that unfolding order_inv_def by auto
    have "distinct ready" using inv ready unfolding order_inv_def by auto
    moreover have "\<forall>j \<in> set ?rel. j < length (ls_pending s)" using lens by simp
    moreover have "\<forall>j \<in> set ?rel. ls_pending s ! j = 1 \<longrightarrow> j \<notin> set ready" using idle by force
    ultimately show ?thesis using release_distinct [of ?rel "ls_pending s" ready] by auto
  qed
  moreover note answers_fail_at [OF ids f(1), of d]
  moreover have "dependents_upto M files ?n ! index = ?rel" "length (dependents_upto M files ?n) = ?n"
    using i by (simp_all add: dependents_upto_def)
  ultimately show ?thesis
    using low i f
    by (auto simp: layout_step_def semantic_file_def at_index_def intro!: answers_lbind)
qed

lemma field_dependencies_total:
  assumes "ids_ok files M" "\<forall>field \<in> set fs. mf_symbol field < length (sm_symbols M)"
  shows "answers (field_dependencies M d fs)"
  using assms(2)
proof (induction fs)
  case (Cons f fs)
  then have symbol: "semantic_symbol M (mf_symbol f) = Some (sm_symbols M ! mf_symbol f)"
    by (simp add: semantic_symbol_def at_index_def)
  have "sym_type (sm_symbols M ! mf_symbol f) < length (sm_types M)" using assms(1) Cons.prems by (simp add: ids_ok_def)
  note inline = inline_struct_type_total [OF assms(1) this]
  have "\<exists>t. semantic_type M u = Some t" if "inline_struct_type (sym_type (sm_symbols M ! mf_symbol f)) M = Some (Some u)" for u
    using inline(2) [OF that] by (simp add: semantic_type_def at_index_def)
  then show ?case
    using Cons symbol inline(1) by (auto intro!: answers_lbind split: option.splits)
qed simp

lemma add_dependents_total: "answers (add_dependents d k ds dependents)"
  by (induction ds arbitrary: dependents) auto

lemma order_files_total:
  assumes "ids_ok files M" "set fs \<subseteq> set files"
  shows "answers (order_files M d k fs s)"
  using assms(2)
proof (induction fs arbitrary: k s)
  case (Cons f fs)
  have "answers (file_dependencies M d f)"
    unfolding file_dependencies_def
    using field_dependencies_total [OF assms(1), of "mfc_fields f"] assms(1) Cons.prems
    by (auto simp: ids_ok_def intro!: answers_lbind)
  then show ?case using Cons add_dependents_total by (auto intro!: answers_lbind)
qed simp

lemma update_nullables_length:
  "update_nullables M d st ts types = Some (Inr types') \<Longrightarrow> length types' = length types"
  by (induction ts arbitrary: types) (fastforce simp: abi_fail_def split: if_splits option.splits)+

lemma layout_step_types:
  assumes "layout_step M files T dependents d index s = Some (Inr s')"
  shows "length (ls_types s') = length (ls_types s)"
  using assms
proof (rule layout_stepE)
  fix f l semantic types
  assume "record_struct M d semantic l (ls_types s) = Some (Inr types)" "ls_types s' = types"
  then show ?thesis
    by (auto simp: record_struct_def at_index_eq_Some split: if_splits dest!: update_nullables_length)
qed

lemma lower_layouts_total:
  assumes "ids_ok files M" "numbered files M" "dependencies_in_range M files"
    and "\<And>i. i < length files \<Longrightarrow> file_dependencies M d (files ! i) = Some (Inr (dependencies M files i))"
    and "order_inv files M s" "length (ls_types s) = length (sm_types M)"
  shows "answers (lower_layouts M files T (dependents_upto M files (length files)) d s)"
  using assms
proof (induction M files T "dependents_upto M files (length files)" d s rule: lower_layouts.induct)
  case (1 M files T d s)
  show ?case
  proof (cases "ls_ready s")
    case Nil
    then show ?thesis by (simp add: lower_layouts.simps [of M files T _ d s])
  next
    case (Cons index ready)
    let ?step = "layout_step M files T (dependents_upto M files (length files)) d index (s\<lparr>ls_ready := ready\<rparr>)"
    have "index < length files" using "1.prems"(5) Cons unfolding order_inv_def by auto
    then have exact: "file_dependencies M d (files ! index) = Some (Inr (dependencies M files index))"
      by (rule "1.prems"(4))
    have step: "answers ?step"
      by (rule layout_step_total [OF "1.prems"(1,2,5,6) Cons "1.prems"(3) exact])
    have "answers (lower_layouts M files T (dependents_upto M files (length files)) d s1)"
      if s1: "?step = Some (Inr s1)" for s1
    proof (rule "1.hyps" [OF Cons s1 "1.prems"(1-4)])
      show "order_inv files M s1" by (rule order_inv_step [OF s1 Cons "1.prems"(5,3)])
      show "length (ls_types s1) = length (sm_types M)" using layout_step_types [OF s1] "1.prems"(6) by simp
    qed
    then show ?thesis
      using step Cons by (auto simp: lower_layouts.simps [of M files T _ d s])
  qed
qed

lemma traverse_files_total:
  assumes "ids_ok files M" "length types = length (sm_types M)"
  shows "answers (traverse_files files M types T d)"
proof -
  have "answers (lower_layouts M files T (fo_dependents ord) d
       \<lparr>ls_types = types, ls_layouts = replicate (length files) None, ls_pending = fo_pending ord,
        ls_ready = fo_ready ord, ls_completed = 0, ls_map_entries = 0\<rparr>)"
    if ord: "order_files M d 0 files (order_upto M files 0) = Some (Inr ord)" for ord
  proof -
    note o = order_files_numbered [OF ord]
    have "answers (lower_layouts M files T (dependents_upto M files (length files)) d (initial_state files M types))"
      by (rule lower_layouts_total [OF assms(1) o(2,3,4) initial_order_inv [OF o(3)]]) (use assms(2) in simp_all)
    then show ?thesis by (simp add: o(1) order_upto_def)
  qed
  then show ?thesis
    using order_files_total [OF assms(1) order_refl] unfolding traverse_files_def order_start [of files M] by blast
qed

lemma traversed_layouts:
  assumes "traverse_files files M types T d = Some (Inr s)" "acyclic_layout M files" "i < length files"
  shows "ls_layouts s ! i \<noteq> None"
proof -
  from assms(1) obtain deps: "dependencies_in_range M files"
    and run: "lower_layouts M files T (dependents_upto M files (length files)) d (initial_state files M types) = Some (Inr s)"
    by (rule traverse_filesE)
  from lower_layouts_order [OF run initial_order_inv [OF deps] deps] have inv: "order_inv files M s" "ls_ready s = []" by auto
  then have "ls_completed s = length files" using finished_iff_acyclic deps assms(2) by blast
  then have "card {i. i < length files \<and> ls_layouts s ! i \<noteq> None} = card {..<length files}"
    using inv(1) by (simp add: order_inv_def)
  then have "{i. i < length files \<and> ls_layouts s ! i \<noteq> None} = {..<length files}" by (intro card_subset_eq) auto
  then show ?thesis using assms(3) by blast
qed

lemma lay_out_files_result:
  assumes "traverse_files files M types T d = Some (Inr s)"
  shows "lay_out_files files M types T d =
    (if acyclic_layout M files then Some (Inr s) else abi_fail d ''inline layout dependency cycle'')"
proof -
  from assms obtain deps: "dependencies_in_range M files"
    and run: "lower_layouts M files T (dependents_upto M files (length files)) d (initial_state files M types) = Some (Inr s)"
    by (rule traverse_filesE)
  from lower_layouts_order [OF run initial_order_inv [OF deps] deps]
  have "ls_completed s = length files \<longleftrightarrow> acyclic_layout M files"
    using finished_iff_acyclic deps by blast
  then show ?thesis by (simp add: lay_out_files_def assms lbind_def)
qed

section \<open>A sample module\<close>

text \<open>
  A class that extends another, which holds a struct; the derived class holds the nullable struct. The files
  are listed before the files they depend on.
\<close>

definition sample_field :: "string \<Rightarrow> TypeId \<Rightarrow> FileId \<Rightarrow> SemanticSymbol" where
  "sample_field name type f =
     \<lparr>sym_kind = syField, sym_name = name, sym_type = type, sym_parameter_types = [], sym_visibility = visPublic,
      sym_file = Some f,
      sym_range = point_range \<lparr>loc_file = ''a.co'', loc_byte_offset = 0, loc_line = 1, loc_column = 1\<rparr>,
      sym_is_valid = True, sym_intrinsic = ikNone, sym_is_static = False, sym_is_abstract = False,
      sym_overridden_symbol = None, sym_thrown_types = []\<rparr>"

definition sample_file :: "TypeId \<Rightarrow> FileTypeKind \<Rightarrow> string \<Rightarrow> FileSemantics" where
  "sample_file type kind name =
     \<lparr>fs_type = type, fs_self_symbol = 0, fs_boxed_value_type = None, fs_boxed_value_field = None,
      fs_virtual_functions = [], fs_kind = kind, fs_interface_functions = [], fs_interface_implementations = [],
      fs_interface_id = None,
      fs_identity = \<lparr>nom_package = \<lparr>pkg_name = [], pkg_version = []\<rparr>, nom_source_package = ''app'',
                     nom_name = name, nom_kind = (if kind = ftStruct then nkStruct else nkClass)\<rparr>\<rparr>"

definition sample_type :: "TypeKind \<Rightarrow> FileId option \<Rightarrow> TypeId option \<Rightarrow> SemanticType" where
  "sample_type kind f element = \<lparr>sty_kind = kind, sty_name = [], sty_file = f, sty_element_type = element\<rparr>"

definition sample_layout_model :: SemanticModel where
  "sample_layout_model = empty_model\<lparr>
     sm_types := [sample_type tyString None None, sample_type tyObject None None, sample_type tyBool None None,
                  sample_type tyFileClass (Some 0) None, sample_type tyFileClass (Some 1) None,
                  sample_type tyStruct (Some 2) None, sample_type tyNullable None (Some 5)],
     sm_symbols := [sample_field ''Derived'' 3 0, sample_field ''Base'' 4 1, sample_field ''Point'' 5 2,
                    sample_field ''Q'' 6 0, sample_field ''P'' 5 1, sample_field ''B'' 2 1,
                    sample_field ''X'' 2 2, sample_field ''Name'' 0 2],
     sm_files := [sample_file 3 ftClass ''Derived'', sample_file 4 ftClass ''Base'', sample_file 5 ftStruct ''Point''],
     sm_string_type := 0, sm_object_type := 1\<rparr>"

definition sample_mir_file :: "FileId \<Rightarrow> FileId option \<Rightarrow> SymbolId list \<Rightarrow> MirFileClass" where
  "sample_mir_file f base symbols =
     \<lparr>mfc_file = f, mfc_symbol = f, mfc_base_file = base, mfc_fields = map MirField.make symbols,
      mfc_functions = [], mfc_constructors = [], mfc_member_order = []\<rparr>"

definition sample_mir :: "MirFileClass list" where
  "sample_mir = [sample_mir_file 0 (Some 1) [3], sample_mir_file 1 None [4, 5], sample_mir_file 2 None [6, 7]]"

definition sample_types :: "AbiTypeLayout \<Rightarrow> AbiTypeLayout \<Rightarrow> AbiTypeLayout list" where
  "sample_types point nullable =
     [make_type_layout 0 abiReference 64 8 8, make_type_layout 1 abiReference 64 8 8, make_type_layout 2 abiInteger 1 1 1,
      make_type_layout 3 abiReference 64 8 8, make_type_layout 4 abiReference 64 8 8, point, nullable]"

definition sample_point :: FileLayout where
  "sample_point =
     \<lparr>fl_storage = \<lparr>acl_header_size = 0, acl_size = 16, acl_alignment = 8,
        acl_fields = [\<lparr>afl_symbol = 6, afl_type = 2, afl_offset = 0\<rparr>, \<lparr>afl_symbol = 7, afl_type = 0, afl_offset = 8\<rparr>]\<rparr>,
      fl_references = [8], fl_depth = 1\<rparr>"

definition sample_base :: FileLayout where
  "sample_base =
     \<lparr>fl_storage = \<lparr>acl_header_size = 16, acl_size = 40, acl_alignment = 8,
        acl_fields = [\<lparr>afl_symbol = 4, afl_type = 5, afl_offset = 16\<rparr>, \<lparr>afl_symbol = 5, afl_type = 2, afl_offset = 32\<rparr>]\<rparr>,
      fl_references = [24], fl_depth = 0\<rparr>"

definition sample_derived :: FileLayout where
  "sample_derived =
     \<lparr>fl_storage = \<lparr>acl_header_size = 16, acl_size = 64, acl_alignment = 8,
        acl_fields = [\<lparr>afl_symbol = 4, afl_type = 5, afl_offset = 16\<rparr>, \<lparr>afl_symbol = 5, afl_type = 2, afl_offset = 32\<rparr>,
                      \<lparr>afl_symbol = 3, afl_type = 6, afl_offset = 40\<rparr>]\<rparr>,
      fl_references = [24, 56], fl_depth = 0\<rparr>"

abbreviation sample_empty_types :: "AbiTypeLayout list" where
  "sample_empty_types \<equiv> sample_types (make_type_layout 5 abiAggregate 0 0 1) (make_type_layout 6 abiAggregate 0 0 1)"

abbreviation sample_full_types :: "AbiTypeLayout list" where
  "sample_full_types \<equiv> sample_types
     \<lparr>atl_type = 5, atl_kind = abiAggregate, atl_bit_width = 0, atl_storage = \<lparr>sa_size = 16, sa_alignment = 8\<rparr>, atl_reference_offsets = [8]\<rparr>
     \<lparr>atl_type = 6, atl_kind = abiAggregate, atl_bit_width = 0, atl_storage = \<lparr>sa_size = 24, sa_alignment = 8\<rparr>, atl_reference_offsets = [16]\<rparr>"

lemmas sample_model_defs = sample_layout_model_def empty_model_def sample_field_def sample_file_def sample_type_def
  sample_mir_def sample_mir_file_def MirField.make_def semantic_type_def semantic_symbol_def semantic_file_def at_index_def

lemmas sample_layout_defs = lower_file_layout_def start_layout_def object_header_def place_field_def nest_struct_def
  finish_layout_def inline_struct_type_def computed_layout_def at_index_def Let_def sample_types_def make_type_layout_def
  llvm_x86_64_def max_def word_le_nat_alt lbind_def required_def
  checked_align_def checked_add_def is_power_of_two_u64_def u64_max_def kMaxStructFields_def kMaxStructDepth_def
  kMaxStructSize_def kMaxLayoutReferences_def kMaxAggregateMapEntries_def

lemma sample_lower_types: "lower_types sample_layout_model llvm_x86_64 [0..<length (sm_types sample_layout_model)] [] = Some sample_empty_types"
  unfolding sample_types_def by code_simp
lemma sample_order: "order_files sample_layout_model empty_engine 0 sample_mir  \<lparr>fo_dependents = replicate (length sample_mir) [], fo_pending = replicate (length sample_mir) 0, fo_ready = []\<rparr> =
  Some (Inr \<lparr>fo_dependents = [[],[0],[0,1]], fo_pending=[2,1,0], fo_ready=[2]\<rparr>)" by code_simp

lemma sample_point_layout: "lower_file_layout (sample_mir!2) sample_layout_model sample_empty_types llvm_x86_64 [None,None,None] d = Some (Inr sample_point)"
 by (simp add: sample_layout_defs sample_point_def sample_model_defs)
lemma sample_base_layout: "lower_file_layout (sample_mir!1) sample_layout_model sample_full_types llvm_x86_64 [None,None,Some sample_point] d = Some (Inr sample_base)"
 by (simp add: sample_layout_defs sample_point_def sample_base_def sample_model_defs)
lemma sample_derived_layout: "lower_file_layout (sample_mir!0) sample_layout_model sample_full_types llvm_x86_64 [None,Some sample_base,Some sample_point] d = Some (Inr sample_derived)"
 by (simp add: sample_layout_defs sample_point_def sample_base_def sample_derived_def sample_model_defs)

lemma sample_record: "record_struct sample_layout_model empty_engine (sample_file 5 ftStruct ''Point'') sample_point sample_empty_types = Some (Inr sample_full_types)"
  by (simp add: record_struct_def sample_point_def sample_layout_defs sample_model_defs upt_rec lower_nullable_value_layout_def)
abbreviation sample_state where
  "sample_state types layouts pending ready n m \<equiv> \<lparr>ls_types = types, ls_layouts = layouts, ls_pending = pending, ls_ready = ready, ls_completed = n, ls_map_entries = m\<rparr>"
lemma sample_mir_nth: "at_index sample_mir 0 = Some (sample_mir ! 0)" "at_index sample_mir 1 = Some (sample_mir ! 1)" "at_index sample_mir 2 = Some (sample_mir ! 2)"
   "mfc_file (sample_mir ! 0) = 0" "mfc_file (sample_mir ! 1) = 1" "mfc_file (sample_mir ! 2) = 2" by (simp_all add: sample_mir_def at_index_def sample_mir_file_def)
lemma sample_file_nth: "semantic_file sample_layout_model 0 = Some (sample_file 3 ftClass ''Derived'')" "semantic_file sample_layout_model 1 = Some (sample_file 4 ftClass ''Base'')"
  "semantic_file sample_layout_model 2 = Some (sample_file 5 ftStruct ''Point'')"
  by (simp_all add: sample_layout_model_def semantic_file_def at_index_def)
lemma record_no_struct: "fs_kind s \<noteq> ftStruct \<Longrightarrow> record_struct M d s l types = Some (Inr types)" by (simp add: record_struct_def)
lemma sample_file_kind: "fs_kind (sample_file t k n) = k" by (simp add: sample_file_def)

lemma sample_mir_length: "length sample_mir = 3" by (simp add: sample_mir_def)
lemma sample_reference_counts: "length (fl_references sample_point) = 1" "length (fl_references sample_base) = 1" "length (fl_references sample_derived) = 2"
  by (simp_all add: sample_point_def sample_base_def sample_derived_def)
lemmas sample_step_simps = layout_step_def sample_mir_nth [unfolded One_nat_def] sample_point_layout
  sample_base_layout [unfolded One_nat_def] sample_derived_layout sample_record record_no_struct sample_file_kind
  sample_file_nth [unfolded One_nat_def] sample_mir_length sample_reference_counts lbind_def required_def at_index_def kMaxAggregateMapEntries_def
lemma sample_step_point: "layout_step sample_layout_model sample_mir llvm_x86_64 [[],[0],[0,1]] empty_engine 2 (sample_state sample_empty_types [None,None,None] [2,1,0] [] 0 0)
  = Some (Inr (sample_state sample_full_types [None,None,Some sample_point] [1,0,0] [1] 1 1))"
  by (simp add: sample_step_simps)
lemma sample_step_base: "layout_step sample_layout_model sample_mir llvm_x86_64 [[],[0],[0,1]] empty_engine 1 (sample_state sample_full_types [None,None,Some sample_point] [1,0,0] [] 1 1)
  = Some (Inr (sample_state sample_full_types [None,Some sample_base,Some sample_point] [0,0,0] [0] 2 2))"
  by (simp add: sample_step_simps)
lemma sample_step_derived: "layout_step sample_layout_model sample_mir llvm_x86_64 [[],[0],[0,1]] empty_engine 0 (sample_state sample_full_types [None,Some sample_base,Some sample_point] [0,0,0] [] 2 2)
  = Some (Inr (sample_state sample_full_types [Some sample_derived,Some sample_base,Some sample_point] [0,0,0] [] 3 4))"
  by (simp add: sample_step_simps)
lemma sample_run: "lower_layouts sample_layout_model sample_mir llvm_x86_64 [[],[0],[0,1]] empty_engine (sample_state sample_empty_types [None,None,None] [2,1,0] [2] 0 0)
  = Some (Inr (sample_state sample_full_types [Some sample_derived,Some sample_base,Some sample_point] [0,0,0] [] 3 4))"
  by (simp add: lower_layouts.simps sample_step_point [unfolded One_nat_def]
      sample_step_base [unfolded One_nat_def] sample_step_derived [unfolded One_nat_def] lbind_def)

lemma sample_traverse:
  "traverse_files sample_mir sample_layout_model sample_empty_types llvm_x86_64 empty_engine =
   Some (Inr (sample_state sample_full_types [Some sample_derived, Some sample_base, Some sample_point] [0, 0, 0] [] 3 4))"
proof -
  have "replicate (length sample_mir) (None :: FileLayout option) = [None, None, None]" by (simp add: sample_mir_length eval_nat_numeral)
  then show ?thesis unfolding traverse_files_def sample_order by (simp add: sample_run [unfolded One_nat_def] lbind_def)
qed

lemma sample_lay_out: "lay_out_files sample_mir sample_layout_model sample_empty_types llvm_x86_64 empty_engine = Some (Inr (sample_state sample_full_types [Some sample_derived,Some sample_base,Some sample_point] [0,0,0] [] 3 4))"
 by (simp add: lay_out_files_def sample_traverse lbind_def sample_mir_length)
lemma sample_lower_files: "\<exists>xs. lower_files sample_layout_model sample_full_types llvm_x86_64 [Some sample_derived,Some sample_base,Some sample_point] empty_engine sample_mir = Some (Inr xs) \<and>
   map (map_option atd_reference_offsets \<circ> afc_type_descriptor) xs = [Some [24, 56], Some [24], None]"
 by (simp add: sample_mir_def sample_mir_file_def MirField.make_def lower_file_def file_descriptor_def sample_file_nth [unfolded One_nat_def] sample_file_kind
   computed_layout_def at_index_def lower_type_descriptor_def sample_layout_model_def semantic_type_def semantic_symbol_def sample_type_def sample_file_def sample_field_def lbind_def required_def
   sample_derived_def sample_base_def sample_point_def semantic_file_def)
lemma sample_lower_to_abi: "\<exists>abi. lower_to_abi sample_mir sample_layout_model llvm_x86_64 empty_engine = Some (Inr abi) \<and>
  map (map_option atd_reference_offsets \<circ> afc_type_descriptor) (abi_files abi) = [Some [24, 56], Some [24], None]"
proof -
  have "sa_size (tl_pointer llvm_x86_64) mod sa_alignment (tl_pointer llvm_x86_64) = 0" by (simp add: llvm_x86_64_def)
  then show ?thesis using sample_lower_files by (auto simp: lower_to_abi_def sample_lower_types sample_lay_out lbind_def required_def)
qed
lemma sample_inputs_ok: "layout_model_ok sample_mir sample_layout_model" "ids_ok sample_mir sample_layout_model"
  by (auto simp: layout_model_ok_def ids_ok_def sample_model_defs nth_Cons less_Suc_eq split: nat.splits)

text \<open>
  C20: the traversal of the files is complete. If every id of the module and of the model is inside its table, then
  laying the types and the files out never looks up a missing entry and never reads the layout of a file that
  has none yet: it always ends, with layouts or with a diagnostic. When no single layout is refused, the result
  is success with a layout for every file if the dependencies between the files have no cycle, and otherwise
  the diagnostic that reports the cycle.
\<close>

theorem layout_traversal_complete:
  assumes "ids_ok files M"
  shows "\<exists>types. lower_types M T [0..<length (sm_types M)] [] = Some types \<and>
    lay_out_files files M types T d \<noteq> None \<and>
    (\<forall>s. traverse_files files M types T d = Some (Inr s) \<longrightarrow>
       lay_out_files files M types T d =
         (if acyclic_layout M files then Some (Inr s) else abi_fail d ''inline layout dependency cycle'') \<and>
       (acyclic_layout M files \<longrightarrow> (\<forall>i < length files. ls_layouts s ! i \<noteq> None)))"
proof -
  have "lower_types M T [0..<length (sm_types M)] [] \<noteq> None"
    by (rule lower_types_total [OF assms]) simp
  then obtain types where types: "lower_types M T [0..<length (sm_types M)] [] = Some types" by blast
  have "answers (traverse_files files M types T d)"
    using traverse_files_total [OF assms] lower_types_ok(1) [OF types] by blast
  then have "lay_out_files files M types T d \<noteq> None"
    unfolding lay_out_files_def answers_def [symmetric] by (auto simp: abi_fail_def intro!: answers_lbind)
  moreover have "\<forall>i < length files. ls_layouts s ! i \<noteq> None"
    if "traverse_files files M types T d = Some (Inr s)" "acyclic_layout M files" for s
    using traversed_layouts [OF that] by blast
  ultimately show ?thesis using types lay_out_files_result by blast
qed

theorem layout_traversal_complete_witness:
  "ids_ok sample_mir sample_layout_model \<and>
   (\<exists>s. lay_out_files sample_mir sample_layout_model sample_empty_types llvm_x86_64 empty_engine = Some (Inr s) \<and>
     (\<forall>i < 3. ls_layouts s ! i \<noteq> None))"
proof -
  have acyclic: "acyclic_layout sample_layout_model sample_mir"
    using lay_out_files_result [OF sample_traverse] sample_lay_out by (auto simp: abi_fail_def split: if_splits)
  show ?thesis
    using layout_traversal_complete [OF sample_inputs_ok(2), of llvm_x86_64 empty_engine] sample_inputs_ok(2)
      sample_lower_types sample_traverse sample_lay_out acyclic sample_mir_length by auto
qed

end
