(* ===== verification/Sha256.thy ===== *)
theory Sha256
  imports Prelude
begin

text \<open>
  The SHA-256 digests of package artifacts (\<^verbatim>\<open>src/artifact/sha256.cc\<close>, \<^verbatim>\<open>src/artifact/sha256.h\<close>): the
  incremental hasher and the hexadecimal text of digests. The system library that Windows builds prefer is not
  modelled. The lemmas relate the hasher, whatever the pieces it is fed, to the digest of the
  padded message under the compression function of the standard, which is written out beside the code's.
\<close>

section \<open>The code\<close>

type_synonym bytes = "u8 list"

text \<open>The table, in the rows in which the source writes it.\<close>

definition kRoundConstants :: "u32 list" where
  "kRoundConstants = concat
    [[0x428a2f98, 0x71374491, 0xb5c0fbcf, 0xe9b5dba5, 0x3956c25b],
     [0x59f111f1, 0x923f82a4, 0xab1c5ed5, 0xd807aa98, 0x12835b01],
     [0x243185be, 0x550c7dc3, 0x72be5d74, 0x80deb1fe, 0x9bdc06a7],
     [0xc19bf174, 0xe49b69c1, 0xefbe4786, 0x0fc19dc6, 0x240ca1cc],
     [0x2de92c6f, 0x4a7484aa, 0x5cb0a9dc, 0x76f988da, 0x983e5152],
     [0xa831c66d, 0xb00327c8, 0xbf597fc7, 0xc6e00bf3, 0xd5a79147],
     [0x06ca6351, 0x14292967, 0x27b70a85, 0x2e1b2138, 0x4d2c6dfc],
     [0x53380d13, 0x650a7354, 0x766a0abb, 0x81c2c92e, 0x92722c85],
     [0xa2bfe8a1, 0xa81a664b, 0xc24b8b70, 0xc76c51a3, 0xd192e819],
     [0xd6990624, 0xf40e3585, 0x106aa070, 0x19a4c116, 0x1e376c08],
     [0x2748774c, 0x34b0bcb5, 0x391c0cb3, 0x4ed8aa4a, 0x5b9cca4f],
     [0x682e6ff3, 0x748f82ee, 0x78a5636f, 0x84c87814, 0x8cc70208],
     [0x90befffa, 0xa4506ceb, 0xbef9a3f7, 0xc67178f2]]"

definition read_big_endian :: "bytes \<Rightarrow> u32" where
  "read_big_endian b =
     push_bit 24 (ucast (b ! 0)) OR push_bit 16 (ucast (b ! 1)) OR push_bit 8 (ucast (b ! 2)) OR ucast (b ! 3)"

definition write_big_endian :: "u32 \<Rightarrow> bytes" where
  "write_big_endian v = [ucast (drop_bit 24 v), ucast (drop_bit 16 v), ucast (drop_bit 8 v), ucast v]"

text \<open>\<^verbatim>\<open>std::rotr\<close>\<close>

definition rotr :: "u32 \<Rightarrow> nat \<Rightarrow> u32" where
  "rotr v n = drop_bit n v OR push_bit (32 - n) v"

record Sha256Hasher =
  sh_state :: "u32 list"
  sh_pending :: bytes
  sh_pending_size :: nat
  sh_byte_count :: u64
  sh_finished :: bool

definition new_hasher :: Sha256Hasher where
  "new_hasher =
     \<lparr>sh_state = [0x6a09e667, 0xbb67ae85, 0x3c6ef372, 0xa54ff53a, 0x510e527f, 0x9b05688c, 0x1f83d9ab, 0x5be0cd19],
      sh_pending = replicate 64 0, sh_pending_size = 0, sh_byte_count = 0, sh_finished = False\<rparr>"

text \<open>The message schedule: the words of the block, and one step of their extension.\<close>

definition block_words :: "bytes \<Rightarrow> u32 list" where
  "block_words block = map (\<lambda>i. read_big_endian (take 4 (drop (4 * i) block))) [0..<16]"

definition extend_words :: "u32 list \<Rightarrow> nat \<Rightarrow> u32 list" where
  "extend_words w i =
     (let first = rotr (w ! (i - 15)) 7 XOR rotr (w ! (i - 15)) 18 XOR drop_bit 3 (w ! (i - 15));
          second = rotr (w ! (i - 2)) 17 XOR rotr (w ! (i - 2)) 19 XOR drop_bit 10 (w ! (i - 2))
      in w @ [w ! (i - 16) + first + w ! (i - 7) + second])"

type_synonym working = "u32 \<times> u32 \<times> u32 \<times> u32 \<times> u32 \<times> u32 \<times> u32 \<times> u32"

definition sha_round :: "u32 list \<Rightarrow> working \<Rightarrow> nat \<Rightarrow> working" where
  "sha_round w v i =
     (case v of (a, b, c, d, e, f, g, h) \<Rightarrow>
        let upper_e = rotr e 6 XOR rotr e 11 XOR rotr e 25;
            choice = (e AND f) XOR (NOT e AND g);
            first = h + upper_e + choice + kRoundConstants ! i + w ! i;
            upper_a = rotr a 2 XOR rotr a 13 XOR rotr a 22;
            majority = (a AND b) XOR (a AND c) XOR (b AND c);
            second = upper_a + majority
        in (first + second, a, b, c, d + first, e, f, g))"

definition process_block :: "u32 list \<Rightarrow> bytes \<Rightarrow> u32 list" where
  "process_block state block =
     (let w = foldl extend_words (block_words block) [16..<64] in
      case foldl (sha_round w)
             (state ! 0, state ! 1, state ! 2, state ! 3, state ! 4, state ! 5, state ! 6, state ! 7) [0..<64] of
        (a, b, c, d, e, f, g, h) \<Rightarrow>
          [state ! 0 + a, state ! 1 + b, state ! 2 + c, state ! 3 + d,
           state ! 4 + e, state ! 5 + f, state ! 6 + g, state ! 7 + h])"

text \<open>Copying \<open>src\<close> into a buffer from position \<open>i\<close> on.\<close>

definition copy_at :: "bytes \<Rightarrow> nat \<Rightarrow> bytes \<Rightarrow> bytes" where
  "copy_at buffer i src = take i buffer @ src @ drop (i + length src) buffer"

text \<open>The loop over the whole blocks of the input; its result is the state and the rest.\<close>

function process_blocks :: "u32 list \<Rightarrow> bytes \<Rightarrow> u32 list \<times> bytes" where
  "process_blocks state b =
     (if length b \<ge> 64 then process_blocks (process_block state (take 64 b)) (drop 64 b) else (state, b))"
  by pat_completeness auto
termination by (relation "measure (\<lambda>(state, b). length b)") auto

declare process_blocks.simps [simp del]

definition fill_pending :: "Sha256Hasher \<Rightarrow> bytes \<Rightarrow> Sha256Hasher \<times> bytes" where
  "fill_pending H b =
     (if sh_pending_size H \<noteq> 0 then
        let count = min (length b) (64 - sh_pending_size H);
            H1 = H\<lparr>sh_pending := copy_at (sh_pending H) (sh_pending_size H) (take count b),
                   sh_pending_size := sh_pending_size H + count\<rparr>
        in (if sh_pending_size H1 = 64
            then H1\<lparr>sh_state := process_block (sh_state H1) (sh_pending H1), sh_pending_size := 0\<rparr>
            else H1, drop count b)
      else (H, b))"

definition sha_update :: "Sha256Hasher \<Rightarrow> bytes \<Rightarrow> Sha256Hasher" where
  "sha_update H b =
     (if sh_finished H \<or> b = [] then H
      else
        case fill_pending (H\<lparr>sh_byte_count := sh_byte_count H + of_nat (length b)\<rparr>) b of
          (H1, b1) \<Rightarrow>
            (case process_blocks (sh_state H1) b1 of
               (state, b2) \<Rightarrow>
                 let H2 = H1\<lparr>sh_state := state\<rparr> in
                 if b2 \<noteq> [] then H2\<lparr>sh_pending := copy_at (sh_pending H2) 0 b2, sh_pending_size := length b2\<rparr>
                 else H2))"

definition count_be :: "u64 \<Rightarrow> bytes" where
  "count_be bit_count = map (\<lambda>i. ucast (drop_bit ((7 - i) * 8) bit_count)) [0..<8]"

definition sha_digest :: "u32 list \<Rightarrow> bytes" where
  "sha_digest state = concat (map write_big_endian state)"

definition sha_finish :: "Sha256Hasher \<Rightarrow> bytes \<times> Sha256Hasher" where
  "sha_finish H =
     (let H' =
        (if sh_finished H then H
         else
           let bit_count = sh_byte_count H * 8;
               pending = (sh_pending H)[sh_pending_size H := 0x80];
               size = sh_pending_size H + 1;
               (state, pending, size) =
                 (if size > 56
                  then (process_block (sh_state H) (copy_at pending size (replicate (64 - size) 0)),
                        copy_at pending size (replicate (64 - size) 0), 0)
                  else (sh_state H, pending, size));
               pending = copy_at pending size (replicate (56 - size) 0);
               pending = copy_at pending 56 (count_be bit_count)
           in H\<lparr>sh_state := process_block state pending, sh_pending := pending, sh_pending_size := size, sh_finished := True\<rparr>)
      in (sha_digest (sh_state H'), H'))"

definition sha256 :: "bytes \<Rightarrow> bytes" where
  "sha256 b = fst (sha_finish (sha_update new_hasher b))"

definition lowercase_hex_value :: "char \<Rightarrow> int" where
  "lowercase_hex_value c =
     (if code c \<ge> 48 \<and> code c \<le> 57 then int (code c) - 48
      else if code c \<ge> 97 \<and> code c \<le> 102 then int (code c) - 97 + 10 else - 1)"

definition digest_hex_digits :: string where
  "digest_hex_digits = ''0123456789abcdef''"

definition artifact_digest_hex :: "bytes \<Rightarrow> string" where
  "artifact_digest_hex digest =
     foldl (\<lambda>result b. result @ [digest_hex_digits ! unat (drop_bit 4 b), digest_hex_digits ! unat (b AND 0x0F)]) [] digest"

primrec parse_digest_bytes :: "nat \<Rightarrow> string \<Rightarrow> nat \<Rightarrow> bytes \<Rightarrow> bytes option" where
  "parse_digest_bytes 0 t i result = Some result"
| "parse_digest_bytes (Suc n) t i result =
     (let upper = lowercase_hex_value (t ! (i * 2)); lower = lowercase_hex_value (t ! (i * 2 + 1)) in
      if upper < 0 \<or> lower < 0 then None
      else parse_digest_bytes n t (i + 1) (result[i := of_int (push_bit 4 upper OR lower)]))"

definition parse_artifact_digest :: "string \<Rightarrow> bytes option" where
  "parse_artifact_digest t =
     (if length t \<noteq> 64 then None else parse_digest_bytes 32 t 0 (replicate 32 0))"

section \<open>The digest of a message\<close>

text \<open>The whole blocks of a message, and the message with its padding.\<close>

function blocks :: "bytes \<Rightarrow> bytes list" where
  "blocks m = (if length m \<ge> 64 then take 64 m # blocks (drop 64 m) else [])"
  by pat_completeness auto
termination by (relation "measure length") auto

declare blocks.simps [simp del]

text \<open>Bytes of a number and numbers of bytes, most significant first.\<close>

definition big_endian_value :: "bytes \<Rightarrow> nat" where
  "big_endian_value b = foldl (\<lambda>n x. n * 256 + unat x) 0 b"

definition big_endian_bytes :: "nat \<Rightarrow> nat \<Rightarrow> bytes" where
  "big_endian_bytes k n = map (\<lambda>i. of_nat (n div 256 ^ (k - 1 - i))) [0..<k]"

definition padded :: "bytes \<Rightarrow> bytes" where
  "padded m =
     m @ [0x80] @ replicate ((119 - length m mod 64) mod 64) 0 @ big_endian_bytes 8 (8 * length m mod 2 ^ 64)"

text \<open>
  The compression function as the standard (FIPS 180-4) writes it, with the library's rotation: the schedule of words by
  recursion, and the eight working variables as a list.
\<close>

definition std_sigma :: "nat \<Rightarrow> nat \<Rightarrow> nat \<Rightarrow> u32 \<Rightarrow> u32" where
  "std_sigma i j k x = word_rotr i x XOR word_rotr j x XOR drop_bit k x"

definition std_big_sigma :: "nat \<Rightarrow> nat \<Rightarrow> nat \<Rightarrow> u32 \<Rightarrow> u32" where
  "std_big_sigma i j k x = word_rotr i x XOR word_rotr j x XOR word_rotr k x"

fun std_schedule :: "bytes \<Rightarrow> nat \<Rightarrow> u32" where
  "std_schedule block t =
     (if t < 16 then of_nat (big_endian_value (take 4 (drop (4 * t) block)))
      else std_sigma 17 19 10 (std_schedule block (t - 2)) + std_schedule block (t - 7) +
        std_sigma 7 18 3 (std_schedule block (t - 15)) + std_schedule block (t - 16))"

declare std_schedule.simps [simp del]

definition std_choose :: "u32 \<Rightarrow> u32 \<Rightarrow> u32 \<Rightarrow> u32" where
  "std_choose x y z = (x AND y) OR (NOT x AND z)"

definition std_majority :: "u32 \<Rightarrow> u32 \<Rightarrow> u32 \<Rightarrow> u32" where
  "std_majority x y z = (x AND y) OR (x AND z) OR (y AND z)"

definition std_round :: "u32 \<Rightarrow> u32 \<Rightarrow> u32 list \<Rightarrow> u32 list" where
  "std_round k w v =
     (let t1 = v ! 7 + std_big_sigma 6 11 25 (v ! 4) + std_choose (v ! 4) (v ! 5) (v ! 6) + k + w;
          t2 = std_big_sigma 2 13 22 (v ! 0) + std_majority (v ! 0) (v ! 1) (v ! 2)
      in [t1 + t2, v ! 0, v ! 1, v ! 2, v ! 3 + t1, v ! 4, v ! 5, v ! 6])"

primrec std_rounds :: "bytes \<Rightarrow> nat \<Rightarrow> u32 list \<Rightarrow> u32 list" where
  "std_rounds block 0 v = v"
| "std_rounds block (Suc t) v = std_round (kRoundConstants ! t) (std_schedule block t) (std_rounds block t v)"

definition std_block :: "u32 list \<Rightarrow> bytes \<Rightarrow> u32 list" where
  "std_block state block = map2 (+) state (std_rounds block 64 state)"

definition message_digest :: "bytes \<Rightarrow> bytes" where
  "message_digest m =
     concat (map (\<lambda>w. big_endian_bytes 4 (unat w)) (foldl std_block (sh_state new_hasher) (blocks (padded m))))"

text \<open>
  The constants of the standard: the first 32 bits of the fractional parts of the cube roots of the first
  64 primes, and of the square roots of the first eight. \<open>w\<close> is that word for the root of order \<open>k\<close> of \<open>p\<close>, and
  \<open>a\<close> the integer part.
\<close>

definition root_word :: "nat \<Rightarrow> nat \<Rightarrow> u32 \<Rightarrow> bool" where
  "root_word k p w \<longleftrightarrow>
     (\<exists>a. (a * 2 ^ 32 + unat w) ^ k \<le> p * 2 ^ (32 * k) \<and>
       p * 2 ^ (32 * k) < (a * 2 ^ 32 + unat w + 1) ^ k)"

definition first_primes :: "nat list" where
  "first_primes =
     [2, 3, 5, 7, 11, 13, 17, 19, 23, 29, 31, 37, 41, 43, 47, 53, 59, 61, 67, 71, 73, 79, 83, 89, 97, 101,
      103, 107, 109, 113, 127, 131, 137, 139, 149, 151, 157, 163, 167, 173, 179, 181, 191, 193, 197, 199,
      211, 223, 227, 229, 233, 239, 241, 251, 257, 263, 269, 271, 277, 281, 283, 293, 307, 311]"

lemma root_wordI:
  "list_all (\<lambda>(a, p, w). (a * 2 ^ 32 + unat w) ^ k \<le> p * 2 ^ (32 * k) \<and>
     p * 2 ^ (32 * k) < (a * 2 ^ 32 + unat w + 1) ^ k) (zip as (zip ps ws)) \<Longrightarrow>
   length as = length ps \<Longrightarrow> length ps = length ws \<Longrightarrow> list_all2 (root_word k) ps ws"
  by (auto simp: list_all2_conv_all_nth list_all_length root_word_def)

lemma round_constants_roots: "list_all2 (root_word 3) first_primes kRoundConstants"
  by (rule root_wordI [of _ "[1, 1, 1, 1, 2, 2, 2, 2, 2, 3, 3, 3, 3, 3, 3, 3, 3, 3, 4, 4, 4, 4, 4, 4, 4, 4, 4, 4, 4, 4, 5,
      5, 5, 5, 5, 5, 5, 5, 5, 5, 5, 5, 5, 5, 5, 5, 5, 6, 6, 6, 6, 6, 6, 6, 6, 6, 6, 6, 6, 6, 6,
      6, 6, 6]"])
    (simp_all add: first_primes_def kRoundConstants_def)

lemma initial_state_roots: "list_all2 (root_word 2) (take 8 first_primes) (sh_state new_hasher)"
  by (rule root_wordI [of _ "[1, 1, 2, 2, 3, 3, 4, 4]"]) (simp_all add: first_primes_def new_hasher_def)

section \<open>The code's compression function\<close>

lemma rotr_eq: "n < 32 \<Longrightarrow> rotr w n = word_rotr n w"
proof (rule bit_word_eqI)
  fix i assume n: "n < 32" and i: "i < LENGTH(32)"
  have "bit (rotr w n) i \<longleftrightarrow> bit w (i + n) \<or> (32 - n \<le> i \<and> bit w (i - (32 - n)))"
    using i by (auto simp: rotr_def bit_simps add.commute)
  also have "\<dots> \<longleftrightarrow> bit w ((i + n) mod 32)"
  proof (cases "i + n < 32")
    case True
    then have "\<not> 32 - n \<le> i" by arith
    then show ?thesis using True by simp
  next
    case False
    then have "(i + n) mod 32 = i - (32 - n)" "\<not> bit w (i + n)"
      using n i by (auto simp: mod_if dest: bit_imp_le_length)
    then show ?thesis using False by auto
  qed
  finally show "bit (rotr w n) i \<longleftrightarrow> bit (word_rotr n w) i"
    using i by (simp add: bit_word_rotr_iff)
qed

lemma read_big_endian_value:
  assumes "length b = 4"
  shows "read_big_endian b = of_nat (big_endian_value b)"
proof -
  obtain x y z w where b: "b = [x, y, z, w]"
    using assms by (auto simp: length_Suc_conv eval_nat_numeral)
  have u: "unat (ucast v :: u32) = unat v" "unat v < 256" for v :: u8
    by (simp_all add: unat_ucast_up unat_lt_u8)
  have p: "unat (push_bit 8 (ucast v :: u32)) = unat v * 2 ^ 8" "unat (push_bit 16 (ucast v :: u32)) = unat v * 2 ^ 16"
    "unat (push_bit 24 (ucast v :: u32)) = unat v * 2 ^ 24" for v :: u8
    using u(2) [of v] by (simp_all add: unat_push_bit u(1))
  have o1: "unat (push_bit 8 (ucast z) OR ucast w :: u32) = unat z * 2 ^ 8 + unat w"
    using u [of w] by (subst unat_or_low_bits [where n = 8]) (simp_all add: p)
  have o2: "unat (push_bit 16 (ucast y) OR (push_bit 8 (ucast z) OR ucast w) :: u32) =
      unat y * 2 ^ 16 + (unat z * 2 ^ 8 + unat w)"
    using u(2) [of w] u(2) [of z] by (subst unat_or_low_bits [where n = 16]) (simp_all add: p o1)
  have "unat (push_bit 24 (ucast x) OR (push_bit 16 (ucast y) OR (push_bit 8 (ucast z) OR ucast w)) :: u32) =
      unat x * 2 ^ 24 + (unat y * 2 ^ 16 + (unat z * 2 ^ 8 + unat w))"
    using u(2) [of w] u(2) [of z] u(2) [of y] by (subst unat_or_low_bits [where n = 24]) (simp_all add: p o2)
  then have "unat (read_big_endian b) = big_endian_value b"
    by (simp add: read_big_endian_def b big_endian_value_def or.assoc)
  then show ?thesis by (metis of_nat_unat ucast_id)
qed

lemma big_endian_bytes_word:
  "write_big_endian v = big_endian_bytes 4 (unat v)"
  "count_be c = big_endian_bytes 8 (unat c)"
proof -
  have b: "(ucast (drop_bit (8 * k) w) :: u8) = of_nat (unat w div 256 ^ k)" for w :: "'a::len word" and k
  proof -
    have "unat (ucast (drop_bit (8 * k) w) :: u8) = unat (of_nat (unat w div 256 ^ k) :: u8)"
      by (simp only: unat_ucast_mod unat_drop_bit unat_of_nat) (simp add: power_mult)
    then show ?thesis by (simp only: word_unat_eq_iff)
  qed
  show "write_big_endian v = big_endian_bytes 4 (unat v)"
    using b [of 0 v] b [of 1 v] b [of 2 v] b [of 3 v]
    by (simp add: write_big_endian_def big_endian_bytes_def upt_rec)
  show "count_be c = big_endian_bytes 8 (unat c)"
    using b [of 0 c] b [of 1 c] b [of 2 c] b [of 3 c] b [of 4 c] b [of 5 c] b [of 6 c] b [of 7 c]
    by (simp add: count_be_def big_endian_bytes_def upt_rec)
qed

lemma choose_eq: "(e AND f) XOR (NOT e AND g) = std_choose e f g"
  by (rule bit_word_eqI) (auto simp: std_choose_def bit_simps)

lemma majority_eq: "(a AND b) XOR (a AND c) XOR (b AND c) = std_majority a b c"
  by (rule bit_word_eqI) (auto simp: std_majority_def bit_simps)

lemma block_schedule:
  assumes "64 \<le> length block"
  shows "foldl extend_words (block_words block) [16..<16 + n] = map (std_schedule block) [0..<16 + n]"
proof (induction n)
  case 0
  have "read_big_endian (take 4 (drop (4 * i) block)) = std_schedule block i" if "i < 16" for i
    using assms that by (subst std_schedule.simps) (simp add: read_big_endian_value)
  then show ?case by (auto simp: block_words_def)
next
  case (Suc n)
  have "[16..<16 + Suc n] = [16..<16 + n] @ [16 + n]"
    "[0..<16 + Suc n] = [0..<16 + n] @ [16 + n]"
    by (simp_all only: add_Suc_right upt_Suc_append le_add1 le0)
  moreover have "extend_words (map (std_schedule block) [0..<16 + n]) (16 + n) =
      map (std_schedule block) [0..<16 + n] @ [std_schedule block (16 + n)]"
    using std_schedule.simps [of block "16 + n"]
    by (simp add: extend_words_def Let_def std_sigma_def rotr_eq nth_append algebra_simps)
  ultimately show ?case using Suc by (simp only: foldl_append map_append foldl.simps list.map)
qed

definition working_of :: "u32 list \<Rightarrow> working" where
  "working_of v = (v ! 0, v ! 1, v ! 2, v ! 3, v ! 4, v ! 5, v ! 6, v ! 7)"

lemma sha_round_std: "sha_round w (working_of v) i = working_of (std_round (kRoundConstants ! i) (w ! i) v)"
  unfolding sha_round_def working_of_def std_round_def Let_def std_big_sigma_def prod.case choose_eq majority_eq
  by (simp add: rotr_eq)

lemma sha_rounds_std:
  "n \<le> length w \<Longrightarrow> w = map (std_schedule block) [0..<length w] \<Longrightarrow>
   foldl (sha_round w) (working_of v) [0..<n] = working_of (std_rounds block n v)"
proof (induction n)
  case (Suc n)
  then have "w ! n = std_schedule block n"
    by (metis Suc_le_lessD add_0 nth_map_upt diff_zero)
  then show ?case using Suc by (simp add: sha_round_std)
qed simp

lemma std_rounds_length: "length v = 8 \<Longrightarrow> length (std_rounds block n v) = 8"
  by (cases n) (simp_all add: std_round_def Let_def)

lemma eight_words: "length v = 8 \<Longrightarrow> \<exists>a b c d e f g h. v = [a, b, c, d, e, f, g, h]"
  by (auto simp: length_Suc_conv eval_nat_numeral)

lemma process_block_std:
  assumes "length state = 8" "64 \<le> length block"
  shows "process_block state block = std_block state block" "length (std_block state block) = 8"
proof -
  let ?w = "map (std_schedule block) [0..<64]"
  have "foldl extend_words (block_words block) [16..<64] = ?w"
    using block_schedule [OF assms(2), of 48] by simp
  moreover have "foldl (sha_round ?w) (working_of state) [0..<64] = working_of (std_rounds block 64 state)"
    by (rule sha_rounds_std) simp_all
  ultimately have code: "process_block state block =
      (case working_of (std_rounds block 64 state) of (a, b, c, d, e, f, g, h) \<Rightarrow>
          [state ! 0 + a, state ! 1 + b, state ! 2 + c, state ! 3 + d,
           state ! 4 + e, state ! 5 + f, state ! 6 + g, state ! 7 + h])"
    by (simp add: process_block_def working_of_def Let_def)
  have l: "length (std_rounds block 64 state) = 8"
    using assms(1) by (rule std_rounds_length)
  obtain a b c d e f g h where x: "std_rounds block 64 state = [a, b, c, d, e, f, g, h]"
    using eight_words [OF l] by blast
  obtain a' b' c' d' e' f' g' h' where y: "state = [a', b', c', d', e', f', g', h']"
    using eight_words [OF assms(1)] by blast
  show "process_block state block = std_block state block"
    unfolding code std_block_def x working_of_def prod.case by (simp add: y)
  show "length (std_block state block) = 8" using l assms(1) by (simp add: std_block_def)
qed

lemma blocks_length: "b \<in> set (blocks m) \<Longrightarrow> length b = 64"
proof (induction m rule: blocks.induct)
  case (1 m)
  then show ?case by (subst (asm) blocks.simps) (auto split: if_splits)
qed

lemma process_blocks_std:
  "list_all (\<lambda>b. length b = 64) bs \<Longrightarrow> length state = 8 \<Longrightarrow>
   foldl process_block state bs = foldl std_block state bs"
  by (induction bs arbitrary: state) (simp_all add: process_block_std)

lemma padded_code: "padded m = m @ [0x80] @ replicate ((119 - length m mod 64) mod 64) 0 @ count_be (of_nat (8 * length m))"
  by (simp only: padded_def big_endian_bytes_word(2) unat_of_nat) simp

lemma message_digest_code:
  "message_digest m = sha_digest (foldl process_block (sh_state new_hasher) (blocks (padded m)))"
proof -
  have "list_all (\<lambda>b. length b = 64) (blocks (padded m))" by (simp add: list_all_iff blocks_length)
  moreover have "length (sh_state new_hasher) = 8" by (simp add: new_hasher_def)
  moreover have "write_big_endian = (\<lambda>w. big_endian_bytes 4 (unat w))"
    by (simp add: fun_eq_iff big_endian_bytes_word)
  ultimately show ?thesis
    by (simp add: message_digest_def sha_digest_def process_blocks_std)
qed

section \<open>The hasher computes the digest\<close>

definition rest :: "bytes \<Rightarrow> bytes" where
  "rest m = drop (64 * (length m div 64)) m"

lemma length_rest: "length (rest m) = length m mod 64"
  by (simp add: rest_def minus_mult_div_eq_mod)

lemma blocks_short [simp]: "length m < 64 \<Longrightarrow> blocks m = []"
  by (subst blocks.simps) simp

lemma rest_short: "length m < 64 \<Longrightarrow> rest m = m"
  by (simp add: rest_def)

lemma blocks_block: "length b = 64 \<Longrightarrow> blocks (b @ m) = b # blocks m"
  by (subst blocks.simps) simp

lemma rest_step: "64 \<le> length m \<Longrightarrow> rest (drop 64 m) = rest m"
  by (simp add: rest_def div_if [of "length m"] add.commute)

lemma blocks_append: "blocks (m @ b) = blocks m @ blocks (rest m @ b)"
proof (induction m rule: blocks.induct)
  case (1 m)
  show ?case
  proof (cases "64 \<le> length m")
    case True
    then have "blocks (m @ b) = take 64 m # blocks (drop 64 m @ b)"
      using blocks_block [of "take 64 m" "drop 64 m @ b"] append_take_drop_id [of 64 m]
      by (simp add: append_assoc [symmetric] del: append_assoc)
    with "1.IH" [OF True] True show ?thesis
      by (simp add: rest_step blocks.simps [of m])
  next
    case False
    then show ?thesis by (simp add: rest_short)
  qed
qed

lemma rest_append: "rest (m @ b) = rest (rest m @ b)"
proof (induction m rule: blocks.induct)
  case (1 m)
  show ?case
  proof (cases "64 \<le> length m")
    case True
    then show ?thesis using "1.IH" [OF True] rest_step [of "m @ b"] rest_step [of m] by simp
  next
    case False
    then show ?thesis by (simp add: rest_short)
  qed
qed

lemma process_blocks_eq: "process_blocks state b = (foldl process_block state (blocks b), rest b)"
proof (induction state b rule: process_blocks.induct)
  case (1 state b)
  then show ?case
    by (cases "64 \<le> length b")
      (simp_all add: process_blocks.simps [of state b] blocks.simps [of b] rest_step rest_short)
qed

text \<open>A hasher that has been fed the message \<open>m\<close>.\<close>

definition absorbed :: "Sha256Hasher \<Rightarrow> bytes \<Rightarrow> bool" where
  "absorbed H m \<longleftrightarrow>
     \<not> sh_finished H \<and> sh_state H = foldl process_block (sh_state new_hasher) (blocks m) \<and>
     sh_pending_size H = length (rest m) \<and> length (sh_pending H) = 64 \<and>
     take (length (rest m)) (sh_pending H) = rest m \<and> sh_byte_count H = of_nat (length m)"

lemma absorbed_new: "absorbed new_hasher []"
  by (simp add: absorbed_def new_hasher_def rest_def)

lemma length_copy_at: "i + length src \<le> length buffer \<Longrightarrow> length (copy_at buffer i src) = length buffer"
  by (simp add: copy_at_def)

lemma take_copy_at: "i \<le> length buffer \<Longrightarrow> take (i + length src) (copy_at buffer i src) = take i buffer @ src"
  by (simp add: copy_at_def)

lemma rest_lt: "length (rest m) < 64"
  by (simp add: length_rest)

lemma absorbed_update:
  assumes "absorbed H m"
  shows "absorbed (sha_update H b) (m @ b)"
proof (cases "b = []")
  case True
  then show ?thesis using assms by (simp add: sha_update_def)
next
  case False
  let ?t = "rest m"
  let ?H0 = "H\<lparr>sh_byte_count := sh_byte_count H + of_nat (length b)\<rparr>"
  let ?s = "foldl process_block (sh_state new_hasher) (blocks m)"
  have H: "\<not> sh_finished H" "sh_state H = ?s" "sh_pending_size H = length ?t" "length (sh_pending H) = 64"
    "take (length ?t) (sh_pending H) = ?t" "sh_byte_count H = of_nat (length m)"
    using assms by (auto simp: absorbed_def)
  have t: "length ?t < 64" by (rule rest_lt)
  have split: "blocks (m @ b) = blocks m @ blocks (?t @ b)" "rest (m @ b) = rest (?t @ b)"
    by (rule blocks_append, rule rest_append)
  obtain H1 b1 where f: "fill_pending ?H0 b = (H1, b1)" by (cases "fill_pending ?H0 b")
  have up: "sha_update H b =
      (let H2 = H1\<lparr>sh_state := foldl process_block (sh_state H1) (blocks b1)\<rparr> in
       if rest b1 \<noteq> [] then H2\<lparr>sh_pending := copy_at (sh_pending H2) 0 (rest b1), sh_pending_size := length (rest b1)\<rparr>
       else H2)"
    using False H(1) f by (simp add: sha_update_def process_blocks_eq Let_def)
  show ?thesis
  proof (cases "length ?t + length b < 64 \<and> ?t \<noteq> []")
    case True
    then have c: "min (length b) (64 - length ?t) = length b" by linarith
    from f True H(3) have H1: "H1 = ?H0\<lparr>sh_pending := copy_at (sh_pending H) (length ?t) b, sh_pending_size := length ?t + length b\<rparr>"
      "b1 = []"
      by (auto simp: fill_pending_def c Let_def)
    have "rest (?t @ b) = ?t @ b" "blocks (?t @ b) = []" using True by (simp_all add: rest_short)
    moreover have "take (length ?t + length b) (copy_at (sh_pending H) (length ?t) b) = ?t @ b"
      using take_copy_at [of "length ?t" "sh_pending H" b] H(4,5) t by simp
    moreover have "length (copy_at (sh_pending H) (length ?t) b) = 64"
      using length_copy_at [of "length ?t" b "sh_pending H"] H(4) True by simp
    ultimately show ?thesis unfolding absorbed_def up split
      using H H1 by (simp add: rest_short)
  next
    case long: False
    have H1: "b1 = drop (length (?t @ b) - length b1) (?t @ b) \<and> \<not> sh_finished H1 \<and>
        sh_state H1 = foldl process_block ?s (if ?t = [] then [] else [take 64 (?t @ b)]) \<and>
        b1 = (if ?t = [] then b else drop (64 - length ?t) b) \<and>
        sh_pending_size H1 = 0 \<and> length (sh_pending H1) = 64 \<and> sh_byte_count H1 = of_nat (length m) + of_nat (length b)"
    proof (cases "?t = []")
      case True
      then show ?thesis using f H by (auto simp: fill_pending_def)
    next
      case nt: False
      with long have l: "64 \<le> length ?t + length b" by simp
      then have c: "min (length b) (64 - length ?t) = 64 - length ?t" by simp
      let ?p = "copy_at (sh_pending H) (length ?t) (take (64 - length ?t) b)"
      have lp: "length ?p = 64" using length_copy_at [of "length ?t" "take (64 - length ?t) b" "sh_pending H"] H(4) t l by simp
      then have p: "?p = ?t @ take (64 - length ?t) b"
        using take_copy_at [of "length ?t" "sh_pending H" "take (64 - length ?t) b"] H(4,5) t l by simp
      have H1: "H1 = ?H0\<lparr>sh_pending := ?p, sh_state := process_block (sh_state H) ?p, sh_pending_size := 0\<rparr>"
        "b1 = drop (64 - length ?t) b"
        using f nt H(3) t by (auto simp: fill_pending_def c Let_def)
      have "take 64 (?t @ b) = ?t @ take (64 - length ?t) b" using t by simp
      then show ?thesis using H1 H nt p lp t by simp
    qed
    have bl: "blocks (?t @ b) = (if ?t = [] then [] else [take 64 (?t @ b)]) @ blocks b1"
      and re: "rest (?t @ b) = rest b1"
    proof -
      show "blocks (?t @ b) = (if ?t = [] then [] else [take 64 (?t @ b)]) @ blocks b1"
      proof (cases "?t = []")
        case False
        then show ?thesis using H1 long t by (simp add: blocks.simps [of "?t @ b"])
      qed (use H1 in simp)
      show "rest (?t @ b) = rest b1"
        using H1 long t rest_step [of "?t @ b"] by auto
    qed
    have r1: "length (rest b1) \<le> 64" using rest_lt [of b1] by simp
    show ?thesis
    proof (cases "rest b1 = []")
      case True
      then show ?thesis unfolding absorbed_def up split bl re using H1 by (simp add: Let_def)
    next
      case ne: False
      have "length (copy_at (sh_pending H1) 0 (rest b1)) = 64"
        using length_copy_at [of 0 "rest b1" "sh_pending H1"] r1 H1 by simp
      moreover have "take (length (rest b1)) (copy_at (sh_pending H1) 0 (rest b1)) = rest b1"
        using take_copy_at [of 0 "sh_pending H1" "rest b1"] by simp
      ultimately show ?thesis unfolding absorbed_def up split bl re using H1 ne by (simp add: Let_def)
    qed
  qed
qed

lemma absorbed_updates: "absorbed H m \<Longrightarrow> absorbed (foldl sha_update H bs) (m @ concat bs)"
proof (induction bs arbitrary: H m)
  case (Cons b bs)
  from Cons.IH [OF absorbed_update [OF Cons.prems]] show ?case by simp
qed simp

lemma copy_at_end: "take i buffer = p \<Longrightarrow> i + length src = length buffer \<Longrightarrow> copy_at buffer i src = p @ src"
  by (simp add: copy_at_def)

lemma padding_size:
  "n < 64 \<Longrightarrow> (119 - n) mod 64 = (if n + 1 > 56 then (64 - (n + 1)) + 56 else 56 - (n + 1))" for n :: nat
proof (cases "n + 1 > 56")
  case True
  then show "n < 64 \<Longrightarrow> ?thesis" by simp
next
  case False
  then have "119 - n = 55 - n + 64" "55 - n < 64" by simp_all
  then have "(119 - n) mod 64 = 55 - n" by (metis mod_add_self2 mod_less)
  with False show ?thesis by simp
qed

lemma finish_absorbed:
  assumes "absorbed H m"
  shows "fst (sha_finish H) = message_digest m \<and> sh_finished (snd (sha_finish H))"
proof -
  let ?t = "rest m" and ?n = "length (rest m)"
  let ?s = "foldl process_block (sh_state new_hasher) (blocks m)"
  let ?c = "count_be (of_nat (8 * length m))"
  have H: "\<not> sh_finished H" "sh_state H = ?s" "sh_pending_size H = ?n" "length (sh_pending H) = 64"
    "take ?n (sh_pending H) = ?t" "sh_byte_count H = of_nat (length m)"
    using assms by (auto simp: absorbed_def)
  have n: "?n < 64" by (rule rest_lt)
  have lc: "length ?c = 8" by (simp add: count_be_def)
  have bits: "sh_byte_count H * 8 = (of_nat (8 * length m) :: u64)" by (simp add: H(6))
  let ?p = "(sh_pending H)[?n := 0x80]"
  have p: "take (?n + 1) ?p = ?t @ [0x80]" "length ?p = 64"
    using H(4,5) n by (simp_all add: take_Suc_conv_app_nth)
  have "blocks (padded m) = blocks m @ blocks (?t @ [0x80] @ replicate ((119 - ?n) mod 64) 0 @ ?c)"
    unfolding padded_code length_rest by (rule blocks_append)
  then have digest: "message_digest m = sha_digest (foldl process_block ?s (blocks (?t @ [0x80] @ replicate ((119 - ?n) mod 64) 0 @ ?c)))"
    by (simp add: message_digest_code)
  show ?thesis
  proof (cases "?n + 1 > 56")
    case True
    let ?b = "copy_at ?p (?n + 1) (replicate (64 - (?n + 1)) 0)"
    have b: "?b = ?t @ [0x80] @ replicate (64 - (?n + 1)) 0"
      using copy_at_end [OF p(1), of "replicate (64 - (?n + 1)) 0"] p(2) n by simp
    have lb: "length ?b = 64" using n by (subst b) simp
    have q: "copy_at (copy_at ?b 0 (replicate (56 - 0) 0)) 56 ?c = replicate 56 0 @ ?c"
    proof (rule copy_at_end)
      show "take 56 (copy_at ?b 0 (replicate (56 - 0) 0)) = replicate 56 0"
        using take_copy_at [of 0 ?b "replicate 56 0"] by simp
      show "56 + length ?c = length (copy_at ?b 0 (replicate (56 - 0) 0))"
        using length_copy_at [of 0 "replicate 56 0" ?b] lb lc by simp
    qed
    have e: "?t @ [0x80] @ replicate ((119 - ?n) mod 64) 0 @ ?c = ?b @ (replicate 56 0 @ ?c) @ []"
      unfolding padding_size [OF n] b using True by (simp add: replicate_add)
    have "blocks (?t @ [0x80] @ replicate ((119 - ?n) mod 64) 0 @ ?c) = ?b # blocks ((replicate 56 0 @ ?c) @ [])"
      unfolding e by (rule blocks_block [OF lb])
    also have "\<dots> = [?b, replicate 56 0 @ ?c]"
      using blocks_block [of "replicate 56 0 @ ?c" "[]"] lc by simp
    finally have bb: "blocks (?t @ [0x80] @ replicate ((119 - ?n) mod 64) 0 @ ?c) = [?b, replicate 56 0 @ ?c]" .
    have "fst (sha_finish H) = sha_digest (process_block (process_block ?s ?b)
        (copy_at (copy_at ?b 0 (replicate (56 - 0) 0)) 56 ?c)) \<and> sh_finished (snd (sha_finish H))"
      using True H(1-4) bits by (simp add: sha_finish_def Let_def)
    then show ?thesis unfolding q digest bb by simp
  next
    case False
    let ?b = "copy_at (copy_at ?p (?n + 1) (replicate (56 - (?n + 1)) 0)) 56 ?c"
    have b: "?b = (?t @ [0x80] @ replicate (56 - (?n + 1)) 0) @ ?c"
    proof (rule copy_at_end)
      show "take 56 (copy_at ?p (?n + 1) (replicate (56 - (?n + 1)) 0)) = ?t @ [0x80] @ replicate (56 - (?n + 1)) 0"
        using take_copy_at [of "?n + 1" ?p "replicate (56 - (?n + 1)) 0"] p False by simp
      show "56 + length ?c = length (copy_at ?p (?n + 1) (replicate (56 - (?n + 1)) 0))"
        using length_copy_at [of "?n + 1" "replicate (56 - (?n + 1)) 0" ?p] p(2) lc False by simp
    qed
    have lb: "length ?b = 64" using False lc by (subst b) simp
    have e: "?t @ [0x80] @ replicate ((119 - ?n) mod 64) 0 @ ?c = ?b @ []"
      unfolding padding_size [OF n] b using False by simp
    have bb: "blocks (?t @ [0x80] @ replicate ((119 - ?n) mod 64) 0 @ ?c) = [?b]"
      unfolding e by (simp only: blocks_block [OF lb]) simp
    have "fst (sha_finish H) = sha_digest (process_block ?s ?b) \<and> sh_finished (snd (sha_finish H))"
      using False H(1-4) bits by (simp add: sha_finish_def Let_def)
    then show ?thesis unfolding digest bb by simp
  qed
qed

section \<open>Digests as text\<close>

lemma digest_text: "artifact_digest_hex d =
    concat (map (\<lambda>b. [digest_hex_digits ! unat (drop_bit 4 b), digest_hex_digits ! unat (b AND 0x0F)]) d)"
proof -
  have "foldl (\<lambda>result b. result @ [digest_hex_digits ! unat (drop_bit 4 b), digest_hex_digits ! unat (b AND 0x0F)]) r d =
      r @ concat (map (\<lambda>b. [digest_hex_digits ! unat (drop_bit 4 b), digest_hex_digits ! unat (b AND 0x0F)]) d)" for r
    by (induction d arbitrary: r) simp_all
  from this [of "[]"] show ?thesis by (simp add: artifact_digest_hex_def)
qed

lemma hex_value_digit:
  "0 \<le> lowercase_hex_value c \<Longrightarrow> lowercase_hex_value c < 16 \<and> digest_hex_digits ! nat (lowercase_hex_value c) = c"
proof -
  have digit: "digest_hex_digits ! k = char_of (if k < 10 then 48 + k else 87 + k)" if "k < 16" for k :: nat
  proof -
    have "list_all (\<lambda>k. digest_hex_digits ! k = char_of (if k < 10 then 48 + k else 87 + k)) [0..<16]"
      by code_simp
    then have "\<forall>k \<in> set [0..<16]. digest_hex_digits ! k = char_of (if k < 10 then 48 + k else 87 + k)"
      unfolding list_all_iff .
    with that show ?thesis by simp
  qed
  assume a: "0 \<le> lowercase_hex_value c"
  consider "48 \<le> code c" "code c \<le> 57" | "97 \<le> code c" "code c \<le> 102"
    using a by (auto simp: lowercase_hex_value_def split: if_splits)
  then show ?thesis
  proof cases
    case 1
    then have v: "lowercase_hex_value c = int (code c - 48)" by (simp add: lowercase_hex_value_def of_nat_diff)
    have "digest_hex_digits ! (code c - 48) = char_of (code c)"
      using 1 digit [of "code c - 48"] by (cases "code c - 48 < 10") simp_all
    with v 1 show ?thesis by (simp only: nat_int) simp
  next
    case 2
    then have v: "lowercase_hex_value c = int (code c - 87)" by (simp add: lowercase_hex_value_def of_nat_diff)
    have "digest_hex_digits ! (code c - 87) = char_of (code c)"
      using 2 digit [of "code c - 87"] by (cases "code c - 87 < 10") simp_all
    with v 2 show ?thesis by (simp only: nat_int) simp
  qed
qed

lemma digit_hex_value:
  assumes "k < 16"
  shows "lowercase_hex_value (digest_hex_digits ! k) = int k"
proof -
  have "list_all (\<lambda>k. lowercase_hex_value (digest_hex_digits ! k) = int k) [0..<16]" by code_simp
  then have "\<forall>k \<in> set [0..<16]. lowercase_hex_value (digest_hex_digits ! k) = int k" unfolding list_all_iff .
  with assms show ?thesis by simp
qed

definition hex_pair :: "u8 \<Rightarrow> string" where
  "hex_pair b = [digest_hex_digits ! unat (drop_bit 4 b), digest_hex_digits ! unat (b AND 0x0F)]"

definition pair_value :: "char \<Rightarrow> char \<Rightarrow> u8" where
  "pair_value c d = of_int (push_bit 4 (lowercase_hex_value c) OR lowercase_hex_value d)"

lemma byte_nibbles: "unat (drop_bit 4 b) = unat b div 16" "unat (b AND 0x0F) = unat b mod 16" for b :: u8
proof -
  show "unat (drop_bit 4 b) = unat b div 16" by (simp add: drop_bit_eq_div unat_div)
  have "(0x0F :: u8) = mask 4" by (simp add: mask_eq_exp_minus_1)
  then have "b AND 0x0F = take_bit 4 b" by (simp only: take_bit_eq_mask)
  then show "unat (b AND 0x0F) = unat b mod 16" by (simp add: take_bit_eq_mod unat_mod)
qed

lemma nibbles_or:
  assumes "0 \<le> u" "0 \<le> l" "l < (16 :: int)"
  shows "push_bit 4 u OR l = 16 * u + l"
proof -
  have "l = take_bit 4 l" using assms by (simp add: take_bit_int_eq_self)
  then have "\<not> (bit l n \<and> 4 \<le> n)" for n by (metis bit_take_bit_iff not_le)
  then have "push_bit 4 u AND l = 0" by (intro bit_eqI) (auto simp: bit_simps not_le dest: leD)
  then have "push_bit 4 u + l = push_bit 4 u OR l" by (rule disjunctive_add_eq_or)
  then show ?thesis by (simp add: push_bit_eq_mult mult.commute)
qed

lemma pair_value_eq:
  assumes "0 \<le> lowercase_hex_value c" "0 \<le> lowercase_hex_value d"
  shows "unat (pair_value c d) = nat (16 * lowercase_hex_value c + lowercase_hex_value d)"
proof -
  have b: "lowercase_hex_value c < 16" "lowercase_hex_value d < 16" using hex_value_digit assms by blast+
  have "pair_value c d = of_int (16 * lowercase_hex_value c + lowercase_hex_value d)"
    using nibbles_or [OF assms b(2)] by (simp only: pair_value_def)
  then have "unat (pair_value c d) = nat (take_bit 8 (16 * lowercase_hex_value c + lowercase_hex_value d))"
    by (simp only: unsigned_of_int len_num1 len_bit0 mult_2 one_add_one) simp
  moreover have "take_bit 8 (16 * lowercase_hex_value c + lowercase_hex_value d) = 16 * lowercase_hex_value c + lowercase_hex_value d"
    using assms b by (intro take_bit_int_eq_self) simp_all
  ultimately show ?thesis by simp
qed

lemma hex_pair_value:
  assumes "0 \<le> lowercase_hex_value c" "0 \<le> lowercase_hex_value d"
  shows "hex_pair (pair_value c d) = [c, d]"
proof -
  have b: "lowercase_hex_value c < 16" "lowercase_hex_value d < 16"
    "digest_hex_digits ! nat (lowercase_hex_value c) = c" "digest_hex_digits ! nat (lowercase_hex_value d) = d"
    using hex_value_digit assms by blast+
  have "unat (pair_value c d) div 16 = nat (lowercase_hex_value c)" "unat (pair_value c d) mod 16 = nat (lowercase_hex_value d)"
    using assms b(1,2) by (simp_all add: pair_value_eq nat_add_distrib nat_mult_distrib div_add1_eq mod_add_eq)
  then show ?thesis using b(3,4) by (simp add: hex_pair_def byte_nibbles)
qed

lemma value_hex_pair:
  "0 \<le> lowercase_hex_value (hex_pair b ! 0)" "0 \<le> lowercase_hex_value (hex_pair b ! 1)"
  "pair_value (hex_pair b ! 0) (hex_pair b ! 1) = b"
proof -
  have lt: "unat b div 16 < 16" "unat b mod 16 < 16" using unat_lt_u8 [of b] by (simp_all add: less_mult_imp_div_less)
  have v: "lowercase_hex_value (hex_pair b ! 0) = int (unat b div 16)" "lowercase_hex_value (hex_pair b ! 1) = int (unat b mod 16)"
    using digit_hex_value [OF lt(1)] digit_hex_value [OF lt(2)] by (simp_all add: hex_pair_def byte_nibbles)
  then show n: "0 \<le> lowercase_hex_value (hex_pair b ! 0)" "0 \<le> lowercase_hex_value (hex_pair b ! 1)" by simp_all
  have "unat (pair_value (hex_pair b ! 0) (hex_pair b ! 1)) = nat (int (16 * (unat b div 16) + unat b mod 16))"
    unfolding pair_value_eq [OF n] v by (simp only: of_nat_add of_nat_mult of_nat_numeral)
  then have "unat (pair_value (hex_pair b ! 0) (hex_pair b ! 1)) = unat b" by (simp only: nat_int mult_div_mod_eq)
  then show "pair_value (hex_pair b ! 0) (hex_pair b ! 1) = b" by (rule word_unat_eq_iff [THEN iffD2])
qed

lemma digest_text_pairs: "artifact_digest_hex d = concat (map hex_pair d)"
  by (simp add: digest_text hex_pair_def [abs_def])

lemma length_pairs [simp]: "length (concat (map hex_pair d)) = 2 * length d"
  by (induction d) (simp_all add: hex_pair_def)

lemma pairs_nth:
  "k < length d \<Longrightarrow> concat (map hex_pair d) ! (2 * k) = hex_pair (d ! k) ! 0 \<and>
     concat (map hex_pair d) ! (2 * k + 1) = hex_pair (d ! k) ! 1"
proof (induction d arbitrary: k)
  case (Cons b d)
  have two: "length (hex_pair b) = 2" by (simp add: hex_pair_def)
  show ?case
  proof (cases k)
    case 0
    then show ?thesis by (simp add: nth_append two)
  next
    case (Suc j)
    then show ?thesis using Cons.IH [of j] Cons.prems by (simp add: nth_append two)
  qed
qed simp

definition pair_ok :: "string \<Rightarrow> nat \<Rightarrow> bool" where
  "pair_ok t i \<longleftrightarrow> 0 \<le> lowercase_hex_value (t ! (2 * i)) \<and> 0 \<le> lowercase_hex_value (t ! (2 * i + 1))"

lemma parse_digest_bytes_eq:
  "length result = i + n \<Longrightarrow> parse_digest_bytes n t i result =
     (if \<forall>k \<in> {i..<i + n}. pair_ok t k
      then Some (take i result @ map (\<lambda>k. pair_value (t ! (2 * k)) (t ! (2 * k + 1))) [i..<i + n]) else None)"
proof (induction n arbitrary: i result)
  case (Suc n)
  have range: "{i..<i + Suc n} = insert i {Suc i..<Suc i + n}" by auto
  have upt: "[i..<i + Suc n] = i # [Suc i..<Suc i + n]" by (simp add: upt_conv_Cons del: upt_Suc)
  show ?case
  proof (cases "pair_ok t i")
    case True
    let ?r = "result[i := pair_value (t ! (2 * i)) (t ! (2 * i + 1))]"
    have "parse_digest_bytes (Suc n) t i result = parse_digest_bytes n t (Suc i) ?r"
      using True by (simp add: pair_ok_def pair_value_def Let_def mult.commute)
    moreover have "take (Suc i) ?r = take i result @ [pair_value (t ! (2 * i)) (t ! (2 * i + 1))]"
      using Suc.prems by (simp add: take_Suc_conv_app_nth)
    ultimately show ?thesis using Suc.IH [of ?r "Suc i"] Suc.prems True unfolding range upt by simp
  next
    case False
    then show ?thesis unfolding range by (auto simp: pair_ok_def Let_def mult.commute)
  qed
qed simp

lemma parse_digest_iff: "parse_artifact_digest t = Some d \<longleftrightarrow> length d = 32 \<and> artifact_digest_hex d = t"
proof
  assume p: "parse_artifact_digest t = Some d"
  then have l: "length t = 64" and p: "parse_digest_bytes 32 t 0 (replicate 32 0) = Some d"
    by (auto simp: parse_artifact_digest_def split: if_splits)
  from p have ok: "\<forall>k \<in> {0..<32}. pair_ok t k" and d: "d = map (\<lambda>k. pair_value (t ! (2 * k)) (t ! (2 * k + 1))) [0..<32]"
    by (simp_all only: parse_digest_bytes_eq [of "replicate 32 0" 0 32] length_replicate add_0 take_0 append_Nil
        option.inject split: if_splits) auto
  have ld: "length d = 32" by (simp add: d)
  have "concat (map hex_pair d) = t"
  proof (rule nth_equalityI)
    show "length (concat (map hex_pair d)) = length t" using l ld by simp
    fix k assume k: "k < length (concat (map hex_pair d))"
    then have j: "k div 2 < 32" using ld by simp
    then have "hex_pair (d ! (k div 2)) = [t ! (2 * (k div 2)), t ! (2 * (k div 2) + 1)]"
      using ok hex_pair_value by (simp add: d pair_ok_def)
    then have e: "concat (map hex_pair d) ! (2 * (k div 2)) = t ! (2 * (k div 2))"
      "concat (map hex_pair d) ! (2 * (k div 2) + 1) = t ! (2 * (k div 2) + 1)"
      using pairs_nth [of "k div 2" d] j ld by simp_all
    show "concat (map hex_pair d) ! k = t ! k"
    proof (cases "even k")
      case True
      then have "2 * (k div 2) = k" by simp
      with e(1) show ?thesis by simp
    next
      case False
      then have "2 * (k div 2) + 1 = k" by simp
      with e(2) show ?thesis by simp
    qed
  qed
  then show "length d = 32 \<and> artifact_digest_hex d = t" using ld by (simp add: digest_text_pairs)
next
  assume a: "length d = 32 \<and> artifact_digest_hex d = t"
  then have t: "t = concat (map hex_pair d)" and l: "length t = 64" by (auto simp: digest_text_pairs)
  have n: "t ! (2 * k) = hex_pair (d ! k) ! 0 \<and> t ! (2 * k + 1) = hex_pair (d ! k) ! 1" if "k < 32" for k
    using pairs_nth [of k d] a that t by simp
  have ok: "\<forall>k \<in> {0..<32}. pair_ok t k" using n value_hex_pair by (simp add: pair_ok_def)
  have "map (\<lambda>k. pair_value (t ! (2 * k)) (t ! (2 * k + 1))) [0..<32] = d"
    using n value_hex_pair(3) a by (intro nth_equalityI) simp_all
  with ok show "parse_artifact_digest t = Some d"
    using l parse_digest_bytes_eq [of "replicate 32 0" 0 32 t] by (simp add: parse_artifact_digest_def)
qed

text \<open>
  C40: However a message is cut into pieces, feeding them to the hasher in order and finishing gives
  the SHA-256 digest of the whole message: its blocks, with the padding and the bit count of the standard, are
  each compressed once by the standard's function. The round constants and the initial state are the
  fractional parts of the roots of primes that the standard takes. After that, more input changes
  nothing and finishing again gives the same digest. The hexadecimal text of a digest is parsed back to it,
  and parsing accepts exactly those texts.
\<close>

theorem sha256_incremental:
  "fst (sha_finish (foldl sha_update new_hasher pieces)) = message_digest (concat pieces) \<and>
   sha256 m = message_digest m \<and>
   (let H = snd (sha_finish (foldl sha_update new_hasher pieces)) in
    sha_update H b = H \<and> sha_finish H = (message_digest (concat pieces), H)) \<and>
   (parse_artifact_digest t = Some d \<longleftrightarrow> length d = 32 \<and> artifact_digest_hex d = t) \<and>
   list_all2 (root_word 3) first_primes kRoundConstants \<and>
   list_all2 (root_word 2) (take 8 first_primes) (sh_state new_hasher)"
proof -
  let ?H = "foldl sha_update new_hasher pieces"
  have a: "absorbed ?H (concat pieces)" using absorbed_updates [OF absorbed_new, of pieces] by simp
  have "absorbed (sha_update new_hasher m) m" using absorbed_update [OF absorbed_new, of m] by simp
  then have s: "sha256 m = message_digest m" using finish_absorbed by (simp add: sha256_def)
  have d: "sha_digest (sh_state (snd (sha_finish ?H))) = fst (sha_finish ?H)"
    by (simp add: sha_finish_def Let_def)
  from finish_absorbed [OF a] s d show ?thesis
    using round_constants_roots initial_state_roots
    by (simp add: parse_digest_iff sha_update_def sha_finish_def [of "snd (sha_finish ?H)"] Let_def)
qed

end
