(* ===== verification/Spec2Isabelle.thy ===== *)
theory Spec2Isabelle
  imports Lexing Scalar_Constants Runtime_Numbers Runtime_Values Control_Flow Abi_Traversal Sha256
begin

text \<open>
  A verification development for the Cloth compiler \<^verbatim>\<open>clothc\<close> and its runtime library.

  \<^bold>\<open>The program.\<close> The compiler (\<^verbatim>\<open>src/src\<close>, headers in \<^verbatim>\<open>src/include/cloth\<close>) reads source files
  (\<^verbatim>\<open>source\<close>), lexes them (\<^verbatim>\<open>lexer\<close>), parses them (\<^verbatim>\<open>parser\<close>, \<^verbatim>\<open>ast\<close>), resolves and
  checks them and evaluates constants (\<^verbatim>\<open>sema\<close>, \<^verbatim>\<open>identity\<close>), lowers them to a high-level form
  (\<^verbatim>\<open>hir\<close>) on which control flow is checked (\<^verbatim>\<open>flow\<close>), to instructions (\<^verbatim>\<open>mir\<close>), and to
  a binary interface (\<^verbatim>\<open>abi\<close>, \<^verbatim>\<open>target\<close>), and prints LLVM code (\<^verbatim>\<open>backend\<close>); packages
  travel as artifacts with digests (\<^verbatim>\<open>artifact\<close>). The generated program runs on one C++ file,
  \<^verbatim>\<open>src/runtime/runtime.cc\<close>: strings, type metadata, a collected heap, values and parsing. The compiler
  and the runtime meet in the metadata: the compiler computes layouts and descriptors, the runtime validates and uses them.

  \<^bold>\<open>Theories and sources.\<close>
  \<^item> \<open>Prelude\<close>: words, characters as bytes, decimal text, scanning loops; no source of its own.
  \<^item> \<open>Diagnostics\<close>: \<^verbatim>\<open>source_location.h\<close>, \<^verbatim>\<open>source_range.h\<close>, \<^verbatim>\<open>diagnostic_engine.cc\<close>. The engine is
    a record that each report returns updated.
  \<^item> \<open>Tokens\<close> (\<^verbatim>\<open>token.cc\<close>), \<open>Utf8\<close>, \<open>Numeric_Literals\<close>, \<open>Text_Literals\<close> (the three parts of
    \<^verbatim>\<open>literal.cc\<close>), \<open>Lexing\<close> (\<^verbatim>\<open>lexer.cc\<close>; class \<open>Lexer\<close> is a record, each method a state transformer).
  \<^item> \<open>Numeric_Types\<close> (\<^verbatim>\<open>numeric_types.cc\<close>), \<open>Naturals\<close>, \<open>Float_Constants\<close>, \<open>Scalar_Constants\<close> (the class
    \<open>Natural\<close>, the binary formats, and the literals, conversions and operators of \<^verbatim>\<open>scalar_constants.cc\<close>).
  \<^item> \<open>Ast\<close> (shared enumerations of \<^verbatim>\<open>ast.h\<close>), \<open>Semantic_Model\<close> (\<^verbatim>\<open>semantic_model.cc\<close>),
    \<open>Canonical_Identity\<close> (both files \<^verbatim>\<open>canonical_identity.cc\<close>).
  \<^item> \<open>Control_Flow\<close>: \<^verbatim>\<open>control_flow.cc\<close> with the records of \<^verbatim>\<open>hir.h\<close> that it reads.
  \<^item> \<open>Data_Layout\<close> (\<^verbatim>\<open>data_layout.cc\<close>, checked arithmetic), \<open>Abi_Layout\<close>, \<open>Abi_Lowering\<close>, \<open>Abi_Traversal\<close>
    (\<^verbatim>\<open>abi.cc\<close>: layouts of types and of one file class; names, callables, descriptors and \<open>lower_to_abi\<close>;
    the order of files).
  \<^item> \<open>Sha256\<close>: \<^verbatim>\<open>sha256.cc\<close>.
  \<^item> \<open>Runtime_Strings\<close>, \<open>Runtime_Types\<close>, \<open>Runtime_Heap\<close>, \<open>Runtime_Numbers\<close>, \<open>Runtime_Values\<close>:
    the parts of \<^verbatim>\<open>runtime.cc\<close>. A failed check calls \<^verbatim>\<open>fail\<close>, which ends the process; it is \<open>Inl\<close> of the message.

  Definitions keep the names of the code; a loop is a function of its own, named after its function or step.

  \<^bold>\<open>What is shown.\<close>
  \<^item> Lexing: the UTF-8 coder and decoder are inverse and exact (C2 to C4); a literal is decoded exactly if it is in the
    grammar, to the number or text it spells (C5 to C9; the digits, the signed exponent and the suffix are read off
    the parts of the literal, not by the decoder's functions); the lexer ends, loses nothing, and
    gives every token its text, positions and kind (C10 to C13). The kinds of C12 are those of a separate description:
    spellings of punctuation, names of keywords, extents of words, numbers and quoted literals.
  \<^item> Constants: integer literals and widening (C14, C15), exact naturals (C16), exact integer operators, shifts, comparisons and
    conversions with their errors (C17 to C19), and correct rounding of floating-point operators and decimal text (C21 to C23).
  \<^item> Control flow: the analysis agrees with an inductive semantics of runs (C38). Identities: they determine what they
    name (C39). Digests: a message fed in pieces gets the digest that the standard's compression function, written
    out beside the code's, gives to the whole (C40).
  \<^item> Layouts: what \<open>lower_to_abi\<close> computes is sound and passes the runtime's checks (C1, in this theory since it
    joins both sides), and its traversal reaches every file unless there is a cycle (C20).
  \<^item> Runtime: strings (C24 to C26), type tests, layouts and dispatch (C27 to C29), the heap in every reachable state, exact
    collection, allocation and frames (C30 to C33), parsing and byte arrays (C34, for all kinds of
    primitive types, against tables and grammars of its own; C35), equality, hashes and text of
    boxed values (C36, C37).

  \<^bold>\<open>Interfaces.\<close> \<open>scan_loop\<close> is the contract of the lexer's four skipping loops, and \<open>char_loop\<close> that of
  the two that look at one character. \<open>natural_ops\<close> and
  \<open>natural_division\<close> are what long division needs of a natural, and the word lists of the evaluator provide it.
  \<open>utf8_decoder\<close> and \<open>utf8_counter\<close> are interpreted on the compiler's decoder and on the runtime's, which
  gives their equivalence. \<open>object_index\<close> is the hash index of the allocation registry, and \<open>mark_worklist\<close> the
  marking phase of the collector.

  \<^bold>\<open>Errors, undefined behaviour, ends.\<close> An exception, an access outside a table and undefined behaviour
  are \<open>None\<close>; reported failures are \<open>Inl\<close>, or an updated diagnostic engine. A loop whose end depends on the state
  is a \<^verbatim>\<open>partial_function\<close> (\<open>None\<close> is no result) or has fuel: \<open>frame_references\<close> ends on a chain of frames,
  a probe of the allocation index needs at most its capacity in steps, type tests and value layouts have the code's
  depth limit of 128 or its cycle check, and the control-flow analysis takes a fuel for which C38 gives a sufficient bound on
  every module without cycles. The other loops are total functions with a measure; so are the
  traversal of files (ready files and files that still wait) and the search for thrown types (unvisited symbols).

  \<^bold>\<open>Parameters and hypotheses.\<close> The system's allocator is a parameter, under the hypothesis that what it
  returns is not in use. \<^verbatim>\<open>std::from_chars\<close> for floating-point numbers and the shortest text of such a
  number are parameters. C38 assumes that ids are in range, that blocks do not contain themselves, and that the
  initializer of a \<^verbatim>\<open>for\<close> is a simple statement, as \<^verbatim>\<open>hir_verifier.cc\<close> checks. C1 assumes what the
  analyzer guarantees of the model: the string type is one, every struct has a type of its own, only classes extend
  classes. C20 assumes ids in range. C39 assumes that identities are shorter than \<open>2 ^ 64\<close> bytes.
  The runtime is modelled with pointers of eight bytes, the layouts for any valid target.

  \<^bold>\<open>Not modelled.\<close> The parser, the analyzer, the lowering to \<^verbatim>\<open>hir\<close> and \<^verbatim>\<open>mir\<close>, their verifiers and the optimizer
  work on the whole syntax tree or instruction set, which is not modelled; records of the semantic model
  and of \<^verbatim>\<open>mir.h\<close> leave out what only these passes read. The backend prints text for LLVM. Package artifacts,
  the Shuttle protocol, the drivers, console and file access in the runtime, and the printers are input and output. Of
  the runtime's values, copying into and out of boxes is left out; of digests, the system hash of Windows.

  \<^bold>\<open>Where the model stands back from the code.\<close> A stale entry of the allocation index, whose pointer the code would follow,
  is found as no allocation; the heap's invariant excludes it. The operands of a concatenation are values, so
  that the collection the allocation may start cannot release them in between. The identity of a type is
  computed from its shape, which \<open>type_shape\<close> reads off the semantic type. Null checks of output pointers are left out.
\<close>

section \<open>The compiler's layouts and the runtime's checks\<close>

text \<open>The bit tests for powers of two of the compiler and of the runtime agree.\<close>

lemma power_of_two_tests: "is_power_of_two_u64 a \<Longrightarrow> is_power_of_two (unat a)"
  by (auto simp: is_power_of_two_u64_iff is_power_of_two_iff)

lemma x86_64_object:
  "pointer_size llvm_x86_64 = 8" "pointer_alignment llvm_x86_64 = 8" "unat (object_header llvm_x86_64 False) = 16"
  by (simp_all add: llvm_x86_64_def object_header_def)

text \<open>The runtime accepts any slots that are in order and in place.\<close>

lemma validate_offsets_slots:
  assumes "slots_ok llvm_x86_64 16 sz slots" "\<forall>s \<in> set slots. \<forall>p. previous = Some p \<longrightarrow> p < unat s"
  shows "validate_offsets sz previous (map unat slots) = Inr ()"
  using assms
proof (induction slots arbitrary: previous)
  case (Cons s slots)
  have s: "16 \<le> unat s" "unat s + 8 \<le> sz" "8 dvd unat s" "slots_ok llvm_x86_64 16 sz slots"
    "\<forall>r \<in> set slots. unat s < unat r"
    using Cons.prems(1) by (auto simp: slots_ok_def x86_64_object)
  have "validate_offsets sz (Some (unat s)) (map unat slots) = Inr ()"
    by (rule Cons.IH) (use s in auto)
  then show ?case
    using s Cons.prems(2) by (auto simp: sizeof_ClothObjectHeader_def sizeof_pointer_def)
qed simp

lemma descriptor_accepted:
  assumes "descriptor_ok llvm_x86_64 descr"
  shows "validate_offsets (unat (atd_size descr)) None (map unat (atd_reference_offsets descr)) = Inr ()"
    and "sizeof_ClothObjectHeader \<le> unat (atd_size descr)"
    and "is_power_of_two (unat (atd_alignment descr))" "8 \<le> unat (atd_alignment descr)"
    and "unat (atd_alignment descr) dvd unat (atd_size descr)"
proof -
  note d = assms [unfolded descriptor_ok_def x86_64_object]
  show "validate_offsets (unat (atd_size descr)) None (map unat (atd_reference_offsets descr)) = Inr ()"
    by (rule validate_offsets_slots) (use d in simp_all)
  show "sizeof_ClothObjectHeader \<le> unat (atd_size descr)" using d by (simp add: sizeof_ClothObjectHeader_def)
  show p: "is_power_of_two (unat (atd_alignment descr))" using d by (simp add: power_of_two_tests)
  have "unat (atd_alignment descr) \<noteq> 0" using p by (simp add: is_power_of_two_def)
  then show "8 \<le> unat (atd_alignment descr)" using d by (intro dvd_imp_le) auto
  show "unat (atd_alignment descr) dvd unat (atd_size descr)" using d by simp
qed

text \<open>
  C1: the compiler's object layouts are sound, and the runtime accepts them. Whenever a module is lowered for x86-64,
  from a model in which every struct has a type of its own and only classes extend classes, the fields of every file
  class lie after its header and inside its size, each aligned for its type and none overlapping another; the
  fields of a base class are the first fields of the class, at the same offsets, and the class adds exactly its own
  instance fields, in order; and in every type descriptor that is emitted, the size, the alignment and the
  reference slots pass the checks with which the runtime validates a descriptor before it allocates.
\<close>

theorem class_layouts_sound:
  assumes "layout_model_ok files M" "lower_to_abi files M llvm_x86_64 d = Some (Inr abi)"
    and "i < length files" "f = abi_files abi ! i"
  shows "fields_ok (abi_types abi) (unat (acl_header_size (afc_layout f))) (unat (acl_size (afc_layout f)))
      (acl_fields (afc_layout f)) \<and>
    (\<forall>b. afc_base_file f = Some b \<longrightarrow>
       (\<exists>own. acl_fields (afc_layout f) = acl_fields (afc_layout (abi_files abi ! b)) @ own \<and>
          map afl_symbol own = instance_symbols M (mfc_fields (files ! i)))) \<and>
    (\<forall>descr. afc_type_descriptor f = Some descr \<longrightarrow> atd_mangled_name descr \<noteq> [] \<longrightarrow>
       validate_offsets (unat (atd_size descr)) None (map unat (atd_reference_offsets descr)) = Inr () \<and>
       sizeof_ClothObjectHeader \<le> unat (atd_size descr) \<and>
       is_power_of_two (unat (atd_alignment descr)) \<and> 8 \<le> unat (atd_alignment descr) \<and>
       unat (atd_alignment descr) dvd unat (atd_size descr))"
proof -
  have "abi_class_ok M files abi i" using lower_to_abi_layouts [OF assms(2,1)] assms(3) by blast
  note ok = this [unfolded abi_class_ok_def Let_def lower_to_abi_target(2) [OF assms(2)], folded assms(4)]
  show ?thesis
  proof (intro conjI allI impI)
    fix descr assume "afc_type_descriptor f = Some descr" "atd_mangled_name descr \<noteq> []"
    then have "descriptor_ok llvm_x86_64 descr"
      using ok [THEN conjunct2, THEN conjunct2, THEN conjunct2] by simp
    then show "validate_offsets (unat (atd_size descr)) None (map unat (atd_reference_offsets descr)) = Inr ()"
      "sizeof_ClothObjectHeader \<le> unat (atd_size descr)"
      "is_power_of_two (unat (atd_alignment descr))" "8 \<le> unat (atd_alignment descr)"
      "unat (atd_alignment descr) dvd unat (atd_size descr)"
      by (fact descriptor_accepted)+
  next
    fix b assume "afc_base_file f = Some b"
    then show "\<exists>own. acl_fields (afc_layout f) = acl_fields (afc_layout (abi_files abi ! b)) @ own \<and>
        map afl_symbol own = instance_symbols M (mfc_fields (files ! i))"
      using ok [THEN conjunct2, THEN conjunct2, THEN conjunct1] by simp
  qed (fact ok [THEN conjunct1])
qed

theorem class_layouts_sound_witness:
  "\<exists>abi. lower_to_abi sample_mir sample_layout_model llvm_x86_64 empty_engine = Some (Inr abi) \<and>
     fields_ok (abi_types abi) (unat (acl_header_size (afc_layout (abi_files abi ! 0))))
       (unat (acl_size (afc_layout (abi_files abi ! 0)))) (acl_fields (afc_layout (abi_files abi ! 0))) \<and>
     map (map_option atd_reference_offsets \<circ> afc_type_descriptor) (abi_files abi) = [Some [24, 56], Some [24], None]"
proof -
  from sample_lower_to_abi obtain abi where abi: "lower_to_abi sample_mir sample_layout_model llvm_x86_64 empty_engine = Some (Inr abi)"
    "map (map_option atd_reference_offsets \<circ> afc_type_descriptor) (abi_files abi) = [Some [24, 56], Some [24], None]"
    by (elim exE conjE) (rule that)
  have "0 < length sample_mir" by (simp add: sample_mir_length)
  note sound = class_layouts_sound [OF sample_inputs_ok(1) abi(1) this refl, THEN conjunct1]
  show ?thesis
    by (intro exI [of _ abi] conjI) (fact abi sound)+
qed

end
